(* ===== verification/Prelude.thy ===== *)
theory Prelude
  imports Main "HOL-Library.Word" "HOL-Library.Monad_Syntax"
begin

text \<open>
  Shared vocabulary of the development: the machine integers of the kernel, the encoding of
  Rust's \<open>Result\<close>, of panics and of assertions, and the generic facts on lists and words that
  the component theories use.

  A kernel computation that can panic (a failed \<open>assert!\<close>, an \<open>unwrap\<close> of \<open>None\<close> or of
  \<open>Err\<close>, an index out of range, \<open>unreachable!\<close>) has type \<open>'a option\<close>, written with the
  abbreviation \<open>kernel\<close>: \<open>None\<close> is the panic. Rust's own \<open>Option\<close> is HOL's \<open>option\<close> one
  level further in, and Rust's \<open>Result\<close> is the datatype \<open>result\<close> below. State is passed
  explicitly, so that an operation on a state \<open>'s\<close> has type \<open>'s \<Rightarrow> ('a \<times> 's) kernel\<close>.

  The kernel image is built by \<open>cargo build --release\<close> (src/xv6/Makefile), where Rust's integer
  operators wrap around. Counters and addresses whose wrap-around matters are therefore words;
  indices that an array bound keeps small are natural numbers.
\<close>

type_synonym u8 = "8 word"
type_synonym u16 = "16 word"
type_synonym u32 = "32 word"
type_synonym u64 = "64 word"
type_synonym usize = "64 word"
type_synonym i32 = "32 word"

type_synonym 'a kernel = "'a option"

datatype ('a, 'e) result = Ok 'a | Err 'e

fun is_ok :: "('a, 'e) result \<Rightarrow> bool" where
  "is_ok (Ok _) = True"
| "is_ok (Err _) = False"

fun unwrap :: "('a, 'e) result \<Rightarrow> 'a kernel" where
  "unwrap (Ok a) = Some a"
| "unwrap (Err _) = None"

definition assertk :: "bool \<Rightarrow> unit kernel" where
  "assertk b = (if b then Some () else None)"

named_theorems kernel_simps \<open>unfolding of the panic encoding\<close>

lemma assertk_eq_Some [simp]: "assertk b = Some u \<longleftrightarrow> b"
  by (simp add: assertk_def)

lemma assertk_True [simp]: "assertk True = Some ()"
  by (simp add: assertk_def)

lemma assertk_False [simp]: "assertk False = None"
  by (simp add: assertk_def)

lemma unwrap_eq_Some [simp]: "unwrap r = Some a \<longleftrightarrow> r = Ok a"
  by (cases r) auto

lemmas [kernel_simps] = Option.bind_eq_Some_conv

lemma unit_result_cases: "(r :: (unit, unit) result) = Ok () \<or> r = Err ()"
  by (cases r) auto

subsection \<open>Loops and blocking\<close>

text \<open>A \<open>for\<close> loop over a list, stopped by the first panic.\<close>

fun for_each :: "('a \<Rightarrow> 's \<Rightarrow> 's kernel) \<Rightarrow> 'a list \<Rightarrow> 's \<Rightarrow> 's kernel" where
  "for_each f [] s = Some s"
| "for_each f (x # xs) s = do { s \<leftarrow> f x s; for_each f xs s }"

lemma for_each_append: "for_each f (xs @ ys) s = do { s \<leftarrow> for_each f xs s; for_each f ys s }"
  by (induction xs arbitrary: s) (auto split: Option.bind_splits)

lemma for_each_upt_Suc: "for_each f [0..<Suc n] s = do { s \<leftarrow> for_each f [0..<n] s; f n s }"
  by (cases "for_each f [0..<n] s") (auto simp: for_each_append split: Option.bind_splits)

text \<open>
  One pass through a loop that may put the process to sleep: \<open>Sleep\<close> when it does (the loop is
  entered again after the wakeup), \<open>Done\<close> when it leaves the loop with a result.
\<close>

datatype 'a blocking = Sleep | Done 'a

subsection \<open>Lists\<close>

lemma find_SomeD: "find P xs = Some x \<Longrightarrow> x \<in> set xs \<and> P x"
  by (induction xs) (auto split: if_splits)

lemma find_NoneD: "find P xs = None \<Longrightarrow> x \<in> set xs \<Longrightarrow> \<not> P x"
  by (induction xs) (auto split: if_splits)

lemma find_NoneI: "(\<And>x. x \<in> set xs \<Longrightarrow> \<not> P x) \<Longrightarrow> find P xs = None"
  by (induction xs) auto

lemma find_upt_Some:
  "find P [0..<n] = Some i \<longleftrightarrow> i < n \<and> P i \<and> (\<forall>j<i. \<not> P j)"
  by (auto simp: find_Some_iff less_trans)

lemma find_upt_None: "find P [0..<n] = None \<longleftrightarrow> (\<forall>j<n. \<not> P j)"
  by (auto simp: find_None_iff)

lemma find_upt_SomeD:
  assumes "find P [0..<n] = Some i"
  shows "i < n" "P i" "\<forall>j<i. \<not> P j"
  using assms by (simp_all add: find_upt_Some)

lemma find_upt_SomeI: "i < n \<Longrightarrow> P i \<Longrightarrow> (\<And>j. j < i \<Longrightarrow> \<not> P j) \<Longrightarrow> find P [0..<n] = Some i"
  by (simp add: find_upt_Some)

subsection \<open>Words\<close>

unbundle bit_operations_syntax

lemma or_mask_set_bit:
  fixes w :: "'a::len word"
  shows "w OR 2 ^ n = set_bit n w"
  by (simp add: set_bit_eq_or)

lemma and_not_mask_unset_bit:
  fixes w :: "'a::len word"
  shows "w AND NOT (2 ^ n) = unset_bit n w"
  by (simp add: unset_bit_eq_and_not)

lemma and_mask_neq_0:
  fixes w :: "'a::len word"
  shows "w AND 2 ^ n \<noteq> 0 \<longleftrightarrow> bit w n"
  by (simp add: bit_iff_and_push_bit_not_eq_0)


lemma unat_of_nat_usize: "k < 2 ^ 64 \<Longrightarrow> unat (of_nat k :: usize) = k"
  by (simp add: unsigned_of_nat take_bit_nat_eq_self)

lemma unat_ucast_u32: "unat (ucast (w :: u32) :: usize) = unat w"
  using unsigned_less [of w, where 'a = nat] by (simp add: unsigned_ucast_eq take_bit_nat_eq_self)

subsection \<open>The memory of a process\<close>

text \<open>\<open>readable mem a bs\<close>: the bytes \<open>bs\<close> are in memory from address \<open>a\<close> on.\<close>

definition readable :: "(usize \<Rightarrow> u8 option) \<Rightarrow> usize \<Rightarrow> u8 list \<Rightarrow> bool" where
  "readable mem a bs \<longleftrightarrow> (\<forall>j<length bs. mem (a + of_nat j) = Some (bs ! j))"

lemma readable_Cons: "readable mem a (b # bs) \<longleftrightarrow> mem a = Some b \<and> readable mem (a + 1) bs"
  by (auto simp: readable_def less_Suc_eq_0_disj algebra_simps)

lemma readable_append: "readable mem a (bs @ cs) \<longleftrightarrow> readable mem a bs \<and> readable mem (a + of_nat (length bs)) cs"
  by (induction bs arbitrary: a) (simp_all add: readable_Cons add.assoc readable_def [of _ _ "[]"])

text \<open>Storing bytes one after the other.\<close>

fun store_all :: "(usize \<Rightarrow> u8 \<Rightarrow> 'm \<Rightarrow> 'm option) \<Rightarrow> usize \<Rightarrow> u8 list \<Rightarrow> 'm \<Rightarrow> 'm option" where
  "store_all wr a [] m = Some m"
| "store_all wr a (b # bs) m = (case wr a b m of None \<Rightarrow> None | Some m \<Rightarrow> store_all wr (a + 1) bs m)"

end
