(* ===== verification/Bitmap.thy ===== *)
theory Bitmap
  imports Prelude
begin

text \<open>
  The bitmap of src/kernel/src/bitmap.rs. \<open>Bitmap<BITS>\<close> is a byte array of
  \<open>require_bytes BITS\<close> elements; the const parameter \<open>BITS\<close> is the first argument of every
  operation. Indices are bounded by \<open>BITS\<close>, so they are natural numbers.

  The kernel uses it for kernel stacks (\<open>Bitmap<NPROC>\<close>), for virtio descriptors
  (\<open>Bitmap<DESCRIPTOR_NUM>\<close>) and for the free-block map of the disk
  (\<open>Bitmap<BITMAP_BITS>\<close>). What these clients rely on is the locale \<open>slot_pool\<close>,
  interpreted here on the bitmap's own operations.
\<close>

subsection \<open>Definitions\<close>

definition require_bytes :: "nat \<Rightarrow> nat" where
  "require_bytes bits = (bits - 1) div 8 + 1"

definition byte_index :: "nat \<Rightarrow> nat" where
  "byte_index bit_index = bit_index div 8"

definition bit_mask :: "nat \<Rightarrow> u8" where
  "bit_mask bit_index = push_bit (bit_index mod 8) 1"

record bitmap =
  bytes :: "u8 list"

definition bitmap_new :: "nat \<Rightarrow> bitmap" where
  "bitmap_new BITS = \<lparr>bytes = replicate (require_bytes BITS) 0\<rparr>"

definition bitmap_get :: "nat \<Rightarrow> bitmap \<Rightarrow> nat \<Rightarrow> bool option" where
  "bitmap_get BITS b index =
     (if index < BITS then Some (bytes b ! byte_index index AND bit_mask index \<noteq> 0) else None)"

definition bitmap_set :: "nat \<Rightarrow> bitmap \<Rightarrow> nat \<Rightarrow> bool \<Rightarrow> (unit, unit) result \<times> bitmap" where
  "bitmap_set BITS b index value =
     (if index < BITS
      then (let k = byte_index index; byte = bytes b ! k in
            (Ok (),
             b\<lparr>bytes := (bytes b)[k := (if value then byte OR bit_mask index
                                        else byte AND NOT (bit_mask index))]\<rparr>))
      else (Err (), b))"

fun bitmap_allocate_from :: "nat \<Rightarrow> bitmap \<Rightarrow> nat list \<Rightarrow> (nat option \<times> bitmap) kernel" where
  "bitmap_allocate_from BITS b [] = Some (None, b)"
| "bitmap_allocate_from BITS b (i # is) =
     (if bitmap_get BITS b i = Some False
      then do { let (r, b') = bitmap_set BITS b i True; unwrap r; Some (Some i, b') }
      else bitmap_allocate_from BITS b is)"

definition bitmap_allocate :: "nat \<Rightarrow> bitmap \<Rightarrow> (nat option \<times> bitmap) kernel" where
  "bitmap_allocate BITS b = bitmap_allocate_from BITS b [0..<BITS]"

definition bitmap_deallocate :: "nat \<Rightarrow> bitmap \<Rightarrow> nat \<Rightarrow> (unit, unit) result \<times> bitmap" where
  "bitmap_deallocate BITS b index =
     (case bitmap_get BITS b index of
        Some True \<Rightarrow> bitmap_set BITS b index False
      | _ \<Rightarrow> (Err (), b))"

subsection \<open>Well-formedness and abstraction\<close>

text \<open>The array type of the source fixes the length; \<open>used\<close> is the set a bitmap stands for.\<close>

definition bitmap_wf :: "nat \<Rightarrow> bitmap \<Rightarrow> bool" where
  "bitmap_wf BITS b \<longleftrightarrow> 0 < BITS \<and> length (bytes b) = require_bytes BITS"

definition used :: "nat \<Rightarrow> bitmap \<Rightarrow> nat set" where
  "used BITS b = {i. bitmap_get BITS b i = Some True}"

lemma byte_index_bound: "i < BITS \<Longrightarrow> byte_index i < require_bytes BITS"
  unfolding byte_index_def require_bytes_def by (simp add: div_le_mono less_Suc_eq_le)

lemma bitmap_get_bit:
  "bitmap_get BITS b i = (if i < BITS then Some (bit (bytes b ! (i div 8)) (i mod 8)) else None)"
  by (simp add: bitmap_get_def bit_mask_def byte_index_def and_mask_neq_0)

lemma bitmap_set_bytes:
  "i < BITS \<Longrightarrow> bitmap_set BITS b i v =
     (Ok (), b\<lparr>bytes := (bytes b)[i div 8 :=
        (if v then set_bit else unset_bit) (i mod 8) (bytes b ! (i div 8))]\<rparr>)"
  by (simp add: bitmap_set_def Let_def byte_index_def bit_mask_def or_mask_set_bit
      and_not_mask_unset_bit)

lemma bitmap_wf_new [simp]: "0 < BITS \<Longrightarrow> bitmap_wf BITS (bitmap_new BITS)"
  by (simp add: bitmap_wf_def bitmap_new_def)

lemma bitmap_wf_set [simp]: "bitmap_wf BITS b \<Longrightarrow> bitmap_wf BITS (snd (bitmap_set BITS b i v))"
  by (simp add: bitmap_wf_def bitmap_set_def Let_def)

lemma same_bit_iff: "i div 8 = j div 8 \<and> i mod 8 = j mod 8 \<longleftrightarrow> i = (j::nat)"
  by (metis mult_div_mod_eq)

lemma bit_set_byte:
  fixes w :: u8
  assumes "m < 8" and "n < 8"
  shows "bit ((if v then set_bit else unset_bit) m w) n = (if m = n then v else bit w n)"
  using assms by (auto simp: bit_set_bit_iff bit_unset_bit_iff)

lemma bitmap_get_set:
  assumes wf: "bitmap_wf BITS b" and i: "i < BITS"
  shows "bitmap_get BITS (snd (bitmap_set BITS b i v)) j =
         (if j = i then Some v else bitmap_get BITS b j)"
proof -
  have len: "i div 8 < length (bytes b)"
    using wf byte_index_bound [OF i] by (simp add: bitmap_wf_def byte_index_def)
  show ?thesis
    using i len same_bit_iff [of i j]
    by (auto simp: bitmap_get_bit bitmap_set_bytes nth_list_update bit_set_byte)
qed

lemma bitmap_get_new: "i < BITS \<Longrightarrow> bitmap_get BITS (bitmap_new BITS) i = Some False"
  using byte_index_bound [of i BITS]
  by (simp add: bitmap_get_bit bitmap_new_def byte_index_def)

lemma used_new [simp]: "used BITS (bitmap_new BITS) = {}"
  using bitmap_get_new by (fastforce simp: used_def bitmap_get_def split: if_splits)

lemma used_bound: "used BITS b \<subseteq> {..<BITS}"
  by (auto simp: used_def bitmap_get_def split: if_splits)

lemma get_Some_False_iff: "i < BITS \<Longrightarrow> bitmap_get BITS b i = Some False \<longleftrightarrow> i \<notin> used BITS b"
  by (auto simp: used_def bitmap_get_def)

lemma used_set:
  assumes "bitmap_wf BITS b" and "i < BITS"
  shows "used BITS (snd (bitmap_set BITS b i v)) =
         (if v then insert i (used BITS b) else used BITS b - {i})"
  using assms by (auto simp: used_def bitmap_get_set)

lemma bitmap_set_Ok: "i < BITS \<Longrightarrow> fst (bitmap_set BITS b i v) = Ok ()"
  by (simp add: bitmap_set_def Let_def)

lemma bitmap_allocate_from_eq:
  assumes "\<forall>i\<in>set is. i < BITS"
  shows "bitmap_allocate_from BITS b is =
         (case find (\<lambda>i. i \<notin> used BITS b) is of
            None \<Rightarrow> Some (None, b)
          | Some i \<Rightarrow> Some (Some i, snd (bitmap_set BITS b i True)))"
  using assms
proof (induction "is")
  case Nil
  then show ?case by simp
next
  case (Cons i "is")
  then show ?case
    by (simp add: get_Some_False_iff bitmap_set_Ok split_beta)
qed

lemma bitmap_allocate_eq:
  "bitmap_allocate BITS b =
     (case find (\<lambda>i. i \<notin> used BITS b) [0..<BITS] of
        None \<Rightarrow> Some (None, b)
      | Some i \<Rightarrow> Some (Some i, snd (bitmap_set BITS b i True)))"
  unfolding bitmap_allocate_def by (rule bitmap_allocate_from_eq) simp

lemma bitmap_allocate_Some:
  "bitmap_allocate BITS b = Some (Some i, b') \<longleftrightarrow>
     i < BITS \<and> i \<notin> used BITS b \<and> (\<forall>j<i. j \<in> used BITS b) \<and>
     b' = snd (bitmap_set BITS b i True)"
proof -
  have "bitmap_allocate BITS b = Some (Some i, b') \<longleftrightarrow>
        find (\<lambda>i. i \<notin> used BITS b) [0..<BITS] = Some i \<and> b' = snd (bitmap_set BITS b i True)"
    by (auto simp: bitmap_allocate_eq split: option.splits)
  then show ?thesis by (auto simp: find_upt_Some)
qed

lemma bitmap_allocate_None:
  "bitmap_allocate BITS b = Some (None, b') \<longleftrightarrow> used BITS b = {..<BITS} \<and> b' = b"
proof -
  have "bitmap_allocate BITS b = Some (None, b') \<longleftrightarrow>
        find (\<lambda>i. i \<notin> used BITS b) [0..<BITS] = None \<and> b' = b"
    by (auto simp: bitmap_allocate_eq split: option.splits)
  then show ?thesis using used_bound [of BITS b] by (auto simp: find_upt_None)
qed

lemma bitmap_allocate_total: "\<exists>r b'. bitmap_allocate BITS b = Some (r, b')"
  by (auto simp: bitmap_allocate_eq split: option.splits)

lemma bitmap_deallocate_eq:
  "bitmap_deallocate BITS b i =
     (if i \<in> used BITS b then (Ok (), snd (bitmap_set BITS b i False)) else (Err (), b))"
  using bitmap_set_Ok [of i BITS b False]
  by (auto simp: bitmap_deallocate_def used_def prod_eq_iff bitmap_get_def
      split: option.splits bool.splits if_splits)

lemma bitmap_wf_deallocate [simp]:
  "bitmap_wf BITS b \<Longrightarrow> bitmap_wf BITS (snd (bitmap_deallocate BITS b i))"
  by (simp add: bitmap_deallocate_eq)

lemma used_deallocate:
  "bitmap_wf BITS b \<Longrightarrow> used BITS (snd (bitmap_deallocate BITS b i)) = used BITS b - {i}"
  using used_bound [of BITS b] by (auto simp: bitmap_deallocate_eq used_set)

subsection \<open>The contract of a pool of numbered slots\<close>

text \<open>
  What the clients of a bitmap rely on: \<open>acquire\<close> hands out a slot that nobody holds, fails only
  when every slot is held, and \<open>release\<close> gives back exactly the slot it is told and refuses a
  slot that is not held.
\<close>

locale slot_pool =
  fixes invar :: "'p \<Rightarrow> bool"
    and cap :: nat
    and taken :: "'p \<Rightarrow> nat set"
    and acquire :: "'p \<Rightarrow> (nat option \<times> 'p) kernel"
    and release :: "'p \<Rightarrow> nat \<Rightarrow> (unit, unit) result \<times> 'p"
  assumes taken_bound: "invar p \<Longrightarrow> taken p \<subseteq> {..<cap}"
    and acquire_room: "invar p \<Longrightarrow> taken p \<noteq> {..<cap} \<Longrightarrow>
      \<exists>i p'. acquire p = Some (Some i, p') \<and> i < cap \<and> i \<notin> taken p \<and>
             taken p' = insert i (taken p) \<and> invar p'"
    and acquire_full: "invar p \<Longrightarrow> taken p = {..<cap} \<Longrightarrow> acquire p = Some (None, p)"
    and release_taken: "invar p \<Longrightarrow> i \<in> taken p \<Longrightarrow>
      \<exists>p'. release p i = (Ok (), p') \<and> taken p' = taken p - {i} \<and> invar p'"
    and release_free: "invar p \<Longrightarrow> i \<notin> taken p \<Longrightarrow> release p i = (Err (), p)"
begin

lemma acquire_Some:
  assumes "invar p" and "acquire p = Some (Some i, p')"
  shows "i < cap \<and> i \<notin> taken p \<and> taken p' = insert i (taken p) \<and> invar p'"
  using assms acquire_room [of p] acquire_full [of p] by (cases "taken p = {..<cap}") auto

lemma acquire_None:
  assumes "invar p" and "acquire p = Some (None, p')"
  shows "taken p = {..<cap} \<and> p' = p"
  using assms acquire_room [of p] acquire_full [of p] by (cases "taken p = {..<cap}") auto

lemma acquire_not_panic: "invar p \<Longrightarrow> acquire p \<noteq> None"
  using acquire_room [of p] acquire_full [of p] by (cases "taken p = {..<cap}") auto

lemma acquire_twice_distinct:
  assumes "invar p" and "acquire p = Some (Some i, p')" and "acquire p' = Some (Some j, p'')"
  shows "i \<noteq> j"
  using acquire_Some [OF assms(1,2)] acquire_Some [of p' j p''] assms(3) by auto

lemma acquire_release:
  assumes "invar p" and "acquire p = Some (Some i, p')"
  shows "\<exists>p''. release p' i = (Ok (), p'') \<and> taken p'' = taken p \<and> invar p''"
  using acquire_Some [OF assms] release_taken [of p' i] by auto

lemma release_twice:
  assumes "invar p" and "release p i = (Ok (), p')"
  shows "release p' i = (Err (), p')"
  using assms release_free [of p i] release_taken [of p i] release_free [of p' i]
  by (cases "i \<in> taken p") auto

lemma finite_taken: "invar p \<Longrightarrow> finite (taken p)"
  using taken_bound finite_subset by blast

lemma acquire_card:
  assumes "invar p" and "acquire p = Some (Some i, p')"
  shows "card (taken p') = Suc (card (taken p))"
  using acquire_Some [OF assms] finite_taken [OF assms(1)] by simp

lemma acquire_succeeds: "invar p \<Longrightarrow> card (taken p) < cap \<Longrightarrow>
    \<exists>i p'. acquire p = Some (Some i, p')"
  using acquire_room [of p] by (cases "taken p = {..<cap}") auto

end

interpretation bm: slot_pool "bitmap_wf BITS" BITS "used BITS" "bitmap_allocate BITS"
    "bitmap_deallocate BITS" for BITS
proof (unfold_locales, goal_cases)
  case (1 p)
  show ?case by (rule used_bound)
next
  case (2 p)
  obtain r b' where a: "bitmap_allocate BITS p = Some (r, b')"
    using bitmap_allocate_total by blast
  with 2 obtain i where r: "r = Some i"
    by (cases r) (auto simp: bitmap_allocate_None)
  with a 2 show ?case
    by (auto simp: bitmap_allocate_Some used_set)
next
  case (3 p)
  then show ?case by (simp add: bitmap_allocate_None)
next
  case (4 p i)
  then have "i < BITS" using used_bound by blast
  with 4 show ?case by (auto simp: bitmap_deallocate_eq used_set)
next
  case (5 p i)
  then show ?case by (simp add: bitmap_deallocate_eq)
qed

subsection \<open>Properties\<close>

text \<open>
  \<open>Bitmap::allocate\<close> never panics. It returns the least clear bit and sets that bit and no
  other; it returns \<open>None\<close>, and changes nothing, exactly when all bits are set.
\<close>

theorem bitmap_allocate_correct:
  assumes "bitmap_wf BITS b"
  shows "(\<exists>i b'. bitmap_allocate BITS b = Some (Some i, b') \<and> i < BITS \<and>
            bitmap_get BITS b i = Some False \<and> (\<forall>j<i. bitmap_get BITS b j = Some True) \<and>
            (\<forall>j. bitmap_get BITS b' j = (if j = i then Some True else bitmap_get BITS b j)) \<and>
            bitmap_wf BITS b')
       \<or> bitmap_allocate BITS b = Some (None, b) \<and> (\<forall>j<BITS. bitmap_get BITS b j = Some True)"
proof -
  obtain r b' where a: "bitmap_allocate BITS b = Some (r, b')"
    using bitmap_allocate_total by blast
  show ?thesis
  proof (cases r)
    case None
    with a have "used BITS b = {..<BITS}" and "b' = b" by (auto simp: bitmap_allocate_None)
    with a None show ?thesis by (auto simp: used_def set_eq_iff)
  next
    case (Some i)
    with a have i: "i < BITS" "i \<notin> used BITS b" "\<forall>j<i. j \<in> used BITS b"
      and b': "b' = snd (bitmap_set BITS b i True)"
      by (auto simp: bitmap_allocate_Some)
    then have "bitmap_get BITS b i = Some False" "\<forall>j<i. bitmap_get BITS b j = Some True"
      by (auto simp: get_Some_False_iff used_def)
    with a Some i b' assms show ?thesis by (auto simp: bitmap_get_set)
  qed
qed

theorem bitmap_allocate_correct_witness:
  "bitmap_wf 10 \<lparr>bytes = [255, 1]\<rparr> \<and>
   bitmap_allocate 10 \<lparr>bytes = [255, 1]\<rparr> = Some (Some 9, \<lparr>bytes = [255, 3]\<rparr>)"
proof -
  have wf: "bitmap_wf 10 \<lparr>bytes = [255, 1]\<rparr>"
    by (simp add: bitmap_wf_def require_bytes_def)
  have "bitmap_allocate 10 \<lparr>bytes = [255, 1]\<rparr> = Some (Some 9, \<lparr>bytes = [255, 3]\<rparr>)"
    by code_simp
  with wf bitmap_allocate_correct [OF wf] show ?thesis by blast
qed

text \<open>
  Allocating a bit and deallocating it again restores the very same bytes, and a second
  deallocation of the same bit is refused.
\<close>

theorem bitmap_allocate_deallocate:
  assumes "bitmap_wf BITS b" and "bitmap_allocate BITS b = Some (Some i, b')"
  shows "bitmap_deallocate BITS b' i = (Ok (), b) \<and> bitmap_deallocate BITS b i = (Err (), b)"
proof -
  from assms(2) have i: "i < BITS" "i \<notin> used BITS b" and b': "b' = snd (bitmap_set BITS b i True)"
    by (auto simp: bitmap_allocate_Some)
  have len: "i div 8 < length (bytes b)"
    using assms(1) byte_index_bound [OF i(1)] by (simp add: bitmap_wf_def byte_index_def)
  have clear: "\<not> bit (bytes b ! (i div 8)) (i mod 8)"
    using i by (simp add: used_def bitmap_get_bit)
  have "unset_bit (i mod 8) (set_bit (i mod 8) (bytes b ! (i div 8))) = bytes b ! (i div 8)"
    using clear by (intro bit_word_eqI) (auto simp: bit_set_bit_iff bit_unset_bit_iff)
  then have "snd (bitmap_set BITS b' i False) = b"
    using i(1) len by (simp add: b' bitmap_set_bytes)
  moreover have "i \<in> used BITS b'"
    using assms(1) i by (simp add: b' used_set)
  ultimately show ?thesis
    using i by (simp add: bitmap_deallocate_eq)
qed

theorem bitmap_allocate_deallocate_witness:
  "bitmap_deallocate 10 \<lparr>bytes = [255, 3]\<rparr> 9 = (Ok (), \<lparr>bytes = [255, 1]\<rparr>)"
proof -
  have wf: "bitmap_wf 10 \<lparr>bytes = [255, 1]\<rparr>"
    by (simp add: bitmap_wf_def require_bytes_def)
  have a: "bitmap_allocate 10 \<lparr>bytes = [255, 1]\<rparr> = Some (Some 9, \<lparr>bytes = [255, 3]\<rparr>)"
    by code_simp
  show ?thesis using bitmap_allocate_deallocate [OF wf a] by simp
qed

end
