(* ===== verification/Cache.thy ===== *)
theory Cache
  imports Prelude
begin

text \<open>
  The slot cache of src/kernel/src/cache.rs: \<open>Cache<Key, N>\<close>, a circular doubly linked list
  threaded through an array of \<open>N\<close> links, and \<open>RcCache<Key, N>\<close>, which adds a reference count
  per slot. The buffer cache and the inode cache are built on \<open>RcCache\<close>.

  The const parameter \<open>N\<close> is the length of the array. A walk along the list may not end when
  the links are damaged, so the walks are \<^theory_text>\<open>partial_function (option)\<close>: \<open>None\<close> is
  an index out of range or a walk without end. The invariant \<open>ring\<close> says that the links form
  one cycle through every slot; under it the walks return.
\<close>

subsection \<open>Cache: data and operations\<close>

record 'k link =
  link_index :: nat
  link_next :: nat
  link_prev :: nat
  link_key :: "'k option"

definition dangling :: "'k link" where
  "dangling = \<lparr>link_index = 0, link_next = 0, link_prev = 0, link_key = None\<rparr>"

record 'k cache =
  links :: "'k link list"
  cache_head :: nat
  cache_tail :: nat

definition upd_link :: "nat \<Rightarrow> ('k link \<Rightarrow> 'k link) \<Rightarrow> 'k link list \<Rightarrow> 'k link list" where
  "upd_link i f ls = ls[i := f (ls ! i)]"

text \<open>The body of the second loop of \<open>Cache::new\<close>: slot \<open>i\<close> goes between tail and head.\<close>

definition cache_new_step :: "nat \<Rightarrow> 'k cache \<Rightarrow> 'k cache" where
  "cache_new_step i c =
     (let ls = links c;
          ls = upd_link i (link_prev_update (\<lambda>_. cache_tail c)) ls;
          ls = upd_link i (link_next_update (\<lambda>_. cache_head c)) ls;
          ls = upd_link (cache_head c) (link_prev_update (\<lambda>_. i)) ls;
          ls = upd_link (cache_tail c) (link_next_update (\<lambda>_. i)) ls
      in c\<lparr>links := ls, cache_tail := i\<rparr>)"

definition cache_new :: "nat \<Rightarrow> 'k cache" where
  "cache_new N =
     (let ls = fold (\<lambda>i. upd_link i (link_index_update (\<lambda>_. i))) [0..<N] (replicate N dangling);
          ls = upd_link 0 (link_next_update (\<lambda>_. 0)) ls;
          ls = upd_link 0 (link_prev_update (\<lambda>_. 0)) ls
      in fold cache_new_step [1..<N] \<lparr>links = ls, cache_head = 0, cache_tail = 0\<rparr>)"

text \<open>
  \<open>indexes().find(p)\<close> and \<open>indexes_rev().find(p)\<close>: follow \<open>next\<close> from the head up to the tail,
  or \<open>prev\<close> from the tail up to the head, and stop at the first link that satisfies \<open>p\<close>.
\<close>

partial_function (option) find_indexes ::
    "('k link \<Rightarrow> bool) \<Rightarrow> 'k cache \<Rightarrow> nat \<Rightarrow> nat option option" where
  "find_indexes p c current =
     (if length (links c) \<le> current then None
      else if p (links c ! current) then Some (Some current)
      else if current = cache_tail c then Some None
      else find_indexes p c (link_next (links c ! current)))"

partial_function (option) find_indexes_rev ::
    "('k link \<Rightarrow> bool) \<Rightarrow> 'k cache \<Rightarrow> nat \<Rightarrow> nat option option" where
  "find_indexes_rev p c current =
     (if length (links c) \<le> current then None
      else if p (links c ! current) then Some (Some current)
      else if current = cache_head c then Some None
      else find_indexes_rev p c (link_prev (links c ! current)))"

definition cache_find :: "'k cache \<Rightarrow> 'k \<Rightarrow> nat option kernel" where
  "cache_find c k = find_indexes (\<lambda>l. link_key l = Some k) c (cache_head c)"

definition cache_find_unused :: "'k cache \<Rightarrow> nat option kernel" where
  "cache_find_unused c = find_indexes_rev (\<lambda>l. link_key l = None) c (cache_tail c)"

definition set_key :: "nat \<Rightarrow> 'k option \<Rightarrow> 'k cache \<Rightarrow> 'k cache" where
  "set_key i k c = c\<lparr>links := upd_link i (link_key_update (\<lambda>_. k)) (links c)\<rparr>"

definition cache_get :: "'k cache \<Rightarrow> 'k \<Rightarrow> ((nat \<times> bool) option \<times> 'k cache) kernel" where
  "cache_get c k = do {
     found \<leftarrow> cache_find c k;
     (case found of
        Some i \<Rightarrow> Some (Some (i, False), c)
      | None \<Rightarrow> do {
          unused \<leftarrow> cache_find_unused c;
          (case unused of
             Some i \<Rightarrow> Some (Some (i, True), set_key i (Some k) c)
           | None \<Rightarrow> Some (None, c)) })
   }"

definition cache_remove :: "'k cache \<Rightarrow> nat \<Rightarrow> unit option \<times> 'k cache" where
  "cache_remove c index =
     (if length (links c) \<le> index then (None, c)
      else
        let c = set_key index None c in
        if cache_head c = index then
          (Some (), c\<lparr>cache_head := link_next (links c ! index), cache_tail := index\<rparr>)
        else if cache_tail c = index then (Some (), c)
        else
          let nxt = link_next (links c ! index);
              prv = link_prev (links c ! index);
              ls = links c;
              ls = upd_link nxt (link_prev_update (\<lambda>_. prv)) ls;
              ls = upd_link prv (link_next_update (\<lambda>_. nxt)) ls;
              ls = upd_link index (link_next_update (\<lambda>_. cache_head c)) ls;
              ls = upd_link index (link_prev_update (\<lambda>_. cache_tail c)) ls;
              ls = upd_link (cache_head c) (link_prev_update (\<lambda>_. index)) ls;
              ls = upd_link (cache_tail c) (link_next_update (\<lambda>_. index)) ls
          in (Some (), c\<lparr>links := ls, cache_tail := index\<rparr>))"

subsection \<open>The ring invariant\<close>

text \<open>
  \<open>linked ls a b\<close>: slot \<open>b\<close> follows slot \<open>a\<close>, in both directions. \<open>ring c xs\<close>: the list \<open>xs\<close>
  holds every slot once, from head to tail, and neighbours are linked, the tail back to the head.
\<close>

definition linked :: "'k link list \<Rightarrow> nat \<Rightarrow> nat \<Rightarrow> bool" where
  "linked ls a b \<longleftrightarrow> link_next (ls ! a) = b \<and> link_prev (ls ! b) = a"

definition ring :: "'k cache \<Rightarrow> nat list \<Rightarrow> bool" where
  "ring c xs \<longleftrightarrow>
     xs \<noteq> [] \<and> distinct xs \<and> set xs = {..<length (links c)} \<and>
     hd xs = cache_head c \<and> last xs = cache_tail c \<and>
     successively (linked (links c)) (xs @ [hd xs]) \<and>
     (\<forall>i<length (links c). link_index (links c ! i) = i)"

lemma length_upd_link [simp]: "length (upd_link i f ls) = length ls"
  by (simp add: upd_link_def)

lemma nth_upd_link [simp]:
  "j < length ls \<Longrightarrow> upd_link i f ls ! j = (if i = j then f (ls ! j) else ls ! j)"
  by (auto simp: upd_link_def nth_list_update)

lemma successively_weaken:
  assumes "successively P xs"
    and "\<And>a b. a \<in> set (butlast xs) \<Longrightarrow> b \<in> set (tl xs) \<Longrightarrow> P a b \<Longrightarrow> Q a b"
  shows "successively Q xs"
  using assms
proof (induction xs rule: induct_list012)
  case (3 x y zs)
  have "successively Q (y # zs)"
    using 3 by (intro "3.IH"(2)) (auto dest: in_set_butlastD split: if_splits)
  with 3 show ?case by auto
qed auto

lemma successively_nth:
  assumes "successively P xs" and "Suc k < length xs"
  shows "P (xs ! k) (xs ! Suc k)"
  using assms by (induction xs arbitrary: k rule: induct_list012) (auto simp: nth_Cons split: nat.splits)

text \<open>Appending a slot at the tail, and taking a slot out of the middle of the cycle.\<close>

lemma linked_insert_end:
  assumes suc: "successively (linked ls) (xs @ [hd xs])"
    and xs: "xs \<noteq> []" "distinct xs" "i \<notin> set xs"
    and nxt: "\<And>j. j \<in> insert i (set xs) \<Longrightarrow> link_next (ls' ! j) =
                (if j = last xs then i else if j = i then hd xs else link_next (ls ! j))"
    and prv: "\<And>j. j \<in> insert i (set xs) \<Longrightarrow> link_prev (ls' ! j) =
                (if j = hd xs then i else if j = i then last xs else link_prev (ls ! j))"
  shows "successively (linked ls') ((xs @ [i]) @ [hd (xs @ [i])])"
proof -
  have butl: "a \<noteq> last xs" if "a \<in> set (butlast xs)" for a
    using that xs by (metis append_butlast_last_id distinct_append distinct_singleton
        disjoint_iff list.set_intros(1))
  have tlhd: "b \<noteq> hd xs" if "b \<in> set (tl xs)" for b
    using that xs by (cases xs) auto
  have "successively (linked ls) xs"
    using suc by (simp add: successively_append_iff)
  then have "successively (linked ls') xs"
  proof (rule successively_weaken)
    fix a b
    assume ab: "a \<in> set (butlast xs)" "b \<in> set (tl xs)" "linked ls a b"
    then have "a \<in> set xs" "b \<in> set xs"
      using xs(1) by (auto dest: in_set_butlastD list.set_sel(2))
    with ab xs(3) butl tlhd show "linked ls' a b"
      by (auto simp: linked_def nxt prv)
  qed
  moreover have "linked ls' (last xs) i" and "linked ls' i (hd xs)"
    using xs by (auto simp: linked_def nxt prv)
  ultimately show ?thesis
    using xs(1) by (simp add: successively_append_iff)
qed

lemma linked_take_out:
  assumes suc: "successively (linked ls) ((as @ i # bs) @ [hd as])"
    and xs: "as \<noteq> []" "bs \<noteq> []" "distinct (as @ i # bs)"
    and nxt: "\<And>j. j \<in> set as \<union> set bs \<Longrightarrow> link_next (ls' ! j) =
                (if j = last as then hd bs else link_next (ls ! j))"
    and prv: "\<And>j. j \<in> set as \<union> set bs \<Longrightarrow> link_prev (ls' ! j) =
                (if j = hd bs then last as else link_prev (ls ! j))"
  shows "successively (linked ls') ((as @ bs) @ [hd (as @ bs)])"
proof -
  have sas: "successively (linked ls) as" and sbs: "successively (linked ls) bs"
    and wrap: "linked ls (last bs) (hd as)"
    using suc xs by (auto simp: successively_append_iff successively_Cons)
  have butl: "a \<noteq> last as" if "a \<in> set (butlast as)" for a
    using that xs by (metis append_butlast_last_id distinct_append distinct_singleton
        disjoint_iff list.set_intros(1))
  have tlhd: "b \<noteq> hd bs" if "b \<in> set (tl bs)" for b
    using that xs by (cases bs) auto
  have disj: "set as \<inter> set bs = {}" using xs(3) by auto
  have ends: "last as \<in> set as" "hd bs \<in> set bs" "last bs \<in> set bs" "hd as \<in> set as"
    using xs by auto
  have "successively (linked ls') as"
  proof (rule successively_weaken [OF sas])
    fix a b
    assume ab: "a \<in> set (butlast as)" "b \<in> set (tl as)" "linked ls a b"
    then have "a \<in> set as" "b \<in> set as"
      using xs(1) by (auto dest: in_set_butlastD list.set_sel(2))
    with ab butl disj ends show "linked ls' a b"
      by (auto simp: linked_def nxt prv)
  qed
  moreover have "successively (linked ls') bs"
  proof (rule successively_weaken [OF sbs])
    fix a b
    assume ab: "a \<in> set (butlast bs)" "b \<in> set (tl bs)" "linked ls a b"
    then have "a \<in> set bs" "b \<in> set bs"
      using xs(2) by (auto dest: in_set_butlastD list.set_sel(2))
    with ab tlhd disj ends show "linked ls' a b"
      by (auto simp: linked_def nxt prv)
  qed
  moreover have "linked ls' (last as) (hd bs)" and "linked ls' (last bs) (hd as)"
    using wrap ends disj by (auto simp: linked_def nxt prv)
  ultimately show ?thesis
    using xs by (simp add: successively_append_iff)
qed

lemma linked_rotate:
  assumes "successively (linked ls) ((i # bs) @ [i])" and "bs \<noteq> []"
  shows "successively (linked ls) ((bs @ [i]) @ [hd (bs @ [i])])"
  using assms by (simp add: successively_append_iff successively_Cons)

subsection \<open>\<open>Cache::new\<close> builds a ring\<close>

lemma length_cache_new_step [simp]: "length (links (cache_new_step i c)) = length (links c)"
  by (simp add: cache_new_step_def Let_def)

definition new_inv :: "nat \<Rightarrow> nat \<Rightarrow> 'k cache \<Rightarrow> bool" where
  "new_inv N m c \<longleftrightarrow>
     length (links c) = N \<and> cache_head c = 0 \<and> cache_tail c = m - 1 \<and>
     successively (linked (links c)) ([0..<m] @ [hd [0..<m]]) \<and>
     (\<forall>i<N. link_index (links c ! i) = i \<and> link_key (links c ! i) = None)"

lemma new_inv_step:
  assumes "new_inv N m c" and m: "0 < m" "m < N"
  shows "new_inv N (Suc m) (cache_new_step m c)"
proof -
  let ?c' = "cache_new_step m c"
  note inv = assms(1) [unfolded new_inv_def]
  have len: "links c \<noteq> []" "m - Suc 0 < length (links c)"
    using m inv by auto
  have hl: "hd [0..<m] = 0" "last [0..<m] = m - 1"
    using m by (simp_all add: hd_upt last_upt)
  have "successively (linked (links ?c')) (([0..<m] @ [m]) @ [hd ([0..<m] @ [m])])"
  proof (rule linked_insert_end [where ls = "links c"])
    fix j assume "j \<in> insert m (set [0..<m])"
    then show "link_next (links ?c' ! j) =
        (if j = last [0..<m] then m else if j = m then hd [0..<m] else link_next (links c ! j))"
      and "link_prev (links ?c' ! j) =
        (if j = hd [0..<m] then m else if j = m then last [0..<m] else link_prev (links c ! j))"
      using m inv hl len by (auto simp: cache_new_step_def Let_def)
  qed (use m inv in auto)
  then show ?thesis
    using m inv by (auto simp: new_inv_def cache_new_step_def Let_def)
qed

lemma new_inv_fold:
  assumes "new_inv N m c" and "0 < m" and "m \<le> n" and "n \<le> N"
  shows "new_inv N n (fold cache_new_step [m..<n] c)"
  using assms(3,4)
proof (induction n rule: dec_induct)
  case base
  then show ?case using assms by simp
next
  case (step n)
  then have "new_inv N n (fold cache_new_step [m..<n] c)" by simp
  then show ?case
    using step assms(2) new_inv_step [of N n "fold cache_new_step [m..<n] c"] by simp
qed

lemma index_fold:
  "m \<le> length ls \<Longrightarrow>
   fold (\<lambda>i. upd_link i (link_index_update (\<lambda>_. i))) [0..<m] ls =
   map (\<lambda>i. (ls ! i)\<lparr>link_index := i\<rparr>) [0..<m] @ drop m ls"
proof (induction m)
  case 0
  then show ?case by simp
next
  case (Suc m)
  then show ?case
    by (auto simp: upd_link_def list_update_append nth_append Cons_nth_drop_Suc [symmetric]
        split: nat.splits)
qed

lemma new_inv_new: "0 < N \<Longrightarrow> new_inv N N (cache_new N)"
proof -
  assume N: "0 < N"
  let ?ls = "fold (\<lambda>i. upd_link i (link_index_update (\<lambda>_. i))) [0..<N] (replicate N dangling)"
  have ls: "?ls = map (\<lambda>i. dangling\<lparr>link_index := i\<rparr>) [0..<N]"
    by (simp add: index_fold cong: map_cong)
  let ?c = "\<lparr>links = upd_link 0 (link_prev_update (\<lambda>_. 0))
      (upd_link 0 (link_next_update (\<lambda>_. 0)) ?ls), cache_head = 0, cache_tail = 0\<rparr>"
  have "new_inv N 1 ?c"
    using N unfolding ls by (auto simp: new_inv_def linked_def dangling_def)
  then have "new_inv N N (fold cache_new_step [1..<N] ?c)"
    using N new_inv_fold [of N 1 ?c N] by simp
  then show ?thesis by (simp add: cache_new_def Let_def)
qed

lemma length_cache_new: "0 < N \<Longrightarrow> length (links (cache_new N)) = N"
  by (rule new_inv_new [THEN new_inv_def [THEN iffD1], THEN conjunct1])

lemma ring_cache_new: "0 < N \<Longrightarrow> ring (cache_new N) [0..<N]"
  using new_inv_new [of N] by (auto simp: new_inv_def ring_def hd_upt last_upt)

subsection \<open>\<open>Cache::remove\<close> moves a slot to the tail\<close>

lemma length_set_key [simp]: "length (links (set_key i k c)) = length (links c)"
  by (simp add: set_key_def)

lemma set_key_sel [simp]:
  "cache_head (set_key i k c) = cache_head c"
  "cache_tail (set_key i k c) = cache_tail c"
  by (simp_all add: set_key_def)

lemma links_set_key:
  "j < length (links c) \<Longrightarrow> links (set_key i k c) ! j =
     (if i = j then (links c ! j)\<lparr>link_key := k\<rparr> else links c ! j)"
  by (simp add: set_key_def)

lemma linked_set_key:
  assumes "a < length (links c)" and "b < length (links c)"
  shows "linked (links (set_key i k c)) a b = linked (links c) a b"
  using assms by (simp add: linked_def links_set_key)

lemma successively_cong_set:
  assumes "\<And>a b. a \<in> set xs \<Longrightarrow> b \<in> set xs \<Longrightarrow> P a b = Q a b"
  shows "successively P xs = successively Q xs"
  using assms by (induction xs rule: induct_list012) auto

lemma ring_set_key [simp]: "ring (set_key i k c) xs = ring c xs"
proof (cases "set xs = {..<length (links c)} \<and> xs \<noteq> []")
  case True
  then have "successively (linked (links (set_key i k c))) (xs @ [hd xs]) =
             successively (linked (links c)) (xs @ [hd xs])"
    using hd_in_set [of xs] by (intro successively_cong_set linked_set_key) auto
  moreover have "(\<forall>j<length (links c). link_index (links (set_key i k c) ! j) = j) =
                 (\<forall>j<length (links c). link_index (links c ! j) = j)"
    by (auto simp: links_set_key)
  ultimately show ?thesis by (simp add: ring_def)
next
  case False
  then show ?thesis by (auto simp: ring_def)
qed

lemma ring_inject: "ring c xs \<Longrightarrow> ring c ys \<Longrightarrow> length xs = length ys"
  by (metis ring_def distinct_card)

lemma ring_bounds:
  assumes "ring c xs"
  shows "cache_head c < length (links c)" "cache_tail c < length (links c)" "links c \<noteq> []"
  using assms hd_in_set [of xs] last_in_set [of xs] by (auto simp: ring_def)

lemma ring_ends:
  assumes "ring c xs"
  shows "xs ! 0 = cache_head c" "xs ! (length xs - 1) = cache_tail c" "0 < length xs" "distinct xs"
  using assms by (auto simp: ring_def hd_conv_nth last_conv_nth)

lemma ring_linked_nth:
  assumes "ring c xs" and "Suc k < length xs"
  shows "linked (links c) (xs ! k) (xs ! Suc k)"
proof -
  have "successively (linked (links c)) xs"
    using assms(1) by (auto simp: ring_def successively_append_iff)
  then show ?thesis using assms(2) by (rule successively_nth)
qed

lemma ring_remove_middle:
  assumes ring: "ring c (as @ i # bs)" and ne: "as \<noteq> []" "bs \<noteq> []"
    and ls1: "ls1 = upd_link (last as) (link_next_update (\<lambda>_. hd bs))
                      (upd_link (hd bs) (link_prev_update (\<lambda>_. last as)) (links c))"
    and ls2: "ls2 = upd_link (cache_tail c) (link_next_update (\<lambda>_. i))
                      (upd_link (cache_head c) (link_prev_update (\<lambda>_. i))
                        (upd_link i (link_prev_update (\<lambda>_. cache_tail c))
                          (upd_link i (link_next_update (\<lambda>_. cache_head c)) ls1)))"
  shows "ring (c\<lparr>links := ls2, cache_tail := i\<rparr>) ((as @ bs) @ [i])"
proof -
  have d: "distinct (as @ i # bs)" and all: "set (as @ i # bs) = {..<length (links c)}"
    and hd: "hd as = cache_head c" and tl: "last bs = cache_tail c"
    and suc: "successively (linked (links c)) ((as @ i # bs) @ [hd as])"
    and idx: "\<forall>j<length (links c). link_index (links c ! j) = j"
    using ring ne by (auto simp: ring_def)
  have bnd: "j < length (links c)" if "j \<in> set (as @ i # bs)" for j
    using that all by blast
  have mem: "last as \<in> set as" "hd bs \<in> set bs" "last bs \<in> set bs" "hd as \<in> set as"
    using ne by auto
  have "successively (linked ls1) ((as @ bs) @ [hd (as @ bs)])"
    by (rule linked_take_out [OF suc ne d]) (use bnd mem d in \<open>auto simp: ls1\<close>)
  then have "successively (linked ls2) (((as @ bs) @ [i]) @ [hd ((as @ bs) @ [i])])"
  proof (rule linked_insert_end)
    fix j assume "j \<in> insert i (set (as @ bs))"
    then have j: "j < length (links c)" using bnd by auto
    show "link_next (ls2 ! j) =
        (if j = last (as @ bs) then i else if j = i then hd (as @ bs) else link_next (ls1 ! j))"
      and "link_prev (ls2 ! j) =
        (if j = hd (as @ bs) then i else if j = i then last (as @ bs) else link_prev (ls1 ! j))"
      using j ne hd tl by (auto simp: ls2 ls1)
  qed (use ne d in auto)
  moreover have "link_index (ls2 ! j) = j" if "j < length (links c)" for j
    using idx that by (simp add: ls2 ls1)
  moreover have "length ls2 = length (links c)" by (simp add: ls2 ls1)
  ultimately show ?thesis
    using d all ne hd by (auto simp: ring_def)
qed

lemma ring_split_neighbours:
  assumes "ring c (as @ i # bs)" and "as \<noteq> []" and "bs \<noteq> []"
  shows "link_next (links c ! i) = hd bs" and "link_prev (links c ! i) = last as"
  using assms by (auto simp: ring_def successively_append_iff successively_Cons linked_def)

lemma ring_remove:
  assumes ring: "ring c xs" and i: "i < length (links c)"
  shows "fst (cache_remove c i) = Some () \<and> ring (snd (cache_remove c i)) (remove1 i xs @ [i])"
proof -
  let ?d = "set_key i None c"
  have "i \<in> set xs" using ring i by (auto simp: ring_def)
  then obtain as bs where xs: "xs = as @ i # bs" and ni: "i \<notin> set as"
    using split_list_first by fastforce
  then have rem: "remove1 i xs = as @ bs" by (simp add: remove1_append)
  have rd: "ring ?d (as @ i # bs)" using ring xs by simp
  have dist: "i \<notin> set bs" using ring xs by (auto simp: ring_def)
  consider (head) "as = []" | (tail) "as \<noteq> []" "bs = []" | (mid) "as \<noteq> []" "bs \<noteq> []" by blast
  then show ?thesis
  proof cases
    case head
    then have h: "cache_head c = i" and nx: "link_next (links ?d ! i) = hd (bs @ [i])"
      using rd by (auto simp: ring_def successively_append_iff successively_Cons linked_def
          split: if_splits)
    show ?thesis
    proof (cases "bs = []")
      case True
      with head h nx i rd show ?thesis
        unfolding rem by (auto simp: cache_remove_def Let_def ring_def)
    next
      case False
      with head rd have "successively (linked (links ?d)) ((bs @ [i]) @ [hd (bs @ [i])])"
        by (intro linked_rotate) (auto simp: ring_def)
      with False head h nx i rd show ?thesis
        unfolding rem by (auto simp: cache_remove_def Let_def ring_def)
    qed
  next
    case tail
    then have "cache_tail c = i" "cache_head c \<noteq> i"
      using rd ni hd_in_set [of as] by (auto simp: ring_def)
    with tail i rd show ?thesis
      by (simp add: cache_remove_def Let_def rem)
  next
    case mid
    then have ne: "cache_head c \<noteq> i" "cache_tail c \<noteq> i"
      using rd ni dist hd_in_set [of as] last_in_set [of bs] by (auto simp: ring_def)
    note nb = ring_split_neighbours [OF rd mid]
    show ?thesis
      using ne i ring_remove_middle [OF rd mid refl refl]
      by (simp add: cache_remove_def Let_def rem nb)
  qed
qed

lemma cache_remove_keys:
  assumes "j < length (links c)" and "i < length (links c)"
  shows "link_key (links (snd (cache_remove c i)) ! j) =
         (if j = i then None else link_key (links c ! j))"
  using assms by (auto simp: cache_remove_def Let_def links_set_key)

lemma length_cache_remove [simp]: "length (links (snd (cache_remove c i))) = length (links c)"
  by (simp add: cache_remove_def Let_def)

subsection \<open>The walks return\<close>

lemma find_indexes_ring:
  assumes "ring c xs" and "k < length xs"
  shows "find_indexes p c (xs ! k) = Some (find (\<lambda>i. p (links c ! i)) (drop k xs))"
  using assms(2)
proof (induction "length xs - k" arbitrary: k)
  case 0
  then show ?case by simp
next
  case (Suc m)
  have bnd: "xs ! k < length (links c)"
    using assms(1) Suc.prems nth_mem [of k xs] by (auto simp: ring_def)
  have drop: "drop k xs = xs ! k # drop (Suc k) xs"
    using Suc.prems by (simp add: Cons_nth_drop_Suc)
  show ?case
  proof (cases "Suc k < length xs")
    case True
    have nt: "xs ! k \<noteq> cache_tail c"
      unfolding ring_ends(2) [OF assms(1), symmetric]
      using ring_ends(4) [OF assms(1)] True by (subst nth_eq_iff_index_eq) auto
    have nx: "link_next (links c ! (xs ! k)) = xs ! Suc k"
      using ring_linked_nth [OF assms(1) True] by (simp add: linked_def)
    have IH: "find_indexes p c (xs ! Suc k) =
        Some (find (\<lambda>i. p (links c ! i)) (drop (Suc k) xs))"
      using Suc.hyps(1) [of "Suc k"] Suc.hyps(2) True by simp
    show ?thesis
      using bnd nt by (subst find_indexes.simps) (simp add: drop nx IH)
  next
    case False
    then have "k = length xs - 1" using Suc.prems by simp
    then have "xs ! k = cache_tail c"
      using ring_ends(2) [OF assms(1)] by simp
    then show ?thesis
      using bnd False by (subst find_indexes.simps) (simp add: drop)
  qed
qed

lemma find_indexes_rev_ring:
  assumes "ring c xs" and "k < length xs"
  shows "find_indexes_rev p c (xs ! k) = Some (find (\<lambda>i. p (links c ! i)) (rev (take (Suc k) xs)))"
  using assms(2)
proof (induction k)
  case 0
  have "xs ! 0 = cache_head c" and "cache_head c < length (links c)"
    using ring_ends [OF assms(1)] ring_bounds [OF assms(1)] by auto
  with 0 show ?case by (subst find_indexes_rev.simps) (simp add: take_Suc_conv_app_nth)
next
  case (Suc k)
  have bnd: "xs ! Suc k < length (links c)"
    using assms(1) Suc.prems nth_mem [of "Suc k" xs] by (auto simp: ring_def)
  have nh: "xs ! Suc k \<noteq> cache_head c"
    unfolding ring_ends(1) [OF assms(1), symmetric]
    using ring_ends(3,4) [OF assms(1)] Suc.prems by (subst nth_eq_iff_index_eq) auto
  have pv: "link_prev (links c ! (xs ! Suc k)) = xs ! k"
    using ring_linked_nth [OF assms(1) Suc.prems] by (simp add: linked_def)
  show ?case
    using bnd nh Suc.IH Suc.prems
    by (subst find_indexes_rev.simps) (simp add: pv take_Suc_conv_app_nth [of "Suc k"])
qed

lemma cache_find_ring:
  assumes "ring c xs"
  shows "cache_find c k = Some (find (\<lambda>i. link_key (links c ! i) = Some k) xs)"
  using find_indexes_ring [OF assms, of 0] ring_ends [OF assms]
  by (simp add: cache_find_def)

lemma cache_find_unused_ring:
  assumes "ring c xs"
  shows "cache_find_unused c = Some (find (\<lambda>i. link_key (links c ! i) = None) (rev xs))"
  using find_indexes_rev_ring [OF assms, of "length xs - 1"] ring_ends [OF assms]
  by (simp add: cache_find_unused_def)

subsection \<open>RcCache: data and operations\<close>

record 'k rc_cache =
  rc_cache :: "'k cache"
  counts :: "nat list"

definition rc_new :: "nat \<Rightarrow> 'k rc_cache" where
  "rc_new N = \<lparr>rc_cache = cache_new N, counts = replicate N 0\<rparr>"

definition rc_get :: "'k rc_cache \<Rightarrow> 'k \<Rightarrow> ((nat \<times> bool) option \<times> 'k rc_cache) kernel" where
  "rc_get r k = do {
     (found, c) \<leftarrow> cache_get (rc_cache r) k;
     (case found of
        None \<Rightarrow> Some (None, r\<lparr>rc_cache := c\<rparr>)
      | Some (i, is_new) \<Rightarrow>
          Some (Some (i, is_new), \<lparr>rc_cache = c, counts = (counts r)[i := counts r ! i + 1]\<rparr>))
   }"

definition rc_duplicate :: "'k rc_cache \<Rightarrow> nat \<Rightarrow> nat option \<times> 'k rc_cache" where
  "rc_duplicate r index =
     (if index < length (counts r)
      then (Some index, r\<lparr>counts := (counts r)[index := counts r ! index + 1]\<rparr>)
      else (None, r))"

definition rc_release :: "'k rc_cache \<Rightarrow> nat \<Rightarrow> (bool option \<times> 'k rc_cache) kernel" where
  "rc_release r index =
     (if index < length (counts r) then
        (if counts r ! index = 0 then None
         else if counts r ! index = 1 then
           (case cache_remove (rc_cache r) index of
              (None, _) \<Rightarrow> None
            | (Some _, c) \<Rightarrow> Some (Some True, \<lparr>rc_cache = c, counts = (counts r)[index := 0]\<rparr>))
         else Some (Some False, r\<lparr>counts := (counts r)[index := counts r ! index - 1]\<rparr>))
      else Some (None, r))"

definition rc_reference_count :: "'k rc_cache \<Rightarrow> nat \<Rightarrow> nat option" where
  "rc_reference_count r index =
     (if index < length (counts r) then Some (counts r ! index) else None)"

subsection \<open>RcCache: invariant and abstract view\<close>

text \<open>
  \<open>rc_slot r i\<close> is what slot \<open>i\<close> holds: a key and a positive number of references, or nothing.
  The invariant says that the links are a ring, that a slot has a key exactly when it is
  referenced, and that no two slots have the same key.
\<close>

definition rc_key :: "'k rc_cache \<Rightarrow> nat \<Rightarrow> 'k option" where
  "rc_key r i = link_key (links (rc_cache r) ! i)"

definition rc_slot :: "'k rc_cache \<Rightarrow> nat \<Rightarrow> ('k \<times> nat) option" where
  "rc_slot r i = (if i < length (counts r) then map_option (\<lambda>k. (k, counts r ! i)) (rc_key r i)
                  else None)"

definition rc_inv :: "nat \<Rightarrow> 'k rc_cache \<Rightarrow> bool" where
  "rc_inv N r \<longleftrightarrow>
     (\<exists>xs. ring (rc_cache r) xs) \<and>
     length (links (rc_cache r)) = N \<and> length (counts r) = N \<and>
     (\<forall>i<N. counts r ! i = 0 \<longleftrightarrow> rc_key r i = None) \<and>
     (\<forall>i<N. \<forall>j<N. rc_key r i \<noteq> None \<longrightarrow> rc_key r i = rc_key r j \<longrightarrow> i = j)"

lemma rc_inv_new: "0 < N \<Longrightarrow> rc_inv N (rc_new N)"
  using new_inv_new [of N] ring_cache_new [of N]
  by (auto simp: rc_inv_def rc_new_def rc_key_def new_inv_def)

lemma rc_slot_new: "0 < N \<Longrightarrow> rc_slot (rc_new N) i = None"
  using new_inv_new [of N] by (auto simp: rc_slot_def rc_new_def rc_key_def new_inv_def)

lemma rc_slot_Some:
  "rc_slot r i = Some (k, n) \<longleftrightarrow> i < length (counts r) \<and> rc_key r i = Some k \<and> counts r ! i = n"
  by (auto simp: rc_slot_def)

lemma rc_inv_set_count:
  assumes inv: "rc_inv N r" and i: "i < N" "rc_key r i = Some k" and n: "0 < n"
  shows "rc_inv N (r\<lparr>counts := (counts r)[i := n]\<rparr>) \<and>
         rc_slot (r\<lparr>counts := (counts r)[i := n]\<rparr>) = (rc_slot r)(i \<mapsto> (k, n))"
  using assms by (auto simp: rc_inv_def rc_slot_def rc_key_def nth_list_update fun_eq_iff)

lemma rc_get_find:
  assumes "rc_inv N r" and "ring (rc_cache r) xs"
  shows "rc_get r k =
     (case find (\<lambda>i. rc_key r i = Some k) xs of
        Some i \<Rightarrow> Some (Some (i, False), r\<lparr>counts := (counts r)[i := counts r ! i + 1]\<rparr>)
      | None \<Rightarrow> (case find (\<lambda>i. rc_key r i = None) (rev xs) of
          Some i \<Rightarrow> Some (Some (i, True),
            \<lparr>rc_cache = set_key i (Some k) (rc_cache r),
             counts = (counts r)[i := counts r ! i + 1]\<rparr>)
        | None \<Rightarrow> Some (None, r)))"
  using assms(2)
  by (simp add: rc_get_def cache_get_def cache_find_ring cache_find_unused_ring rc_key_def
      split: option.splits)

lemma rc_get_hit:
  assumes inv: "rc_inv N r" and slot: "rc_slot r i = Some (k, n)"
  shows "\<exists>r'. rc_get r k = Some (Some (i, False), r') \<and> rc_inv N r' \<and>
              rc_slot r' = (rc_slot r)(i \<mapsto> (k, Suc n))"
proof -
  obtain xs where xs: "ring (rc_cache r) xs" using inv by (auto simp: rc_inv_def)
  have i: "i < N" "rc_key r i = Some k" "counts r ! i = n"
    using inv slot by (auto simp: rc_slot_Some rc_inv_def)
  have "find (\<lambda>i. rc_key r i = Some k) xs = Some i"
  proof (cases "find (\<lambda>i. rc_key r i = Some k) xs")
    case None
    then show ?thesis using i inv xs find_NoneD [OF None, of i] by (auto simp: ring_def rc_inv_def)
  next
    case (Some j)
    then have "j < N" "rc_key r j = Some k"
      using inv xs find_SomeD [OF Some] by (auto simp: ring_def rc_inv_def)
    with i inv have "j = i" by (auto simp: rc_inv_def)
    with Some show ?thesis by simp
  qed
  with rc_get_find [OF inv xs, of k] rc_inv_set_count [OF inv i(1,2), of "Suc n"] i
  show ?thesis by simp
qed

lemma rc_set_key_new:
  assumes inv: "rc_inv N r" and i: "i < N" "rc_key r i = None"
    and new: "\<And>j. j < N \<Longrightarrow> rc_key r j \<noteq> Some k"
  defines "r' \<equiv> \<lparr>rc_cache = set_key i (Some k) (rc_cache r), counts = (counts r)[i := counts r ! i + 1]\<rparr>"
  shows "rc_inv N r' \<and> rc_slot r' = (rc_slot r)(i \<mapsto> (k, 1))"
proof -
  have len: "length (links (rc_cache r)) = N" "length (counts r) = N" and c0: "counts r ! i = 0"
    using inv i by (auto simp: rc_inv_def)
  have key: "rc_key r' j = (if j = i then Some k else rc_key r j)" if "j < N" for j
    using that len by (auto simp: r'_def rc_key_def links_set_key)
  have cnt: "counts r' ! j = (if j = i then 1 else counts r ! j)" if "j < N" for j
    using that len c0 by (auto simp: r'_def nth_list_update)
  have len': "length (counts r') = N" "length (links (rc_cache r')) = N"
    using len by (simp_all add: r'_def)
  have "\<exists>xs. ring (rc_cache r') xs" using inv by (simp add: r'_def rc_inv_def)
  moreover have "j = j'" if "j < N" "j' < N" "rc_key r' j \<noteq> None" "rc_key r' j = rc_key r' j'" for j j'
    using that inv new [of j] new [of j'] by (auto simp: key rc_inv_def split: if_splits)
  moreover have "counts r' ! j = 0 \<longleftrightarrow> rc_key r' j = None" if "j < N" for j
    using that inv by (auto simp: key cnt rc_inv_def)
  ultimately have "rc_inv N r'" using len' by (auto simp: rc_inv_def)
  moreover have "rc_slot r' = (rc_slot r)(i \<mapsto> (k, 1))"
    using len len' i key cnt by (auto simp: rc_slot_def fun_eq_iff)
  ultimately show ?thesis by blast
qed

lemma rc_get_miss:
  assumes inv: "rc_inv N r" and new: "\<And>j n. rc_slot r j \<noteq> Some (k, n)"
    and xs: "ring (rc_cache r) xs" and i: "find (\<lambda>i. rc_slot r i = None) (rev xs) = Some i"
  shows "\<exists>r'. rc_get r k = Some (Some (i, True), r') \<and> rc_inv N r' \<and>
              rc_slot r' = (rc_slot r)(i \<mapsto> (k, 1)) \<and> ring (rc_cache r') xs"
proof -
  have all: "set xs = {..<N}" "length (counts r) = N"
    using inv xs by (auto simp: rc_inv_def ring_def)
  have none: "rc_key r j \<noteq> Some k" if "j < N" for j
    using new [of j "counts r ! j"] that all by (auto simp: rc_slot_Some)
  then have n: "find (\<lambda>i. rc_key r i = Some k) xs = None"
    using all by (auto simp: find_None_iff)
  have eq: "find (\<lambda>i. rc_key r i = None) (rev xs) = find (\<lambda>i. rc_slot r i = None) (rev xs)"
    by (rule find_cong [OF refl]) (use all in \<open>auto simp: rc_slot_def\<close>)
  have "i \<in> set (rev xs) \<and> rc_slot r i = None" using i by (rule find_SomeD)
  then have iN: "i < N" and "rc_slot r i = None" using all(1) by simp_all
  then have key: "rc_key r i = None" using all(2) by (simp add: rc_slot_def)
  show ?thesis
    using rc_get_find [OF inv xs, of k] rc_set_key_new [OF inv iN key none] xs
    by (simp add: n eq i)
qed

lemma rc_get_full:
  assumes inv: "rc_inv N r" and new: "\<And>j n. rc_slot r j \<noteq> Some (k, n)"
    and full: "\<And>i. i < N \<Longrightarrow> rc_slot r i \<noteq> None"
  shows "rc_get r k = Some (None, r)"
proof -
  obtain xs where xs: "ring (rc_cache r) xs" using inv by (auto simp: rc_inv_def)
  have all: "set xs = {..<N}" "length (counts r) = N"
    using inv xs by (auto simp: rc_inv_def ring_def)
  have "find (\<lambda>i. rc_key r i = Some k) xs = None"
    using new all by (intro find_NoneI) (auto simp: rc_slot_Some)
  moreover have "find (\<lambda>i. rc_key r i = None) (rev xs) = None"
    using full all by (intro find_NoneI) (auto simp: rc_slot_def)
  ultimately show ?thesis using rc_get_find [OF inv xs, of k] by simp
qed

lemma rc_duplicate_slot:
  assumes "rc_inv N r" and "rc_slot r i = Some (k, n)"
  shows "\<exists>r'. rc_duplicate r i = (Some i, r') \<and> rc_inv N r' \<and> rc_slot r' = (rc_slot r)(i \<mapsto> (k, Suc n))"
  using assms rc_inv_set_count [of N r i k "Suc n"]
  by (auto simp: rc_duplicate_def rc_slot_Some rc_inv_def)

lemma rc_release_more:
  assumes "rc_inv N r" and "rc_slot r i = Some (k, n)" and "1 < n"
  shows "\<exists>r'. rc_release r i = Some (Some False, r') \<and> rc_inv N r' \<and>
              rc_slot r' = (rc_slot r)(i \<mapsto> (k, n - 1))"
  using assms rc_inv_set_count [of N r i k "n - 1"]
  by (auto simp: rc_release_def rc_slot_Some rc_inv_def)

lemma rc_release_last:
  assumes inv: "rc_inv N r" and slot: "rc_slot r i = Some (k, 1)" and xs: "ring (rc_cache r) xs"
  shows "\<exists>r'. rc_release r i = Some (Some True, r') \<and> rc_inv N r' \<and>
              rc_slot r' = (rc_slot r)(i := None) \<and> ring (rc_cache r') (remove1 i xs @ [i])"
proof -
  have len: "length (links (rc_cache r)) = N" "length (counts r) = N"
    and i: "i < N" "counts r ! i = 1" "rc_key r i = Some k"
    using inv slot by (auto simp: rc_slot_Some rc_inv_def)
  let ?r' = "\<lparr>rc_cache = snd (cache_remove (rc_cache r) i), counts = (counts r)[i := 0]\<rparr>"
  have rem: "fst (cache_remove (rc_cache r) i) = Some ()"
    "ring (snd (cache_remove (rc_cache r) i)) (remove1 i xs @ [i])"
    using ring_remove [OF xs, of i] i len by auto
  have key: "rc_key ?r' j = (if j = i then None else rc_key r j)" if "j < N" for j
    using that i len by (simp add: rc_key_def cache_remove_keys)
  have "rc_inv N ?r'"
    unfolding rc_inv_def
  proof (intro conjI allI impI)
    show "\<exists>xs. ring (rc_cache ?r') xs" using rem by auto
    fix j assume j: "j < N"
    then show "counts ?r' ! j = 0 \<longleftrightarrow> rc_key ?r' j = None"
      using inv len i by (auto simp: key nth_list_update rc_inv_def)
    fix j' assume j': "j' < N" "rc_key ?r' j \<noteq> None" "rc_key ?r' j = rc_key ?r' j'"
    with j have "rc_key r j \<noteq> None" "rc_key r j = rc_key r j'"
      by (auto simp: key split: if_splits)
    with inv j j' show "j = j'" by (auto simp: rc_inv_def)
  qed (use len in auto)
  moreover have "rc_slot ?r' = (rc_slot r)(i := None)"
    using len i key by (auto simp: rc_slot_def fun_eq_iff nth_list_update)
  moreover have "rc_release r i = Some (Some True, ?r')"
  proof -
    obtain c' where "cache_remove (rc_cache r) i = (Some (), c')"
      using rem(1) by (cases "cache_remove (rc_cache r) i") auto
    then show ?thesis using i len by (simp add: rc_release_def)
  qed
  ultimately show ?thesis using rem by auto
qed

lemma rc_release_unused: "rc_inv N r \<Longrightarrow> i < N \<Longrightarrow> rc_slot r i = None \<Longrightarrow> rc_release r i = None"
  by (auto simp: rc_release_def rc_slot_def rc_inv_def)

subsection \<open>The contract of a reference-counted slot cache\<close>

text \<open>
  What the buffer cache and the inode cache rely on. \<open>slot c i\<close> is the key and the positive
  reference count of slot \<open>i\<close>, or \<open>None\<close>. \<open>get\<close> finds the slot of a key, or takes a free slot
  for it and says so, or reports that no slot is free; \<open>dup\<close> and \<open>rel\<close> count references, and
  the last \<open>rel\<close> frees the slot. \<open>rel\<close> of a free slot panics.
\<close>

locale ref_cache =
  fixes invar :: "'c \<Rightarrow> bool"
    and cap :: nat
    and slot :: "'c \<Rightarrow> nat \<Rightarrow> ('k \<times> nat) option"
    and get :: "'c \<Rightarrow> 'k \<Rightarrow> ((nat \<times> bool) option \<times> 'c) kernel"
    and dup :: "'c \<Rightarrow> nat \<Rightarrow> nat option \<times> 'c"
    and rel :: "'c \<Rightarrow> nat \<Rightarrow> (bool option \<times> 'c) kernel"
  assumes slot_bound: "invar c \<Longrightarrow> slot c i \<noteq> None \<Longrightarrow> i < cap"
    and slot_pos: "invar c \<Longrightarrow> slot c i = Some (k, n) \<Longrightarrow> 0 < n"
    and slot_inj: "invar c \<Longrightarrow> slot c i = Some (k, n) \<Longrightarrow> slot c j = Some (k, m) \<Longrightarrow> i = j"
    and get_hit: "invar c \<Longrightarrow> slot c i = Some (k, n) \<Longrightarrow>
      \<exists>c'. get c k = Some (Some (i, False), c') \<and> invar c' \<and> slot c' = (slot c)(i \<mapsto> (k, Suc n))"
    and get_miss: "invar c \<Longrightarrow> (\<And>j n. slot c j \<noteq> Some (k, n)) \<Longrightarrow> j < cap \<Longrightarrow> slot c j = None \<Longrightarrow>
      \<exists>i c'. get c k = Some (Some (i, True), c') \<and> i < cap \<and> slot c i = None \<and> invar c' \<and>
             slot c' = (slot c)(i \<mapsto> (k, 1))"
    and get_full: "invar c \<Longrightarrow> (\<And>j n. slot c j \<noteq> Some (k, n)) \<Longrightarrow>
      (\<And>j. j < cap \<Longrightarrow> slot c j \<noteq> None) \<Longrightarrow> get c k = Some (None, c)"
    and dup_slot: "invar c \<Longrightarrow> slot c i = Some (k, n) \<Longrightarrow>
      \<exists>c'. dup c i = (Some i, c') \<and> invar c' \<and> slot c' = (slot c)(i \<mapsto> (k, Suc n))"
    and rel_last: "invar c \<Longrightarrow> slot c i = Some (k, 1) \<Longrightarrow>
      \<exists>c'. rel c i = Some (Some True, c') \<and> invar c' \<and> slot c' = (slot c)(i := None)"
    and rel_more: "invar c \<Longrightarrow> slot c i = Some (k, n) \<Longrightarrow> 1 < n \<Longrightarrow>
      \<exists>c'. rel c i = Some (Some False, c') \<and> invar c' \<and> slot c' = (slot c)(i \<mapsto> (k, n - 1))"
    and rel_unused: "invar c \<Longrightarrow> i < cap \<Longrightarrow> slot c i = None \<Longrightarrow> rel c i = None"
begin

lemma get_cases:
  assumes "invar c"
  obtains (hit) i n c' where "slot c i = Some (k, n)" "get c k = Some (Some (i, False), c')"
      "invar c'" "slot c' = (slot c)(i \<mapsto> (k, Suc n))"
    | (miss) i c' where "\<And>j n. slot c j \<noteq> Some (k, n)" "slot c i = None" "i < cap"
      "get c k = Some (Some (i, True), c')" "invar c'" "slot c' = (slot c)(i \<mapsto> (k, 1))"
    | (full) "\<And>j n. slot c j \<noteq> Some (k, n)" "\<And>j. j < cap \<Longrightarrow> slot c j \<noteq> None"
      "get c k = Some (None, c)"
proof (cases "\<exists>i n. slot c i = Some (k, n)")
  case True
  then show ?thesis using get_hit [OF assms] hit by blast
next
  case False
  show ?thesis
  proof (cases "\<exists>j<cap. slot c j = None")
    case True
    then show ?thesis using False get_miss [OF assms] miss by blast
  next
    case nofree: False
    have a: "\<And>j n. slot c j \<noteq> Some (k, n)" using False by blast
    have b: "\<And>j. j < cap \<Longrightarrow> slot c j \<noteq> None" using nofree by (metis not_None_eq)
    show ?thesis by (rule full [OF a b get_full [OF assms a b]])
  qed
qed

lemma get_total: "invar c \<Longrightarrow> get c k \<noteq> None"
  by (rule get_cases [of c k]) auto

lemma get_Some:
  assumes "invar c" and "get c k = Some (Some (i, new), c')"
  shows "invar c' \<and> i < cap \<and>
         (if new then slot c i = None \<and> (\<forall>j n. slot c j \<noteq> Some (k, n)) \<and> slot c' = (slot c)(i \<mapsto> (k, 1))
          else \<exists>n. slot c i = Some (k, n) \<and> slot c' = (slot c)(i \<mapsto> (k, Suc n)))"
  using assms slot_bound [OF assms(1)] by (cases rule: get_cases [OF assms(1), of k]) auto

text \<open>Taking a reference and giving it back leaves every slot as it was.\<close>

lemma get_rel:
  assumes inv: "invar c" and get: "get c k = Some (Some (i, new), c')"
  shows "\<exists>c''. rel c' i = Some (Some new, c'') \<and> invar c'' \<and> slot c'' = slot c"
proof -
  have g: "invar c' \<and> i < cap \<and>
         (if new then slot c i = None \<and> (\<forall>j n. slot c j \<noteq> Some (k, n)) \<and> slot c' = (slot c)(i \<mapsto> (k, 1))
          else \<exists>n. slot c i = Some (k, n) \<and> slot c' = (slot c)(i \<mapsto> (k, Suc n)))"
    by (rule get_Some [OF inv get])
  show ?thesis
  proof (cases new)
    case True
    with g have "slot c' i = Some (k, 1)" "slot c' = (slot c)(i \<mapsto> (k, 1))" "slot c i = None" by auto
    with rel_last [of c' i k] g True show ?thesis by (auto simp: fun_upd_idem)
  next
    case False
    with g obtain n where n: "slot c i = Some (k, n)" "slot c' = (slot c)(i \<mapsto> (k, Suc n))" by auto
    then have "0 < n" using slot_pos [OF inv] by blast
    with rel_more [of c' i k "Suc n"] g n False show ?thesis by (auto simp: fun_upd_idem)
  qed
qed

text \<open>The index that a key got keeps meaning that key as long as it is referenced.\<close>

lemma get_again:
  assumes "invar c" and "slot c i = Some (k, n)" and "get c k = Some (r, c')"
  shows "r = Some (i, False)"
  using get_hit [OF assms(1,2)] assms(3) by auto

end

interpretation rcc: ref_cache "rc_inv N" N rc_slot rc_get rc_duplicate rc_release for N
proof (unfold_locales, goal_cases)
  case (1 c i)
  then show ?case by (auto simp: rc_slot_def rc_inv_def split: if_splits)
next
  case (2 c i k n)
  then show ?case by (auto simp: rc_slot_Some rc_inv_def)
next
  case (3 c i k n j m)
  then show ?case by (auto simp: rc_slot_Some rc_inv_def)
next
  case (4 c i k n)
  then show ?case by (rule rc_get_hit)
next
  case (5 c k j)
  then obtain xs where xs: "ring (rc_cache c) xs" by (auto simp: rc_inv_def)
  with 5 have "j \<in> set (rev xs)" by (auto simp: ring_def rc_inv_def)
  with 5 obtain i where i: "find (\<lambda>i. rc_slot c i = None) (rev xs) = Some i"
    using find_NoneD by fastforce
  then have "i \<in> set (rev xs) \<and> rc_slot c i = None" by (rule find_SomeD)
  with 5 xs have "i < N" "rc_slot c i = None" by (auto simp: ring_def rc_inv_def)
  with rc_get_miss [OF 5(1,2) xs i] show ?case by blast
next
  case (6 c k)
  then show ?case by (intro rc_get_full)
next
  case (7 c i k n)
  then show ?case by (rule rc_duplicate_slot)
next
  case (8 c i k)
  then obtain xs where "ring (rc_cache c) xs" by (auto simp: rc_inv_def)
  from rc_release_last [OF 8 this] show ?case by blast
next
  case (9 c i k n)
  then show ?case by (rule rc_release_more)
next
  case (10 c i)
  then show ?case by (rule rc_release_unused)
qed

subsection \<open>Properties\<close>

text \<open>
  C34. The links of \<open>Cache\<close> always form one ring. \<open>Cache::new\<close> builds it in slot order, and
  \<open>Cache::remove\<close> takes any slot out of its place, clears its key and puts it at the tail; the
  order of the other slots and their keys do not change.
\<close>

theorem cache_ring_maintained:
  fixes c :: "'k cache"
  assumes "ring c xs" and "i < length (links c)" and "cache_remove c i = (r, c')"
  shows "ring (cache_new (Suc n) :: 'k cache) [0..<Suc n] \<and>
         r = Some () \<and> ring c' (remove1 i xs @ [i]) \<and>
         (\<forall>j<length (links c). link_key (links c' ! j) =
            (if j = i then None else link_key (links c ! j)))"
  using assms ring_remove [of c xs i] cache_remove_keys [of _ c i] ring_cache_new [of "Suc n"]
  by auto

theorem cache_ring_maintained_witness:
  "ring (snd (cache_remove (cache_new 4 :: nat cache) 1)) [0, 2, 3, 1]"
proof -
  have r: "ring (cache_new 4 :: nat cache) [0, 1, 2, 3]"
    using ring_cache_new [of 4] by (simp add: upt_conv_Cons eval_nat_numeral)
  have len: "1 < length (links (cache_new 4 :: nat cache))"
    by (simp add: length_cache_new)
  obtain a c' where rem: "cache_remove (cache_new 4 :: nat cache) 1 = (a, c')" by fastforce
  show ?thesis using cache_ring_maintained [OF r len rem, of 0] rem by simp
qed

text \<open>
  C32. \<open>RcCache::get\<close> always returns. A key that is in the cache is found again at its slot, with
  one more reference; a new key gets a slot without references, namely the one released last,
  with one reference; the answer is \<open>None\<close> exactly when the key is absent and every slot is
  referenced. Other slots keep key and count.
\<close>

theorem rc_get_correct:
  assumes inv: "rc_inv N r" and xs: "ring (rc_cache r) xs"
  shows "(\<exists>i n r'. rc_slot r i = Some (k, n) \<and> rc_get r k = Some (Some (i, False), r') \<and>
            rc_inv N r' \<and> rc_slot r' = (rc_slot r)(i \<mapsto> (k, Suc n)))
       \<or> (\<forall>j n. rc_slot r j \<noteq> Some (k, n)) \<and>
         (\<exists>i r'. find (\<lambda>i. rc_slot r i = None) (rev xs) = Some i \<and>
            rc_get r k = Some (Some (i, True), r') \<and>
            rc_inv N r' \<and> rc_slot r' = (rc_slot r)(i \<mapsto> (k, 1)))
       \<or> (\<forall>j n. rc_slot r j \<noteq> Some (k, n)) \<and> (\<forall>j<N. rc_slot r j \<noteq> None) \<and>
         rc_get r k = Some (None, r)"
proof (rule rcc.get_cases [OF inv, of k], goal_cases hit miss full)
  case (hit i n c')
  then show ?thesis by blast
next
  case (miss i c')
  then have "i \<in> set (rev xs)" using inv xs by (auto simp: ring_def rc_inv_def)
  with miss obtain j where j: "find (\<lambda>i. rc_slot r i = None) (rev xs) = Some j"
    using find_NoneD by fastforce
  with rc_get_miss [OF inv miss(1) xs j] miss show ?thesis by blast
next
  case full
  then show ?thesis by blast
qed

theorem rc_get_correct_witness:
  "\<exists>r'. rc_get (rc_new 3) (7::nat) = Some (Some (2, True), r') \<and> rc_slot r' 2 = Some (7, 1)"
proof -
  have inv: "rc_inv 3 (rc_new 3 :: nat rc_cache)" by (rule rc_inv_new) simp
  have xs: "ring (rc_cache (rc_new 3 :: nat rc_cache)) [0, 1, 2]"
    unfolding rc_new_def using ring_cache_new [of 3] by (simp add: upt_conv_Cons eval_nat_numeral)
  have none: "\<And>i. rc_slot (rc_new 3 :: nat rc_cache) i = None" by (rule rc_slot_new) simp
  show ?thesis
    using rc_get_correct [OF inv xs, of 7] none by (auto dest: spec [of _ 0])
qed

text \<open>
  C33. References are counted exactly. \<open>RcCache::release\<close> undoes a \<open>get\<close>: it reports a free slot
  exactly when the \<open>get\<close> had taken a new one, and every slot is as before the \<open>get\<close>; a
  \<open>release\<close> of a slot without references panics.
\<close>

theorem rc_release_correct:
  assumes "rc_inv N r"
  shows "(rc_get r k = Some (Some (i, is_new), r') \<longrightarrow>
           (\<exists>r''. rc_release r' i = Some (Some is_new, r'') \<and> rc_inv N r'' \<and> rc_slot r'' = rc_slot r)) \<and>
         (j < N \<and> rc_slot r j = None \<longrightarrow> rc_release r j = None)"
  using rcc.get_rel [OF assms] rcc.rel_unused [OF assms] by blast

theorem rc_release_correct_witness:
  "\<exists>r' r''. rc_get (rc_new 2) (7::nat) = Some (Some (1, True), r') \<and>
            rc_release r' 1 = Some (Some True, r'') \<and> rc_release (rc_new 2 :: nat rc_cache) 0 = None"
proof -
  have inv: "rc_inv 2 (rc_new 2 :: nat rc_cache)" by (rule rc_inv_new) simp
  have xs: "ring (rc_cache (rc_new 2 :: nat rc_cache)) [0..<2]"
    unfolding rc_new_def using ring_cache_new [of 2] by simp
  have none: "\<And>i. rc_slot (rc_new 2 :: nat rc_cache) i = None" by (rule rc_slot_new) simp
  obtain r' where g: "rc_get (rc_new 2) (7::nat) = Some (Some (1, True), r')"
    using rc_get_miss [OF inv _ xs, of 7 1] none by (auto simp: numeral_2_eq_2)
  show ?thesis using rc_release_correct [OF inv, of 7 1 True r' 0] g none by auto
qed

end
