(* ===== verification/Interrupt.thy ===== *)
theory Interrupt
  imports Prelude
begin

text \<open>
  Interrupt masking: the supervisor status bits of src/kernel/src/riscv.rs, the nesting counters of
  src/kernel/src/interrupt.rs, and the constants of src/kernel/src/config.rs.

  A hart is a RISC-V hardware thread. Its registers \<open>sstatus\<close> and \<open>tp\<close> and its entry of the
  static array \<open>STATES\<close> are the record \<open>hart\<close>; no hart touches the entry of another, because
  \<open>get_state\<close> indexes the array by the hart's own \<open>tp\<close>.
\<close>

definition NCPU :: nat where "NCPU = 8"
definition NPROC :: nat where "NPROC = 64"
definition NOFILE :: nat where "NOFILE = 16"
definition NINODE :: nat where "NINODE = 50"
definition NDEV :: nat where "NDEV = 10"
definition MAXARG :: nat where "MAXARG = 32"
definition MAXOPBLOCKS :: nat where "MAXOPBLOCKS = 10"
definition LOGSIZE :: nat where "LOGSIZE = MAXOPBLOCKS * 3"
definition NBUF :: nat where "NBUF = MAXOPBLOCKS * 3"
definition MAXPATH :: nat where "MAXPATH = 128"

lemmas config_defs = NCPU_def NPROC_def NOFILE_def NINODE_def NDEV_def MAXARG_def
  MAXOPBLOCKS_def LOGSIZE_def NBUF_def MAXPATH_def

definition SPP :: u64 where "SPP = push_bit 8 1"
definition SPIE :: u64 where "SPIE = push_bit 5 1"
definition SIE :: u64 where "SIE = push_bit 1 1"

record hart =
  sstatus :: u64
  tp :: usize
  depth_of_disable :: nat
  is_enabled_before :: bool

definition enable_interrupt :: "hart \<Rightarrow> hart" where
  "enable_interrupt h = h\<lparr>sstatus := sstatus h OR SIE\<rparr>"

definition disable_interrupt :: "hart \<Rightarrow> hart" where
  "disable_interrupt h = h\<lparr>sstatus := sstatus h AND NOT SIE\<rparr>"

definition is_enabled :: "hart \<Rightarrow> bool" where
  "is_enabled h \<longleftrightarrow> sstatus h AND SIE \<noteq> 0"

text \<open>\<open>cpu::id\<close> and \<open>interrupt::hartid\<close>: reading the hart number requires masked interrupts.\<close>

definition cpu_id :: "hart \<Rightarrow> usize kernel" where
  "cpu_id h = do { assertk (\<not> is_enabled h); Some (tp h) }"

text \<open>
  \<open>get_state\<close> requires masked interrupts, twice, and indexes \<open>STATES\<close>, which has \<open>NCPU\<close> entries.
\<close>

definition get_state :: "hart \<Rightarrow> unit kernel" where
  "get_state h = do {
     assertk (\<not> is_enabled h);
     hartid \<leftarrow> cpu_id h;
     assertk (unat hartid < NCPU) }"

definition push_off :: "hart \<Rightarrow> hart kernel" where
  "push_off h =
     (let enabled = is_enabled h; h = disable_interrupt h in do {
        get_state h;
        let h = (if depth_of_disable h = 0 then h\<lparr>is_enabled_before := enabled\<rparr> else h);
        Some (h\<lparr>depth_of_disable := depth_of_disable h + 1\<rparr>) })"

definition pop_off :: "hart \<Rightarrow> hart kernel" where
  "pop_off h = do {
     get_state h;
     assertk (depth_of_disable h > 0);
     let h = h\<lparr>depth_of_disable := depth_of_disable h - 1\<rparr>;
     Some (if depth_of_disable h = 0 \<and> is_enabled_before h then enable_interrupt h else h) }"

definition interrupt_off :: "(hart \<Rightarrow> ('r \<times> hart) kernel) \<Rightarrow> hart \<Rightarrow> ('r \<times> hart) kernel" where
  "interrupt_off f h = do {
     h \<leftarrow> push_off h;
     (ret, h) \<leftarrow> f h;
     h \<leftarrow> pop_off h;
     Some (ret, h) }"

subsection \<open>Facts\<close>

lemma is_enabled_bit: "is_enabled h \<longleftrightarrow> bit (sstatus h) 1"
  by (simp add: is_enabled_def SIE_def and_mask_neq_0 [where n = 1, simplified])

lemma sstatus_disable: "sstatus (disable_interrupt h) = unset_bit 1 (sstatus h)"
  by (simp add: disable_interrupt_def SIE_def and_not_mask_unset_bit [where n = 1, simplified])

lemma sstatus_enable: "sstatus (enable_interrupt h) = set_bit 1 (sstatus h)"
  by (simp add: enable_interrupt_def SIE_def or_mask_set_bit [where n = 1, simplified])

lemma hart_frame [simp]:
  "tp (disable_interrupt h) = tp h" "tp (enable_interrupt h) = tp h"
  "depth_of_disable (disable_interrupt h) = depth_of_disable h"
  "depth_of_disable (enable_interrupt h) = depth_of_disable h"
  "is_enabled_before (disable_interrupt h) = is_enabled_before h"
  "is_enabled_before (enable_interrupt h) = is_enabled_before h"
  by (simp_all add: disable_interrupt_def enable_interrupt_def)

lemma not_enabled_disable [simp]: "\<not> is_enabled (disable_interrupt h)"
  by (simp add: is_enabled_bit sstatus_disable bit_unset_bit_iff)

lemma enabled_enable [simp]: "is_enabled (enable_interrupt h)"
  by (simp add: is_enabled_bit sstatus_enable bit_set_bit_iff)

lemma is_enabled_frame [simp]:
  "is_enabled (h\<lparr>depth_of_disable := d\<rparr>) = is_enabled h"
  "is_enabled (h\<lparr>is_enabled_before := b\<rparr>) = is_enabled h"
  by (simp_all add: is_enabled_def)

text \<open>
  The invariant of a hart: its number is an index of \<open>STATES\<close>, and while some \<open>push_off\<close> is open,
  interrupts are masked.
\<close>

definition hart_inv :: "hart \<Rightarrow> bool" where
  "hart_inv h \<longleftrightarrow> unat (tp h) < NCPU \<and> (0 < depth_of_disable h \<longrightarrow> \<not> is_enabled h)"

lemma get_state_iff: "get_state h = (if \<not> is_enabled h \<and> unat (tp h) < NCPU then Some () else None)"
  by (simp add: get_state_def cpu_id_def assertk_def)

lemma push_off_Some:
  "unat (tp h) < NCPU \<Longrightarrow> push_off h = Some (let h' = disable_interrupt h in
     h'\<lparr>is_enabled_before := (if depth_of_disable h = 0 then is_enabled h else is_enabled_before h),
       depth_of_disable := depth_of_disable h + 1\<rparr>)"
  by (simp add: push_off_def Let_def get_state_iff)

lemma push_off_tp: "push_off h = Some h' \<Longrightarrow> unat (tp h) < NCPU"
  by (auto simp: push_off_def Let_def get_state_iff split: if_splits)

lemma push_off_facts:
  assumes "push_off h = Some h'"
  shows "\<not> is_enabled h'" "depth_of_disable h' = Suc (depth_of_disable h)" "tp h' = tp h" "hart_inv h'"
  using assms push_off_tp [OF assms] by (auto simp: push_off_Some Let_def hart_inv_def)

lemma pop_off_facts:
  assumes "pop_off h = Some h'"
  shows "depth_of_disable h = Suc (depth_of_disable h')" "tp h' = tp h" "hart_inv h'"
  using assms by (auto simp: pop_off_def get_state_iff assertk_def Let_def hart_inv_def split: if_splits)

lemma pop_off_Some:
  assumes "hart_inv h" "0 < depth_of_disable h"
  shows "pop_off h \<noteq> None"
  using assms by (auto simp: pop_off_def get_state_iff Let_def hart_inv_def)

lemma set_unset_bit: "bit w n \<Longrightarrow> set_bit n (unset_bit n w) = (w :: 'a::len word)"
  by (rule bit_word_eqI) (auto simp: bit_set_bit_iff bit_unset_bit_iff)

lemma unset_bit_idem: "\<not> bit w n \<Longrightarrow> unset_bit n w = (w :: 'a::len word)"
  by (rule bit_word_eqI) (auto simp: bit_unset_bit_iff)

lemma pop_push:
  assumes inv: "hart_inv h" and push: "push_off h = Some h'"
  shows "pop_off h' = Some (if depth_of_disable h = 0 then h\<lparr>is_enabled_before := is_enabled h\<rparr> else h)"
proof -
  have tp: "unat (tp h) < NCPU" using inv by (simp add: hart_inv_def)
  have bits: "bit (sstatus h) 1 \<Longrightarrow> set_bit 1 (unset_bit 1 (sstatus h)) = sstatus h"
    "\<not> bit (sstatus h) 1 \<Longrightarrow> unset_bit 1 (sstatus h) = sstatus h"
    by (rule set_unset_bit, assumption, rule unset_bit_idem)
  define b where "b = (if depth_of_disable h = 0 then is_enabled h else is_enabled_before h)"
  have h': "h' = (disable_interrupt h)\<lparr>is_enabled_before := b, depth_of_disable := Suc (depth_of_disable h)\<rparr>"
    using push by (simp add: push_off_Some [OF tp] Let_def b_def)
  have "pop_off h' = Some (if depth_of_disable h = 0 \<and> b
    then enable_interrupt ((disable_interrupt h)\<lparr>is_enabled_before := b, depth_of_disable := depth_of_disable h\<rparr>)
    else (disable_interrupt h)\<lparr>is_enabled_before := b, depth_of_disable := depth_of_disable h\<rparr>)"
    using tp by (simp add: pop_off_def get_state_iff h')
  also have "\<dots> = Some (h\<lparr>is_enabled_before := b\<rparr>)"
  proof (cases "depth_of_disable h = 0 \<and> is_enabled h")
    case True
    then show ?thesis
      using bits(1) sstatus_enable [of "disable_interrupt h"] sstatus_disable [of h]
      by (auto simp: enable_interrupt_def disable_interrupt_def b_def is_enabled_bit)
  next
    case False
    then have "\<not> is_enabled h" using inv by (auto simp: hart_inv_def)
    with False show ?thesis
      using bits(2) sstatus_disable [of h]
      by (auto simp: disable_interrupt_def b_def is_enabled_bit)
  qed
  finally show ?thesis by (simp add: b_def)
qed

text \<open>
  \<open>interrupt::off\<close> runs its body masked and gives back the same \<open>sstatus\<close>, hart number and depth.
\<close>

lemma interrupt_off_runs:
  assumes "hart_inv h" and body: "\<And>g. \<not> is_enabled g \<Longrightarrow> tp g = tp h \<Longrightarrow> f g = Some (r, g)"
  shows "\<exists>b. interrupt_off f h = Some (r, h\<lparr>is_enabled_before := b\<rparr>)"
proof -
  obtain g where g: "push_off h = Some g" using assms(1) by (auto simp: hart_inv_def push_off_Some)
  then have "f g = Some (r, g)" using push_off_facts [OF g] by (intro body) auto
  then show ?thesis using g pop_push [OF assms(1) g] by (auto simp: interrupt_off_def intro: exI [of _ "is_enabled_before h"])
qed

subsection \<open>Properties\<close>

text \<open>\<open>push_off\<close> and \<open>pop_off\<close> repeated \<open>n\<close> times.\<close>

fun push_offs :: "nat \<Rightarrow> hart \<Rightarrow> hart kernel" where
  "push_offs 0 h = Some h"
| "push_offs (Suc n) h = do { h \<leftarrow> push_off h; push_offs n h }"

fun pop_offs :: "nat \<Rightarrow> hart \<Rightarrow> hart kernel" where
  "pop_offs 0 h = Some h"
| "pop_offs (Suc n) h = do { h \<leftarrow> pop_off h; pop_offs n h }"

lemma pop_offs_Suc: "pop_offs (Suc n) h = do { h \<leftarrow> pop_offs n h; pop_off h }"
proof (induction n arbitrary: h)
  case (Suc n)
  have "pop_offs (Suc (Suc n)) h = do { h \<leftarrow> pop_off h; pop_offs (Suc n) h }" by (rule pop_offs.simps)
  also have "\<dots> = do { h \<leftarrow> pop_off h; h \<leftarrow> pop_offs n h; pop_off h }" by (simp only: Suc.IH)
  also have "\<dots> = do { h \<leftarrow> pop_offs (Suc n) h; pop_off h }" by (cases "pop_off h") simp_all
  finally show ?case .
next
  case 0
  show ?case by (cases "pop_off h") simp_all
qed

lemma pop_push_offs_nested:
  assumes "hart_inv h" and "0 < depth_of_disable h" and "push_offs n h = Some h'"
  shows "pop_offs n h' = Some h"
  using assms
proof (induction n arbitrary: h)
  case (Suc n)
  then obtain g where g: "push_off h = Some g" "push_offs n g = Some h'" by (auto split: Option.bind_splits)
  then have "pop_offs n h' = Some g" using push_off_facts [OF g(1)] by (intro Suc.IH) auto
  then show ?case
    using pop_push [OF Suc.prems(1) g(1)] Suc.prems(2) unfolding pop_offs_Suc by simp
qed simp

lemma push_offs_Some: "unat (tp h) < NCPU \<Longrightarrow> \<exists>h'. push_offs n h = Some h'"
  by (induction n arbitrary: h) (auto simp: push_off_Some Let_def)

lemma push_offs_masked: "push_offs n h = Some h' \<Longrightarrow> 0 < n \<Longrightarrow> \<not> is_enabled h'"
proof (induction n arbitrary: h)
  case (Suc n)
  then obtain g where "push_off h = Some g" "push_offs n g = Some h'" by (auto split: Option.bind_splits)
  then show ?case using Suc.IH [of g] push_off_facts(1) by (cases n) auto
qed simp

text \<open>
  Interrupt masking nests: on a hart in a consistent state any number of nested \<open>push_off\<close>s
  succeeds and leaves interrupts masked, and the same number of \<open>pop_off\<close>s succeeds and gives back
  the hart exactly as it was, every bit of \<open>sstatus\<close> included; only the recorded flag
  \<open>is_enabled_before\<close> of an outermost section changes, to whether interrupts were enabled.
\<close>

theorem push_pop_balanced:
  assumes "hart_inv h"
  shows "\<exists>h'. push_offs n h = Some h' \<and> (0 < n \<longrightarrow> \<not> is_enabled h') \<and>
    pop_offs n h' = Some (if 0 < n \<and> depth_of_disable h = 0
      then h\<lparr>is_enabled_before := is_enabled h\<rparr> else h)"
proof -
  have tp: "unat (tp h) < NCPU" using assms by (simp add: hart_inv_def)
  obtain h' where h': "push_offs n h = Some h'" using push_offs_Some [OF tp] by blast
  have "pop_offs n h' = Some (if 0 < n \<and> depth_of_disable h = 0
      then h\<lparr>is_enabled_before := is_enabled h\<rparr> else h)"
  proof (cases n)
    case (Suc m)
    then obtain g where g: "push_off h = Some g" "push_offs m g = Some h'"
      using h' by (auto split: Option.bind_splits)
    then have "pop_offs m h' = Some g" using push_off_facts [OF g(1)] by (intro pop_push_offs_nested) auto
    then show ?thesis
      using pop_push [OF assms g(1)] unfolding Suc pop_offs_Suc by simp
  qed (use h' in simp)
  with h' push_offs_masked [OF h'] show ?thesis by blast
qed

theorem push_pop_balanced_witness:
  "\<exists>h'. push_offs 3 \<lparr>sstatus = 0x22, tp = 2, depth_of_disable = 0, is_enabled_before = False\<rparr> = Some h' \<and>
    pop_offs 3 h' = Some \<lparr>sstatus = 0x22, tp = 2, depth_of_disable = 0, is_enabled_before = True\<rparr>"
  using push_pop_balanced
    [of "\<lparr>sstatus = 0x22, tp = 2, depth_of_disable = 0, is_enabled_before = False\<rparr>" 3]
  by (auto simp: hart_inv_def NCPU_def is_enabled_def SIE_def)

end
