(* ===== verification/Spinlock.thy ===== *)
theory Spinlock
  imports Interrupt
begin

text \<open>
  Spin locks, src/kernel/src/spinlock.rs. First the operations as one hart runs them, then the
  interleaving of the atomic accesses that \<open>lock\<close> and \<open>unlock_raw\<close> make to the two atomics
  \<open>locked\<close> and \<open>cpuid\<close>, for any number of harts (at most \<open>NCPU\<close>) contending for one lock. Memory
  is sequentially consistent: the fences of the source are not modelled.
\<close>

subsection \<open>The lock as one hart sees it\<close>

record 'a spinlock =
  sl_locked :: bool
  sl_value :: 'a
  sl_cpuid :: usize

definition usize_MAX :: usize where "usize_MAX = - 1"

definition spinlock_new :: "'a \<Rightarrow> 'a spinlock" where
  "spinlock_new v = \<lparr>sl_locked = False, sl_value = v, sl_cpuid = usize_MAX\<rparr>"

definition is_held_by_current_cpu :: "hart \<Rightarrow> 'a spinlock \<Rightarrow> bool kernel" where
  "is_held_by_current_cpu h l = do {
     assertk (\<not> is_enabled h);
     if sl_locked l then do { i \<leftarrow> cpu_id h; Some (sl_cpuid l = i) } else Some False }"

text \<open>
  \<open>lock\<close> when no other hart interferes: a panic when this hart holds the lock, otherwise the
  acquired lock, or \<open>Spin\<close> when another hart holds it, in which case the loop runs on until that
  hart lets go.
\<close>

datatype 'a acquired = Acquired 'a | Spin

definition spin_lock :: "hart \<Rightarrow> 'a spinlock \<Rightarrow> (hart \<times> 'a spinlock) acquired kernel" where
  "spin_lock h l = do {
     h \<leftarrow> push_off h;
     held \<leftarrow> is_held_by_current_cpu h l;
     assertk (\<not> held);
     if sl_locked l then Some Spin
     else do { i \<leftarrow> cpu_id h; Some (Acquired (h, l\<lparr>sl_locked := True, sl_cpuid := i\<rparr>)) } }"

definition spin_unlock :: "hart \<Rightarrow> 'a spinlock \<Rightarrow> (hart \<times> 'a spinlock) kernel" where
  "spin_unlock h l = do {
     held \<leftarrow> is_held_by_current_cpu h l;
     assertk held;
     let l = l\<lparr>sl_cpuid := usize_MAX, sl_locked := False\<rparr>;
     h \<leftarrow> pop_off h;
     Some (h, l) }"

definition unlock_temporarily ::
  "(hart \<times> 'a spinlock \<Rightarrow> ('r \<times> hart \<times> 'a spinlock) kernel) \<Rightarrow> hart \<times> 'a spinlock
    \<Rightarrow> ('r \<times> (hart \<times> 'a spinlock) acquired) kernel" where
  "unlock_temporarily f s = do {
     s \<leftarrow> spin_unlock (fst s) (snd s);
     (ret, s) \<leftarrow> f s;
     g \<leftarrow> spin_lock (fst s) (snd s);
     Some (ret, g) }"

subsection \<open>The interleaving\<close>

text \<open>
  Where a hart stands. \<open>Check1\<close>, \<open>Check2\<close>: the two loads of \<open>is_held_by_current_cpu\<close> in \<open>lock\<close>;
  \<open>Spinning\<close>: at the compare-exchange; \<open>Taken\<close>: before the store of \<open>cpuid\<close>; \<open>Holding\<close>: the guard
  is live; \<open>Drop1\<close>, \<open>Drop2\<close>: the two loads of \<open>is_held_by_current_cpu\<close> in \<open>unlock_raw\<close>;
  \<open>Clear\<close>: before the store of \<open>usize::MAX\<close>; \<open>Release\<close>: before the store of \<open>false\<close>; \<open>Pop\<close>:
  before \<open>pop_off\<close>; \<open>Panicked\<close>: an assertion failed.
\<close>

datatype pc = Idle | Check1 | Check2 | Spinning | Taken | Holding | Drop1 | Drop2 | Clear | Release
  | Pop | Panicked

record spin_state =
  locked :: bool
  cpuid :: usize
  pcs :: "nat \<Rightarrow> pc"
  harts :: "nat \<Rightarrow> hart"

definition at :: "nat \<Rightarrow> pc \<Rightarrow> spin_state \<Rightarrow> spin_state" where
  "at i p s = s\<lparr>pcs := (pcs s)(i := p)\<rparr>"

definition with_hart :: "nat \<Rightarrow> hart kernel \<Rightarrow> pc \<Rightarrow> spin_state \<Rightarrow> spin_state" where
  "with_hart i r p s = (case r of None \<Rightarrow> at i Panicked s
    | Some h \<Rightarrow> at i p (s\<lparr>harts := (harts s)(i := h)\<rparr>))"

text \<open>
  One atomic access of hart \<open>i\<close>. A hart at \<open>Idle\<close> may call \<open>lock\<close>; a hart at \<open>Holding\<close> may drop its
  guard.
\<close>

definition spin_next :: "nat \<Rightarrow> spin_state \<Rightarrow> spin_state" where
  "spin_next i s = (case pcs s i of
     Idle \<Rightarrow> with_hart i (push_off (harts s i)) Check1 s
   | Check1 \<Rightarrow>
       (if is_enabled (harts s i) then at i Panicked s
        else if locked s then at i Check2 s else at i Spinning s)
   | Check2 \<Rightarrow>
       (case cpu_id (harts s i) of None \<Rightarrow> at i Panicked s
        | Some c \<Rightarrow> if cpuid s = c then at i Panicked s else at i Spinning s)
   | Spinning \<Rightarrow> (if locked s then s else at i Taken (s\<lparr>locked := True\<rparr>))
   | Taken \<Rightarrow>
       (case cpu_id (harts s i) of None \<Rightarrow> at i Panicked s
        | Some c \<Rightarrow> at i Holding (s\<lparr>cpuid := c\<rparr>))
   | Holding \<Rightarrow> at i Drop1 s
   | Drop1 \<Rightarrow>
       (if is_enabled (harts s i) then at i Panicked s
        else if locked s then at i Drop2 s else at i Panicked s)
   | Drop2 \<Rightarrow>
       (case cpu_id (harts s i) of None \<Rightarrow> at i Panicked s
        | Some c \<Rightarrow> if cpuid s = c then at i Clear s else at i Panicked s)
   | Clear \<Rightarrow> at i Release (s\<lparr>cpuid := usize_MAX\<rparr>)
   | Release \<Rightarrow> at i Pop (s\<lparr>locked := False\<rparr>)
   | Pop \<Rightarrow> with_hart i (pop_off (harts s i)) Idle s
   | Panicked \<Rightarrow> s)"

inductive spin_step :: "spin_state \<Rightarrow> spin_state \<Rightarrow> bool" where
  hart_step: "i < NCPU \<Longrightarrow> spin_step s (spin_next i s)"

definition spin_initial :: "spin_state \<Rightarrow> bool" where
  "spin_initial s \<longleftrightarrow> \<not> locked s \<and> cpuid s = usize_MAX \<and>
    (\<forall>i<NCPU. pcs s i = Idle \<and> hart_inv (harts s i) \<and> tp (harts s i) = of_nat i)"

text \<open>\<open>reachable s s'\<close>: some interleaving leads from \<open>s\<close> to \<open>s'\<close>.\<close>

definition reachable :: "spin_state \<Rightarrow> spin_state \<Rightarrow> bool" where
  "reachable = spin_step\<^sup>*\<^sup>*"

subsection \<open>The invariant\<close>

definition in_section :: "pc \<Rightarrow> bool" where
  "in_section p \<longleftrightarrow> p \<in> {Taken, Holding, Drop1, Drop2, Clear, Release}"

definition recorded :: "pc \<Rightarrow> bool" where
  "recorded p \<longleftrightarrow> p \<in> {Holding, Drop1, Drop2, Clear}"

definition spin_inv :: "spin_state \<Rightarrow> bool" where
  "spin_inv s \<longleftrightarrow>
     (\<forall>i<NCPU. \<forall>j<NCPU. in_section (pcs s i) \<and> in_section (pcs s j) \<longrightarrow> i = j) \<and>
     (locked s \<longleftrightarrow> (\<exists>i<NCPU. in_section (pcs s i))) \<and>
     (\<forall>i<NCPU. recorded (pcs s i) \<longrightarrow> cpuid s = of_nat i) \<and>
     ((\<forall>i<NCPU. \<not> recorded (pcs s i)) \<longrightarrow> cpuid s = usize_MAX) \<and>
     (\<forall>i<NCPU. pcs s i \<noteq> Panicked \<and> tp (harts s i) = of_nat i \<and> hart_inv (harts s i) \<and>
        (pcs s i \<noteq> Idle \<longrightarrow> 0 < depth_of_disable (harts s i)))"

lemma unat_hart_no: "i < NCPU \<Longrightarrow> unat (of_nat i :: usize) = i"
  by (simp add: NCPU_def unsigned_of_nat take_bit_nat_eq_self)

lemma hart_no_inj: "i < NCPU \<Longrightarrow> j < NCPU \<Longrightarrow> (of_nat i :: usize) = of_nat j \<longleftrightarrow> i = j"
  by (metis unat_hart_no)

lemma hart_no_MAX: "i < NCPU \<Longrightarrow> (of_nat i :: usize) \<noteq> usize_MAX"
proof
  assume "i < NCPU" "(of_nat i :: usize) = usize_MAX"
  then have "i = unat usize_MAX" by (metis unat_hart_no)
  moreover have "unat usize_MAX = mask 64" by (simp add: usize_MAX_def unsigned_minus_1_eq_mask)
  ultimately show False using \<open>i < NCPU\<close> by (simp add: NCPU_def mask_eq_exp_minus_1)
qed

lemma at_simps [simp]:
  "pcs (at i p s) = (pcs s)(i := p)" "locked (at i p s) = locked s" "cpuid (at i p s) = cpuid s"
  "harts (at i p s) = harts s"
  by (simp_all add: at_def)

lemma pc_simps [simp]:
  "in_section Taken" "in_section Holding" "in_section Drop1" "in_section Drop2" "in_section Clear"
  "in_section Release" "\<not> in_section Idle" "\<not> in_section Check1" "\<not> in_section Check2"
  "\<not> in_section Spinning" "\<not> in_section Pop" "\<not> in_section Panicked"
  "recorded Holding" "recorded Drop1" "recorded Drop2" "recorded Clear" "\<not> recorded Idle"
  "\<not> recorded Check1" "\<not> recorded Check2" "\<not> recorded Spinning" "\<not> recorded Taken"
  "\<not> recorded Release" "\<not> recorded Pop" "\<not> recorded Panicked"
  by (simp_all add: in_section_def recorded_def)

lemma recorded_in_section: "recorded p \<Longrightarrow> in_section p"
  by (auto simp: in_section_def recorded_def)

lemma spin_inv_cpu_id:
  assumes "spin_inv s" "i < NCPU" "pcs s i \<noteq> Idle"
  shows "cpu_id (harts s i) = Some (of_nat i)" "\<not> is_enabled (harts s i)"
  using assms by (auto simp: spin_inv_def hart_inv_def cpu_id_def)

lemma spin_inv_others:
  assumes "spin_inv s" "i < NCPU" "in_section (pcs s i)" "j < NCPU" "j \<noteq> i"
  shows "\<not> in_section (pcs s j)" "\<not> recorded (pcs s j)"
  using assms recorded_in_section by (auto simp: spin_inv_def)

lemma spin_inv_cpuid_cases:
  assumes "spin_inv s"
  shows "cpuid s = usize_MAX \<or> (\<exists>j<NCPU. recorded (pcs s j) \<and> cpuid s = of_nat j)"
  using assms by (auto simp: spin_inv_def)

lemma spin_inv_check2:
  assumes "spin_inv s" "i < NCPU" "\<not> recorded (pcs s i)"
  shows "cpuid s \<noteq> of_nat i"
  using assms spin_inv_cpuid_cases [OF assms(1)] hart_no_MAX hart_no_inj by metis

lemma spin_invI:
  assumes "\<And>i j. i < NCPU \<Longrightarrow> j < NCPU \<Longrightarrow> in_section (pcs s i) \<Longrightarrow> in_section (pcs s j) \<Longrightarrow> i = j"
    and "\<And>i. i < NCPU \<Longrightarrow> in_section (pcs s i) \<Longrightarrow> locked s"
    and "locked s \<Longrightarrow> \<exists>i<NCPU. in_section (pcs s i)"
    and "\<And>i. i < NCPU \<Longrightarrow> recorded (pcs s i) \<Longrightarrow> cpuid s = of_nat i"
    and "cpuid s \<noteq> usize_MAX \<Longrightarrow> \<exists>i<NCPU. recorded (pcs s i)"
    and "\<And>i. i < NCPU \<Longrightarrow> pcs s i \<noteq> Panicked \<and> tp (harts s i) = of_nat i \<and> hart_inv (harts s i)"
    and "\<And>i. i < NCPU \<Longrightarrow> pcs s i \<noteq> Idle \<Longrightarrow> 0 < depth_of_disable (harts s i)"
  shows "spin_inv s"
  using assms unfolding spin_inv_def by blast

lemma spin_invD:
  assumes "spin_inv s"
  shows "\<And>i j. i < NCPU \<Longrightarrow> j < NCPU \<Longrightarrow> in_section (pcs s i) \<Longrightarrow> in_section (pcs s j) \<Longrightarrow> i = j"
    and "\<And>i. i < NCPU \<Longrightarrow> in_section (pcs s i) \<Longrightarrow> locked s"
    and "locked s \<Longrightarrow> \<exists>i<NCPU. in_section (pcs s i)"
    and "\<And>i. i < NCPU \<Longrightarrow> recorded (pcs s i) \<Longrightarrow> cpuid s = of_nat i"
    and "cpuid s \<noteq> usize_MAX \<Longrightarrow> \<exists>i<NCPU. recorded (pcs s i)"
    and "\<And>i. i < NCPU \<Longrightarrow> pcs s i \<noteq> Panicked"
    and "\<And>i. i < NCPU \<Longrightarrow> tp (harts s i) = of_nat i"
    and "\<And>i. i < NCPU \<Longrightarrow> hart_inv (harts s i)"
    and "\<And>i. i < NCPU \<Longrightarrow> pcs s i \<noteq> Idle \<Longrightarrow> 0 < depth_of_disable (harts s i)"
  using assms unfolding spin_inv_def by blast+

text \<open>
  A move of hart \<open>i\<close> that stays on its side of the critical section and of the store of \<open>cpuid\<close>,
  possibly with a change of the hart itself.
\<close>

lemma spin_inv_move:
  assumes inv: "spin_inv s" and i: "i < NCPU"
    and p: "in_section p = in_section (pcs s i)" "recorded p = recorded (pcs s i)" "p \<noteq> Panicked"
    and h: "tp h = of_nat i" "hart_inv h" "p \<noteq> Idle \<Longrightarrow> 0 < depth_of_disable h"
  shows "spin_inv (at i p (s\<lparr>harts := (harts s)(i := h)\<rparr>))"
proof (rule spin_invI, goal_cases)
  case (1 j k)
  then show ?case using spin_invD(1) [OF inv] p by (simp split: if_splits)
next
  case (2 j)
  then show ?case using spin_invD(2) [OF inv] p by (simp split: if_splits)
next
  case 3
  then show ?case using spin_invD(3) [OF inv] p i by auto
next
  case (4 j)
  then show ?case using spin_invD(4) [OF inv] p by (simp split: if_splits)
next
  case 5
  then show ?case using spin_invD(5) [OF inv] p i by auto
next
  case (6 j)
  then show ?case using spin_invD(6-8) [OF inv] p h by (simp split: if_splits)
next
  case (7 j)
  then show ?case using spin_invD(9) [OF inv] h by (simp split: if_splits)
qed

lemma spin_inv_move_pc:
  assumes "spin_inv s" "i < NCPU" "pcs s i \<noteq> Idle"
    and "in_section p = in_section (pcs s i)" "recorded p = recorded (pcs s i)" "p \<noteq> Panicked"
  shows "spin_inv (at i p s)"
  using spin_inv_move [OF assms(1,2,4-6), of "harts s i"] spin_invD [OF assms(1)] assms(2,3) by simp

lemma spin_inv_section:
  assumes inv: "spin_inv s" and i: "i < NCPU" and p: "pcs s i \<noteq> Idle" "p \<notin> {Idle, Panicked}"
    and free: "\<And>j. j < NCPU \<Longrightarrow> j \<noteq> i \<Longrightarrow> \<not> in_section (pcs s j)"
    and t: "pcs t = (pcs s)(i := p)" "harts t = harts s" "locked t = in_section p"
      "cpuid t = (if recorded p then of_nat i else usize_MAX)"
  shows "spin_inv t"
proof (rule spin_invI, goal_cases)
  case (6 j)
  then show ?case using spin_invD(6-8) [OF inv] p t by (simp split: if_splits)
next
  case (7 j)
  then show ?case using spin_invD(9) [OF inv] p i t by (simp split: if_splits)
qed (use i t free recorded_in_section in \<open>auto split: if_splits\<close>)

lemma spin_inv_free: "spin_inv s \<Longrightarrow> \<not> locked s \<Longrightarrow> cpuid s = usize_MAX"
  using spin_invD(2,5) recorded_in_section by blast

lemma spin_inv_release: "spin_inv s \<Longrightarrow> i < NCPU \<Longrightarrow> pcs s i = Release \<Longrightarrow> cpuid s = usize_MAX"
  using spin_invD(5) [of s] spin_inv_others(2) [of s i] by (metis pc_simps(6,22))

lemma spin_inv_next:
  assumes inv: "spin_inv s" and i: "i < NCPU"
  shows "spin_inv (spin_next i s)"
proof (cases "pcs s i")
  case Idle
  then obtain h where h: "push_off (harts s i) = Some h"
    using spin_invD(8) [OF inv i] by (auto simp: hart_inv_def push_off_Some)
  then show ?thesis
    using Idle spin_inv_move [OF inv i, of Check1 h] push_off_facts [OF h] spin_invD(7) [OF inv i]
    by (simp add: spin_next_def with_hart_def)
next
  case Pop
  then obtain h where h: "pop_off (harts s i) = Some h"
    using pop_off_Some [OF spin_invD(8) [OF inv i]] spin_invD(9) [OF inv i] by auto
  then show ?thesis
    using Pop spin_inv_move [OF inv i, of Idle h] pop_off_facts [OF h] spin_invD(7) [OF inv i]
    by (simp add: spin_next_def with_hart_def)
next
  case Check1
  then show ?thesis using spin_inv_move_pc [OF inv i] spin_inv_cpu_id [OF inv i] by (simp add: spin_next_def)
next
  case Check2
  then show ?thesis
    using spin_inv_move_pc [OF inv i] spin_inv_cpu_id [OF inv i] spin_inv_check2 [OF inv i]
    by (simp add: spin_next_def)
next
  case Spinning
  show ?thesis
  proof (cases "locked s")
    case False
    have "spin_inv (at i Taken (s\<lparr>locked := True\<rparr>))"
      by (rule spin_inv_section [OF inv i, of Taken])
        (use Spinning False spin_invD(2) [OF inv] spin_inv_free [OF inv False] in auto)
    with False Spinning show ?thesis by (simp add: spin_next_def)
  qed (use inv Spinning in \<open>simp add: spin_next_def\<close>)
next
  case Taken
  then show ?thesis
    using spin_inv_section [OF inv i, of Holding "at i Holding (s\<lparr>cpuid := of_nat i\<rparr>)"] spin_inv_cpu_id [OF inv i]
      spin_inv_others [OF inv i] spin_invD(2) [OF inv i] by (simp add: spin_next_def)
next
  case Holding
  then show ?thesis using spin_inv_move_pc [OF inv i] by (simp add: spin_next_def)
next
  case Drop1
  then show ?thesis
    using spin_inv_move_pc [OF inv i] spin_inv_cpu_id [OF inv i] spin_invD(2) [OF inv i] by (simp add: spin_next_def)
next
  case Drop2
  then show ?thesis
    using spin_inv_move_pc [OF inv i] spin_inv_cpu_id [OF inv i] spin_invD(4) [OF inv i] by (simp add: spin_next_def)
next
  case Clear
  then show ?thesis
    using spin_inv_section [OF inv i, of Release "at i Release (s\<lparr>cpuid := usize_MAX\<rparr>)"]
      spin_inv_others [OF inv i] spin_invD(2) [OF inv i] by (simp add: spin_next_def)
next
  case Release
  then show ?thesis
    using spin_inv_section [OF inv i, of Pop "at i Pop (s\<lparr>locked := False\<rparr>)"] spin_inv_release [OF inv i]
      spin_inv_others [OF inv i] by (simp add: spin_next_def)
next
  case Panicked
  then show ?thesis using spin_invD(6) [OF inv i] by simp
qed

lemma spin_inv_initial: "spin_initial s \<Longrightarrow> spin_inv s"
  by (rule spin_invI) (auto simp: spin_initial_def)

lemma spin_inv_reachable:
  assumes "spin_initial s" and "reachable s s'"
  shows "spin_inv s'"
  using assms(2) unfolding reachable_def
  by (induction rule: rtranclp_induct)
    (auto simp: spin_inv_initial [OF assms(1)] elim!: spin_step.cases intro: spin_inv_next)


text \<open>Progress: the hart in the critical section leaves it by its own steps.\<close>

lemma reachable_refl [simp]: "reachable s s"
  by (simp add: reachable_def)

lemma reachable_trans: "reachable s t \<Longrightarrow> reachable t u \<Longrightarrow> reachable s u"
  by (simp add: reachable_def)

lemma reachable_next: "j < NCPU \<Longrightarrow> reachable (spin_next j s) t \<Longrightarrow> reachable s t"
  using hart_step [of j s] by (auto simp: reachable_def intro: converse_rtranclp_into_rtranclp)

fun to_release :: "pc \<Rightarrow> nat" where
  "to_release Taken = 6" | "to_release Holding = 5" | "to_release Drop1 = 4" | "to_release Drop2 = 3"
| "to_release Clear = 2" | "to_release Release = 1" | "to_release _ = 0"

lemma in_section_to_release: "in_section p \<longleftrightarrow> 0 < to_release p"
  by (cases p) auto

lemma section_step:
  assumes inv: "spin_inv s" and j: "j < NCPU" and sec: "in_section (pcs s j)"
  shows "to_release (pcs (spin_next j s) j) = to_release (pcs s j) - 1"
    and "i \<noteq> j \<Longrightarrow> pcs (spin_next j s) i = pcs s i"
proof -
  have ne: "pcs s j \<noteq> Idle" using sec by auto
  note facts = spin_inv_cpu_id [OF inv j ne] spin_invD(2) [OF inv j sec] spin_invD(4) [OF inv j]
  show "to_release (pcs (spin_next j s) j) = to_release (pcs s j) - 1"
    using sec facts by (cases "pcs s j") (simp_all add: spin_next_def)
  show "pcs (spin_next j s) i = pcs s i" if "i \<noteq> j"
    using sec facts that by (cases "pcs s j") (simp_all add: spin_next_def)
qed

lemma section_released:
  assumes "spin_inv s" and "j < NCPU" and "in_section (pcs s j)" and "i \<noteq> j"
  shows "\<exists>t. reachable s t \<and> spin_inv t \<and> \<not> locked t \<and> pcs t i = pcs s i"
  using assms
proof (induction "to_release (pcs s j)" arbitrary: s)
  case (Suc n)
  let ?s = "spin_next j s"
  have inv: "spin_inv ?s" by (rule spin_inv_next [OF Suc.prems(1,2)])
  note step = section_step [OF Suc.prems(1-3)]
  show ?case
  proof (cases n)
    case 0
    then have "to_release (pcs s j) = 1" using Suc.hyps(2) by simp
    then have rel: "pcs s j = Release" by (cases "pcs s j") auto
    then have "\<not> locked ?s" by (simp add: spin_next_def)
    then show ?thesis using inv step(2) [OF Suc.prems(4)] reachable_next [OF Suc.prems(2) reachable_refl]
      by blast
  next
    case (Suc m)
    have n: "n = to_release (pcs ?s j)" using step(1) Suc.hyps(2) by simp
    then have "in_section (pcs ?s j)" using Suc by (simp add: in_section_to_release)
    from Suc.hyps(1) [OF n inv Suc.prems(2) this Suc.prems(4)]
    show ?thesis using step(2) [OF Suc.prems(4)] reachable_next [OF Suc.prems(2)] by metis
  qed
qed (simp add: in_section_to_release)

lemma spinning_acquires:
  assumes inv: "spin_inv s" and i: "i < NCPU" and spin: "pcs s i = Spinning"
  shows "\<exists>t. reachable s t \<and> pcs t i = Holding"
proof -
  have "\<exists>t. reachable s t \<and> spin_inv t \<and> \<not> locked t \<and> pcs t i = Spinning"
  proof (cases "locked s")
    case True
    then obtain j where j: "j < NCPU" "in_section (pcs s j)" using spin_invD(3) [OF inv] by blast
    moreover have "i \<noteq> j" using j spin by auto
    ultimately show ?thesis using section_released [OF inv] spin by metis
  qed (use inv spin in \<open>auto intro: exI [of _ s]\<close>)
  then obtain t where t: "reachable s t" "spin_inv t" "\<not> locked t" "pcs t i = Spinning" by blast
  let ?u = "spin_next i t"
  have u: "spin_inv ?u" "pcs ?u i = Taken"
    using spin_inv_next [OF t(2) i] t by (simp, simp add: spin_next_def)
  then have "pcs (spin_next i ?u) i = Holding" using spin_inv_cpu_id [OF u(1) i]
    by (subst spin_next_def) simp
  moreover have "reachable s (spin_next i ?u)"
    using t(1) i by (meson reachable_trans reachable_next reachable_refl)
  ultimately show ?thesis by blast
qed

subsection \<open>Properties\<close>

lemma is_held_iff:
  "\<not> is_enabled h \<Longrightarrow> is_held_by_current_cpu h l = Some (sl_locked l \<and> sl_cpuid l = tp h)"
  by (simp add: is_held_by_current_cpu_def cpu_id_def)

text \<open>
  \<open>SpinLock\<close> as one hart runs it, on every branch: locking a lock this hart already holds is a
  panic, locking a lock another hart holds spins, and locking a free lock succeeds, keeps the
  protected value, makes this hart the holder with interrupts masked, and is undone exactly by
  dropping the guard.
\<close>

theorem spin_lock_outcomes:
  assumes "hart_inv h"
  shows "if sl_locked l then spin_lock h l = (if sl_cpuid l = tp h then None else Some Spin)
    else \<exists>h' l'. spin_lock h l = Some (Acquired (h', l')) \<and> sl_value l' = sl_value l \<and>
      \<not> is_enabled h' \<and> is_held_by_current_cpu h' l' = Some True \<and>
      (\<forall>v. spin_unlock h' (l'\<lparr>sl_value := v\<rparr>) =
        Some (if depth_of_disable h = 0 then h\<lparr>is_enabled_before := is_enabled h\<rparr> else h,
          l\<lparr>sl_value := v, sl_cpuid := usize_MAX\<rparr>))"
proof -
  obtain h' where h': "push_off h = Some h'" using assms by (auto simp: hart_inv_def push_off_Some)
  note facts = push_off_facts [OF h'] pop_push [OF assms h']
  show ?thesis
  proof (cases "sl_locked l")
    case True
    then show ?thesis using h' facts by (simp add: spin_lock_def is_held_iff assertk_def)
  next
    case False
    let ?l = "l\<lparr>sl_locked := True, sl_cpuid := tp h'\<rparr>"
    have "spin_lock h l = Some (Acquired (h', ?l))"
      using False h' facts by (simp add: spin_lock_def is_held_iff cpu_id_def)
    moreover have "l\<lparr>sl_value := v, sl_cpuid := usize_MAX\<rparr> =
        ?l\<lparr>sl_value := v, sl_cpuid := usize_MAX, sl_locked := False\<rparr>" for v
      using False by (cases l) simp
    ultimately show ?thesis
      using False facts by (simp add: spin_unlock_def is_held_iff)
  qed
qed

theorem spin_lock_outcomes_witness:
  "spin_lock \<lparr>sstatus = 2, tp = 3, depth_of_disable = 0, is_enabled_before = False\<rparr>
    \<lparr>sl_locked = True, sl_value = (7 :: nat), sl_cpuid = 3\<rparr> = None"
  using spin_lock_outcomes
    [of "\<lparr>sstatus = 2, tp = 3, depth_of_disable = 0, is_enabled_before = False\<rparr>"
      "\<lparr>sl_locked = True, sl_value = (7 :: nat), sl_cpuid = 3\<rparr>"]
  by (simp add: hart_inv_def NCPU_def)

text \<open>
  C8. Mutual exclusion of \<open>SpinLock\<close> under every interleaving of the atomic accesses of up to
  \<open>NCPU\<close> harts: at most one hart holds the guard, \<open>locked\<close> is set exactly while some hart is between
  the compare-exchange and the releasing store, \<open>cpuid\<close> names the holder whenever there is one, a
  hart that is not idle runs with interrupts masked, and no assertion of \<open>lock\<close>, \<open>unlock_raw\<close>,
  \<open>push_off\<close> or \<open>pop_off\<close> ever fails.
\<close>

theorem spinlock_mutual_exclusion:
  assumes "spin_initial s" and "reachable s t"
  shows "(\<forall>i<NCPU. \<forall>j<NCPU. pcs t i = Holding \<and> pcs t j = Holding \<longrightarrow> i = j) \<and>
    (locked t \<longleftrightarrow> (\<exists>i<NCPU. in_section (pcs t i))) \<and>
    (\<forall>i<NCPU. pcs t i = Holding \<longrightarrow> cpuid t = of_nat i) \<and>
    (\<forall>i<NCPU. pcs t i \<noteq> Panicked \<and> (pcs t i \<noteq> Idle \<longrightarrow> \<not> is_enabled (harts t i)))"
proof -
  have inv: "spin_inv t" by (rule spin_inv_reachable [OF assms])
  show ?thesis
    using spin_invD(1-4,6) [OF inv] spin_inv_cpu_id [OF inv] by (metis pc_simps(2,13))
qed

definition spin_start :: spin_state where
  "spin_start = \<lparr>locked = False, cpuid = usize_MAX, pcs = (\<lambda>_. Idle),
     harts = (\<lambda>i. \<lparr>sstatus = SIE, tp = of_nat i, depth_of_disable = 0, is_enabled_before = False\<rparr>)\<rparr>"

lemma spin_initial_start: "spin_initial spin_start"
  by (auto simp: spin_initial_def spin_start_def hart_inv_def unat_hart_no)

lemma spin_start_run: "reachable spin_start (spin_next 0 (spin_next 1 spin_start))"
  by (rule reachable_next [of 1], simp add: NCPU_def, rule reachable_next [of 0], simp_all add: NCPU_def)

theorem spinlock_mutual_exclusion_witness:
  "pcs (spin_next 0 (spin_next 1 spin_start)) 1 = Check1 \<and>
    \<not> is_enabled (harts (spin_next 0 (spin_next 1 spin_start)) 1)"
proof -
  have "pcs (spin_next 0 (spin_next 1 spin_start)) 1 = Check1"
    by (simp add: spin_next_def spin_start_def with_hart_def push_off_Some NCPU_def)
  then show ?thesis
    using spinlock_mutual_exclusion [OF spin_initial_start spin_start_run] by (simp add: NCPU_def)
qed

text \<open>
  C37. No deadlock on a single spin lock: from every reachable state in which a hart is spinning
  there is a continuation in which it obtains the lock.
\<close>

theorem spinlock_progress:
  assumes "spin_initial s" and "reachable s t" and "i < NCPU" and "pcs t i = Spinning"
  shows "\<exists>u. reachable t u \<and> pcs u i = Holding"
  using spin_inv_reachable [OF assms(1,2)] assms(3,4) by (rule spinning_acquires)

theorem spinlock_progress_witness:
  "\<exists>u. reachable (spin_next 0 (spin_next 0 spin_start)) u \<and> pcs u 0 = Holding"
proof (rule spinlock_progress [OF spin_initial_start])
  show "reachable spin_start (spin_next 0 (spin_next 0 spin_start))"
    by (rule reachable_next [of 0], simp add: NCPU_def, rule reachable_next [of 0], simp_all add: NCPU_def)
  show "pcs (spin_next 0 (spin_next 0 spin_start)) 0 = Spinning"
    by (simp add: spin_next_def spin_start_def with_hart_def push_off_Some NCPU_def
      is_enabled_def SIE_def disable_interrupt_def)
qed (simp add: NCPU_def)

end
