(* ===== verification/Sleeplock.thy ===== *)
theory Sleeplock
  imports Interrupt
begin

text \<open>
  Sleep locks, src/kernel/src/sleeplock.rs, together with the two functions they rely on,
  \<open>process::sleep\<close> and \<open>process::wakeup\<close> (src/kernel/src/process.rs, src/kernel/src/process/table.rs).

  The interesting part is the hand-over between the inner spin lock and the lock of the process that
  goes to sleep, so the model interleaves the processes at the granularity of lock operations: taking
  and releasing the inner spin lock, taking and releasing a process lock, and the accesses in between.
  The body of \<open>wakeup\<close> for one process, a wakeup by \<open>kill\<close> and a dispatch by the scheduler each run
  under that process's lock and are one step, enabled only while the lock is free. Spin locks exclude
  each other as shown in \<open>Spinlock\<close>.
\<close>

subsection \<open>The state\<close>

text \<open>
  Where process \<open>p\<close> stands in \<open>SleepLock::lock\<close> (\<open>LockInner\<close> to \<open>Relock\<close>), holding the lock
  (\<open>Owns\<close>), or in \<open>SleepLock::unlock\<close> (\<open>UnlockInner\<close> to \<open>WakeLoop\<close>). \<open>WakeLoop q\<close> is the loop of
  \<open>ProcessTable::wakeup\<close>, about to look at process \<open>q\<close>.
\<close>

datatype sleep_pc =
    Out            \<comment> \<open>not using the lock\<close>
  | LockInner      \<comment> \<open>line 31: before \<open>self.inner.lock()\<close>\<close>
  | Test           \<comment> \<open>line 32: holds inner, before the test\<close>
  | TakeProcLock   \<comment> \<open>\<open>sleep\<close>, line 284: holds inner, before locking the process\<close>
  | DropInner      \<comment> \<open>\<open>sleep\<close>, line 285: holds both, before dropping inner\<close>
  | SetSleeping    \<comment> \<open>\<open>sleep\<close>, line 287: holds the process lock\<close>
  | SwitchAway     \<comment> \<open>\<open>sleep\<close>, line 288: state is Sleeping, process lock still held\<close>
  | Away           \<comment> \<open>switched out; the scheduler has dropped the process lock\<close>
  | Relock         \<comment> \<open>running again, before taking inner again\<close>
  | DropGuard      \<comment> \<open>line 35 done: owns the lock, before dropping inner\<close>
  | Owns           \<comment> \<open>the \<open>SleepLockGuard\<close> is live\<close>
  | UnlockInner    \<comment> \<open>line 41\<close>
  | ClearLocked    \<comment> \<open>line 42: holds inner\<close>
  | WakeLoop nat   \<comment> \<open>line 44: holds inner\<close>

datatype run_state = Running | Sleeping | Runnable

record sleep_state =
  inner :: bool
  sleep_locked :: bool
  proc_locked :: "nat \<Rightarrow> bool"
  run :: "nat \<Rightarrow> run_state"
  at_pc :: "nat \<Rightarrow> sleep_pc"

definition goto :: "nat \<Rightarrow> sleep_pc \<Rightarrow> sleep_state \<Rightarrow> sleep_state" where
  "goto p c s = s\<lparr>at_pc := (at_pc s)(p := c)\<rparr>"

definition set_run :: "nat \<Rightarrow> run_state \<Rightarrow> sleep_state \<Rightarrow> sleep_state" where
  "set_run p r s = s\<lparr>run := (run s)(p := r)\<rparr>"

text \<open>The body of the loop of \<open>ProcessTable::wakeup\<close> for process \<open>q\<close>.\<close>

definition wake_one :: "nat \<Rightarrow> sleep_state \<Rightarrow> sleep_state" where
  "wake_one q s = (if run s q = Sleeping then set_run q Runnable s else s)"

subsection \<open>The steps\<close>

inductive sleep_step :: "sleep_state \<Rightarrow> sleep_state \<Rightarrow> bool" where
  call_lock: "p < NPROC \<Longrightarrow> at_pc s p = Out \<Longrightarrow> sleep_step s (goto p LockInner s)"
| lock_inner: "p < NPROC \<Longrightarrow> at_pc s p \<in> {LockInner, Relock} \<Longrightarrow> \<not> inner s \<Longrightarrow>
    sleep_step s (goto p Test (s\<lparr>inner := True\<rparr>))"
| test_free: "p < NPROC \<Longrightarrow> at_pc s p = Test \<Longrightarrow> \<not> sleep_locked s \<Longrightarrow>
    sleep_step s (goto p DropGuard (s\<lparr>sleep_locked := True\<rparr>))"
| test_busy: "p < NPROC \<Longrightarrow> at_pc s p = Test \<Longrightarrow> sleep_locked s \<Longrightarrow>
    sleep_step s (goto p TakeProcLock s)"
| take_proc: "p < NPROC \<Longrightarrow> at_pc s p = TakeProcLock \<Longrightarrow> \<not> proc_locked s p \<Longrightarrow>
    sleep_step s (goto p DropInner (s\<lparr>proc_locked := (proc_locked s)(p := True)\<rparr>))"
| drop_inner: "p < NPROC \<Longrightarrow> at_pc s p = DropInner \<Longrightarrow>
    sleep_step s (goto p SetSleeping (s\<lparr>inner := False\<rparr>))"
| set_sleeping: "p < NPROC \<Longrightarrow> at_pc s p = SetSleeping \<Longrightarrow>
    sleep_step s (goto p SwitchAway (set_run p Sleeping s))"
| switch_away: "p < NPROC \<Longrightarrow> at_pc s p = SwitchAway \<Longrightarrow>
    sleep_step s (goto p Away (s\<lparr>proc_locked := (proc_locked s)(p := False)\<rparr>))"
| dispatch: "p < NPROC \<Longrightarrow> at_pc s p = Away \<Longrightarrow> \<not> proc_locked s p \<Longrightarrow> run s p = Runnable \<Longrightarrow>
    sleep_step s (goto p Relock (set_run p Running s))"
| kill: "p < NPROC \<Longrightarrow> \<not> proc_locked s p \<Longrightarrow> sleep_step s (wake_one p s)"
| drop_guard: "p < NPROC \<Longrightarrow> at_pc s p = DropGuard \<Longrightarrow>
    sleep_step s (goto p Owns (s\<lparr>inner := False\<rparr>))"
| call_unlock: "p < NPROC \<Longrightarrow> at_pc s p = Owns \<Longrightarrow> sleep_step s (goto p UnlockInner s)"
| unlock_inner: "p < NPROC \<Longrightarrow> at_pc s p = UnlockInner \<Longrightarrow> \<not> inner s \<Longrightarrow>
    sleep_step s (goto p ClearLocked (s\<lparr>inner := True\<rparr>))"
| clear_locked: "p < NPROC \<Longrightarrow> at_pc s p = ClearLocked \<Longrightarrow>
    sleep_step s (goto p (WakeLoop 0) (s\<lparr>sleep_locked := False\<rparr>))"
| wake_other: "p < NPROC \<Longrightarrow> at_pc s p = WakeLoop q \<Longrightarrow> q < NPROC \<Longrightarrow> q \<noteq> p \<Longrightarrow> \<not> proc_locked s q \<Longrightarrow>
    sleep_step s (goto p (WakeLoop (Suc q)) (wake_one q s))"
| wake_self: "p < NPROC \<Longrightarrow> at_pc s p = WakeLoop p \<Longrightarrow>
    sleep_step s (goto p (WakeLoop (Suc p)) s)"
| wake_done: "p < NPROC \<Longrightarrow> at_pc s p = WakeLoop NPROC \<Longrightarrow>
    sleep_step s (goto p Out (s\<lparr>inner := False\<rparr>))"

definition sleep_initial :: sleep_state where
  "sleep_initial = \<lparr>inner = False, sleep_locked = False, proc_locked = (\<lambda>_. False),
     run = (\<lambda>_. Running), at_pc = (\<lambda>_. Out)\<rparr>"

subsection \<open>The invariant\<close>

fun holds_inner :: "sleep_pc \<Rightarrow> bool" where
  "holds_inner (WakeLoop _) = True"
| "holds_inner c = (c \<in> {Test, TakeProcLock, DropInner, DropGuard, ClearLocked})"

definition holds_proc :: "sleep_pc \<Rightarrow> bool" where
  "holds_proc c \<longleftrightarrow> c \<in> {DropInner, SetSleeping, SwitchAway}"

definition owner :: "sleep_pc \<Rightarrow> bool" where
  "owner c \<longleftrightarrow> c \<in> {DropGuard, Owns, UnlockInner, ClearLocked}"

text \<open>Process \<open>p\<close> relies on a wakeup to come: it sleeps, or has decided to.\<close>

definition needs_wakeup :: "sleep_state \<Rightarrow> nat \<Rightarrow> bool" where
  "needs_wakeup s p \<longleftrightarrow> at_pc s p \<in> {TakeProcLock, DropInner, SetSleeping} \<or> run s p = Sleeping"

definition wakeup_comes :: "sleep_state \<Rightarrow> nat \<Rightarrow> bool" where
  "wakeup_comes s p \<longleftrightarrow> sleep_locked s \<or> (\<exists>w<NPROC. \<exists>q\<le>p. at_pc s w = WakeLoop q)"

text \<open>A lock flag \<open>b\<close> is set exactly while one of the first \<open>n\<close> processes is in the section \<open>P\<close>.\<close>

definition excl :: "bool \<Rightarrow> (nat \<Rightarrow> bool) \<Rightarrow> nat \<Rightarrow> bool" where
  "excl b P n \<longleftrightarrow> (\<forall>p<n. \<forall>q<n. P p \<longrightarrow> P q \<longrightarrow> p = q) \<and> (b \<longleftrightarrow> (\<exists>p<n. P p))"

definition run_ok :: "sleep_pc \<Rightarrow> run_state \<Rightarrow> bool" where
  "run_ok c r \<longleftrightarrow>
    (if c = Away then r \<noteq> Running else r = (if c = SwitchAway then Sleeping else Running))"

definition sleep_inv :: "sleep_state \<Rightarrow> bool" where
  "sleep_inv s \<longleftrightarrow>
     excl (inner s) (holds_inner \<circ> at_pc s) NPROC \<and>
     excl (sleep_locked s) (owner \<circ> at_pc s) NPROC \<and>
     (\<forall>p<NPROC. proc_locked s p \<longleftrightarrow> holds_proc (at_pc s p)) \<and>
     (\<forall>p<NPROC. run_ok (at_pc s p) (run s p)) \<and>
     (\<forall>p<NPROC. needs_wakeup s p \<longrightarrow> wakeup_comes s p)"

lemma excl_acquire: "excl False P n \<Longrightarrow> p < n \<Longrightarrow> excl True (P(p := True)) n"
  by (auto simp: excl_def)

lemma excl_release: "excl b P n \<Longrightarrow> p < n \<Longrightarrow> P p \<Longrightarrow> excl False (P(p := False)) n"
  unfolding excl_def by (metis fun_upd_apply)

lemma excl_keep: "excl b P n \<Longrightarrow> P p = v \<Longrightarrow> excl b (P(p := v)) n"
  by (simp add: fun_upd_idem)

lemma excl_other: "excl b P n \<Longrightarrow> p < n \<Longrightarrow> P p \<Longrightarrow> q < n \<Longrightarrow> P q \<Longrightarrow> q = p"
  by (auto simp: excl_def)

lemma goto_simps [simp]:
  "inner (goto p c s) = inner s" "sleep_locked (goto p c s) = sleep_locked s"
  "proc_locked (goto p c s) = proc_locked s" "run (goto p c s) = run s"
  "at_pc (goto p c s) = (at_pc s)(p := c)"
  by (simp_all add: goto_def)

lemma set_run_simps [simp]:
  "inner (set_run p r s) = inner s" "sleep_locked (set_run p r s) = sleep_locked s"
  "proc_locked (set_run p r s) = proc_locked s" "run (set_run p r s) = (run s)(p := r)"
  "at_pc (set_run p r s) = at_pc s"
  by (simp_all add: set_run_def)

lemma wake_one_simps [simp]:
  "inner (wake_one p s) = inner s" "sleep_locked (wake_one p s) = sleep_locked s"
  "proc_locked (wake_one p s) = proc_locked s" "at_pc (wake_one p s) = at_pc s"
  "run (wake_one p s) q = (if q = p \<and> run s p = Sleeping then Runnable else run s q)"
  by (auto simp: wake_one_def)

lemma sleep_pc_simps [simp]:
  "owner c \<longleftrightarrow> c = DropGuard \<or> c = Owns \<or> c = UnlockInner \<or> c = ClearLocked"
  "holds_proc c \<longleftrightarrow> c = DropInner \<or> c = SetSleeping \<or> c = SwitchAway"
  by (auto simp: owner_def holds_proc_def)

lemma fun_upd_comp' [simp]: "f \<circ> g(x := y) = (f \<circ> g)(x := f y)"
  by (rule fun_upd_comp)

lemma step_inner:
  assumes "sleep_step s t" and "excl (inner s) (holds_inner \<circ> at_pc s) NPROC"
  shows "excl (inner t) (holds_inner \<circ> at_pc t) NPROC"
  using assms
  by (cases rule: sleep_step.cases) (auto intro: excl_acquire excl_release excl_keep)

lemma step_owner:
  assumes "sleep_step s t" and "excl (sleep_locked s) (owner \<circ> at_pc s) NPROC"
  shows "excl (sleep_locked t) (owner \<circ> at_pc t) NPROC"
  using assms
  by (cases rule: sleep_step.cases) (auto intro: excl_acquire excl_release excl_keep simp del: sleep_pc_simps simp: owner_def)

lemma step_proc_locked:
  assumes "sleep_step s t" and "\<forall>p<NPROC. proc_locked s p \<longleftrightarrow> holds_proc (at_pc s p)"
  shows "\<forall>p<NPROC. proc_locked t p \<longleftrightarrow> holds_proc (at_pc t p)"
  using assms by (cases rule: sleep_step.cases) auto

lemma step_run:
  assumes "sleep_step s t" and "\<forall>p<NPROC. run_ok (at_pc s p) (run s p)"
    and "\<forall>p<NPROC. proc_locked s p \<longleftrightarrow> holds_proc (at_pc s p)"
  shows "\<forall>p<NPROC. run_ok (at_pc t p) (run t p)"
  using assms by (cases rule: sleep_step.cases) (auto simp: run_ok_def split: if_splits)


lemma needs_wakeup_goto:
  "needs_wakeup (goto p c s) r \<longleftrightarrow> (if r = p then c \<in> {TakeProcLock, DropInner, SetSleeping} \<or> run s p = Sleeping
    else needs_wakeup s r)"
  by (auto simp: needs_wakeup_def)

lemma needs_wakeup_frame [simp]:
  "needs_wakeup (s\<lparr>inner := b\<rparr>) r = needs_wakeup s r"
  "needs_wakeup (s\<lparr>sleep_locked := b\<rparr>) r = needs_wakeup s r"
  "needs_wakeup (s\<lparr>proc_locked := f\<rparr>) r = needs_wakeup s r"
  by (simp_all add: needs_wakeup_def)

lemma wakeup_comes_mono:
  assumes "wakeup_comes s r" and "sleep_locked s \<Longrightarrow> sleep_locked t"
    and "\<And>w q. at_pc s w = WakeLoop q \<Longrightarrow> at_pc t w = WakeLoop q"
  shows "wakeup_comes t r"
  using assms unfolding wakeup_comes_def by blast

lemma wakeup_comes_goto:
  "wakeup_comes s r \<Longrightarrow> \<forall>q. at_pc s p \<noteq> WakeLoop q \<Longrightarrow> wakeup_comes (goto p c s) r"
  by (rule wakeup_comes_mono) auto

lemma wakeup_comes_frame [simp]:
  "wakeup_comes (s\<lparr>inner := b\<rparr>) r = wakeup_comes s r"
  "wakeup_comes (s\<lparr>proc_locked := f\<rparr>) r = wakeup_comes s r"
  "wakeup_comes (set_run p x s) r = wakeup_comes s r"
  "wakeup_comes (wake_one p s) r = wakeup_comes s r"
  by (simp_all add: wakeup_comes_def)

text \<open>The waker has just passed process \<open>q\<close>, which does not rely on it any more.\<close>

lemma wakeup_comes_pass:
  assumes "wakeup_comes s r" and inner: "excl (inner s) (holds_inner \<circ> at_pc s) NPROC"
    and p: "p < NPROC" "at_pc s p = WakeLoop q" and "r \<noteq> q"
  shows "wakeup_comes (goto p (WakeLoop (Suc q)) s) r"
proof (cases "sleep_locked s")
  case False
  then obtain w q' where w: "w < NPROC" "q' \<le> r" "at_pc s w = WakeLoop q'"
    using assms(1) by (auto simp: wakeup_comes_def)
  then have "w = p" using excl_other [OF inner p(1), of w] p by simp
  with w p \<open>r \<noteq> q\<close> have "Suc q \<le> r" by simp
  then show ?thesis using p by (auto simp: wakeup_comes_def)
qed (simp add: wakeup_comes_def)

lemma step_wakeup:
  assumes step: "sleep_step s t" and inv: "sleep_inv s" and r: "r < NPROC" and need: "needs_wakeup t r"
  shows "wakeup_comes t r"
proof -
  have ex: "excl (inner s) (holds_inner \<circ> at_pc s) NPROC"
    and pl: "\<And>p. p < NPROC \<Longrightarrow> proc_locked s p \<longleftrightarrow> holds_proc (at_pc s p)"
    and run: "\<And>p. p < NPROC \<Longrightarrow> run_ok (at_pc s p) (run s p)"
    and wake: "\<And>p. p < NPROC \<Longrightarrow> needs_wakeup s p \<Longrightarrow> wakeup_comes s p"
    using inv by (auto simp: sleep_inv_def)
  note simps = needs_wakeup_goto run_ok_def
  show ?thesis
    using step
  proof (cases rule: sleep_step.cases)
    case (wake_other p q)
    have "\<not> needs_wakeup t q"
    proof
      assume "needs_wakeup t q"
      then have "at_pc s q = TakeProcLock"
        using wake_other pl [of q] by (auto simp: needs_wakeup_def split: if_splits)
      then show False using excl_other [OF ex, of p q] wake_other by simp
    qed
    with need have "r \<noteq> q" by blast
    moreover have "needs_wakeup s r"
      using need wake_other run [of p] by (auto simp: needs_wakeup_def run_ok_def split: if_splits)
    ultimately show ?thesis
      using wakeup_comes_pass [of "wake_one q s" r p q] wake [OF r] ex wake_other by simp
  next
    case (wake_self p)
    then have "r \<noteq> p" using need run [of p] by (auto simp: simps)
    then show ?thesis
      using need wake_self wakeup_comes_pass [of s r p p] wake [OF r] ex by (simp add: simps)
  next
    case (wake_done p)
    then have "r \<noteq> p" using need run [of p] by (auto simp: simps)
    then have "wakeup_comes s r" using need wake_done wake [OF r] by (simp add: simps)
    moreover have "\<not> (\<exists>w<NPROC. \<exists>q\<le>r. at_pc s w = WakeLoop q)"
    proof clarify
      fix w q assume w: "w < NPROC" "q \<le> r" "at_pc s w = WakeLoop q"
      then have "w = p" using excl_other [OF ex wake_done(2), of w] wake_done(3) by simp
      then show False using w r wake_done(3) by simp
    qed
    ultimately show ?thesis using wake_done by (simp add: wakeup_comes_def)
  next
    case (clear_locked p)
    then show ?thesis by (auto simp: wakeup_comes_def)
  next
    case (test_free p)
    then show ?thesis by (simp add: wakeup_comes_def)
  next
    case (test_busy p)
    then show ?thesis by (simp add: wakeup_comes_def)
  next
    case (set_sleeping p)
    then have "needs_wakeup s r" using need by (auto simp: needs_wakeup_def split: if_splits)
    then show ?thesis using wake [OF r] set_sleeping by (auto intro: wakeup_comes_goto)
  next
    case (kill p)
    then have "needs_wakeup s r" using need by (auto simp: needs_wakeup_def split: if_splits)
    then show ?thesis using wake [OF r] kill by simp
  next
    case (dispatch p)
    then have "needs_wakeup s r" using need by (auto simp: needs_wakeup_def split: if_splits)
    then show ?thesis using wake [OF r] dispatch by (auto intro: wakeup_comes_goto)
  qed (use need wake [OF r] run in \<open>auto simp: needs_wakeup_goto needs_wakeup_def run_ok_def
        split: if_splits intro!: wakeup_comes_goto\<close>)
qed

lemma sleep_inv_step: "sleep_step s t \<Longrightarrow> sleep_inv s \<Longrightarrow> sleep_inv t"
  using step_wakeup [of s t] step_inner [of s t] step_owner [of s t] step_proc_locked [of s t] step_run [of s t]
  by (simp add: sleep_inv_def del: sleep_pc_simps)

lemma sleep_inv_initial: "sleep_inv sleep_initial"
  by (simp add: sleep_inv_def sleep_initial_def excl_def run_ok_def needs_wakeup_def)

lemma sleep_inv_reachable: "sleep_step\<^sup>*\<^sup>* sleep_initial s \<Longrightarrow> sleep_inv s"
  by (induction rule: rtranclp_induct) (auto intro: sleep_inv_initial sleep_inv_step)

subsection \<open>Properties\<close>

text \<open>
  C9. \<open>SleepLock\<close> excludes and loses no wakeup, under every interleaving of up to \<open>NPROC\<close> processes:
  at most one process owns the lock, and a process that sleeps on it (or is about to, with its
  decision taken) is waiting for something that will come: the lock is held by some process, or a
  process unlocking it is in the wakeup loop and has not passed the sleeper yet. In particular no
  process sleeps while nobody owns or releases the lock.
\<close>

theorem sleeplock_no_lost_wakeup:
  assumes "sleep_step\<^sup>*\<^sup>* sleep_initial s"
  shows "(\<forall>p<NPROC. \<forall>q<NPROC. at_pc s p = Owns \<and> at_pc s q = Owns \<longrightarrow> p = q) \<and>
    (\<forall>p<NPROC. run s p = Sleeping \<longrightarrow>
      (\<exists>w<NPROC. owner (at_pc s w) \<or> (\<exists>q\<le>p. at_pc s w = WakeLoop q)))"
proof -
  have inv: "sleep_inv s" by (rule sleep_inv_reachable [OF assms])
  then have ex: "excl (sleep_locked s) (owner \<circ> at_pc s) NPROC" by (simp add: sleep_inv_def)
  have "\<exists>w<NPROC. owner (at_pc s w) \<or> (\<exists>q\<le>p. at_pc s w = WakeLoop q)"
    if "p < NPROC" "run s p = Sleeping" for p
  proof -
    have "wakeup_comes s p" using inv that by (auto simp: sleep_inv_def needs_wakeup_def)
    then show ?thesis using ex by (auto simp: wakeup_comes_def excl_def simp del: sleep_pc_simps)
  qed
  moreover have "p = q" if "p < NPROC" "q < NPROC" "at_pc s p = Owns" "at_pc s q = Owns" for p q
    using excl_other [OF ex that(2) _ that(1)] that by simp
  ultimately show ?thesis by blast
qed


text \<open>Process 0 takes the lock; process 1 finds it taken and goes to sleep.\<close>

definition sleeper_run :: sleep_state where
  "sleeper_run =
    (let s = goto 0 LockInner sleep_initial;
         s = goto 0 Test (s\<lparr>inner := True\<rparr>);
         s = goto 0 DropGuard (s\<lparr>sleep_locked := True\<rparr>);
         s = goto 0 Owns (s\<lparr>inner := False\<rparr>);
         s = goto 1 LockInner s;
         s = goto 1 Test (s\<lparr>inner := True\<rparr>);
         s = goto 1 TakeProcLock s;
         s = goto 1 DropInner (s\<lparr>proc_locked := (proc_locked s)(1 := True)\<rparr>);
         s = goto 1 SetSleeping (s\<lparr>inner := False\<rparr>)
     in goto 1 SwitchAway (set_run 1 Sleeping s))"

lemma sleeper_run_reachable: "sleep_step\<^sup>*\<^sup>* sleep_initial sleeper_run"
  unfolding sleeper_run_def Let_def
  by (rule rtranclp.rtrancl_into_rtrancl [rotated], rule set_sleeping, simp add: NPROC_def, simp,
      rule rtranclp.rtrancl_into_rtrancl [rotated], rule drop_inner, simp add: NPROC_def, simp,
      rule rtranclp.rtrancl_into_rtrancl [rotated], rule take_proc, simp add: NPROC_def, simp,
      simp add: sleep_initial_def,
      rule rtranclp.rtrancl_into_rtrancl [rotated], rule test_busy, simp add: NPROC_def, simp, simp,
      rule rtranclp.rtrancl_into_rtrancl [rotated], rule lock_inner, simp add: NPROC_def, simp, simp,
      rule rtranclp.rtrancl_into_rtrancl [rotated], rule call_lock, simp add: NPROC_def,
      simp add: sleep_initial_def,
      rule rtranclp.rtrancl_into_rtrancl [rotated], rule drop_guard, simp add: NPROC_def, simp,
      rule rtranclp.rtrancl_into_rtrancl [rotated], rule test_free, simp add: NPROC_def, simp,
      simp add: sleep_initial_def,
      rule rtranclp.rtrancl_into_rtrancl [rotated], rule lock_inner, simp add: NPROC_def, simp,
      simp add: sleep_initial_def,
      rule r_into_rtranclp, rule call_lock, simp add: NPROC_def, simp add: sleep_initial_def)

theorem sleeplock_no_lost_wakeup_witness:
  "run sleeper_run 1 = Sleeping \<and>
    (\<exists>w<NPROC. owner (at_pc sleeper_run w) \<or> (\<exists>q\<le>1. at_pc sleeper_run w = WakeLoop q))"
proof -
  have "run sleeper_run 1 = Sleeping" by (simp add: sleeper_run_def Let_def)
  then show ?thesis
    using sleeplock_no_lost_wakeup [OF sleeper_run_reachable] by (auto simp: NPROC_def)
qed

end
