(* ===== verification/Bytes.thy ===== *)
theory Bytes
  imports Prelude
begin

text \<open>
  The byte level. The kernel reads structures off the disk and out of user memory by casting a byte
  pointer to a pointer to a \<open>repr(C)\<close> structure; on the little-endian RISC-V machine an integer field
  is then its bytes, least significant first. \<open>to_le\<close> and \<open>of_le\<close> are that representation,
  \<open>overwrite\<close> is what storing a value at an offset of a byte array does.
\<close>

fun to_le :: "nat \<Rightarrow> 'a::len word \<Rightarrow> u8 list" where
  "to_le 0 w = []"
| "to_le (Suc n) w = ucast w # to_le n (drop_bit 8 w)"

fun of_le :: "u8 list \<Rightarrow> 'a::len word" where
  "of_le [] = 0"
| "of_le (b # bs) = ucast b OR push_bit 8 (of_le bs)"

definition overwrite :: "nat \<Rightarrow> 'b list \<Rightarrow> 'b list \<Rightarrow> 'b list" where
  "overwrite off src bs = take off bs @ src @ drop (off + length src) bs"

definition subrange :: "nat \<Rightarrow> nat \<Rightarrow> 'b list \<Rightarrow> 'b list" where
  "subrange off n bs = take n (drop off bs)"

lemma length_to_le [simp]: "length (to_le n w) = n"
  by (induction n arbitrary: w) auto

lemma of_le_to_le: "of_le (to_le n w) = take_bit (8 * n) (w :: 'a::len word)"
proof (induction n arbitrary: w)
  case (Suc n)
  show ?case
    by (rule bit_word_eqI)
      (auto simp: Suc bit_or_iff bit_push_bit_iff bit_take_bit_iff bit_drop_bit_eq bit_unsigned_iff)
qed simp

lemma of_le_to_le_full: "8 * n = LENGTH('a) \<Longrightarrow> of_le (to_le n w) = (w :: 'a::len word)"
  by (simp add: of_le_to_le)

lemma of_le_to_le_word [simp]:
  "of_le (to_le 2 (w :: u16)) = w" "of_le (to_le 4 (x :: u32)) = x" "of_le (to_le 8 (y :: u64)) = y"
  by (simp_all add: of_le_to_le_full)

lemma to_le_of_le:
  "8 * length bs \<le> LENGTH('a) \<Longrightarrow> to_le (length bs) (of_le bs :: 'a::len word) = bs"
proof (induction bs)
  case (Cons b bs)
  have "ucast (ucast b OR push_bit 8 (of_le bs) :: 'a word) = b"
    using Cons.prems by (intro bit_word_eqI) (auto simp: bit_unsigned_iff bit_or_iff bit_push_bit_iff)
  moreover have "drop_bit 8 (ucast b OR push_bit 8 (of_le bs) :: 'a word) = take_bit (LENGTH('a) - 8) (of_le bs)"
    by (intro bit_word_eqI)
      (auto simp: bit_unsigned_iff bit_or_iff bit_push_bit_iff bit_drop_bit_eq bit_take_bit_iff
        dest: bit_imp_le_length)
  moreover have "to_le n (take_bit m w) = to_le n w" if "8 * n \<le> m" for n m and w :: "'a word"
    using that
  proof (induction n arbitrary: m w)
    case (Suc n)
    then have m: "8 \<le> m" "8 * n \<le> m - 8" by simp_all
    have "drop_bit 8 (take_bit m w) = take_bit (m - 8) (drop_bit 8 w)"
      by (simp add: drop_bit_take_bit)
    moreover have "(ucast (take_bit m w) :: u8) = ucast w"
      using m by (intro bit_word_eqI) (auto simp: bit_unsigned_iff bit_take_bit_iff)
    ultimately show ?case using Suc.IH [OF m(2)] by simp
  qed simp
  ultimately show ?case using Cons by simp
qed simp

lemma length_overwrite [simp]:
  "off + length src \<le> length bs \<Longrightarrow> length (overwrite off src bs) = length bs"
  by (simp add: overwrite_def)

lemma length_subrange [simp]: "off + n \<le> length bs \<Longrightarrow> length (subrange off n bs) = n"
  by (simp add: subrange_def)

lemma subrange_overwrite [simp]:
  "off \<le> length bs \<Longrightarrow> length src = n \<Longrightarrow> subrange off n (overwrite off src bs) = src"
  by (simp add: subrange_def overwrite_def)

lemma overwrite_append: "off + length xs \<le> length bs \<Longrightarrow> overwrite (off + length xs) ys (overwrite off xs bs) = overwrite off (xs @ ys) bs"
  by (simp add: overwrite_def ac_simps)

lemma overwrite_all: "length xs = length bs \<Longrightarrow> overwrite 0 xs bs = xs"
  by (simp add: overwrite_def)

lemma nth_overwrite:
  assumes "off + length src \<le> length bs"
  shows "overwrite off src bs ! k = (if k < off then bs ! k else if k < off + length src then src ! (k - off) else bs ! k)"
proof -
  consider "k < off" | "off \<le> k" "k < off + length src" | "off + length src \<le> k" by linarith
  then show ?thesis
  proof cases
    case 1
    then show ?thesis using assms by (simp add: overwrite_def nth_append)
  next
    case 2
    then have "k - off < length src" by linarith
    then show ?thesis using 2 assms by (simp add: overwrite_def nth_append)
  next
    case 3
    then have "\<not> k < off" "\<not> k - off < length src" "off + length src + (k - off - length src) = k" by linarith+
    then show ?thesis using 3 assms by (simp add: overwrite_def nth_append)
  qed
qed

lemma nth_subrange: "i < n \<Longrightarrow> off + n \<le> length bs \<Longrightarrow> subrange off n bs ! i = bs ! (off + i)"
  by (simp add: subrange_def)

lemma subrange_overwrite_other:
  assumes "off + length src \<le> length bs" and "o' + n \<le> off \<or> off + length src \<le> o'" and "o' + n \<le> length bs"
  shows "subrange o' n (overwrite off src bs) = subrange o' n bs"
  using assms by (intro nth_equalityI) (auto simp: nth_subrange nth_overwrite)

end
