(* ===== verification/Buffer.thy ===== *)
theory Buffer
  imports Cache Bytes Interrupt
begin

text \<open>
  The block buffer cache, src/kernel/src/filesystem/buffer.rs, over the reference-counted cache of
  \<open>Cache\<close>. The disk is a map from block numbers to their contents; \<open>virtio::disk::read\<close> and
  \<open>write\<close> transfer one block, and \<open>writes\<close> records the disk writes in the order in which they are
  issued (it is no part of the program's state and nothing reads it).

  The operations here are those of one thread. A sleep lock that the thread would have to wait for is
  then one that it holds itself, so that the call never returns: \<open>None\<close>, like a panic. That a
  computation is not \<open>None\<close> thus includes that it does not deadlock on its own buffers.
\<close>

definition BSIZE :: nat where "BSIZE = 1024"

type_synonym block = "u8 list"
type_synonym buffer_key = "nat \<times> nat"

record buf_slot =
  held :: bool
  data :: block

record storage =
  cache :: "buffer_key rc_cache"
  buffers :: "buf_slot list"
  disk :: "nat \<Rightarrow> block"
  writes :: "(nat \<times> block) list"

record buffer =
  block_number :: nat
  cache_index :: nat

text \<open>The state after boot: an empty cache over the disk's contents.\<close>

definition storage_new :: "(nat \<Rightarrow> block) \<Rightarrow> storage" where
  "storage_new d = \<lparr>cache = rc_new NBUF, buffers = replicate NBUF \<lparr>held = False, data = replicate BSIZE 0\<rparr>,
     disk = d, writes = []\<rparr>"

definition disk_read :: "nat \<Rightarrow> storage \<Rightarrow> block" where
  "disk_read b s = disk s b"

definition disk_write :: "nat \<Rightarrow> block \<Rightarrow> storage \<Rightarrow> storage" where
  "disk_write b x s = s\<lparr>disk := (disk s)(b := x), writes := writes s @ [(b, x)]\<rparr>"

definition set_data :: "nat \<Rightarrow> block \<Rightarrow> storage \<Rightarrow> storage" where
  "set_data i x s = s\<lparr>buffers := (buffers s)[i := (buffers s ! i)\<lparr>data := x\<rparr>]\<rparr>"

definition set_held :: "nat \<Rightarrow> bool \<Rightarrow> storage \<Rightarrow> storage" where
  "set_held i b s = s\<lparr>buffers := (buffers s)[i := (buffers s ! i)\<lparr>held := b\<rparr>]\<rparr>"

definition lock_buffer :: "nat \<Rightarrow> storage \<Rightarrow> storage kernel" where
  "lock_buffer i s = do {
     assertk (i < length (buffers s));
     assertk (\<not> held (buffers s ! i));
     Some (set_held i True s) }"

definition buffer_get :: "nat \<Rightarrow> nat \<Rightarrow> storage \<Rightarrow> ((nat \<times> bool) option \<times> storage) kernel" where
  "buffer_get device block s = do {
     (r, c) \<leftarrow> rc_get (cache s) (device, block);
     (case r of
        None \<Rightarrow> Some (None, s\<lparr>cache := c\<rparr>)
      | Some (index, is_new) \<Rightarrow> do {
          s \<leftarrow> lock_buffer index (s\<lparr>cache := c\<rparr>);
          Some (Some (index, is_new), s) }) }"

definition with_read :: "nat \<Rightarrow> nat \<Rightarrow> storage \<Rightarrow> (buffer option \<times> storage) kernel" where
  "with_read device block s = do {
     (r, s) \<leftarrow> buffer_get device block s;
     (case r of
        None \<Rightarrow> Some (None, s)
      | Some (index, is_uninit) \<Rightarrow>
          let s = (if is_uninit then set_data index (disk_read block s) s else s)
          in Some (Some \<lparr>block_number = block, cache_index = index\<rparr>, s)) }"

definition with_write :: "nat \<Rightarrow> nat \<Rightarrow> u8 list \<Rightarrow> storage \<Rightarrow> (buffer option \<times> storage) kernel" where
  "with_write device block src s = do {
     (r, s) \<leftarrow> buffer_get device block s;
     (case r of
        None \<Rightarrow> Some (None, s)
      | Some (index, _) \<Rightarrow>
          let s = set_data index (overwrite 0 src (data (buffers s ! index))) s
          in Some (Some \<lparr>block_number = block, cache_index = index\<rparr>, s)) }"

text \<open>\<open>Deref\<close> and \<open>DerefMut\<close> of a \<open>Buffer\<close>: the bytes of its slot.\<close>

definition contents :: "buffer \<Rightarrow> storage \<Rightarrow> block" where
  "contents b s = data (buffers s ! cache_index b)"

definition set_contents :: "buffer \<Rightarrow> block \<Rightarrow> storage \<Rightarrow> storage" where
  "set_contents b x s = set_data (cache_index b) x s"

text \<open>Dropping a \<open>Buffer\<close>: \<open>BufferCache::release\<close>, then the guard of the slot's sleep lock.\<close>

definition buffer_drop :: "buffer \<Rightarrow> storage \<Rightarrow> storage kernel" where
  "buffer_drop b s = do {
     (r, c) \<leftarrow> rc_release (cache s) (cache_index b);
     _ \<leftarrow> r;
     Some (set_held (cache_index b) False (s\<lparr>cache := c\<rparr>)) }"

definition flush :: "buffer \<Rightarrow> storage \<Rightarrow> storage kernel" where
  "flush b s = buffer_drop b (disk_write (block_number b) (contents b s) s)"

definition pin :: "buffer \<Rightarrow> storage \<Rightarrow> storage kernel" where
  "pin b s = (case rc_duplicate (cache s) (cache_index b) of
     (None, _) \<Rightarrow> None
   | (Some _, c) \<Rightarrow> Some (s\<lparr>cache := c\<rparr>))"

definition unpin :: "buffer \<Rightarrow> storage \<Rightarrow> storage kernel" where
  "unpin b s = do {
     (r, c) \<leftarrow> rc_release (cache s) (cache_index b);
     is_released \<leftarrow> r;
     assertk (\<not> is_released);
     Some (s\<lparr>cache := c\<rparr>) }"

subsection \<open>The abstract view\<close>

text \<open>
  \<open>storage_inv\<close> is the invariant; \<open>live s k = Some (n, x, h)\<close> says that block \<open>k\<close> is cached with
  \<open>n\<close> references and contents \<open>x\<close>, and \<open>h\<close> whether its sleep lock is held; \<open>refers s b k\<close> says
  that the handle \<open>b\<close> is one of block \<open>k\<close>.
\<close>

definition storage_inv :: "storage \<Rightarrow> bool" where
  "storage_inv s \<longleftrightarrow> rc_inv NBUF (cache s) \<and> length (buffers s) = NBUF \<and>
     (\<forall>i<NBUF. length (data (buffers s ! i)) = BSIZE) \<and>
     (\<forall>i<NBUF. rc_slot (cache s) i = None \<longrightarrow> \<not> held (buffers s ! i)) \<and>
     (\<forall>b. length (disk s b) = BSIZE)"

definition slot_index :: "storage \<Rightarrow> buffer_key \<Rightarrow> nat option" where
  "slot_index s k =
    find (\<lambda>i. case rc_slot (cache s) i of None \<Rightarrow> False | Some (k', _) \<Rightarrow> k' = k) [0..<NBUF]"

definition live :: "storage \<Rightarrow> buffer_key \<Rightarrow> (nat \<times> block \<times> bool) option" where
  "live s k = (case slot_index s k of None \<Rightarrow> None
    | Some i \<Rightarrow> map_option (\<lambda>(_, n). (n, data (buffers s ! i), held (buffers s ! i))) (rc_slot (cache s) i))"

definition refers :: "storage \<Rightarrow> buffer \<Rightarrow> buffer_key \<Rightarrow> bool" where
  "refers s b k \<longleftrightarrow> block_number b = snd k \<and> (\<exists>n. rc_slot (cache s) (cache_index b) = Some (k, n))"

definition room :: "storage \<Rightarrow> bool" where
  "room s \<longleftrightarrow> (\<exists>j<NBUF. rc_slot (cache s) j = None)"


lemma storage_invD:
  assumes "storage_inv s"
  shows "rc_inv NBUF (cache s)" "length (buffers s) = NBUF"
    "\<And>i. i < NBUF \<Longrightarrow> length (data (buffers s ! i)) = BSIZE"
    "\<And>i. i < NBUF \<Longrightarrow> rc_slot (cache s) i = None \<Longrightarrow> \<not> held (buffers s ! i)"
    "\<And>b. length (disk s b) = BSIZE"
  using assms by (auto simp: storage_inv_def)

lemma slot_bound: "storage_inv s \<Longrightarrow> rc_slot (cache s) i = Some (k, n) \<Longrightarrow> i < NBUF"
  using rcc.slot_bound [of NBUF "cache s" i] by (simp add: storage_inv_def)

lemma slot_inj:
  "storage_inv s \<Longrightarrow> rc_slot (cache s) i = Some (k, n) \<Longrightarrow> rc_slot (cache s) j = Some (k, m) \<Longrightarrow> i = j"
  using rcc.slot_inj [of NBUF "cache s" i k n j m] by (simp add: storage_inv_def)

lemma slot_index_Some:
  assumes "storage_inv s"
  shows "slot_index s k = Some i \<longleftrightarrow> (\<exists>n. rc_slot (cache s) i = Some (k, n))"
proof
  assume "slot_index s k = Some i"
  then show "\<exists>n. rc_slot (cache s) i = Some (k, n)"
    unfolding slot_index_def by (auto dest!: find_SomeD split: option.splits)
next
  assume "\<exists>n. rc_slot (cache s) i = Some (k, n)"
  then obtain n where n: "rc_slot (cache s) i = Some (k, n)" by blast
  have "slot_index s k \<noteq> None"
  proof
    assume "slot_index s k = None"
    from find_NoneD [OF this [unfolded slot_index_def], of i] show False
      using n slot_bound [OF assms n] by simp
  qed
  then obtain j where j: "slot_index s k = Some j" by auto
  then obtain m where "rc_slot (cache s) j = Some (k, m)"
    unfolding slot_index_def by (auto dest!: find_SomeD split: option.splits)
  with j slot_inj [OF assms n] show "slot_index s k = Some i" by metis
qed

lemma live_slot:
  assumes "storage_inv s" and "rc_slot (cache s) i = Some (k, n)"
  shows "live s k = Some (n, data (buffers s ! i), held (buffers s ! i))"
  using slot_index_Some [OF assms(1), of k i] assms(2) by (auto simp: live_def)

lemma live_SomeE:
  assumes "storage_inv s" and "live s k = Some (n, x, h)"
  obtains i where "rc_slot (cache s) i = Some (k, n)" "x = data (buffers s ! i)" "h = held (buffers s ! i)" "i < NBUF"
proof -
  obtain i where i: "slot_index s k = Some i" using assms(2) by (auto simp: live_def split: option.splits)
  then obtain m where m: "rc_slot (cache s) i = Some (k, m)" using slot_index_Some [OF assms(1)] by blast
  with assms(2) i that [of i] slot_bound [OF assms(1) m] show ?thesis by (auto simp: live_def)
qed

lemma live_None: "storage_inv s \<Longrightarrow> live s k = None \<longleftrightarrow> (\<forall>i n. rc_slot (cache s) i \<noteq> Some (k, n))"
  by (metis live_SomeE live_slot not_None_eq prod_cases3)

lemma live_update:
  assumes inv: "storage_inv s" "storage_inv s'"
    and slot: "rc_slot (cache s') = (rc_slot (cache s))(i \<mapsto> (k, n))"
    and old: "rc_slot (cache s) i = None \<or> (\<exists>m. rc_slot (cache s) i = Some (k, m))"
    and same: "\<And>j. j \<noteq> i \<Longrightarrow> buffers s' ! j = buffers s ! j"
  shows "live s' = (live s)(k \<mapsto> (n, data (buffers s' ! i), held (buffers s' ! i)))"
proof
  fix k'
  show "live s' k' = ((live s)(k \<mapsto> (n, data (buffers s' ! i), held (buffers s' ! i)))) k'"
  proof (cases "k' = k")
    case True
    then show ?thesis using live_slot [OF inv(2), of i k n] slot by simp
  next
    case False
    show ?thesis
    proof (cases "live s k'")
      case None
      then have "\<forall>j m. rc_slot (cache s) j \<noteq> Some (k', m)" using live_None [OF inv(1)] by blast
      then have "live s' k' = None" using live_None [OF inv(2)] slot False by simp
      with None False show ?thesis by simp
    next
      case (Some v)
      then obtain m x h where v: "live s k' = Some (m, x, h)" by (cases v) auto
      then obtain j where j: "rc_slot (cache s) j = Some (k', m)" "x = data (buffers s ! j)" "h = held (buffers s ! j)"
        by (rule live_SomeE [OF inv(1)])
      then have "j \<noteq> i" using old False by auto
      then have "live s' k' = Some (m, x, h)" using live_slot [OF inv(2), of j k' m] slot j same by simp
      with v False show ?thesis by simp
    qed
  qed
qed

lemma live_remove:
  assumes inv: "storage_inv s" "storage_inv s'"
    and slot: "rc_slot (cache s') = (rc_slot (cache s))(i := None)" and old: "rc_slot (cache s) i = Some (k, m)"
    and same: "\<And>j. j \<noteq> i \<Longrightarrow> buffers s' ! j = buffers s ! j"
  shows "live s' = (live s)(k := None)"
proof
  fix k'
  show "live s' k' = ((live s)(k := None)) k'"
  proof (cases "live s' k'")
    case None
    then have none: "\<forall>j m. rc_slot (cache s') j \<noteq> Some (k', m)" using live_None [OF inv(2)] by blast
    have "live s k' = None" if "k' \<noteq> k"
      unfolding live_None [OF inv(1)] using none slot old that by (metis Pair_inject fun_upd_other option.inject)
    with None show ?thesis by simp
  next
    case (Some v)
    then obtain m' x h where v: "live s' k' = Some (m', x, h)" by (cases v) auto
    then obtain j where j: "rc_slot (cache s') j = Some (k', m')" "x = data (buffers s' ! j)" "h = held (buffers s' ! j)"
      by (rule live_SomeE [OF inv(2)])
    then have ji: "j \<noteq> i" "rc_slot (cache s) j = Some (k', m')" using slot by (auto split: if_splits)
    then have "k' \<noteq> k" using slot_inj [OF inv(1) old] by blast
    with ji live_slot [OF inv(1) ji(2)] same j v show ?thesis by simp
  qed
qed

lemma room_card:
  assumes inv: "storage_inv s" and card: "card (dom (live s)) < NBUF"
  shows "room s"
proof (rule ccontr)
  assume "\<not> room s"
  define f where "f j = fst (the (rc_slot (cache s) j))" for j
  have f: "\<exists>n. rc_slot (cache s) j = Some (f j, n)" if "j < NBUF" for j
    using \<open>\<not> room s\<close> that by (auto simp: room_def f_def)
  have inj: "inj_on f {..<NBUF}"
  proof (rule inj_onI)
    fix i j assume ij: "i \<in> {..<NBUF}" "j \<in> {..<NBUF}" "f i = f j"
    then obtain n m where "rc_slot (cache s) i = Some (f i, n)" "rc_slot (cache s) j = Some (f i, m)"
      using f [of i] f [of j] by auto
    then show "i = j" by (rule slot_inj [OF inv])
  qed
  have "dom (live s) \<subseteq> f ` {..<NBUF}"
  proof
    fix k assume "k \<in> dom (live s)"
    then obtain n x h where "live s k = Some (n, x, h)" by auto
    then obtain i where i: "rc_slot (cache s) i = Some (k, n)" "i < NBUF" by (rule live_SomeE [OF inv])
    then show "k \<in> f ` {..<NBUF}" using f [of i] by auto
  qed
  moreover have "f j \<in> dom (live s)" if "j < NBUF" for j
    using f [OF that] live_slot [OF inv, of j "f j"] by auto
  then have "f ` {..<NBUF} \<subseteq> dom (live s)" by blast
  ultimately have "card (dom (live s)) = NBUF" using card_image [OF inj] by (metis card_lessThan subset_antisym)
  with card show False by simp
qed


subsection \<open>The operations on the abstract view\<close>

text \<open>
  \<open>evolves s k v s'\<close>: the cache goes from \<open>s\<close> to \<open>s'\<close> by a change of block \<open>k\<close>'s entry to \<open>v\<close>; the
  disk is untouched and handles stay valid, except those of \<open>k\<close> when its entry disappears.
\<close>

definition evolves :: "storage \<Rightarrow> buffer_key \<Rightarrow> (nat \<times> block \<times> bool) option \<Rightarrow> storage \<Rightarrow> bool" where
  "evolves s k v s' \<longleftrightarrow> storage_inv s' \<and> live s' = (live s)(k := v) \<and> disk s' = disk s \<and> writes s' = writes s \<and>
     (\<forall>h k'. refers s h k' \<and> (k' = k \<longrightarrow> v \<noteq> None) \<longrightarrow> refers s' h k')"

definition touch :: "nat \<Rightarrow> buffer_key rc_cache \<Rightarrow> buf_slot \<Rightarrow> storage \<Rightarrow> storage" where
  "touch i c x s = s\<lparr>cache := c, buffers := (buffers s)[i := x]\<rparr>"

lemma touch_sel [simp]:
  "cache (touch i c x s) = c" "buffers (touch i c x s) = (buffers s)[i := x]"
  "disk (touch i c x s) = disk s" "writes (touch i c x s) = writes s"
  by (simp_all add: touch_def)

lemma evolves_touch:
  assumes inv: "storage_inv s" and c: "rc_inv NBUF c" "rc_slot c = (rc_slot (cache s))(i \<mapsto> (k, n))"
    and i: "i < NBUF" and x: "length (data x) = BSIZE"
    and old: "rc_slot (cache s) i = None \<or> (\<exists>m. rc_slot (cache s) i = Some (k, m))"
  shows "evolves s k (Some (n, data x, held x)) (touch i c x s)"
    and "refers (touch i c x s) \<lparr>block_number = snd k, cache_index = i\<rparr> k"
proof -
  have inv': "storage_inv (touch i c x s)"
    using inv c i x by (auto simp: storage_inv_def nth_list_update)
  have "live (touch i c x s) = (live s)(k \<mapsto> (n, data x, held x))"
    using live_update [OF inv inv', of i k n] c old i inv by (simp add: storage_inv_def)
  then show "evolves s k (Some (n, data x, held x)) (touch i c x s)"
    using inv' c old by (auto simp: evolves_def refers_def)
  show "refers (touch i c x s) \<lparr>block_number = snd k, cache_index = i\<rparr> k"
    using c by (simp add: refers_def)
qed

lemma lock_buffer_touch:
  "i < length (buffers s) \<Longrightarrow> \<not> held (buffers s ! i) \<Longrightarrow>
    lock_buffer i (s\<lparr>cache := c\<rparr>) = Some (touch i c ((buffers s ! i)\<lparr>held := True\<rparr>) s)"
  by (simp add: lock_buffer_def set_held_def touch_def)

lemma set_data_touch [simp]:
  "i < length (buffers s) \<Longrightarrow> set_data i y (touch i c x s) = touch i c (x\<lparr>data := y\<rparr>) s"
  by (simp add: set_data_def touch_def)

lemma buffer_get_hit:
  assumes inv: "storage_inv s" and hit: "live s (d, b) = Some (n, x, False)"
  obtains i c where "buffer_get d b s = Some (Some (i, False), touch i c ((buffers s ! i)\<lparr>held := True\<rparr>) s)"
    "rc_inv NBUF c" "rc_slot c = (rc_slot (cache s))(i \<mapsto> ((d, b), Suc n))"
    "rc_slot (cache s) i = Some ((d, b), n)" "i < NBUF" "data (buffers s ! i) = x"
proof -
  obtain i where i: "rc_slot (cache s) i = Some ((d, b), n)" "x = data (buffers s ! i)"
    "\<not> held (buffers s ! i)" "i < NBUF"
    using live_SomeE [OF inv hit] by metis
  have rc: "rc_inv NBUF (cache s)" and len: "length (buffers s) = NBUF" using inv by (simp_all add: storage_inv_def)
  obtain c where "rc_get (cache s) (d, b) = Some (Some (i, False), c)" "rc_inv NBUF c"
    "rc_slot c = (rc_slot (cache s))(i \<mapsto> ((d, b), Suc n))"
    using rcc.get_hit [OF rc i(1)] by blast
  then show ?thesis using that i len by (simp add: buffer_get_def lock_buffer_touch)
qed

lemma buffer_get_miss:
  assumes inv: "storage_inv s" and miss: "live s (d, b) = None" and "room s"
  obtains i c where "buffer_get d b s = Some (Some (i, True), touch i c ((buffers s ! i)\<lparr>held := True\<rparr>) s)"
    "rc_inv NBUF c" "rc_slot c = (rc_slot (cache s))(i \<mapsto> ((d, b), 1))"
    "rc_slot (cache s) i = None" "i < NBUF"
proof -
  have rc: "rc_inv NBUF (cache s)" and len: "length (buffers s) = NBUF" using inv by (simp_all add: storage_inv_def)
  obtain j where j: "j < NBUF" "rc_slot (cache s) j = None" using \<open>room s\<close> by (auto simp: room_def)
  have "\<And>j n. rc_slot (cache s) j \<noteq> Some ((d, b), n)" using miss live_None [OF inv] by blast
  then obtain i c where ic: "rc_get (cache s) (d, b) = Some (Some (i, True), c)" "i < NBUF"
    "rc_slot (cache s) i = None" "rc_inv NBUF c" "rc_slot c = (rc_slot (cache s))(i \<mapsto> ((d, b), 1))"
    using rcc.get_miss [OF rc _ j] by blast
  then have "\<not> held (buffers s ! i)" using inv by (simp add: storage_inv_def)
  with ic show ?thesis using that len by (simp add: buffer_get_def lock_buffer_touch)
qed

lemma buffer_get_full:
  assumes inv: "storage_inv s" and miss: "live s (d, b) = None" and "\<not> room s"
  shows "buffer_get d b s = Some (None, s)"
proof -
  have rc: "rc_inv NBUF (cache s)" using inv by (simp add: storage_inv_def)
  have "rc_get (cache s) (d, b) = Some (None, cache s)"
    using miss live_None [OF inv] \<open>\<not> room s\<close> by (intro rcc.get_full [OF rc]) (auto simp: room_def)
  then show ?thesis by (simp add: buffer_get_def)
qed

lemma with_read_hit:
  assumes inv: "storage_inv s" and hit: "live s (d, b) = Some (n, x, False)"
  obtains h s' where "with_read d b s = Some (Some h, s')" "refers s' h (d, b)"
    "evolves s (d, b) (Some (Suc n, x, True)) s'"
proof (rule buffer_get_hit [OF assms])
  fix i c
  assume a: "buffer_get d b s = Some (Some (i, False), touch i c ((buffers s ! i)\<lparr>held := True\<rparr>) s)"
    "rc_inv NBUF c" "rc_slot c = (rc_slot (cache s))(i \<mapsto> ((d, b), Suc n))"
    "rc_slot (cache s) i = Some ((d, b), n)" "i < NBUF" "data (buffers s ! i) = x"
  have "length (data ((buffers s ! i)\<lparr>held := True\<rparr>)) = BSIZE"
    using storage_invD(3) [OF inv a(5)] by simp
  from evolves_touch [OF inv a(2,3,5) this] a that show thesis by (simp add: with_read_def)
qed

lemma with_read_miss:
  assumes inv: "storage_inv s" and miss: "live s (d, b) = None" and "room s"
  obtains h s' where "with_read d b s = Some (Some h, s')" "refers s' h (d, b)"
    "evolves s (d, b) (Some (1, disk s b, True)) s'"
proof (rule buffer_get_miss [OF assms])
  fix i c
  assume a: "buffer_get d b s = Some (Some (i, True), touch i c ((buffers s ! i)\<lparr>held := True\<rparr>) s)"
    "rc_inv NBUF c" "rc_slot c = (rc_slot (cache s))(i \<mapsto> ((d, b), 1))"
    "rc_slot (cache s) i = None" "i < NBUF"
  have "length (data ((buffers s ! i)\<lparr>held := True, data := disk s b\<rparr>)) = BSIZE" "length (buffers s) = NBUF"
    using storage_invD [OF inv] by simp_all
  from evolves_touch [OF inv a(2,3,5) this(1)] a that this(2) show thesis
    by (simp add: with_read_def disk_read_def)
qed

lemma with_write_hit:
  assumes inv: "storage_inv s" and hit: "live s (d, b) = Some (n, x, False)" and len: "length src \<le> BSIZE"
  obtains h s' where "with_write d b src s = Some (Some h, s')" "refers s' h (d, b)"
    "evolves s (d, b) (Some (Suc n, overwrite 0 src x, True)) s'"
proof (rule buffer_get_hit [OF assms(1,2)])
  fix i c
  assume a: "buffer_get d b s = Some (Some (i, False), touch i c ((buffers s ! i)\<lparr>held := True\<rparr>) s)"
    "rc_inv NBUF c" "rc_slot c = (rc_slot (cache s))(i \<mapsto> ((d, b), Suc n))"
    "rc_slot (cache s) i = Some ((d, b), n)" "i < NBUF" "data (buffers s ! i) = x"
  have "length (data ((buffers s ! i)\<lparr>held := True, data := overwrite 0 src x\<rparr>)) = BSIZE" "length (buffers s) = NBUF"
    using storage_invD [OF inv] storage_invD(3) [OF inv a(5)] a(6) len by simp_all
  from evolves_touch [OF inv a(2,3,5) this(1)] a that this(2) show thesis
    by (simp add: with_write_def Let_def)
qed

lemma with_write_miss:
  assumes inv: "storage_inv s" and miss: "live s (d, b) = None" and "room s" and len: "length src \<le> BSIZE"
  obtains h s' y where "with_write d b src s = Some (Some h, s')" "refers s' h (d, b)" "length y = BSIZE"
    "evolves s (d, b) (Some (1, overwrite 0 src y, True)) s'"
proof (rule buffer_get_miss [OF assms(1-3)])
  fix i c
  assume a: "buffer_get d b s = Some (Some (i, True), touch i c ((buffers s ! i)\<lparr>held := True\<rparr>) s)"
    "rc_inv NBUF c" "rc_slot c = (rc_slot (cache s))(i \<mapsto> ((d, b), 1))"
    "rc_slot (cache s) i = None" "i < NBUF"
  let ?y = "data (buffers s ! i)"
  have y: "length ?y = BSIZE" "length (buffers s) = NBUF" using storage_invD [OF inv] a(5) by simp_all
  then have "length (data ((buffers s ! i)\<lparr>held := True, data := overwrite 0 src ?y\<rparr>)) = BSIZE" using len by simp
  from evolves_touch [OF inv a(2,3,5) this] a that [OF _ _ y(1)] y(2) show thesis
    by (simp add: with_write_def Let_def)
qed


lemma contents_live: "storage_inv s \<Longrightarrow> refers s h k \<Longrightarrow> live s k = Some (n, x, b) \<Longrightarrow> contents h s = x"
  using live_slot [of s "cache_index h" k] by (auto simp: refers_def contents_def)

lemma evolves_trans_refers: "evolves s k (Some v) s' \<Longrightarrow> refers s h k' \<Longrightarrow> refers s' h k'"
  unfolding evolves_def by blast

lemma set_contents_spec:
  assumes inv: "storage_inv s" and ref: "refers s h k" and live: "live s k = Some (n, x, b)" and "length y = BSIZE"
  shows "evolves s k (Some (n, y, b)) (set_contents h y s)"
proof -
  let ?i = "cache_index h"
  obtain m where m: "rc_slot (cache s) ?i = Some (k, m)" using ref by (auto simp: refers_def)
  have mn: "m = n" "held (buffers s ! ?i) = b" using live_slot [OF inv m] live by auto
  have "set_contents h y s = touch ?i (cache s) ((buffers s ! ?i)\<lparr>data := y\<rparr>) s"
    by (simp add: set_contents_def set_data_def touch_def)
  then show ?thesis
    using evolves_touch(1) [OF inv storage_invD(1) [OF inv], of ?i k n "(buffers s ! ?i)\<lparr>data := y\<rparr>"]
      m mn slot_bound [OF inv m] \<open>length y = BSIZE\<close> by (simp add: fun_upd_idem)
qed

lemma buffer_drop_spec:
  assumes inv: "storage_inv s" and ref: "refers s h k" and live: "live s k = Some (n, x, b)"
  obtains s' where "buffer_drop h s = Some s'"
    "evolves s k (if n = 1 then None else Some (n - 1, x, False)) s'"
proof -
  let ?i = "cache_index h"
  obtain m where m: "rc_slot (cache s) ?i = Some (k, m)" using ref by (auto simp: refers_def)
  have mn: "m = n" "data (buffers s ! ?i) = x" using live_slot [OF inv m] live by auto
  have i: "?i < NBUF" by (rule slot_bound [OF inv m])
  note rc = storage_invD(1) [OF inv]
  show thesis
  proof (cases "n = 1")
    case True
    then obtain c where c: "rc_release (cache s) ?i = Some (Some True, c)" "rc_inv NBUF c"
      "rc_slot c = (rc_slot (cache s))(?i := None)"
      using rcc.rel_last [OF rc, of ?i k] m mn by auto
    let ?s = "touch ?i c ((buffers s ! ?i)\<lparr>held := False\<rparr>) s"
    have "buffer_drop h s = Some ?s"
      using c by (simp add: buffer_drop_def set_held_def touch_def)
    moreover have inv': "storage_inv ?s"
      using inv c i by (auto simp: storage_inv_def nth_list_update)
    moreover have "live ?s = (live s)(k := None)"
      using live_remove [OF inv inv', of ?i k m] m c by simp
    moreover have "refers ?s h' k'" if "refers s h' k'" "k' \<noteq> k" for h' k'
      using that c m by (auto simp: refers_def)
    ultimately show thesis using that True by (auto simp: evolves_def)
  next
    case False
    then have "1 < n" using rcc.slot_pos [OF rc m] mn by simp
    then obtain c where c: "rc_release (cache s) ?i = Some (Some False, c)" "rc_inv NBUF c"
      "rc_slot c = (rc_slot (cache s))(?i \<mapsto> (k, n - 1))"
      using rcc.rel_more [OF rc m] mn by auto
    let ?x = "(buffers s ! ?i)\<lparr>held := False\<rparr>"
    have "buffer_drop h s = Some (touch ?i c ?x s)"
      using c by (simp add: buffer_drop_def set_held_def touch_def)
    moreover have "length (data ?x) = BSIZE" using storage_invD(3) [OF inv i] by simp
    ultimately show thesis
      using that evolves_touch(1) [OF inv c(2,3) i, of ?x] m mn False by simp
  qed
qed

lemma live_cong: "cache s' = cache s \<Longrightarrow> buffers s' = buffers s \<Longrightarrow> live s' = live s"
  by (rule ext) (simp add: live_def slot_index_def split: option.split)

lemma disk_write_sel [simp]:
  "cache (disk_write b x s) = cache s" "buffers (disk_write b x s) = buffers s"
  "disk (disk_write b x s) = (disk s)(b := x)" "writes (disk_write b x s) = writes s @ [(b, x)]"
  by (simp_all add: disk_write_def)

lemma live_disk_write [simp]: "live (disk_write b x s) = live s"
  by (rule live_cong) simp_all

lemma refers_disk_write [simp]: "refers (disk_write b x s) h k = refers s h k"
  by (simp add: refers_def)

lemma storage_inv_disk_write: "storage_inv s \<Longrightarrow> length x = BSIZE \<Longrightarrow> storage_inv (disk_write b x s)"
  by (simp add: storage_inv_def)

lemma flush_spec:
  assumes inv: "storage_inv s" and ref: "refers s h k" and live: "live s k = Some (n, x, b)"
  obtains s' where "flush h s = Some s'"
    "evolves (disk_write (snd k) x s) k (if n = 1 then None else Some (n - 1, x, False)) s'"
proof -
  have x: "contents h s = x" "block_number h = snd k" using contents_live [OF inv ref live] ref by (simp_all add: refers_def)
  have "length x = BSIZE" using live_SomeE [OF inv live] storage_invD(3) [OF inv] by metis
  then have d: "storage_inv (disk_write (snd k) x s)" "live (disk_write (snd k) x s) k = Some (n, x, b)"
    "refers (disk_write (snd k) x s) h k"
    using storage_inv_disk_write [OF inv] live ref by simp_all
  obtain s' where "buffer_drop h (disk_write (snd k) x s) = Some s'"
    "evolves (disk_write (snd k) x s) k (if n = 1 then None else Some (n - 1, x, False)) s'"
    by (rule buffer_drop_spec [OF d(1,3,2)])
  then show thesis using that x by (simp add: flush_def)
qed

lemma pin_spec:
  assumes inv: "storage_inv s" and ref: "refers s h k" and live: "live s k = Some (n, x, b)"
  obtains s' where "pin h s = Some s'" "evolves s k (Some (Suc n, x, b)) s'"
proof -
  let ?i = "cache_index h"
  obtain m where m: "rc_slot (cache s) ?i = Some (k, m)" using ref by (auto simp: refers_def)
  have mn: "m = n" "data (buffers s ! ?i) = x" "held (buffers s ! ?i) = b" using live_slot [OF inv m] live by auto
  have i: "?i < NBUF" by (rule slot_bound [OF inv m])
  obtain c where c: "rc_duplicate (cache s) ?i = (Some ?i, c)" "rc_inv NBUF c"
      "rc_slot c = (rc_slot (cache s))(?i \<mapsto> (k, Suc n))"
    using rcc.dup_slot [OF storage_invD(1) [OF inv] m] mn by auto
  have "pin h s = Some (touch ?i c (buffers s ! ?i) s)" using c by (simp add: pin_def touch_def)
  with that evolves_touch(1) [OF inv c(2,3) i storage_invD(3) [OF inv i]] m mn show thesis by simp
qed

lemma unpin_spec:
  assumes inv: "storage_inv s" and ref: "refers s h k" and live: "live s k = Some (n, x, b)" and "1 < n"
  obtains s' where "unpin h s = Some s'" "evolves s k (Some (n - 1, x, b)) s'"
proof -
  let ?i = "cache_index h"
  obtain m where m: "rc_slot (cache s) ?i = Some (k, m)" using ref by (auto simp: refers_def)
  have mn: "m = n" "data (buffers s ! ?i) = x" "held (buffers s ! ?i) = b" using live_slot [OF inv m] live by auto
  have i: "?i < NBUF" by (rule slot_bound [OF inv m])
  obtain c where c: "rc_release (cache s) ?i = Some (Some False, c)" "rc_inv NBUF c"
      "rc_slot c = (rc_slot (cache s))(?i \<mapsto> (k, n - 1))"
    using rcc.rel_more [OF storage_invD(1) [OF inv] m] mn \<open>1 < n\<close> by auto
  have "unpin h s = Some (touch ?i c (buffers s ! ?i) s)" using c by (simp add: unpin_def touch_def)
  with that evolves_touch(1) [OF inv c(2,3) i storage_invD(3) [OF inv i]] m mn show thesis by simp
qed

end
