(* ===== verification/Log.thy ===== *)
theory Log
  imports Buffer
begin

text \<open>
  The write-ahead log, src/kernel/src/filesystem/log.rs, over the buffer cache of \<open>Buffer\<close>, with
  \<open>SuperBlock\<close> of src/kernel/src/filesystem/superblock.rs. Block numbers are natural numbers; they
  come from 32-bit fields and at most \<open>LOGSIZE\<close> is added to them. The counters whose wrap-around is
  visible to the code's comparisons are words.
\<close>

subsection \<open>Data\<close>

record superblock =
  magic :: u32
  sb_size :: u32
  nblocks :: u32
  ninodes :: u32
  nlog :: u32
  logstart :: u32
  inodestart :: u32
  bmapstart :: u32

record log_header =
  hdr_n :: u32
  hdr_block :: "u32 list"

definition header_empty :: log_header where
  "header_empty = \<lparr>hdr_n = 0, hdr_block = replicate LOGSIZE 0\<rparr>"

record log =
  log_start :: nat
  log_size :: usize
  outstanding :: usize
  committing :: bool
  log_device :: nat
  header :: log_header

definition log_new :: log where
  "log_new = \<lparr>log_start = 0, log_size = 0, outstanding = 0, committing = False, log_device = 0,
     header = header_empty\<rparr>"

text \<open>The bytes of a \<open>LogHeader\<close> (\<open>repr(C)\<close>: \<open>n\<close>, then the array) and back.\<close>

definition header_bytes :: "log_header \<Rightarrow> u8 list" where
  "header_bytes h = to_le 4 (hdr_n h) @ concat (map (to_le 4) (hdr_block h))"

definition bytes_header :: "u8 list \<Rightarrow> log_header" where
  "bytes_header bs = \<lparr>hdr_n = of_le (subrange 0 4 bs),
     hdr_block = map (\<lambda>i. of_le (subrange (4 + 4 * i) 4 bs)) [0..<LOGSIZE]\<rparr>"

subsection \<open>Transactions\<close>

definition is_full :: "log \<Rightarrow> bool" where
  "is_full lg \<longleftrightarrow>
     ucast (hdr_n (header lg)) + (outstanding lg + 1) * of_nat MAXOPBLOCKS > (of_nat LOGSIZE :: usize)"

definition log_begin :: "log \<Rightarrow> log blocking" where
  "log_begin lg = (if committing lg \<or> is_full lg then Sleep else Done (lg\<lparr>outstanding := outstanding lg + 1\<rparr>))"

definition log_write :: "buffer \<Rightarrow> log \<times> storage \<Rightarrow> (log \<times> storage) kernel" where
  "log_write b = (\<lambda>(lg, s). do {
     let h = header lg;
     assertk (unat (hdr_n h) < LOGSIZE);
     assertk (ucast (hdr_n h) < log_size lg - 1);
     assertk (outstanding lg > 0);
     let len = unat (hdr_n h);
     let block = (of_nat (block_number b) :: u32);
     if block \<notin> set (take len (hdr_block h)) then do {
       s \<leftarrow> pin b s;
       assertk (len < length (hdr_block h));
       Some (lg\<lparr>header := \<lparr>hdr_n = hdr_n h + 1, hdr_block = (hdr_block h)[len := block]\<rparr>\<rparr>, s) }
     else Some (lg, s) })"

definition read_header :: "log \<times> storage \<Rightarrow> (log \<times> storage) kernel" where
  "read_header = (\<lambda>(lg, s). do {
     (r, s) \<leftarrow> with_read (log_device lg) (log_start lg) s;
     b \<leftarrow> r;
     let h = bytes_header (contents b s);
     s \<leftarrow> buffer_drop b s;
     Some (lg\<lparr>header := h\<rparr>, s) })"

definition write_header :: "log \<Rightarrow> storage \<Rightarrow> storage kernel" where
  "write_header lg s = do {
     (r, s) \<leftarrow> with_write (log_device lg) (log_start lg) (header_bytes (header lg)) s;
     b \<leftarrow> r;
     flush b s }"

definition install_block :: "log \<Rightarrow> bool \<Rightarrow> nat \<Rightarrow> storage \<Rightarrow> storage kernel" where
  "install_block lg recovering tail s = do {
     assertk (tail < length (hdr_block (header lg)));
     (r, s) \<leftarrow> with_read (log_device lg) (log_start lg + tail + 1) s;
     src \<leftarrow> r;
     (r, s) \<leftarrow> with_write (log_device lg) (unat (hdr_block (header lg) ! tail)) (contents src s) s;
     dst \<leftarrow> r;
     s \<leftarrow> (if recovering then Some s else unpin dst s);
     s \<leftarrow> flush dst s;
     buffer_drop src s }"

definition install_blocks :: "log \<times> storage \<Rightarrow> bool \<Rightarrow> (log \<times> storage) kernel" where
  "install_blocks ls recovering = (case ls of (lg, s) \<Rightarrow> do {
     s \<leftarrow> for_each (install_block lg recovering) [0..<unat (hdr_n (header lg))] s;
     Some (lg\<lparr>header := (header lg)\<lparr>hdr_n := 0\<rparr>\<rparr>, s) })"

definition write_log_block :: "log \<Rightarrow> nat \<Rightarrow> storage \<Rightarrow> storage kernel" where
  "write_log_block lg tail s = do {
     assertk (tail < length (hdr_block (header lg)));
     (r, s) \<leftarrow> with_read (log_device lg) (unat (hdr_block (header lg) ! tail)) s;
     src \<leftarrow> r;
     (r, s) \<leftarrow> with_write (log_device lg) (log_start lg + tail + 1) (contents src s) s;
     dst \<leftarrow> r;
     s \<leftarrow> flush dst s;
     buffer_drop src s }"

definition write_log :: "log \<Rightarrow> storage \<Rightarrow> storage kernel" where
  "write_log lg s = for_each (write_log_block lg) [0..<unat (hdr_n (header lg))] s"

definition log_commit :: "log \<times> storage \<Rightarrow> (log \<times> storage) kernel" where
  "log_commit = (\<lambda>(lg, s).
     let lg = lg\<lparr>committing := True\<rparr> in do {
       (lg, s) \<leftarrow>
         (if hdr_n (header lg) > 0 then do {
            s \<leftarrow> write_log lg s;
            s \<leftarrow> write_header lg s;
            (lg, s) \<leftarrow> install_blocks (lg, s) False;
            s \<leftarrow> write_header lg s;
            Some (lg, s) }
          else Some (lg, s));
       Some (lg\<lparr>committing := False\<rparr>, s) })"

definition log_end :: "log \<times> storage \<Rightarrow> (log \<times> storage) kernel" where
  "log_end = (\<lambda>(lg, s). do {
     assertk (\<not> committing lg);
     let lg = lg\<lparr>outstanding := outstanding lg - 1\<rparr>;
     if outstanding lg = 0 then log_commit (lg, s) else Some (lg, s) })"

definition log_enter :: "log \<times> storage \<Rightarrow> (log \<times> storage) blocking" where
  "log_enter = (\<lambda>(lg, s). case log_begin lg of Sleep \<Rightarrow> Sleep | Done lg \<Rightarrow> Done (lg, s))"

text \<open>\<open>log::with\<close>: the body runs between \<open>start\<close> and \<open>end\<close>.\<close>

definition log_with :: "(log \<times> storage \<Rightarrow> (log \<times> storage) kernel) \<Rightarrow> log \<times> storage \<Rightarrow> (log \<times> storage) blocking kernel" where
  "log_with f st = (case log_enter st of
     Sleep \<Rightarrow> Some Sleep
   | Done st \<Rightarrow> do { st \<leftarrow> f st; st \<leftarrow> log_end st; Some (Done st) })"

definition log_initialize :: "nat \<Rightarrow> superblock \<Rightarrow> log \<times> storage \<Rightarrow> (log \<times> storage) kernel" where
  "log_initialize device sb = (\<lambda>(lg, s).
     let lg = lg\<lparr>log_start := unat (logstart sb), log_size := ucast (nlog sb), log_device := device\<rparr> in do {
       (lg, s) \<leftarrow> read_header (lg, s);
       (lg, s) \<leftarrow> install_blocks (lg, s) True;
       s \<leftarrow> write_header lg s;
       Some (lg, s) })"

subsection \<open>Header encoding\<close>

lemma length_concat_to_le: "length (concat (map (to_le n) ws)) = n * length ws"
  by (induction ws) auto

lemma subrange_concat:
  assumes "\<And>x. x \<in> set xs \<Longrightarrow> length x = n" and "i < length xs"
  shows "subrange (n * i) n (concat xs) = xs ! i"
  using assms
proof (induction xs arbitrary: i)
  case (Cons x xs)
  show ?case
  proof (cases i)
    case 0
    then show ?thesis using Cons.prems by (simp add: subrange_def)
  next
    case (Suc j)
    then have "subrange (n * i) n (concat (x # xs)) = subrange (n * j) n (concat xs)"
      using Cons.prems by (simp add: subrange_def)
    then show ?thesis using Cons.IH [of j] Cons.prems Suc by simp
  qed
qed simp

lemma length_header_bytes [simp]: "length (hdr_block h) = LOGSIZE \<Longrightarrow> length (header_bytes h) = 124"
  by (simp add: header_bytes_def length_concat_to_le config_defs)

lemma subrange_append_left: "off + n \<le> length xs \<Longrightarrow> subrange off n (xs @ ys) = subrange off n xs"
  by (simp add: subrange_def)

lemma bytes_header_append:
  assumes "length (hdr_block h) = LOGSIZE"
  shows "bytes_header (header_bytes h @ rest) = h"
proof -
  have n: "subrange 0 4 (header_bytes h @ rest) = to_le 4 (hdr_n h)"
    by (simp add: header_bytes_def subrange_def)
  have b: "subrange (4 + 4 * i) 4 (header_bytes h @ rest) = to_le 4 (hdr_block h ! i)" if "i < LOGSIZE" for i
  proof -
    let ?bs = "map (to_le 4) (hdr_block h)"
    have "subrange (4 + 4 * i) 4 (header_bytes h @ rest) = subrange (4 * i) 4 (concat ?bs @ rest)"
      by (simp add: header_bytes_def subrange_def)
    also have "\<dots> = subrange (4 * i) 4 (concat ?bs)"
      using that assms by (intro subrange_append_left) (simp add: length_concat_to_le)
    also have "\<dots> = ?bs ! i" using that assms by (intro subrange_concat) auto
    finally show ?thesis using that assms by simp
  qed
  have "hdr_block (bytes_header (header_bytes h @ rest)) = hdr_block h"
    using assms by (intro nth_equalityI) (simp_all add: bytes_header_def b)
  then show ?thesis by (simp add: bytes_header_def n)
qed

lemma bytes_header_overwrite:
  "length (hdr_block h) = LOGSIZE \<Longrightarrow> bytes_header (overwrite 0 (header_bytes h) y) = h"
  by (simp add: overwrite_def bytes_header_append)


subsection \<open>What each closure does to the disk\<close>

text \<open>
  \<open>apply_writes\<close> runs a list of block writes on a disk. \<open>does s ws L s'\<close>: a computation that starts
  in \<open>s\<close> and ends in \<open>s'\<close> has issued the disk writes \<open>ws\<close>, in this order, and left \<open>L\<close> cached.
\<close>

definition apply_writes :: "(nat \<times> block) list \<Rightarrow> (nat \<Rightarrow> block) \<Rightarrow> nat \<Rightarrow> block" where
  "apply_writes ws d = fold (\<lambda>(b, x) d. d(b := x)) ws d"

definition does :: "storage \<Rightarrow> (nat \<times> block) list \<Rightarrow> (buffer_key \<Rightarrow> (nat \<times> block \<times> bool) option) \<Rightarrow> storage \<Rightarrow> bool" where
  "does s ws L s' \<longleftrightarrow> storage_inv s' \<and> writes s' = writes s @ ws \<and> disk s' = apply_writes ws (disk s) \<and> live s' = L"

lemma apply_writes_simps [simp]:
  "apply_writes [] d = d" "apply_writes ((b, x) # ws) d = apply_writes ws (d(b := x))"
  "apply_writes (ws @ ws') d = apply_writes ws' (apply_writes ws d)"
  by (simp_all add: apply_writes_def)

lemma does_trans: "does s ws L s' \<Longrightarrow> does s' ws' L' s'' \<Longrightarrow> does s (ws @ ws') L' s''"
  by (simp add: does_def)

lemma does_refl: "storage_inv s \<Longrightarrow> does s [] (live s) s"
  by (simp add: does_def)

lemma evolvesD:
  assumes "evolves s k v s'"
  shows "storage_inv s'" "live s' = (live s)(k := v)" "disk s' = disk s" "writes s' = writes s"
  using assms by (simp_all add: evolves_def)

lemma live_pos: "storage_inv s \<Longrightarrow> live s k = Some (n, x, h) \<Longrightarrow> 0 < n"
  using rcc.slot_pos [OF storage_invD(1)] by (metis live_SomeE)

lemma live_length: "storage_inv s \<Longrightarrow> live s k = Some (n, x, h) \<Longrightarrow> length x = BSIZE"
  using storage_invD(3) by (metis live_SomeE)

lemma finite_live: "storage_inv s \<Longrightarrow> finite (dom (live s))"
proof -
  assume inv: "storage_inv s"
  have "dom (live s) \<subseteq> (\<lambda>i. fst (the (rc_slot (cache s) i))) ` {..<NBUF}"
  proof
    fix k assume "k \<in> dom (live s)"
    then obtain n x h where "live s k = Some (n, x, h)" by auto
    then obtain i where i: "rc_slot (cache s) i = Some (k, n)" "i < NBUF" by (rule live_SomeE [OF inv])
    then show "k \<in> (\<lambda>i. fst (the (rc_slot (cache s) i))) ` {..<NBUF}"
      by (intro image_eqI [of _ _ i]) simp_all
  qed
  then show ?thesis by (rule finite_subset) simp
qed

lemma overwrite_full: "length src = length bs \<Longrightarrow> overwrite 0 src bs = src"
  by (simp add: overwrite_def)

lemma write_log_block_does:
  assumes inv: "storage_inv s" and t: "t < length (hdr_block (header lg))"
    and src: "live s (log_device lg, unat (hdr_block (header lg) ! t)) = Some (n, x, False)"
    and dst: "live s (log_device lg, log_start lg + t + 1) = None"
    and card: "card (dom (live s)) < NBUF"
  shows "\<exists>s'. write_log_block lg t s = Some s' \<and> does s [(log_start lg + t + 1, x)] (live s) s'"
proof -
  let ?d = "log_device lg" and ?i = "unat (hdr_block (header lg) ! t)" and ?o = "log_start lg + t + 1"
  have io: "(?d, ?i) \<noteq> (?d, ?o)" using src dst by auto
  have x: "length x = BSIZE" by (rule live_length [OF inv src])
  obtain h1 s1 where 1: "with_read ?d ?i s = Some (Some h1, s1)" "refers s1 h1 (?d, ?i)"
    "evolves s (?d, ?i) (Some (Suc n, x, True)) s1" by (rule with_read_hit [OF inv src])
  note e1 = evolvesD [OF 1(3)]
  have c1: "contents h1 s1 = x" using contents_live [OF e1(1) 1(2)] e1(2) by simp
  have "dom (live s1) = dom (live s)" using e1(2) src by (auto simp: dom_def)
  then have room: "room s1" using room_card [OF e1(1)] card by simp
  have "live s1 (?d, ?o) = None" using e1(2) dst io by simp
  then obtain h2 s2 y where 2: "with_write ?d ?o x s1 = Some (Some h2, s2)" "refers s2 h2 (?d, ?o)" "length y = BSIZE"
    "evolves s1 (?d, ?o) (Some (1, overwrite 0 x y, True)) s2"
    by (rule with_write_miss [OF e1(1) _ room eq_imp_le [OF x]])
  have "overwrite 0 x y = x" using x 2(3) by (simp add: overwrite_full)
  note e2 = evolvesD [OF 2(4) [unfolded this]]
  have "live s2 (?d, ?o) = Some (1, x, True)" using e2(2) by simp
  then obtain s3 where 3: "flush h2 s2 = Some s3"
    "evolves (disk_write (snd (?d, ?o)) x s2) (?d, ?o) (if (1::nat) = 1 then None else Some (1 - 1, x, False)) s3"
    by (rule flush_spec [OF e2(1) 2(2)])
  note e3 = evolvesD [OF 3(2)]
  have "refers s2 h1 (?d, ?i)" by (rule evolves_trans_refers [OF 2(4) 1(2)])
  then have r3: "refers s3 h1 (?d, ?i)" using 3(2) io unfolding evolves_def by simp
  have l3: "live s3 = (live s)((?d, ?i) \<mapsto> (Suc n, x, True))"
    using e1(2) e2(2) e3(2) dst io by (auto simp: fun_eq_iff)
  then have "live s3 (?d, ?i) = Some (Suc n, x, True)" by simp
  then obtain s4 where 4: "buffer_drop h1 s3 = Some s4"
    "evolves s3 (?d, ?i) (if Suc n = 1 then None else Some (Suc n - 1, x, False)) s4"
    by (rule buffer_drop_spec [OF e3(1) r3])
  note e4 = evolvesD [OF 4(2)]
  have "live s4 = live s" using e4(2) l3 src live_pos [OF inv src] by (auto simp: fun_eq_iff)
  then have "does s [(?o, x)] (live s) s4"
    using e4 e3 e2 e1 by (simp add: does_def)
  moreover have "write_log_block lg t s = Some s4"
    using t 1(1) 2(1) 3(1) 4(1) c1 by (simp add: write_log_block_def)
  ultimately show ?thesis by blast
qed


lemma write_header_does:
  assumes inv: "storage_inv s" and len: "length (hdr_block (header lg)) = LOGSIZE"
    and free: "live s (log_device lg, log_start lg) = None" and card: "card (dom (live s)) < NBUF"
  shows "\<exists>s' H. write_header lg s = Some s' \<and> does s [(log_start lg, H)] (live s) s' \<and>
    bytes_header H = header lg \<and> length H = BSIZE"
proof -
  let ?d = "log_device lg" and ?o = "log_start lg" and ?src = "header_bytes (header lg)"
  have l: "length ?src \<le> BSIZE" using len by (simp add: BSIZE_def)
  obtain h s1 y where 1: "with_write ?d ?o ?src s = Some (Some h, s1)" "refers s1 h (?d, ?o)" "length y = BSIZE"
    "evolves s (?d, ?o) (Some (1, overwrite 0 ?src y, True)) s1"
    by (rule with_write_miss [OF inv free room_card [OF inv card] l])
  let ?H = "overwrite 0 ?src y"
  note e1 = evolvesD [OF 1(4)]
  have "live s1 (?d, ?o) = Some (1, ?H, True)" using e1(2) by simp
  then obtain s2 where 2: "flush h s1 = Some s2"
    "evolves (disk_write (snd (?d, ?o)) ?H s1) (?d, ?o) (if (1::nat) = 1 then None else Some (1 - 1, ?H, False)) s2"
    by (rule flush_spec [OF e1(1) 1(2)])
  note e2 = evolvesD [OF 2(2)]
  have "does s [(?o, ?H)] (live s) s2" using e1 e2 free by (auto simp: does_def fun_eq_iff)
  moreover have "write_header lg s = Some s2" using 1 2 by (simp add: write_header_def)
  moreover have "bytes_header ?H = header lg" "length ?H = BSIZE"
    using len l 1(3) by (simp_all add: bytes_header_overwrite)
  ultimately show ?thesis by blast
qed

lemma read_header_does:
  assumes inv: "storage_inv s" and free: "live s (log_device lg, log_start lg) = None"
    and card: "card (dom (live s)) < NBUF"
  shows "\<exists>s'. read_header (lg, s) = Some (lg\<lparr>header := bytes_header (disk s (log_start lg))\<rparr>, s') \<and> does s [] (live s) s'"
proof -
  let ?d = "log_device lg" and ?i = "log_start lg"
  obtain h s1 where 1: "with_read ?d ?i s = Some (Some h, s1)" "refers s1 h (?d, ?i)"
    "evolves s (?d, ?i) (Some (1, disk s ?i, True)) s1"
    by (rule with_read_miss [OF inv free room_card [OF inv card]])
  note e1 = evolvesD [OF 1(3)]
  have l1: "live s1 (?d, ?i) = Some (1, disk s ?i, True)" using e1(2) by simp
  then obtain s2 where 2: "buffer_drop h s1 = Some s2"
    "evolves s1 (?d, ?i) (if (1::nat) = 1 then None else Some (1 - 1, disk s ?i, False)) s2"
    by (rule buffer_drop_spec [OF e1(1) 1(2)])
  note e2 = evolvesD [OF 2(2)]
  have "does s [] (live s) s2" using e1 e2 free by (auto simp: does_def fun_eq_iff)
  moreover have "read_header (lg, s) = Some (lg\<lparr>header := bytes_header (disk s (log_start lg))\<rparr>, s2)"
    using 1 2 contents_live [OF e1(1) 1(2) l1] by (simp add: read_header_def)
  ultimately show ?thesis by blast
qed

text \<open>The first half of \<open>install_block\<close>: the log block is read into a fresh slot.\<close>

lemma install_read:
  assumes inv: "storage_inv s" and src: "live s (d, i) = None" and card: "card (dom (live s)) < NBUF"
  obtains h s' where "with_read d i s = Some (Some h, s')" "refers s' h (d, i)" "storage_inv s'"
    "live s' = (live s)((d, i) \<mapsto> (1, disk s i, True))" "disk s' = disk s" "writes s' = writes s"
    "contents h s' = disk s i" "card (dom (live s')) = Suc (card (dom (live s)))"
proof -
  obtain h s1 where 1: "with_read d i s = Some (Some h, s1)" "refers s1 h (d, i)"
    "evolves s (d, i) (Some (1, disk s i, True)) s1"
    by (rule with_read_miss [OF inv src room_card [OF inv card]])
  note e1 = evolvesD [OF 1(3)]
  have "contents h s1 = disk s i" using contents_live [OF e1(1) 1(2)] e1(2) by simp
  moreover have "dom (live s1) = insert (d, i) (dom (live s))" using e1(2) by auto
  then have "card (dom (live s1)) = Suc (card (dom (live s)))"
    using src finite_live [OF inv] by (simp add: domIff)
  ultimately show thesis using that 1 e1 by blast
qed

text \<open>The second half: the destination is written through and both handles are dropped.\<close>

lemma install_finish:
  assumes inv: "storage_inv s" and ref: "refers s dst (d, o')" "refers s src (d, i)" and io: "i \<noteq> o'"
    and live: "live s (d, o') = Some (1, x, True)" "live s (d, i) = Some (1, y, True)"
  shows "\<exists>s'. do { s \<leftarrow> flush dst s; buffer_drop src s } = Some s' \<and>
    does s [(o', x)] ((live s)((d, o') := None, (d, i) := None)) s'"
proof -
  obtain s1 where 1: "flush dst s = Some s1"
    "evolves (disk_write (snd (d, o')) x s) (d, o') (if (1::nat) = 1 then None else Some (1 - 1, x, False)) s1"
    by (rule flush_spec [OF inv ref(1) live(1)])
  note e1 = evolvesD [OF 1(2)]
  have r: "refers s1 src (d, i)" using 1(2) ref(2) io unfolding evolves_def by simp
  have "live s1 (d, i) = Some (1, y, True)" using e1(2) live io by simp
  then obtain s2 where 2: "buffer_drop src s1 = Some s2"
    "evolves s1 (d, i) (if (1::nat) = 1 then None else Some (1 - 1, y, False)) s2"
    by (rule buffer_drop_spec [OF e1(1) r])
  note e2 = evolvesD [OF 2(2)]
  have "does s [(o', x)] ((live s)((d, o') := None, (d, i) := None)) s2"
    using e1 e2 by (simp add: does_def)
  then show ?thesis using 1(1) 2(1) by simp
qed

lemma install_block_does:
  assumes inv: "storage_inv s" and t: "t < length (hdr_block (header lg))"
    and src: "live s (log_device lg, log_start lg + t + 1) = None"
    and dst: "live s (log_device lg, unat (hdr_block (header lg) ! t)) = Some (1, z, False)"
    and card: "card (dom (live s)) < NBUF"
  shows "\<exists>s'. install_block lg False t s = Some s' \<and>
    does s [(unat (hdr_block (header lg) ! t), disk s (log_start lg + t + 1))]
      ((live s)((log_device lg, unat (hdr_block (header lg) ! t)) := None)) s'"
proof -
  let ?d = "log_device lg" and ?o = "unat (hdr_block (header lg) ! t)" and ?i = "log_start lg + t + 1"
  let ?x = "disk s ?i"
  have io: "?i \<noteq> ?o" using src dst by auto
  obtain h1 s1 where 1: "with_read ?d ?i s = Some (Some h1, s1)" "refers s1 h1 (?d, ?i)" "storage_inv s1"
    "live s1 = (live s)((?d, ?i) \<mapsto> (1, ?x, True))" "disk s1 = disk s" "writes s1 = writes s" "contents h1 s1 = ?x"
    by (rule install_read [OF inv src card])
  have x: "length ?x = BSIZE" by (rule storage_invD(5) [OF inv])
  have l1: "live s1 (?d, ?o) = Some (1, z, False)" using 1(4) dst io by simp
  have z: "length z = BSIZE" by (rule live_length [OF inv dst])
  obtain h2 s2 where 2: "with_write ?d ?o ?x s1 = Some (Some h2, s2)" "refers s2 h2 (?d, ?o)"
    "evolves s1 (?d, ?o) (Some (Suc 1, overwrite 0 ?x z, True)) s2"
    by (rule with_write_hit [OF 1(3) l1 eq_imp_le [OF x]])
  have "overwrite 0 ?x z = ?x" using x z by (simp add: overwrite_full)
  note e2 = evolvesD [OF 2(3) [unfolded this]]
  have "live s2 (?d, ?o) = Some (Suc 1, ?x, True)" using e2(2) by simp
  then obtain s3 where 3: "unpin h2 s2 = Some s3" "evolves s2 (?d, ?o) (Some (Suc 1 - 1, ?x, True)) s3"
    by (rule unpin_spec [OF e2(1) 2(2)]) auto
  note e3 = evolvesD [OF 3(2)]
  have r: "refers s3 h2 (?d, ?o)" "refers s3 h1 (?d, ?i)"
    using evolves_trans_refers 2 3(2) 1(2) by metis+
  have l3: "live s3 = (live s)((?d, ?i) \<mapsto> (1, ?x, True), (?d, ?o) \<mapsto> (1, ?x, True))"
    using e3(2) e2(2) 1(4) by (simp add: fun_eq_iff)
  obtain s4 where 4: "do { s \<leftarrow> flush h2 s3; buffer_drop h1 s } = Some s4"
    "does s3 [(?o, ?x)] ((live s3)((?d, ?o) := None, (?d, ?i) := None)) s4"
    using install_finish [OF e3(1) r io, of ?x ?x] l3 io by auto
  have "(live s3)((?d, ?o) := None, (?d, ?i) := None) = (live s)((?d, ?o) := None)"
    using l3 src io by (auto simp: fun_eq_iff)
  then have "does s [(?o, ?x)] ((live s)((?d, ?o) := None)) s4"
    using 4(2) e3 e2 1 by (simp add: does_def)
  moreover have "install_block lg False t s = Some s4"
    using t 1 2(1) 3(1) 4(1) by (simp add: install_block_def)
  ultimately show ?thesis by blast
qed

lemma install_block_recovering_does:
  assumes inv: "storage_inv s" and t: "t < length (hdr_block (header lg))"
    and src: "live s (log_device lg, log_start lg + t + 1) = None"
    and dst: "live s (log_device lg, unat (hdr_block (header lg) ! t)) = None"
    and io: "log_start lg + t + 1 \<noteq> unat (hdr_block (header lg) ! t)"
    and card: "Suc (card (dom (live s))) < NBUF"
  shows "\<exists>s'. install_block lg True t s = Some s' \<and>
    does s [(unat (hdr_block (header lg) ! t), disk s (log_start lg + t + 1))] (live s) s'"
proof -
  let ?d = "log_device lg" and ?o = "unat (hdr_block (header lg) ! t)" and ?i = "log_start lg + t + 1"
  let ?x = "disk s ?i"
  obtain h1 s1 where 1: "with_read ?d ?i s = Some (Some h1, s1)" "refers s1 h1 (?d, ?i)" "storage_inv s1"
    "live s1 = (live s)((?d, ?i) \<mapsto> (1, ?x, True))" "disk s1 = disk s" "writes s1 = writes s" "contents h1 s1 = ?x"
    "card (dom (live s1)) = Suc (card (dom (live s)))"
    by (rule install_read [OF inv src Suc_lessD [OF card]])
  have x: "length ?x = BSIZE" by (rule storage_invD(5) [OF inv])
  have l1: "live s1 (?d, ?o) = None" using 1(4) dst io by simp
  have room: "room s1" using room_card [OF 1(3)] 1(8) card by simp
  obtain h2 s2 y where 2: "with_write ?d ?o ?x s1 = Some (Some h2, s2)" "refers s2 h2 (?d, ?o)" "length y = BSIZE"
    "evolves s1 (?d, ?o) (Some (1, overwrite 0 ?x y, True)) s2"
    by (rule with_write_miss [OF 1(3) l1 room eq_imp_le [OF x]])
  have "overwrite 0 ?x y = ?x" using x 2(3) by (simp add: overwrite_full)
  note e2 = evolvesD [OF 2(4) [unfolded this]]
  have r: "refers s2 h1 (?d, ?i)" by (rule evolves_trans_refers [OF 2(4) 1(2)])
  have l2: "live s2 = (live s)((?d, ?i) \<mapsto> (1, ?x, True), (?d, ?o) \<mapsto> (1, ?x, True))"
    using e2(2) 1(4) by simp
  obtain s4 where 4: "do { s \<leftarrow> flush h2 s2; buffer_drop h1 s } = Some s4"
    "does s2 [(?o, ?x)] ((live s2)((?d, ?o) := None, (?d, ?i) := None)) s4"
    using install_finish [OF e2(1) 2(2) r io, of ?x ?x] l2 io by auto
  have "(live s2)((?d, ?o) := None, (?d, ?i) := None) = live s"
    using l2 src dst io by (auto simp: fun_eq_iff)
  then have "does s [(?o, ?x)] (live s) s4"
    using 4(2) e2 1 by (simp add: does_def)
  moreover have "install_block lg True t s = Some s4"
    using t 1 2(1) 4(1) by (simp add: install_block_def)
  ultimately show ?thesis by blast
qed


subsection \<open>The loops and the commit\<close>

abbreviation home :: "log \<Rightarrow> nat \<Rightarrow> nat" where
  "home lg t \<equiv> unat (hdr_block (header lg) ! t)"

abbreviation logged_n :: "log \<Rightarrow> nat" where
  "logged_n lg \<equiv> unat (hdr_n (header lg))"

text \<open>
  A transaction ready to commit: the header lists distinct blocks, each of them is cached, pinned by
  exactly the log, with contents \<open>X t\<close>; no block of the log area is cached, and the buffer cache has
  at least one free slot.
\<close>

definition ready :: "log \<Rightarrow> storage \<Rightarrow> (nat \<Rightarrow> block) \<Rightarrow> bool" where
  "ready lg s X \<longleftrightarrow> storage_inv s \<and> length (hdr_block (header lg)) = LOGSIZE \<and> logged_n lg \<le> LOGSIZE \<and>
     inj_on (home lg) {..<logged_n lg} \<and>
     (\<forall>t<logged_n lg. live s (log_device lg, home lg t) = Some (1, X t, False)) \<and>
     (\<forall>j\<le>logged_n lg. live s (log_device lg, log_start lg + j) = None) \<and> card (dom (live s)) < NBUF"

lemma readyD:
  assumes "ready lg s X"
  shows "storage_inv s" "length (hdr_block (header lg)) = LOGSIZE" "logged_n lg \<le> LOGSIZE"
    "inj_on (home lg) {..<logged_n lg}"
    "\<And>t. t < logged_n lg \<Longrightarrow> live s (log_device lg, home lg t) = Some (1, X t, False)"
    "\<And>j. j \<le> logged_n lg \<Longrightarrow> live s (log_device lg, log_start lg + j) = None"
    "card (dom (live s)) < NBUF"
  using assms by (auto simp: ready_def)

lemma ready_home_outside:
  assumes "ready lg s X" "t < logged_n lg" "j \<le> logged_n lg"
  shows "home lg t \<noteq> log_start lg + j"
  using readyD(5) [OF assms(1,2)] readyD(6) [OF assms(1,3)] by auto

lemma apply_writes_other: "b \<notin> fst ` set ws \<Longrightarrow> apply_writes ws d b = d b"
  by (induction ws arbitrary: d) auto

lemma apply_writes_map:
  assumes "inj_on f {..<n}"
  shows "apply_writes (map (\<lambda>t. (f t, X t)) [0..<n]) d b = (if b \<in> f ` {..<n} then X (the_inv_into {..<n} f b) else d b)"
  using assms
proof (induction n)
  case (Suc n)
  have inj: "inj_on f {..<n}" using Suc.prems by (rule inj_on_subset) auto
  have *: "the_inv_into {..<Suc n} f b = the_inv_into {..<n} f b" if "b \<in> f ` {..<n}"
    using that Suc.prems inj by (auto simp: the_inv_into_f_f)
  have "the_inv_into {..<Suc n} f (f n) = n" using Suc.prems by (simp add: the_inv_into_f_f)
  moreover have "f n \<notin> f ` {..<n}" using inj_onD [OF Suc.prems, of n] by force
  ultimately show ?case using Suc.IH [OF inj] * by (auto simp: lessThan_Suc)
qed simp

lemma apply_writes_map_at:
  "inj_on f {..<n} \<Longrightarrow> t < n \<Longrightarrow> apply_writes (map (\<lambda>t. (f t, X t)) [0..<n]) d (f t) = X t"
  by (simp add: apply_writes_map the_inv_into_f_f)

lemma not_written:
  assumes "\<And>t. t < m \<Longrightarrow> f t \<noteq> b"
  shows "b \<notin> fst ` set (map (\<lambda>t. (f t, Y t)) [0..<m])"
proof
  assume "b \<in> fst ` set (map (\<lambda>t. (f t, Y t)) [0..<m])"
  then obtain t where "t < m" "b = f t" by auto
  then show False using assms [of t] by simp
qed

lemma write_log_does:
  assumes ready: "ready lg s X" and m: "m \<le> logged_n lg"
  shows "\<exists>s'. for_each (write_log_block lg) [0..<m] s = Some s' \<and>
    does s (map (\<lambda>t. (log_start lg + t + 1, X t)) [0..<m]) (live s) s'"
  using m
proof (induction m)
  case 0
  show ?case using does_refl [OF readyD(1) [OF ready]] by simp
next
  case (Suc m)
  then obtain s1 where 1: "for_each (write_log_block lg) [0..<m] s = Some s1"
    "does s (map (\<lambda>t. (log_start lg + t + 1, X t)) [0..<m]) (live s) s1" by auto
  have inv: "storage_inv s1" and live: "live s1 = live s" using 1(2) by (auto simp: does_def)
  have "\<exists>s'. write_log_block lg m s1 = Some s' \<and> does s1 [(log_start lg + m + 1, X m)] (live s1) s'"
    using readyD [OF ready] Suc.prems live readyD(6) [OF ready, of "Suc m"]
    by (intro write_log_block_does [OF inv, of _ _ 1]) simp_all
  then obtain s2 where "write_log_block lg m s1 = Some s2" "does s1 [(log_start lg + m + 1, X m)] (live s) s2"
    using live by auto
  with 1 show ?case unfolding for_each_upt_Suc using does_trans [OF 1(2)] by auto
qed

lemma install_blocks_does:
  assumes ready: "ready lg s X" and m: "m \<le> logged_n lg"
  shows "\<exists>s'. for_each (install_block lg False) [0..<m] s = Some s' \<and>
    does s (map (\<lambda>t. (home lg t, disk s (log_start lg + t + 1))) [0..<m])
      (\<lambda>k. if \<exists>t<m. k = (log_device lg, home lg t) then None else live s k) s'"
  using m
proof (induction m)
  case 0
  show ?case using does_refl [OF readyD(1) [OF ready]] by simp
next
  case (Suc m)
  let ?ws = "map (\<lambda>t. (home lg t, disk s (log_start lg + t + 1))) [0..<m]"
  let ?L = "\<lambda>m k. if \<exists>t<m. k = (log_device lg, home lg t) then None else live s k"
  obtain s1 where 1: "for_each (install_block lg False) [0..<m] s = Some s1" "does s ?ws (?L m) s1"
    using Suc by auto
  have inv: "storage_inv s1" and live: "live s1 = ?L m" and disk: "disk s1 = apply_writes ?ws (disk s)"
    using 1(2) by (auto simp: does_def)
  have "home lg t \<noteq> home lg m" if "t < m" for t
    using inj_onD [OF readyD(4) [OF ready], of t m] that Suc.prems by force
  then have "\<not> (\<exists>t<m. (log_device lg, home lg m) = (log_device lg, home lg t))" by (metis Pair_inject)
  then have l_dst: "live s1 (log_device lg, home lg m) = Some (1, X m, False)"
    unfolding live using readyD(5) [OF ready, of m] Suc.prems by simp
  have l_src: "live s1 (log_device lg, log_start lg + m + 1) = None"
    using readyD(6) [OF ready, of "Suc m"] Suc.prems live by auto
  have "dom (live s1) \<subseteq> dom (live s)" unfolding live by (auto split: if_splits)
  then have card: "card (dom (live s1)) < NBUF"
    using card_mono [OF finite_live [OF readyD(1) [OF ready]]] readyD(7) [OF ready] by (meson le_less_trans)
  have "log_start lg + m + 1 \<notin> fst ` set ?ws"
    using ready_home_outside [OF ready, of _ "Suc m"] Suc.prems by (intro not_written) simp
  then have src: "disk s1 (log_start lg + m + 1) = disk s (log_start lg + m + 1)"
    unfolding disk by (rule apply_writes_other)
  have "m < length (hdr_block (header lg))" using readyD(2,3) [OF ready] Suc.prems by simp
  from install_block_does [OF inv this l_src l_dst card] src
  obtain s2 where 2: "install_block lg False m s1 = Some s2"
    "does s1 [(home lg m, disk s (log_start lg + m + 1))] ((live s1)((log_device lg, home lg m) := None)) s2" by auto
  have "(live s1)((log_device lg, home lg m) := None) = ?L (Suc m)"
    unfolding live by (auto simp: fun_eq_iff less_Suc_eq)
  with 2 does_trans [OF 1(2), of "[(home lg m, disk s (log_start lg + m + 1))]" "?L (Suc m)" s2] 1(1)
  show ?case unfolding for_each_upt_Suc by simp
qed


definition commit_writes :: "log \<Rightarrow> (nat \<Rightarrow> block) \<Rightarrow> block \<Rightarrow> block \<Rightarrow> (nat \<times> block) list" where
  "commit_writes lg X H H0 =
     map (\<lambda>t. (log_start lg + t + 1, X t)) [0..<logged_n lg] @ [(log_start lg, H)] @
     map (\<lambda>t. (home lg t, X t)) [0..<logged_n lg] @ [(log_start lg, H0)]"

lemma ready_cong:
  assumes "ready lg s X" and "storage_inv s'" and "live s' = live s"
  shows "ready lg s' X"
  using assms by (simp add: ready_def)

lemma log_commit_does:
  assumes ready: "ready lg s X" and n: "0 < hdr_n (header lg)"
  shows "\<exists>s' H H0. log_commit (lg, s) = Some (lg\<lparr>committing := False, header := (header lg)\<lparr>hdr_n := 0\<rparr>\<rparr>, s') \<and>
    does s (commit_writes lg X H H0)
      (\<lambda>k. if \<exists>t<logged_n lg. k = (log_device lg, home lg t) then None else live s k) s' \<and>
    bytes_header H = header lg \<and> bytes_header H0 = (header lg)\<lparr>hdr_n := 0\<rparr> \<and> length H = BSIZE \<and> length H0 = BSIZE"
proof -
  let ?lg = "lg\<lparr>committing := True\<rparr>" and ?n = "logged_n lg"
  let ?L = "\<lambda>k. if \<exists>t<?n. k = (log_device lg, home lg t) then None else live s k"
  have r0: "ready ?lg s X" using ready by (simp add: ready_def)
  obtain s1 where 1: "write_log ?lg s = Some s1"
    "does s (map (\<lambda>t. (log_start lg + t + 1, X t)) [0..<?n]) (live s) s1"
    using write_log_does [OF r0 order_refl] by (auto simp: write_log_def)
  have i1: "storage_inv s1" "live s1 = live s" using 1(2) by (auto simp: does_def)
  obtain s2 H where 2: "write_header ?lg s1 = Some s2" "does s1 [(log_start lg, H)] (live s) s2"
    "bytes_header H = header lg" "length H = BSIZE"
    using write_header_does [OF i1(1), of ?lg] i1(2) readyD(2,7) [OF ready] readyD(6) [OF ready, of 0] by auto
  have i2: "storage_inv s2" "live s2 = live s" using 2(2) by (auto simp: does_def)
  have r2: "ready ?lg s2 X" by (rule ready_cong [OF r0 i2])
  have "inj_on (\<lambda>t. log_start lg + t + 1) {..<?n}" by (simp add: inj_on_def)
  from apply_writes_map_at [OF this]
  have dX: "disk s2 (log_start lg + t + 1) = X t" if "t < ?n" for t
    using that 1(2) 2(2) by (simp add: does_def)
  obtain s3 where 3: "for_each (install_block ?lg False) [0..<?n] s2 = Some s3"
    "does s2 (map (\<lambda>t. (home lg t, disk s2 (log_start lg + t + 1))) [0..<?n]) ?L s3"
    using install_blocks_does [OF r2 order_refl, unfolded i2(2)] by auto
  have "map (\<lambda>t. (home lg t, disk s2 (log_start lg + t + 1))) [0..<?n] = map (\<lambda>t. (home lg t, X t)) [0..<?n]"
    using dX by simp
  note d3 = 3(2) [unfolded this]
  let ?lg' = "?lg\<lparr>header := (header lg)\<lparr>hdr_n := 0\<rparr>\<rparr>"
  have i3: "storage_inv s3" "live s3 = ?L" using d3 by (auto simp: does_def)
  have "dom ?L \<subseteq> dom (live s)" by (auto split: if_splits)
  then have card: "card (dom (live s3)) < NBUF"
    unfolding i3(2) using card_mono [OF finite_live [OF readyD(1) [OF ready]]] readyD(7) [OF ready] by (meson le_less_trans)
  have free: "live s3 (log_device lg, log_start lg) = None"
    unfolding i3(2) using readyD(6) [OF ready, of 0] by simp
  obtain s4 H0 where 4: "write_header ?lg' s3 = Some s4" "does s3 [(log_start lg, H0)] ?L s4"
    "bytes_header H0 = (header lg)\<lparr>hdr_n := 0\<rparr>" "length H0 = BSIZE"
    using write_header_does [OF i3(1), of ?lg'] i3(2) card free readyD(2) [OF ready] by auto
  have "does s (commit_writes lg X H H0) ?L s4"
    using does_trans [OF 1(2) does_trans [OF 2(2) does_trans [OF d3 4(2)]]] by (simp add: commit_writes_def)
  moreover have "log_commit (lg, s) = Some (lg\<lparr>committing := False, header := (header lg)\<lparr>hdr_n := 0\<rparr>\<rparr>, s4)"
    using n 1(1) 2(1) 3(1) 4(1) by (simp add: log_commit_def install_blocks_def Let_def)
  ultimately show ?thesis using 2 4 by blast
qed

subsection \<open>Recovery\<close>

text \<open>The disk writes of a recovery from the disk \<open>d\<close>, the final header write apart.\<close>

definition disk_header :: "nat \<Rightarrow> (nat \<Rightarrow> block) \<Rightarrow> log_header" where
  "disk_header start d = bytes_header (d start)"

definition recovery_writes :: "nat \<Rightarrow> (nat \<Rightarrow> block) \<Rightarrow> (nat \<times> block) list" where
  "recovery_writes start d = (let h = disk_header start d in
     map (\<lambda>t. (unat (hdr_block h ! t), d (start + t + 1))) [0..<unat (hdr_n h)])"

text \<open>The disk holds a log that recovery can install: it is not too long and no logged block lies in the log area.\<close>

definition recoverable :: "nat \<Rightarrow> (nat \<Rightarrow> block) \<Rightarrow> bool" where
  "recoverable start d \<longleftrightarrow> (\<forall>b. length (d b) = BSIZE) \<and> (let h = disk_header start d in
     unat (hdr_n h) \<le> LOGSIZE \<and>
     (\<forall>t<unat (hdr_n h). \<forall>j\<le>LOGSIZE. unat (hdr_block h ! t) \<noteq> start + j))"

lemma storage_inv_new: "\<forall>b. length (d b) = BSIZE \<Longrightarrow> storage_inv (storage_new d)"
  by (simp add: storage_inv_def storage_new_def rc_inv_new rc_slot_new config_defs)

lemma live_new: "live (storage_new d) = Map.empty"
  by (rule ext) (simp add: live_def slot_index_def storage_new_def rc_slot_new config_defs find_NoneI)

lemma install_blocks_recovering_does:
  assumes inv: "storage_inv s" and live: "live s = Map.empty" and m: "m \<le> logged_n lg"
    and len: "logged_n lg \<le> length (hdr_block (header lg))"
    and out: "\<And>t j. t < logged_n lg \<Longrightarrow> j \<le> logged_n lg \<Longrightarrow> home lg t \<noteq> log_start lg + j"
  shows "\<exists>s'. for_each (install_block lg True) [0..<m] s = Some s' \<and>
    does s (map (\<lambda>t. (home lg t, disk s (log_start lg + t + 1))) [0..<m]) Map.empty s'"
  using m
proof (induction m)
  case 0
  show ?case using does_refl [OF inv] live by simp
next
  case (Suc m)
  let ?ws = "map (\<lambda>t. (home lg t, disk s (log_start lg + t + 1))) [0..<m]"
  obtain s1 where 1: "for_each (install_block lg True) [0..<m] s = Some s1" "does s ?ws Map.empty s1"
    using Suc by auto
  have i1: "storage_inv s1" "live s1 = Map.empty" "disk s1 = apply_writes ?ws (disk s)"
    using 1(2) by (auto simp: does_def)
  have "log_start lg + m + 1 \<notin> fst ` set ?ws"
    using out [of _ "Suc m"] Suc.prems by (intro not_written) simp
  then have src: "disk s1 (log_start lg + m + 1) = disk s (log_start lg + m + 1)"
    unfolding i1(3) by (rule apply_writes_other)
  have "m < length (hdr_block (header lg))" "log_start lg + m + 1 \<noteq> home lg m"
    using len Suc.prems out [of m "Suc m"] by auto
  then obtain s2 where "install_block lg True m s1 = Some s2"
    "does s1 [(home lg m, disk s (log_start lg + m + 1))] Map.empty s2"
    using install_block_recovering_does [OF i1(1), of m lg] i1(2) src by (auto simp: config_defs)
  with does_trans [OF 1(2)] 1(1) show ?case unfolding for_each_upt_Suc by auto
qed

lemma log_initialize_does:
  assumes rec: "recoverable (unat (logstart sb)) d"
  shows "\<exists>lg' s' H0. log_initialize dev sb (log_new, storage_new d) = Some (lg', s') \<and>
    does (storage_new d) (recovery_writes (unat (logstart sb)) d @ [(unat (logstart sb), H0)]) Map.empty s' \<and>
    header lg' = (disk_header (unat (logstart sb)) d)\<lparr>hdr_n := 0\<rparr> \<and> bytes_header H0 = header lg' \<and> length H0 = BSIZE \<and>
    log_start lg' = unat (logstart sb) \<and> log_device lg' = dev \<and> outstanding lg' = 0 \<and> \<not> committing lg'"
proof -
  let ?st = "unat (logstart sb)"
  let ?lg = "log_new\<lparr>log_start := ?st, log_size := ucast (nlog sb), log_device := dev\<rparr>"
  let ?h = "disk_header ?st d"
  let ?lg1 = "?lg\<lparr>header := ?h\<rparr>" and ?lg2 = "?lg\<lparr>header := ?h\<lparr>hdr_n := 0\<rparr>\<rparr>"
  let ?s = "storage_new d"
  have inv: "storage_inv ?s" using rec by (intro storage_inv_new) (simp add: recoverable_def)
  have d: "disk ?s = d" by (simp add: storage_new_def)
  have hlen: "length (hdr_block ?h) = LOGSIZE" by (simp add: disk_header_def bytes_header_def)
  obtain s1 where 1: "read_header (?lg, ?s) = Some (?lg1, s1)" "does ?s [] Map.empty s1"
    using read_header_does [OF inv, of ?lg] live_new [of d] d by (auto simp: disk_header_def config_defs)
  have i1: "storage_inv s1" "live s1 = Map.empty" "disk s1 = d" using 1(2) d by (auto simp: does_def)
  obtain s2 where 2: "for_each (install_block ?lg1 True) [0..<unat (hdr_n ?h)] s1 = Some s2"
    "does s1 (recovery_writes ?st d) Map.empty s2"
    using install_blocks_recovering_does [OF i1(1,2), of "unat (hdr_n ?h)" ?lg1] rec hlen i1(3)
    by (force simp: recoverable_def recovery_writes_def Let_def)
  have i2: "storage_inv s2" "live s2 = Map.empty" using 2(2) by (auto simp: does_def)
  obtain s3 H0 where 3: "write_header ?lg2 s2 = Some s3" "does s2 [(?st, H0)] Map.empty s3"
    "bytes_header H0 = ?h\<lparr>hdr_n := 0\<rparr>" "length H0 = BSIZE"
    using write_header_does [OF i2(1), of ?lg2] i2(2) hlen by (auto simp: config_defs)
  have "log_initialize dev sb (log_new, ?s) = Some (?lg2, s3)"
    using 1(1) 2(1) 3(1) by (simp add: log_initialize_def install_blocks_def Let_def)
  moreover have "does ?s (recovery_writes ?st d @ [(?st, H0)]) Map.empty s3"
    using does_trans [OF 1(2) does_trans [OF 2(2) 3(2)]] by simp
  ultimately show ?thesis using 3 by (auto simp: log_new_def)
qed

end
