(* ===== verification/Log_Safety.thy ===== *)
theory Log_Safety
  imports Log
begin

text \<open>
  What the write-ahead log of \<open>Log\<close> guarantees: atomicity of a commit under a crash at any disk
  write, the view of the log as a transactional store, and the admission of concurrent operations.
\<close>

subsection \<open>Crashes\<close>

lemma apply_writes_agree:
  "(\<And>b. b \<notin> fst ` set ws \<Longrightarrow> d b = e b) \<Longrightarrow> apply_writes ws d = apply_writes ws e"
proof (induction ws arbitrary: d e rule: rev_induct)
  case Nil
  then show ?case by auto
next
  case (snoc w ws)
  obtain b x where w: "w = (b, x)" by (cases w)
  have "apply_writes ws (d(b := x)) = apply_writes ws (e(b := x))"
    using snoc.prems by (intro snoc.IH) (auto simp: w)
  moreover have "(apply_writes ws (f(b := x)))(b := x) = (apply_writes ws f)(b := x)" for f
  proof (induction ws arbitrary: f)
    case (Cons v ws)
    then show ?case by (cases v) (metis (no_types, lifting) apply_writes_simps(2) fun_upd_twist fun_upd_upd)
  qed simp
  ultimately show ?case by (metis apply_writes_simps(1,2,3) w)
qed

lemma apply_writes_again: "apply_writes ws (apply_writes (take j ws) d) = apply_writes ws d"
proof (rule apply_writes_agree)
  fix b assume "b \<notin> fst ` set ws"
  then have "b \<notin> fst ` set (take j ws)" by (meson image_mono set_take_subset subsetD)
  then show "apply_writes (take j ws) d b = d b" by (rule apply_writes_other)
qed

lemma apply_writes_length:
  "(\<And>b. length (d b) = BSIZE) \<Longrightarrow> (\<And>w. w \<in> set ws \<Longrightarrow> length (snd w) = BSIZE) \<Longrightarrow>
    length (apply_writes ws d b) = BSIZE"
proof (induction ws arbitrary: d)
  case (Cons w ws)
  obtain c x where w: "w = (c, x)" by (cases w)
  have "length x = BSIZE" using Cons.prems(2) [of w] w by simp
  then have "length (apply_writes ws (d(c := x)) b) = BSIZE"
    using Cons.prems by (intro Cons.IH) auto
  then show ?case by (simp add: w)
qed simp

lemma apply_writes_outside:
  "(\<And>w. w \<in> set ws \<Longrightarrow> fst w \<noteq> b) \<Longrightarrow> apply_writes ws d b = d b"
  by (rule apply_writes_other) auto

text \<open>Recovery on an empty log changes nothing outside the log header.\<close>

lemma recovery_empty:
  "hdr_n (disk_header start d) = 0 \<Longrightarrow> recovery_writes start d = []"
  by (simp add: recovery_writes_def Let_def)

text \<open>The block \<open>b\<close> lies outside the log area.\<close>

definition outside_log :: "nat \<Rightarrow> nat \<Rightarrow> bool" where
  "outside_log start b \<longleftrightarrow> (\<forall>j\<le>LOGSIZE. b \<noteq> start + j)"

text \<open>The disk after a crash in the middle of a commit, by how far the commit got.\<close>

lemma crash_before_header:
  assumes "k \<le> logged_n lg" and "logged_n lg \<le> LOGSIZE"
    and dk_def: "dk = apply_writes (take k (commit_writes lg X H H0)) d"
  shows "dk (log_start lg) = d (log_start lg)" "outside_log (log_start lg) b \<Longrightarrow> dk b = d b"
proof -
  have "take k (commit_writes lg X H H0) = map (\<lambda>t. (log_start lg + t + 1, X t)) [0..<k]"
    using assms(1) by (simp add: commit_writes_def take_map take_upt)
  then have dk: "dk = apply_writes (map (\<lambda>t. (log_start lg + t + 1, X t)) [0..<k]) d" by (simp add: dk_def)
  show "dk (log_start lg) = d (log_start lg)" unfolding dk by (rule apply_writes_outside) auto
  have "log_start lg + t + 1 \<noteq> b" if "t < k" "outside_log (log_start lg) b" for t
  proof -
    have "t + 1 \<le> LOGSIZE" using that(1) assms(1,2) by simp
    then show ?thesis using that(2) unfolding outside_log_def by (metis add.assoc)
  qed
  then show "dk b = d b" if "outside_log (log_start lg) b"
    unfolding dk using that by (intro apply_writes_other not_written) simp
qed

lemma commit_prefix_cases:
  assumes "logged_n lg < k" "k \<le> length (commit_writes lg X H H0)"
  obtains (installing) j where "j \<le> logged_n lg"
      "take k (commit_writes lg X H H0) = map (\<lambda>t. (log_start lg + t + 1, X t)) [0..<logged_n lg] @
        [(log_start lg, H)] @ take j (map (\<lambda>t. (home lg t, X t)) [0..<logged_n lg])"
    | (finished) "take k (commit_writes lg X H H0) = commit_writes lg X H H0"
proof (cases "k = length (commit_writes lg X H H0)")
  case False
  define j where "j = k - Suc (logged_n lg)"
  have k: "k = Suc (logged_n lg) + j" "j \<le> logged_n lg" using assms False by (simp_all add: commit_writes_def j_def)
  then show thesis using installing [of j] by (simp add: commit_writes_def)
qed (use finished in simp)


lemma outside_logD: "outside_log start b \<Longrightarrow> j \<le> LOGSIZE \<Longrightarrow> b \<noteq> start + j"
  by (simp add: outside_log_def)

lemma outside_log_start: "outside_log start b \<Longrightarrow> b \<noteq> start"
  using outside_logD [of start b 0] by simp

lemma recover_empty:
  assumes len: "\<forall>b. length (d b) = BSIZE" and empty: "hdr_n (disk_header (unat (logstart sb)) d) = 0"
  shows "\<exists>lg' s'. log_initialize dev sb (log_new, storage_new d) = Some (lg', s') \<and> hdr_n (header lg') = 0 \<and>
    (\<forall>b. outside_log (unat (logstart sb)) b \<longrightarrow> disk s' b = d b)"
proof -
  have "recoverable (unat (logstart sb)) d" using len empty by (simp add: recoverable_def)
  from log_initialize_does [OF this, of dev]
  obtain lg' s' H0 where "log_initialize dev sb (log_new, storage_new d) = Some (lg', s')" "hdr_n (header lg') = 0"
    "does (storage_new d) [(unat (logstart sb), H0)] Map.empty s'"
    using recovery_empty [OF empty] by auto
  then show ?thesis by (auto simp: does_def storage_new_def dest: outside_log_start)
qed

lemma recover_logged:
  assumes ready: "ready lg s X" and st: "log_start lg = unat (logstart sb)"
    and out: "\<And>t. t < logged_n lg \<Longrightarrow> outside_log (log_start lg) (home lg t)"
    and H: "bytes_header H = header lg" "length H = BSIZE"
    and ws: "ws = map (\<lambda>t. (log_start lg + t + 1, X t)) [0..<logged_n lg] @ [(log_start lg, H)]"
    and home: "hs = map (\<lambda>t. (home lg t, X t)) [0..<logged_n lg]"
  shows "\<exists>lg' s'. log_initialize dev sb (log_new, storage_new (apply_writes (ws @ take j hs) (disk s))) = Some (lg', s') \<and>
    hdr_n (header lg') = 0 \<and>
    (\<forall>b. outside_log (log_start lg) b \<longrightarrow> disk s' b = apply_writes (ws @ hs) (disk s) b)"
proof -
  let ?d = "apply_writes (ws @ take j hs) (disk s)" and ?n = "logged_n lg"
  have Xlen: "length (X t) = BSIZE" if "t < ?n" for t
    using live_length [OF readyD(1) [OF ready] readyD(5) [OF ready that]] .
  have len: "length (?d b) = BSIZE" for b
    using storage_invD(5) [OF readyD(1) [OF ready]] H(2) Xlen
    by (intro apply_writes_length) (auto simp: ws home dest!: in_set_takeD)
  have fst_hs: "c \<notin> fst ` set (take j hs)" if "\<And>t. t < ?n \<Longrightarrow> home lg t \<noteq> c" for c
    using not_written [of ?n "home lg" c X] that by (metis home image_mono set_take_subset subsetD)
  have keep: "?d (log_start lg + i) = apply_writes ws (disk s) (log_start lg + i)" if "i \<le> ?n" for i
    using fst_hs [of "log_start lg + i"] outside_logD [OF out, of _ i] that readyD(3) [OF ready]
    by (simp add: apply_writes_other)
  have "?d (log_start lg) = H" using keep [of 0] by (simp add: ws)
  then have hd: "disk_header (log_start lg) ?d = header lg" using H by (simp add: disk_header_def)
  have "inj_on (\<lambda>t. log_start lg + t + 1) {..<?n}" by (simp add: inj_on_def)
  from apply_writes_map_at [OF this]
  have dX: "?d (log_start lg + t + 1) = X t" if "t < ?n" for t
    using keep [of "Suc t"] that by (simp add: ws)
  have "recovery_writes (log_start lg) ?d = map (\<lambda>t. (home lg t, ?d (log_start lg + t + 1))) [0..<?n]"
    unfolding recovery_writes_def Let_def hd ..
  also have "\<dots> = map (\<lambda>t. (home lg t, X t)) [0..<?n]"
    by (rule map_cong [OF refl]) (use dX in \<open>simp del: apply_writes_simps\<close>)
  finally have rw: "recovery_writes (log_start lg) ?d = hs" unfolding home .
  have "recoverable (log_start lg) ?d"
    unfolding recoverable_def Let_def hd using len readyD(3) [OF ready] outside_logD [OF out] by blast
  from log_initialize_does [of sb ?d dev, folded st, OF this, unfolded rw]
  obtain lg' s' H0 where "log_initialize dev sb (log_new, storage_new ?d) = Some (lg', s')" "hdr_n (header lg') = 0"
    "disk s' = apply_writes (hs @ [(log_start lg, H0)]) ?d"
    by (auto simp: does_def storage_new_def)
  then show ?thesis by (auto simp: apply_writes_again dest: outside_log_start)
qed

lemma commit_crash:
  assumes ready: "ready lg s X" and st: "log_start lg = unat (logstart sb)"
    and empty: "hdr_n (disk_header (log_start lg) (disk s)) = 0"
    and out: "\<And>t. t < logged_n lg \<Longrightarrow> outside_log (log_start lg) (home lg t)"
    and H: "bytes_header H = header lg" "bytes_header H0 = (header lg)\<lparr>hdr_n := 0\<rparr>" "length H = BSIZE" "length H0 = BSIZE"
    and k: "k \<le> length (commit_writes lg X H H0)"
  shows "\<exists>lgk sk. log_initialize dev sb
      (log_new, storage_new (apply_writes (take k (commit_writes lg X H H0)) (disk s))) = Some (lgk, sk) \<and>
    hdr_n (header lgk) = 0 \<and>
    (\<forall>b. outside_log (log_start lg) b \<longrightarrow>
      disk sk b = (if k \<le> logged_n lg then disk s b else apply_writes (commit_writes lg X H H0) (disk s) b))"
proof -
  let ?n = "logged_n lg" and ?ws = "commit_writes lg X H H0"
  have len: "\<forall>b. length (disk s b) = BSIZE" using storage_invD(5) [OF readyD(1) [OF ready]] by blast
  have "length (X t) = BSIZE" if "t < ?n" for t
    using live_length [OF readyD(1) [OF ready] readyD(5) [OF ready that]] .
  then have plen: "\<forall>b. length (apply_writes (take k ?ws) (disk s) b) = BSIZE" for k
    using len H(3,4) by (intro allI apply_writes_length) (auto simp: commit_writes_def dest!: in_set_takeD)
  show ?thesis
  proof (cases "k \<le> ?n")
    case True
    note before = crash_before_header [OF True readyD(3) [OF ready] refl, where X = X and H = H and ?H0.0 = H0 and d = "disk s"]
    have "hdr_n (disk_header (unat (logstart sb)) (apply_writes (take k ?ws) (disk s))) = 0"
      using before(1) empty by (simp add: disk_header_def st)
    from recover_empty [OF plen this, of dev] show ?thesis using True before(2) st by auto
  next
    case False
    then have "?n < k" by simp
    then show ?thesis
      using k
    proof (cases rule: commit_prefix_cases)
      case (installing j)
      let ?A = "map (\<lambda>t. (log_start lg + t + 1, X t)) [0..<?n] @ [(log_start lg, H)]"
      let ?hs = "map (\<lambda>t. (home lg t, X t)) [0..<?n]"
      have pre: "take k ?ws = ?A @ take j ?hs" using installing(2) by simp
      have "apply_writes ?ws (disk s) b = apply_writes (?A @ ?hs) (disk s) b" if "outside_log (log_start lg) b" for b
        using outside_log_start [OF that] by (simp add: commit_writes_def)
      with recover_logged [OF ready st out H(1,3) refl refl, of dev j] False
      show ?thesis unfolding pre by (auto simp del: apply_writes_simps)
    next
      case finished
      have "hdr_n (disk_header (unat (logstart sb)) (apply_writes ?ws (disk s))) = 0"
        using H(2) by (simp add: commit_writes_def disk_header_def st)
      from recover_empty [OF _ this, of dev] plen [of k] show ?thesis
        using False st unfolding finished by auto
    qed
  qed
qed

subsection \<open>The abstract view of a transaction\<close>

text \<open>
  \<open>pending lg s M\<close>: between operations, the log and the buffer cache represent the map \<open>M\<close> of the
  blocks that the open transaction has written, with their new contents. This is the specification of
  the log: \<open>log_write\<close> extends \<open>M\<close>, \<open>commit\<close> installs it on the disk and empties it.
\<close>

definition pending :: "log \<Rightarrow> storage \<Rightarrow> (nat \<Rightarrow> block option) \<Rightarrow> bool" where
  "pending lg s M \<longleftrightarrow> storage_inv s \<and> length (hdr_block (header lg)) = LOGSIZE \<and> logged_n lg \<le> LOGSIZE \<and>
     inj_on (home lg) {..<logged_n lg} \<and> dom M = home lg ` {..<logged_n lg} \<and>
     live s = (\<lambda>(d, b). if d = log_device lg then map_option (\<lambda>x. (1, x, False)) (M b) else None)"

lemma pendingD:
  assumes "pending lg s M"
  shows "storage_inv s" "length (hdr_block (header lg)) = LOGSIZE" "logged_n lg \<le> LOGSIZE"
    "inj_on (home lg) {..<logged_n lg}" "dom M = home lg ` {..<logged_n lg}"
    "\<And>b. live s (log_device lg, b) = map_option (\<lambda>x. (1, x, False)) (M b)"
    "\<And>d b. d \<noteq> log_device lg \<Longrightarrow> live s (d, b) = None"
  using assms by (auto simp: pending_def)

lemma pendingI:
  assumes "storage_inv s" "length (hdr_block (header lg)) = LOGSIZE" "logged_n lg \<le> LOGSIZE"
    "inj_on (home lg) {..<logged_n lg}" "dom M = home lg ` {..<logged_n lg}"
    "\<And>b. live s (log_device lg, b) = map_option (\<lambda>x. (1, x, False)) (M b)"
    "\<And>d b. d \<noteq> log_device lg \<Longrightarrow> live s (d, b) = None"
  shows "pending lg s M"
  using assms by (auto simp: pending_def)

lemma pending_dom:
  assumes "pending lg s M"
  shows "dom (live s) = (\<lambda>b. (log_device lg, b)) ` dom M"
proof (rule set_eqI)
  fix k :: buffer_key
  obtain d b where k: "k = (d, b)" by (cases k)
  show "k \<in> dom (live s) \<longleftrightarrow> k \<in> (\<lambda>b. (log_device lg, b)) ` dom M"
    using pendingD(6) [OF assms, of b] pendingD(7) [OF assms, of d b]
    by (cases "d = log_device lg") (auto simp: k domIff)
qed

lemma pending_card: "pending lg s M \<Longrightarrow> card (dom (live s)) = logged_n lg \<and> card (dom M) = logged_n lg"
  using card_image [OF pendingD(4)] by (simp add: pending_dom pendingD(5) card_image inj_on_def)

lemma pending_ready:
  assumes p: "pending lg s M" and n: "logged_n lg < NBUF" and out: "\<And>b. b \<in> dom M \<Longrightarrow> outside_log (log_start lg) b"
  shows "ready lg s (\<lambda>t. the (M (home lg t)))"
proof -
  have "live s (log_device lg, home lg t) = Some (1, the (M (home lg t)), False)" if "t < logged_n lg" for t
  proof -
    have "home lg t \<in> dom M" using pendingD(5) [OF p] that by blast
    then show ?thesis using pendingD(6) [OF p, of "home lg t"] by auto
  qed
  moreover have "live s (log_device lg, log_start lg + j) = None" if "j \<le> logged_n lg" for j
  proof -
    have "log_start lg + j \<notin> dom M"
      using out [of "log_start lg + j"] outside_logD [of "log_start lg" "log_start lg + j" j] that pendingD(3) [OF p] by auto
    then show ?thesis using pendingD(6) [OF p, of "log_start lg + j"] by auto
  qed
  ultimately show ?thesis
    using pendingD [OF p] pending_card [OF p] n by (simp add: ready_def)
qed


text \<open>What a system call does to one block of the file system: read it, change it, log it, drop it.\<close>

definition update_block :: "nat \<Rightarrow> (block \<Rightarrow> block) \<Rightarrow> log \<times> storage \<Rightarrow> (log \<times> storage) kernel" where
  "update_block b f = (\<lambda>(lg, s). do {
     (r, s) \<leftarrow> with_read (log_device lg) b s;
     buf \<leftarrow> r;
     let s = set_contents buf (f (contents buf s)) s;
     (lg, s) \<leftarrow> log_write buf (lg, s);
     s \<leftarrow> buffer_drop buf s;
     Some (lg, s) })"

lemma log_write_absorb:
  assumes "of_nat (block_number h) \<in> set (take (logged_n lg) (hdr_block (header lg)))"
    and "logged_n lg < LOGSIZE" "ucast (hdr_n (header lg)) < log_size lg - 1" "0 < outstanding lg"
  shows "log_write h (lg, s) = Some (lg, s)"
  using assms by (simp add: log_write_def Let_def)

lemma log_write_append:
  assumes "of_nat (block_number h) \<notin> set (take (logged_n lg) (hdr_block (header lg)))"
    and "logged_n lg < LOGSIZE" "ucast (hdr_n (header lg)) < log_size lg - 1" "0 < outstanding lg"
    and "length (hdr_block (header lg)) = LOGSIZE" and "pin h s = Some s'"
  shows "log_write h (lg, s) = Some (lg\<lparr>header := \<lparr>hdr_n = hdr_n (header lg) + 1,
    hdr_block = (hdr_block (header lg))[logged_n lg := of_nat (block_number h)]\<rparr>\<rparr>, s')"
  using assms by (simp add: log_write_def Let_def)

lemma in_logged_iff:
  assumes "b < 2 ^ 32" "logged_n lg \<le> length (hdr_block (header lg))"
  shows "of_nat b \<in> set (take (logged_n lg) (hdr_block (header lg))) \<longleftrightarrow> b \<in> home lg ` {..<logged_n lg}"
proof -
  have u: "unat (of_nat b :: u32) = b" using assms(1) by (simp add: unsigned_of_nat take_bit_nat_eq_self)
  have "set (take (logged_n lg) (hdr_block (header lg))) = (\<lambda>t. hdr_block (header lg) ! t) ` {..<logged_n lg}"
    using nth_image [OF assms(2)] by (simp add: atLeast0LessThan)
  moreover have "of_nat b = w \<longleftrightarrow> b = unat w" for w :: u32 using u by auto
  ultimately show ?thesis by (auto simp: image_iff)
qed


lemma pending_append:
  assumes p: "pending lg s M" and n: "logged_n lg < LOGSIZE" and b: "b < 2 ^ 32" "M b = None"
    and s': "storage_inv s'" "live s' = (live s)((log_device lg, b) \<mapsto> (1, y, False))"
  shows "pending (lg\<lparr>header := \<lparr>hdr_n = hdr_n (header lg) + 1,
    hdr_block = (hdr_block (header lg))[logged_n lg := of_nat b]\<rparr>\<rparr>) s' (M(b \<mapsto> y))" (is "pending ?lg _ _")
proof -
  have u: "unat (of_nat b :: u32) = b" using b(1) by (simp add: unsigned_of_nat take_bit_nat_eq_self)
  have n': "logged_n ?lg = Suc (logged_n lg)"
    using n by (simp add: config_defs unat_word_ariths(1))
  have home: "home ?lg t = (if t < logged_n lg then home lg t else b)" if "t < Suc (logged_n lg)" for t
    using that n pendingD(2) [OF p] u by (simp add: nth_list_update)
  have im: "home ?lg ` {..<logged_n ?lg} = insert b (home lg ` {..<logged_n lg})"
    unfolding n' lessThan_Suc image_insert using home by (auto simp del: unat_of_nat)
  have bout: "b \<notin> home lg ` {..<logged_n lg}" using b(2) pendingD(5) [OF p] by blast
  have "inj_on (home ?lg) {..<logged_n ?lg}"
    unfolding n'
  proof (rule inj_onI)
    fix t t' assume tt: "t \<in> {..<Suc (logged_n lg)}" "t' \<in> {..<Suc (logged_n lg)}" "home ?lg t = home ?lg t'"
    then show "t = t'"
      using home [of t] home [of t'] inj_onD [OF pendingD(4) [OF p], of t t'] bout
      by (auto split: if_splits simp: image_iff less_Suc_eq)
  qed
  moreover have "dom (M(b \<mapsto> y)) = home ?lg ` {..<logged_n ?lg}" unfolding im using pendingD(5) [OF p] by simp
  ultimately show ?thesis
    using pendingD(2,3,6,7) [OF p] s' n n' by (intro pendingI) simp_all
qed

lemma update_block_new:
  assumes p: "pending lg s M" and n: "logged_n lg < LOGSIZE" "ucast (hdr_n (header lg)) < log_size lg - 1" "logged_n lg < NBUF"
    and out: "0 < outstanding lg" and b: "b < 2 ^ 32" "M b = None" and f: "length (f (disk s b)) = BSIZE"
  shows "\<exists>lg' s'. update_block b f (lg, s) = Some (lg', s') \<and> pending lg' s' (M(b \<mapsto> f (disk s b))) \<and>
    disk s' = disk s \<and> writes s' = writes s \<and> lg' = lg\<lparr>header := header lg'\<rparr>"
proof -
  let ?k = "(log_device lg, b)" and ?y = "f (disk s b)"
  have inv: "storage_inv s" and miss: "live s ?k = None" using pendingD(1,6) [OF p] b(2) by auto
  have room: "room s" using room_card [OF inv] pending_card [OF p] n(3) by simp
  obtain h s1 where 1: "with_read (log_device lg) b s = Some (Some h, s1)" "refers s1 h ?k"
    "evolves s ?k (Some (1, disk s b, True)) s1" by (rule with_read_miss [OF inv miss room])
  note e1 = evolvesD [OF 1(3)]
  have l1: "live s1 ?k = Some (1, disk s b, True)" using e1(2) by simp
  let ?s2 = "set_contents h ?y s1"
  have 2: "evolves s1 ?k (Some (1, ?y, True)) ?s2" by (rule set_contents_spec [OF e1(1) 1(2) l1 f])
  note e2 = evolvesD [OF 2]
  have r2: "refers ?s2 h ?k" by (rule evolves_trans_refers [OF 2 1(2)])
  have "live ?s2 ?k = Some (1, ?y, True)" using e2(2) by simp
  then obtain s3 where 3: "pin h ?s2 = Some s3" "evolves ?s2 ?k (Some (Suc 1, ?y, True)) s3"
    by (rule pin_spec [OF e2(1) r2])
  note e3 = evolvesD [OF 3(2)]
  have "live s3 ?k = Some (Suc 1, ?y, True)" using e3(2) by simp
  then obtain s4 where 4: "buffer_drop h s3 = Some s4"
    "evolves s3 ?k (if Suc 1 = 1 then None else Some (Suc 1 - 1, ?y, False)) s4"
    by (rule buffer_drop_spec [OF e3(1) evolves_trans_refers [OF 3(2) r2]])
  note e4 = evolvesD [OF 4(2)]
  have hb: "block_number h = b" using r2 by (simp add: refers_def)
  have "b \<notin> home lg ` {..<logged_n lg}" using b(2) pendingD(5) [OF p] by blast
  then have "of_nat (block_number h) \<notin> set (take (logged_n lg) (hdr_block (header lg)))"
    using in_logged_iff [OF b(1), of lg] pendingD(2,3) [OF p] hb by simp
  note w = log_write_append [OF this n(1,2) out pendingD(2) [OF p] 3(1), unfolded hb]
  let ?lg = "lg\<lparr>header := \<lparr>hdr_n = hdr_n (header lg) + 1, hdr_block = (hdr_block (header lg))[logged_n lg := of_nat b]\<rparr>\<rparr>"
  have "pending ?lg s4 (M(b \<mapsto> ?y))"
    using e4 e3 e2 e1 by (intro pending_append [OF p n(1) b]) simp_all
  moreover have "update_block b f (lg, s) = Some (?lg, s4)"
    using 1(1) 4(1) w contents_live [OF e1(1) 1(2) l1] by (simp add: update_block_def)
  ultimately show ?thesis using e4 e3 e2 e1 by (intro exI [of _ ?lg] exI [of _ s4]) simp
qed

lemma update_block_absorbed:
  assumes p: "pending lg s M" and n: "logged_n lg < LOGSIZE" "ucast (hdr_n (header lg)) < log_size lg - 1"
    and out: "0 < outstanding lg" and b: "b < 2 ^ 32" "M b = Some x" and f: "length (f x) = BSIZE"
  shows "\<exists>s'. update_block b f (lg, s) = Some (lg, s') \<and> pending lg s' (M(b \<mapsto> f x)) \<and>
    disk s' = disk s \<and> writes s' = writes s"
proof -
  let ?k = "(log_device lg, b)" and ?y = "f x"
  have inv: "storage_inv s" and hit: "live s ?k = Some (1, x, False)" using pendingD(1,6) [OF p] b(2) by auto
  obtain h s1 where 1: "with_read (log_device lg) b s = Some (Some h, s1)" "refers s1 h ?k"
    "evolves s ?k (Some (Suc 1, x, True)) s1" by (rule with_read_hit [OF inv hit])
  note e1 = evolvesD [OF 1(3)]
  have l1: "live s1 ?k = Some (Suc 1, x, True)" using e1(2) by simp
  let ?s2 = "set_contents h ?y s1"
  have 2: "evolves s1 ?k (Some (Suc 1, ?y, True)) ?s2" by (rule set_contents_spec [OF e1(1) 1(2) l1 f])
  note e2 = evolvesD [OF 2]
  have r2: "refers ?s2 h ?k" by (rule evolves_trans_refers [OF 2 1(2)])
  have "live ?s2 ?k = Some (Suc 1, ?y, True)" using e2(2) by simp
  then obtain s4 where 4: "buffer_drop h ?s2 = Some s4"
    "evolves ?s2 ?k (if Suc 1 = 1 then None else Some (Suc 1 - 1, ?y, False)) s4"
    by (rule buffer_drop_spec [OF e2(1) r2])
  note e4 = evolvesD [OF 4(2)]
  have hb: "block_number h = b" using r2 by (simp add: refers_def)
  have bin: "b \<in> home lg ` {..<logged_n lg}" using b(2) pendingD(5) [OF p] by blast
  then have "of_nat (block_number h) \<in> set (take (logged_n lg) (hdr_block (header lg)))"
    using in_logged_iff [OF b(1), of lg] pendingD(2,3) [OF p] hb by simp
  note w = log_write_absorb [OF this n out]
  have "pending lg s4 (M(b \<mapsto> ?y))"
    using pendingD [OF p] e4 e2 e1 bin by (intro pendingI) auto
  moreover have "update_block b f (lg, s) = Some (lg, s4)"
    using 1(1) 4(1) w contents_live [OF e1(1) 1(2) l1] by (simp add: update_block_def)
  ultimately show ?thesis using e4 e2 e1 by simp
qed


lemma log_commit_empty:
  "hdr_n (header lg) = 0 \<Longrightarrow> log_commit (lg, s) = Some (lg\<lparr>committing := False\<rparr>, s)"
  by (simp add: log_commit_def Let_def)

lemma log_commit_pending:
  assumes p: "pending lg s M" and n: "logged_n lg < NBUF" "0 < hdr_n (header lg)"
    and out: "\<And>b. b \<in> dom M \<Longrightarrow> outside_log (log_start lg) b"
  shows "\<exists>s' H H0.
    log_commit (lg, s) = Some (lg\<lparr>committing := False, header := (header lg)\<lparr>hdr_n := 0\<rparr>\<rparr>, s') \<and>
    writes s' = writes s @ commit_writes lg (\<lambda>t. the (M (home lg t))) H H0 \<and>
    disk s' = apply_writes (commit_writes lg (\<lambda>t. the (M (home lg t))) H H0) (disk s) \<and>
    pending (lg\<lparr>committing := False, header := (header lg)\<lparr>hdr_n := 0\<rparr>\<rparr>) s' Map.empty \<and>
    bytes_header H = header lg \<and> bytes_header H0 = (header lg)\<lparr>hdr_n := 0\<rparr> \<and> length H = BSIZE \<and> length H0 = BSIZE \<and>
    (\<forall>b. outside_log (log_start lg) b \<longrightarrow> disk s' b = (case M b of Some x \<Rightarrow> x | None \<Rightarrow> disk s b)) \<and>
    disk s' (log_start lg) = H0"
proof -
  let ?X = "\<lambda>t. the (M (home lg t))" and ?n = "logged_n lg"
  let ?lg = "lg\<lparr>committing := False, header := (header lg)\<lparr>hdr_n := 0\<rparr>\<rparr>"
  have ready: "ready lg s ?X" by (rule pending_ready [OF p n(1) out])
  obtain s' H H0 where c: "log_commit (lg, s) = Some (?lg, s')"
    "does s (commit_writes lg ?X H H0) (\<lambda>k. if \<exists>t<?n. k = (log_device lg, home lg t) then None else live s k) s'"
    "bytes_header H = header lg" "bytes_header H0 = (header lg)\<lparr>hdr_n := 0\<rparr>" "length H = BSIZE" "length H0 = BSIZE"
    using log_commit_does [OF ready n(2)] by blast
  note d = c(2) [unfolded does_def]
  have none: "live s' k = None" for k
  proof (cases "\<exists>t<?n. k = (log_device lg, home lg t)")
    case False
    then have "k \<notin> dom (live s)" unfolding pending_dom [OF p] pendingD(5) [OF p] by auto
    then show ?thesis using d False by auto
  qed (use d in simp)
  have "pending ?lg s' Map.empty" using pendingD [OF p] d none by (intro pendingI) simp_all
  moreover have "disk s' b = (case M b of Some x \<Rightarrow> x | None \<Rightarrow> disk s b)" if o: "outside_log (log_start lg) b" for b
  proof -
    have "log_start lg + t + 1 \<noteq> b" if "t < ?n" for t
      using outside_logD [OF o, of "t + 1"] that readyD(3) [OF ready] by simp
    then have e: "disk s' b = apply_writes (map (\<lambda>t. (home lg t, ?X t)) [0..<?n]) (disk s) b"
      using d outside_log_start [OF o]
      by (simp add: commit_writes_def apply_writes_map [OF pendingD(4) [OF p]] apply_writes_other [OF not_written])
    show ?thesis
    proof (cases "M b")
      case None
      then have "b \<notin> home lg ` {..<?n}" using pendingD(5) [OF p] by blast
      then show ?thesis using e None by (simp add: apply_writes_map [OF pendingD(4) [OF p]])
    next
      case (Some x)
      then obtain t where "t < ?n" "b = home lg t" using pendingD(5) [OF p] by blast
      then show ?thesis using e Some apply_writes_map_at [OF pendingD(4) [OF p], of t ?X] by simp
    qed
  qed
  moreover have "disk s' (log_start lg) = H0" using d by (simp add: commit_writes_def)
  ultimately show ?thesis using c d by blast
qed

subsection \<open>The interface of a transaction\<close>

text \<open>
  What the file system relies on: a transaction is opened on an idle store, a bounded number of
  block updates is made in it, and closing it leaves an idle store in which the updates have been
  made. A block is read, updated and written as if on the disk directly.
\<close>

fun direct :: "(nat \<times> ('b \<Rightarrow> 'b)) list \<Rightarrow> (nat \<Rightarrow> 'b) \<Rightarrow> nat \<Rightarrow> 'b" where
  "direct [] d = d"
| "direct ((b, f) # us) d = direct us (d(b := f (d b)))"

locale transactional =
  fixes idle :: "'st \<Rightarrow> (nat \<Rightarrow> 'b) \<Rightarrow> bool"
    and active :: "'st \<Rightarrow> nat \<Rightarrow> (nat \<Rightarrow> 'b option) \<Rightarrow> (nat \<Rightarrow> 'b) \<Rightarrow> bool"
    and cap :: nat
    and ok_block :: "nat \<Rightarrow> bool"
    and ok_data :: "'b \<Rightarrow> bool"
    and start :: "'st \<Rightarrow> 'st blocking"
    and update :: "nat \<Rightarrow> ('b \<Rightarrow> 'b) \<Rightarrow> 'st \<Rightarrow> 'st kernel"
    and finish :: "'st \<Rightarrow> 'st kernel"
  assumes start_law: "idle st d \<Longrightarrow> \<exists>st'. start st = Done st' \<and> active st' cap Map.empty d"
    and update_law: "active st (Suc c) M d \<Longrightarrow> ok_block b \<Longrightarrow> (\<And>x. ok_data x \<Longrightarrow> ok_data (f x)) \<Longrightarrow>
      \<exists>st'. update b f st = Some st' \<and> active st' c (M(b \<mapsto> f (case M b of Some x \<Rightarrow> x | None \<Rightarrow> d b))) d"
    and finish_law: "active st c M d \<Longrightarrow> \<exists>st'. finish st = Some st' \<and> idle st' (\<lambda>b. case M b of Some x \<Rightarrow> x | None \<Rightarrow> d b)"
begin

lemma updates:
  assumes "active st (length us + c) M d" and "\<forall>(b, f) \<in> set us. ok_block b \<and> (\<forall>x. ok_data x \<longrightarrow> ok_data (f x))"
  shows "\<exists>st' M'. for_each (\<lambda>(b, f). update b f) us st = Some st' \<and> active st' c M' d \<and>
    (\<lambda>b. case M' b of Some x \<Rightarrow> x | None \<Rightarrow> d b) = direct us (\<lambda>b. case M b of Some x \<Rightarrow> x | None \<Rightarrow> d b)"
  using assms
proof (induction us arbitrary: st M)
  case (Cons u us)
  obtain b f where u: "u = (b, f)" by (cases u)
  let ?x = "f (case M b of Some x \<Rightarrow> x | None \<Rightarrow> d b)"
  obtain st1 where 1: "update b f st = Some st1" "active st1 (length us + c) (M(b \<mapsto> ?x)) d"
    using update_law [of st "length us + c" M d b f] Cons.prems u by auto
  have "(\<lambda>c. case (M(b \<mapsto> ?x)) c of Some x \<Rightarrow> x | None \<Rightarrow> d c) = (\<lambda>c. case M c of Some x \<Rightarrow> x | None \<Rightarrow> d c)(b := ?x)"
    by (auto simp: fun_eq_iff)
  then show ?case using Cons.IH [OF 1(2)] Cons.prems(2) 1(1) u by auto
qed auto

lemma transaction:
  assumes "idle st d" and "length us \<le> cap" and "\<forall>(b, f) \<in> set us. ok_block b \<and> (\<forall>x. ok_data x \<longrightarrow> ok_data (f x))"
  shows "\<exists>st1 st2 st3. start st = Done st1 \<and> for_each (\<lambda>(b, f). update b f) us st1 = Some st2 \<and>
    finish st2 = Some st3 \<and> idle st3 (direct us d)"
proof -
  obtain st1 where 1: "start st = Done st1" "active st1 cap Map.empty d" using start_law [OF assms(1)] by blast
  obtain st2 M where 2: "for_each (\<lambda>(b, f). update b f) us st1 = Some st2" "active st2 (cap - length us) M d"
    "(\<lambda>b. case M b of Some x \<Rightarrow> x | None \<Rightarrow> d b) = direct us d"
    using updates [of st1 us "cap - length us" Map.empty d] 1(2) assms(2,3) by auto
  then show ?thesis using 1(1) finish_law [OF 2(2)] by auto
qed

end


definition log_idle :: "nat \<Rightarrow> log \<times> storage \<Rightarrow> (nat \<Rightarrow> block) \<Rightarrow> bool" where
  "log_idle start st d \<longleftrightarrow> (case st of (lg, s) \<Rightarrow>
     pending lg s Map.empty \<and> log_start lg = start \<and> outstanding lg = 0 \<and> \<not> committing lg \<and>
     of_nat MAXOPBLOCKS \<le> log_size lg - 1 \<and> hdr_n (disk_header start (disk s)) = 0 \<and>
     (\<forall>b. outside_log start b \<longrightarrow> disk s b = d b))"

definition log_active :: "nat \<Rightarrow> log \<times> storage \<Rightarrow> nat \<Rightarrow> (nat \<Rightarrow> block option) \<Rightarrow> (nat \<Rightarrow> block) \<Rightarrow> bool" where
  "log_active start st c M d \<longleftrightarrow> (case st of (lg, s) \<Rightarrow>
     pending lg s M \<and> log_start lg = start \<and> outstanding lg = 1 \<and> \<not> committing lg \<and> logged_n lg + c \<le> MAXOPBLOCKS \<and>
     of_nat MAXOPBLOCKS \<le> log_size lg - 1 \<and> hdr_n (disk_header start (disk s)) = 0 \<and>
     (\<forall>b \<in> dom M. outside_log start b) \<and> (\<forall>b. outside_log start b \<longrightarrow> disk s b = d b))"

lemma pending_empty_n: "pending lg s Map.empty \<Longrightarrow> hdr_n (header lg) = 0"
  using pendingD(5) [of lg s Map.empty] by (simp add: lessThan_empty_iff unat_eq_0)

lemma log_size_room:
  assumes "of_nat MAXOPBLOCKS \<le> (z :: usize)" and "unat (n :: u32) < MAXOPBLOCKS"
  shows "ucast n < z"
proof -
  have "unat (ucast n :: usize) = unat n" by (rule unat_ucast_u32)
  moreover have "unat (of_nat MAXOPBLOCKS :: usize) = MAXOPBLOCKS" by (simp add: config_defs)
  ultimately show ?thesis using assms by (simp add: word_less_nat_alt word_le_nat_alt)
qed

lemma pending_outstanding: "pending (lg\<lparr>outstanding := k\<rparr>) s M = pending lg s M"
  by (simp add: pending_def)

lemma log_enter_idle:
  assumes "log_idle start st d"
  shows "\<exists>st'. log_enter st = Done st' \<and> log_active start st' MAXOPBLOCKS Map.empty d"
proof -
  obtain lg s where st: "st = (lg, s)" by (cases st)
  have n: "hdr_n (header lg) = 0" using assms pending_empty_n by (auto simp: log_idle_def st)
  have "log_enter st = Done (lg\<lparr>outstanding := 1\<rparr>, s)"
    using assms n by (simp add: log_enter_def log_begin_def is_full_def st log_idle_def config_defs)
  then show ?thesis
    using assms n by (simp add: log_active_def log_idle_def st pending_outstanding)
qed

lemma update_block_active:
  assumes act: "log_active start st (Suc c) M d" and b: "outside_log start b \<and> b < 2 ^ 32"
    and f: "\<And>x. length x = BSIZE \<Longrightarrow> length (f x) = BSIZE"
  shows "\<exists>st'. update_block b f st = Some st' \<and> log_active start st' c (M(b \<mapsto> f (case M b of Some x \<Rightarrow> x | None \<Rightarrow> d b))) d"
proof -
  obtain lg s where st: "st = (lg, s)" by (cases st)
  have p: "pending lg s M" and n: "logged_n lg + Suc c \<le> MAXOPBLOCKS" and o: "outstanding lg = 1"
    and z: "of_nat MAXOPBLOCKS \<le> log_size lg - 1" and d: "disk s b = d b"
    using act b by (auto simp: log_active_def st)
  have lim: "logged_n lg < LOGSIZE" "logged_n lg < NBUF" using n by (simp_all add: config_defs)
  have size: "ucast (hdr_n (header lg)) < log_size lg - 1" using log_size_room [OF z] n by simp
  show ?thesis
  proof (cases "M b")
    case None
    have "length (f (disk s b)) = BSIZE" using f storage_invD(5) [OF pendingD(1) [OF p]] by blast
    from update_block_new [of lg s M b f, OF p lim(1) size lim(2) _ _ None this] b o
    obtain lg' s' where u: "update_block b f st = Some (lg', s')" "pending lg' s' (M(b \<mapsto> f (disk s b)))"
      "disk s' = disk s" "lg' = lg\<lparr>header := header lg'\<rparr>" by (auto simp: st)
    have "finite (dom M)" unfolding pendingD(5) [OF p] by simp
    then have "card (dom (M(b \<mapsto> f (disk s b)))) = Suc (card (dom M))" using None by (simp add: domIff)
    then have "logged_n lg' = Suc (logged_n lg)" using pending_card [OF u(2)] pending_card [OF p] by metis
    moreover have "log_start lg' = log_start lg" "outstanding lg' = outstanding lg" "committing lg' = committing lg"
      "log_size lg' = log_size lg" by (subst u(4), simp)+
    ultimately have "log_active start (lg', s') c (M(b \<mapsto> f (disk s b))) d"
      using act b u(2,3) n by (simp add: log_active_def st)
    then show ?thesis using u(1) None d by (auto simp: st)
  next
    case (Some x)
    have "live s (log_device lg, b) = Some (1, x, False)" using pendingD(6) [OF p] Some by simp
    then have "length (f x) = BSIZE" using f live_length [OF pendingD(1) [OF p]] by blast
    from update_block_absorbed [of lg s M b x f, OF p lim(1) size _ _ Some this] b o
    obtain s' where u: "update_block b f st = Some (lg, s')" "pending lg s' (M(b \<mapsto> f x))" "disk s' = disk s"
      by (auto simp: st)
    then have "log_active start (lg, s') c (M(b \<mapsto> f x)) d" using act b by (simp add: log_active_def st)
    then show ?thesis using u(1) Some by (auto simp: st)
  qed
qed

lemma log_end_active:
  assumes act: "log_active start st c M d"
  shows "\<exists>st'. log_end st = Some st' \<and> log_idle start st' (\<lambda>b. case M b of Some x \<Rightarrow> x | None \<Rightarrow> d b)"
proof -
  obtain lg s where st: "st = (lg, s)" by (cases st)
  let ?lg = "lg\<lparr>outstanding := 0\<rparr>"
  have a: "pending lg s M" "log_start lg = start" "outstanding lg = 1" "\<not> committing lg"
    "logged_n lg + c \<le> MAXOPBLOCKS" "\<And>b. b \<in> dom M \<Longrightarrow> outside_log start b" "\<And>b. outside_log start b \<Longrightarrow> disk s b = d b"
    using act by (auto simp: log_active_def st)
  have e: "log_end st = log_commit (?lg, s)" using a by (simp add: log_end_def st)
  show ?thesis
  proof (cases "hdr_n (header lg) = 0")
    case True
    then have "M = Map.empty" using pendingD(5) [OF a(1)] by simp
    then show ?thesis
      using act e log_commit_empty [of ?lg s] True by (simp add: log_active_def log_idle_def st pending_def)
  next
    case False
    then have n: "0 < hdr_n (header ?lg)" "logged_n ?lg < NBUF" using a(5) by (simp_all add: word_gt_0 config_defs)
    have p: "pending ?lg s M" using a(1) by (simp add: pending_outstanding)
    have out: "\<And>b. b \<in> dom M \<Longrightarrow> outside_log (log_start ?lg) b" using a(2,6) by simp
    let ?lg' = "?lg\<lparr>committing := False, header := (header ?lg)\<lparr>hdr_n := 0\<rparr>\<rparr>"
    from log_commit_pending [OF p n(2,1) out]
    obtain s' H0 where c: "log_commit (?lg, s) = Some (?lg', s')" "pending ?lg' s' Map.empty"
      "bytes_header H0 = (header ?lg)\<lparr>hdr_n := 0\<rparr>" "disk s' (log_start ?lg) = H0"
      "\<And>b. outside_log (log_start ?lg) b \<Longrightarrow> disk s' b = (case M b of Some x \<Rightarrow> x | None \<Rightarrow> disk s b)"
      by blast
    have "disk s' b = (case M b of Some x \<Rightarrow> x | None \<Rightarrow> d b)" if "outside_log start b" for b
      using c(5) [of b] a(2,7) that by (simp split: option.split)
    then have "log_idle start (?lg', s') (\<lambda>b. case M b of Some x \<Rightarrow> x | None \<Rightarrow> d b)"
      using act c(2-4) by (simp add: log_idle_def log_active_def st disk_header_def)
    then show ?thesis using e c(1) by auto
  qed
qed

interpretation txn: transactional "log_idle start" "log_active start" MAXOPBLOCKS
  "\<lambda>b. outside_log start b \<and> b < 2 ^ 32" "\<lambda>x. length x = BSIZE" log_enter update_block log_end for start
  by unfold_locales (rule log_enter_idle update_block_active log_end_active; assumption)+


subsection \<open>Admission of concurrent operations\<close>

text \<open>
  Several system calls share one transaction. \<open>R p = Some k\<close> says that process \<open>p\<close> is inside
  \<open>log::with\<close> and may still log \<open>k\<close> blocks; an operation may log at most \<open>MAXOPBLOCKS\<close>. Other
  file system activity may change the buffers between these steps.
\<close>

inductive op_step :: "(log \<times> storage) \<times> (nat \<Rightarrow> nat option) \<Rightarrow> (log \<times> storage) \<times> (nat \<Rightarrow> nat option) \<Rightarrow> bool" where
  op_begin: "p < NPROC \<Longrightarrow> R p = None \<Longrightarrow> log_enter st = Done st' \<Longrightarrow> op_step (st, R) (st', R(p \<mapsto> MAXOPBLOCKS))"
| op_write: "p < NPROC \<Longrightarrow> R p = Some (Suc k) \<Longrightarrow> log_write b st = Some st' \<Longrightarrow> op_step (st, R) (st', R(p \<mapsto> k))"
| op_end: "p < NPROC \<Longrightarrow> R p = Some k \<Longrightarrow> log_end st = Some st' \<Longrightarrow> op_step (st, R) (st', R(p := None))"
| op_buffers: "op_step ((lg, s), R) ((lg, s'), R)"

inductive_cases op_stepE: "op_step x y"

definition budget :: "(nat \<Rightarrow> nat option) \<Rightarrow> nat" where
  "budget R = (\<Sum>p<NPROC. case R p of None \<Rightarrow> 0 | Some k \<Rightarrow> k)"

definition active_ops :: "(nat \<Rightarrow> nat option) \<Rightarrow> nat" where
  "active_ops R = card {p. p < NPROC \<and> R p \<noteq> None}"

definition admission_inv :: "log \<Rightarrow> (nat \<Rightarrow> nat option) \<Rightarrow> bool" where
  "admission_inv lg R \<longleftrightarrow> \<not> committing lg \<and> unat (outstanding lg) = active_ops R \<and>
     (\<forall>p k. R p = Some k \<longrightarrow> k \<le> MAXOPBLOCKS) \<and> logged_n lg + budget R \<le> LOGSIZE"

lemma budget_upd:
  assumes "p < NPROC"
  shows "budget (R(p := v)) + (case R p of None \<Rightarrow> 0 | Some k \<Rightarrow> k) = budget R + (case v of None \<Rightarrow> 0 | Some k \<Rightarrow> k)"
proof -
  have split: "budget S = (case S p of None \<Rightarrow> 0 | Some k \<Rightarrow> k) + (\<Sum>q\<in>{..<NPROC} - {p}. case S q of None \<Rightarrow> 0 | Some k \<Rightarrow> k)" for S
    unfolding budget_def using assms by (intro sum.remove) auto
  have "(\<Sum>q\<in>{..<NPROC} - {p}. case (R(p := v)) q of None \<Rightarrow> 0 | Some k \<Rightarrow> k) =
    (\<Sum>q\<in>{..<NPROC} - {p}. case R q of None \<Rightarrow> 0 | Some k \<Rightarrow> k)" by (rule sum.cong) auto
  then show ?thesis using split [of "R(p := v)"] split [of R] by simp
qed

lemma active_ops_upd:
  assumes "p < NPROC"
  shows "active_ops (R(p := v)) + (if R p = None then 0 else 1) = active_ops R + (if v = None then 0 else 1)"
proof -
  let ?A = "{q. q < NPROC \<and> q \<noteq> p \<and> R q \<noteq> None}"
  have "active_ops S = card ?A + (if S p = None then 0 else 1)" if "\<And>q. q \<noteq> p \<Longrightarrow> S q = R q" for S
  proof (cases "S p = None")
    case True
    then have "{q. q < NPROC \<and> S q \<noteq> None} = ?A" using that by auto (metis option.distinct(1))
    then show ?thesis using True by (simp add: active_ops_def)
  next
    case False
    then have "{q. q < NPROC \<and> S q \<noteq> None} = insert p ?A" using that assms by auto
    then show ?thesis using False by (simp add: active_ops_def)
  qed
  from this [of R] this [of "R(p := v)"] show ?thesis by simp
qed

lemma budget_le:
  assumes "\<forall>p k. R p = Some k \<longrightarrow> k \<le> MAXOPBLOCKS"
  shows "budget R \<le> active_ops R * MAXOPBLOCKS"
proof -
  let ?A = "{p. p < NPROC \<and> R p \<noteq> None}"
  have "budget R = (\<Sum>p\<in>?A. case R p of None \<Rightarrow> 0 | Some k \<Rightarrow> k)"
    unfolding budget_def by (rule sum.mono_neutral_right) auto
  also have "\<dots> \<le> (\<Sum>p\<in>?A. MAXOPBLOCKS)" using assms by (intro sum_mono) (auto split: option.split)
  finally show ?thesis by (simp add: active_ops_def)
qed

lemma not_full_nat:
  assumes "\<not> is_full lg" and "unat (outstanding lg) \<le> NPROC" and "logged_n lg \<le> LOGSIZE"
  shows "logged_n lg + (unat (outstanding lg) + 1) * MAXOPBLOCKS \<le> LOGSIZE"
proof -
  let ?n = "ucast (hdr_n (header lg)) :: usize"
  have n: "unat ?n = logged_n lg" by (rule unat_ucast_u32)
  have "unat (?n + (outstanding lg + 1) * of_nat MAXOPBLOCKS) = logged_n lg + (unat (outstanding lg) + 1) * MAXOPBLOCKS"
    using assms(2,3) n by (simp add: unat_word_ariths config_defs)
  moreover have "unat (of_nat LOGSIZE :: usize) = LOGSIZE" by (simp add: config_defs)
  ultimately show ?thesis using assms(1) by (simp add: is_full_def word_less_nat_alt not_less)
qed

lemma log_commit_fields:
  assumes "log_commit (lg, s) = Some (lg', s')"
  shows "\<not> committing lg' \<and> outstanding lg' = outstanding lg \<and> hdr_n (header lg') = 0 \<and> log_size lg' = log_size lg"
  using assms by (auto simp: log_commit_def install_blocks_def Let_def word_gt_0 kernel_simps split: if_splits)

lemma log_write_fields:
  assumes "log_write b (lg, s) = Some (lg', s')"
  shows "committing lg' = committing lg \<and> outstanding lg' = outstanding lg \<and> log_size lg' = log_size lg \<and>
    logged_n lg' \<le> Suc (logged_n lg)"
  using assms by (auto simp: log_write_def Let_def kernel_simps unat_word_ariths config_defs split: if_splits)


lemma admission_inv_step:
  assumes step: "op_step ((lg, s), R) ((lg', s'), R')" and inv: "admission_inv lg R"
  shows "admission_inv lg' R'" "log_size lg' = log_size lg"
proof -
  have i: "\<not> committing lg" "unat (outstanding lg) = active_ops R" "\<forall>p k. R p = Some k \<longrightarrow> k \<le> MAXOPBLOCKS"
    "logged_n lg + budget R \<le> LOGSIZE" using inv by (auto simp: admission_inv_def)
  have act: "active_ops R \<le> NPROC" unfolding active_ops_def
    using card_mono [of "{..<NPROC}" "{p. p < NPROC \<and> R p \<noteq> None}"] by auto
  have "admission_inv lg' R' \<and> log_size lg' = log_size lg"
    using step
  proof (cases rule: op_step.cases)
    case (op_begin p)
    then have lg': "lg' = lg\<lparr>outstanding := outstanding lg + 1\<rparr>" and nf: "\<not> is_full lg"
      by (auto simp: log_enter_def log_begin_def split: if_splits)
    have "logged_n lg + (active_ops R + 1) * MAXOPBLOCKS \<le> LOGSIZE"
      using not_full_nat [OF nf] i act by simp
    moreover have "unat (outstanding lg + 1) = Suc (active_ops R)"
      using i(2) act by (simp add: unat_word_ariths config_defs)
    ultimately show ?thesis
      using op_begin i budget_upd [OF op_begin(2), of R "Some MAXOPBLOCKS"] budget_le [OF i(3)]
        active_ops_upd [OF op_begin(2), of R "Some MAXOPBLOCKS"]
      by (auto simp: admission_inv_def lg')
  next
    case (op_write p k b)
    then have w: "committing lg' = committing lg" "outstanding lg' = outstanding lg" "log_size lg' = log_size lg"
      "logged_n lg' \<le> Suc (logged_n lg)" using log_write_fields [of b lg s lg' s'] by auto
    have "k \<le> MAXOPBLOCKS" using i(3) op_write(3) by (metis Suc_leD)
    then show ?thesis
      using w i op_write budget_upd [OF op_write(2), of R "Some k"] active_ops_upd [OF op_write(2), of R "Some k"]
      by (auto simp: admission_inv_def)
  next
    case (op_end p k)
    have o: "unat (outstanding lg - 1) = active_ops R - 1" "0 < active_ops R"
      using i(2) active_ops_upd [OF op_end(2), of R None] op_end(3) by (auto simp: unat_sub_if' unat_eq_0)
    have "\<not> committing lg' \<and> outstanding lg' = outstanding lg - 1 \<and> logged_n lg' \<le> logged_n lg \<and> log_size lg' = log_size lg"
      using op_end(4) log_commit_fields [of "lg\<lparr>outstanding := outstanding lg - 1\<rparr>" s lg' s'] i(1)
      by (auto simp: log_end_def Let_def split: if_splits)
    then show ?thesis
      using i o op_end budget_upd [OF op_end(2), of R None] active_ops_upd [OF op_end(2), of R None]
      by (auto simp: admission_inv_def)
  next
    case op_buffers
    then show ?thesis using inv by simp
  qed
  then show "admission_inv lg' R'" "log_size lg' = log_size lg" by auto
qed

lemma admission_inv_reachable:
  assumes "op_step\<^sup>*\<^sup>* ((lg, s), R) x" and "admission_inv lg R"
  shows "admission_inv (fst (fst x)) (snd x) \<and> log_size (fst (fst x)) = log_size lg"
  using assms
proof (induction rule: rtranclp_induct)
  case (step y z)
  then show ?case
    using admission_inv_step [of "fst (fst y)" "snd (fst y)" "snd y" "fst (fst z)" "snd (fst z)" "snd z"] by simp
qed simp

lemma log_write_admitted:
  assumes inv: "admission_inv lg R" and p: "p < NPROC" "R p = Some (Suc k)"
    and size: "of_nat LOGSIZE \<le> log_size lg - 1" and len: "length (hdr_block (header lg)) = LOGSIZE"
    and b: "storage_inv s" "refers s b key"
  shows "log_write b (lg, s) \<noteq> None"
proof -
  have "budget (R(p := None)) + Suc k = budget R" using budget_upd [OF p(1), of R None] p(2) by simp
  then have n: "logged_n lg < LOGSIZE" using inv by (simp add: admission_inv_def)
  have "unat (outstanding lg) = active_ops R" using inv by (simp add: admission_inv_def)
  moreover have "active_ops R > 0" using active_ops_upd [OF p(1), of R None] p(2) by simp
  ultimately have o: "0 < outstanding lg" by (cases "outstanding lg = 0") (auto simp: word_gt_0)
  have "unat (ucast (hdr_n (header lg)) :: usize) = logged_n lg" by (rule unat_ucast_u32)
  moreover have "unat (of_nat LOGSIZE :: usize) = LOGSIZE" by (simp add: config_defs)
  ultimately have z: "ucast (hdr_n (header lg)) < log_size lg - 1"
    using n size by (simp add: word_less_nat_alt word_le_nat_alt)
  obtain n where "rc_slot (cache s) (cache_index b) = Some (key, n)" using b(2) by (auto simp: refers_def)
  then obtain x h where "live s key = Some (n, x, h)" using live_slot [OF b(1)] by blast
  then obtain s' where s': "pin b s = Some s'" using pin_spec [OF b] by blast
  show ?thesis
  proof (cases "of_nat (block_number b) \<in> set (take (logged_n lg) (hdr_block (header lg)))")
    case True
    then show ?thesis using log_write_absorb [OF True n z o] by simp
  next
    case False
    then show ?thesis using log_write_append [OF False n z o len s'] by simp
  qed
qed


lemma recovery_prefix:
  assumes rec: "recoverable start d" and j: "dk = apply_writes (take j (recovery_writes start d)) d"
  shows "recoverable start dk" "recovery_writes start dk = recovery_writes start d"
proof -
  let ?rw = "recovery_writes start d" and ?h = "disk_header start d"
  have out: "unat (hdr_block ?h ! t) \<noteq> start + i" if "t < unat (hdr_n ?h)" "i \<le> LOGSIZE" for t i
    using rec that by (simp add: recoverable_def Let_def)
  have lim: "unat (hdr_n ?h) \<le> LOGSIZE" using rec by (simp add: recoverable_def Let_def)
  have keep: "dk (start + i) = d (start + i)" if "i \<le> LOGSIZE" for i
  proof -
    have "start + i \<notin> fst ` set ?rw"
      unfolding recovery_writes_def Let_def using out that by (intro not_written) blast
    then have "start + i \<notin> fst ` set (take j ?rw)" by (meson image_mono set_take_subset subsetD)
    then show ?thesis unfolding j by (rule apply_writes_other)
  qed
  have hd: "disk_header start dk = ?h" using keep [of 0] by (simp add: disk_header_def)
  show "recovery_writes start dk = ?rw"
    unfolding recovery_writes_def hd Let_def using keep [of "Suc _"] lim by (intro map_cong refl) simp
  have "length (dk b) = BSIZE" for b
    unfolding j using rec
    by (intro apply_writes_length) (auto simp: recoverable_def recovery_writes_def Let_def dest!: in_set_takeD)
  then show "recoverable start dk" using rec by (simp add: recoverable_def hd)
qed

text \<open>A blank disk and the log that \<open>initialize\<close> sets up for it, with an operation under way.\<close>

definition blank :: "nat \<Rightarrow> block" where
  "blank = (\<lambda>_. replicate BSIZE 0)"

definition blank_log :: "usize \<Rightarrow> usize \<Rightarrow> log" where
  "blank_log nl ops = log_new\<lparr>log_start := 2, log_size := nl, log_device := 1, outstanding := ops\<rparr>"

lemma blank_header: "hdr_n (disk_header start blank) = 0"
proof -
  have "subrange 0 4 (replicate BSIZE (0 :: u8)) = [0, 0, 0, 0]"
    by (simp add: subrange_def BSIZE_def eval_nat_numeral)
  then show ?thesis by (simp add: disk_header_def blank_def bytes_header_def)
qed

lemma blank_pending: "pending (blank_log nl ops) (storage_new blank) Map.empty"
  by (rule pendingI) (simp_all add: storage_inv_new blank_def live_new blank_log_def log_new_def header_empty_def)

lemma blank_idle: "of_nat MAXOPBLOCKS \<le> nl - 1 \<Longrightarrow> log_idle 2 (blank_log nl 0, storage_new blank) blank"
  using blank_pending blank_header
  by (simp add: log_idle_def blank_log_def log_new_def storage_new_def)

text \<open>Logging \<open>m\<close> different blocks on the blank disk.\<close>

lemma blank_fill:
  assumes "0 < ops" and "m < LOGSIZE" and "of_nat m \<le> nl - 1"
  shows "\<exists>lg s M. for_each (\<lambda>b. update_block b id) [0..<m] (blank_log nl ops, storage_new blank) = Some (lg, s) \<and>
    pending lg s M \<and> dom M = {..<m} \<and> log_size lg = nl \<and> outstanding lg = ops \<and>
    log_start lg = 2 \<and> disk s = blank"
  using assms(2,3)
proof (induction m)
  case 0
  show ?case using blank_pending [of nl ops] by (auto simp: blank_log_def storage_new_def)
next
  case (Suc m)
  have m: "unat (of_nat m :: usize) = m" "unat (of_nat (Suc m) :: usize) = Suc m"
    using Suc.prems(1) by (auto simp: config_defs simp del: of_nat_Suc intro!: unat_of_nat_usize)
  then have le: "of_nat m \<le> nl - 1" using Suc.prems(2) by (simp add: word_le_nat_alt)
  obtain lg s M where 1: "for_each (\<lambda>b. update_block b id) [0..<m] (blank_log nl ops, storage_new blank) = Some (lg, s)"
    "pending lg s M" "dom M = {..<m}" and f: "log_size lg = nl" "outstanding lg = ops" "log_start lg = 2" "disk s = blank"
    using Suc.IH [OF Suc_lessD [OF Suc.prems(1)] le] by blast
  have n: "logged_n lg = m" using pending_card [OF 1(2)] 1(3) by simp
  have z: "ucast (hdr_n (header lg)) < log_size lg - 1"
    using n m Suc.prems(2) f by (simp add: word_less_nat_alt word_le_nat_alt unat_ucast_u32 del: of_nat_Suc)
  have "M m = None" using 1(3) by auto
  moreover have "length (id (disk s m)) = BSIZE" using storage_invD(5) [OF pendingD(1) [OF 1(2)]] by simp
  ultimately obtain lg' s' where u: "update_block m id (lg, s) = Some (lg', s')" "pending lg' s' (M(m \<mapsto> id (disk s m)))" "disk s' = disk s"
    and lg': "lg' = lg\<lparr>header := header lg'\<rparr>"
    using update_block_new [OF 1(2) _ z, of m id] n Suc.prems(1) f assms(1) by (auto simp: config_defs)
  have "dom (M(m \<mapsto> id (disk s m))) = {..<Suc m}" using 1(3) by auto
  moreover have g: "log_size lg' = nl" "outstanding lg' = ops" "log_start lg' = 2"
    by (subst lg', simp add: f)+
  moreover have "for_each (\<lambda>b. update_block b id) [0..<Suc m] (blank_log nl ops, storage_new blank) = Some (lg', s')"
    unfolding for_each_upt_Suc using 1(1) u(1) by simp
  ultimately show ?case
    using u(2,3) f(4) by (intro exI [of _ lg'] exI [of _ s'] exI [of _ "M(m \<mapsto> id (disk s m))"] conjI) (simp_all only:)
qed

subsection \<open>Properties\<close>




definition blank_sb :: superblock where
  "blank_sb = \<lparr>magic = 0x10203040, sb_size = 2000, nblocks = 1954, ninodes = 200, nlog = 30, logstart = 2,
     inodestart = 32, bmapstart = 45\<rparr>"






text \<open>
  C21. Admission control is enough on a log area of more than \<open>LOGSIZE\<close> blocks: from a log with no
  operation under way, after any interleaving of operations of up to \<open>NPROC\<close> processes, each of which
  logs at most \<open>MAXOPBLOCKS\<close> blocks, an operation with blocks left to log can log one: no assertion of
  \<open>Log::write\<close> fails.
\<close>

theorem log_admission_sound:
  assumes "op_step\<^sup>*\<^sup>* ((lg0, s0), Map.empty) ((lg, s), R)"
    and "\<not> committing lg0" "outstanding lg0 = 0" "hdr_n (header lg0) = 0" "of_nat LOGSIZE \<le> log_size lg0 - 1"
    and "p < NPROC" "R p = Some (Suc k)" "length (hdr_block (header lg)) = LOGSIZE"
    and "storage_inv s" "refers s b key"
  shows "log_write b (lg, s) \<noteq> None"
proof -
  have "admission_inv lg0 Map.empty" using assms(2-4) by (simp add: admission_inv_def active_ops_def budget_def)
  from admission_inv_reachable [OF assms(1) this]
  have inv: "admission_inv lg R" and z: "of_nat LOGSIZE \<le> log_size lg - 1" using assms(5) by simp_all
  show ?thesis by (rule log_write_admitted [OF inv assms(6,7) z assms(8-10)])
qed

theorem log_admission_sound_witness:
  "\<exists>b s. log_write b ((blank_log 31 0)\<lparr>outstanding := 1\<rparr>, s) \<noteq> None"
proof -
  have inv: "storage_inv (storage_new blank)" by (simp add: storage_inv_new blank_def)
  have miss: "live (storage_new blank) (1, 50) = None" by (simp add: live_new)
  have "room (storage_new blank)" using room_card [OF inv] live_new [of blank] by (simp add: config_defs)
  then obtain h s where h: "with_read 1 50 (storage_new blank) = Some (Some h, s)" "refers s h (1, 50)"
    "evolves (storage_new blank) (1, 50) (Some (1, disk (storage_new blank) 50, True)) s"
    by (rule with_read_miss [OF inv miss])
  let ?lg = "(blank_log 31 0)\<lparr>outstanding := 1\<rparr>"
  have "log_enter (blank_log 31 0, storage_new blank) = Done (?lg, storage_new blank)"
    by (simp add: log_enter_def log_begin_def is_full_def blank_log_def log_new_def header_empty_def config_defs)
  then have "op_step ((blank_log 31 0, storage_new blank), Map.empty) ((?lg, storage_new blank), Map.empty(0 \<mapsto> MAXOPBLOCKS))"
    by (intro op_begin) (simp_all add: config_defs)
  then have "op_step\<^sup>*\<^sup>* ((blank_log 31 0, storage_new blank), Map.empty) ((?lg, s), Map.empty(0 \<mapsto> MAXOPBLOCKS))"
    using op_buffers by (meson rtranclp.rtrancl_into_rtrancl rtranclp.rtrancl_refl)
  from log_admission_sound [OF this, of 0 9 h "(1, 50)"] h(2) evolvesD(1) [OF h(3)]
  show ?thesis by (auto simp: blank_log_def log_new_def header_empty_def config_defs)
qed

text \<open>
  C22. The log area that mkfs lays out, \<open>nlog = LOGSIZE\<close> blocks including the header, is one block too
  small for the admission test: three operations are admitted together on the empty log, and after
  they have logged 29 different blocks, fewer than the 30 they are entitled to, logging one more is
  an assertion failure.
\<close>

theorem log_admission_off_by_one:
  "(\<exists>lg1 lg2 lg3. log_begin (blank_log 30 0) = Done lg1 \<and> log_begin lg1 = Done lg2 \<and> log_begin lg2 = Done lg3 \<and>
      lg3 = blank_log 30 3) \<and>
    (\<exists>st. for_each (\<lambda>b. update_block b id) [0..<29] (blank_log 30 3, storage_new blank) = Some st \<and>
      (\<forall>b. log_write b st = None)) \<and> 29 < 3 * MAXOPBLOCKS"
proof (intro conjI)
  show "\<exists>lg1 lg2 lg3. log_begin (blank_log 30 0) = Done lg1 \<and> log_begin lg1 = Done lg2 \<and> log_begin lg2 = Done lg3 \<and>
      lg3 = blank_log 30 3"
    by (simp add: log_begin_def is_full_def blank_log_def log_new_def header_empty_def config_defs)
  obtain lg s M where "for_each (\<lambda>b. update_block b id) [0..<29] (blank_log 30 3, storage_new blank) = Some (lg, s)"
    "pending lg s M" "dom M = {..<29}" "log_size lg = 30"
    using blank_fill [of 3 29 30] by (auto simp: config_defs)
  moreover from this have n: "logged_n lg = 29" using pending_card by fastforce
  have "\<not> ucast (hdr_n (header lg)) < (29 :: usize)"
    using n unat_ucast_u32 [of "hdr_n (header lg)"] by (simp add: word_less_nat_alt)
  ultimately show "\<exists>st. for_each (\<lambda>b. update_block b id) [0..<29] (blank_log 30 3, storage_new blank) = Some st \<and>
      (\<forall>b. log_write b st = None)"
    by (auto simp: log_write_def Let_def split: Option.bind_splits)
qed (simp add: config_defs)

end
