(* ===== verification/Ring.thy ===== *)
theory Ring
  imports Prelude
begin

text \<open>
  Ring buffers with free-running 64-bit counters, as the pipe, the console and the UART driver use
  them: the next element goes to \<open>w mod size\<close>, the oldest is at \<open>r mod size\<close>, and both counters are only
  ever incremented, wrapping around at \<open>2 ^ 64\<close>. The buffer sizes divide \<open>2 ^ 64\<close>, so that the
  positions stay consecutive across the wrap-around; the comments "TODO: Overflow?" in the sources ask
  about exactly this point.

  \<open>ring_list buf r w\<close> is the abstraction: the queued elements, oldest first. The locale \<open>fifo\<close> is the
  interface of a bounded queue.
\<close>

definition ring_at :: "'a list \<Rightarrow> usize \<Rightarrow> 'a" where
  "ring_at buf i = buf ! (unat i mod length buf)"

definition ring_put :: "'a list \<Rightarrow> usize \<Rightarrow> 'a \<Rightarrow> 'a list" where
  "ring_put buf i x = buf[unat i mod length buf := x]"

definition ring_len :: "usize \<Rightarrow> usize \<Rightarrow> nat" where
  "ring_len r w = unat (w - r)"

definition ring_list :: "'a list \<Rightarrow> usize \<Rightarrow> usize \<Rightarrow> 'a list" where
  "ring_list buf r w = map (\<lambda>i. ring_at buf (r + of_nat i)) [0..<ring_len r w]"

definition ring_ok :: "'a list \<Rightarrow> usize \<Rightarrow> usize \<Rightarrow> bool" where
  "ring_ok buf r w \<longleftrightarrow> 0 < length buf \<and> length buf dvd 2 ^ 64 \<and> length buf < 2 ^ 64 \<and> ring_len r w \<le> length buf"

lemma length_ring_list [simp]: "length (ring_list buf r w) = ring_len r w"
  by (simp add: ring_list_def)

lemma length_ring_put [simp]: "length (ring_put buf i x) = length buf"
  by (simp add: ring_put_def)

lemma ring_position:
  assumes "0 < n" "n dvd 2 ^ 64"
  shows "unat (r + of_nat i :: usize) mod n = (unat r + i) mod n"
proof -
  have "unat (r + of_nat i :: usize) = (unat r + i) mod 2 ^ 64"
    by (simp add: unat_word_ariths unsigned_of_nat take_bit_eq_mod mod_add_right_eq)
  then show ?thesis using assms by (simp add: mod_mod_cancel)
qed

lemma mod_neq:
  assumes "(i :: nat) < j" "j - i < n"
  shows "(a + i) mod n \<noteq> (a + j) mod n"
proof
  assume "(a + i) mod n = (a + j) mod n"
  then have "n dvd (a + j) - (a + i)" using mod_eq_dvd_iff_nat [of "a + i" "a + j" n] assms(1) by simp
  then show False using assms by (simp add: nat_dvd_not_less)
qed

lemma unat_Suc: "unat (x :: usize) + 1 < 2 ^ 64 \<Longrightarrow> unat (x + 1) = Suc (unat x)"
  by (simp add: unat_word_ariths)

lemma ring_len_Suc:
  assumes "ring_len r w + 1 < 2 ^ 64"
  shows "ring_len r (w + 1) = Suc (ring_len r w)"
proof -
  have "w + 1 - r = (w - r) + 1" by simp
  then show ?thesis using unat_Suc [of "w - r"] assms by (simp only: ring_len_def)
qed

lemma ring_len_0 [simp]: "ring_len r w = 0 \<longleftrightarrow> w = r"
  by (simp add: ring_len_def unat_eq_0)

lemma ring_len_same [simp]: "ring_len r r = 0"
  by simp

lemma ring_len_pred:
  assumes "w \<noteq> r"
  shows "ring_len r w = Suc (ring_len (r + 1) w)"
proof -
  have "w - (r + 1) = (w - r) - 1" by simp
  moreover have "w - r \<noteq> 0" using assms by simp
  ultimately show ?thesis using unat_minus_one [of "w - r"] unat_eq_0 [of "w - r"]
    by (simp only: ring_len_def) simp
qed

lemma ring_len_full:
  assumes "length buf < 2 ^ 64"
  shows "ring_len r w = length buf \<longleftrightarrow> w = r + of_nat (length buf)"
proof -
  have "unat (of_nat (length buf) :: usize) = length buf" using assms by (rule unat_of_nat_usize)
  then have "ring_len r w = length buf \<longleftrightarrow> w - r = of_nat (length buf)"
    unfolding ring_len_def by (metis unsigned_word_eqI)
  then show ?thesis by (simp add: diff_eq_eq add.commute)
qed

lemma ring_list_put:
  assumes ok: "ring_ok buf r w" and free: "ring_len r w < length buf"
  shows "ring_list (ring_put buf w x) r (w + 1) = ring_list buf r w @ [x]"
proof -
  let ?n = "length buf" and ?k = "ring_len r w"
  have n: "0 < ?n" "?n dvd 2 ^ 64" using ok by (auto simp: ring_ok_def)
  have len: "ring_len r (w + 1) = Suc ?k" using free ok by (intro ring_len_Suc) (simp add: ring_ok_def)
  have w: "w = r + of_nat ?k" by (simp add: ring_len_def)
  have pos: "unat (r + of_nat i) mod ?n = (unat r + i) mod ?n" for i by (rule ring_position [OF n])
  have "ring_at (ring_put buf w x) (r + of_nat i) = ring_at buf (r + of_nat i)" if "i < ?k" for i
  proof -
    have "(unat r + i) mod ?n \<noteq> (unat r + ?k) mod ?n" using that free by (intro mod_neq) simp_all
    then show ?thesis using pos [of i] pos [of ?k] w by (simp add: ring_at_def ring_put_def)
  qed
  moreover have "ring_at (ring_put buf w x) (r + of_nat ?k) = x"
    using w n(1) by (simp add: ring_at_def ring_put_def)
  ultimately show ?thesis by (simp add: ring_list_def len)
qed

lemma ring_ok_put: "ring_ok buf r w \<Longrightarrow> ring_len r w < length buf \<Longrightarrow> ring_ok (ring_put buf w x) r (w + 1)"
  using ring_len_Suc [of r w] by (simp add: ring_ok_def)

lemma ring_list_take:
  assumes "w \<noteq> r"
  shows "ring_list buf r w = ring_at buf r # ring_list buf (r + 1) w"
proof -
  have "[0..<Suc (ring_len (r + 1) w)] = 0 # map Suc [0..<ring_len (r + 1) w]"
    by (simp only: upt_conv_Cons zero_less_Suc map_Suc_upt)
  then show ?thesis
    unfolding ring_list_def ring_len_pred [OF assms] by (simp add: comp_def add.assoc add.commute add.left_commute)
qed

lemma ring_ok_take: "ring_ok buf r w \<Longrightarrow> w \<noteq> r \<Longrightarrow> ring_ok buf (r + 1) w"
  using ring_len_pred [of w r] by (simp add: ring_ok_def)

lemma ring_list_empty: "ring_list buf r r = []"
  by (simp add: ring_list_def ring_len_def)

lemma ring_ok_full:
  assumes "ring_ok buf r w"
  shows "w = r + of_nat (length buf) \<longleftrightarrow> \<not> ring_len r w < length buf"
  using ring_len_full [of buf r w] assms by (auto simp: ring_ok_def)

lemma ring_len_split:
  assumes "ring_len r w \<le> ring_len r e"
  shows "ring_len r e = ring_len r w + ring_len w e"
proof -
  have "e - w = (e - r) - (w - r)" by simp
  moreover have "w - r \<le> e - r" using assms by (simp add: ring_len_def word_le_nat_alt)
  ultimately have "unat (e - w) = unat (e - r) - unat (w - r)" by (simp only: unat_sub)
  then show ?thesis using assms by (simp add: ring_len_def)
qed

lemma ring_list_split:
  assumes "ring_len r w \<le> ring_len r e"
  shows "ring_list buf r e = ring_list buf r w @ ring_list buf w e"
proof -
  have w: "r + of_nat (i + ring_len r w) = w + of_nat i" for i by (simp add: ring_len_def)
  have "[0..<ring_len r e] = [0..<ring_len r w] @ map (\<lambda>i. i + ring_len r w) [0..<ring_len w e]"
    unfolding ring_len_split [OF assms] map_add_upt using upt_add_eq_append [of 0 "ring_len r w" "ring_len w e"]
    by (simp only: add.commute [of "ring_len w e"])
  then show ?thesis by (simp add: ring_list_def comp_def w del: of_nat_add)
qed

lemma ring_list_back:
  assumes "e \<noteq> w"
  shows "ring_list buf w e = ring_list buf w (e - 1) @ [ring_at buf (e - 1)]"
    and "ring_len w e = Suc (ring_len w (e - 1))"
proof -
  have "e - 1 - w = (e - w) - 1" by simp
  moreover have "e - w \<noteq> 0" using assms by simp
  ultimately show len: "ring_len w e = Suc (ring_len w (e - 1))"
    using unat_minus_one [of "e - w"] unat_eq_0 [of "e - w"] by (simp only: ring_len_def) simp
  have "w + of_nat (ring_len w (e - 1)) = e - 1" by (simp add: ring_len_def)
  then show "ring_list buf w e = ring_list buf w (e - 1) @ [ring_at buf (e - 1)]" by (simp add: ring_list_def len)
qed

subsection \<open>Bounded queues\<close>

locale fifo =
  fixes invar :: "'s \<Rightarrow> bool"
    and items :: "'s \<Rightarrow> 'a list"
    and cap :: nat
    and full :: "'s \<Rightarrow> bool"
    and empty :: "'s \<Rightarrow> bool"
    and put :: "'a \<Rightarrow> 's \<Rightarrow> 's"
    and take1 :: "'s \<Rightarrow> 'a \<times> 's"
  assumes full_law: "invar s \<Longrightarrow> full s \<longleftrightarrow> length (items s) = cap"
    and cap_law: "invar s \<Longrightarrow> length (items s) \<le> cap"
    and empty_law: "invar s \<Longrightarrow> empty s \<longleftrightarrow> items s = []"
    and put_law: "invar s \<Longrightarrow> \<not> full s \<Longrightarrow> invar (put x s) \<and> items (put x s) = items s @ [x]"
    and take_law: "invar s \<Longrightarrow> \<not> empty s \<Longrightarrow>
      invar (snd (take1 s)) \<and> items s = fst (take1 s) # items (snd (take1 s))"
begin

text \<open>Filling the queue and draining it: what comes out is what went in, in order.\<close>

lemma put_many:
  assumes "invar s" and "length (items s) + length xs \<le> cap"
  shows "invar (fold put xs s) \<and> items (fold put xs s) = items s @ xs"
  using assms
proof (induction xs arbitrary: s)
  case (Cons x xs)
  then have "\<not> full s" using full_law by auto
  then show ?case using put_law [OF Cons.prems(1), of x] Cons.prems Cons.IH [of "put x s"] by simp
qed simp

lemma put_take:
  assumes "invar s" and "\<not> full s" and "items s = []"
  shows "fst (take1 (put x s)) = x \<and> items (snd (take1 (put x s))) = []"
  using put_law [OF assms(1,2), of x] take_law [of "put x s"] empty_law [of "put x s"] assms(3) by auto

end

end
