(* ===== verification/Pipe.thy ===== *)
theory Pipe
  imports Ring
begin

text \<open>
  Pipes, src/kernel/src/pipe.rs. The loops of \<open>write\<close> and \<open>read\<close> may put the calling process to
  sleep, which releases the pipe's lock so that other processes change the pipe. The model therefore
  runs each loop up to the point where it sleeps or returns: the result is the new pipe, and either
  \<open>Done\<close> with the value returned, or \<open>Sleep\<close>, after which the loop is entered again with the
  progress made so far. The memory of the calling process is the pair of functions that
  \<open>process::read_memory\<close> and \<open>process::write_memory\<close> provide; \<open>killed\<close> is whether it has been killed.
\<close>

record pipe =
  pipe_data :: "u8 list"
  pipe_read :: usize
  pipe_write :: usize
  read_open :: bool
  write_open :: bool

definition pipe_new :: "nat \<Rightarrow> pipe" where
  "pipe_new SIZE = \<lparr>pipe_data = replicate SIZE 0, pipe_read = 0, pipe_write = 0, read_open = True, write_open = True\<rparr>"

definition close_read :: "pipe \<Rightarrow> pipe kernel" where
  "close_read p = do { assertk (read_open p); Some (p\<lparr>read_open := False\<rparr>) }"

definition close_write :: "pipe \<Rightarrow> pipe kernel" where
  "close_write p = do { assertk (write_open p); Some (p\<lparr>write_open := False\<rparr>) }"

definition pipe_full :: "pipe \<Rightarrow> bool" where
  "pipe_full p \<longleftrightarrow> pipe_write p = pipe_read p + of_nat (length (pipe_data p))"

definition pipe_empty :: "pipe \<Rightarrow> bool" where
  "pipe_empty p \<longleftrightarrow> pipe_read p = pipe_write p"

definition pipe_put :: "u8 \<Rightarrow> pipe \<Rightarrow> pipe" where
  "pipe_put ch p = p\<lparr>pipe_data := ring_put (pipe_data p) (pipe_write p) ch, pipe_write := pipe_write p + 1\<rparr>"

definition pipe_take :: "pipe \<Rightarrow> u8 \<times> pipe" where
  "pipe_take p = (ring_at (pipe_data p) (pipe_read p), p\<lparr>pipe_read := pipe_read p + 1\<rparr>)"

text \<open>
  \<open>PipeInner::write\<close> from the loop head, with \<open>i\<close> of \<open>n\<close> bytes written. The first argument counts the
  bytes still to write, \<open>n - i\<close>.
\<close>

fun write_loop :: "bool \<Rightarrow> (usize \<Rightarrow> u8 option) \<Rightarrow> usize \<Rightarrow> nat \<Rightarrow> usize \<Rightarrow> pipe
    \<Rightarrow> (usize, unit) result blocking \<times> usize \<times> pipe" where
  "write_loop killed mem addr 0 i p = (Done (Ok i), i, p)"
| "write_loop killed mem addr (Suc left) i p =
     (if \<not> read_open p \<or> killed then (Done (Err ()), i, p)
      else if pipe_full p then (Sleep, i, p)
      else case mem (addr + i) of
        Some ch \<Rightarrow> write_loop killed mem addr left (i + 1) (pipe_put ch p)
      | None \<Rightarrow> (Done (Ok i), i, p))"

definition inner_write :: "bool \<Rightarrow> (usize \<Rightarrow> u8 option) \<Rightarrow> usize \<Rightarrow> usize \<Rightarrow> usize \<Rightarrow> pipe
    \<Rightarrow> (usize, unit) result blocking \<times> usize \<times> pipe" where
  "inner_write killed mem addr n i p = write_loop killed mem addr (unat n - unat i) i p"

text \<open>
  The \<open>for\<close> loop of \<open>PipeInner::read\<close>, \<open>left\<close> iterations to go. \<open>wr\<close> stores a byte in the memory of the
  process and says whether the address was writable.
\<close>

fun read_loop :: "(usize \<Rightarrow> u8 \<Rightarrow> 'm \<Rightarrow> 'm option) \<Rightarrow> usize \<Rightarrow> nat \<Rightarrow> usize \<Rightarrow> 'm \<times> pipe
    \<Rightarrow> usize \<times> 'm \<times> pipe" where
  "read_loop wr addr 0 i (m, p) = (i, m, p)"
| "read_loop wr addr (Suc left) i (m, p) =
     (if pipe_empty p then (i, m, p)
      else let (ch, p) = pipe_take p in
        case wr (addr + i) ch m of
          None \<Rightarrow> (i, m, p)
        | Some m \<Rightarrow> read_loop wr addr left (i + 1) (m, p))"

definition inner_read :: "bool \<Rightarrow> (usize \<Rightarrow> u8 \<Rightarrow> 'm \<Rightarrow> 'm option) \<Rightarrow> usize \<Rightarrow> usize \<Rightarrow> 'm \<times> pipe
    \<Rightarrow> (usize, unit) result blocking \<times> 'm \<times> pipe" where
  "inner_read killed wr addr n = (\<lambda>(m, p).
     if pipe_empty p \<and> write_open p then
       (if killed then (Done (Err ()), m, p) else (Sleep, m, p))
     else case read_loop wr addr (unat n) 0 (m, p) of (i, m, p) \<Rightarrow> (Done (Ok i), m, p))"

text \<open>The two ends of a pipe.\<close>

datatype pipe_end = ReadEnd | WriteEnd

definition pipe_allocate :: "nat \<Rightarrow> (pipe_end \<times> pipe_end \<times> pipe) option" where
  "pipe_allocate SIZE = Some (ReadEnd, WriteEnd, pipe_new SIZE)"

fun pipe_write_op :: "pipe_end \<Rightarrow> bool \<Rightarrow> (usize \<Rightarrow> u8 option) \<Rightarrow> usize \<Rightarrow> usize \<Rightarrow> usize \<Rightarrow> pipe
    \<Rightarrow> (usize, unit) result blocking \<times> usize \<times> pipe" where
  "pipe_write_op ReadEnd killed mem addr n i p = (Done (Err ()), i, p)"
| "pipe_write_op WriteEnd killed mem addr n i p = inner_write killed mem addr n i p"

fun pipe_read_op :: "pipe_end \<Rightarrow> bool \<Rightarrow> (usize \<Rightarrow> u8 \<Rightarrow> 'm \<Rightarrow> 'm option) \<Rightarrow> usize \<Rightarrow> usize \<Rightarrow> 'm \<times> pipe
    \<Rightarrow> (usize, unit) result blocking \<times> 'm \<times> pipe" where
  "pipe_read_op ReadEnd killed wr addr n mp = inner_read killed wr addr n mp"
| "pipe_read_op WriteEnd killed wr addr n (m, p) = (Done (Err ()), m, p)"

fun pipe_drop :: "pipe_end \<Rightarrow> pipe \<Rightarrow> pipe kernel" where
  "pipe_drop ReadEnd p = close_read p"
| "pipe_drop WriteEnd p = close_write p"

subsection \<open>The pipe as a queue\<close>

definition pipe_inv :: "nat \<Rightarrow> pipe \<Rightarrow> bool" where
  "pipe_inv SIZE p \<longleftrightarrow> length (pipe_data p) = SIZE \<and> ring_ok (pipe_data p) (pipe_read p) (pipe_write p)"

definition pipe_items :: "pipe \<Rightarrow> u8 list" where
  "pipe_items p = ring_list (pipe_data p) (pipe_read p) (pipe_write p)"

interpretation pq: fifo "pipe_inv SIZE" pipe_items SIZE pipe_full pipe_empty pipe_put pipe_take for SIZE
proof (unfold_locales, goal_cases)
  case (1 s)
  then show ?case using ring_ok_full [of "pipe_data s" "pipe_read s" "pipe_write s"]
    by (auto simp: pipe_inv_def pipe_items_def pipe_full_def ring_ok_def)
next
  case (2 s)
  then show ?case by (simp add: pipe_inv_def pipe_items_def ring_ok_def)
next
  case (3 s)
  then show ?case
    using ring_len_0 [of "pipe_read s" "pipe_write s"] length_0_conv [of "pipe_items s"]
    by (auto simp: pipe_empty_def pipe_items_def ring_list_def)
next
  case (4 s x)
  then have "ring_len (pipe_read s) (pipe_write s) < length (pipe_data s)"
    using ring_ok_full by (auto simp: pipe_inv_def pipe_full_def)
  then show ?case using 4(1) by (simp add: pipe_inv_def pipe_items_def pipe_put_def ring_ok_put ring_list_put)
next
  case (5 s)
  then show ?case
    by (auto simp: pipe_inv_def pipe_items_def pipe_take_def pipe_empty_def ring_ok_take ring_list_take)
qed

lemma pipe_inv_new: "0 < SIZE \<Longrightarrow> SIZE dvd 2 ^ 64 \<Longrightarrow> SIZE < 2 ^ 64 \<Longrightarrow> pipe_inv SIZE (pipe_new SIZE) \<and> pipe_items (pipe_new SIZE) = []"
  by (simp add: pipe_inv_def pipe_items_def pipe_new_def ring_ok_def ring_len_def ring_list_def)


lemma pipe_put_frame [simp]:
  "read_open (pipe_put ch p) = read_open p" "write_open (pipe_put ch p) = write_open p"
  by (simp_all add: pipe_put_def)

lemma pipe_take_frame [simp]:
  "read_open (snd (pipe_take p)) = read_open p" "write_open (snd (pipe_take p)) = write_open p"
  by (simp_all add: pipe_take_def)

lemma write_loop_spec:
  assumes "pipe_inv SIZE p" and "write_loop killed mem addr left i p = (out, i', p')"
  shows "\<exists>bs. pipe_inv SIZE p' \<and> pipe_items p' = pipe_items p @ bs \<and> length bs \<le> left \<and>
    i' = i + of_nat (length bs) \<and> readable mem (addr + i) bs \<and>
    read_open p' = read_open p \<and> write_open p' = write_open p \<and>
    (case out of
       Sleep \<Rightarrow> length bs < left \<and> pipe_full p' \<and> read_open p \<and> \<not> killed
     | Done (Err _) \<Rightarrow> bs = [] \<and> 0 < left \<and> (\<not> read_open p \<or> killed)
     | Done (Ok r) \<Rightarrow> r = i' \<and> (length bs = left \<or> mem (addr + i') = None))"
  using assms
proof (induction left arbitrary: i p)
  case 0
  then show ?case by (intro exI [of _ "[]"]) (auto simp: readable_def)
next
  case (Suc left)
  show ?case
  proof (cases "\<not> read_open p \<or> killed \<or> pipe_full p \<or> mem (addr + i) = None")
    case True
    then show ?thesis using Suc.prems by (intro exI [of _ "[]"]) (auto simp: readable_def split: if_splits)
  next
    case False
    then obtain ch where ch: "mem (addr + i) = Some ch" by auto
    have put: "pipe_inv SIZE (pipe_put ch p)" "pipe_items (pipe_put ch p) = pipe_items p @ [ch]"
      using pq.put_law [OF Suc.prems(1), of ch] False by auto
    have "write_loop killed mem addr left (i + 1) (pipe_put ch p) = (out, i', p')" using Suc.prems(2) False ch by simp
    from Suc.IH [OF put(1) this, unfolded put(2) pipe_put_frame append_assoc append.simps] obtain bs where bs: "pipe_inv SIZE p'" "pipe_items p' = pipe_items p @ ch # bs"
      "length bs \<le> left" "i' = i + 1 + of_nat (length bs)" "readable mem (addr + (i + 1)) bs"
      "read_open p' = read_open p" "write_open p' = write_open p"
      "case out of Sleep \<Rightarrow> length bs < left \<and> pipe_full p' \<and> read_open p \<and> \<not> killed
       | Done (Err _) \<Rightarrow> bs = [] \<and> 0 < left \<and> (\<not> read_open p \<or> killed)
       | Done (Ok r) \<Rightarrow> r = i' \<and> (length bs = left \<or> mem (addr + i') = None)"
      by blast
    show ?thesis
      using bs ch False
      by (intro exI [of _ "ch # bs"])
        (auto simp: readable_Cons algebra_simps split: blocking.splits result.splits)
  qed
qed

lemma read_loop_spec:
  assumes "pipe_inv SIZE p" and "read_loop wr addr left i (m, p) = (i', m', p')"
  shows "\<exists>bs lost. pipe_inv SIZE p' \<and> pipe_items p = bs @ lost @ pipe_items p' \<and> length bs \<le> left \<and>
    i' = i + of_nat (length bs) \<and> store_all wr (addr + i) bs m = Some m' \<and>
    read_open p' = read_open p \<and> write_open p' = write_open p \<and>
    (if lost = [] then length bs = left \<or> pipe_items p' = []
     else \<exists>ch. lost = [ch] \<and> wr (addr + i') ch m' = None)"
  using assms
proof (induction left arbitrary: i m p)
  case 0
  then show ?case by (intro exI [of _ "[]"]) auto
next
  case (Suc left)
  show ?case
  proof (cases "pipe_empty p")
    case True
    then show ?thesis
      using Suc.prems pq.empty_law [OF Suc.prems(1)] by (intro exI [of _ "[]"]) auto
  next
    case False
    obtain ch q where q: "pipe_take p = (ch, q)" by (cases "pipe_take p")
    have t: "pipe_inv SIZE q" "pipe_items p = ch # pipe_items q" "read_open q = read_open p" "write_open q = write_open p"
      using pq.take_law [OF Suc.prems(1) False] pipe_take_frame [of p] q by auto
    show ?thesis
    proof (cases "wr (addr + i) ch m")
      case None
      then have "i' = i" "m' = m" "p' = q" using Suc.prems(2) False q by auto
      then show ?thesis using t None by (intro exI [of _ "[]"] exI [of _ "[ch]"]) auto
    next
      case (Some m1)
      then have "read_loop wr addr left (i + 1) (m1, q) = (i', m', p')" using Suc.prems(2) False q by simp
      from Suc.IH [OF t(1) this] obtain bs lost where bs: "pipe_inv SIZE p'" "pipe_items q = bs @ lost @ pipe_items p'"
        "length bs \<le> left" "i' = i + 1 + of_nat (length bs)" "store_all wr (addr + (i + 1)) bs m1 = Some m'"
        "read_open p' = read_open q" "write_open p' = write_open q"
        "if lost = [] then length bs = left \<or> pipe_items p' = [] else \<exists>ch. lost = [ch] \<and> wr (addr + i') ch m' = None"
        by blast
      then show ?thesis
        using t Some by (intro exI [of _ "ch # bs"] exI [of _ lost]) (auto simp: algebra_simps)
    qed
  qed
qed


subsection \<open>Properties\<close>

text \<open>
  C23. \<open>PipeInner::write\<close>, one pass: the bytes it queues are the next bytes of the caller's memory, in
  order, behind what was queued before, whatever the values of the wrapping counters. It sleeps only
  when bytes are left, the ring is full, the read end is open and the process is not killed; it fails
  only when the read end is closed or the process is killed; otherwise it returns the number of bytes
  written, which is \<open>n\<close> unless the memory at the next address is not readable. Never more than
  \<open>SIZE\<close> bytes are queued.
\<close>

theorem pipe_write_correct:
  assumes inv: "pipe_inv SIZE p" and i: "i \<le> n" and run: "inner_write killed mem addr n i p = (out, i', p')"
  shows "\<exists>bs. pipe_inv SIZE p' \<and> pipe_items p' = pipe_items p @ bs \<and> length (pipe_items p') \<le> SIZE \<and>
    i' = i + of_nat (length bs) \<and> length bs \<le> unat (n - i) \<and> readable mem (addr + i) bs \<and>
    (case out of
       Sleep \<Rightarrow> i' \<noteq> n \<and> length (pipe_items p') = SIZE \<and> read_open p \<and> \<not> killed
     | Done (Err _) \<Rightarrow> bs = [] \<and> i \<noteq> n \<and> (\<not> read_open p \<or> killed)
     | Done (Ok r) \<Rightarrow> r = i' \<and> (i' = n \<or> mem (addr + i') = None))"
proof -
  have left: "unat (n - i) = unat n - unat i" using i by (simp add: unat_sub word_le_nat_alt)
  obtain bs where bs: "pipe_inv SIZE p'" "pipe_items p' = pipe_items p @ bs" "length bs \<le> unat (n - i)"
    "i' = i + of_nat (length bs)" "readable mem (addr + i) bs"
    "case out of Sleep \<Rightarrow> length bs < unat (n - i) \<and> pipe_full p' \<and> read_open p \<and> \<not> killed
     | Done (Err _) \<Rightarrow> bs = [] \<and> 0 < unat (n - i) \<and> (\<not> read_open p \<or> killed)
     | Done (Ok r) \<Rightarrow> r = i' \<and> (length bs = unat (n - i) \<or> mem (addr + i') = None)"
    using write_loop_spec [OF inv run [unfolded inner_write_def left [symmetric]]] by blast
  have eq: "length bs = unat (n - i) \<longleftrightarrow> i' = n"
  proof
    assume "i' = n"
    then have "n - i = of_nat (length bs)" using bs(4) add_diff_cancel_left' [of i "of_nat (length bs)"] by simp
    moreover have "length bs < 2 ^ 64" using bs(3) unsigned_less [of "n - i", where 'a = nat] by simp
    ultimately show "length bs = unat (n - i)" by (simp add: unat_of_nat_usize)
  qed (use bs(4) in simp)
  show ?thesis
    using bs eq pq.cap_law [OF bs(1)] pq.full_law [OF bs(1)]
    by (intro exI [of _ bs]) (auto split: blocking.splits result.splits)
qed

theorem pipe_write_correct_witness:
  "\<exists>bs p'. inner_write False (\<lambda>a. Some (ucast a)) 7 3 0 ((pipe_new 2)\<lparr>pipe_read := - 1, pipe_write := - 1\<rparr>) = (Sleep, 2, p') \<and>
    pipe_items p' = bs \<and> length bs = 2 \<and> readable (\<lambda>a. Some (ucast a)) 7 bs"
proof -
  let ?p = "(pipe_new 2)\<lparr>pipe_read := - 1, pipe_write := - 1\<rparr>"
  let ?r = "inner_write False (\<lambda>a. Some (ucast a)) 7 3 0 ?p"
  have inv: "pipe_inv 2 ?p" by (simp add: pipe_inv_def pipe_new_def ring_ok_def ring_len_def)
  have items: "pipe_items ?p = []" by (simp add: pipe_items_def ring_list_def ring_len_def)
  have l: "unat (3 :: usize) - unat (0 :: usize) = Suc (Suc (Suc 0))" by simp
  have d: "pipe_data (pipe_new 2) = [0, 0]" "read_open (pipe_new 2)" by (simp_all add: pipe_new_def numeral_2_eq_2)
  have w: "?r = write_loop False (\<lambda>a. Some (ucast a)) 7 (Suc (Suc (Suc 0))) 0 ?p" by (simp only: inner_write_def l)
  have r: "fst ?r = Sleep" "fst (snd ?r) = 2"
    unfolding w by (simp_all add: d pipe_full_def pipe_put_def)
  obtain p' where p': "?r = (Sleep, 2, p')" using r by (metis prod.collapse)
  from pipe_write_correct [OF inv _ this] show ?thesis using items p' by auto
qed

text \<open>
  C24. \<open>PipeInner::read\<close>, one pass: it sleeps only on an empty pipe whose write end is open; on an empty
  pipe whose write end is closed it returns 0, the end of file; otherwise it removes the oldest bytes
  from the queue and stores them in order in the caller's memory, as many as were asked for or as
  were queued, and returns how many. When the memory is not writable it stops, and the byte it had just
  taken from the queue is lost.
\<close>

theorem pipe_read_correct:
  assumes inv: "pipe_inv SIZE p" and run: "inner_read killed wr addr n (m, p) = (out, m', p')"
  shows "if pipe_items p = [] \<and> write_open p
    then m' = m \<and> p' = p \<and> out = (if killed then Done (Err ()) else Sleep)
    else \<exists>bs lost. pipe_inv SIZE p' \<and> pipe_items p = bs @ lost @ pipe_items p' \<and> length bs \<le> unat n \<and>
      out = Done (Ok (of_nat (length bs))) \<and> store_all wr addr bs m = Some m' \<and>
      (if lost = [] then length bs = unat n \<or> pipe_items p' = []
       else \<exists>ch. lost = [ch] \<and> wr (addr + of_nat (length bs)) ch m' = None)"
proof (cases "pipe_items p = [] \<and> write_open p")
  case True
  then show ?thesis using run pq.empty_law [OF inv] by (auto simp: inner_read_def split: if_splits)
next
  case False
  obtain i' m1 p1 where l: "read_loop wr addr (unat n) 0 (m, p) = (i', m1, p1)" by (rule prod_cases3)
  have "inner_read killed wr addr n (m, p) = (Done (Ok i'), m1, p1)"
    using False pq.empty_law [OF inv] l by (simp add: inner_read_def)
  then have e: "out = Done (Ok i')" "m1 = m'" "p1 = p'" using run by simp_all
  from read_loop_spec [OF inv l [unfolded e(2,3)]] obtain bs lost where
    "pipe_inv SIZE p'" "pipe_items p = bs @ lost @ pipe_items p'" "length bs \<le> unat n"
    "i' = of_nat (length bs)" "store_all wr addr bs m = Some m'"
    "if lost = [] then length bs = unat n \<or> pipe_items p' = []
     else \<exists>ch. lost = [ch] \<and> wr (addr + i') ch m' = None" by auto
  then show ?thesis unfolding if_not_P [OF False] using e(1) by blast
qed

theorem pipe_read_correct_witness:
  "\<exists>m' p'. inner_read False (\<lambda>a b m. Some (m @ [b])) 0 5 ([], (pipe_put 8 (pipe_put 7 (pipe_new 4))))
    = (Done (Ok 2), m', p') \<and> m' = [7, 8] \<and> pipe_items p' = []"
proof -
  let ?p = "pipe_put 8 (pipe_put 7 (pipe_new 4))"
  have inv: "pipe_inv 4 ?p" and items: "pipe_items ?p = [7, 8]"
    using pq.put_many [of 4 "pipe_new 4" "[7, 8]"] pipe_inv_new [of 4] by simp_all
  obtain out m' p' where r: "inner_read False (\<lambda>a b m. Some (m @ [b])) 0 5 ([], ?p) = (out, m', p')"
    by (cases "inner_read False (\<lambda>a b m. Some (m @ [b])) 0 5 ([], ?p)") auto
  from pipe_read_correct [OF inv r] items obtain bs where bs: "[7, 8] = bs @ pipe_items p'"
    "out = Done (Ok (of_nat (length bs)))" "store_all (\<lambda>a b m. Some (m @ [b])) 0 bs [] = Some m'"
    "length bs = 5 \<or> pipe_items p' = []"
    by (auto split: if_splits)
  have "length bs \<noteq> 5" using arg_cong [OF bs(1), of length] by auto
  then have e: "pipe_items p' = []" "bs = [7, 8]" using bs(1,4) by auto
  then show ?thesis using r bs(2,3) by auto
qed

end
