(* ===== verification/Uart.thy ===== *)
theory Uart
  imports Ring Spinlock
begin

text \<open>
  The UART driver, src/kernel/src/uart.rs. The 16550a device is outside the program: the definitions
  take it as the functions \<open>rd\<close> and \<open>wr\<close> that read and write one of its memory-mapped registers, on a
  state of any type. That state is the world outside the driver; \<open>process::wakeup\<close> acts on it as well,
  through the function \<open>wake\<close>. The functions on the transmit buffer run with its spin lock held. A loop that polls the device may run forever, so that it is a
  \<^theory_text>\<open>partial_function (option)\<close>: \<open>None\<close> is that it does not return.
\<close>

datatype channel = TxChannel | ConsoleChannel

record 'd world =
  rd :: "nat \<Rightarrow> 'd \<Rightarrow> u8 \<times> 'd"
  wr :: "nat \<Rightarrow> u8 \<Rightarrow> 'd \<Rightarrow> 'd"
  wake :: "channel \<Rightarrow> 'd \<Rightarrow> 'd"

definition RHR :: nat where "RHR = 0"
definition THR :: nat where "THR = 0"
definition IER :: nat where "IER = 1"
definition FCR :: nat where "FCR = 2"
definition LCR :: nat where "LCR = 3"
definition LSR :: nat where "LSR = 5"
definition IER_RX_ENABLE :: u8 where "IER_RX_ENABLE = push_bit 0 1"
definition IER_TX_ENABLE :: u8 where "IER_TX_ENABLE = push_bit 1 1"
definition FCR_FIFO_ENABLE :: u8 where "FCR_FIFO_ENABLE = push_bit 0 1"
definition FCR_FIFO_CLEAR :: u8 where "FCR_FIFO_CLEAR = push_bit 1 3"
definition LCR_EIGHT_BITS :: u8 where "LCR_EIGHT_BITS = push_bit 0 3"
definition LCR_BAUD_LATCH :: u8 where "LCR_BAUD_LATCH = push_bit 7 1"
definition LSR_RX_READY :: u8 where "LSR_RX_READY = push_bit 0 1"
definition LSR_TX_IDLE :: u8 where "LSR_TX_IDLE = push_bit 5 1"

subsection \<open>The transmit buffer\<close>

record transmit_buffer =
  tx_buffer :: "u8 list"
  write_at :: usize
  read_at :: usize

definition tx_new :: "nat \<Rightarrow> transmit_buffer" where
  "tx_new SIZE = \<lparr>tx_buffer = replicate SIZE 0, write_at = 0, read_at = 0\<rparr>"

definition tx_is_empty :: "transmit_buffer \<Rightarrow> bool" where
  "tx_is_empty t \<longleftrightarrow> write_at t = read_at t"

definition tx_is_full :: "transmit_buffer \<Rightarrow> bool" where
  "tx_is_full t \<longleftrightarrow> write_at t = read_at t + of_nat (length (tx_buffer t))"

definition queue :: "u8 \<Rightarrow> transmit_buffer \<Rightarrow> transmit_buffer" where
  "queue v t = t\<lparr>tx_buffer := ring_put (tx_buffer t) (write_at t) v, write_at := write_at t + 1\<rparr>"

definition dequeue :: "transmit_buffer \<Rightarrow> u8 \<times> transmit_buffer" where
  "dequeue t = (ring_at (tx_buffer t) (read_at t), t\<lparr>read_at := read_at t + 1\<rparr>)"

subsection \<open>The driver\<close>

function uart_send :: "'d world \<Rightarrow> 'd \<Rightarrow> transmit_buffer \<Rightarrow> 'd \<times> transmit_buffer" where
  "uart_send D d t =
     (if tx_is_empty t then (d, t)
      else let (s, d) = rd D LSR d in
        if s AND LSR_TX_IDLE = 0 then (d, t)
        else let (ch, t) = dequeue t in uart_send D (wr D THR ch (wake D TxChannel d)) t)"
  by pat_completeness auto

termination uart_send
proof (relation "measure (\<lambda>(D, d, t). ring_len (read_at t) (write_at t))", goal_cases)
  case (2 D d t x s d' y ch t')
  have "t' = t\<lparr>read_at := read_at t + 1\<rparr>" using 2(5,6) by (simp add: dequeue_def)
  then show ?case using 2(1) ring_len_pred [of "write_at t" "read_at t"] by (simp add: tx_is_empty_def)
qed simp

declare uart_send.simps [simp del]

definition uart_init :: "'d world \<Rightarrow> 'd \<Rightarrow> 'd" where
  "uart_init D d =
     (let d = wr D IER 0 d;
          d = wr D LCR LCR_BAUD_LATCH d;
          d = wr D 0 3 d;
          d = wr D 1 0 d;
          d = wr D LCR LCR_EIGHT_BITS d;
          d = wr D FCR (FCR_FIFO_ENABLE OR FCR_FIFO_CLEAR) d
      in wr D IER (IER_TX_ENABLE OR IER_RX_ENABLE) d)"

definition uart_putc :: "'d world \<Rightarrow> bool \<Rightarrow> u8 \<Rightarrow> 'd \<times> transmit_buffer \<Rightarrow> ('d \<times> transmit_buffer) blocking kernel" where
  "uart_putc D panicked c = (\<lambda>(d, t).
     if panicked then None
     else if tx_is_full t then Some Sleep
     else Some (Done (uart_send D d (queue c t))))"

partial_function (option) wait_idle :: "'d world \<Rightarrow> 'd \<Rightarrow> 'd kernel" where
  "wait_idle D d = (case rd D LSR d of (s, d) \<Rightarrow> if s AND LSR_TX_IDLE = 0 then wait_idle D d else Some d)"

definition putc_blocking :: "'d world \<Rightarrow> bool \<Rightarrow> u8 \<Rightarrow> hart \<times> 'd \<Rightarrow> (hart \<times> 'd) kernel" where
  "putc_blocking D panicked c = (\<lambda>(h, d). do {
     (d, h) \<leftarrow> interrupt_off (\<lambda>h.
        if panicked then None else do { d \<leftarrow> wait_idle D d; Some (wr D THR c d, h) }) h;
     Some (h, d) })"

definition getc :: "'d world \<Rightarrow> 'd \<Rightarrow> u8 option \<times> 'd" where
  "getc D d = (case rd D LSR d of (s, d) \<Rightarrow>
     if s AND LSR_RX_READY \<noteq> 0 then (case rd D RHR d of (c, d) \<Rightarrow> (Some c, d)) else (None, d))"

text \<open>
  \<open>handle_interrupt\<close>, with the console's handler \<open>consoleintr\<close> as an argument: it echoes to the same
  device, and spins when another hart holds the console's lock.
\<close>

partial_function (option) uart_drain ::
  "'d world \<Rightarrow> (u8 \<Rightarrow> 'd \<times> 'c \<Rightarrow> ('d \<times> 'c) acquired kernel) \<Rightarrow> 'd \<times> 'c \<Rightarrow> ('d \<times> 'c) acquired kernel" where
  "uart_drain D intr s =
     (case getc D (fst s) of
        (None, d) \<Rightarrow> Some (Acquired (d, snd s))
      | (Some ch, d) \<Rightarrow> do {
          r \<leftarrow> intr ch (d, snd s);
          case r of Spin \<Rightarrow> Some Spin | Acquired s \<Rightarrow> uart_drain D intr s })"

definition uart_handle_interrupt ::
  "'d world \<Rightarrow> (u8 \<Rightarrow> 'd \<times> 'c \<Rightarrow> ('d \<times> 'c) acquired kernel) \<Rightarrow> 'd \<times> 'c \<times> transmit_buffer
    \<Rightarrow> ('d \<times> 'c \<times> transmit_buffer) acquired kernel" where
  "uart_handle_interrupt D intr = (\<lambda>(d, c, t). do {
     r \<leftarrow> uart_drain D intr (d, c);
     case r of
       Spin \<Rightarrow> Some Spin
     | Acquired (d, c) \<Rightarrow> (case uart_send D d t of (d, t) \<Rightarrow> Some (Acquired (d, c, t))) })"

subsection \<open>The transmit buffer is a queue\<close>

definition tx_inv :: "nat \<Rightarrow> transmit_buffer \<Rightarrow> bool" where
  "tx_inv SIZE t \<longleftrightarrow> length (tx_buffer t) = SIZE \<and> ring_ok (tx_buffer t) (read_at t) (write_at t)"

definition tx_items :: "transmit_buffer \<Rightarrow> u8 list" where
  "tx_items t = ring_list (tx_buffer t) (read_at t) (write_at t)"

interpretation txq: fifo "tx_inv SIZE" tx_items SIZE tx_is_full tx_is_empty queue dequeue for SIZE
proof (unfold_locales, goal_cases)
  case (1 s)
  then show ?case using ring_ok_full [of "tx_buffer s" "read_at s" "write_at s"]
    by (auto simp: tx_inv_def tx_items_def tx_is_full_def ring_ok_def)
next
  case (2 s)
  then show ?case by (simp add: tx_inv_def tx_items_def ring_ok_def)
next
  case (3 s)
  then show ?case using ring_len_0 [of "read_at s" "write_at s"] length_0_conv [of "tx_items s"]
    by (auto simp: tx_is_empty_def tx_items_def ring_list_def)
next
  case (4 s x)
  then have "ring_len (read_at s) (write_at s) < length (tx_buffer s)"
    using ring_ok_full by (auto simp: tx_inv_def tx_is_full_def)
  then show ?case using 4(1) by (simp add: tx_inv_def tx_items_def queue_def ring_ok_put ring_list_put)
next
  case (5 s)
  then show ?case
    by (auto simp: tx_inv_def tx_items_def dequeue_def tx_is_empty_def ring_ok_take ring_list_take)
qed

lemma tx_inv_new: "0 < SIZE \<Longrightarrow> SIZE dvd 2 ^ 64 \<Longrightarrow> SIZE < 2 ^ 64 \<Longrightarrow> tx_inv SIZE (tx_new SIZE) \<and> tx_items (tx_new SIZE) = []"
  by (simp add: tx_inv_def tx_items_def tx_new_def ring_ok_def ring_len_def ring_list_def)

lemma disable_interrupt_same:
  assumes "\<not> is_enabled h"
  shows "disable_interrupt h = h"
proof -
  have "sstatus (disable_interrupt h) = sstatus h"
    using assms by (intro bit_word_eqI) (auto simp: sstatus_disable is_enabled_bit bit_unset_bit_iff)
  then show ?thesis by (simp add: disable_interrupt_def)
qed

lemma putc_blocking_masked:
  assumes "hart_inv h" "0 < depth_of_disable h"
  shows "putc_blocking D False c (h, d) = do { d \<leftarrow> wait_idle D d; Some (h, wr D THR c d) }"
proof -
  have "disable_interrupt h = h"
    using assms by (simp add: hart_inv_def disable_interrupt_same)
  then obtain h' where h': "push_off h = Some h'" "pop_off h' = Some h"
    using assms by (auto simp: hart_inv_def push_off_Some pop_off_def Let_def get_state_iff)
  then show ?thesis by (cases "wait_idle D d") (simp_all add: putc_blocking_def interrupt_off_def)
qed

subsection \<open>Properties\<close>

text \<open>The world \<open>D\<close>, which moreover remembers the bytes written to \<open>THR\<close>.\<close>

definition logged :: "'d world \<Rightarrow> ('d \<times> u8 list) world" where
  "logged D = \<lparr>rd = (\<lambda>r (d, l). case rd D r d of (v, d) \<Rightarrow> (v, (d, l))),
     wr = (\<lambda>r v (d, l). (wr D r v d, if r = THR then l @ [v] else l)),
     wake = (\<lambda>c (d, l). (wake D c d, l))\<rparr>"

lemma uart_send_conserves:
  assumes "tx_inv SIZE t" and "uart_send (logged D) (d, l) t = ((d', l'), t')"
  shows "tx_inv SIZE t' \<and> l' @ tx_items t' = l @ tx_items t \<and> (\<exists>xs. l' = l @ xs)"
  using assms
proof (induction "logged D" "(d, l)" t arbitrary: d l rule: uart_send.induct)
  case (1 t d l)
  obtain s d1 where s: "rd D LSR d = (s, d1)" by force
  have s': "rd (logged D) LSR (d, l) = (s, (d1, l))" by (simp add: logged_def s)
  show ?case
  proof (cases "tx_is_empty t \<or> s AND LSR_TX_IDLE = 0")
    case True
    then have "t' = t" "l' = l" using 1(3) s' by (auto simp: uart_send.simps [of _ _ t] Let_def split: if_splits)
    then show ?thesis using 1(2) by simp
  next
    case False
    obtain ch t1 where t1: "dequeue t = (ch, t1)" by force
    have law: "tx_inv SIZE t1" "tx_items t = ch # tx_items t1"
      using txq.take_law [OF 1(2)] False t1 by auto
    let ?d2 = "wr D THR ch (wake D TxChannel d1)"
    have d2: "wr (logged D) THR ch (wake (logged D) TxChannel (d1, l)) = (?d2, l @ [ch])" by (simp add: logged_def)
    have "uart_send (logged D) (?d2, l @ [ch]) t1 = ((d', l'), t')"
      using 1(3) False s' t1 d2 by (simp add: uart_send.simps [of _ _ t])
    then have "tx_inv SIZE t' \<and> l' @ tx_items t' = (l @ [ch]) @ tx_items t1 \<and> (\<exists>xs. l' = (l @ [ch]) @ xs)"
      using 1(1) [OF _ s' [symmetric] refl _ t1 [symmetric] refl] False law(1) d2 by simp
    then show ?thesis using law(2) by auto
  qed
qed

text \<open>
  C39. \<open>UART::putc\<close>: the byte goes behind the bytes that are still to be sent, and the device is given
  bytes of the buffer in that order, so that what has been written to the transmit register, followed
  by what is still in the buffer, only ever grows by the byte: nothing is lost, duplicated or
  reordered, whatever the device answers and whatever the values of the wrapping counters. The call
  sleeps exactly when the buffer is full.
\<close>

theorem uart_putc_in_order:
  assumes "tx_inv SIZE t"
  shows "case uart_putc (logged D) False c ((d, l), t) of
      None \<Rightarrow> False
    | Some Sleep \<Rightarrow> length (tx_items t) = SIZE
    | Some (Done ((d', l'), t')) \<Rightarrow>
        length (tx_items t) < SIZE \<and> tx_inv SIZE t' \<and> l' @ tx_items t' = l @ tx_items t @ [c] \<and> (\<exists>xs. l' = l @ xs)"
proof (cases "tx_is_full t")
  case True
  then show ?thesis using txq.full_law [OF assms] by (simp add: uart_putc_def)
next
  case False
  obtain d' l' t' where r: "uart_send (logged D) (d, l) (queue c t) = ((d', l'), t')" by (metis prod.collapse)
  have "length (tx_items t) < SIZE" using False txq.full_law [OF assms] txq.cap_law [OF assms] by simp
  then show ?thesis
    using False uart_send_conserves [OF conjunct1 [OF txq.put_law [OF assms False]] r]
      txq.put_law [OF assms False, of c] r by (simp add: uart_putc_def)
qed

theorem uart_putc_in_order_witness:
  "\<exists>d' l' t'. uart_putc (logged \<lparr>rd = \<lambda>r d. (if d = 0 then 0x20 else 0, d), wr = \<lambda>r v d. d + 1, wake = \<lambda>c d. d\<rparr>)
      False 7 ((0 :: nat, []), queue 5 (tx_new 32)) = Some (Done ((d', l'), t')) \<and>
    l' @ tx_items t' = [5, 7]"
proof -
  let ?D = "\<lparr>rd = \<lambda>r d. (if d = 0 then 0x20 else 0, d), wr = \<lambda>r v d. d + 1, wake = \<lambda>c d. d\<rparr> :: nat world"
  have n: "tx_inv 32 (tx_new 32)" "tx_items (tx_new 32) = []" using tx_inv_new [of 32] by (simp_all add: dvd_def)
  have f: "\<not> tx_is_full (tx_new 32)" by (simp add: tx_is_full_def tx_new_def)
  have t: "tx_inv 32 (queue 5 (tx_new 32))" "tx_items (queue 5 (tx_new 32)) = [5]"
    using txq.put_law [OF n(1) f, of 5] n(2) by simp_all
  have "uart_putc (logged ?D) False 7 ((0, []), queue 5 (tx_new 32)) \<noteq> Some Sleep"
    by (simp add: uart_putc_def tx_is_full_def queue_def tx_new_def)
  then show ?thesis
    using uart_putc_in_order [OF t(1), where D = ?D and c = 7 and d = 0 and l = "[]"] t(2)
    by (auto split: option.splits blocking.splits)
qed

end
