(* ===== verification/Console.thy ===== *)
theory Console
  imports Uart
begin

text \<open>
  The console, src/kernel/src/console.rs, and the \<open>print!\<close> macro of src/kernel/src/main.rs. The input
  buffer is a ring with three free-running counters: \<open>read_index\<close>, behind which bytes have been handed
  to a reader, \<open>write_index\<close>, up to which lines are complete, and \<open>edit_index\<close>, the end of the line being
  edited. The device and \<open>process::wakeup\<close> are the world \<open>D\<close> of the UART driver.
\<close>

definition ctrl :: "u8 \<Rightarrow> u8" where
  "ctrl x = x - 0x40"

record console =
  buf :: "u8 list"
  read_index :: usize
  write_index :: usize
  edit_index :: usize

definition INPUT_BUF_LEN :: nat where "INPUT_BUF_LEN = 128"

definition console_new :: console where
  "console_new = \<lparr>buf = replicate INPUT_BUF_LEN 0, read_index = 0, write_index = 0, edit_index = 0\<rparr>"

definition console_putc :: "'d world \<Rightarrow> bool \<Rightarrow> u8 \<Rightarrow> hart \<times> 'd \<Rightarrow> (hart \<times> 'd) kernel" where
  "console_putc D panicked c s = putc_blocking D panicked c s"

definition backspace :: "'d world \<Rightarrow> bool \<Rightarrow> hart \<times> 'd \<Rightarrow> (hart \<times> 'd) kernel" where
  "backspace D panicked s = do {
     s \<leftarrow> putc_blocking D panicked 0x08 s;
     s \<leftarrow> putc_blocking D panicked 0x20 s;
     putc_blocking D panicked 0x08 s }"

text \<open>\<open>Console::write\<close> with \<open>left\<close> of the \<open>n\<close> bytes to go: the number of bytes written.\<close>

fun console_write_loop :: "'d world \<Rightarrow> bool \<Rightarrow> (usize \<Rightarrow> u8 option) \<Rightarrow> usize \<Rightarrow> nat \<Rightarrow> usize \<Rightarrow> hart \<times> 'd
    \<Rightarrow> (usize \<times> hart \<times> 'd) kernel" where
  "console_write_loop D panicked mem src 0 i s = Some (i, s)"
| "console_write_loop D panicked mem src (Suc left) i s =
     (case mem (src + i) of
        Some ch \<Rightarrow> do { s \<leftarrow> console_putc D panicked ch s; console_write_loop D panicked mem src left (i + 1) s }
      | None \<Rightarrow> Some (i, s))"

definition console_write :: "'d world \<Rightarrow> bool \<Rightarrow> (usize \<Rightarrow> u8 option) \<Rightarrow> usize \<Rightarrow> usize \<Rightarrow> hart \<times> 'd
    \<Rightarrow> (usize \<times> hart \<times> 'd) kernel" where
  "console_write D panicked mem src n s = console_write_loop D panicked mem src (unat n) 0 s"

definition consolewrite :: "'d world \<Rightarrow> bool \<Rightarrow> (usize \<Rightarrow> u8 option) \<Rightarrow> usize \<Rightarrow> usize \<Rightarrow> hart \<times> 'd
    \<Rightarrow> (i32 \<times> hart \<times> 'd) kernel" where
  "consolewrite D panicked mem src n s = do { (i, s) \<leftarrow> console_write D panicked mem src n s; Some (ucast i, s) }"

subsection \<open>Input\<close>

text \<open>The kill-line loop of \<open>handle_interrupt\<close>, and its other branches except the process dump.\<close>

definition erase :: "'d world \<Rightarrow> bool \<Rightarrow> (hart \<times> 'd) \<times> console \<Rightarrow> ((hart \<times> 'd) \<times> console) kernel" where
  "erase D panicked = (\<lambda>(s, con). do {
     let con = con\<lparr>edit_index := edit_index con - 1\<rparr>;
     s \<leftarrow> backspace D panicked s;
     Some (s, con) })"

partial_function (option) kill_line ::
  "'d world \<Rightarrow> bool \<Rightarrow> (hart \<times> 'd) \<times> console \<Rightarrow> ((hart \<times> 'd) \<times> console) kernel" where
  "kill_line D panicked sc =
     (if edit_index (snd sc) \<noteq> write_index (snd sc) \<and>
         ring_at (buf (snd sc)) (edit_index (snd sc) - 1) \<noteq> 0x0A
      then do { sc \<leftarrow> erase D panicked sc; kill_line D panicked sc }
      else Some sc)"

definition erase_char :: "'d world \<Rightarrow> bool \<Rightarrow> (hart \<times> 'd) \<times> console \<Rightarrow> ((hart \<times> 'd) \<times> console) kernel" where
  "erase_char D panicked sc =
     (if edit_index (snd sc) \<noteq> write_index (snd sc) then erase D panicked sc else Some sc)"

definition insert_char :: "'d world \<Rightarrow> bool \<Rightarrow> u8 \<Rightarrow> (hart \<times> 'd) \<times> console \<Rightarrow> ((hart \<times> 'd) \<times> console) kernel" where
  "insert_char D panicked c = (\<lambda>(s, con).
     if c = 0 then Some (s, con)
     else if edit_index con - read_index con \<ge> of_nat INPUT_BUF_LEN then Some (s, con)
     else do {
       let c = (if c = 0x0D then 0x0A else c);
       s \<leftarrow> console_putc D panicked c s;
       let con = con\<lparr>buf := ring_put (buf con) (edit_index con) c, edit_index := edit_index con + 1\<rparr>;
       if c = 0x0A \<or> c = ctrl 0x44 \<or> edit_index con = read_index con + of_nat INPUT_BUF_LEN
       then Some ((fst s, wake D ConsoleChannel (snd s)), con\<lparr>write_index := edit_index con\<rparr>)
       else Some (s, con) })"

definition edit_key :: "'d world \<Rightarrow> bool \<Rightarrow> u8 \<Rightarrow> (hart \<times> 'd) \<times> console \<Rightarrow> ((hart \<times> 'd) \<times> console) kernel" where
  "edit_key D panicked c sc =
     (if c = ctrl 0x55 then kill_line D panicked sc
      else if c = 0x7f \<or> c = ctrl 0x48 then erase_char D panicked sc
      else insert_char D panicked c sc)"

text \<open>
  \<open>print!\<close> takes the console's lock around \<open>write_str\<close>. The formatted text is the argument: formatting
  is the business of \<open>core::fmt\<close>. \<open>procdump\<close> prints a newline and then the lines of the processes.
\<close>

definition write_str :: "'d world \<Rightarrow> bool \<Rightarrow> u8 list \<Rightarrow> hart \<times> 'd \<Rightarrow> (hart \<times> 'd) kernel" where
  "write_str D panicked cs s = for_each (console_putc D panicked) cs s"

definition print :: "'d world \<Rightarrow> bool \<Rightarrow> u8 list \<Rightarrow> (hart \<times> 'd) \<times> console spinlock
    \<Rightarrow> ((hart \<times> 'd) \<times> console spinlock) acquired kernel" where
  "print D panicked cs = (\<lambda>((h, d), l). do {
     g \<leftarrow> spin_lock h l;
     case g of
       Spin \<Rightarrow> Some Spin
     | Acquired (h, l) \<Rightarrow> do {
         (h, d) \<leftarrow> write_str D panicked cs (h, d);
         (h, l) \<leftarrow> spin_unlock h l;
         Some (Acquired ((h, d), l)) } })"

fun print_lines :: "'d world \<Rightarrow> bool \<Rightarrow> u8 list list \<Rightarrow> (hart \<times> 'd) \<times> console spinlock
    \<Rightarrow> ((hart \<times> 'd) \<times> console spinlock) acquired kernel" where
  "print_lines D panicked [] s = Some (Acquired s)"
| "print_lines D panicked (cs # css) s = do {
     r \<leftarrow> print D panicked cs s;
     case r of Spin \<Rightarrow> Some Spin | Acquired s \<Rightarrow> print_lines D panicked css s }"

definition procdump :: "'d world \<Rightarrow> bool \<Rightarrow> u8 list list \<Rightarrow> (hart \<times> 'd) \<times> console spinlock
    \<Rightarrow> ((hart \<times> 'd) \<times> console spinlock) acquired kernel" where
  "procdump D panicked lines s = print_lines D panicked ([0x0A] # lines) s"

text \<open>
  \<open>Console::handle_interrupt\<close>, called through the guard of the console's lock, and \<open>consoleintr\<close>.
  \<open>dump\<close> is the text of the process dump.
\<close>

definition console_handle_interrupt :: "'d world \<Rightarrow> bool \<Rightarrow> u8 list list \<Rightarrow> u8 \<Rightarrow> (hart \<times> 'd) \<times> console spinlock
    \<Rightarrow> ((hart \<times> 'd) \<times> console spinlock) acquired kernel" where
  "console_handle_interrupt D panicked dump c = (\<lambda>(s, l).
     if c = ctrl 0x50 then procdump D panicked dump (s, l)
     else do {
       (s, con) \<leftarrow> edit_key D panicked c (s, sl_value l);
       Some (Acquired (s, l\<lparr>sl_value := con\<rparr>)) })"

definition consoleintr :: "'d world \<Rightarrow> bool \<Rightarrow> u8 list list \<Rightarrow> i32 \<Rightarrow> (hart \<times> 'd) \<times> console spinlock
    \<Rightarrow> ((hart \<times> 'd) \<times> console spinlock) acquired kernel" where
  "consoleintr D panicked dump c = (\<lambda>((h, d), l). do {
     g \<leftarrow> spin_lock h l;
     case g of
       Spin \<Rightarrow> Some Spin
     | Acquired (h, l) \<Rightarrow> do {
         r \<leftarrow> console_handle_interrupt D panicked dump (ucast c) ((h, d), l);
         case r of
           Spin \<Rightarrow> Some Spin
         | Acquired ((h, d), l) \<Rightarrow> do { (h, l) \<leftarrow> spin_unlock h l; Some (Acquired ((h, d), l)) } } })"

text \<open>\<open>uartintr\<close>: the UART driver's interrupt handler with the console's handler.\<close>

definition uartintr :: "'d world \<Rightarrow> bool \<Rightarrow> u8 list list \<Rightarrow> 'd \<times> (hart \<times> console spinlock) \<times> transmit_buffer
    \<Rightarrow> ('d \<times> (hart \<times> console spinlock) \<times> transmit_buffer) acquired kernel" where
  "uartintr D panicked dump s =
     uart_handle_interrupt D (\<lambda>ch (d, (h, l)). do {
       r \<leftarrow> consoleintr D panicked dump (ucast ch) ((h, d), l);
       case r of Spin \<Rightarrow> Some Spin | Acquired ((h, d), l) \<Rightarrow> Some (Acquired (d, (h, l))) }) s"

subsection \<open>Reading\<close>

text \<open>
  \<open>read\<close> from the loop head, with \<open>n\<close> of \<open>target\<close> bytes to go. \<open>wrm\<close> stores a byte in the memory of the
  process; \<open>Sleep\<close> comes with the values of \<open>n\<close> and \<open>dst\<close> with which the loop is entered again.
\<close>

fun console_read :: "bool \<Rightarrow> (usize \<Rightarrow> u8 \<Rightarrow> 'm \<Rightarrow> 'm option) \<Rightarrow> nat \<Rightarrow> nat \<Rightarrow> usize \<Rightarrow> 'm \<times> console
    \<Rightarrow> i32 blocking \<times> nat \<times> usize \<times> 'm \<times> console" where
  "console_read killed wrm target 0 dst (m, con) = (Done (of_nat target), 0, dst, m, con)"
| "console_read killed wrm target (Suc n) dst (m, con) =
     (if read_index con = write_index con then
        (if killed then Done (- 1) else Sleep, Suc n, dst, m, con)
      else let c = ring_at (buf con) (read_index con); con = con\<lparr>read_index := read_index con + 1\<rparr> in
        if c = ctrl 0x44 then
          (Done (of_nat (target - Suc n)), Suc n, dst, m,
           if Suc n < target then con\<lparr>read_index := read_index con - 1\<rparr> else con)
        else case wrm dst c m of
          None \<Rightarrow> (Done (of_nat (target - Suc n)), Suc n, dst, m, con)
        | Some m \<Rightarrow>
            if c = 0x0A then (Done (of_nat (target - n)), n, dst + 1, m, con)
            else console_read killed wrm target n (dst + 1) (m, con))"

subsection \<open>The line discipline\<close>

text \<open>
  What the input buffer stands for: the bytes a reader can have, and the line being edited. \<open>typed\<close> is
  what a key does to them.
\<close>

definition con_inv :: "console \<Rightarrow> bool" where
  "con_inv con \<longleftrightarrow> length (buf con) = INPUT_BUF_LEN \<and> ring_ok (buf con) (read_index con) (edit_index con) \<and>
     ring_len (read_index con) (write_index con) \<le> ring_len (read_index con) (edit_index con) \<and>
     0x0A \<notin> set (ring_list (buf con) (write_index con) (edit_index con))"

definition con_lines :: "console \<Rightarrow> u8 list" where
  "con_lines con = ring_list (buf con) (read_index con) (write_index con)"

definition con_edit :: "console \<Rightarrow> u8 list" where
  "con_edit con = ring_list (buf con) (write_index con) (edit_index con)"

definition typed :: "u8 \<Rightarrow> u8 list \<times> u8 list \<Rightarrow> u8 list \<times> u8 list" where
  "typed c = (\<lambda>(ls, ed).
     if c = ctrl 0x55 then (ls, [])
     else if c = 0x7f \<or> c = ctrl 0x48 then (ls, butlast ed)
     else if c = 0 \<or> length ls + length ed = 128 then (ls, ed)
     else let c' = (if c = 0x0D then 0x0A else c); ed' = ed @ [c'] in
       if c' = 0x0A \<or> c' = ctrl 0x44 \<or> length ls + length ed' = 128 then (ls @ ed', []) else (ls, ed'))"

definition responsive :: "'d world \<Rightarrow> bool" where
  "responsive D \<longleftrightarrow> (\<forall>d. wait_idle D d \<noteq> None)"

lemma con_new: "con_inv console_new" "con_lines console_new = []" "con_edit console_new = []"
  by (simp_all add: con_inv_def con_lines_def con_edit_def console_new_def INPUT_BUF_LEN_def ring_ok_def ring_list_def ring_len_def dvd_def)

lemma con_whole:
  assumes "con_inv con"
  shows "ring_list (buf con) (read_index con) (edit_index con) = con_lines con @ con_edit con"
    and "ring_len (read_index con) (edit_index con) = length (con_lines con) + length (con_edit con)"
  using assms ring_list_split ring_len_split by (auto simp: con_inv_def con_lines_def con_edit_def)

lemma putc_responsive:
  assumes "responsive D" "hart_inv h" "0 < depth_of_disable h"
  shows "\<exists>d'. putc_blocking D False c (h, d) = Some (h, d')"
proof -
  obtain d1 where "wait_idle D d = Some d1" using assms(1) by (auto simp: responsive_def)
  then show ?thesis using assms(2,3) by (simp add: putc_blocking_masked)
qed

lemma backspace_responsive:
  assumes "responsive D" "hart_inv h" "0 < depth_of_disable h"
  shows "\<exists>d'. backspace D False (h, d) = Some (h, d')"
proof -
  note p = putc_responsive [OF assms]
  obtain d1 where d1: "putc_blocking D False 0x08 (h, d) = Some (h, d1)" using p by blast
  obtain d2 where d2: "putc_blocking D False 0x20 (h, d1) = Some (h, d2)" using p by blast
  obtain d3 where "putc_blocking D False 0x08 (h, d2) = Some (h, d3)" using p by blast
  then show ?thesis using d1 d2 by (simp add: backspace_def)
qed

lemma erase_spec:
  assumes "responsive D" "hart_inv h" "0 < depth_of_disable h" and inv: "con_inv con"
    and ne: "edit_index con \<noteq> write_index con"
  shows "\<exists>d' con'. erase D False ((h, d), con) = Some ((h, d'), con') \<and> con_inv con' \<and>
    con_lines con' = con_lines con \<and> con_edit con' = butlast (con_edit con) \<and>
    con' = con\<lparr>edit_index := edit_index con - 1\<rparr>"
proof -
  let ?con = "con\<lparr>edit_index := edit_index con - 1\<rparr>"
  obtain d' where d': "backspace D False (h, d) = Some (h, d')" using backspace_responsive [OF assms(1-3)] by blast
  note bk = ring_list_back(1) [OF ne, of "buf con"] ring_list_back(2) [OF ne]
  have l: "ring_len (read_index con) (edit_index con) = ring_len (read_index con) (write_index con) + ring_len (write_index con) (edit_index con)"
    using inv ring_len_split by (auto simp: con_inv_def)
  have "edit_index con \<noteq> read_index con" using l bk(2) by auto
  note bk' = ring_list_back(2) [OF this]
  have "con_inv ?con" using inv bk bk' l by (auto simp: con_inv_def ring_ok_def)
  moreover have "con_lines ?con = con_lines con" by (simp add: con_lines_def)
  moreover have "con_edit ?con = butlast (con_edit con)" using bk(1) by (simp add: con_edit_def)
  ultimately show ?thesis using d' by (simp add: erase_def)
qed

lemma kill_line_spec:
  assumes "responsive D" "hart_inv h" "0 < depth_of_disable h" "con_inv con"
  shows "\<exists>d' con'. kill_line D False ((h, d), con) = Some ((h, d'), con') \<and> con_inv con' \<and>
    con_lines con' = con_lines con \<and> con_edit con' = []"
  using assms(4)
proof (induction "length (con_edit con)" arbitrary: con d)
  case 0
  then have "edit_index con = write_index con" by (simp add: con_edit_def)
  then show ?case using 0 by (subst kill_line.simps) simp
next
  case (Suc n)
  then have ne: "edit_index con \<noteq> write_index con" by (auto simp: con_edit_def)
  have "ring_at (buf con) (edit_index con - 1) \<in> set (con_edit con)"
    unfolding con_edit_def ring_list_back(1) [OF ne, of "buf con"] by simp
  then have nl: "ring_at (buf con) (edit_index con - 1) \<noteq> 0x0A" using Suc.prems by (auto simp: con_inv_def con_edit_def)
  obtain d1 con1 where e: "erase D False ((h, d), con) = Some ((h, d1), con1)" "con_inv con1"
    "con_lines con1 = con_lines con" "con_edit con1 = butlast (con_edit con)"
    using erase_spec [OF assms(1-3) Suc.prems ne] by blast
  have "n = length (con_edit con1)" using Suc.hyps(2) e(4) by simp
  from Suc.hyps(1) [OF this e(2), of d1] show ?case
    using ne nl e(1,3) by (subst kill_line.simps) simp
qed

lemma full_iff:
  assumes "con_inv con"
  shows "of_nat INPUT_BUF_LEN \<le> edit_index con - read_index con \<longleftrightarrow> length (con_lines con) + length (con_edit con) = 128"
    and "ring_len (read_index con) (edit_index con) \<le> 128"
  using assms con_whole(2) [OF assms]
  by (auto simp: word_le_nat_alt INPUT_BUF_LEN_def con_inv_def ring_ok_def ring_len_def)

lemma insert_spec:
  assumes "responsive D" "hart_inv h" "0 < depth_of_disable h" and inv: "con_inv con"
    and c: "c \<noteq> 0" "length (con_lines con) + length (con_edit con) \<noteq> 128"
  defines "c' \<equiv> if c = 0x0D then 0x0A else c"
  shows "\<exists>d' con'. insert_char D False c ((h, d), con) = Some ((h, d'), con') \<and> con_inv con' \<and>
    (con_lines con', con_edit con') =
      (if c' = 0x0A \<or> c' = ctrl 0x44 \<or> length (con_lines con) + length (con_edit con) = 127
       then (con_lines con @ con_edit con @ [c'], []) else (con_lines con, con_edit con @ [c']))"
proof -
  let ?r = "read_index con" and ?w = "write_index con" and ?e = "edit_index con"
  let ?b = "ring_put (buf con) ?e c'"
  let ?fin = "c' = 0x0A \<or> c' = ctrl 0x44 \<or> ?e + 1 = ?r + 128"
  let ?con = "con\<lparr>buf := ?b, edit_index := ?e + 1\<rparr>"
  obtain d' where d': "console_putc D False c' (h, d) = Some (h, d')"
    using putc_responsive [OF assms(1-3)] unfolding console_putc_def by blast
  have free: "ring_len ?r ?e < 128" using c(2) con_whole(2) [OF inv] full_iff(2) [OF inv] by simp
  have ok: "ring_ok (buf con) ?r ?e" and len: "length (buf con) = 128" and rw: "ring_len ?r ?w \<le> ring_len ?r ?e"
    and nl: "0x0A \<notin> set (con_edit con)"
    using inv by (auto simp: con_inv_def INPUT_BUF_LEN_def con_edit_def)
  have rl: "ring_len ?r (?e + 1) = Suc (ring_len ?r ?e)" using free by (intro ring_len_Suc) simp
  have whole: "ring_list ?b ?r (?e + 1) = con_lines con @ con_edit con @ [c']"
    using ring_list_put [OF ok] free len con_whole(1) [OF inv] by simp
  have ok': "ring_ok ?b ?r (?e + 1)" using ring_ok_put [OF ok] free len by simp
  have "ring_list ?b ?r (?e + 1) = ring_list ?b ?r ?w @ ring_list ?b ?w (?e + 1)"
    using rw rl by (intro ring_list_split) simp
  then have parts: "ring_list ?b ?r ?w = con_lines con" "ring_list ?b ?w (?e + 1) = con_edit con @ [c']"
    unfolding whole by (simp_all add: append_eq_append_conv con_lines_def)
  have last: "?e + 1 = ?r + 128 \<longleftrightarrow> length (con_lines con) + length (con_edit con) = 127"
    using ring_ok_full [OF ok'] free rl con_whole(2) [OF inv] len by auto
  have "insert_char D False c ((h, d), con) = Some
     (if ?fin then ((h, wake D ConsoleChannel d'), ?con\<lparr>write_index := ?e + 1\<rparr>) else ((h, d'), ?con))"
    using d' c full_iff(1) [OF inv] by (simp add: insert_char_def c'_def INPUT_BUF_LEN_def)
  moreover have "con_inv (?con\<lparr>write_index := ?e + 1\<rparr>)" "con_lines (?con\<lparr>write_index := ?e + 1\<rparr>) = con_lines con @ con_edit con @ [c']"
    "con_edit (?con\<lparr>write_index := ?e + 1\<rparr>) = []"
    using ok' len whole by (simp_all add: con_inv_def con_lines_def con_edit_def INPUT_BUF_LEN_def ring_list_empty)
  moreover have "con_inv ?con" if "c' \<noteq> 0x0A"
    using ok' len rw rl nl that parts by (simp add: con_inv_def INPUT_BUF_LEN_def)
  moreover have "con_lines ?con = con_lines con" "con_edit ?con = con_edit con @ [c']"
    using parts by (simp_all add: con_lines_def con_edit_def)
  ultimately show ?thesis
    unfolding last by (cases "c' = 0x0A \<or> c' = ctrl 0x44 \<or> length (con_lines con) + length (con_edit con) = 127") simp_all
qed

text \<open>
  C25. The line discipline, as a refinement: every key but control-P does to the two lists that the ring
  stands for what \<open>typed\<close> says. Control-U erases the whole line being edited, delete and control-H its last
  byte, and never anything of the lines already handed over; any other byte goes to the end of the line,
  with carriage return read as newline, and newline, control-D and the byte that fills the buffer hand the
  line over to the readers; a full buffer drops input. The handler returns when the device is responsive,
  so that the loop of control-U ends.
\<close>

theorem console_line_discipline:
  assumes "responsive D" "hart_inv h" "0 < depth_of_disable h" "con_inv con"
  shows "\<exists>d' con'. edit_key D False c ((h, d), con) = Some ((h, d'), con') \<and> con_inv con' \<and>
    (con_lines con', con_edit con') = typed c (con_lines con, con_edit con)"
proof -
  consider "c = ctrl 0x55" | "c \<noteq> ctrl 0x55" "c = 0x7f \<or> c = ctrl 0x48" "edit_index con = write_index con"
    | "c \<noteq> ctrl 0x55" "c = 0x7f \<or> c = ctrl 0x48" "edit_index con \<noteq> write_index con"
    | "c \<noteq> ctrl 0x55" "\<not> (c = 0x7f \<or> c = ctrl 0x48)" "c = 0 \<or> length (con_lines con) + length (con_edit con) = 128"
    | "c \<noteq> ctrl 0x55" "\<not> (c = 0x7f \<or> c = ctrl 0x48)" "c \<noteq> 0" "length (con_lines con) + length (con_edit con) \<noteq> 128"
    by blast
  then show ?thesis
  proof cases
    case 1
    then show ?thesis using kill_line_spec [OF assms, of d] by (auto simp: edit_key_def typed_def)
  next
    case 2
    then have "con_edit con = []" by (simp add: con_edit_def ring_list_empty)
    then show ?thesis using 2 assms(4) by (auto simp: edit_key_def typed_def erase_char_def)
  next
    case 3
    then show ?thesis
      using erase_spec [OF assms(1-4) 3(3), of d] by (auto simp: edit_key_def typed_def erase_char_def)
  next
    case 4
    then show ?thesis
      using assms(4) full_iff(1) [OF assms(4)] by (auto simp: edit_key_def typed_def insert_char_def)
  next
    case 5
    have e: "edit_key D False c s = insert_char D False c s" for s
      using 5 by (simp add: edit_key_def)
    have t: "typed c (con_lines con, con_edit con) =
      (let c' = (if c = 0x0D then 0x0A else c) in
       if c' = 0x0A \<or> c' = ctrl 0x44 \<or> length (con_lines con) + length (con_edit con) = 127
       then (con_lines con @ con_edit con @ [c'], []) else (con_lines con, con_edit con @ [c']))"
      using 5 unfolding typed_def by (simp add: Let_def)
    show ?thesis using insert_spec [OF assms 5(3,4), of d] unfolding e t Let_def .
  qed
qed

theorem console_line_discipline_witness:
  "\<exists>d' con'. edit_key \<lparr>rd = \<lambda>r d. (0x20, d), wr = \<lambda>r v d. d + 1, wake = \<lambda>c d. d\<rparr> False 0x0D
      ((\<lparr>sstatus = 0, tp = 0, depth_of_disable = 1, is_enabled_before = False\<rparr>, 0 :: nat), console_new)
      = Some ((\<lparr>sstatus = 0, tp = 0, depth_of_disable = 1, is_enabled_before = False\<rparr>, d'), con') \<and>
    con_lines con' = [0x0A] \<and> con_edit con' = []"
proof -
  let ?D = "\<lparr>rd = \<lambda>r d. (0x20, d), wr = \<lambda>r v d. d + 1, wake = \<lambda>c d. d\<rparr> :: nat world"
  let ?h = "\<lparr>sstatus = 0, tp = 0, depth_of_disable = 1, is_enabled_before = False\<rparr>"
  have "responsive ?D"
    unfolding responsive_def by (rule allI, subst wait_idle.simps) (simp add: LSR_TX_IDLE_def)
  moreover have "hart_inv ?h" "0 < depth_of_disable ?h" by (simp_all add: hart_inv_def NCPU_def is_enabled_def)
  ultimately show ?thesis
    using console_line_discipline [where D = ?D and h = ?h and con = console_new and c = "0x0D" and d = 0] con_new
    by (auto simp: typed_def ctrl_def)
qed

lemma con_take:
  assumes "con_inv con" "read_index con \<noteq> write_index con"
  shows "con_inv (con\<lparr>read_index := read_index con + 1\<rparr>)"
    and "con_lines con = ring_at (buf con) (read_index con) # con_lines (con\<lparr>read_index := read_index con + 1\<rparr>)"
    and "con_edit (con\<lparr>read_index := read_index con + 1\<rparr>) = con_edit con"
proof -
  let ?r = "read_index con" and ?w = "write_index con" and ?e = "edit_index con"
  have rw: "ring_len ?r ?w = Suc (ring_len (?r + 1) ?w)" using assms(2) by (intro ring_len_pred) simp
  have "?e \<noteq> ?r" using assms(1) rw by (auto simp: con_inv_def)
  then have "ring_len ?r ?e = Suc (ring_len (?r + 1) ?e)" by (rule ring_len_pred)
  then show "con_inv (con\<lparr>read_index := ?r + 1\<rparr>)" using assms(1) rw by (auto simp: con_inv_def ring_ok_def)
  show "con_lines con = ring_at (buf con) ?r # con_lines (con\<lparr>read_index := ?r + 1\<rparr>)"
    using ring_list_take [of ?w ?r "buf con"] assms(2) by (simp add: con_lines_def)
qed (simp add: con_edit_def)

definition read_outcome :: "bool \<Rightarrow> (usize \<Rightarrow> u8 \<Rightarrow> 'm \<Rightarrow> 'm option) \<Rightarrow> nat \<Rightarrow> usize \<Rightarrow> 'm \<Rightarrow> nat \<Rightarrow> i32 blocking
    \<Rightarrow> u8 list \<Rightarrow> u8 list \<Rightarrow> u8 list \<Rightarrow> bool" where
  "read_outcome killed wrm target dst' m' n' out ls bs ls' \<longleftrightarrow>
     0 < n' \<and> out = (if killed then Done (- 1) else Sleep) \<and> ls = bs \<and> ls' = [] \<and> 0x0A \<notin> set bs \<or>
     out = Done (of_nat (target - n')) \<and>
       (ls = bs @ ls' \<and> (n' = 0 \<or> bs \<noteq> [] \<and> last bs = 0x0A) \<or>
        0 < n' \<and> (\<exists>rest. ls = bs @ ctrl 0x44 # rest \<and> ls' = (if n' < target then ctrl 0x44 # rest else rest)) \<or>
        0 < n' \<and> (\<exists>c. ls = bs @ c # ls' \<and> wrm dst' c m' = None))"

lemma read_outcome_Cons:
  assumes "read_outcome killed wrm target dst' m' n' out ls bs ls'" "c \<noteq> 0x0A"
  shows "read_outcome killed wrm target dst' m' n' out (c # ls) (c # bs) ls'"
proof -
  have nonempty: "bs \<noteq> [] \<Longrightarrow> last (c # bs) = last bs" by simp
  show ?thesis using assms nonempty unfolding read_outcome_def by (elim disjE conjE exE) auto
qed

text \<open>
  C26. \<open>read\<close> of the console, one pass: the bytes it stores are the oldest the readers can have, in order,
  none of them control-D, and none but the last a newline. It stops when it has as many as were asked for,
  after a newline, at a control-D, at an address that is not writable, or when it has used up the input, in
  which case it sleeps, or returns -1 when the process has been killed. The control-D is taken from the
  input only when it is what the read begins with, so that the reader sees an end of file of its own; the
  byte that could not be stored is lost. The line being edited is not touched.
\<close>

theorem console_read_correct:
  assumes "con_inv con" "console_read killed wrm target n dst (m, con) = (out, n', dst', m', con')"
  shows "\<exists>bs. store_all wrm dst bs m = Some m' \<and> n = n' + length bs \<and> dst' = dst + of_nat (length bs) \<and>
    ctrl 0x44 \<notin> set bs \<and> 0x0A \<notin> set (butlast bs) \<and> con_inv con' \<and> con_edit con' = con_edit con \<and>
    read_outcome killed wrm target dst' m' n' out (con_lines con) bs (con_lines con')"
  using assms
proof (induction n arbitrary: dst m con)
  case 0
  then show ?case by (intro exI [of _ "[]"]) (simp add: read_outcome_def)
next
  case (Suc n)
  let ?c = "ring_at (buf con) (read_index con)" and ?con = "con\<lparr>read_index := read_index con + 1\<rparr>"
  show ?case
  proof (cases "read_index con = write_index con")
    case True
    then have "con_lines con = []" by (simp add: con_lines_def ring_list_empty)
    then show ?thesis using Suc.prems True by (intro exI [of _ "[]"]) (auto simp: read_outcome_def)
  next
    case False
    note t = con_take [OF Suc.prems(1) False]
    consider "?c = ctrl 0x44" | "?c \<noteq> ctrl 0x44" "wrm dst ?c m = None"
      | m1 where "?c \<noteq> ctrl 0x44" "wrm dst ?c m = Some m1" "?c = 0x0A"
      | m1 where "?c \<noteq> ctrl 0x44" "wrm dst ?c m = Some m1" "?c \<noteq> 0x0A" by blast
    then show ?thesis
    proof cases
      case 1
      have *: "?con\<lparr>read_index := read_index ?con - 1\<rparr> = con" by simp
      show ?thesis using Suc.prems False 1 t *
        by (intro exI [of _ "[]"]) (auto simp: read_outcome_def Let_def split: if_splits)
    next
      case 2
      then show ?thesis using Suc.prems False t
        by (intro exI [of _ "[]"]) (auto simp: read_outcome_def Let_def)
    next
      case 3
      then show ?thesis using Suc.prems False t
        by (intro exI [of _ "[0x0A]"]) (auto simp: read_outcome_def Let_def)
    next
      case 4
      then have "console_read killed wrm target n (dst + 1) (m1, ?con) = (out, n', dst', m', con')"
        using Suc.prems(2) False by (simp add: Let_def)
      from Suc.IH [OF t(1) this] obtain bs where bs: "store_all wrm (dst + 1) bs m1 = Some m'" "n = n' + length bs"
        "dst' = dst + 1 + of_nat (length bs)" "ctrl 0x44 \<notin> set bs" "0x0A \<notin> set (butlast bs)" "con_inv con'"
        "con_edit con' = con_edit ?con" "read_outcome killed wrm target dst' m' n' out (con_lines ?con) bs (con_lines con')"
        by blast
      show ?thesis using bs t 4 read_outcome_Cons [OF bs(8) 4(3)] by (intro exI [of _ "?c # bs"]) simp
    qed
  qed
qed

theorem console_read_correct_witness:
  "\<exists>bs m' con'. console_read False (\<lambda>a b m. Some (m @ [b])) 5 5 0
      ([], \<lparr>buf = 0x61 # 0x0A # 0x62 # replicate 125 0, read_index = 0, write_index = 3, edit_index = 3\<rparr>)
      = (Done 2, 3, 2, m', con') \<and> store_all (\<lambda>a b m. Some (m @ [b])) 0 bs [] = Some m' \<and> length bs = 2 \<and>
      0x0A \<notin> set (butlast bs)"
proof -
  let ?con = "\<lparr>buf = 0x61 # 0x0A # 0x62 # replicate 125 0, read_index = 0, write_index = 3, edit_index = 3\<rparr> :: console"
  have five: "(5 :: nat) = Suc (Suc (Suc (Suc (Suc 0))))" by simp
  have inv: "con_inv ?con"
    by (simp add: con_inv_def INPUT_BUF_LEN_def ring_ok_def ring_len_def ring_list_def dvd_def)
  let ?r = "console_read False (\<lambda>a b m. Some (m @ [b])) 5 5 0 ([], ?con)"
  have "fst ?r = Done 2 \<and> fst (snd ?r) = 3 \<and> fst (snd (snd ?r)) = 2"
    by (subst (2 4 6) five) (simp add: Let_def ctrl_def ring_at_def)
  then obtain m' con' where r: "?r = (Done 2, 3, 2, m', con')" by (metis prod.collapse)
  from console_read_correct [OF inv r] show ?thesis using r by (simp only: r) auto
qed

text \<open>
  C40. Control-P panics instead of printing the process list: the handler runs with the console's lock
  held, and the first \<open>print!\<close> of \<open>procdump\<close> takes that lock again on the same hart.
\<close>

theorem console_ctrl_p_panics:
  assumes "hart_inv h" "\<not> sl_locked l"
  shows "consoleintr D panicked dump 0x10 ((h, d), l) = None"
  using assms
  by (simp add: consoleintr_def spin_lock_def push_off_Some hart_inv_def is_held_by_current_cpu_def Let_def cpu_id_def
      console_handle_interrupt_def ctrl_def procdump_def print_def)

theorem console_ctrl_p_panics_witness:
  "consoleintr \<lparr>rd = \<lambda>r d. (0x20, d), wr = \<lambda>r v d. d, wake = \<lambda>c d. d\<rparr> False [] 0x10
    ((\<lparr>sstatus = 0, tp = 0, depth_of_disable = 0, is_enabled_before = False\<rparr>, ()), spinlock_new console_new) = None"
  by (rule console_ctrl_p_panics) (simp_all add: hart_inv_def NCPU_def spinlock_new_def)

end
