(* ===== verification/Clock.thy ===== *)
theory Clock
  imports Prelude
begin

text \<open>
  The tick counter, src/kernel/src/clock.rs: a 64-bit counter behind a spin lock. The second component of
  the state is the process table, on which \<open>process::wakeup\<close> acts.
\<close>

definition clock_get :: "u64 \<Rightarrow> u64" where
  "clock_get ticks = ticks"

definition tick :: "('p \<Rightarrow> 'p) \<Rightarrow> u64 \<times> 'p \<Rightarrow> u64 \<times> 'p" where
  "tick wakeup = (\<lambda>(ticks, p). (ticks + 1, wakeup p))"

text \<open>\<open>sleep\<close> at the loop head: \<open>start\<close> is the counter when it was called, \<open>current\<close> the counter now.\<close>

definition clock_sleep :: "bool \<Rightarrow> u64 \<Rightarrow> u64 \<Rightarrow> u64 \<Rightarrow> bool blocking" where
  "clock_sleep killed time start current =
     (if current - start < time then (if killed then Done False else Sleep) else Done True)"

lemma ticks_after: "fst ((tick wakeup ^^ k) (start, p)) = start + of_nat k"
  by (induction k) (auto simp: tick_def case_prod_beta)

text \<open>
  \<open>clock::sleep\<close> keeps a process that is not killed asleep for exactly the ticks it asked for, wherever
  the counter stands when it is called: the subtraction is right across the wrap-around of the counter.
\<close>

theorem clock_sleep_exact:
  assumes "k < 2 ^ 64"
  shows "clock_sleep False time start (fst ((tick wakeup ^^ k) (start, p))) = (if k < unat time then Sleep else Done True)"
proof -
  have "start + of_nat k - start = (of_nat k :: u64)" by simp
  then have "(start + of_nat k - start < time) = (k < unat time)"
    using assms by (simp add: word_less_nat_alt unat_of_nat_usize)
  then show ?thesis by (simp add: clock_sleep_def ticks_after)
qed

theorem clock_sleep_exact_witness:
  "clock_sleep False 3 (- 1) (fst ((tick id ^^ 2) (- 1, ()))) = Sleep \<and>
   clock_sleep False 3 (- 1) (fst ((tick id ^^ 3) (- 1, ()))) = Done True"
  using clock_sleep_exact [of 2 3 "- 1" id "()"] clock_sleep_exact [of 3 3 "- 1" id "()"] by simp

end
