(* ===== verification/Memory_Layout.thy ===== *)
theory Memory_Layout
  imports Prelude
begin

text \<open>
  The physical and virtual memory layout, src/kernel/src/memory_layout.rs, and the page arithmetic at
  the head of src/kernel/src/riscv/paging.rs, on 64-bit addresses.
\<close>

definition PGSIZE :: usize where "PGSIZE = 4096"
definition PGSHIFT :: nat where "PGSHIFT = 12"

definition pg_roundup :: "usize \<Rightarrow> usize" where
  "pg_roundup sz = (sz + PGSIZE - 1) AND NOT (PGSIZE - 1)"

definition pg_rounddown :: "usize \<Rightarrow> usize" where
  "pg_rounddown a = a AND NOT (PGSIZE - 1)"

definition MAXVA :: usize where "MAXVA = push_bit (9 + 9 + 9 + 12 - 1) 1"

definition UART0 :: usize where "UART0 = 0x10000000"
definition UART0_IRQ :: usize where "UART0_IRQ = 10"
definition VIRTIO0 :: usize where "VIRTIO0 = 0x10001000"
definition VIRTIO0_IRQ :: usize where "VIRTIO0_IRQ = 1"
definition CLINT :: usize where "CLINT = 0x2000000"
definition clint_mtimecmp :: "u64 \<Rightarrow> usize" where "clint_mtimecmp hartid = CLINT + 0x4000 + 8 * hartid"
definition CLINT_MTIME :: usize where "CLINT_MTIME = CLINT + 0xBFF8"
definition PLIC :: usize where "PLIC = 0x0c000000"
definition PLIC_PRIORITY :: usize where "PLIC_PRIORITY = PLIC + 0x0"
definition PLIC_PENDING :: usize where "PLIC_PENDING = PLIC + 0x1000"
definition plic_menable :: "u64 \<Rightarrow> usize" where "plic_menable hart = PLIC + 0x2000 + hart * 0x100"
definition plic_senable :: "u64 \<Rightarrow> usize" where "plic_senable hart = PLIC + 0x2080 + hart * 0x100"
definition plic_mpriority :: "u64 \<Rightarrow> usize" where "plic_mpriority hart = PLIC + 0x200000 + hart * 0x2000"
definition plic_spriority :: "u64 \<Rightarrow> usize" where "plic_spriority hart = PLIC + 0x201000 + hart * 0x2000"
definition plic_mclaim :: "u64 \<Rightarrow> usize" where "plic_mclaim hart = PLIC + 0x200004 + hart * 0x2000"
definition plic_sclaim :: "u64 \<Rightarrow> usize" where "plic_sclaim hart = PLIC + 0x201004 + hart * 0x2000"
definition KERNBASE :: usize where "KERNBASE = 0x80000000"
definition PHYSTOP :: usize where "PHYSTOP = KERNBASE + 128 * 1024 * 1024"
definition TRAMPOLINE :: usize where "TRAMPOLINE = MAXVA - PGSIZE"

definition kstack :: "usize \<Rightarrow> usize" where
  "kstack p = TRAMPOLINE - (p + 1) * 2 * PGSIZE"

definition kstack_index :: "usize \<Rightarrow> usize" where
  "kstack_index ks = (TRAMPOLINE - ks) div 2 div PGSIZE - 1"

definition TRAPFRAME :: usize where "TRAPFRAME = TRAMPOLINE - PGSIZE"

lemmas layout_defs = PGSIZE_def MAXVA_def KERNBASE_def PHYSTOP_def TRAMPOLINE_def TRAPFRAME_def

subsection \<open>Page arithmetic\<close>

abbreviation aligned :: "usize \<Rightarrow> bool" where
  "aligned a \<equiv> unat a mod 4096 = 0"

lemma aligned_multiple: "aligned a \<Longrightarrow> \<exists>m. unat a = m * 4096"
  using div_mult_mod_eq [of "unat a" 4096] by (intro exI [of _ "unat a div 4096"]) simp

lemma unat_PGSIZE [simp]: "unat PGSIZE = 4096"
  by (simp add: PGSIZE_def)

lemma page_mask: "PGSIZE - 1 = (mask 12 :: usize)"
  by (simp add: PGSIZE_def mask_eq_exp_minus_1)

lemma and_not_mask_nat: "unat (a AND NOT (mask n) :: usize) = unat a - unat a mod 2 ^ n"
proof -
  have "a AND NOT (mask n) = push_bit n (drop_bit n a)"
    by (rule bit_word_eqI) (auto simp: bit_simps)
  moreover have "push_bit n (drop_bit n a) + take_bit n a = a" by (rule bits_ident)
  ultimately have eq: "a AND NOT (mask n) = a - take_bit n a" by (simp add: eq_diff_eq)
  have t: "unat (take_bit n a) = unat a mod 2 ^ n" unfolding unsigned_take_bit_eq by (rule take_bit_eq_mod)
  then have "take_bit n a \<le> a" by (simp add: word_le_nat_alt)
  then show ?thesis unfolding eq using t by (simp add: unat_sub)
qed

lemma unat_rounddown: "unat (pg_rounddown a) = unat a - unat a mod 4096"
  using and_not_mask_nat [of a 12] by (simp add: pg_rounddown_def page_mask)

lemma page_offset: "unat (a - pg_rounddown a) = unat a mod 4096"
proof -
  have "pg_rounddown a \<le> a" by (simp add: word_le_nat_alt unat_rounddown)
  then show ?thesis by (simp add: unat_sub unat_rounddown)
qed

lemma page_offset_less: "unat (a - pg_rounddown a) < 4096"
  by (simp add: page_offset)

lemma aligned_rounddown [simp]: "aligned (pg_rounddown a)"
  by (simp add: unat_rounddown minus_mod_eq_mult_div)

lemma rounddown_aligned: "aligned a \<Longrightarrow> pg_rounddown a = a"
  by (simp add: word_unat_eq_iff unat_rounddown)

lemma unat_roundup:
  assumes "unat a + 4095 < 2 ^ 64"
  shows "unat (pg_roundup a) = (unat a + 4095) div 4096 * 4096"
proof -
  have "a + PGSIZE - 1 = a + 4095" by (simp add: PGSIZE_def)
  moreover have "unat (a + 4095) = unat a + 4095" using assms by (simp add: unat_word_ariths)
  ultimately show ?thesis
    using and_not_mask_nat [of "a + 4095" 12]
    by (simp only: pg_roundup_def page_mask) (simp add: minus_mod_eq_div_mult)
qed

lemma unat_add_pages:
  assumes "unat a + n * 4096 < 2 ^ 64"
  shows "unat (a + of_nat n * PGSIZE) = unat a + n * 4096"
proof -
  have "of_nat n * PGSIZE = (of_nat (n * 4096) :: usize)" by (simp add: PGSIZE_def)
  moreover have "unat (of_nat (n * 4096) :: usize) = n * 4096" using assms by (intro unat_of_nat_usize) linarith
  ultimately show ?thesis using assms by (simp only: unat_word_ariths) simp
qed

text \<open>The kernel stacks lie below the trampoline, at addresses from which the index can be read back.\<close>

lemma unat_TRAMPOLINE: "unat TRAMPOLINE = 2 ^ 38 - 4096"
  by (simp add: layout_defs)

lemma unat_kstack_distance: "unat p < 2 ^ 20 \<Longrightarrow> unat ((p + 1) * 2 * PGSIZE) = (unat p + 1) * 8192"
  by (simp add: PGSIZE_def unat_word_ariths)

lemma kstack_distance_le: "unat p < 2 ^ 20 \<Longrightarrow> (p + 1) * 2 * PGSIZE \<le> TRAMPOLINE"
  unfolding word_le_nat_alt unat_TRAMPOLINE by (simp only: unat_kstack_distance) simp

lemma unat_kstack: "unat p < 2 ^ 20 \<Longrightarrow> unat (kstack p) = 2 ^ 38 - 4096 - (unat p + 1) * 8192"
  unfolding kstack_def by (simp only: unat_sub kstack_distance_le unat_kstack_distance unat_TRAMPOLINE)

text \<open>
  Kernel stacks: \<open>kstack_index\<close> reads back the index that \<open>kstack\<close> was given; the stack of process \<open>p\<close> is
  one aligned page, and between it and the stack of the next index, or the trampoline, there is a page that
  no stack uses.
\<close>

theorem kstack_roundtrip:
  assumes "unat p < 2 ^ 20"
  shows "kstack_index (kstack p) = p \<and> aligned (kstack p) \<and> unat (kstack p) + 2 * 4096 \<le> unat TRAMPOLINE \<and>
    (\<forall>q. unat q < unat p \<longrightarrow> unat (kstack p) + 2 * 4096 \<le> unat (kstack q))"
proof -
  let ?d = "(p + 1) * 2 * PGSIZE"
  have "TRAMPOLINE - kstack p = ?d" by (simp add: kstack_def)
  then have "unat ((TRAMPOLINE - kstack p) div 2 div PGSIZE) = (unat p + 1) * 8192 div 2 div 4096"
    by (simp only: unat_div_distrib unat_kstack_distance [OF assms] unat_PGSIZE) simp
  then have d: "unat ((TRAMPOLINE - kstack p) div 2 div PGSIZE) = unat p + 1" by simp
  then have "(TRAMPOLINE - kstack p) div 2 div PGSIZE = p + 1"
    using assms by (simp add: word_unat_eq_iff unat_word_ariths)
  then have "kstack_index (kstack p) = p" unfolding kstack_index_def by (simp only: add_diff_cancel_right')
  moreover have "2 ^ 38 - 4096 - (unat p + 1) * 8192 = (2 ^ 26 - 1 - (unat p + 1) * 2) * (4096 :: nat)" by simp
  then have "aligned (kstack p)" unfolding unat_kstack [OF assms] by (simp only: mod_mult_self2_is_0)
  moreover have "unat (kstack p) + 2 * 4096 \<le> unat TRAMPOLINE"
    unfolding unat_kstack [OF assms] unat_TRAMPOLINE using assms by simp
  moreover have "unat (kstack p) + 2 * 4096 \<le> unat (kstack q)" if "unat q < unat p" for q
    using that assms unat_kstack [OF assms] unat_kstack [of q] by simp
  ultimately show ?thesis by blast
qed

theorem kstack_roundtrip_witness: "kstack_index (kstack 63) = 63 \<and> unat (kstack 63) + 2 * 4096 \<le> unat (kstack 62)"
  using kstack_roundtrip [of 63] by simp

end
