(* ===== verification/Allocator.thy ===== *)
theory Allocator
  imports Memory_Layout
begin

text \<open>
  The page allocator, src/kernel/src/allocator.rs. Free pages form a linked list whose links are in
  the pages themselves. The model keeps the field \<open>next\<close> of the page at an address as a function of
  that address; the other bytes of a free page are not looked at. \<open>kend\<close> is the linker's symbol \<open>end\<close>, the
  first address behind the kernel image.
\<close>

record allocator =
  head :: "usize option"
  next_page :: "usize \<Rightarrow> usize option"

definition allocator_empty :: "(usize \<Rightarrow> usize option) \<Rightarrow> allocator" where
  "allocator_empty mem = \<lparr>head = None, next_page = mem\<rparr>"

definition allocate_page :: "allocator \<Rightarrow> usize option \<times> allocator" where
  "allocate_page a = (case head a of
     None \<Rightarrow> (None, a)
   | Some page \<Rightarrow> (Some page, a\<lparr>head := next_page a page\<rparr>))"

definition deallocate_page :: "usize \<Rightarrow> usize \<Rightarrow> allocator \<Rightarrow> allocator kernel" where
  "deallocate_page kend page a = do {
     assertk (page mod PGSIZE = 0);
     assertk (page \<ge> kend);
     assertk (page < PHYSTOP);
     Some (a\<lparr>next_page := (next_page a)(page := head a), head := Some page\<rparr>) }"

text \<open>
  \<open>register_pages\<close>: the pages of \<open>addr_start..=(addr_end - PGSIZE)\<close> in steps of \<open>PGSIZE\<close>, none when the range
  is empty. \<open>NonNull::new(page).unwrap()\<close> panics at address 0.
\<close>

definition page_range :: "usize \<Rightarrow> usize \<Rightarrow> usize list" where
  "page_range first last_incl =
     (if first \<le> last_incl then map (\<lambda>i. first + of_nat i * PGSIZE) [0..<(unat last_incl - unat first) div 4096 + 1] else [])"

definition register_pages :: "usize \<Rightarrow> usize \<Rightarrow> usize \<Rightarrow> allocator \<Rightarrow> allocator kernel" where
  "register_pages kend addr_start addr_end a =
     for_each (\<lambda>page a. do { assertk (page \<noteq> 0); deallocate_page kend page a })
       (page_range (pg_roundup addr_start) (addr_end - PGSIZE)) a"

text \<open>\<open>Allocator::allocate\<close> and \<open>deallocate\<close> for a layout of the given size and alignment.\<close>

definition allocate :: "nat \<Rightarrow> nat \<Rightarrow> allocator \<Rightarrow> (usize, unit) result \<times> allocator" where
  "allocate layout_size align a =
     (if 4096 < layout_size then (Err (), a)
      else if 4096 mod align \<noteq> 0 then (Err (), a)
      else case allocate_page a of
        (Some ptr, a) \<Rightarrow> (Ok ptr, a)
      | (None, a) \<Rightarrow> (Err (), a))"

definition deallocate :: "usize \<Rightarrow> usize \<Rightarrow> allocator \<Rightarrow> allocator kernel" where
  "deallocate kend ptr a = deallocate_page kend ptr a"

definition global_alloc :: "nat \<Rightarrow> nat \<Rightarrow> allocator \<Rightarrow> usize \<times> allocator" where
  "global_alloc layout_size align a = (case allocate layout_size align a of
     (Ok ptr, a) \<Rightarrow> (ptr, a)
   | (Err _, a) \<Rightarrow> (0, a))"

definition global_dealloc :: "usize \<Rightarrow> usize \<Rightarrow> allocator \<Rightarrow> allocator kernel" where
  "global_dealloc kend ptr a = deallocate kend ptr a"

definition allocator_initialize :: "usize \<Rightarrow> allocator \<Rightarrow> allocator kernel" where
  "allocator_initialize kend a = do {
     assertk (head a = None);
     register_pages kend kend PHYSTOP a }"

subsection \<open>The free list\<close>

text \<open>
  \<open>chain next h ps\<close>: the list from \<open>h\<close> along \<open>next\<close> is \<open>ps\<close>. The allocator is in order when the chain from
  its head is a list of distinct pages of the managed area.
\<close>

fun chain :: "(usize \<Rightarrow> usize option) \<Rightarrow> usize option \<Rightarrow> usize list \<Rightarrow> bool" where
  "chain nx h [] \<longleftrightarrow> h = None"
| "chain nx h (p # ps) \<longleftrightarrow> h = Some p \<and> chain nx (nx p) ps"

definition managed :: "usize \<Rightarrow> usize \<Rightarrow> bool" where
  "managed kend p \<longleftrightarrow> aligned p \<and> kend \<le> p \<and> p < PHYSTOP"

definition free_list :: "usize \<Rightarrow> allocator \<Rightarrow> usize list \<Rightarrow> bool" where
  "free_list kend a ps \<longleftrightarrow> chain (next_page a) (head a) ps \<and> distinct ps \<and> list_all (managed kend) ps"

definition alloc_inv :: "usize \<Rightarrow> allocator \<Rightarrow> bool" where
  "alloc_inv kend a \<longleftrightarrow> (\<exists>ps. free_list kend a ps)"

definition free_pages :: "allocator \<Rightarrow> usize set" where
  "free_pages a = {p. \<exists>ps. chain (next_page a) (head a) ps \<and> p \<in> set ps}"

lemma chain_fun: "chain nx h ps \<Longrightarrow> chain nx h qs \<Longrightarrow> ps = qs"
proof (induction ps arbitrary: h qs)
  case Nil
  then show ?case by (cases qs) auto
next
  case (Cons p ps)
  then show ?case by (cases qs) auto
qed

lemma chain_cong: "chain nx h ps \<Longrightarrow> p \<notin> set ps \<Longrightarrow> chain (nx(p := x)) h ps"
  by (induction ps arbitrary: h) auto

lemma free_pages_eq: "free_list kend a ps \<Longrightarrow> free_pages a = set ps"
  by (auto simp: free_pages_def free_list_def dest: chain_fun)

lemma managed_iff: "managed kend p \<longleftrightarrow> p mod PGSIZE = 0 \<and> kend \<le> p \<and> p < PHYSTOP"
  by (simp add: managed_def word_unat_eq_iff unat_mod_distrib)

text \<open>The interface of a page allocator.\<close>

locale page_allocator =
  fixes invar :: "'a \<Rightarrow> bool"
    and free :: "'a \<Rightarrow> usize set"
    and page_ok :: "usize \<Rightarrow> bool"
    and alloc :: "'a \<Rightarrow> usize option \<times> 'a"
    and dealloc :: "usize \<Rightarrow> 'a \<Rightarrow> 'a kernel"
  assumes alloc_Some: "invar a \<Longrightarrow> alloc a = (Some p, a') \<Longrightarrow> invar a' \<and> p \<in> free a \<and> free a' = free a - {p}"
    and alloc_None: "invar a \<Longrightarrow> alloc a = (None, a') \<Longrightarrow> a' = a \<and> free a = {}"
    and free_ok: "invar a \<Longrightarrow> p \<in> free a \<Longrightarrow> page_ok p"
    and dealloc_ok: "invar a \<Longrightarrow> page_ok p \<Longrightarrow> p \<notin> free a \<Longrightarrow>
      \<exists>a'. dealloc p a = Some a' \<and> invar a' \<and> free a' = insert p (free a)"
    and dealloc_bad: "\<not> page_ok p \<Longrightarrow> dealloc p a = None"
begin

lemma alloc_twice:
  assumes "invar a" "alloc a = (Some p, a')" "alloc a' = (Some q, a'')"
  shows "p \<noteq> q \<and> p \<notin> free a'' \<and> q \<notin> free a''"
  using alloc_Some [OF assms(1,2)] alloc_Some [OF _ assms(3)] by auto

lemma alloc_dealloc:
  assumes "invar a" "alloc a = (Some p, a')"
  shows "\<exists>a''. dealloc p a' = Some a'' \<and> invar a'' \<and> free a'' = free a"
  using alloc_Some [OF assms] dealloc_ok [of a' p] free_ok [OF assms(1), of p] by auto

lemma alloc_available: "invar a \<Longrightarrow> free a \<noteq> {} \<Longrightarrow> \<exists>p a'. alloc a = (Some p, a')"
  using alloc_None by (cases "alloc a", cases "fst (alloc a)") auto

lemma dealloc_all:
  assumes "invar a" "distinct ps" "\<And>p. p \<in> set ps \<Longrightarrow> page_ok p \<and> p \<notin> free a"
  shows "\<exists>a'. for_each dealloc ps a = Some a' \<and> invar a' \<and> free a' = set ps \<union> free a"
  using assms
proof (induction ps arbitrary: a)
  case (Cons p ps)
  then obtain a1 where a1: "dealloc p a = Some a1" "invar a1" "free a1 = insert p (free a)"
    using dealloc_ok [of a p] by auto
  then show ?case using Cons.IH [OF a1(2)] Cons.prems by auto
qed simp

end

interpretation ka: page_allocator "alloc_inv kend" free_pages "managed kend" allocate_page "deallocate_page kend" for kend
proof (unfold_locales, goal_cases)
  case (1 a p a')
  then obtain ps where ps: "free_list kend a ps" by (auto simp: alloc_inv_def)
  then obtain qs where qs: "ps = p # qs" "a' = a\<lparr>head := next_page a p\<rparr>"
    using 1(2) by (cases ps) (auto simp: free_list_def allocate_page_def)
  have "free_list kend a' qs" using ps qs by (simp add: free_list_def)
  then show ?case using free_pages_eq [OF ps] free_pages_eq [of kend a' qs] ps qs
    by (auto simp: alloc_inv_def free_list_def)
next
  case (2 a a')
  then have "head a = None" "a' = a" by (auto simp: allocate_page_def split: option.splits)
  moreover obtain ps where ps: "free_list kend a ps" using 2 by (auto simp: alloc_inv_def)
  ultimately show ?case using free_pages_eq [OF ps] by (cases ps) (auto simp: free_list_def)
next
  case (3 a p)
  then obtain ps where ps: "free_list kend a ps" by (auto simp: alloc_inv_def)
  then show ?case using 3(2) free_pages_eq [OF ps] by (auto simp: free_list_def list_all_iff)
next
  case (4 a p)
  then obtain ps where ps: "free_list kend a ps" by (auto simp: alloc_inv_def)
  let ?a = "a\<lparr>next_page := (next_page a)(p := head a), head := Some p\<rparr>"
  have "p \<notin> set ps" using 4(3) free_pages_eq [OF ps] by simp
  then have l: "free_list kend ?a (p # ps)" using ps 4(2) chain_cong by (simp add: free_list_def)
  have "deallocate_page kend p a = Some ?a" using 4(2) by (simp add: deallocate_page_def managed_iff)
  then show ?case using l free_pages_eq [OF l] free_pages_eq [OF ps] by (auto simp: alloc_inv_def)
next
  case (5 p a)
  then show ?case by (auto simp: deallocate_page_def managed_iff assertk_def)
qed

lemma allocate_page_sized: "allocate 4096 4096 a = (case allocate_page a of (Some p, a) \<Rightarrow> (Ok p, a) | (None, a) \<Rightarrow> (Err (), a))"
  by (simp add: allocate_def)

lemma page_range_nat:
  assumes "first \<le> last_incl" "i < (unat last_incl - unat first) div 4096 + 1"
  shows "unat (first + of_nat i * PGSIZE) = unat first + i * 4096" "unat first + i * 4096 \<le> unat last_incl"
proof -
  have "i \<le> (unat last_incl - unat first) div 4096" using assms(2) by linarith
  then have "i * 4096 \<le> unat last_incl - unat first" using less_eq_div_iff_mult_less_eq [of 4096 i] by simp
  then show le: "unat first + i * 4096 \<le> unat last_incl" using assms(1) by (simp add: word_le_nat_alt)
  show "unat (first + of_nat i * PGSIZE) = unat first + i * 4096"
    using le unsigned_less [of last_incl, where 'a = nat] by (intro unat_add_pages) simp
qed

lemma distinct_page_range: "distinct (page_range first last_incl)"
proof (cases "first \<le> last_incl")
  case True
  then have "inj_on (\<lambda>i. first + of_nat i * PGSIZE) {0..<(unat last_incl - unat first) div 4096 + 1}"
    using page_range_nat(1) [OF True] by (intro inj_onI) (metis add_left_cancel atLeastLessThan_iff mult_cancel2 zero_neq_numeral)
  then show ?thesis using True by (simp only: page_range_def if_True distinct_map distinct_upt set_upt)
qed (simp add: page_range_def)

lemma in_page_range:
  "p \<in> set (page_range first last_incl) \<longleftrightarrow> first \<le> last_incl \<and>
    (\<exists>i<(unat last_incl - unat first) div 4096 + 1. p = first + of_nat i * PGSIZE)"
proof (cases "first \<le> last_incl")
  case True
  then show ?thesis
    by (simp only: page_range_def if_True set_map set_upt image_iff simp_thms Bex_def atLeastLessThan_iff zero_le)
qed (simp add: page_range_def)

lemma set_page_range:
  assumes "aligned first"
  shows "set (page_range first last_incl) = {p. aligned p \<and> first \<le> p \<and> p \<le> last_incl}" (is "?L = ?R")
proof (intro equalityI subsetI)
  fix p assume "p \<in> ?L"
  then obtain i where "first \<le> last_incl" "i < (unat last_incl - unat first) div 4096 + 1" "p = first + of_nat i * PGSIZE"
    unfolding in_page_range by blast
  then have "unat p = unat first + i * 4096" "unat p \<le> unat last_incl" using page_range_nat by metis+
  then show "p \<in> ?R" using assms by (simp add: word_le_nat_alt)
next
  fix p assume p: "p \<in> ?R"
  let ?i = "(unat p - unat first) div 4096"
  have le: "unat first \<le> unat p" "unat p \<le> unat last_incl" using p by (simp_all add: word_le_nat_alt)
  have "4096 dvd unat p - unat first" using p assms by (simp add: dvd_diff_nat mod_0_imp_dvd)
  then have i: "unat p = unat first + ?i * 4096" using le(1) by simp
  have f: "first \<le> last_incl" using le by (simp add: word_le_nat_alt)
  have "?i < (unat last_incl - unat first) div 4096 + 1" using le by (simp add: div_le_mono less_Suc_eq_le)
  moreover have "p = first + of_nat ?i * PGSIZE"
    using page_range_nat(1) [OF f \<open>?i < _\<close>] i by (simp only: word_unat_eq_iff)
  ultimately show "p \<in> ?L" using f unfolding in_page_range by blast
qed

subsection \<open>Properties\<close>

text \<open>
  C36. After \<open>initialize\<close>, the allocator has every page of the area behind the kernel image: the free pages
  are exactly the aligned page addresses from \<open>end\<close> up to \<open>PHYSTOP\<close>, each of them once, and no assertion of
  \<open>deallocate_page\<close> fails on the way.
\<close>

theorem allocator_initialize_correct:
  assumes "head a = None" and "0 < kend" "kend \<le> PHYSTOP - PGSIZE"
  shows "\<exists>a'. allocator_initialize kend a = Some a' \<and> alloc_inv kend a' \<and> free_pages a' = {p. managed kend p}"
proof -
  let ?ps = "page_range (pg_roundup kend) (PHYSTOP - PGSIZE)"
  have stop: "unat PHYSTOP = 0x88000000" "unat (PHYSTOP - PGSIZE) = 0x87FFF000" by (simp_all add: layout_defs)
  have k: "unat kend \<le> 0x87FFF000" using assms(3) stop by (simp add: word_le_nat_alt)
  have up: "unat (pg_roundup kend) = (unat kend + 4095) div 4096 * 4096" using k by (intro unat_roundup) simp
  have al: "aligned (pg_roundup kend)" unfolding up by simp
  have ge: "pg_roundup kend \<le> p \<longleftrightarrow> kend \<le> p" if p: "aligned p" for p
  proof -
    obtain m where "unat p = m * 4096" using aligned_multiple [OF p] by blast
    then show ?thesis by (simp add: word_le_nat_alt up) linarith
  qed
  have le: "p \<le> PHYSTOP - PGSIZE \<longleftrightarrow> p < PHYSTOP" if p: "aligned p" for p
  proof -
    obtain m where "unat p = m * 4096" using aligned_multiple [OF p] by blast
    then show ?thesis by (simp add: word_le_nat_alt word_less_nat_alt stop) linarith
  qed
  have set: "set ?ps = {p. managed kend p}" unfolding set_page_range [OF al] managed_def
    by (simp only: ge le cong: conj_cong)
  have nz: "p \<noteq> 0" if "p \<in> set ?ps" for p using that assms(2) unfolding set by (auto simp: managed_def word_less_nat_alt)
  have "for_each (\<lambda>page a. do { assertk (page \<noteq> 0); deallocate_page kend page a }) ps a = for_each (deallocate_page kend) ps a"
    if "\<And>p. p \<in> set ps \<Longrightarrow> p \<noteq> 0" for ps a using that by (induction ps arbitrary: a) (auto simp: split: Option.bind_splits)
  then have run: "allocator_initialize kend a = for_each (deallocate_page kend) ?ps a"
    using assms(1) nz by (simp add: allocator_initialize_def register_pages_def)
  have l: "free_list kend a []" using assms(1) by (simp add: free_list_def)
  then have inv: "alloc_inv kend a" and emp: "free_pages a = {}" using free_pages_eq [OF l] by (auto simp: alloc_inv_def)
  show ?thesis using ka.dealloc_all [OF inv distinct_page_range, of "pg_roundup kend" "PHYSTOP - PGSIZE"] set emp run by simp
qed

theorem allocator_initialize_correct_witness:
  "\<exists>a'. allocator_initialize 0x80020000 (allocator_empty (\<lambda>_. None)) = Some a' \<and> 0x80020000 \<in> free_pages a' \<and>
    0x87FFF000 \<in> free_pages a' \<and> 0x88000000 \<notin> free_pages a'"
proof -
  have h: "head (allocator_empty (\<lambda>_. None)) = None" by (simp add: allocator_empty_def)
  have k: "(0x80020000 :: usize) \<le> PHYSTOP - PGSIZE" by (simp add: layout_defs)
  show ?thesis using allocator_initialize_correct [OF h _ k] by (auto simp: managed_def layout_defs)
qed

text \<open>
  C35. \<open>allocate\<close> for one page hands out a page that was free and is aligned and in the managed area, takes
  just that page from the free pages, and fails only when there is none; giving the page back restores
  the free pages. A larger layout is refused.
\<close>

theorem allocate_correct:
  assumes inv: "alloc_inv kend a" and l: "0 < align" "4096 mod align = 0"
  shows "case allocate sz align a of
      (Ok p, a') \<Rightarrow> sz \<le> 4096 \<and> p \<in> free_pages a \<and> managed kend p \<and> alloc_inv kend a' \<and> free_pages a' = free_pages a - {p} \<and>
        (\<exists>a''. deallocate kend p a' = Some a'' \<and> alloc_inv kend a'' \<and> free_pages a'' = free_pages a)
    | (Err _, a') \<Rightarrow> a' = a \<and> (4096 < sz \<or> free_pages a = {})"
proof (cases "allocate_page a")
  case (Pair r a')
  show ?thesis
  proof (cases r)
    case None
    then show ?thesis using ka.alloc_None [OF inv] Pair l by (simp add: allocate_def)
  next
    case (Some p)
    note al = Pair [unfolded Some]
    show ?thesis
      using ka.alloc_Some [OF inv al] ka.free_ok [OF inv] ka.alloc_dealloc [OF inv al] al l
      by (simp add: allocate_def deallocate_def)
  qed
qed

theorem allocate_correct_witness:
  "case allocate 4096 8 \<lparr>head = Some 0x80021000, next_page = \<lambda>_. None\<rparr> of
      (Ok p, a') \<Rightarrow> p \<in> free_pages \<lparr>head = Some 0x80021000, next_page = \<lambda>_. None\<rparr> \<and> free_pages a' = {} \<and>
         alloc_inv 0x80020000 a'
    | (Err _, a') \<Rightarrow> False"
proof -
  let ?a = "\<lparr>head = Some 0x80021000, next_page = \<lambda>_. None\<rparr>"
  have l: "free_list 0x80020000 ?a [0x80021000]" by (simp add: free_list_def managed_def layout_defs)
  then have inv: "alloc_inv 0x80020000 ?a" by (auto simp: alloc_inv_def)
  have e: "allocate 4096 8 ?a = (Ok 0x80021000, \<lparr>head = None, next_page = \<lambda>_. None\<rparr>)" by (simp add: allocate_def allocate_page_def)
  from allocate_correct [OF inv, of 8 4096] show ?thesis
    using free_pages_eq [OF l] by (simp add: e)
qed

end
