(* ===== verification/Paging.thy ===== *)
theory Paging
  imports Allocator Bytes
begin

text \<open>
  Sv39 page tables, src/kernel/src/riscv/paging.rs. The memory that page tables are made of is explicit:
  \<open>tables\<close> gives the 512 entries of the page-table page at an address, \<open>pages\<close> the 4096 bytes of the
  page at an address. A page is initialised in full whenever it becomes one or the other, so that the two views
  never have to be converted. \<open>kend\<close> is the linker's symbol \<open>end\<close>, as for the allocator.
\<close>

subsection \<open>Page-table entries\<close>

definition PTE_V :: u64 where "PTE_V = push_bit 0 1"
definition PTE_R :: u64 where "PTE_R = push_bit 1 1"
definition PTE_W :: u64 where "PTE_W = push_bit 2 1"
definition PTE_X :: u64 where "PTE_X = push_bit 3 1"
definition PTE_U :: u64 where "PTE_U = push_bit 4 1"

definition pte_set_bit :: "bool \<Rightarrow> u64 \<Rightarrow> u64 \<Rightarrow> u64" where
  "pte_set_bit b msk pte = (if b then pte OR msk else pte AND NOT msk)"

definition pte_index :: "nat \<Rightarrow> usize \<Rightarrow> nat" where
  "pte_index level va = (let msk = 0x1FF; shift = PGSHIFT + 9 * level in unat (drop_bit shift va AND msk))"

definition pte_invalid :: u64 where "pte_invalid = 0"
definition set_valid :: "bool \<Rightarrow> u64 \<Rightarrow> u64" where "set_valid b = pte_set_bit b PTE_V"
definition set_readable :: "bool \<Rightarrow> u64 \<Rightarrow> u64" where "set_readable b = pte_set_bit b PTE_R"
definition set_writable :: "bool \<Rightarrow> u64 \<Rightarrow> u64" where "set_writable b = pte_set_bit b PTE_W"
definition set_executable :: "bool \<Rightarrow> u64 \<Rightarrow> u64" where "set_executable b = pte_set_bit b PTE_X"
definition set_user_access :: "bool \<Rightarrow> u64 \<Rightarrow> u64" where "set_user_access b = pte_set_bit b PTE_U"
definition is_valid :: "u64 \<Rightarrow> bool" where "is_valid pte \<longleftrightarrow> pte AND PTE_V \<noteq> 0"
definition is_readable :: "u64 \<Rightarrow> bool" where "is_readable pte \<longleftrightarrow> pte AND PTE_R \<noteq> 0"
definition is_writable :: "u64 \<Rightarrow> bool" where "is_writable pte \<longleftrightarrow> pte AND PTE_W \<noteq> 0"
definition is_executable :: "u64 \<Rightarrow> bool" where "is_executable pte \<longleftrightarrow> pte AND PTE_X \<noteq> 0"
definition can_user_access :: "u64 \<Rightarrow> bool" where "can_user_access pte \<longleftrightarrow> pte AND PTE_U \<noteq> 0"

definition set_physical_addr :: "usize \<Rightarrow> u64 \<Rightarrow> u64" where
  "set_physical_addr pa pte =
     (pte AND NOT (push_bit 10 (drop_bit 10 (drop_bit 10 (push_bit 10 (NOT 0)))))) OR push_bit 10 (drop_bit 12 pa)"

definition get_physical_addr :: "u64 \<Rightarrow> usize" where
  "get_physical_addr pte = push_bit 12 (drop_bit 10 pte)"

definition set_flags :: "u64 \<Rightarrow> u64 \<Rightarrow> u64 kernel" where
  "set_flags flags pte = do {
     assertk (flags AND 0x3ff = flags);
     Some ((pte AND NOT 0x3ff) OR flags) }"

definition get_flags :: "u64 \<Rightarrow> u64" where
  "get_flags pte = pte AND 0x3ff"

subsection \<open>Walking the tables\<close>

record machine =
  kalloc :: allocator
  tables :: "usize \<Rightarrow> u64 list"
  pages :: "usize \<Rightarrow> u8 list"

definition read_pte :: "machine \<Rightarrow> usize \<times> nat \<Rightarrow> u64" where
  "read_pte s = (\<lambda>(t, i). tables s t ! i)"

definition write_pte :: "usize \<times> nat \<Rightarrow> u64 \<Rightarrow> machine \<Rightarrow> machine" where
  "write_pte = (\<lambda>(t, i) v s. s\<lparr>tables := (tables s)(t := (tables s t)[i := v])\<rparr>)"

definition pt_allocate_in :: "machine \<Rightarrow> (usize, unit) result \<times> machine" where
  "pt_allocate_in s = (case allocate 4096 8 (kalloc s) of
     (Err _, a) \<Rightarrow> (Err (), s\<lparr>kalloc := a\<rparr>)
   | (Ok t, a) \<Rightarrow> (Ok t, s\<lparr>kalloc := a, tables := (tables s)(t := replicate 512 pte_invalid)\<rparr>))"

text \<open>
  One iteration of the loop of \<open>search_entry\<close>, at the table \<open>table\<close>. The mutable reference that
  \<open>search_entry\<close> returns is the address of the table and the index of the entry.
\<close>

definition walk :: "bool \<Rightarrow> usize \<Rightarrow> nat \<Rightarrow> usize \<times> machine \<Rightarrow> (usize, unit) result \<times> machine" where
  "walk alloc va level = (\<lambda>(table, s).
     let index = pte_index level va; pte = read_pte s (table, index) in
     if is_valid pte then (Ok (get_physical_addr pte), s)
     else if \<not> alloc then (Err (), s)
     else case pt_allocate_in s of
       (Err _, s) \<Rightarrow> (Err (), s)
     | (Ok new_table, s) \<Rightarrow>
         (Ok new_table, write_pte (table, index) (set_valid True (set_physical_addr new_table pte_invalid)) s))"

definition search_entry :: "usize \<Rightarrow> usize \<Rightarrow> bool \<Rightarrow> machine \<Rightarrow> ((usize \<times> nat, unit) result \<times> machine) kernel" where
  "search_entry root va alloc s = do {
     assertk (va < MAXVA);
     Some (case walk alloc va 2 (root, s) of
       (Err _, s) \<Rightarrow> (Err (), s)
     | (Ok table, s) \<Rightarrow> (case walk alloc va 1 (table, s) of
         (Err _, s) \<Rightarrow> (Err (), s)
       | (Ok table, s) \<Rightarrow> (Ok (table, pte_index 0 va), s))) }"

lemma search_entry_bound: "search_entry root va alloc s = Some r \<Longrightarrow> unat va < 2 ^ 38"
  by (auto simp: search_entry_def kernel_simps MAXVA_def word_less_nat_alt)

text \<open>The loop of \<open>map\<close>; \<open>search_entry\<close> panics before \<open>va\<close> can wrap around.\<close>

function map_loop :: "usize \<Rightarrow> usize \<Rightarrow> usize \<Rightarrow> usize \<Rightarrow> u64 \<Rightarrow> machine \<Rightarrow> ((unit, unit) result \<times> machine) kernel" where
  "map_loop root va pa final flags s = do {
     (r, s) \<leftarrow> search_entry root va True s;
     case r of
       Err _ \<Rightarrow> Some (Err (), s)
     | Ok e \<Rightarrow> do {
         assertk (\<not> is_valid (read_pte s e));
         pte \<leftarrow> set_flags flags (set_physical_addr pa pte_invalid);
         let s = write_pte e (set_valid True pte) s;
         if va = final then Some (Ok (), s)
         else map_loop root (va + PGSIZE) (pa + PGSIZE) final flags s } }"
  by pat_completeness auto

termination map_loop
proof (relation "measure (\<lambda>(root, va, pa, last, flags, s). 2 ^ 38 - unat va)", goal_cases)
  case (2 root va pa final flags s p r s')
  then have "unat va < 2 ^ 38" using search_entry_bound by blast
  then show ?case by (simp add: PGSIZE_def unat_word_ariths)
qed simp

declare map_loop.simps [simp del]

definition pt_map :: "usize \<Rightarrow> usize \<Rightarrow> usize \<Rightarrow> usize \<Rightarrow> u64 \<Rightarrow> machine \<Rightarrow> ((unit, unit) result \<times> machine) kernel" where
  "pt_map root va pa sz flags s = do {
     assertk (sz > 0);
     let va = pg_rounddown va;
     let final = pg_rounddown (va + sz - 1);
     map_loop root va pa final flags s }"

definition unmap_page :: "usize \<Rightarrow> usize \<Rightarrow> bool \<Rightarrow> usize \<Rightarrow> machine \<Rightarrow> machine kernel" where
  "unmap_page kend root free va s = do {
     (r, s) \<leftarrow> search_entry root va False s;
     e \<leftarrow> unwrap r;
     let pte = read_pte s e;
     assertk (is_valid pte);
     assertk (get_flags pte \<noteq> PTE_V);
     s \<leftarrow> (if free then do {
              let ptr = get_physical_addr pte;
              assertk (ptr \<noteq> 0);
              a \<leftarrow> deallocate kend ptr (kalloc s);
              Some (s\<lparr>kalloc := a\<rparr>) }
            else Some s);
     Some (write_pte e pte_invalid s) }"

definition unmap :: "usize \<Rightarrow> usize \<Rightarrow> usize \<Rightarrow> nat \<Rightarrow> bool \<Rightarrow> machine \<Rightarrow> machine kernel" where
  "unmap kend root va npages free s = do {
     assertk (va mod PGSIZE = 0);
     for_each (unmap_page kend root free) (map (\<lambda>i. va + of_nat i * PGSIZE) [0..<npages]) s }"

definition shrink :: "usize \<Rightarrow> usize \<Rightarrow> usize \<Rightarrow> usize \<Rightarrow> machine \<Rightarrow> ((usize, unit) result \<times> machine) kernel" where
  "shrink kend root old_size new_size s =
     (if new_size \<ge> old_size then Some (Ok old_size, s)
      else let shrink_start = pg_roundup new_size; shrink_end = pg_roundup old_size in
        if shrink_start \<noteq> shrink_end then do {
          let npages = (shrink_end - shrink_start) div PGSIZE;
          s \<leftarrow> unmap kend root shrink_start (unat npages) True s;
          Some (Ok new_size, s) }
        else Some (Ok new_size, s))"

text \<open>The addresses \<open>(start..end).step_by(PGSIZE)\<close>.\<close>

definition step_range :: "usize \<Rightarrow> usize \<Rightarrow> usize list" where
  "step_range start stop = map (\<lambda>i. start + of_nat i * PGSIZE) [0..<(unat stop - unat start + 4095) div 4096]"

fun grow_loop :: "usize \<Rightarrow> usize \<Rightarrow> usize \<Rightarrow> usize \<Rightarrow> u64 \<Rightarrow> usize list \<Rightarrow> machine \<Rightarrow> ((usize, unit) result \<times> machine) kernel" where
  "grow_loop kend root old_size new_size perm [] s = Some (Ok new_size, s)"
| "grow_loop kend root old_size new_size perm (a # as) s =
     (case allocate 4096 4096 (kalloc s) of
        (Err _, al) \<Rightarrow> do {
          (r, s) \<leftarrow> shrink kend root a old_size (s\<lparr>kalloc := al\<rparr>);
          _ \<leftarrow> unwrap r;
          Some (Err (), s) }
      | (Ok ptr, al) \<Rightarrow> do {
          let s = s\<lparr>kalloc := al, pages := (pages s)(ptr := replicate 4096 0)\<rparr>;
          (result, s) \<leftarrow> pt_map root a ptr PGSIZE (perm OR PTE_R OR PTE_U) s;
          if \<not> is_ok result then do {
            al \<leftarrow> deallocate kend ptr (kalloc s);
            (r, s) \<leftarrow> shrink kend root a old_size (s\<lparr>kalloc := al\<rparr>);
            _ \<leftarrow> unwrap r;
            Some (Err (), s) }
          else grow_loop kend root old_size new_size perm as s })"

definition grow :: "usize \<Rightarrow> usize \<Rightarrow> usize \<Rightarrow> usize \<Rightarrow> u64 \<Rightarrow> machine \<Rightarrow> ((usize, unit) result \<times> machine) kernel" where
  "grow kend root old_size new_size perm s =
     (if new_size < old_size then Some (Ok old_size, s)
      else grow_loop kend root old_size new_size perm (step_range (pg_roundup old_size) new_size) s)"

fun copy_loop :: "usize \<Rightarrow> usize \<Rightarrow> usize \<Rightarrow> usize list \<Rightarrow> machine \<Rightarrow> ((unit, unit) result \<times> machine) kernel" where
  "copy_loop kend root dst [] s = Some (Ok (), s)"
| "copy_loop kend root dst (i # is) s = do {
     (r, s) \<leftarrow> search_entry root i False s;
     e \<leftarrow> unwrap r;
     let pte = read_pte s e;
     assertk (is_valid pte);
     case allocate 4096 4096 (kalloc s) of
       (Err _, al) \<Rightarrow> do {
         s \<leftarrow> unmap kend dst 0 (unat (i div PGSIZE)) True (s\<lparr>kalloc := al\<rparr>);
         Some (Err (), s) }
     | (Ok page, al) \<Rightarrow> do {
         let pa = get_physical_addr pte;
         let flags = get_flags pte;
         let s = s\<lparr>kalloc := al, pages := (pages s)(page := pages s pa)\<rparr>;
         (result, s) \<leftarrow> pt_map dst i page PGSIZE flags s;
         case result of
           Err _ \<Rightarrow> do {
             al \<leftarrow> deallocate kend page (kalloc s);
             s \<leftarrow> unmap kend dst 0 (unat (i div PGSIZE)) True (s\<lparr>kalloc := al\<rparr>);
             Some (Err (), s) }
         | Ok _ \<Rightarrow> copy_loop kend root dst is s } }"

definition pt_copy :: "usize \<Rightarrow> usize \<Rightarrow> usize \<Rightarrow> usize \<Rightarrow> machine \<Rightarrow> ((unit, unit) result \<times> machine) kernel" where
  "pt_copy kend root dst sz s = copy_loop kend root dst (step_range 0 sz) s"

subsection \<open>User memory\<close>

definition virtual_to_physical :: "usize \<Rightarrow> usize \<Rightarrow> machine \<Rightarrow> usize option kernel" where
  "virtual_to_physical root va s =
     (if va \<ge> MAXVA then Some None
      else do {
        (r, s) \<leftarrow> search_entry root va False s;
        case r of
          Err _ \<Rightarrow> Some None
        | Ok e \<Rightarrow>
            let pte = read_pte s e in
            if \<not> is_valid pte then Some None
            else if \<not> can_user_access pte then Some None
            else Some (Some (get_physical_addr pte)) })"

text \<open>
  \<open>write\<close> and \<open>read\<close> of the bytes of a value, in chunks that end at a page boundary. A physical
  address \<open>pa0 + offset\<close> is the byte at \<open>offset\<close> of the page \<open>pa0\<close>.
\<close>

function write_bytes :: "usize \<Rightarrow> usize \<Rightarrow> u8 list \<Rightarrow> nat \<Rightarrow> machine \<Rightarrow> ((unit, nat) result \<times> machine) kernel" where
  "write_bytes root dst_va src copied s =
     (if copied < length src then
        let va0 = pg_rounddown dst_va in do {
          pa \<leftarrow> virtual_to_physical root va0 s;
          case pa of
            None \<Rightarrow> Some (Err copied, s)
          | Some pa0 \<Rightarrow>
              let offset = unat (dst_va - va0);
                  remain = length src - copied;
                  bytes = min (4096 - offset) remain;
                  s = s\<lparr>pages := (pages s)(pa0 := overwrite offset (subrange copied bytes src) (pages s pa0))\<rparr>
              in write_bytes root (va0 + PGSIZE) src (copied + bytes) s }
      else Some (Ok (), s))"
  by pat_completeness auto

termination write_bytes
  by (relation "measure (\<lambda>(root, dst_va, src, copied, s). length src - copied)")
    (auto simp: page_offset_less intro: diff_less_mono2)

declare write_bytes.simps [simp del]

definition pt_write :: "usize \<Rightarrow> usize \<Rightarrow> u8 list \<Rightarrow> machine \<Rightarrow> ((unit, nat) result \<times> machine) kernel" where
  "pt_write root dst_va src s = write_bytes root dst_va src 0 s"

function read_bytes :: "usize \<Rightarrow> nat \<Rightarrow> u8 list \<Rightarrow> usize \<Rightarrow> nat \<Rightarrow> machine \<Rightarrow> ((unit, nat) result \<times> u8 list) kernel" where
  "read_bytes root dst_size dst src_va copied s =
     (if copied < dst_size then
        let va0 = pg_rounddown src_va in do {
          pa \<leftarrow> virtual_to_physical root va0 s;
          case pa of
            None \<Rightarrow> Some (Err copied, dst)
          | Some pa0 \<Rightarrow>
              let offset = unat (src_va - va0);
                  remain = dst_size - copied;
                  bytes = min (4096 - offset) remain;
                  dst = overwrite copied (subrange offset bytes (pages s pa0)) dst
              in read_bytes root dst_size dst (va0 + PGSIZE) (copied + bytes) s }
      else Some (Ok (), dst))"
  by pat_completeness auto

termination read_bytes
  by (relation "measure (\<lambda>(root, dst_size, dst, src_va, copied, s). dst_size - copied)")
    (auto simp: page_offset_less intro: diff_less_mono2)

declare read_bytes.simps [simp del]

definition pt_read :: "usize \<Rightarrow> u8 list \<Rightarrow> usize \<Rightarrow> machine \<Rightarrow> ((unit, nat) result \<times> u8 list) kernel" where
  "pt_read root dst src_va s = read_bytes root (length dst) dst src_va 0 s"

text \<open>The inner loop of \<open>read_cstr\<close>: the position of the terminating null byte, if it is in the chunk.\<close>

fun scan_cstr :: "u8 list \<Rightarrow> nat \<Rightarrow> u8 list \<Rightarrow> nat option \<times> u8 list" where
  "scan_cstr [] pos dst = (None, dst)"
| "scan_cstr (c # cs) pos dst =
     (let dst = dst[pos := c] in if c = 0 then (Some pos, dst) else scan_cstr cs (pos + 1) dst)"

lemma length_scan_cstr [simp]: "length (snd (scan_cstr cs pos dst)) = length dst"
  by (induction cs arbitrary: pos dst) (auto simp: Let_def)

function cstr_loop :: "usize \<Rightarrow> u8 list \<Rightarrow> usize \<Rightarrow> nat \<Rightarrow> machine \<Rightarrow> ((nat, unit) result \<times> u8 list) kernel" where
  "cstr_loop root dst src_va n_read s =
     (if n_read < length dst then
        let va0 = pg_rounddown src_va in do {
          pa \<leftarrow> virtual_to_physical root va0 s;
          case pa of
            None \<Rightarrow> Some (Err (), dst)
          | Some pa0 \<Rightarrow>
              let offset = unat (src_va - va0);
                  n = min (4096 - offset) (length dst - n_read)
              in case scan_cstr (subrange offset n (pages s pa0)) n_read dst of
                (Some pos, dst) \<Rightarrow> Some (Ok pos, dst)
              | (None, dst) \<Rightarrow> cstr_loop root dst (va0 + PGSIZE) (n_read + n) s }
      else Some (Err (), dst))"
  by pat_completeness auto

termination cstr_loop
proof (relation "measure (\<lambda>(root, dst, src_va, n_read, s). length dst - n_read)", goal_cases)
  case (2 root dst src_va n_read s va0 pa pa0 offset n r dst')
  have "length dst' = length dst"
    using length_scan_cstr [of "subrange offset n (pages s pa0)" n_read dst] 2(7,8) by (metis snd_conv)
  moreover have "0 < n" using 2(1,2,5,6) by (simp add: page_offset_less)
  ultimately show ?case using 2(1) by (simp add: diff_less_mono2)
qed simp

declare cstr_loop.simps [simp del]

definition read_cstr :: "usize \<Rightarrow> u8 list \<Rightarrow> usize \<Rightarrow> machine \<Rightarrow> ((nat, unit) result \<times> u8 list) kernel" where
  "read_cstr root dst src_va s = cstr_loop root dst src_va 0 s"

text \<open>
  \<open>drop\<close> goes down the tables; the recursion ends because the entries of the lowest level that are left are
  invalid. The fuel bounds its depth, \<open>None\<close> when it is used up: three levels are enough for a page table.
  The table's page itself is given back when the box goes.
\<close>

fun pt_drop :: "usize \<Rightarrow> nat \<Rightarrow> usize \<Rightarrow> machine \<Rightarrow> machine kernel" where
  "pt_drop kend 0 t s = None"
| "pt_drop kend (Suc fuel) t s = do {
     s \<leftarrow> for_each (\<lambda>i s.
        let pte = read_pte s (t, i) in
        if is_valid pte then do {
          assertk (\<not> is_readable pte);
          assertk (\<not> is_writable pte);
          assertk (\<not> is_executable pte);
          s \<leftarrow> pt_drop kend fuel (get_physical_addr pte) s;
          Some (write_pte (t, i) pte_invalid s) }
        else Some s) [0..<512] s;
     a \<leftarrow> deallocate kend t (kalloc s);
     Some (s\<lparr>kalloc := a\<rparr>) }"

end
