(* ===== verification/Paging_Tree.thy ===== *)
theory Paging_Tree
  imports Paging
begin

text \<open>
  Page tables as trees: the entry codec, the invariant that the table pages reached from a root form a
  tree of distinct allocated pages, and what \<open>search_entry\<close> does to it. \<open>leaf\<close> is the abstraction of a
  page table: the valid lowest-level entry of a virtual address, if there is one.
\<close>

subsection \<open>Entries\<close>

lemma is_valid_iff: "is_valid pte \<longleftrightarrow> bit pte 0"
  using and_mask_neq_0 [of pte 0] by (simp add: is_valid_def PTE_V_def)

lemma can_user_access_iff: "can_user_access pte \<longleftrightarrow> bit pte 4"
  using and_mask_neq_0 [of pte 4] by (simp add: can_user_access_def PTE_U_def)

lemma not_valid_invalid [simp]: "\<not> is_valid pte_invalid"
  by (simp add: is_valid_iff pte_invalid_def)

text \<open>The entries that \<open>search_entry\<close> and \<open>map\<close> make.\<close>

definition table_pte :: "usize \<Rightarrow> u64" where
  "table_pte t = set_valid True (set_physical_addr t pte_invalid)"

definition leaf_pte :: "usize \<Rightarrow> u64 \<Rightarrow> u64" where
  "leaf_pte pa flags = push_bit 10 (drop_bit 12 pa) OR flags OR PTE_V"

lemma and_3ff: "x AND 0x3ff = take_bit 10 (x :: u64)" "x AND 0x1FF = take_bit 9 x"
  by (simp_all add: take_bit_eq_mask mask_eq_exp_minus_1)

lemma and_not_3ff: "x AND NOT 0x3ff = x AND NOT (mask 10 :: u64)"
  by (simp add: mask_eq_exp_minus_1)

lemma set_physical_addr_invalid: "set_physical_addr pa pte_invalid = push_bit 10 (drop_bit 12 pa)"
  by (simp add: set_physical_addr_def pte_invalid_def)

lemma set_flags_ok:
  assumes "flags AND 0x3ff = flags"
  shows "set_flags flags (set_physical_addr pa pte_invalid) = Some (push_bit 10 (drop_bit 12 pa) OR flags)"
proof -
  have "push_bit 10 (drop_bit 12 pa) AND NOT 0x3ff = (push_bit 10 (drop_bit 12 pa) :: u64)"
    unfolding and_not_3ff by (rule bit_word_eqI) (auto simp only: bit_and_iff bit_not_iff bit_push_bit_iff bit_mask_iff not_less)
  then show ?thesis using assms by (simp add: set_flags_def set_physical_addr_invalid)
qed

lemma flags_high: "flags AND 0x3ff = flags \<Longrightarrow> 10 \<le> n \<Longrightarrow> \<not> bit flags n" for flags :: u64
  by (metis and_3ff(1) bit_take_bit_iff not_less)

lemma leaf_pte_bits:
  "bit (leaf_pte pa flags) n \<longleftrightarrow> n < 64 \<and> 10 \<le> n \<and> bit pa (n + 2) \<or> bit flags n \<or> n = 0"
proof -
  have "bit (push_bit 10 (drop_bit 12 pa)) n \<longleftrightarrow> n < 64 \<and> 10 \<le> n \<and> bit pa (n + 2)"
  proof (cases "10 \<le> n")
    case True
    then have "12 + (n - 10) = n + 2" by simp
    then show ?thesis using True by (simp only: bit_push_bit_iff bit_drop_bit_eq comp_def) auto
  qed (simp add: bit_push_bit_iff)
  then show ?thesis by (simp add: leaf_pte_def PTE_V_def bit_or_iff bit_1_iff)
qed

lemma leaf_pte_facts:
  assumes "flags AND 0x3ff = flags"
  shows "is_valid (leaf_pte pa flags)" "get_physical_addr (leaf_pte pa flags) = pg_rounddown pa"
    "get_flags (leaf_pte pa flags) = flags OR PTE_V"
proof -
  show "is_valid (leaf_pte pa flags)" by (simp add: is_valid_iff leaf_pte_bits)
  show "get_physical_addr (leaf_pte pa flags) = pg_rounddown pa"
  proof (rule bit_word_eqI)
    fix n assume "n < LENGTH(64)"
    have "bit (get_physical_addr (leaf_pte pa flags)) n \<longleftrightarrow> 12 \<le> n \<and> bit (leaf_pte pa flags) (10 + (n - 12))"
      using \<open>n < _\<close> by (simp add: get_physical_addr_def bit_push_bit_iff bit_drop_bit_eq)
    also have "\<dots> \<longleftrightarrow> 12 \<le> n \<and> bit pa n"
      using flags_high [OF assms, of "10 + (n - 12)"] \<open>n < _\<close> by (auto simp: leaf_pte_bits)
    also have "\<dots> \<longleftrightarrow> bit (pg_rounddown pa) n"
      unfolding pg_rounddown_def page_mask bit_and_iff bit_not_iff bit_mask_iff using \<open>n < _\<close> by auto
    finally show "bit (get_physical_addr (leaf_pte pa flags)) n = bit (pg_rounddown pa) n" .
  qed
  show "get_flags (leaf_pte pa flags) = flags OR PTE_V"
  proof (rule bit_word_eqI)
    fix n
    have "bit flags n \<longrightarrow> n < 10" using flags_high [OF assms] by (meson not_less)
    then show "bit (get_flags (leaf_pte pa flags)) n = bit (flags OR PTE_V) n"
      unfolding get_flags_def and_3ff by (auto simp: bit_take_bit_iff leaf_pte_bits bit_or_iff PTE_V_def bit_1_iff)
  qed
qed

lemma table_pte_eq: "table_pte t = leaf_pte t 0"
  by (simp add: table_pte_def leaf_pte_def set_valid_def pte_set_bit_def set_physical_addr_invalid)

lemma table_pte_facts:
  "is_valid (table_pte t)" "aligned t \<Longrightarrow> get_physical_addr (table_pte t) = t"
  using leaf_pte_facts [of 0 t] rounddown_aligned [of t] by (simp_all add: table_pte_eq)

text \<open>
  The codec of page-table entries: an entry made by \<open>map\<close> from a page-aligned address and flags is
  valid and gives back that address, for all of the 52 bits of a page number, and those flags with the
  valid bit.
\<close>

theorem pte_roundtrip:
  assumes "aligned pa" "flags AND 0x3ff = flags"
  shows "\<exists>pte. set_flags flags (set_physical_addr pa pte_invalid) = Some pte \<and>
    is_valid (set_valid True pte) \<and> get_physical_addr (set_valid True pte) = pa \<and>
    get_flags (set_valid True pte) = flags OR PTE_V"
proof -
  let ?pte = "push_bit 10 (drop_bit 12 pa) OR flags"
  have "set_valid True ?pte = leaf_pte pa flags" by (simp add: set_valid_def pte_set_bit_def leaf_pte_def or.assoc)
  then show ?thesis
    using set_flags_ok [OF assms(2)] leaf_pte_facts [OF assms(2)] rounddown_aligned [OF assms(1)] by simp
qed

theorem pte_roundtrip_witness:
  "\<exists>pte. set_flags (PTE_R OR PTE_U) (set_physical_addr 0x80042000 pte_invalid) = Some pte \<and>
    get_physical_addr (set_valid True pte) = 0x80042000"
  using pte_roundtrip [of "0x80042000" "PTE_R OR PTE_U"] by (auto simp: PTE_R_def PTE_U_def)

subsection \<open>Indices\<close>

lemma pte_index_eq: "pte_index level va = unat (take_bit 9 (drop_bit (12 + 9 * level) va))"
  unfolding pte_index_def Let_def and_3ff PGSHIFT_def by (rule refl)

lemma pte_index_less [simp]: "pte_index level va < 512"
proof -
  have "pte_index level va = take_bit 9 (unat (drop_bit (12 + 9 * level) va))"
    unfolding pte_index_eq by (rule unsigned_take_bit_eq)
  also have "\<dots> < 2 ^ 9" by (rule take_bit_nat_less_exp)
  finally show ?thesis by simp
qed

definition indices :: "usize \<Rightarrow> nat \<times> nat \<times> nat" where
  "indices va = (pte_index 2 va, pte_index 1 va, pte_index 0 va)"

lemma pte_index_bits:
  "pte_index level va = pte_index level va' \<longleftrightarrow>
    (\<forall>n. 12 + 9 * level \<le> n \<and> n < 21 + 9 * level \<longrightarrow> bit va n = bit va' n)"
proof -
  have "pte_index level va = pte_index level va' \<longleftrightarrow>
    take_bit 9 (drop_bit (12 + 9 * level) va) = take_bit 9 (drop_bit (12 + 9 * level) va')"
    by (simp only: pte_index_eq word_unat_eq_iff)
  also have "\<dots> \<longleftrightarrow> (\<forall>n<9. bit va (12 + 9 * level + n) = bit va' (12 + 9 * level + n))"
  proof (rule iffI)
    assume h: "take_bit 9 (drop_bit (12 + 9 * level) va) = take_bit 9 (drop_bit (12 + 9 * level) va')"
    have "bit (take_bit 9 (drop_bit (12 + 9 * level) va)) n = bit (take_bit 9 (drop_bit (12 + 9 * level) va')) n" for n
      by (simp only: h)
    then show "\<forall>n<9. bit va (12 + 9 * level + n) = bit va' (12 + 9 * level + n)"
      unfolding bit_take_bit_iff bit_drop_bit_eq comp_def by blast
  next
    assume "\<forall>n<9. bit va (12 + 9 * level + n) = bit va' (12 + 9 * level + n)"
    then show "take_bit 9 (drop_bit (12 + 9 * level) va) = take_bit 9 (drop_bit (12 + 9 * level) va')"
      by (auto intro!: bit_word_eqI simp: bit_take_bit_iff bit_drop_bit_eq)
  qed
  also have "\<dots> \<longleftrightarrow> (\<forall>n. 12 + 9 * level \<le> n \<and> n < 21 + 9 * level \<longrightarrow> bit va n = bit va' n)"
  proof (rule iffI)
    assume h: "\<forall>n<9. bit va (12 + 9 * level + n) = bit va' (12 + 9 * level + n)"
    show "\<forall>n. 12 + 9 * level \<le> n \<and> n < 21 + 9 * level \<longrightarrow> bit va n = bit va' n"
    proof (intro allI impI)
      fix n assume n: "12 + 9 * level \<le> n \<and> n < 21 + 9 * level"
      then have "n - (12 + 9 * level) < 9" by linarith
      with n show "bit va n = bit va' n" using h [rule_format, of "n - (12 + 9 * level)"] by simp
    qed
  qed simp
  finally show ?thesis .
qed

lemma high_bits:
  assumes "va < MAXVA" "38 \<le> n"
  shows "\<not> bit va n"
proof -
  have "unat va < 2 ^ 38" using assms(1) by (simp add: MAXVA_def word_less_nat_alt)
  also have "(2 :: nat) ^ 38 \<le> 2 ^ n" using assms(2) by (simp only: power_increasing)
  finally have "take_bit n (unat va) = unat va" by (simp add: take_bit_nat_eq_self)
  then have "\<not> bit (unat va) n" by (metis bit_take_bit_iff less_irrefl)
  then show ?thesis by (simp add: bit_unsigned_iff)
qed

lemma same_page:
  assumes "va < MAXVA" "va' < MAXVA"
  shows "indices va = indices va' \<longleftrightarrow> pg_rounddown va = pg_rounddown va'"
proof -
  have high: "bit va n = bit va' n" if "38 \<le> n" for n using high_bits assms that by blast
  have r: "bit (pg_rounddown a) n \<longleftrightarrow> 12 \<le> n \<and> bit a n" for a n
    unfolding pg_rounddown_def page_mask bit_and_iff bit_not_iff bit_mask_iff
    using bit_imp_le_length [of a n] by auto
  have "pg_rounddown va = pg_rounddown va' \<longleftrightarrow> (\<forall>n. 12 \<le> n \<and> n < 39 \<longrightarrow> bit va n = bit va' n)"
  proof
    assume "pg_rounddown va = pg_rounddown va'"
    then show "\<forall>n. 12 \<le> n \<and> n < 39 \<longrightarrow> bit va n = bit va' n" using r by metis
  next
    assume h: "\<forall>n. 12 \<le> n \<and> n < 39 \<longrightarrow> bit va n = bit va' n"
    have "12 \<le> n \<Longrightarrow> bit va n = bit va' n" for n using h high [of n] by (cases "n < 39") auto
    then show "pg_rounddown va = pg_rounddown va'" by (intro bit_word_eqI) (auto simp: r)
  qed
  also have "\<dots> \<longleftrightarrow> indices va = indices va'" (is "?L \<longleftrightarrow> ?R")
  proof
    assume ?R
    then have "\<forall>n. 30 \<le> n \<and> n < 39 \<longrightarrow> bit va n = bit va' n" "\<forall>n. 21 \<le> n \<and> n < 30 \<longrightarrow> bit va n = bit va' n"
      "\<forall>n. 12 \<le> n \<and> n < 21 \<longrightarrow> bit va n = bit va' n"
      unfolding indices_def prod.inject pte_index_bits by simp_all
    then show ?L by (meson not_less)
  qed (simp add: indices_def pte_index_bits)
  finally show ?thesis by simp
qed

subsection \<open>The tree\<close>

text \<open>
  \<open>tab s t p\<close>: the table at the end of the path of indices \<open>p\<close> from the table \<open>t\<close>. The tables of a page table
  are those at paths of at most two indices.
\<close>

definition child :: "machine \<Rightarrow> usize \<Rightarrow> nat \<Rightarrow> usize option" where
  "child s t i = (if is_valid (tables s t ! i) then Some (get_physical_addr (tables s t ! i)) else None)"

fun tab :: "machine \<Rightarrow> usize \<Rightarrow> nat list \<Rightarrow> usize option" where
  "tab s t [] = Some t"
| "tab s t (i # p) = (case child s t i of None \<Rightarrow> None | Some c \<Rightarrow> tab s c p)"

definition path_ok :: "nat list \<Rightarrow> bool" where
  "path_ok p \<longleftrightarrow> length p \<le> 2 \<and> list_all (\<lambda>i. i < 512) p"

definition nodes :: "machine \<Rightarrow> usize \<Rightarrow> usize set" where
  "nodes s root = {t. \<exists>p. path_ok p \<and> tab s root p = Some t}"

definition pt_inv :: "usize \<Rightarrow> machine \<Rightarrow> usize \<Rightarrow> bool" where
  "pt_inv kend s root \<longleftrightarrow> 0 < kend \<and> alloc_inv kend (kalloc s) \<and>
     (\<forall>p q t. path_ok p \<and> path_ok q \<and> tab s root p = Some t \<and> tab s root q = Some t \<longrightarrow> p = q) \<and>
     (\<forall>t\<in>nodes s root. length (tables s t) = 512 \<and> managed kend t \<and> t \<notin> free_pages (kalloc s))"

definition leaf :: "machine \<Rightarrow> usize \<Rightarrow> usize \<Rightarrow> u64 option" where
  "leaf s root va = (case tab s root [pte_index 2 va, pte_index 1 va] of
     None \<Rightarrow> None
   | Some t \<Rightarrow> let pte = tables s t ! pte_index 0 va in if is_valid pte then Some pte else None)"

lemma tab_snoc: "tab s t (p @ [i]) = (case tab s t p of None \<Rightarrow> None | Some c \<Rightarrow> child s c i)"
  by (induction p arbitrary: t) (auto split: option.split)

lemma path_ok_simps [simp]:
  "path_ok []" "path_ok (p @ [i]) \<longleftrightarrow> length p \<le> 1 \<and> path_ok p \<and> i < 512"
  "path_ok [i, j] \<longleftrightarrow> i < 512 \<and> j < 512" "path_ok [i] \<longleftrightarrow> i < 512"
  by (auto simp: path_ok_def)

lemma pt_invD:
  assumes "pt_inv kend s root"
  shows "alloc_inv kend (kalloc s)"
    "path_ok p \<Longrightarrow> path_ok q \<Longrightarrow> tab s root p = Some t \<Longrightarrow> tab s root q = Some t \<Longrightarrow> p = q"
    "t \<in> nodes s root \<Longrightarrow> length (tables s t) = 512 \<and> managed kend t \<and> t \<notin> free_pages (kalloc s)"
    "0 < kend"
  using assms unfolding pt_inv_def by blast+

lemma nodesI: "path_ok p \<Longrightarrow> tab s root p = Some t \<Longrightarrow> t \<in> nodes s root"
  by (auto simp: nodes_def)

lemma root_in_nodes: "root \<in> nodes s root"
  by (rule nodesI [of "[]"]) simp_all

text \<open>A lowest-level entry is changed: the tables stay, and only the leaf of that entry changes.\<close>

lemma tab_write_leaf:
  assumes inv: "pt_inv kend s root" and t: "tab s root [i, j] = Some t" "i < 512" "j < 512" and q: "path_ok q"
  shows "tab (write_pte (t, k) v s) root q = tab s root q"
  using q
proof (induction q rule: rev_induct)
  case (snoc l q)
  have "child (write_pte (t, k) v s) t' l = child s t' l" if "tab s root q = Some t'" for t'
  proof -
    have "t' \<noteq> t" using pt_invD(2) [OF inv, of q "[i, j]" t] t that snoc.prems by auto
    then show ?thesis by (simp add: child_def write_pte_def)
  qed
  then show ?case using snoc by (simp add: tab_snoc split: option.split)
qed simp

lemma nodes_write_leaf:
  assumes "pt_inv kend s root" "tab s root [i, j] = Some t" "i < 512" "j < 512"
  shows "nodes (write_pte (t, k) v s) root = nodes s root"
  using tab_write_leaf [OF assms] by (auto simp: nodes_def)

lemma write_pte_frame [simp]:
  "kalloc (write_pte e v s) = kalloc s" "pages (write_pte e v s) = pages s"
  "length (tables (write_pte e v s) t) = length (tables s t)"
  by (cases e; simp add: write_pte_def)+

lemma pt_inv_write_leaf:
  assumes inv: "pt_inv kend s root" and t: "tab s root [i, j] = Some t" "i < 512" "j < 512"
  shows "pt_inv kend (write_pte (t, k) v s) root"
  using inv tab_write_leaf [OF assms] nodes_write_leaf [OF assms] unfolding pt_inv_def by (metis write_pte_frame(1,3))

lemma leaf_write_leaf:
  assumes inv: "pt_inv kend s root" and t: "tab s root [i, j] = Some t" "i < 512" "j < 512" and k: "k < 512"
  shows "leaf (write_pte (t, k) v s) root va =
    (if indices va = (i, j, k) then if is_valid v then Some v else None else leaf s root va)"
proof -
  let ?s = "write_pte (t, k) v s" and ?p = "[pte_index 2 va, pte_index 1 va]"
  have tab: "tab ?s root ?p = tab s root ?p" by (rule tab_write_leaf [OF inv t]) simp
  have len: "length (tables s t) = 512" using pt_invD(3) [OF inv] nodesI [of "[i, j]" s root t] t by simp
  show ?thesis
  proof (cases "tab s root ?p = Some t")
    case True
    then have "[i, j] = ?p" using pt_invD(2) [OF inv, of "[i, j]" ?p t] t by simp
    then show ?thesis using True tab len k
      by (auto simp: leaf_def indices_def write_pte_def nth_list_update Let_def)
  next
    case False
    then have "indices va \<noteq> (i, j, k)" using t by (auto simp: indices_def)
    moreover have "tables ?s t' = tables s t'" if "tab s root ?p = Some t'" for t'
      using False that by (auto simp: write_pte_def)
    ultimately show ?thesis using tab by (auto simp: leaf_def split: option.split)
  qed
qed

text \<open>A new empty table is hung into an invalid entry of a table: one more node, and the same leaves.\<close>

lemma child_None_tab: "tab s root p = Some t \<Longrightarrow> child s t i = None \<Longrightarrow> tab s root (p @ i # q) = None"
  by (induction p arbitrary: root) (auto split: option.splits)

lemma tab_new_table:
  assumes inv: "pt_inv kend s root" and p: "tab s root p = Some t" "path_ok (p @ [i])" "child s t i = None"
    and n: "n \<notin> nodes s root" "aligned n"
    and s': "tables s' = (tables s)(n := replicate 512 pte_invalid, t := (tables s t)[i := table_pte n])"
    and q: "path_ok q"
  shows "tab s' root q = (if q = p @ [i] then Some n else tab s root q)"
  using q
proof (induction q rule: rev_induct)
  case (snoc j q)
  have pq: "path_ok q" "j < 512" "path_ok p" "i < 512" using snoc.prems p(2) by simp_all
  have tn: "t \<in> nodes s root" using nodesI [OF pq(3) p(1)] .
  then have len: "length (tables s t) = 512" using pt_invD(3) [OF inv] by blast
  have ne: "t \<noteq> n" using tn n(1) by blast
  consider "q = p @ [i]" | "q \<noteq> p @ [i]" "tab s root q = None"
    | t' where "q \<noteq> p @ [i]" "tab s root q = Some t'" by blast
  then show ?case
  proof cases
    case 1
    have "child s' n j = None" using ne pq(2) by (simp add: child_def s')
    then have "tab s' root (q @ [j]) = None" unfolding tab_snoc using snoc.IH pq(1) 1 by simp
    moreover have "tab s root (q @ [j]) = None" using 1 child_None_tab [OF p(1,3), of "[j]"] by simp
    ultimately show ?thesis using 1 by simp
  next
    case 2
    then have "q \<noteq> p" using p(1) by auto
    then show ?thesis using snoc.IH pq(1) 2 by (simp add: tab_snoc)
  next
    case 3
    have "t' \<noteq> n" using nodesI [OF pq(1) 3(2)] n(1) by blast
    have "t' = t \<longleftrightarrow> q = p" using pt_invD(2) [OF inv pq(1,3) 3(2)] p(1) 3(2) by auto
    moreover have "child s' t j = (if j = i then Some n else child s t j)"
      using len pq(4) table_pte_facts [of n] n(2) by (simp add: child_def s')
    moreover have "child s' t' j = child s t' j" if "t' \<noteq> t"
      using that \<open>t' \<noteq> n\<close> by (simp add: child_def s')
    ultimately show ?thesis using snoc.IH pq(1) 3 p(1) by (auto simp: tab_snoc)
  qed
qed simp

text \<open>
  \<open>pt_keep\<close>: the page table may have got more tables, which came from the free pages, and no other
  table and no page has changed. \<open>pt_ext\<close>: moreover the leaves are the same.
\<close>

definition pt_keep :: "usize \<Rightarrow> usize \<Rightarrow> machine \<Rightarrow> machine \<Rightarrow> bool" where
  "pt_keep kend root s s' \<longleftrightarrow> pt_inv kend s' root \<and> pages s' = pages s \<and>
     nodes s root \<subseteq> nodes s' root \<and>
     nodes s' root \<union> free_pages (kalloc s') = nodes s root \<union> free_pages (kalloc s) \<and>
     (\<forall>t. t \<notin> nodes s root \<and> t \<notin> free_pages (kalloc s) \<longrightarrow> tables s' t = tables s t)"

definition pt_ext :: "usize \<Rightarrow> usize \<Rightarrow> machine \<Rightarrow> machine \<Rightarrow> bool" where
  "pt_ext kend root s s' \<longleftrightarrow> pt_keep kend root s s' \<and> (\<forall>va. leaf s' root va = leaf s root va)"

lemma pt_ext_refl: "pt_inv kend s root \<Longrightarrow> pt_ext kend root s s"
  by (simp add: pt_ext_def pt_keep_def)

lemma pt_keep_trans:
  assumes "pt_keep kend root s s'" "pt_keep kend root s' s''"
  shows "pt_keep kend root s s''"
proof -
  have "tables s'' t = tables s t" if "t \<notin> nodes s root" "t \<notin> free_pages (kalloc s)" for t
  proof -
    have "t \<notin> nodes s' root" "t \<notin> free_pages (kalloc s')" using that assms(1) by (auto simp: pt_keep_def)
    then show ?thesis using that assms by (simp add: pt_keep_def)
  qed
  then show ?thesis using assms unfolding pt_keep_def by (metis (no_types, lifting) subset_trans)
qed

lemma pt_ext_trans: "pt_ext kend root s s' \<Longrightarrow> pt_ext kend root s' s'' \<Longrightarrow> pt_ext kend root s s''"
  using pt_keep_trans by (auto simp: pt_ext_def)

lemma leaf_new_table:
  assumes inv: "pt_inv kend s root" and p: "tab s root p = Some t" "path_ok (p @ [i])" "child s t i = None"
    and n: "n \<notin> nodes s root" "aligned n"
    and s': "tables s' = (tables s)(n := replicate 512 pte_invalid, t := (tables s t)[i := table_pte n])"
  shows "leaf s' root va = leaf s root va"
proof -
  let ?q = "[pte_index 2 va, pte_index 1 va]"
  have tab: "tab s' root ?q = (if ?q = p @ [i] then Some n else tab s root ?q)"
    by (rule tab_new_table [OF inv p n s']) simp
  have pok: "path_ok p" "length p \<le> 1" using p(2) by simp_all
  have ne: "t \<noteq> n" using nodesI [OF pok(1) p(1)] n(1) by blast
  show ?thesis
  proof (cases "?q = p @ [i]")
    case True
    have "tab s root ?q = None" unfolding True by (simp only: tab_snoc p option.case)
    then show ?thesis using True tab ne by (simp only: leaf_def if_True option.case) (simp add: s' Let_def)
  next
    case False
    have "tables s' t' = tables s t'" if "tab s root ?q = Some t'" for t'
    proof -
      have "t' \<in> nodes s root" by (rule nodesI [of ?q]) (use that in simp_all)
      moreover have "t' \<noteq> t" using pt_invD(2) [OF inv, of ?q p t'] that p(1) pok by auto
      ultimately show ?thesis using n(1) by (auto simp: s')
    qed
    then show ?thesis using False tab by (simp only: leaf_def if_False) (auto split: option.split)
  qed
qed

lemma nodes_new_table:
  assumes inv: "pt_inv kend s root" and p: "tab s root p = Some t" "path_ok (p @ [i])" "child s t i = None"
    and n: "n \<notin> nodes s root" "aligned n"
    and s': "tables s' = (tables s)(n := replicate 512 pte_invalid, t := (tables s t)[i := table_pte n])"
  shows "nodes s' root = insert n (nodes s root)"
proof -
  note new = tab_new_table [OF assms]
  have "tab s root (p @ [i]) = None" by (simp only: tab_snoc p option.case)
  then have "x \<in> nodes s' root \<longleftrightarrow> x = n \<or> x \<in> nodes s root" for x
    using new p(2) unfolding nodes_def mem_Collect_eq by (metis option.distinct(1) option.inject)
  then show ?thesis by blast
qed

lemma pt_inv_new_table:
  assumes inv: "pt_inv kend s root" and p: "tab s root p = Some t" "path_ok (p @ [i])" "child s t i = None"
    and n: "n \<notin> nodes s root" "aligned n"
    and s': "tables s' = (tables s)(n := replicate 512 pte_invalid, t := (tables s t)[i := table_pte n])"
    and al: "alloc_inv kend (kalloc s')" "managed kend n" "free_pages (kalloc s') \<subseteq> free_pages (kalloc s) - {n}"
  shows "pt_inv kend s' root"
proof -
  note new = tab_new_table [OF inv p n s']
  have none: "tab s root (p @ [i]) = None" by (simp only: tab_snoc p option.case)
  have "q = r" if "path_ok q" "path_ok r" "tab s' root q = Some x" "tab s' root r = Some x" for q r x
    using that new nodesI [of q s root n] nodesI [of r s root n] n(1) pt_invD(2) [OF inv that(1,2)]
    by (auto split: if_splits)
  moreover have "length (tables s' x) = 512 \<and> managed kend x \<and> x \<notin> free_pages (kalloc s')" if "x \<in> nodes s' root" for x
    using that al pt_invD(3) [OF inv] nodesI [OF _ p(1)] p(2)
    unfolding nodes_new_table [OF inv p n s'] by (auto simp: s')
  ultimately show ?thesis using al(1) pt_invD(4) [OF inv] unfolding pt_inv_def by blast
qed

lemma new_table_ext:
  assumes inv: "pt_inv kend s root" and p: "tab s root p = Some t" "path_ok (p @ [i])" "child s t i = None"
  shows "case pt_allocate_in s of
      (Err _, s1) \<Rightarrow> s1 = s \<and> free_pages (kalloc s) = {}
    | (Ok n, s1) \<Rightarrow> pt_ext kend root s (write_pte (t, i) (table_pte n) s1) \<and>
        tab (write_pte (t, i) (table_pte n) s1) root (p @ [i]) = Some n"
proof (cases "allocate_page (kalloc s)")
  case (Pair r a)
  show ?thesis
  proof (cases r)
    case None
    then show ?thesis using Pair ka.alloc_None [OF pt_invD(1) [OF inv]] by (simp add: pt_allocate_in_def allocate_def)
  next
    case (Some n)
    let ?s1 = "s\<lparr>kalloc := a, tables := (tables s)(n := replicate 512 pte_invalid)\<rparr>"
    let ?s = "write_pte (t, i) (table_pte n) ?s1"
    have al: "alloc_inv kend a" "n \<in> free_pages (kalloc s)" "free_pages a = free_pages (kalloc s) - {n}"
      using ka.alloc_Some [OF pt_invD(1) [OF inv]] Pair Some by simp_all
    have n: "n \<notin> nodes s root" "managed kend n" using al(2) pt_invD(3) [OF inv] ka.free_ok [OF pt_invD(1) [OF inv]] by blast+
    then have na: "aligned n" by (simp add: managed_def)
    have ne: "t \<noteq> n" using nodesI [OF _ p(1)] p(2) n(1) by auto
    have s': "tables ?s = (tables s)(n := replicate 512 pte_invalid, t := (tables s t)[i := table_pte n])"
      using ne by (simp add: write_pte_def)
    note facts = inv p n(1) na s'
    have "pt_ext kend root s ?s"
      unfolding pt_ext_def pt_keep_def
    proof (intro conjI allI impI)
      show "pt_inv kend ?s root" by (rule pt_inv_new_table [OF facts]) (use al n in simp_all)
      show "leaf ?s root va = leaf s root va" for va by (rule leaf_new_table [OF facts])
      show "nodes ?s root \<union> free_pages (kalloc ?s) = nodes s root \<union> free_pages (kalloc s)"
        unfolding nodes_new_table [OF facts] using al by auto
      show "tables ?s x = tables s x" if "x \<notin> nodes s root \<and> x \<notin> free_pages (kalloc s)" for x
        using that al(2) nodesI [OF _ p(1)] p(2) unfolding s' by auto
    qed (auto simp: nodes_new_table [OF facts])
    moreover have "tab ?s root (p @ [i]) = Some n" using tab_new_table [OF facts p(2)] by simp
    moreover have "pt_allocate_in s = (Ok n, ?s1)" using Pair Some by (simp add: pt_allocate_in_def allocate_def)
    ultimately show ?thesis by simp
  qed
qed

text \<open>One step of the walk, and \<open>search_entry\<close>.\<close>

lemma walk_alloc:
  assumes inv: "pt_inv kend s root" and t: "tab s root p = Some t" "path_ok p" "length p \<le> 1"
  shows "case walk True va level (t, s) of
      (Err _, s') \<Rightarrow> s' = s \<and> free_pages (kalloc s) = {}
    | (Ok c, s') \<Rightarrow> pt_ext kend root s s' \<and> tab s' root (p @ [pte_index level va]) = Some c"
proof (cases "is_valid (tables s t ! pte_index level va)")
  case True
  then show ?thesis using t inv
    by (simp add: walk_def Let_def read_pte_def pt_ext_refl tab_snoc child_def)
next
  case False
  then have "child s t (pte_index level va) = None" by (simp add: child_def)
  then show ?thesis using new_table_ext [OF inv t(1), of "pte_index level va"] t False
    by (auto simp: walk_def Let_def read_pte_def table_pte_def split: prod.splits result.splits)
qed

lemma search_entry_alloc:
  assumes inv: "pt_inv kend s root" and va: "va < MAXVA"
  shows "\<exists>r s'. search_entry root va True s = Some (r, s') \<and> pt_ext kend root s s' \<and>
    (case r of
       Err _ \<Rightarrow> free_pages (kalloc s') = {}
     | Ok (t, i) \<Rightarrow> tab s' root [pte_index 2 va, pte_index 1 va] = Some t \<and> i = pte_index 0 va)"
proof -
  obtain r2 s2 where w2: "walk True va 2 (root, s) = (r2, s2)" by force
  have x2: "case r2 of Err _ \<Rightarrow> s2 = s \<and> free_pages (kalloc s) = {}
    | Ok c \<Rightarrow> pt_ext kend root s s2 \<and> tab s2 root [pte_index 2 va] = Some c"
    using walk_alloc [OF inv, where p = "[]" and t = root and va = va and level = 2] w2 by (auto split: result.splits)
  show ?thesis
  proof (cases r2)
    case (Err e)
    then show ?thesis using x2 w2 va inv by (simp add: search_entry_def pt_ext_refl)
  next
    case (Ok c)
    obtain r1 s1 where w1: "walk True va 1 (c, s2) = (r1, s1)" by force
    have inv2: "pt_inv kend s2 root" using x2 Ok by (simp add: pt_ext_def pt_keep_def)
    have x1: "case r1 of Err _ \<Rightarrow> s1 = s2 \<and> free_pages (kalloc s2) = {}
      | Ok c \<Rightarrow> pt_ext kend root s2 s1 \<and> tab s1 root [pte_index 2 va, pte_index 1 va] = Some c"
      using walk_alloc [OF inv2, where p = "[pte_index 2 va]" and t = c and va = va and level = 1] w1 x2 Ok
      by (simp del: tab.simps split: result.splits)
    show ?thesis
    proof (cases r1)
      case (Err e)
      then show ?thesis using x1 x2 w1 w2 Ok va by (simp add: search_entry_def)
    next
      case (Ok c1)
      then show ?thesis using x1 x2 w1 w2 \<open>r2 = Ok c\<close> va pt_ext_trans
        by (simp add: search_entry_def del: tab.simps) blast
    qed
  qed
qed

lemma search_entry_lookup:
  assumes va: "va < MAXVA"
  shows "search_entry root va False s = Some (case tab s root [pte_index 2 va, pte_index 1 va] of
      None \<Rightarrow> Err () | Some t \<Rightarrow> Ok (t, pte_index 0 va), s)"
  using va by (auto simp: search_entry_def walk_def Let_def read_pte_def child_def split: option.split)

end
