(* ===== verification/Paging_Map.thy ===== *)
theory Paging_Map
  imports Paging_Tree
begin

text \<open>What \<open>map\<close> does to the leaves of a page table.\<close>

lemma leaf_indices: "indices va = indices va' \<Longrightarrow> leaf s root va = leaf s root va'"
  unfolding indices_def prod.inject leaf_def by (elim conjE) (simp only:)

lemma leaf_page: "va < MAXVA \<Longrightarrow> va' < MAXVA \<Longrightarrow> pg_rounddown va = pg_rounddown va' \<Longrightarrow> leaf s root va = leaf s root va'"
  using same_page leaf_indices by blast

lemma unat_MAXVA: "unat MAXVA = 2 ^ 38"
  by (simp add: MAXVA_def)

lemma below_MAXVA: "va < MAXVA \<longleftrightarrow> unat va < 2 ^ 38"
  by (simp add: word_less_nat_alt unat_MAXVA)

text \<open>An entry is written at the place of \<open>va\<close>.\<close>

lemma write_entry:
  assumes inv: "pt_inv kend s root" and va: "va < MAXVA"
    and t: "tab s root [pte_index 2 va, pte_index 1 va] = Some t"
  shows "pt_keep kend root s (write_pte (t, pte_index 0 va) v s)"
    and "nodes (write_pte (t, pte_index 0 va) v s) root = nodes s root"
    and "va' < MAXVA \<Longrightarrow> leaf (write_pte (t, pte_index 0 va) v s) root va' =
      (if pg_rounddown va' = pg_rounddown va then if is_valid v then Some v else None else leaf s root va')"
proof -
  let ?s = "write_pte (t, pte_index 0 va) v s"
  note args = inv t pte_index_less pte_index_less
  show n: "nodes ?s root = nodes s root" by (rule nodes_write_leaf [OF args])
  have "t \<in> nodes s root" by (rule nodesI [OF _ t]) simp
  then have "tables ?s x = tables s x" if "x \<notin> nodes s root" for x using that by (auto simp: write_pte_def)
  then show "pt_keep kend root s ?s" using n pt_inv_write_leaf [OF args] by (simp add: pt_keep_def)
  show "leaf ?s root va' = (if pg_rounddown va' = pg_rounddown va then if is_valid v then Some v else None else leaf s root va')"
    if "va' < MAXVA"
    using leaf_write_leaf [OF args pte_index_less [of 0 va], where v = v and va = va'] same_page [OF that va]
    unfolding indices_def by simp
qed

lemma set_valid_leaf:
  "set_valid True (push_bit 10 (drop_bit 12 pa) OR flags) = leaf_pte pa flags"
  by (simp add: set_valid_def pte_set_bit_def leaf_pte_def or.assoc)

text \<open>One iteration of \<open>map\<close>.\<close>

lemma map_page:
  assumes inv: "pt_inv kend s root" and va: "va < MAXVA" and free: "leaf s root va = None" and flags: "flags AND 0x3ff = flags"
  shows "\<exists>r s1. search_entry root va True s = Some (r, s1) \<and>
    (case r of
       Err _ \<Rightarrow> pt_ext kend root s s1 \<and> free_pages (kalloc s1) = {}
     | Ok e \<Rightarrow> \<not> is_valid (read_pte s1 e) \<and>
         (let s2 = write_pte e (leaf_pte pa flags) s1 in
          pt_keep kend root s s2 \<and> (\<forall>va'<MAXVA. leaf s2 root va' =
            (if pg_rounddown va' = pg_rounddown va then Some (leaf_pte pa flags) else leaf s root va'))))"
proof -
  obtain r s1 where r: "search_entry root va True s = Some (r, s1)" "pt_ext kend root s s1"
    "case r of Err _ \<Rightarrow> free_pages (kalloc s1) = {}
     | Ok (t, i) \<Rightarrow> tab s1 root [pte_index 2 va, pte_index 1 va] = Some t \<and> i = pte_index 0 va"
    using search_entry_alloc [OF inv va] by blast
  have ext: "pt_inv kend s1 root" "pt_keep kend root s s1" "\<And>va. leaf s1 root va = leaf s root va"
    using r(2) by (auto simp: pt_ext_def pt_keep_def)
  show ?thesis
  proof (cases r)
    case (Err x)
    then show ?thesis using r by auto
  next
    case (Ok e)
    then obtain t where e: "e = (t, pte_index 0 va)" and t: "tab s1 root [pte_index 2 va, pte_index 1 va] = Some t"
      using r(3) by (cases e) (auto simp del: tab.simps)
    have "leaf s1 root va = None" using ext(3) free by simp
    then have "\<not> is_valid (read_pte s1 e)" using t e by (auto simp: leaf_def read_pte_def Let_def split: if_splits)
    moreover note w = write_entry [OF ext(1) va t, where v = "leaf_pte pa flags"]
    have "pt_keep kend root s (write_pte e (leaf_pte pa flags) s1)"
      using pt_keep_trans [OF ext(2)] w(1) e by blast
    moreover have "leaf (write_pte e (leaf_pte pa flags) s1) root va' =
      (if pg_rounddown va' = pg_rounddown va then Some (leaf_pte pa flags) else leaf s root va')" if "va' < MAXVA" for va'
      using w(3) [OF that] leaf_pte_facts(1) [OF flags] ext(3) e by simp
    ultimately show ?thesis using r(1) Ok by (auto simp: Let_def)
  qed
qed

text \<open>
  \<open>mapped root va pa flags m s s'\<close>: from \<open>s\<close> to \<open>s'\<close>, the \<open>m\<close> pages from \<open>va\<close> on have been mapped to the \<open>m\<close>
  pages from \<open>pa\<close> on, and all other leaves are the same.
\<close>

definition mapped :: "usize \<Rightarrow> usize \<Rightarrow> usize \<Rightarrow> u64 \<Rightarrow> nat \<Rightarrow> machine \<Rightarrow> machine \<Rightarrow> bool" where
  "mapped root va pa flags m s s' \<longleftrightarrow>
     (\<forall>k<m. leaf s' root (va + of_nat k * PGSIZE) = Some (leaf_pte (pa + of_nat k * PGSIZE) flags)) \<and>
     (\<forall>va'<MAXVA. (\<forall>k<m. pg_rounddown va' \<noteq> va + of_nat k * PGSIZE) \<longrightarrow> leaf s' root va' = leaf s root va')"

lemma page_step:
  assumes "aligned va" "unat va + m * 4096 \<le> 2 ^ 38" "k < m"
  shows "unat (va + of_nat k * PGSIZE) = unat va + k * 4096" "va + of_nat k * PGSIZE < MAXVA"
    "pg_rounddown (va + of_nat k * PGSIZE) = va + of_nat k * PGSIZE"
proof -
  have k: "k * 4096 + 4096 \<le> m * 4096" using assms(3) by simp
  then show u: "unat (va + of_nat k * PGSIZE) = unat va + k * 4096" using assms(2) by (intro unat_add_pages) simp
  show "va + of_nat k * PGSIZE < MAXVA" unfolding below_MAXVA u using k assms(2) by simp
  show "pg_rounddown (va + of_nat k * PGSIZE) = va + of_nat k * PGSIZE"
    using u assms(1) by (intro rounddown_aligned) simp
qed

lemma mapped_0: "mapped root va pa flags 0 s s' \<longleftrightarrow> (\<forall>va'<MAXVA. leaf s' root va' = leaf s root va')"
  by (simp add: mapped_def)

lemma mapped_Suc:
  assumes va: "aligned va" "unat va + Suc m * 4096 \<le> 2 ^ 38"
    and first: "\<forall>va'<MAXVA. leaf sa root va' = (if pg_rounddown va' = va then Some (leaf_pte pa flags) else leaf s root va')"
    and rest: "mapped root (va + PGSIZE) (pa + PGSIZE) flags m sa s'"
  shows "mapped root va pa flags (Suc m) s s'"
proof -
  have shift: "a + PGSIZE + of_nat k * PGSIZE = a + of_nat (Suc k) * PGSIZE" for a :: usize and k by (simp add: algebra_simps)
  note st = page_step [OF va]
  have r0: "pg_rounddown va = va" using va(1) by (rule rounddown_aligned)
  have "va < MAXVA" using st(2) [of 0] by simp
  moreover have "va \<noteq> va + of_nat (Suc k) * PGSIZE" if "k < m" for k
    using st(1) [of "Suc k"] that by (metis Suc_mono add_eq_self_zero mult_eq_0_iff nat.distinct(1) zero_neq_numeral)
  ultimately have at0: "leaf s' root va = Some (leaf_pte pa flags)"
    using rest first r0 unfolding mapped_def shift by simp
  have "leaf s' root (va + of_nat k * PGSIZE) = Some (leaf_pte (pa + of_nat k * PGSIZE) flags)" if "k < Suc m" for k
    using that at0 rest unfolding mapped_def shift by (cases k) auto
  moreover have "leaf s' root va' = leaf s root va'"
    if "va' < MAXVA" "\<forall>k<Suc m. pg_rounddown va' \<noteq> va + of_nat k * PGSIZE" for va'
  proof -
    have "pg_rounddown va' \<noteq> va" using that(2) [rule_format, of 0] by simp
    moreover have "\<forall>k<m. pg_rounddown va' \<noteq> va + of_nat (Suc k) * PGSIZE" using that(2) Suc_mono by blast
    ultimately show ?thesis using rest first that(1) unfolding mapped_def shift by simp
  qed
  ultimately show ?thesis unfolding mapped_def by blast
qed

lemma map_loop_spec:
  assumes "pt_inv kend s root" "aligned va" "unat va + Suc n * 4096 \<le> 2 ^ 38" "flags AND 0x3ff = flags"
    "\<forall>k\<le>n. leaf s root (va + of_nat k * PGSIZE) = None"
  shows "\<exists>m r s'. map_loop root va pa (va + of_nat n * PGSIZE) flags s = Some (r, s') \<and> pt_keep kend root s s' \<and>
    mapped root va pa flags m s s' \<and> m \<le> Suc n \<and> (if r = Ok () then m = Suc n else m \<le> n \<and> free_pages (kalloc s') = {})"
  using assms
proof (induction n arbitrary: va pa s)
  case 0
  obtain r s1 where r: "search_entry root va True s = Some (r, s1)"
    "case r of Err _ \<Rightarrow> pt_ext kend root s s1 \<and> free_pages (kalloc s1) = {}
     | Ok e \<Rightarrow> \<not> is_valid (read_pte s1 e) \<and> (let s2 = write_pte e (leaf_pte pa flags) s1 in
          pt_keep kend root s s2 \<and> (\<forall>va'<MAXVA. leaf s2 root va' =
            (if pg_rounddown va' = pg_rounddown va then Some (leaf_pte pa flags) else leaf s root va')))"
    using map_page [OF 0(1), of va flags pa] 0 by (auto simp: below_MAXVA)
  show ?case
  proof (cases r)
    case (Err e)
    then show ?thesis using r by (intro exI [of _ 0]) (simp add: map_loop.simps mapped_0 pt_ext_def)
  next
    case (Ok e)
    let ?s2 = "write_pte e (leaf_pte pa flags) s1"
    have "map_loop root va pa va flags s = Some (Ok (), ?s2)"
      using r Ok 0(4) by (simp add: map_loop.simps set_flags_ok set_valid_leaf Let_def)
    moreover have "mapped root va pa flags (Suc 0) s ?s2"
      using r(2) Ok 0(2,3) by (intro mapped_Suc [where sa = ?s2]) (simp_all add: Let_def rounddown_aligned mapped_0)
    ultimately show ?thesis using r(2) Ok by (intro exI [of _ "Suc 0"]) (simp add: Let_def)
  qed
next
  case (Suc n)
  have va: "va < MAXVA" using Suc.prems(3) by (simp add: below_MAXVA)
  have l0: "leaf s root va = None" using Suc.prems(5) [rule_format, of 0] by simp
  have ne: "va \<noteq> va + of_nat (Suc n) * PGSIZE"
    using page_step(1) [OF Suc.prems(2,3), of "Suc n"] by (metis add_eq_self_zero lessI mult_eq_0_iff nat.distinct(1) zero_neq_numeral)
  have shift: "a + PGSIZE + of_nat k * PGSIZE = a + of_nat (Suc k) * PGSIZE" for a :: usize and k by (simp add: algebra_simps)
  obtain r s1 where r: "search_entry root va True s = Some (r, s1)"
    "case r of Err _ \<Rightarrow> pt_ext kend root s s1 \<and> free_pages (kalloc s1) = {}
     | Ok e \<Rightarrow> \<not> is_valid (read_pte s1 e) \<and> (let s2 = write_pte e (leaf_pte pa flags) s1 in
          pt_keep kend root s s2 \<and> (\<forall>va'<MAXVA. leaf s2 root va' =
            (if pg_rounddown va' = pg_rounddown va then Some (leaf_pte pa flags) else leaf s root va')))"
    using map_page [OF Suc.prems(1) va l0 Suc.prems(4), of pa] by blast
  show ?case
  proof (cases r)
    case (Err e)
    then show ?thesis using r by (intro exI [of _ 0]) (simp add: map_loop.simps mapped_0 pt_ext_def)
  next
    case (Ok e)
    let ?s2 = "write_pte e (leaf_pte pa flags) s1" and ?va = "va + PGSIZE"
    have s2: "pt_keep kend root s ?s2" "\<forall>va'<MAXVA. leaf ?s2 root va' = (if pg_rounddown va' = va then Some (leaf_pte pa flags) else leaf s root va')"
      using r(2) Ok rounddown_aligned [OF Suc.prems(2)] by (simp_all add: Let_def)
    have u: "unat ?va = unat va + 4096" using page_step(1) [OF Suc.prems(2,3), of 1] by simp
    have free: "\<forall>k\<le>n. leaf ?s2 root (?va + of_nat k * PGSIZE) = None"
    proof (intro allI impI)
      fix k assume "k \<le> n"
      note st = page_step [OF Suc.prems(2,3), of "Suc k"]
      have "va + of_nat (Suc k) * PGSIZE \<noteq> va" using st(1) \<open>k \<le> n\<close> by (metis Suc_le_mono add_eq_self_zero le_imp_less_Suc mult_eq_0_iff nat.distinct(1) zero_neq_numeral)
      then show "leaf ?s2 root (?va + of_nat k * PGSIZE) = None"
        unfolding shift using s2(2) st(2,3) \<open>k \<le> n\<close> Suc.prems(5) [rule_format, of "Suc k"]
        by (simp del: of_nat_Suc)
    qed
    have inv2: "pt_inv kend ?s2 root" using s2(1) by (simp add: pt_keep_def)
    have al: "aligned ?va" "unat ?va + Suc n * 4096 \<le> 2 ^ 38" using u Suc.prems(2,3) by simp_all
    obtain m r' s' where IH: "map_loop root ?va (pa + PGSIZE) (?va + of_nat n * PGSIZE) flags ?s2 = Some (r', s')"
      "pt_keep kend root ?s2 s'" "mapped root ?va (pa + PGSIZE) flags m ?s2 s'" "m \<le> Suc n"
      "if r' = Ok () then m = Suc n else m \<le> n \<and> free_pages (kalloc s') = {}"
      using Suc.IH [OF inv2 al Suc.prems(4) free, of "pa + PGSIZE"] by (elim exE conjE) (rule that)
    have "map_loop root va pa (va + of_nat (Suc n) * PGSIZE) flags s = Some (r', s')"
      using r Ok Suc.prems(4) ne IH(1) unfolding shift
      by (subst map_loop.simps) (simp add: set_flags_ok set_valid_leaf Let_def del: of_nat_Suc)
    moreover have "mapped root va pa flags (Suc m) s s'"
      using IH(3,4) Suc.prems(3) by (intro mapped_Suc [OF Suc.prems(2) _ s2(2)]) simp_all
    ultimately show ?thesis using IH pt_keep_trans [OF s2(1)] by (intro exI [of _ "Suc m"]) (auto simp del: of_nat_Suc)
  qed
qed

text \<open>The number of pages that \<open>map\<close> maps for a size, and the last of them.\<close>

lemma map_last:
  assumes "0 < unat sz" "unat va + unat sz \<le> 2 ^ 38" "aligned va"
  shows "pg_rounddown (va + sz - 1) = va + of_nat ((unat sz - 1) div 4096) * PGSIZE"
    and "unat va + Suc ((unat sz - 1) div 4096) * 4096 \<le> 2 ^ 38"
proof -
  let ?n = "(unat sz - 1) div 4096"
  obtain j where j: "unat va = j * 4096" using aligned_multiple [OF assms(3)] by blast
  have sum: "unat (va + sz) = unat va + unat sz" using assms(2) by (simp add: unat_word_ariths)
  have "1 \<le> va + sz" using sum assms(1) by (simp add: word_le_nat_alt)
  then have u: "unat (va + sz - 1) = unat va + (unat sz - 1)" using sum assms(1) by (simp add: unat_sub)
  have n: "?n * 4096 \<le> unat sz - 1" "unat sz - 1 < Suc ?n * 4096" by (simp_all add: div_times_less_eq_dividend dividend_less_div_times)
  have "j * 4096 + unat sz \<le> 2 ^ 26 * 4096" using assms(2) j by simp
  moreover have "?n * 4096 < unat sz" using n(1) assms(1) by linarith
  ultimately have "(j + ?n) * 4096 < 2 ^ 26 * 4096" unfolding add_mult_distrib by linarith
  then have "j + Suc ?n \<le> 2 ^ 26" by simp
  then have "(j + Suc ?n) * 4096 \<le> 2 ^ 26 * 4096" by (rule mult_le_mono1)
  then show b: "unat va + Suc ?n * 4096 \<le> 2 ^ 38" using j by simp
  have "unat (pg_rounddown (va + sz - 1)) = (unat va + (unat sz - 1)) div 4096 * 4096"
    unfolding unat_rounddown u by (simp add: minus_mod_eq_div_mult)
  also have "(unat va + (unat sz - 1)) div 4096 = j + ?n" unfolding j by simp
  also have "(j + ?n) * 4096 = unat va + ?n * 4096" using j by simp
  also have "\<dots> = unat (va + of_nat ?n * PGSIZE)" using b by (intro unat_add_pages [symmetric]) simp
  finally show "pg_rounddown (va + sz - 1) = va + of_nat ?n * PGSIZE" by (simp add: word_unat_eq_iff)
qed

lemma pt_map_spec:
  assumes inv: "pt_inv kend s root" and flags: "flags AND 0x3ff = flags"
    and sz: "0 < sz" "unat (pg_rounddown va) + unat sz \<le> 2 ^ 38"
    and free: "\<forall>k \<le> (unat sz - 1) div 4096. leaf s root (pg_rounddown va + of_nat k * PGSIZE) = None"
  shows "\<exists>m r s'. pt_map root va pa sz flags s = Some (r, s') \<and> pt_keep kend root s s' \<and>
    mapped root (pg_rounddown va) pa flags m s s' \<and>
    (if r = Ok () then m = (unat sz - 1) div 4096 + 1 else m \<le> (unat sz - 1) div 4096 \<and> free_pages (kalloc s') = {})"
proof -
  have pos: "0 < unat sz" using sz(1) by (simp add: word_less_nat_alt)
  note l = map_last [OF pos sz(2) aligned_rounddown]
  obtain m r s' where "map_loop root (pg_rounddown va) pa (pg_rounddown va + of_nat ((unat sz - 1) div 4096) * PGSIZE) flags s = Some (r, s')"
    "pt_keep kend root s s'" "mapped root (pg_rounddown va) pa flags m s s'"
    "if r = Ok () then m = Suc ((unat sz - 1) div 4096) else m \<le> (unat sz - 1) div 4096 \<and> free_pages (kalloc s') = {}"
    using map_loop_spec [OF inv aligned_rounddown l(2) flags free, of pa] by blast
  then show ?thesis unfolding pt_map_def Let_def l(1) using sz(1) by (intro exI [of _ m] exI [of _ r] exI [of _ s'])
      (simp split: if_splits)
qed


lemma leaf_empty:
  assumes "tables s root = replicate 512 pte_invalid"
  shows "leaf s root va = None"
  using assms by (simp add: leaf_def child_def)

lemma pt_inv_empty:
  assumes "tables s root = replicate 512 pte_invalid" "0 < kend" "alloc_inv kend (kalloc s)" "managed kend root"
    "root \<notin> free_pages (kalloc s)"
  shows "pt_inv kend s root" "nodes s root = {root}"
proof -
  have none: "tab s root (i # p) = None" if "i < 512" for i p using that assms(1) by (simp add: child_def)
  have only: "p = []" if "path_ok p" "tab s root p = Some t" for p t
    using that none by (cases p) (auto simp: path_ok_def simp del: tab.simps)
  have n: "nodes s root = {root}"
  proof (intro equalityI subsetI)
    fix t assume "t \<in> nodes s root"
    then obtain p where p: "path_ok p" "tab s root p = Some t" by (auto simp: nodes_def)
    then have "p = []" by (rule only)
    then show "t \<in> {root}" using p(2) by simp
  qed (simp add: root_in_nodes)
  show "nodes s root = {root}" by (rule n)
  have "p = q" if "path_ok p" "path_ok q" "tab s root p = Some t" "tab s root q = Some t" for p q t
    using only [OF that(1,3)] only [OF that(2,4)] by simp
  then show "pt_inv kend s root" using assms unfolding pt_inv_def n by simp
qed


end
