(* ===== verification/Address_Space.thy ===== *)
theory Address_Space
  imports Paging_Map
begin

text \<open>
  The memory of a process as its page table maps it. The pages below \<open>TRAPFRAME\<close> are numbered from 0 on;
  \<open>space_inv kend s root K\<close> says that exactly the pages with numbers in \<open>K\<close> are mapped, to distinct pages that were
  allocated for this purpose. \<open>held\<close> is the set of all physical pages involved: tables, pages of the
  process, and free pages. The operations move pages within this set and write no page outside it.
\<close>

definition USER_PAGES :: nat where "USER_PAGES = 2 ^ 26 - 2"

definition upage :: "nat \<Rightarrow> usize" where
  "upage k = of_nat k * PGSIZE"

lemma unat_upage:
  assumes "k \<le> 2 ^ 26"
  shows "unat (upage k) = k * 4096"
  using unat_add_pages [of 0 k] assms by (simp add: upage_def)

lemma upage_facts:
  assumes "k < 2 ^ 26"
  shows "upage k < MAXVA" "aligned (upage k)" "pg_rounddown (upage k) = upage k" "upage k mod PGSIZE = 0"
proof -
  have u: "unat (upage k) = k * 4096" using assms by (intro unat_upage) simp
  show "upage k < MAXVA" unfolding below_MAXVA u using assms by simp
  show a: "aligned (upage k)" by (simp add: u)
  show "pg_rounddown (upage k) = upage k" by (rule rounddown_aligned [OF a])
  show "upage k mod PGSIZE = 0" using a by (simp add: word_unat_eq_iff unat_mod_distrib)
qed

lemma upage_inj: "k < 2 ^ 26 \<Longrightarrow> l < 2 ^ 26 \<Longrightarrow> upage k = upage l \<longleftrightarrow> k = l"
  using unat_upage [of k] unat_upage [of l] by (auto simp: word_unat_eq_iff)

lemma USER_PAGES_less: "k < USER_PAGES \<Longrightarrow> k < 2 ^ 26"
  by (simp add: USER_PAGES_def)

definition frame :: "machine \<Rightarrow> usize \<Rightarrow> nat \<Rightarrow> usize" where
  "frame s root k = get_physical_addr (the (leaf s root (upage k)))"

definition owned :: "usize \<Rightarrow> machine \<Rightarrow> usize \<Rightarrow> nat \<Rightarrow> bool" where
  "owned kend s root k \<longleftrightarrow> (\<exists>pte. leaf s root (upage k) = Some pte \<and> get_flags pte \<noteq> PTE_V) \<and>
     managed kend (frame s root k) \<and> frame s root k \<notin> free_pages (kalloc s) \<and> frame s root k \<notin> nodes s root \<and>
     length (pages s (frame s root k)) = 4096"

definition space_inv :: "usize \<Rightarrow> machine \<Rightarrow> usize \<Rightarrow> nat set \<Rightarrow> bool" where
  "space_inv kend s root K \<longleftrightarrow> pt_inv kend s root \<and> K \<subseteq> {..<USER_PAGES} \<and> (\<forall>k\<in>K. owned kend s root k) \<and>
     (\<forall>k<USER_PAGES. k \<notin> K \<longrightarrow> leaf s root (upage k) = None) \<and> inj_on (frame s root) K"

definition held :: "machine \<Rightarrow> usize \<Rightarrow> nat set \<Rightarrow> usize set" where
  "held s root K = nodes s root \<union> free_pages (kalloc s) \<union> frame s root ` K"

definition space_step :: "usize \<Rightarrow> usize \<Rightarrow> nat set \<Rightarrow> machine \<Rightarrow> nat set \<Rightarrow> machine \<Rightarrow> bool" where
  "space_step kend root K s K' s' \<longleftrightarrow> space_inv kend s' root K' \<and> held s' root K' = held s root K \<and>
     (\<forall>x. x \<notin> held s root K \<longrightarrow> tables s' x = tables s x \<and> pages s' x = pages s x) \<and>
     (\<forall>k\<in>K \<inter> K'. leaf s' root (upage k) = leaf s root (upage k) \<and> pages s' (frame s root k) = pages s (frame s root k)) \<and>
     (\<forall>va<MAXVA. USER_PAGES * 4096 \<le> unat va \<longrightarrow> leaf s' root va = leaf s root va)"

lemma space_invD:
  assumes "space_inv kend s root K"
  shows "pt_inv kend s root" "K \<subseteq> {..<USER_PAGES}" "k \<in> K \<Longrightarrow> owned kend s root k"
    "k < USER_PAGES \<Longrightarrow> k \<notin> K \<Longrightarrow> leaf s root (upage k) = None" "inj_on (frame s root) K"
  using assms by (auto simp: space_inv_def)

lemma space_step_refl: "space_inv kend s root K \<Longrightarrow> space_step kend root K s K s"
  by (simp add: space_step_def)

lemma frame_cong: "leaf s' root (upage k) = leaf s root (upage k) \<Longrightarrow> frame s' root k = frame s root k"
  by (simp add: frame_def)

lemma space_step_trans:
  assumes 1: "space_step kend root K s K' s'" and 2: "space_step kend root K' s' K'' s''" and sub: "K \<inter> K'' \<subseteq> K'"
  shows "space_step kend root K s K'' s''"
proof -
  have "leaf s'' root (upage k) = leaf s root (upage k) \<and> pages s'' (frame s root k) = pages s (frame s root k)"
    if "k \<in> K \<inter> K''" for k
  proof -
    have k: "k \<in> K \<inter> K'" "k \<in> K' \<inter> K''" using that sub by blast+
    then have "leaf s' root (upage k) = leaf s root (upage k)" using 1 by (simp add: space_step_def)
    with k show ?thesis using 1 2 frame_cong [of s' root k s] unfolding space_step_def by metis
  qed
  then show ?thesis using 1 2 unfolding space_step_def by metis
qed

subsection \<open>Changes that leave the tables alone\<close>

lemma tab_cong: "tables s' = tables s \<Longrightarrow> tab s' t p = tab s t p"
  by (induction p arbitrary: t) (auto simp: child_def split: option.split)

lemma tree_cong: "tables s' = tables s \<Longrightarrow> leaf s' root va = leaf s root va" "tables s' = tables s \<Longrightarrow> nodes s' root = nodes s root"
  by (simp_all only: leaf_def nodes_def tab_cong [of s' s])

lemma pt_inv_cong:
  assumes "pt_inv kend s root" "tables s' = tables s" "alloc_inv kend (kalloc s')" "nodes s root \<inter> free_pages (kalloc s') = {}"
  shows "pt_inv kend s' root"
  using assms tab_cong [OF assms(2)] tree_cong(2) [OF assms(2)] unfolding pt_inv_def by (metis disjoint_iff)

subsection \<open>Taking a page away\<close>

lemma leaf_other_page:
  assumes "\<forall>va<MAXVA. leaf s' root va = (if pg_rounddown va = upage k then x else leaf s root va)"
    and "k < USER_PAGES"
  shows "l < USER_PAGES \<Longrightarrow> l \<noteq> k \<Longrightarrow> leaf s' root (upage l) = leaf s root (upage l)"
    and "leaf s' root (upage k) = x"
    and "va < MAXVA \<Longrightarrow> USER_PAGES * 4096 \<le> unat va \<Longrightarrow> leaf s' root va = leaf s root va"
proof -
  have k: "k < 2 ^ 26" using assms(2) by (rule USER_PAGES_less)
  show "leaf s' root (upage k) = x" using assms(1) [rule_format, of "upage k"] upage_facts [OF k] by simp
  show "leaf s' root (upage l) = leaf s root (upage l)" if "l < USER_PAGES" "l \<noteq> k"
    using that assms(1) [rule_format, of "upage l"] upage_facts [of l] upage_inj [of l k] USER_PAGES_less [OF that(1)] k by auto
  show "leaf s' root va = leaf s root va" if "va < MAXVA" "USER_PAGES * 4096 \<le> unat va"
  proof -
    have "unat (upage k) + 4096 \<le> unat va" using that(2) assms(2) unat_upage [of k] by (simp add: USER_PAGES_def)
    then have "pg_rounddown va \<noteq> upage k" by (auto simp: word_unat_eq_iff unat_rounddown)
    then show ?thesis using assms(1) that(1) by simp
  qed
qed

lemma space_removeI:
  assumes inv: "space_inv kend s root K" and k: "k \<in> K"
    and pt: "pt_inv kend s' root" and nodes: "nodes s' root = nodes s root"
    and free: "free_pages (kalloc s') = insert (frame s root k) (free_pages (kalloc s))"
    and pages: "pages s' = pages s" and tables: "\<And>x. x \<notin> nodes s root \<Longrightarrow> tables s' x = tables s x"
    and leaf: "\<forall>va<MAXVA. leaf s' root va = (if pg_rounddown va = upage k then None else leaf s root va)"
  shows "space_step kend root K s (K - {k}) s'"
proof -
  have kl: "k < USER_PAGES" using space_invD(2) [OF inv] k by auto
  note other = leaf_other_page [OF leaf kl]
  have frames: "frame s' root l = frame s root l" if "l \<in> K - {k}" for l
    using that other(1) space_invD(2) [OF inv] by (intro frame_cong) auto
  have ne: "frame s root l \<noteq> frame s root k" if "l \<in> K - {k}" for l
    using that k space_invD(5) [OF inv] by (auto dest: inj_onD)
  have sp: "space_inv kend s' root (K - {k})"
    unfolding space_inv_def
  proof (intro conjI ballI allI impI pt)
    show "K - {k} \<subseteq> {..<USER_PAGES}" using space_invD(2) [OF inv] by blast
    show "inj_on (frame s' root) (K - {k})"
      using space_invD(5) [OF inv] frames by (auto simp: inj_on_def)
    show "owned kend s' root l" if l: "l \<in> K - {k}" for l
      using space_invD(3) [OF inv, of l] l frames [OF l] other(1) [of l] space_invD(2) [OF inv] nodes ne [OF l] free pages
      by (auto simp: owned_def)
    show "leaf s' root (upage l) = None" if "l < USER_PAGES" "l \<notin> K - {k}" for l
      using that other(1) [of l] space_invD(4) [OF inv, of l] other(2) by (cases "l = k") auto
  qed
  have fr: "frame s' root ` (K - {k}) = frame s root ` (K - {k})" using frames by simp
  have im: "frame s root ` K = insert (frame s root k) (frame s root ` (K - {k}))" using k by blast
  have he: "held s' root (K - {k}) = held s root K" unfolding held_def nodes fr im free by auto
  show ?thesis
    unfolding space_step_def
  proof (intro conjI ballI allI impI sp he)
    show "tables s' x = tables s x" if "x \<notin> held s root K" for x
      using that tables by (auto simp: held_def)
    show "leaf s' root (upage l) = leaf s root (upage l)" if "l \<in> K \<inter> (K - {k})" for l
      using that other(1) space_invD(2) [OF inv] by auto
  qed (use other(3) pages in simp_all)
qed

lemma unmap_page_spec:
  assumes inv: "space_inv kend s root K" and k: "k \<in> K"
  shows "\<exists>s'. unmap_page kend root True (upage k) s = Some s' \<and> space_step kend root K s (K - {k}) s'"
proof -
  note pt = space_invD(1) [OF inv]
  have "k < 2 ^ 26" using space_invD(2) [OF inv] k USER_PAGES_less by auto
  note up = upage_facts [OF this]
  let ?pa = "frame s root k" and ?va = "upage k"
  obtain pte where pte: "leaf s root ?va = Some pte" "get_flags pte \<noteq> PTE_V"
    and pa: "managed kend ?pa" "?pa \<notin> free_pages (kalloc s)" "?pa \<notin> nodes s root"
    using space_invD(3) [OF inv k] by (auto simp: owned_def)
  have pae: "get_physical_addr pte = ?pa" using pte(1) by (simp add: frame_def)
  have "?pa \<noteq> 0" using pa(1) pt_invD(4) [OF pt] by (auto simp: managed_def)
  obtain t where t: "tab s root [pte_index 2 ?va, pte_index 1 ?va] = Some t"
    and e: "is_valid pte" "tables s t ! pte_index 0 ?va = pte"
    using pte(1) by (auto simp: leaf_def Let_def simp del: tab.simps split: option.splits if_splits)
  obtain a where a: "deallocate_page kend ?pa (kalloc s) = Some a" "alloc_inv kend a" "free_pages a = insert ?pa (free_pages (kalloc s))"
    using ka.dealloc_ok [OF pt_invD(1) [OF pt] pa(1,2)] by blast
  let ?s1 = "s\<lparr>kalloc := a\<rparr>" and ?e = "(t, pte_index 0 ?va)"
  let ?s2 = "write_pte ?e pte_invalid ?s1"
  have run: "unmap_page kend root True ?va s = Some ?s2"
    using search_entry_lookup [OF up(1), of root s] t e pte(2) a(1) pae \<open>?pa \<noteq> 0\<close>
    by (simp add: unmap_page_def read_pte_def deallocate_def del: tab.simps)
  have pt1: "pt_inv kend ?s1 root"
    using pt_invD(3) [OF pt] pa(3) a by (intro pt_inv_cong [OF pt]) auto
  have t1: "tab ?s1 root [pte_index 2 ?va, pte_index 1 ?va] = Some t" using t tab_cong [of ?s1 s] by (simp del: tab.simps)
  note w = write_entry [OF pt1 up(1) t1, where v = pte_invalid]
  have tn: "t \<in> nodes s root" by (rule nodesI [OF _ t]) simp
  have "space_step kend root K s (K - {k}) ?s2"
  proof (rule space_removeI [OF inv k])
    show "pt_inv kend ?s2 root" using w(1) by (simp add: pt_keep_def)
    show "nodes ?s2 root = nodes s root" using w(2) tree_cong(2) [of ?s1 s] by simp
    show "\<forall>va<MAXVA. leaf ?s2 root va = (if pg_rounddown va = ?va then None else leaf s root va)"
      using w(3) tree_cong(1) [of ?s1 s] up(3) by simp
    show "tables ?s2 x = tables s x" if "x \<notin> nodes s root" for x using that tn by (auto simp: write_pte_def)
  qed (use a in simp_all)
  then show ?thesis using run by blast
qed

lemma unmap_pages_spec:
  assumes "space_inv kend s root K" and "{i..<i + n} \<subseteq> K"
  shows "\<exists>s'. for_each (unmap_page kend root True) (map upage [i..<i + n]) s = Some s' \<and>
    space_step kend root K s (K - {i..<i + n}) s'"
  using assms
proof (induction n)
  case 0
  then show ?case by (simp add: space_step_refl)
next
  case (Suc n)
  have "{i..<i + n} \<subseteq> K" using Suc.prems(2) by auto
  from Suc.IH [OF Suc.prems(1) this] obtain s1 where s1: "for_each (unmap_page kend root True) (map upage [i..<i + n]) s = Some s1"
    "space_step kend root K s (K - {i..<i + n}) s1" by blast
  have "space_inv kend s1 root (K - {i..<i + n})" "i + n \<in> K - {i..<i + n}"
    using s1(2) Suc.prems(2) by (auto simp: space_step_def)
  then obtain s2 where s2: "unmap_page kend root True (upage (i + n)) s1 = Some s2"
    "space_step kend root (K - {i..<i + n}) s1 (K - {i..<i + n} - {i + n}) s2"
    using unmap_page_spec by blast
  have K: "K - {i..<i + n} - {i + n} = K - {i..<i + Suc n}" by auto
  have "space_step kend root K s (K - {i..<i + Suc n}) s2"
    by (rule space_step_trans [OF s1(2) s2(2) [unfolded K]]) auto
  then show ?case using s1(1) s2(1) by (simp add: for_each_append)
qed

lemma unmap_spec:
  assumes inv: "space_inv kend s root K" and sub: "{i..<i + n} \<subseteq> K" and i: "i \<le> USER_PAGES"
  shows "\<exists>s'. unmap kend root (upage i) n True s = Some s' \<and> space_step kend root K s (K - {i..<i + n}) s'"
proof -
  have "i < 2 ^ 26" using i by (simp add: USER_PAGES_def)
  note up = upage_facts [OF this]
  have "map (\<lambda>j. upage i + of_nat j * PGSIZE) [0..<n] = map upage [i..<i + n]"
    by (rule nth_equalityI) (simp_all add: upage_def algebra_simps)
  then show ?thesis using unmap_pages_spec [OF inv sub] up(4) by (simp add: unmap_def)
qed

subsection \<open>Adding a page\<close>

lemma space_addI:
  assumes inv: "space_inv kend s root K" and k: "k \<notin> K" "k < USER_PAGES" and p: "p \<in> free_pages (kalloc s)"
    and pt: "pt_inv kend s' root" and nodes: "nodes s root \<subseteq> nodes s' root" "p \<notin> nodes s' root" "p \<notin> free_pages (kalloc s')"
    and free: "insert p (nodes s' root \<union> free_pages (kalloc s')) = nodes s root \<union> free_pages (kalloc s)"
    and pages: "pages s' = (pages s)(p := bs)" "length bs = 4096"
    and tables: "\<And>x. x \<notin> nodes s root \<Longrightarrow> x \<notin> free_pages (kalloc s) \<Longrightarrow> tables s' x = tables s x"
    and leaf: "\<forall>va<MAXVA. leaf s' root va = (if pg_rounddown va = upage k then Some pte else leaf s root va)"
    and pte: "get_physical_addr pte = p" "get_flags pte \<noteq> PTE_V"
  shows "space_step kend root K s (insert k K) s'"
proof -
  note other = leaf_other_page [OF leaf k(2)]
  have lK: "l < USER_PAGES" "l \<noteq> k" if "l \<in> K" for l using that k space_invD(2) [OF inv] by auto
  have frames: "frame s' root l = frame s root l" if "l \<in> K" for l
    using other(1) [OF lK [OF that]] by (rule frame_cong)
  have fk: "frame s' root k = p" using other(2) pte(1) by (simp add: frame_def)
  have old: "owned kend s root l" if "l \<in> K" for l using space_invD(3) [OF inv that] .
  have ne: "frame s root l \<noteq> p" if "l \<in> K" for l using old [OF that] p by (auto simp: owned_def)
  have mp: "managed kend p" using ka.free_ok [OF pt_invD(1) [OF space_invD(1) [OF inv]] p] .
  have sp: "space_inv kend s' root (insert k K)"
    unfolding space_inv_def
  proof (intro conjI ballI allI impI pt)
    show "insert k K \<subseteq> {..<USER_PAGES}" using k space_invD(2) [OF inv] by auto
    show "inj_on (frame s' root) (insert k K)"
      using space_invD(5) [OF inv] frames fk ne k(1) by (fastforce simp: inj_on_def)
    show "owned kend s' root l" if l: "l \<in> insert k K" for l
    proof (cases "l = k")
      case True
      then show ?thesis using fk other(2) pte(2) mp nodes pages by (simp add: owned_def)
    next
      case False
      then have l: "l \<in> K" using l by blast
      have "frame s root l \<notin> nodes s' root" "frame s root l \<notin> free_pages (kalloc s')"
        using old [OF l] free by (auto simp: owned_def)
      then show ?thesis using old [OF l] frames [OF l] other(1) [OF lK [OF l]] ne [OF l] pages(1) by (simp add: owned_def)
    qed
    show "leaf s' root (upage l) = None" if "l < USER_PAGES" "l \<notin> insert k K" for l
      using that other(1) [of l] space_invD(4) [OF inv, of l] by auto
  qed
  have "held s' root (insert k K) = held s root K" unfolding held_def using frames fk free by auto
  moreover have "pages s' x = pages s x" if "x \<notin> held s root K" for x using that p pages(1) by (auto simp: held_def)
  ultimately show ?thesis
    unfolding space_step_def using sp tables other(1,3) lK ne pages(1) by (auto simp: held_def)
qed

lemma space_keepI:
  assumes inv: "space_inv kend s root K" and pt: "pt_inv kend s' root" and nodes: "nodes s root \<subseteq> nodes s' root"
    and free: "nodes s' root \<union> free_pages (kalloc s') = nodes s root \<union> free_pages (kalloc s)"
    and pages: "\<And>x. x \<notin> free_pages (kalloc s) \<Longrightarrow> pages s' x = pages s x"
    and tables: "\<And>x. x \<notin> nodes s root \<Longrightarrow> x \<notin> free_pages (kalloc s) \<Longrightarrow> tables s' x = tables s x"
    and leaf: "\<forall>va<MAXVA. leaf s' root va = leaf s root va"
  shows "space_step kend root K s K s'"
proof -
  have leafk: "leaf s' root (upage l) = leaf s root (upage l)" if "l < USER_PAGES" for l
    using leaf upage_facts(1) [OF USER_PAGES_less [OF that]] by blast
  have lK: "l < USER_PAGES" if "l \<in> K" for l using that space_invD(2) [OF inv] by auto
  have frames: "frame s' root l = frame s root l" if "l \<in> K" for l using leafk [OF lK [OF that]] by (rule frame_cong)
  have ow: "frame s root l \<notin> nodes s root" "frame s root l \<notin> free_pages (kalloc s)" if "l \<in> K" for l
    using space_invD(3) [OF inv that] by (auto simp: owned_def)
  have "owned kend s' root l" if l: "l \<in> K" for l
    using space_invD(3) [OF inv l] leafk [OF lK [OF l]] frames [OF l] ow [OF l] free pages by (auto simp: owned_def)
  moreover have "inj_on (frame s' root) K" using space_invD(5) [OF inv] frames by (auto simp: inj_on_def)
  ultimately have "space_inv kend s' root K"
    using pt space_invD(2,4) [OF inv] leafk unfolding space_inv_def by auto
  moreover have "held s' root K = held s root K" unfolding held_def using frames free by auto
  ultimately show ?thesis
    unfolding space_step_def using leafk lK leaf pages tables ow by (auto simp: held_def)
qed

text \<open>Mapping one page, with room for the entry or without.\<close>

lemma map_one:
  assumes inv: "pt_inv kend s root" and flags: "flags AND 0x3ff = flags" and k: "k < USER_PAGES" and none: "leaf s root (upage k) = None"
  shows "\<exists>r s'. pt_map root (upage k) pa PGSIZE flags s = Some (r, s') \<and> pt_keep kend root s s' \<and>
    (\<forall>va<MAXVA. leaf s' root va = (if r = Ok () \<and> pg_rounddown va = upage k then Some (leaf_pte pa flags) else leaf s root va))"
proof -
  have k26: "k < 2 ^ 26" using k by (rule USER_PAGES_less)
  note up = upage_facts [OF k26]
  have b: "unat (pg_rounddown (upage k)) + unat PGSIZE \<le> 2 ^ 38"
    using unat_upage [of k] k by (simp add: up USER_PAGES_def)
  have sz: "0 < PGSIZE" "(unat PGSIZE - 1) div 4096 = 0" by (simp_all add: PGSIZE_def)
  obtain m r s' where m: "pt_map root (upage k) pa PGSIZE flags s = Some (r, s')" "pt_keep kend root s s'"
    "mapped root (upage k) pa flags m s s'" "if r = Ok () then m = 1 else m \<le> 0"
    using pt_map_spec [OF inv flags sz(1) b, of pa] none unfolding sz(2) up(3) by (auto split: if_splits)
  have "leaf s' root va = (if r = Ok () \<and> pg_rounddown va = upage k then Some (leaf_pte pa flags) else leaf s root va)" if va: "va < MAXVA" for va
  proof (cases "r = Ok ()")
    case True
    then have "m = 1" using m(4) by simp
    then have "leaf s' root (upage k) = Some (leaf_pte pa flags)" "pg_rounddown va \<noteq> upage k \<Longrightarrow> leaf s' root va = leaf s root va"
      using m(3) va by (auto simp: mapped_def)
    then show ?thesis using True leaf_page [OF va up(1), of s' root] up(3) by auto
  next
    case False
    then show ?thesis using m(3,4) va by (simp add: mapped_0)
  qed
  then show ?thesis using m(1,2) by blast
qed

lemma leaf_flags_not_V:
  assumes "flags AND 0x3ff = flags" "flags OR PTE_V \<noteq> PTE_V" "aligned p"
  shows "get_physical_addr (leaf_pte p flags) = p" "get_flags (leaf_pte p flags) \<noteq> PTE_V"
  using leaf_pte_facts [OF assms(1), of p] assms(2,3) rounddown_aligned by auto

text \<open>
  A page is allocated, filled with \<open>bs\<close> and mapped as page \<open>k\<close>; when the mapping fails, giving the page back
  restores the space.
\<close>

lemma add_page:
  assumes inv: "space_inv kend s root K" and k: "k \<notin> K" "k < USER_PAGES"
    and al: "allocate_page (kalloc s) = (Some p, a)" and bs: "length bs = 4096"
    and flags: "flags AND 0x3ff = flags" "flags OR PTE_V \<noteq> PTE_V"
  shows "\<exists>r s'. pt_map root (upage k) p PGSIZE flags (s\<lparr>kalloc := a, pages := (pages s)(p := bs)\<rparr>) = Some (r, s') \<and>
    (if r = Ok ()
     then space_step kend root K s (insert k K) s' \<and> leaf s' root (upage k) = Some (leaf_pte p flags) \<and> pages s' p = bs
     else \<exists>a'. deallocate kend p (kalloc s') = Some a' \<and> space_step kend root K s K (s'\<lparr>kalloc := a'\<rparr>))"
proof -
  let ?s1 = "s\<lparr>kalloc := a, pages := (pages s)(p := bs)\<rparr>"
  note pt = space_invD(1) [OF inv]
  have a: "alloc_inv kend a" "p \<in> free_pages (kalloc s)" "free_pages a = free_pages (kalloc s) - {p}"
    using ka.alloc_Some [OF pt_invD(1) [OF pt] al] by simp_all
  have p: "managed kend p" "p \<notin> nodes s root" using ka.free_ok [OF pt_invD(1) [OF pt] a(2)] pt_invD(3) [OF pt] a(2) by blast+
  have pt1: "pt_inv kend ?s1 root" using pt_invD(3) [OF pt] a by (intro pt_inv_cong [OF pt]) auto
  have s1: "nodes ?s1 root = nodes s root" "\<And>va. leaf ?s1 root va = leaf s root va" by (rule tree_cong, simp)+
  obtain r s' where m: "pt_map root (upage k) p PGSIZE flags ?s1 = Some (r, s')" "pt_keep kend root ?s1 s'"
    "\<forall>va<MAXVA. leaf s' root va = (if r = Ok () \<and> pg_rounddown va = upage k then Some (leaf_pte p flags) else leaf s root va)"
    using map_one [OF pt1 flags(1) k(2), of p] space_invD(4) [OF inv k(2,1)] s1(2) by auto
  have s': "pt_inv kend s' root" "nodes s root \<subseteq> nodes s' root" "nodes s' root \<union> free_pages (kalloc s') = nodes s root \<union> (free_pages (kalloc s) - {p})"
    "pages s' = (pages s)(p := bs)" "\<And>t. t \<notin> nodes s root \<Longrightarrow> t \<notin> free_pages (kalloc s) \<Longrightarrow> tables s' t = tables s t"
    using m(2) s1(1) a(3) by (auto simp: pt_keep_def)
  have out: "p \<notin> nodes s' root" "p \<notin> free_pages (kalloc s')" using s'(3) p(2) by blast+
  show ?thesis
  proof (cases "r = Ok ()")
    case True
    have "aligned p" using p(1) by (simp add: managed_def)
    note lf = leaf_flags_not_V [OF flags this]
    have "space_step kend root K s (insert k K) s'"
      by (rule space_addI [OF inv k a(2) s'(1,2) out _ s'(4) bs s'(5) _ lf]) (use s'(3) a(2) m(3) True in auto)
    moreover have "leaf s' root (upage k) = Some (leaf_pte p flags)"
      using m(3) [rule_format, of "upage k"] True upage_facts [OF USER_PAGES_less [OF k(2)]] by simp
    ultimately show ?thesis using m(1) True s'(4) by simp
  next
    case False
    obtain a' where a': "deallocate_page kend p (kalloc s') = Some a'" "alloc_inv kend a'" "free_pages a' = insert p (free_pages (kalloc s'))"
      using ka.dealloc_ok [OF pt_invD(1) [OF s'(1)] p(1) out(2)] by blast
    let ?s2 = "s'\<lparr>kalloc := a'\<rparr>"
    have t2: "nodes ?s2 root = nodes s' root" "\<And>va. leaf ?s2 root va = leaf s' root va" by (rule tree_cong, simp)+
    have "space_step kend root K s K ?s2"
    proof (rule space_keepI [OF inv])
      show "pt_inv kend ?s2 root" using a' out(1) pt_invD(3) [OF s'(1)] by (intro pt_inv_cong [OF s'(1)]) auto
      show "nodes ?s2 root \<union> free_pages (kalloc ?s2) = nodes s root \<union> free_pages (kalloc s)" using t2 a'(3) s'(3) a(2) by auto
      show "\<forall>va<MAXVA. leaf ?s2 root va = leaf s root va" using t2 m(3) False by simp
      show "pages ?s2 x = pages s x" if "x \<notin> free_pages (kalloc s)" for x using that s'(4) a(2) by auto
    qed (use t2 s' in auto)
    then show ?thesis using m(1) False a'(1) by (auto simp: deallocate_def)
  qed
qed

subsection \<open>Shrinking\<close>

definition npages :: "usize \<Rightarrow> nat" where
  "npages sz = (unat sz + 4095) div 4096"

lemma npages_upage: "n \<le> 2 ^ 26 \<Longrightarrow> npages (upage n) = n"
  by (simp add: npages_def unat_upage)

lemma npages_mono: "a \<le> b \<Longrightarrow> npages a \<le> npages b"
  by (simp add: npages_def word_le_nat_alt div_le_mono)

lemma npages_bound:
  assumes "unat sz \<le> n * 4096"
  shows "npages sz \<le> n"
proof -
  have "unat sz + 4095 < Suc n * 4096" using assms by simp
  then have "(unat sz + 4095) div 4096 < Suc n" by (rule less_mult_imp_div_less)
  then show ?thesis by (simp add: npages_def)
qed

lemmas npages_le = npages_bound [where n = USER_PAGES]

lemma roundup_upage:
  assumes "unat sz \<le> USER_PAGES * 4096"
  shows "pg_roundup sz = upage (npages sz)"
proof -
  have "npages sz \<le> 2 ^ 26" using npages_le [OF assms] by (simp add: USER_PAGES_def)
  then have "unat (upage (npages sz)) = npages sz * 4096" by (rule unat_upage)
  moreover have "unat (pg_roundup sz) = npages sz * 4096"
    using assms by (simp add: unat_roundup npages_def USER_PAGES_def)
  ultimately show ?thesis by (simp add: word_unat_eq_iff)
qed

lemma upage_diff:
  assumes "i \<le> j" "j \<le> USER_PAGES"
  shows "unat ((upage j - upage i) div PGSIZE) = j - i"
proof -
  have u: "unat (upage i) = i * 4096" "unat (upage j) = j * 4096" using assms by (auto intro!: unat_upage simp: USER_PAGES_def)
  then have "upage i \<le> upage j" using assms(1) by (simp add: word_le_nat_alt)
  then have "unat (upage j - upage i) = (j - i) * 4096" using u by (simp add: unat_sub diff_mult_distrib)
  then show ?thesis by (simp add: unat_div_distrib)
qed

lemma shrink_spec:
  assumes inv: "space_inv kend s root {..<npages old}" and old: "unat old \<le> USER_PAGES * 4096"
  shows "\<exists>s'. shrink kend root old new s = Some (Ok (if new \<ge> old then old else new), s') \<and>
    space_step kend root {..<npages old} s {..<(if new \<ge> old then npages old else npages new)} s'"
proof (cases "new \<ge> old")
  case True
  then show ?thesis using space_step_refl [OF inv] by (simp add: shrink_def)
next
  case False
  have new: "unat new \<le> USER_PAGES * 4096" using False old by (simp add: word_le_nat_alt)
  have le: "npages new \<le> npages old" "npages old \<le> USER_PAGES" "npages new \<le> USER_PAGES"
    using False npages_mono npages_le [OF old] npages_le [OF new] by auto
  have eq: "upage (npages new) = upage (npages old) \<longleftrightarrow> npages new = npages old"
    using upage_inj [of "npages new" "npages old"] le by (simp add: USER_PAGES_def)
  let ?n = "npages old - npages new"
  have sub: "{npages new..<npages new + ?n} \<subseteq> {..<npages old}" using le(1) by auto
  have K: "{..<npages old} - {npages new..<npages new + ?n} = {..<npages new}" using le(1) by auto
  obtain s' where s': "unmap kend root (upage (npages new)) ?n True s = Some s'"
    "space_step kend root {..<npages old} s {..<npages new} s'"
    using unmap_spec [OF inv sub le(3)] unfolding K by blast
  show ?thesis
  proof (cases "npages new = npages old")
    case True
    then show ?thesis using False space_step_refl [OF inv] by (simp add: shrink_def roundup_upage old new)
  next
    case n: False
    then show ?thesis using False s' eq upage_diff [OF le(1,2)] by (simp add: shrink_def roundup_upage old new)
  qed
qed

subsection \<open>Growing\<close>

lemma step_range_upages:
  assumes "n \<le> npages stop" "npages stop \<le> USER_PAGES"
  shows "step_range (upage n) stop = map upage [n..<npages stop]"
proof -
  have u: "unat (upage n) = n * 4096" using assms by (intro unat_upage) (simp add: USER_PAGES_def)
  have n: "(unat stop - n * 4096 + 4095) div 4096 = npages stop - n"
  proof (cases "n * 4096 \<le> unat stop")
    case True
    then obtain q where "unat stop = n * 4096 + q" using le_Suc_ex by blast
    moreover from this have "npages stop = n + (q + 4095) div 4096" by (simp add: npages_def add.assoc)
    ultimately show ?thesis by simp
  next
    case False
    then have "npages stop \<le> n" by (intro npages_bound) simp
    then show ?thesis using False assms(1) by simp
  qed
  show ?thesis
    unfolding step_range_def u n by (rule nth_equalityI) (simp_all add: upage_def algebra_simps)
qed

end
