(* ===== verification/Space_Ops.thy ===== *)
theory Space_Ops
  imports Address_Space
begin

text \<open>
  \<open>grow\<close>, \<open>shrink\<close> and \<open>copy\<close> on the memory of a process: what they do to it when they succeed, and that it
  is as before when they run out of pages.
\<close>

definition fresh :: "usize \<Rightarrow> u64 \<Rightarrow> nat \<Rightarrow> nat \<Rightarrow> machine \<Rightarrow> bool" where
  "fresh root perm i n s \<longleftrightarrow> (\<forall>k. i \<le> k \<and> k < n \<longrightarrow>
     (\<exists>p. aligned p \<and> leaf s root (upage k) = Some (leaf_pte p (perm OR PTE_R OR PTE_U)) \<and> pages s p = replicate 4096 0))"

lemma fresh_Suc:
  assumes "fresh root perm i n s" "aligned p" "leaf s root (upage n) = Some (leaf_pte p (perm OR PTE_R OR PTE_U))"
    "pages s p = replicate 4096 0"
  shows "fresh root perm i (Suc n) s"
  unfolding fresh_def
proof (intro allI impI)
  fix k assume k: "i \<le> k \<and> k < Suc n"
  show "\<exists>p. aligned p \<and> leaf s root (upage k) = Some (leaf_pte p (perm OR PTE_R OR PTE_U)) \<and> pages s p = replicate 4096 0"
  proof (cases "k = n")
    case True
    then show ?thesis using assms(2-4) by (intro exI [of _ p]) simp
  next
    case False
    then show ?thesis using assms(1) [unfolded fresh_def, rule_format, of k] k by simp
  qed
qed

lemma grow_flags:
  assumes "perm AND 0x3ff = perm"
  shows "(perm OR PTE_R OR PTE_U) AND 0x3ff = perm OR PTE_R OR PTE_U" "(perm OR PTE_R OR PTE_U) OR PTE_V \<noteq> PTE_V"
proof -
  have "take_bit 10 perm = perm" using assms by (simp only: and_3ff)
  then have "take_bit 10 (perm OR PTE_R OR PTE_U) = perm OR take_bit 10 PTE_R OR take_bit 10 PTE_U" by (simp only: take_bit_or)
  moreover have "take_bit 10 PTE_R = PTE_R" "take_bit 10 PTE_U = PTE_U" by (simp_all add: PTE_R_def PTE_U_def)
  ultimately show "(perm OR PTE_R OR PTE_U) AND 0x3ff = perm OR PTE_R OR PTE_U" by (simp only: and_3ff)
  have "bit (perm OR PTE_R OR PTE_U OR PTE_V) 1" "\<not> bit PTE_V 1" by (simp_all add: PTE_R_def PTE_V_def bit_simps)
  then show "(perm OR PTE_R OR PTE_U) OR PTE_V \<noteq> PTE_V" by (metis or.assoc)
qed

lemma fresh_step:
  assumes "fresh root perm i n s" and st: "space_step kend root K s K' s'" and "{i..<n} \<subseteq> K \<inter> K'" and perm: "perm AND 0x3ff = perm"
  shows "fresh root perm i n s'"
  unfolding fresh_def
proof (intro allI impI)
  fix k assume k: "i \<le> k \<and> k < n"
  then obtain p where p: "aligned p" "leaf s root (upage k) = Some (leaf_pte p (perm OR PTE_R OR PTE_U))" "pages s p = replicate 4096 0"
    using assms(1) [unfolded fresh_def, rule_format, OF k] by (elim exE conjE) (rule that)
  have "frame s root k = p" using p leaf_flags_not_V(1) [OF grow_flags [OF perm] p(1)] by (simp add: frame_def)
  moreover have "k \<in> K \<inter> K'" using k assms(3) by auto
  then have "leaf s' root (upage k) = leaf s root (upage k)" "pages s' (frame s root k) = pages s (frame s root k)"
    using st unfolding space_step_def by blast+
  ultimately have "leaf s' root (upage k) = leaf s root (upage k)" "pages s' p = pages s p" by simp_all
  then show "\<exists>p. aligned p \<and> leaf s' root (upage k) = Some (leaf_pte p (perm OR PTE_R OR PTE_U)) \<and> pages s' p = replicate 4096 0"
    using p by (intro exI [of _ p]) simp
qed

text \<open>The way back: \<open>shrink\<close> from the page at which \<open>grow\<close> failed.\<close>

lemma grow_undo:
  assumes st: "space_step kend root {..<npages old} s0 {..<n} s" and n: "npages old \<le> n" "n \<le> USER_PAGES"
  shows "\<exists>x s'. shrink kend root (upage n) old s = Some (Ok x, s') \<and> space_step kend root {..<npages old} s0 {..<npages old} s'"
proof -
  have b: "n \<le> 2 ^ 26" "unat (upage n) \<le> USER_PAGES * 4096" using n(2) unat_upage [of n] by (simp_all add: USER_PAGES_def)
  have inv: "space_inv kend s root {..<npages (upage n)}" using st npages_upage [OF b(1)] by (simp add: space_step_def)
  have K: "(if old \<ge> upage n then n else npages old) = npages old"
    using npages_mono [of "upage n" old] npages_upage [OF b(1)] n(1) by auto
  obtain s' where s': "shrink kend root (upage n) old s = Some (Ok (if old \<ge> upage n then upage n else old), s')"
    "space_step kend root {..<n} s {..<npages old} s'"
    using shrink_spec [OF inv b(2), of old] unfolding npages_upage [OF b(1)] K by (elim exE conjE) (rule that)
  moreover have "space_step kend root {..<npages old} s0 {..<npages old} s'"
    by (rule space_step_trans [OF st s'(2)]) (use n(1) in auto)
  ultimately show ?thesis by blast
qed

lemma grow_loop_spec:
  assumes "space_step kend root {..<npages old} s0 {..<n} s" "npages old \<le> n" "n + j \<le> USER_PAGES" "perm AND 0x3ff = perm"
    "fresh root perm (npages old) n s"
  shows "\<exists>r s'. grow_loop kend root old new perm (map upage [n..<n + j]) s = Some (r, s') \<and>
    (case r of
       Ok x \<Rightarrow> x = new \<and> space_step kend root {..<npages old} s0 {..<n + j} s' \<and> fresh root perm (npages old) (n + j) s'
     | Err _ \<Rightarrow> space_step kend root {..<npages old} s0 {..<npages old} s')"
  using assms
proof (induction j arbitrary: n s)
  case 0
  then show ?case by simp
next
  case (Suc j)
  let ?flags = "perm OR PTE_R OR PTE_U"
  note fl = grow_flags [OF Suc.prems(4)]
  have list: "map upage [n..<n + Suc j] = upage n # map upage [Suc n..<Suc n + j]"
    by (subst upt_conv_Cons) simp_all
  have n: "n < USER_PAGES" "n \<le> USER_PAGES" using Suc.prems(3) by simp_all
  have inv: "space_inv kend s root {..<n}" using Suc.prems(1) by (simp add: space_step_def)
  note al_inv = pt_invD(1) [OF space_invD(1) [OF inv]]
  show ?case
  proof (cases "allocate_page (kalloc s)")
    case (Pair r a)
    show ?thesis
    proof (cases r)
      case None
      then have "a = kalloc s" using ka.alloc_None [OF al_inv] Pair by simp
      moreover obtain x s' where u: "shrink kend root (upage n) old s = Some (Ok x, s')"
        "space_step kend root {..<npages old} s0 {..<npages old} s'" using grow_undo [OF Suc.prems(1,2) n(2)] by blast
      ultimately have run: "grow_loop kend root old new perm (upage n # as) s = Some (Err (), s')" for as
        using Pair None by (simp add: allocate_page_sized)
      show ?thesis unfolding list run using u(2) by simp
    next
      case (Some p)
      let ?s1 = "s\<lparr>kalloc := a, pages := (pages s)(p := replicate 4096 0)\<rparr>"
      obtain r2 s2 where m: "pt_map root (upage n) p PGSIZE ?flags ?s1 = Some (r2, s2)"
        "if r2 = Ok () then space_step kend root {..<n} s (insert n {..<n}) s2 \<and> leaf s2 root (upage n) = Some (leaf_pte p ?flags) \<and>
           pages s2 p = replicate 4096 0
         else \<exists>a'. deallocate kend p (kalloc s2) = Some a' \<and> space_step kend root {..<n} s {..<n} (s2\<lparr>kalloc := a'\<rparr>)"
        using add_page [OF inv _ n(1) Pair [unfolded Some] length_replicate fl, of 0] by auto
      have al: "allocate 4096 4096 (kalloc s) = (Ok p, a)" using Pair Some by (simp add: allocate_page_sized)
      show ?thesis
      proof (cases "r2 = Ok ()")
        case True
        then have st: "space_step kend root {..<n} s {..<Suc n} s2" using m(2) by (simp add: lessThan_Suc)
        have st0: "space_step kend root {..<npages old} s0 {..<Suc n} s2"
          by (rule space_step_trans [OF Suc.prems(1) st]) (use Suc.prems(2) in auto)
        have "managed kend p" using ka.alloc_Some [OF al_inv Pair [unfolded Some]] ka.free_ok [OF al_inv] by blast
        then have p: "aligned p" by (simp add: managed_def)
        have "fresh root perm (npages old) n s2" by (rule fresh_step [OF Suc.prems(5) st _ Suc.prems(4)]) auto
        then have "fresh root perm (npages old) (Suc n) s2" by (rule fresh_Suc [OF _ p]) (use m(2) True in simp_all)
        note fr = this
        have b: "npages old \<le> Suc n" "Suc n + j \<le> USER_PAGES" using Suc.prems(2,3) by simp_all
        have run: "grow_loop kend root old new perm (upage n # as) s = grow_loop kend root old new perm as s2" for as
          using al m(1) True by simp
        show ?thesis
          unfolding list run using Suc.IH [OF st0 b Suc.prems(4) fr] unfolding add_Suc_shift .
      next
        case False
        then obtain a' where a': "deallocate kend p (kalloc s2) = Some a'" "space_step kend root {..<n} s {..<n} (s2\<lparr>kalloc := a'\<rparr>)"
          using m(2) by auto
        have "space_step kend root {..<npages old} s0 {..<n} (s2\<lparr>kalloc := a'\<rparr>)"
          by (rule space_step_trans [OF Suc.prems(1) a'(2)]) (use Suc.prems(2) in auto)
        from grow_undo [OF this Suc.prems(2) n(2)] obtain x s' where u: "shrink kend root (upage n) old (s2\<lparr>kalloc := a'\<rparr>) = Some (Ok x, s')"
          "space_step kend root {..<npages old} s0 {..<npages old} s'" by blast
        have "r2 = Err ()" using False unit_result_cases [of r2] by blast
        then have run: "grow_loop kend root old new perm (upage n # as) s = Some (Err (), s')" for as
          using al m(1) a'(1) u(1) by simp
        show ?thesis unfolding list run using u(2) by simp
      qed
    qed
  qed
qed

text \<open>
  C28. \<open>grow\<close> of a process that has exactly the pages its size needs: on success it has exactly the pages the
  new size needs, the added ones zeroed, readable, accessible to the user and with the permissions asked
  for, and the old ones as they were. When the pages run out, every page that had been added is given back
  and the process has the memory it had. In both cases the pages involved come from, and go to, the free
  pages and the tables, and no page outside is written.
\<close>

theorem grow_correct:
  assumes inv: "space_inv kend s root {..<npages old}" and sz: "old \<le> new" "unat new \<le> USER_PAGES * 4096" and perm: "perm AND 0x3ff = perm"
  shows "\<exists>r s'. grow kend root old new perm s = Some (r, s') \<and>
    (case r of
       Ok x \<Rightarrow> x = new \<and> space_step kend root {..<npages old} s {..<npages new} s' \<and> fresh root perm (npages old) (npages new) s'
     | Err _ \<Rightarrow> space_step kend root {..<npages old} s {..<npages old} s')"
proof -
  have le: "npages old \<le> npages new" "npages new \<le> USER_PAGES" using npages_mono [OF sz(1)] npages_le [OF sz(2)] by auto
  have old: "unat old \<le> USER_PAGES * 4096" using sz by (simp add: word_le_nat_alt)
  have range: "step_range (pg_roundup old) new = map upage [npages old..<npages old + (npages new - npages old)]"
    unfolding roundup_upage [OF old] using step_range_upages [OF le] le(1) by simp
  have run: "grow kend root old new perm s = grow_loop kend root old new perm (map upage [npages old..<npages old + (npages new - npages old)]) s"
    using leD [OF sz(1)] by (simp add: grow_def range)
  have f: "fresh root perm (npages old) (npages old) s" unfolding fresh_def by (intro allI impI) (elim conjE, linarith)
  have b: "npages old + (npages new - npages old) \<le> USER_PAGES" using le by simp
  show ?thesis
    unfolding run using grow_loop_spec [OF space_step_refl [OF inv] order_refl b perm f, of new]
    unfolding le_add_diff_inverse [OF le(1)] .
qed

text \<open>
  A machine for the examples: the page table at \<open>0x80021000\<close> maps page 0 to \<open>0x80029000\<close>, through the tables at
  \<open>0x80027000\<close> and \<open>0x80028000\<close>; the page table at \<open>0x80022000\<close> is empty; four pages are free.
\<close>

definition one_page :: machine where
  "one_page = \<lparr>kalloc = \<lparr>head = Some 0x80023000, next_page = (\<lambda>_. None)(0x80023000 := Some 0x80024000, 0x80024000 := Some 0x80025000,
       0x80025000 := Some 0x80026000)\<rparr>,
     tables = (\<lambda>_. replicate 512 pte_invalid)(0x80021000 := (replicate 512 pte_invalid)[0 := table_pte 0x80027000],
       0x80027000 := (replicate 512 pte_invalid)[0 := table_pte 0x80028000],
       0x80028000 := (replicate 512 pte_invalid)[0 := leaf_pte 0x80029000 (PTE_R OR PTE_W OR PTE_U)]),
     pages = \<lambda>_. replicate 4096 0\<rparr>"

lemma one_page_free: "free_list 0x80020000 (kalloc one_page) [0x80023000, 0x80024000, 0x80025000, 0x80026000]"
  by (simp add: free_list_def managed_def layout_defs one_page_def)

lemma one_page_flags: "(PTE_R OR PTE_W OR PTE_U) AND 0x3ff = PTE_R OR PTE_W OR PTE_U" "PTE_R OR PTE_W OR PTE_U OR PTE_V \<noteq> PTE_V"
  by (simp_all add: PTE_R_def PTE_W_def PTE_U_def PTE_V_def)

lemma one_page_child:
  assumes "i < 512"
  shows "child one_page 0x80021000 i = (if i = 0 then Some 0x80027000 else None)"
    "child one_page 0x80027000 i = (if i = 0 then Some 0x80028000 else None)"
  using assms table_pte_facts [of "0x80027000"] table_pte_facts [of "0x80028000"]
  by (simp_all add: child_def one_page_def nth_list_update)

lemma one_page_tab:
  assumes "path_ok p"
  shows "tab one_page 0x80021000 p = (if p = [] then Some 0x80021000 else if p = [0] then Some 0x80027000 else if p = [0, 0] then Some 0x80028000 else None)"
proof -
  consider "p = []" | i where "p = [i]" "i < 512" | i j where "p = [i, j]" "i < 512" "j < 512"
    using assms by (cases p; cases "tl p"; cases "tl (tl p)") (auto simp: path_ok_def)
  then show ?thesis by cases (auto simp: one_page_child)
qed

lemma one_page_leaf:
  assumes "va < MAXVA"
  shows "leaf one_page 0x80021000 va = (if pg_rounddown va = 0 then Some (leaf_pte 0x80029000 (PTE_R OR PTE_W OR PTE_U)) else None)"
proof -
  have i0: "indices 0 = (0, 0, 0)" by (simp add: indices_def pte_index_eq)
  have "(0 :: usize) < MAXVA" by (simp add: below_MAXVA)
  then have eq: "indices va = (0, 0, 0) \<longleftrightarrow> pg_rounddown va = 0" using same_page [OF assms, of 0] i0 by (simp add: pg_rounddown_def)
  have t: "tab one_page 0x80021000 [pte_index 2 va, pte_index 1 va] =
    (if pte_index 2 va = 0 \<and> pte_index 1 va = 0 then Some 0x80028000 else None)"
    by (subst one_page_tab) simp_all
  show ?thesis
    unfolding leaf_def t eq [symmetric] indices_def using leaf_pte_facts(1) [OF one_page_flags(1)]
    by (auto simp: one_page_def nth_list_update Let_def simp del: One_nat_def)
qed

lemma one_page_inv:
  shows "space_inv 0x80020000 one_page 0x80021000 {0}" "nodes one_page 0x80021000 = {0x80021000, 0x80027000, 0x80028000}"
    "frame one_page 0x80021000 0 = 0x80029000"
proof -
  have free: "free_pages (kalloc one_page) = {0x80023000, 0x80024000, 0x80025000, 0x80026000}" using free_pages_eq [OF one_page_free] by simp
  show nodes: "nodes one_page 0x80021000 = {0x80021000, 0x80027000, 0x80028000}"
  proof (intro equalityI subsetI)
    fix t assume "t \<in> nodes one_page 0x80021000"
    then obtain p where "path_ok p" "tab one_page 0x80021000 p = Some t" by (auto simp: nodes_def)
    then show "t \<in> {0x80021000, 0x80027000, 0x80028000}" using one_page_tab [of p] by (auto split: if_splits)
  next
    fix t :: usize assume "t \<in> {0x80021000, 0x80027000, 0x80028000}"
    then show "t \<in> nodes one_page 0x80021000"
      using nodesI [of "[]" one_page] nodesI [of "[0]" one_page] nodesI [of "[0, 0]" one_page] by (auto simp: one_page_child)
  qed
  have u0: "upage 0 = 0" "pg_rounddown 0 = 0" by (simp_all add: upage_def pg_rounddown_def)
  have l0: "leaf one_page 0x80021000 (upage 0) = Some (leaf_pte 0x80029000 (PTE_R OR PTE_W OR PTE_U))"
    using one_page_leaf [of 0] u0 by (simp add: below_MAXVA)
  note lp = leaf_pte_facts [OF one_page_flags(1), of "0x80029000"]
  show fr: "frame one_page 0x80021000 0 = 0x80029000" using l0 lp by (simp add: frame_def rounddown_aligned)
  have uniq: "p = q" if "path_ok p" "path_ok q" "tab one_page 0x80021000 p = Some t" "tab one_page 0x80021000 q = Some t" for p q t
    using that one_page_tab [OF that(1)] one_page_tab [OF that(2)] by (auto split: if_splits)
  have pt: "pt_inv 0x80020000 one_page 0x80021000"
    unfolding pt_inv_def nodes free using one_page_free uniq
    by (auto simp: alloc_inv_def managed_def layout_defs one_page_def)
  have "owned 0x80020000 one_page 0x80021000 0"
    unfolding owned_def fr free nodes using l0 lp one_page_flags(2) by (simp add: managed_def layout_defs one_page_def or.assoc)
  moreover have "leaf one_page 0x80021000 (upage k) = None" if "k < USER_PAGES" "k \<noteq> 0" for k
    using one_page_leaf [of "upage k"] upage_facts [OF USER_PAGES_less [OF that(1)]] upage_inj [of k 0] that USER_PAGES_less [OF that(1)] u0(1) by auto
  ultimately show "space_inv 0x80020000 one_page 0x80021000 {0}" using pt by (simp add: space_inv_def USER_PAGES_def)
qed

lemma one_page_second:
  "space_inv 0x80020000 one_page 0x80022000 {}" "nodes one_page 0x80022000 = {0x80022000}"
proof -
  have e: "tables one_page 0x80022000 = replicate 512 pte_invalid" by (simp add: one_page_def)
  have m: "managed 0x80020000 0x80022000" by (simp add: managed_def layout_defs)
  have f: "0x80022000 \<notin> free_pages (kalloc one_page)" using free_pages_eq [OF one_page_free] by simp
  have a: "alloc_inv 0x80020000 (kalloc one_page)" using one_page_free by (auto simp: alloc_inv_def)
  note pt = pt_inv_empty [OF e _ a m f]
  show "space_inv 0x80020000 one_page 0x80022000 {}" using pt leaf_empty [OF e] by (simp add: space_inv_def)
  show "nodes one_page 0x80022000 = {0x80022000}" using pt by simp
qed

lemma one_page_npages: "{..<npages 0x1000} = {0}" "npages 0 = 0" "npages 0x1001 = 2"
  by (auto simp: npages_def)

theorem grow_correct_witness:
  "\<exists>r s'. grow 0x80020000 0x80021000 0x1000 0x1001 PTE_W one_page = Some (r, s') \<and>
    (case r of Ok x \<Rightarrow> x = 0x1001 \<and> space_step 0x80020000 0x80021000 {0} one_page {..<2} s'
     | Err _ \<Rightarrow> space_step 0x80020000 0x80021000 {0} one_page {0} s')"
proof -
  have inv: "space_inv 0x80020000 one_page 0x80021000 {..<npages 0x1000}" unfolding one_page_npages by (rule one_page_inv)
  have p: "PTE_W AND 0x3ff = PTE_W" by (simp add: PTE_W_def)
  obtain r s' where "grow 0x80020000 0x80021000 0x1000 0x1001 PTE_W one_page = Some (r, s')"
    "case r of Ok x \<Rightarrow> x = 0x1001 \<and> space_step 0x80020000 0x80021000 {..<npages 0x1000} one_page {..<npages 0x1001} s' \<and>
        fresh 0x80021000 PTE_W (npages 0x1000) (npages 0x1001) s'
     | Err _ \<Rightarrow> space_step 0x80020000 0x80021000 {..<npages 0x1000} one_page {..<npages 0x1000} s'"
    using grow_correct [OF inv _ _ p, of "0x1001"] by (auto simp: USER_PAGES_def)
  then show ?thesis unfolding one_page_npages by (auto split: result.splits)
qed

text \<open>
  C29. \<open>shrink\<close> of a process that has exactly the pages its size needs: it then has exactly the pages the smaller
  size needs, with their contents, and every other page has been given back. It never fails.
\<close>

theorem shrink_correct:
  assumes "space_inv kend s root {..<npages old}" "unat old \<le> USER_PAGES * 4096" "new \<le> old"
  shows "\<exists>s'. shrink kend root old new s = Some (Ok new, s') \<and> space_step kend root {..<npages old} s {..<npages new} s'"
  using shrink_spec [OF assms(1,2), of new] assms(3) by (cases "new = old") auto

theorem shrink_correct_witness:
  "\<exists>s'. shrink 0x80020000 0x80021000 0x1000 0 one_page = Some (Ok 0, s') \<and> space_step 0x80020000 0x80021000 {0} one_page {} s'"
  using shrink_correct [of "0x80020000" one_page "0x80021000" "0x1000" 0] one_page_inv(1)
  unfolding one_page_npages by (simp add: USER_PAGES_def)

subsection \<open>Copying\<close>

text \<open>What a step of one page table does to another one with which it shares no pages: nothing.\<close>

lemma tab_outside:
  assumes "\<forall>t\<in>nodes s root. tables s' t = tables s t" "path_ok p"
  shows "tab s' root p = tab s root p"
  using assms(2)
proof (induction p rule: rev_induct)
  case (snoc i p)
  have "child s' t i = child s t i" if "tab s root p = Some t" for t
    using nodesI [OF _ that] assms(1) snoc.prems by (simp add: child_def)
  then show ?case using snoc by (simp add: tab_snoc split: option.split)
qed simp

lemma tree_outside:
  assumes "\<forall>t\<in>nodes s root. tables s' t = tables s t"
  shows "nodes s' root = nodes s root" "leaf s' root va = leaf s root va"
proof -
  show "nodes s' root = nodes s root" using tab_outside [OF assms] by (auto simp: nodes_def)
  let ?p = "[pte_index 2 va, pte_index 1 va]"
  have t: "tab s' root ?p = tab s root ?p" by (rule tab_outside [OF assms]) simp
  have "tables s' t = tables s t" if "tab s root ?p = Some t" for t using assms nodesI [OF _ that] by simp
  then show "leaf s' root va = leaf s root va" unfolding leaf_def t by (simp split: option.split)
qed

definition pages_of :: "machine \<Rightarrow> usize \<Rightarrow> nat set \<Rightarrow> usize set" where
  "pages_of s root K = nodes s root \<union> frame s root ` K"

definition kept :: "usize \<Rightarrow> usize \<Rightarrow> nat set \<Rightarrow> machine \<Rightarrow> machine \<Rightarrow> bool" where
  "kept kend root K s s' \<longleftrightarrow> space_inv kend s' root K \<and> pages_of s' root K = pages_of s root K \<and>
     (\<forall>va. leaf s' root va = leaf s root va) \<and> (\<forall>k\<in>K. pages s' (frame s root k) = pages s (frame s root k))"

lemma kept_refl: "space_inv kend s root K \<Longrightarrow> kept kend root K s s"
  by (simp add: kept_def)

lemma kept_frame: "kept kend root K s s' \<Longrightarrow> frame s' root k = frame s root k"
  by (intro frame_cong) (simp add: kept_def)

lemma kept_trans: "kept kend root K s s' \<Longrightarrow> kept kend root K s' s'' \<Longrightarrow> kept kend root K s s''"
  using kept_frame [of kend root K s s'] by (simp add: kept_def)

lemma step_kept:
  assumes inv: "space_inv kend s root K" and st: "space_step kend dst D s D' s'"
    and sep: "pages_of s root K \<inter> pages_of s dst D = {}"
  shows "kept kend root K s s'" "pages_of s' root K \<inter> pages_of s' dst D' = {}"
proof -
  have free: "pages_of s root K \<inter> free_pages (kalloc s) = {}"
    using pt_invD(3) [OF space_invD(1) [OF inv]] space_invD(3) [OF inv] by (auto simp: pages_of_def owned_def)
  then have out: "pages_of s root K \<inter> held s dst D = {}" using sep by (auto simp: pages_of_def held_def)
  have held: "held s' dst D' = held s dst D" "\<forall>x. x \<notin> held s dst D \<longrightarrow> tables s' x = tables s x \<and> pages s' x = pages s x"
    using st by (auto simp: space_step_def)
  have same: "\<forall>x\<in>pages_of s root K. tables s' x = tables s x \<and> pages s' x = pages s x" using held(2) out by blast
  note pt = space_invD(1) [OF inv]
  have tables: "\<forall>t\<in>nodes s root. tables s' t = tables s t" using same by (auto simp: pages_of_def)
  note tree = tree_outside [OF tables]
  have frames: "frame s' root k = frame s root k" for k using tree(2) by (intro frame_cong)
  have po: "pages_of s' root K = pages_of s root K" unfolding pages_of_def tree(1) frames ..
  have nf: "pages_of s root K \<inter> free_pages (kalloc s') = {}" using out held(1) by (auto simp: held_def)
  have al: "alloc_inv kend (kalloc s')" using st pt_invD(1) by (auto simp: space_step_def space_inv_def)
  have nodes: "length (tables s' t) = 512 \<and> managed kend t \<and> t \<notin> free_pages (kalloc s')" if "t \<in> nodes s root" for t
    using pt_invD(3) [OF pt that] nf tables that by (auto simp: pages_of_def)
  have "p = q" if "path_ok p" "path_ok q" "tab s' root p = Some t" "tab s' root q = Some t" for p q t
    using pt_invD(2) [OF pt that(1,2)] that(3,4) tab_outside [OF tables that(1)] tab_outside [OF tables that(2)] by simp
  then have "pt_inv kend s' root" using pt_invD(4) [OF pt] al nodes unfolding pt_inv_def tree(1) by blast
  moreover have "owned kend s' root k" if "k \<in> K" for k
    using space_invD(3) [OF inv that] that tree frames nf same by (auto simp: owned_def pages_of_def)
  ultimately have "space_inv kend s' root K"
    using inv tree(2) frames unfolding space_inv_def inj_on_def by simp
  then show "kept kend root K s s'" using po tree(2) same by (auto simp: kept_def pages_of_def)
  show "pages_of s' root K \<inter> pages_of s' dst D' = {}"
  proof -
    have "pages_of s' dst D' \<subseteq> held s dst D" unfolding held(1) [symmetric] by (auto simp: pages_of_def held_def)
    then show ?thesis unfolding po using out by blast
  qed
qed

definition copied :: "usize \<Rightarrow> usize \<Rightarrow> nat \<Rightarrow> machine \<Rightarrow> machine \<Rightarrow> bool" where
  "copied root dst n s s' \<longleftrightarrow> (\<forall>k<n. \<exists>pte p. leaf s root (upage k) = Some pte \<and> aligned p \<and>
     leaf s' dst (upage k) = Some (leaf_pte p (get_flags pte)) \<and> pages s' p = pages s (frame s root k))"

lemma flags_of_valid:
  assumes "is_valid pte" "get_flags pte \<noteq> PTE_V"
  shows "get_flags pte AND 0x3ff = get_flags pte" "get_flags pte OR PTE_V \<noteq> PTE_V"
proof -
  show "get_flags pte AND 0x3ff = get_flags pte" unfolding get_flags_def and_3ff by simp
  have "get_flags pte OR PTE_V = get_flags pte"
    using assms(1) unfolding get_flags_def and_3ff
    by (intro bit_word_eqI) (auto simp: bit_or_iff PTE_V_def bit_1_iff bit_take_bit_iff is_valid_iff)
  then show "get_flags pte OR PTE_V \<noteq> PTE_V" using assms(2) by simp
qed

lemma copied_Suc:
  assumes c: "copied root dst n s0 s" and st: "space_step kend dst {..<n} s (insert n {..<n}) s'"
    and pte: "leaf s0 root (upage n) = Some pte" "leaf s' dst (upage n) = Some (leaf_pte p (get_flags pte))"
      "pages s' p = pages s0 (frame s0 root n)" "aligned p"
  shows "copied root dst (Suc n) s0 s'"
  unfolding copied_def
proof (intro allI impI)
  fix k assume k: "k < Suc n"
  show "\<exists>pte p. leaf s0 root (upage k) = Some pte \<and> aligned p \<and>
     leaf s' dst (upage k) = Some (leaf_pte p (get_flags pte)) \<and> pages s' p = pages s0 (frame s0 root k)"
  proof (cases "k = n")
    case True
    then show ?thesis using pte by (intro exI [of _ pte] exI [of _ p]) simp
  next
    case False
    then have k: "k < n" using k by simp
    obtain pte q where q: "leaf s0 root (upage k) = Some pte" "aligned q"
      "leaf s dst (upage k) = Some (leaf_pte q (get_flags pte))" "pages s q = pages s0 (frame s0 root k)"
      using c [unfolded copied_def, rule_format, OF k] by (elim exE conjE) (rule that)
    have "get_flags pte AND 0x3ff = get_flags pte" unfolding get_flags_def and_3ff by simp
    then have "frame s dst k = q" using q(2,3) leaf_pte_facts(2) [of "get_flags pte" q] rounddown_aligned by (simp add: frame_def)
    moreover have "k \<in> {..<n} \<inter> insert n {..<n}" using k by simp
    then have "leaf s' dst (upage k) = leaf s dst (upage k)" "pages s' (frame s dst k) = pages s (frame s dst k)"
      using st unfolding space_step_def by blast+
    ultimately show ?thesis using q by (intro exI [of _ pte] exI [of _ q]) simp
  qed
qed

lemma copy_undo:
  assumes st: "space_step kend dst {} s0 {..<n} s" and n: "n \<le> USER_PAGES"
  shows "\<exists>s'. unmap kend dst 0 (unat (upage n div PGSIZE)) True s = Some s' \<and> space_step kend dst {..<n} s {} s' \<and>
    space_step kend dst {} s0 {} s'"
proof -
  have inv: "space_inv kend s dst {..<n}" using st by (simp add: space_step_def)
  have "unat (upage n div PGSIZE) = n" using unat_upage [of n] n by (simp add: unat_div_distrib USER_PAGES_def)
  moreover have "upage 0 = 0" by (simp add: upage_def)
  moreover have "{0..<0 + n} \<subseteq> {..<n}" "{..<n} - {0..<0 + n} = {}" by auto
  ultimately obtain s' where s': "unmap kend dst 0 (unat (upage n div PGSIZE)) True s = Some s'" "space_step kend dst {..<n} s {} s'"
    using unmap_spec [OF inv, of 0 n] by auto
  have "space_step kend dst {} s0 {} s'" by (rule space_step_trans [OF st s'(2)]) simp
  then show ?thesis using s' by blast
qed

lemma search_entry_leaf:
  assumes "va < MAXVA" "leaf s root va = Some pte"
  shows "\<exists>e. search_entry root va False s = Some (Ok e, s) \<and> read_pte s e = pte \<and> is_valid pte"
  using search_entry_lookup [OF assms(1), of root s] assms(2)
  by (auto simp: leaf_def read_pte_def Let_def simp del: tab.simps split: option.splits if_splits)

lemma copy_loop_spec:
  assumes "space_step kend dst {} s0 {..<n} s" "kept kend root {..<N} s0 s" "copied root dst n s0 s"
    "pages_of s root {..<N} \<inter> pages_of s dst {..<n} = {}" "n + j = N"
  shows "\<exists>r s'. copy_loop kend root dst (map upage [n..<n + j]) s = Some (r, s') \<and> kept kend root {..<N} s0 s' \<and>
    (case r of
       Ok _ \<Rightarrow> space_step kend dst {} s0 {..<N} s' \<and> copied root dst N s0 s' \<and> pages_of s' root {..<N} \<inter> pages_of s' dst {..<N} = {}
     | Err _ \<Rightarrow> space_step kend dst {} s0 {} s')"
  using assms
proof (induction j arbitrary: n s)
  case 0
  then show ?case by simp
next
  case (Suc j)
  have list: "map upage [n..<n + Suc j] = upage n # map upage [Suc n..<Suc n + j]"
    by (subst upt_conv_Cons) simp_all
  have invr: "space_inv kend s root {..<N}" and invd: "space_inv kend s dst {..<n}"
    using Suc.prems(1,2) by (simp_all add: kept_def space_step_def)
  have n: "n < N" "n < USER_PAGES" using Suc.prems(5) space_invD(2) [OF invr] by auto
  note up = upage_facts [OF USER_PAGES_less [OF n(2)]]
  have leaf0: "leaf s root (upage n) = leaf s0 root (upage n)" using Suc.prems(2) by (simp add: kept_def)
  obtain pte where pte: "leaf s root (upage n) = Some pte" "get_flags pte \<noteq> PTE_V" "length (pages s (frame s root n)) = 4096"
    using space_invD(3) [OF invr, of n] n(1) by (auto simp: owned_def)
  obtain e where e: "search_entry root (upage n) False s = Some (Ok e, s)" "read_pte s e = pte" "is_valid pte"
    using search_entry_leaf [OF up(1) pte(1)] by blast
  note fl = flags_of_valid [OF e(3) pte(2)]
  have pa: "get_physical_addr pte = frame s root n" using pte(1) by (simp add: frame_def)
  have src: "pages s (frame s root n) = pages s0 (frame s0 root n)"
    using Suc.prems(2) n(1) kept_frame [OF Suc.prems(2), of n] by (simp add: kept_def)
  note al_inv = pt_invD(1) [OF space_invD(1) [OF invd]]
  have keep: "kept kend root {..<N} s0 s'" if "space_step kend dst {..<n} s D s'" for D s'
    using step_kept(1) [OF invr that Suc.prems(4)] kept_trans [OF Suc.prems(2)] by blast
  show ?case
  proof (cases "allocate_page (kalloc s)")
    case (Pair r a)
    show ?thesis
    proof (cases r)
      case None
      then have a: "a = kalloc s" using ka.alloc_None [OF al_inv] Pair by simp
      obtain s' where u: "unmap kend dst 0 (unat (upage n div PGSIZE)) True s = Some s'"
        "space_step kend dst {..<n} s {} s'" "space_step kend dst {} s0 {} s'"
        using copy_undo [OF Suc.prems(1)] n by auto
      then have run: "copy_loop kend root dst (upage n # is) s = Some (Err (), s')" for "is"
        using e Pair None a by (simp add: allocate_page_sized)
      show ?thesis unfolding list run using u keep by simp
    next
      case (Some p)
      let ?s1 = "s\<lparr>kalloc := a, pages := (pages s)(p := pages s (frame s root n))\<rparr>"
      obtain r2 s2 where m: "pt_map dst (upage n) p PGSIZE (get_flags pte) ?s1 = Some (r2, s2)"
        "if r2 = Ok () then space_step kend dst {..<n} s (insert n {..<n}) s2 \<and> leaf s2 dst (upage n) = Some (leaf_pte p (get_flags pte)) \<and>
           pages s2 p = pages s (frame s root n)
         else \<exists>a'. deallocate kend p (kalloc s2) = Some a' \<and> space_step kend dst {..<n} s {..<n} (s2\<lparr>kalloc := a'\<rparr>)"
        using add_page [OF invd _ n(2) Pair [unfolded Some] pte(3) fl] by auto
      have al: "allocate 4096 4096 (kalloc s) = (Ok p, a)" using Pair Some by (simp add: allocate_page_sized)
      show ?thesis
      proof (cases "r2 = Ok ()")
        case True
        have st: "space_step kend dst {..<n} s (insert n {..<n}) s2" using m(2) True by simp
        then have st': "space_step kend dst {..<n} s {..<Suc n} s2" by (simp add: lessThan_Suc)
        have st0: "space_step kend dst {} s0 {..<Suc n} s2" by (rule space_step_trans [OF Suc.prems(1) st']) simp
        have "managed kend p" using ka.alloc_Some [OF al_inv Pair [unfolded Some]] ka.free_ok [OF al_inv] by blast
        then have p: "aligned p" by (simp add: managed_def)
        have cp: "copied root dst (Suc n) s0 s2"
          by (rule copied_Suc [OF Suc.prems(3) st _ _ _ p]) (use m(2) True pte(1) leaf0 src in simp_all)
        have N: "Suc n + j = N" using Suc.prems(5) by simp
        have run: "copy_loop kend root dst (upage n # is) s = copy_loop kend root dst is s2" for "is"
          using e al m(1) True pa by simp
        show ?thesis
          unfolding list run by (rule Suc.IH [OF st0 keep [OF st'] cp step_kept(2) [OF invr st' Suc.prems(4)] N])
      next
        case False
        then obtain a' where a': "deallocate kend p (kalloc s2) = Some a'" "space_step kend dst {..<n} s {..<n} (s2\<lparr>kalloc := a'\<rparr>)"
          using m(2) by auto
        have st0: "space_step kend dst {} s0 {..<n} (s2\<lparr>kalloc := a'\<rparr>)" by (rule space_step_trans [OF Suc.prems(1) a'(2)]) simp
        obtain s' where u: "unmap kend dst 0 (unat (upage n div PGSIZE)) True (s2\<lparr>kalloc := a'\<rparr>) = Some s'"
          "space_step kend dst {..<n} (s2\<lparr>kalloc := a'\<rparr>) {} s'" "space_step kend dst {} s0 {} s'"
          using copy_undo [OF st0] n by auto
        have "space_step kend dst {..<n} s {} s'" by (rule space_step_trans [OF a'(2) u(2)]) simp
        moreover have "r2 = Err ()" using False unit_result_cases [of r2] by blast
        then have run: "copy_loop kend root dst (upage n # is) s = Some (Err (), s')" for "is"
          using e al m(1) a'(1) u(1) pa by simp
        ultimately show ?thesis unfolding list run using u(3) keep by simp
      qed
    qed
  qed
qed

text \<open>
  C15. \<open>copy\<close>, by which \<open>fork\<close> gives the child its memory: on success the child's page table maps exactly the pages
  of the parent's size, each to a page of its own with the contents and the flags of the parent's page.
  When the pages run out, all that the child had been given goes back to the free pages. In both cases the
  parent's page table and memory are untouched, and parent and child have no page in common.
\<close>

theorem pt_copy_correct:
  assumes src: "space_inv kend s root {..<npages sz}" and dst: "space_inv kend s dst {}"
    and sep: "pages_of s root {..<npages sz} \<inter> nodes s dst = {}" and sz: "unat sz \<le> USER_PAGES * 4096"
  shows "\<exists>r s'. pt_copy kend root dst sz s = Some (r, s') \<and> kept kend root {..<npages sz} s s' \<and>
    (case r of
       Ok _ \<Rightarrow> space_step kend dst {} s {..<npages sz} s' \<and> copied root dst (npages sz) s s' \<and>
         pages_of s' root {..<npages sz} \<inter> pages_of s' dst {..<npages sz} = {}
     | Err _ \<Rightarrow> space_step kend dst {} s {} s')"
proof -
  have "upage 0 = 0" by (simp add: upage_def)
  then have range: "step_range 0 sz = map upage [0..<0 + npages sz]"
    using step_range_upages [of 0 sz] npages_le [OF sz] by simp
  have st: "space_step kend dst {} s {..<0} s" using space_step_refl [OF dst] by simp
  have c: "copied root dst 0 s s" by (simp add: copied_def)
  have p: "pages_of s root {..<npages sz} \<inter> pages_of s dst {..<0} = {}" using sep by (simp add: pages_of_def [of s dst])
  show ?thesis unfolding pt_copy_def range by (rule copy_loop_spec [OF st kept_refl [OF src] c p]) simp
qed

theorem pt_copy_correct_witness:
  "\<exists>r s'. pt_copy 0x80020000 0x80021000 0x80022000 0x1000 one_page = Some (r, s') \<and> kept 0x80020000 0x80021000 {0} one_page s' \<and>
    (case r of Ok _ \<Rightarrow> space_step 0x80020000 0x80022000 {} one_page {0} s'
     | Err _ \<Rightarrow> space_step 0x80020000 0x80022000 {} one_page {} s')"
proof -
  have "pages_of one_page 0x80021000 {0} \<inter> nodes one_page 0x80022000 = {}"
    unfolding pages_of_def one_page_inv(2) one_page_second(2) using one_page_inv(3) by simp
  then obtain r s' where r: "pt_copy 0x80020000 0x80021000 0x80022000 0x1000 one_page = Some (r, s')" "kept 0x80020000 0x80021000 {0} one_page s'"
    "case r of Ok _ \<Rightarrow> space_step 0x80020000 0x80022000 {} one_page {0} s' \<and> copied 0x80021000 0x80022000 (npages 0x1000) one_page s' \<and>
         pages_of s' 0x80021000 {0} \<inter> pages_of s' 0x80022000 {0} = {}
     | Err _ \<Rightarrow> space_step 0x80020000 0x80022000 {} one_page {} s'"
    using pt_copy_correct [of "0x80020000" one_page "0x80021000" "0x1000" "0x80022000"] one_page_inv(1) one_page_second(1)
    unfolding one_page_npages by (auto simp: USER_PAGES_def)
  then show ?thesis by (intro exI [of _ r] exI [of _ s']) (auto split: result.splits)
qed

end
