(* ===== verification/User_Memory.thy ===== *)
theory User_Memory
  imports Space_Ops
begin

text \<open>
  The bytes that the kernel reads and writes in the memory of a process, through \<open>write\<close>, \<open>read\<close> and
  \<open>read_cstr\<close> of a page table. \<open>ubyte s root va\<close> is the byte at the virtual address \<open>va\<close>, when the address is
  mapped for the user.
\<close>

definition user_page :: "machine \<Rightarrow> usize \<Rightarrow> usize \<Rightarrow> usize option" where
  "user_page s root va = (if va < MAXVA then
     (case leaf s root va of None \<Rightarrow> None
      | Some pte \<Rightarrow> if can_user_access pte then Some (get_physical_addr pte) else None) else None)"

definition ubyte :: "machine \<Rightarrow> usize \<Rightarrow> usize \<Rightarrow> u8 option" where
  "ubyte s root va = (case user_page s root va of None \<Rightarrow> None | Some pa \<Rightarrow> Some (pages s pa ! (unat va mod 4096)))"

definition user_ok :: "machine \<Rightarrow> usize \<Rightarrow> bool" where
  "user_ok s root \<longleftrightarrow> (\<forall>va pa. user_page s root va = Some pa \<longrightarrow> length (pages s pa) = 4096) \<and>
     (\<forall>va va' pa. user_page s root va = Some pa \<and> user_page s root va' = Some pa \<longrightarrow> pg_rounddown va = pg_rounddown va')"

lemma virtual_to_physical_eq: "virtual_to_physical root va s = Some (user_page s root va)"
proof (cases "va < MAXVA")
  case True
  then show ?thesis
    using search_entry_lookup [OF True, of root s]
    by (auto simp: virtual_to_physical_def user_page_def leaf_def read_pte_def Let_def not_le simp del: tab.simps split: option.split)
next
  case False
  then have "MAXVA \<le> va" by simp
  then show ?thesis using False by (simp only: virtual_to_physical_def user_page_def if_True if_False)
qed

text \<open>The memory of a process is of this kind, when the pages above it are the kernel's.\<close>

lemma space_user_ok:
  assumes inv: "space_inv kend s root K"
    and high: "\<And>va pte. va < MAXVA \<Longrightarrow> USER_PAGES * 4096 \<le> unat va \<Longrightarrow> leaf s root va = Some pte \<Longrightarrow> \<not> can_user_access pte"
  shows "user_ok s root"
proof -
  have page: "\<exists>k\<in>K. pg_rounddown va = upage k \<and> pa = frame s root k" if up: "user_page s root va = Some pa" for va pa
  proof -
    obtain pte where va: "va < MAXVA" and pte: "leaf s root va = Some pte" "can_user_access pte" "get_physical_addr pte = pa"
      using up by (auto simp: user_page_def split: if_splits option.splits)
    let ?k = "unat va div 4096"
    have "unat va < USER_PAGES * 4096" using high [OF va _ pte(1)] pte(2) by (meson not_le)
    then have k: "?k < USER_PAGES" by (simp add: less_mult_imp_div_less)
    have k26: "?k < 2 ^ 26" using USER_PAGES_less [OF k] .
    have "unat (upage ?k) = unat va - unat va mod 4096" using k26 by (simp add: unat_upage minus_mod_eq_div_mult)
    then have r: "pg_rounddown va = upage ?k" by (simp add: word_unat_eq_iff unat_rounddown)
    then have "leaf s root (upage ?k) = Some pte" using leaf_page [OF va upage_facts(1) [OF k26]] pte(1) upage_facts(3) [OF k26] by simp
    then have "?k \<in> K" "pa = frame s root ?k" using pte(3) space_invD(4) [OF inv k] by (auto simp: frame_def)
    then show ?thesis using r by blast
  qed
  show ?thesis
    unfolding user_ok_def
  proof (intro conjI allI impI)
    show "length (pages s pa) = 4096" if "user_page s root va = Some pa" for va pa
      using page [OF that] space_invD(3) [OF inv] by (auto simp: owned_def)
    fix va va' pa
    assume up: "user_page s root va = Some pa \<and> user_page s root va' = Some pa"
    obtain k where k: "k \<in> K" "pg_rounddown va = upage k" "pa = frame s root k" using page [of va pa] up by blast
    obtain l where l: "l \<in> K" "pg_rounddown va' = upage l" "pa = frame s root l" using page [of va' pa] up by blast
    have "k = l" using inj_onD [OF space_invD(5) [OF inv]] k l by simp
    then show "pg_rounddown va = pg_rounddown va'" using k(2) l(2) by simp
  qed
qed

lemma user_page_rounddown: "user_page s root (pg_rounddown va) = user_page s root va"
proof (cases "va < MAXVA")
  case True
  then have d: "pg_rounddown va < MAXVA" by (simp add: below_MAXVA unat_rounddown)
  have "pg_rounddown (pg_rounddown va) = pg_rounddown va" by (simp add: rounddown_aligned)
  then show ?thesis using leaf_page [OF d True, of s root] True d by (simp add: user_page_def)
next
  case False
  then have "2 ^ 38 \<le> unat va" by (simp add: below_MAXVA)
  then have "2 ^ 38 \<le> unat va - unat va mod 4096"
    using div_le_mono [of "2 ^ 38" "unat va" 4096] by (simp add: minus_mod_eq_div_mult)
  then have "\<not> pg_rounddown va < MAXVA" by (simp add: below_MAXVA unat_rounddown)
  then show ?thesis using False by (simp add: user_page_def)
qed

lemma same_page_bytes:
  assumes "pg_rounddown va = pg_rounddown a"
  shows "unat va mod 4096 + unat a = unat a mod 4096 + unat va"
  using assms by (simp add: word_unat_eq_iff unat_rounddown)

text \<open>Writing one chunk in the page of \<open>dst\<close>.\<close>

lemma write_chunk:
  assumes ok: "user_ok s root" and pa: "user_page s root a = Some pa" and n: "unat a mod 4096 + length bs \<le> 4096"
  defines "s' \<equiv> s\<lparr>pages := (pages s)(pa := overwrite (unat a mod 4096) bs (pages s pa))\<rparr>"
  shows "user_ok s' root" "user_page s' root va = user_page s root va"
    "ubyte s' root va = (if unat a \<le> unat va \<and> unat va < unat a + length bs then Some (bs ! (unat va - unat a)) else ubyte s root va)"
proof -
  have up: "user_page s' root va = user_page s root va" for va
    using tree_cong(1) [of s' s] by (simp add: user_page_def s'_def)
  show "user_page s' root va = user_page s root va" by (rule up)
  have len: "length (pages s pa) = 4096" using ok pa by (auto simp: user_ok_def)
  then show "user_ok s' root" using ok n unfolding user_ok_def up by (auto simp: s'_def)
  show "ubyte s' root va = (if unat a \<le> unat va \<and> unat va < unat a + length bs then Some (bs ! (unat va - unat a)) else ubyte s root va)"
  proof (cases "pg_rounddown va = pg_rounddown a")
    case True
    then have "user_page s root va = Some pa" using pa user_page_rounddown by metis
    moreover have eq: "unat va mod 4096 + unat a = unat a mod 4096 + unat va" by (rule same_page_bytes [OF True])
    moreover have "unat va mod 4096 - unat a mod 4096 = unat va - unat a" using eq by linarith
    ultimately show ?thesis using up len n
      by (auto simp: ubyte_def s'_def nth_overwrite)
  next
    case False
    then have "user_page s root va \<noteq> Some pa" using ok pa unfolding user_ok_def by blast
    then have "ubyte s' root va = ubyte s root va" using up by (auto simp: ubyte_def s'_def split: option.split)
    moreover have "\<not> (unat a \<le> unat va \<and> unat va < unat a + length bs)"
    proof
      assume "unat a \<le> unat va \<and> unat va < unat a + length bs"
      moreover have "unat a = 4096 * (unat a div 4096) + unat a mod 4096" by simp
      ultimately have "4096 * (unat a div 4096) \<le> unat va" "unat va < 4096 * (unat a div 4096) + 4096" using n by linarith+
      then have "unat va div 4096 = unat a div 4096" by (intro div_nat_eqI) simp_all
      then show False using False by (simp add: word_unat_eq_iff unat_rounddown minus_mod_eq_div_mult)
    qed
    ultimately show ?thesis by auto
  qed
qed

lemma chunk_byte:
  assumes pa: "user_page s root a = Some pa" and i: "unat a mod 4096 + i < 4096"
  shows "ubyte s root (a + of_nat i) = Some (pages s pa ! (unat a mod 4096 + i))"
proof -
  have "unat (pg_rounddown a) + 4096 \<le> 2 ^ 64"
  proof -
    obtain q where q: "unat (pg_rounddown a) = q * 4096" using aligned_multiple [OF aligned_rounddown] by blast
    moreover have "unat (pg_rounddown a) < 2 ^ 52 * 4096" using unsigned_less [of "pg_rounddown a", where 'a = nat] by simp
    ultimately have "q < 2 ^ 52" by simp
    then have "(q + 1) * 4096 \<le> 2 ^ 52 * 4096" by (intro mult_le_mono1) simp
    then show ?thesis using q by simp
  qed
  moreover have r: "unat a = unat (pg_rounddown a) + unat a mod 4096" by (simp add: unat_rounddown)
  ultimately have "unat a + i < 2 ^ 64" using i by linarith
  then have u: "unat (a + of_nat i) = unat a + i" by (simp add: unat_word_ariths unat_of_nat_usize)
  obtain q where q: "unat (pg_rounddown a) = q * 4096" using aligned_multiple [OF aligned_rounddown] by blast
  have "unat (a + of_nat i) = (unat a mod 4096 + i) + q * 4096" unfolding u using r q by linarith
  then have m: "unat (a + of_nat i) mod 4096 = unat a mod 4096 + i" using i by (simp only: mod_mult_self1) simp
  have "unat (a + of_nat i) - unat (a + of_nat i) mod 4096 = unat (a + of_nat i) - (unat a mod 4096 + i)" by (simp only: m)
  also have "\<dots> = unat a - unat a mod 4096" unfolding u by simp
  finally have "pg_rounddown (a + of_nat i) = pg_rounddown a" by (simp only: word_unat_eq_iff unat_rounddown)
  then have "user_page s root (a + of_nat i) = Some pa" using pa user_page_rounddown by metis
  then show ?thesis using m by (simp add: ubyte_def)
qed

text \<open>The bounds of a chunk.\<close>

lemma next_page_addr:
  assumes "unat a + r < 2 ^ 64" "4096 - unat a mod 4096 < r"
  shows "unat (pg_rounddown a + PGSIZE) = unat a + (4096 - unat a mod 4096)"
proof -
  have "unat a mod 4096 < 4096" "unat a mod 4096 \<le> unat a" by simp_all
  then have "unat a - unat a mod 4096 + 4096 = unat a + (4096 - unat a mod 4096)" by linarith
  then show ?thesis using assms by (simp add: unat_word_ariths unat_rounddown)
qed

lemma next_page_word:
  assumes "unat a + r < 2 ^ 64" "4096 - unat a mod 4096 < r"
  shows "pg_rounddown a + PGSIZE = a + of_nat (4096 - unat a mod 4096)"
proof -
  have "unat (of_nat (4096 - unat a mod 4096) :: usize) = 4096 - unat a mod 4096" by (intro unat_of_nat_usize) simp
  then have "unat (a + of_nat (4096 - unat a mod 4096)) = unat a + (4096 - unat a mod 4096)"
    using assms by (simp add: unat_word_ariths)
  then show ?thesis using next_page_addr [OF assms] by (simp only: word_unat_eq_iff)
qed

text \<open>The size of the next chunk, and where the one after it starts.\<close>

lemma chunk_size:
  assumes "n < len" "unat a + (len - n) < 2 ^ 64"
  defines "m \<equiv> min (4096 - unat a mod 4096) (len - n)"
  shows "0 < m" "n + m \<le> len" "unat a mod 4096 + m \<le> 4096" "len - (n + m) < len - n"
    "n + m = len \<or> unat (pg_rounddown a + PGSIZE) = unat a + m \<and> pg_rounddown a + PGSIZE = a + of_nat m"
    "unat (pg_rounddown a + PGSIZE) + (len - (n + m)) < 2 ^ 64"
proof -
  let ?o = "unat a mod 4096"
  have o: "?o < 4096" by simp
  show m: "0 < m" "n + m \<le> len" "?o + m \<le> 4096" "len - (n + m) < len - n" using assms(1) o by (auto simp: m_def)
  show next': "n + m = len \<or> unat (pg_rounddown a + PGSIZE) = unat a + m \<and> pg_rounddown a + PGSIZE = a + of_nat m"
  proof (cases "n + m = len")
    case False
    then have "m \<noteq> len - n" using assms(1) by linarith
    then have me: "m = 4096 - ?o" unfolding m_def min_def by (metis (full_types))
    then have "4096 - ?o < len - n" using False m(2) by linarith
    from next_page_addr [OF assms(2) this] next_page_word [OF assms(2) this] show ?thesis
      unfolding me by blast
  qed simp
  show "unat (pg_rounddown a + PGSIZE) + (len - (n + m)) < 2 ^ 64"
    using next' assms(2) m(2) unsigned_less [of "pg_rounddown a + PGSIZE", where 'a = nat] by auto
qed

definition written :: "machine \<Rightarrow> usize \<Rightarrow> usize \<Rightarrow> u8 list \<Rightarrow> machine \<Rightarrow> bool" where
  "written s root a bs s' \<longleftrightarrow> user_ok s' root \<and> (\<forall>va. user_page s' root va = user_page s root va \<and>
     ubyte s' root va = (if unat a \<le> unat va \<and> unat va < unat a + length bs then Some (bs ! (unat va - unat a)) else ubyte s root va))"

lemma written_Nil: "user_ok s root \<Longrightarrow> written s root a [] s"
  by (auto simp: written_def)

lemma written_append:
  assumes 1: "written s root a bs s1" and 2: "written s1 root b cs s2" and b: "cs = [] \<or> unat b = unat a + length bs"
  shows "written s root a (bs @ cs) s2"
proof -
  have "ubyte s2 root va = (if unat a \<le> unat va \<and> unat va < unat a + length (bs @ cs) then Some ((bs @ cs) ! (unat va - unat a)) else ubyte s root va)" for va
  proof (cases "cs = []")
    case True
    then show ?thesis using 1 2 by (auto simp: written_def)
  next
    case False
    then have "unat b = unat a + length bs" using b by blast
    then show ?thesis using 1 2 unfolding written_def by (auto simp: nth_append diff_diff_eq)
  qed
  then show ?thesis using 1 2 unfolding written_def by simp
qed

text \<open>The loop of \<open>write\<close>, from \<open>n\<close> bytes on: it writes up to byte \<open>c\<close>, where the memory ends or the bytes do.\<close>

lemma write_bytes_spec:
  assumes "user_ok s root" "n \<le> length src" "unat a + (length src - n) < 2 ^ 64"
  shows "\<exists>c s'. n \<le> c \<and> c \<le> length src \<and> written s root a (subrange n (c - n) src) s' \<and>
    write_bytes root a src n s = Some (if c = length src then Ok () else Err c, s') \<and>
    (c < length src \<longrightarrow> user_page s root (a + of_nat (c - n)) = None)"
  using assms
proof (induction "length src - n" arbitrary: a n s rule: less_induct)
  case less
  show ?case
  proof (cases "n < length src")
    case False
    then show ?thesis using less by (intro exI [of _ n] exI [of _ s]) (simp add: write_bytes.simps written_Nil subrange_def)
  next
    case True
    note run = write_bytes.simps [of root a src n s, unfolded virtual_to_physical_eq user_page_rounddown Let_def if_P [OF True] page_offset Option.bind.bind_lunit]
    show ?thesis
    proof (cases "user_page s root a")
      case None
      then show ?thesis using less True run by (intro exI [of _ n] exI [of _ s]) (simp add: written_Nil subrange_def)
    next
      case (Some pa)
      let ?o = "unat a mod 4096" and ?a = "pg_rounddown a + PGSIZE"
      define m where "m = min (4096 - ?o) (length src - n)"
      note m = chunk_size [OF True less.prems(3), folded m_def]
      let ?bs = "subrange n m src"
      let ?s1 = "s\<lparr>pages := (pages s)(pa := overwrite ?o ?bs (pages s pa))\<rparr>"
      have len: "length ?bs = m" using m(2) by simp
      have "?o + length ?bs \<le> 4096" using m(3) by (simp only: len)
      note w = write_chunk [OF less.prems(1) Some this]
      have chunk: "written s root a ?bs ?s1" using w by (simp add: written_def)
      obtain c s' where c: "n + m \<le> c" "c \<le> length src" "written ?s1 root ?a (subrange (n + m) (c - (n + m)) src) s'"
        "write_bytes root ?a src (n + m) ?s1 = Some (if c = length src then Ok () else Err c, s')"
        "c < length src \<longrightarrow> user_page ?s1 root (?a + of_nat (c - (n + m))) = None"
        using less.hyps [OF m(4) w(1) m(2,6)] by (elim exE conjE) (rule that)
      have sub: "subrange n (c - n) src = ?bs @ subrange (n + m) (c - (n + m)) src"
      proof -
        have "c - n = m + (c - (n + m))" using c(1) by simp
        then show ?thesis by (simp add: subrange_def take_add drop_drop add.commute)
      qed
      have "written s root a (subrange n (c - n) src) s'"
        unfolding sub by (rule written_append [OF chunk c(3)]) (use m(5) c(1,2) len in \<open>auto simp: subrange_def\<close>)
      moreover have "user_page s root (a + of_nat (c - n)) = None" if "c < length src"
      proof -
        have "?a + of_nat (c - (n + m)) = a + of_nat (c - n)" using m(5) that c(1) by (auto simp: of_nat_diff)
        then show ?thesis using c(5) that w(2) by simp
      qed
      ultimately show ?thesis using c run Some by (intro exI [of _ c] exI [of _ s']) (simp add: m_def [symmetric])
    qed
  qed
qed

lemma chunk_readable:
  assumes "user_ok s root" "user_page s root a = Some pa" "unat a mod 4096 + m \<le> 4096"
  shows "readable (ubyte s root) a (subrange (unat a mod 4096) m (pages s pa))" "length (subrange (unat a mod 4096) m (pages s pa)) = m"
proof -
  have len: "length (pages s pa) = 4096" using assms(1,2) by (auto simp: user_ok_def)
  then show l: "length (subrange (unat a mod 4096) m (pages s pa)) = m" using assms(3) by simp
  show "readable (ubyte s root) a (subrange (unat a mod 4096) m (pages s pa))"
    unfolding readable_def l using chunk_byte [OF assms(2)] assms(3) len by (simp add: nth_subrange)
qed

lemma read_bytes_spec:
  assumes "user_ok s root" "n \<le> length dst" "unat a + (length dst - n) < 2 ^ 64"
  shows "\<exists>c bs. n \<le> c \<and> c \<le> length dst \<and> length bs = c - n \<and> readable (ubyte s root) a bs \<and>
    read_bytes root (length dst) dst a n s = Some (if c = length dst then Ok () else Err c, overwrite n bs dst) \<and>
    (c < length dst \<longrightarrow> user_page s root (a + of_nat (c - n)) = None)"
  using assms
proof (induction "length dst - n" arbitrary: a n dst rule: less_induct)
  case less
  show ?case
  proof (cases "n < length dst")
    case False
    then show ?thesis using less by (intro exI [of _ n] exI [of _ "[]"]) (simp add: read_bytes.simps readable_def overwrite_def)
  next
    case True
    note run = read_bytes.simps [of root "length dst" dst a n s, unfolded virtual_to_physical_eq user_page_rounddown Let_def if_P [OF True] page_offset Option.bind.bind_lunit]
    show ?thesis
    proof (cases "user_page s root a")
      case None
      then show ?thesis using less True run by (intro exI [of _ n] exI [of _ "[]"]) (simp add: readable_def overwrite_def)
    next
      case (Some pa)
      define m where "m = min (4096 - unat a mod 4096) (length dst - n)"
      note m = chunk_size [OF True less.prems(3), folded m_def]
      let ?bs = "subrange (unat a mod 4096) m (pages s pa)" and ?a = "pg_rounddown a + PGSIZE"
      note ch = chunk_readable [OF less.prems(1) Some m(3)]
      let ?dst = "overwrite n ?bs dst"
      have len: "length ?dst = length dst" using m(2) ch(2) by (intro length_overwrite) simp
      obtain c bs where c: "n + m \<le> c" "c \<le> length dst" "length bs = c - (n + m)" "readable (ubyte s root) ?a bs"
        "read_bytes root (length dst) ?dst ?a (n + m) s = Some (if c = length dst then Ok () else Err c, overwrite (n + m) bs ?dst)"
        "c < length dst \<longrightarrow> user_page s root (?a + of_nat (c - (n + m))) = None"
        using less.hyps [of ?dst "n + m", unfolded len, OF m(4) less.prems(1) m(2) m(6)] by (elim exE conjE) (rule that)
      have "overwrite (n + m) bs ?dst = overwrite n (?bs @ bs) dst" using overwrite_append [of n ?bs dst bs] m(2) ch(2) by simp
      moreover have "readable (ubyte s root) a (?bs @ bs)"
      proof (cases "bs = []")
        case False
        then show ?thesis using ch c(1,2,3,4) m(5) by (auto simp: readable_append)
      qed (use ch in simp)
      moreover have "user_page s root (a + of_nat (c - n)) = None" if "c < length dst"
      proof -
        have "?a + of_nat (c - (n + m)) = a + of_nat (c - n)" using m(5) that c(1) by (auto simp: of_nat_diff)
        then show ?thesis using c(6) that by simp
      qed
      ultimately show ?thesis using c run Some ch(2) by (intro exI [of _ c] exI [of _ "?bs @ bs"]) (simp add: m_def [symmetric])
    qed
  qed
qed

subsection \<open>Strings\<close>

lemma scan_cstr_spec:
  assumes "pos + length cs \<le> length dst"
  shows "scan_cstr cs pos dst =
    (let xs = takeWhile (\<lambda>c. c \<noteq> 0) cs in
     if xs = cs then (None, overwrite pos cs dst) else (Some (pos + length xs), overwrite pos (xs @ [0]) dst))"
  using assms
proof (induction cs arbitrary: pos dst)
  case Nil
  then show ?case by (simp add: overwrite_def)
next
  case (Cons c cs)
  have one: "dst[pos := c] = overwrite pos [c] dst" using Cons.prems by (simp add: overwrite_def upd_conv_take_nth_drop)
  have app: "overwrite (Suc pos) ys (overwrite pos [c] dst) = overwrite pos (c # ys) dst" for ys
    using overwrite_append [of pos "[c]" dst ys] Cons.prems by simp
  have len: "length (overwrite pos [c] dst) = length dst" using Cons.prems by (intro length_overwrite) simp
  have "pos + 1 + length cs \<le> length (overwrite pos [c] dst)" unfolding len using Cons.prems by simp
  note IH = Cons.IH [OF this]
  show ?case
  proof (cases "c = 0")
    case True
    then show ?thesis using one by (simp add: Let_def)
  next
    case False
    then show ?thesis using IH by (auto simp: one app Let_def)
  qed
qed

text \<open>What \<open>read_cstr\<close> found from \<open>a\<close> on, \<open>n\<close> bytes of the buffer being used already.\<close>

definition cstr_result :: "machine \<Rightarrow> usize \<Rightarrow> usize \<Rightarrow> nat \<Rightarrow> u8 list \<Rightarrow> u8 list \<Rightarrow> (nat, unit) result \<Rightarrow> u8 list \<Rightarrow> bool" where
  "cstr_result s root a n dst bs r dst' \<longleftrightarrow> readable (ubyte s root) a bs \<and> 0 \<notin> set bs \<and>
     (case r of
        Ok l \<Rightarrow> l = n + length bs \<and> l < length dst \<and> ubyte s root (a + of_nat (length bs)) = Some 0 \<and> dst' = overwrite n (bs @ [0]) dst
      | Err _ \<Rightarrow> n + length bs \<le> length dst \<and> dst' = overwrite n bs dst \<and>
          (n + length bs = length dst \<or> user_page s root (a + of_nat (length bs)) = None))"

lemma cstr_result_append:
  assumes "readable (ubyte s root) a bs" "0 \<notin> set bs" "n + length bs \<le> length dst"
    and "cstr_result s root b (n + length bs) (overwrite n bs dst) cs r dst'" and "n + length bs = length dst \<or> b = a + of_nat (length bs)"
  shows "cstr_result s root a n dst (bs @ cs) r dst'"
proof -
  have len: "length (overwrite n bs dst) = length dst" using assms(3) by simp
  have app: "overwrite (n + length bs) ys (overwrite n bs dst) = overwrite n (bs @ ys) dst" for ys
    by (rule overwrite_append [OF assms(3)])
  show ?thesis
  proof (cases "n + length bs = length dst")
    case True
    then have "cs = []" "\<exists>e. r = Err e" "dst' = overwrite n bs dst"
      using assms(4) len app [of "[]"] unfolding cstr_result_def by (auto split: result.splits)
    then show ?thesis using assms(1,2) True by (auto simp: cstr_result_def)
  next
    case False
    then show ?thesis
      using assms len app unfolding cstr_result_def by (auto simp: readable_append add.assoc split: result.splits)
  qed
qed

lemma cstr_loop_spec:
  assumes "user_ok s root" "n \<le> length dst" "unat a + (length dst - n) < 2 ^ 64"
  shows "\<exists>bs r dst'. cstr_loop root dst a n s = Some (r, dst') \<and> cstr_result s root a n dst bs r dst'"
  using assms
proof (induction "length dst - n" arbitrary: a n dst rule: less_induct)
  case less
  show ?case
  proof (cases "n < length dst")
    case False
    then show ?thesis using less
      by (intro exI [of _ "[]"]) (simp add: cstr_loop.simps readable_def overwrite_def cstr_result_def)
  next
    case True
    note run = cstr_loop.simps [of root dst a n s, unfolded virtual_to_physical_eq user_page_rounddown Let_def if_P [OF True] page_offset Option.bind.bind_lunit]
    show ?thesis
    proof (cases "user_page s root a")
      case None
      then show ?thesis using less True run
        by (intro exI [of _ "[]"]) (simp add: readable_def overwrite_def cstr_result_def)
    next
      case (Some pa)
      define m where "m = min (4096 - unat a mod 4096) (length dst - n)"
      note m = chunk_size [OF True less.prems(3), folded m_def]
      define cs where "cs = subrange (unat a mod 4096) m (pages s pa)"
      define xs where "xs = takeWhile (\<lambda>c. c \<noteq> 0) cs"
      note ch = chunk_readable [OF less.prems(1) Some m(3), folded cs_def]
      have fit: "n + length cs \<le> length dst" using m(2) ch(2) by simp
      note scan = scan_cstr_spec [OF fit, unfolded Let_def, folded xs_def]
      have nz: "0 \<notin> set xs" unfolding xs_def by (auto dest: set_takeWhileD)
      show ?thesis
      proof (cases "xs = cs")
        case True
        let ?a = "pg_rounddown a + PGSIZE" and ?dst = "overwrite n cs dst"
        have len: "length ?dst = length dst" using fit by simp
        obtain bs r dst' where r: "cstr_loop root ?dst ?a (n + m) s = Some (r, dst')" "cstr_result s root ?a (n + m) ?dst bs r dst'"
          using less.hyps [of ?dst "n + m", unfolded len, OF m(4) less.prems(1) m(2) m(6)] by blast
        have "cstr_loop root dst a n s = Some (r, dst')"
          unfolding run Some using r(1) scan True by (simp add: m_def [symmetric] cs_def [symmetric])
        moreover have "cstr_result s root a n dst (cs @ bs) r dst'"
          by (rule cstr_result_append [OF ch(1) _ fit]) (use r(2) ch(2) m(5) nz True in auto)
        ultimately show ?thesis by blast
      next
        case False
        have split: "cs = xs @ dropWhile (\<lambda>c. c \<noteq> 0) cs" unfolding xs_def by simp
        then obtain y ys where y: "dropWhile (\<lambda>c. c \<noteq> 0) cs = y # ys" using False by (cases "dropWhile (\<lambda>c. c \<noteq> 0) cs") auto
        then have "y = 0" by (simp add: dropWhile_eq_Cons_conv)
        then have ys: "cs = xs @ 0 # ys" using split y by simp
        then have "readable (ubyte s root) a xs" "ubyte s root (a + of_nat (length xs)) = Some 0"
          using ch(1) by (auto simp: readable_append readable_Cons)
        moreover have "n + length xs < length dst" using fit ys by simp
        ultimately have "cstr_result s root a n dst xs (Ok (n + length xs)) (overwrite n (xs @ [0]) dst)"
          using nz by (simp add: cstr_result_def)
        moreover have "cstr_loop root dst a n s = Some (Ok (n + length xs), overwrite n (xs @ [0]) dst)"
          unfolding run Some using scan False by (simp add: m_def [symmetric] cs_def [symmetric])
        ultimately show ?thesis by blast
      qed
    qed
  qed
qed

subsection \<open>Properties\<close>

text \<open>The machine of the examples.\<close>

lemma one_page_user: "user_ok one_page 0x80021000" "va < 4096 \<Longrightarrow> user_page one_page 0x80021000 va = Some 0x80029000"
  "4096 \<le> va \<Longrightarrow> user_page one_page 0x80021000 va = None"
proof -
  have page: "pg_rounddown va = 0 \<longleftrightarrow> va < 4096" for va
    by (simp add: word_unat_eq_iff word_less_nat_alt unat_rounddown minus_mod_eq_div_mult div_eq_0_iff)
  have "user_page one_page 0x80021000 va = (if va < 4096 then Some 0x80029000 else None)" for va
    using one_page_leaf [of va] page [of va] leaf_pte_facts(2) [OF one_page_flags(1), of "0x80029000"]
    by (auto simp: user_page_def can_user_access_iff leaf_pte_bits below_MAXVA unat_MAXVA word_less_nat_alt bit_or_iff PTE_U_def rounddown_aligned)
  then show u: "va < 4096 \<Longrightarrow> user_page one_page 0x80021000 va = Some 0x80029000" "4096 \<le> va \<Longrightarrow> user_page one_page 0x80021000 va = None" for va
    by (auto simp: leD)
  show "user_ok one_page 0x80021000"
  proof (rule space_user_ok [OF one_page_inv(1)])
    fix va pte assume "va < MAXVA" "USER_PAGES * 4096 \<le> unat va" "leaf one_page 0x80021000 va = Some pte"
    then show "\<not> can_user_access pte" using one_page_leaf [of va] page [of va] by (auto simp: USER_PAGES_def word_less_nat_alt split: if_splits)
  qed
qed

text \<open>
  \<open>write\<close> into the memory of a process, across page boundaries: afterwards the bytes from \<open>dst\<close> on are the
  bytes of the source, up to the first address that is not mapped for the user, whose distance is the error
  value, and every other byte of the process is as before.
\<close>

theorem pt_write_correct:
  assumes "user_ok s root" "unat dst + length src < 2 ^ 64"
  shows "\<exists>c s'. c \<le> length src \<and> pt_write root dst src s = Some (if c = length src then Ok () else Err c, s') \<and>
    written s root dst (take c src) s' \<and> (c < length src \<longrightarrow> user_page s root (dst + of_nat c) = None)"
  using write_bytes_spec [of s root 0 src dst] assms by (auto simp: pt_write_def subrange_def)

theorem pt_write_correct_witness:
  "\<exists>c s'. pt_write 0x80021000 0xFFE [1, 2, 3, 4] one_page = Some (if c = 4 then Ok () else Err c, s') \<and>
    written one_page 0x80021000 0xFFE (take c [1, 2, 3, 4]) s'"
proof -
  have l: "length [1, 2, 3, 4 :: u8] = 4" by simp
  have b: "unat (0xFFE :: usize) + length [1, 2, 3, 4 :: u8] < 2 ^ 64" by simp
  from pt_write_correct [OF one_page_user(1) b] show ?thesis unfolding l by blast
qed

text \<open>
  C30. What has been written to the memory of a process can be read back: after a successful \<open>write\<close>, \<open>read\<close> of
  as many bytes at the same address succeeds and gives those bytes.
\<close>

theorem pt_write_read:
  assumes ok: "user_ok s root" and b: "unat a + length src < 2 ^ 64" and w: "pt_write root a src s = Some (Ok (), s')"
    and l: "length buf = length src"
  shows "pt_read root buf a s' = Some (Ok (), src)"
proof -
  obtain c s1 where c: "c \<le> length src" "pt_write root a src s = Some (if c = length src then Ok () else Err c, s1)"
    "written s root a (take c src) s1"
    using write_bytes_spec [of s root 0 src a] ok b by (auto simp: pt_write_def subrange_def)
  then have wr: "written s root a src s'" using w by (auto split: if_splits)
  have byte: "ubyte s' root (a + of_nat i) = Some (src ! i)" if "i < length src" for i
  proof -
    have "unat (a + of_nat i) = unat a + i" using that b by (simp add: unat_word_ariths unat_of_nat_usize)
    then show ?thesis using wr that by (simp add: written_def)
  qed
  obtain d bs where d: "d \<le> length buf" "length bs = d" "readable (ubyte s' root) a bs"
    "read_bytes root (length buf) buf a 0 s' = Some (if d = length buf then Ok () else Err d, overwrite 0 bs buf)"
    "d < length buf \<longrightarrow> user_page s' root (a + of_nat d) = None"
    using read_bytes_spec [of s' root 0 buf a] wr b l by (auto simp: written_def)
  have "\<not> d < length src" using d(5) l byte [of d] by (auto simp: ubyte_def)
  then have "d = length src" using d(1) l by simp
  moreover have "bs = src" using d(2,3) calculation byte by (intro nth_equalityI) (auto simp: readable_def)
  ultimately show ?thesis using d(4) l by (simp add: pt_read_def overwrite_all)
qed

theorem pt_write_read_witness:
  "\<exists>s'. pt_write 0x80021000 0x10 [7, 8] one_page = Some (Ok (), s') \<and> pt_read 0x80021000 [0, 0] 0x10 s' = Some (Ok (), [7, 8])"
proof -
  have l: "length [7, 8 :: u8] = 2" by simp
  have b: "unat (0x10 :: usize) + (length [7, 8 :: u8] - 0) < 2 ^ 64" by simp
  obtain c s' where c: "c \<le> 2" "pt_write 0x80021000 0x10 [7, 8] one_page = Some (if c = 2 then Ok () else Err c, s')"
    "c < 2 \<longrightarrow> user_page one_page 0x80021000 (0x10 + of_nat c) = None"
    using write_bytes_spec [OF one_page_user(1) le0 b] unfolding l pt_write_def by auto
  have "c = 0 \<or> c = 1 \<or> c = 2" using c(1) by linarith
  then have "c = 2" using c(3) one_page_user(2) [of "0x10"] one_page_user(2) [of "0x11"] by auto
  then have w: "pt_write 0x80021000 0x10 [7, 8] one_page = Some (Ok (), s')" using c(2) by simp
  show ?thesis using w pt_write_read [OF one_page_user(1) _ w, of "[0, 0]"] by auto
qed

text \<open>
  C31. \<open>read_cstr\<close>: on success the result is the length of the string, the bytes of the buffer before it are the
  bytes of memory before the first null byte, and the null byte follows. It fails only when an address is
  not mapped for the user before a null byte was found, or when there is none within the size of the buffer.
  It returns in every case, and writes nothing behind what it read.
\<close>

theorem read_cstr_correct:
  assumes "user_ok s root" "unat a + length dst < 2 ^ 64"
  shows "\<exists>bs r dst'. read_cstr root dst a s = Some (r, dst') \<and> cstr_result s root a 0 dst bs r dst'"
  using cstr_loop_spec [of s root 0 dst a] assms by (simp add: read_cstr_def)

theorem read_cstr_correct_witness:
  "\<exists>bs r dst'. read_cstr 0x80021000 [9, 9] 0 one_page = Some (r, dst') \<and> cstr_result one_page 0x80021000 0 0 [9, 9] bs r dst'"
  using read_cstr_correct [OF one_page_user(1), of 0 "[9, 9]"] by simp

end
