(* ===== verification/Process_Table.thy ===== *)
theory Process_Table
  imports Interrupt
begin

text \<open>
  Processes and the process table: the state machine \<open>ProcessState\<close> and the record \<open>Process\<close> of
  src/kernel/src/process/process.rs, and \<open>ProcessTable\<close> of src/kernel/src/process/table.rs. A process context is
  of any type \<open>'c\<close> here. A pointer to a process is its index in the table. The functions on the table run
  through all slots as one hart runs them; the interleaving of harts is the subject of the theory Scheduling.
\<close>

subsection \<open>The states of a process\<close>

datatype 'c pstate = Invalid | Unused | Used | Sleeping 'c usize | Runnable 'c | Running 'c | Zombie 'c i32

fun is_unused :: "'c pstate \<Rightarrow> bool" where
  "is_unused Unused = True"
| "is_unused _ = False"

fun is_sleeping :: "'c pstate \<Rightarrow> bool" where
  "is_sleeping (Sleeping _ _) = True"
| "is_sleeping _ = False"

fun is_sleeping_on :: "usize \<Rightarrow> 'c pstate \<Rightarrow> bool" where
  "is_sleeping_on token (Sleeping _ on) = (on = token)"
| "is_sleeping_on token _ = False"

fun is_runnable :: "'c pstate \<Rightarrow> bool" where
  "is_runnable (Runnable _) = True"
| "is_runnable _ = False"

fun is_running :: "'c pstate \<Rightarrow> bool" where
  "is_running (Running _) = True"
| "is_running _ = False"

fun is_zombie :: "'c pstate \<Rightarrow> bool" where
  "is_zombie (Zombie _ _) = True"
| "is_zombie _ = False"

definition transition :: "('c pstate \<Rightarrow> 'c pstate \<times> ('a, 'e) result) \<Rightarrow> 'c pstate \<Rightarrow> 'c pstate \<times> ('a, 'e) result" where
  "transition f st = (let (st, tmp) = (Invalid :: 'c pstate, st); (this, res) = f tmp; (st, this) = (this, st) in (st, res))"

definition ps_allocate :: "'c pstate \<Rightarrow> 'c pstate \<times> (unit, unit) result" where
  "ps_allocate = transition (\<lambda>st. case st of Unused \<Rightarrow> (Used, Ok ()) | other \<Rightarrow> (other, Err ()))"

definition ps_setup :: "'c \<Rightarrow> 'c pstate \<Rightarrow> 'c pstate \<times> (unit, 'c) result" where
  "ps_setup c = transition (\<lambda>st. case st of Used \<Rightarrow> (Runnable c, Ok ()) | other \<Rightarrow> (other, Err c))"

definition ps_run :: "'c pstate \<Rightarrow> 'c pstate \<times> (unit, unit) result" where
  "ps_run = transition (\<lambda>st. case st of Runnable c \<Rightarrow> (Running c, Ok ()) | other \<Rightarrow> (other, Err ()))"

definition ps_sleep :: "usize \<Rightarrow> 'c pstate \<Rightarrow> 'c pstate \<times> (unit, unit) result" where
  "ps_sleep token = transition (\<lambda>st. case st of Running c \<Rightarrow> (Sleeping c token, Ok ()) | other \<Rightarrow> (other, Err ()))"

definition ps_wakeup :: "'c pstate \<Rightarrow> 'c pstate \<times> (unit, unit) result" where
  "ps_wakeup = transition (\<lambda>st. case st of Sleeping c _ \<Rightarrow> (Runnable c, Ok ()) | other \<Rightarrow> (other, Err ()))"

definition ps_pause :: "'c pstate \<Rightarrow> 'c pstate \<times> (unit, unit) result" where
  "ps_pause = transition (\<lambda>st. case st of Running c \<Rightarrow> (Runnable c, Ok ()) | other \<Rightarrow> (other, Err ()))"

definition ps_die :: "i32 \<Rightarrow> 'c pstate \<Rightarrow> 'c pstate \<times> (unit, unit) result" where
  "ps_die exit_status = transition (\<lambda>st. case st of Running c \<Rightarrow> (Zombie c exit_status, Ok ()) | other \<Rightarrow> (other, Err ()))"

definition ps_clear :: "'c pstate \<Rightarrow> 'c pstate \<times> ('c, unit) result" where
  "ps_clear = transition (\<lambda>st. case st of Running c \<Rightarrow> (Unused, Ok c) | other \<Rightarrow> (other, Err ()))"

fun ps_context :: "'c pstate \<Rightarrow> 'c option" where
  "ps_context (Runnable c) = Some c"
| "ps_context (Sleeping c _) = Some c"
| "ps_context _ = None"

lemmas ps_defs = transition_def ps_allocate_def ps_setup_def ps_run_def ps_sleep_def ps_wakeup_def ps_pause_def ps_die_def ps_clear_def

subsection \<open>Processes\<close>

record 'c process =
  state :: "'c pstate"
  killed :: bool
  pid :: usize
  parent :: "nat option"
  pname :: "u8 list"

definition process_unused :: "'c process" where
  "process_unused = \<lparr>state = Unused, killed = False, pid = 0, parent = None, pname = replicate 16 0\<rparr>"

definition process_is_running :: "'c process \<Rightarrow> bool" where
  "process_is_running p = is_running (state p)"

definition process_context :: "'c process \<Rightarrow> 'c option" where
  "process_context p = (case state p of
     Runnable c \<Rightarrow> Some c | Running c \<Rightarrow> Some c | Sleeping c _ \<Rightarrow> Some c | Zombie c _ \<Rightarrow> Some c | _ \<Rightarrow> None)"

text \<open>\<open>deallocate\<close>: the context that the old state held is dropped; it is the second component of the result.\<close>

definition process_deallocate :: "'c process \<Rightarrow> 'c process \<times> 'c option" where
  "process_deallocate p =
     (p\<lparr>pid := 0, parent := None, pname := (pname p)[0 := 0], killed := False, state := Unused\<rparr>, process_context p)"

subsection \<open>The table\<close>

record 'c ptable =
  procs :: "'c process list"
  next_pid :: usize

definition ptable_new :: "'c ptable" where
  "ptable_new = \<lparr>procs = replicate NPROC process_unused, next_pid = 1\<rparr>"

definition upd_proc :: "nat \<Rightarrow> ('c process \<Rightarrow> 'c process) \<Rightarrow> 'c ptable \<Rightarrow> 'c ptable" where
  "upd_proc i f t = t\<lparr>procs := (procs t)[i := f (procs t ! i)]\<rparr>"

definition allocate_pid :: "'c ptable \<Rightarrow> usize \<times> 'c ptable" where
  "allocate_pid t = (next_pid t, t\<lparr>next_pid := next_pid t + 1\<rparr>)"

text \<open>The bodies of the three loops over the table, for slot \<open>i\<close>.\<close>

definition allocate_slot :: "nat \<Rightarrow> 'c ptable \<Rightarrow> 'c ptable kernel" where
  "allocate_slot i t =
     (case ps_allocate (state (procs t ! i)) of (st, r) \<Rightarrow> do {
        _ \<leftarrow> unwrap r;
        let (new_pid, t) = allocate_pid t;
        Some (upd_proc i (\<lambda>p. p\<lparr>state := st, pid := new_pid\<rparr>) t) })"

definition wakeup_slot :: "usize \<Rightarrow> nat option \<Rightarrow> nat \<Rightarrow> 'c ptable \<Rightarrow> 'c ptable kernel" where
  "wakeup_slot token current i t =
     (if current = Some i then Some t
      else if is_sleeping_on token (state (procs t ! i)) then
        (case ps_wakeup (state (procs t ! i)) of (st, r) \<Rightarrow> do {
           _ \<leftarrow> unwrap r;
           Some (upd_proc i (\<lambda>p. p\<lparr>state := st\<rparr>) t) })
      else Some t)"

definition kill_slot :: "nat \<Rightarrow> 'c ptable \<Rightarrow> 'c ptable kernel" where
  "kill_slot i t = do {
     let t = upd_proc i (\<lambda>p. p\<lparr>killed := True\<rparr>) t;
     if is_sleeping (state (procs t ! i)) then
       (case ps_wakeup (state (procs t ! i)) of (st, r) \<Rightarrow> do {
          _ \<leftarrow> unwrap r;
          Some (upd_proc i (\<lambda>p. p\<lparr>state := st\<rparr>) t) })
     else Some t }"

definition allocate_process :: "'c ptable \<Rightarrow> (nat option \<times> 'c ptable) kernel" where
  "allocate_process t = (case find (\<lambda>i. is_unused (state (procs t ! i))) [0..<length (procs t)] of
     None \<Rightarrow> Some (None, t)
   | Some i \<Rightarrow> do { t \<leftarrow> allocate_slot i t; Some (Some i, t) })"

definition table_wakeup :: "usize \<Rightarrow> nat option \<Rightarrow> 'c ptable \<Rightarrow> 'c ptable kernel" where
  "table_wakeup token current t = for_each (wakeup_slot token current) [0..<length (procs t)] t"

definition table_kill :: "usize \<Rightarrow> 'c ptable \<Rightarrow> (bool \<times> 'c ptable) kernel" where
  "table_kill p t = (case find (\<lambda>i. pid (procs t ! i) = p) [0..<length (procs t)] of
     None \<Rightarrow> Some (False, t)
   | Some i \<Rightarrow> do { t \<leftarrow> kill_slot i t; Some (True, t) })"

subsection \<open>The invariant of the table\<close>

definition ptable_inv :: "'c ptable \<Rightarrow> bool" where
  "ptable_inv t \<longleftrightarrow> length (procs t) = NPROC \<and> 0 < next_pid t \<and>
     (\<forall>i<NPROC. state (procs t ! i) \<noteq> Invalid \<and> pid (procs t ! i) < next_pid t \<and>
        (is_unused (state (procs t ! i)) \<longleftrightarrow> pid (procs t ! i) = 0)) \<and>
     (\<forall>i<NPROC. \<forall>j<NPROC. pid (procs t ! i) = pid (procs t ! j) \<and> pid (procs t ! i) \<noteq> 0 \<longrightarrow> i = j)"

lemma ptable_invD:
  assumes "ptable_inv t"
  shows "length (procs t) = NPROC" "0 < next_pid t" "i < NPROC \<Longrightarrow> state (procs t ! i) \<noteq> Invalid"
    "i < NPROC \<Longrightarrow> pid (procs t ! i) < next_pid t" "i < NPROC \<Longrightarrow> is_unused (state (procs t ! i)) \<longleftrightarrow> pid (procs t ! i) = 0"
    "i < NPROC \<Longrightarrow> j < NPROC \<Longrightarrow> pid (procs t ! i) = pid (procs t ! j) \<Longrightarrow> pid (procs t ! i) \<noteq> 0 \<Longrightarrow> i = j"
  using assms unfolding ptable_inv_def by blast+

lemma upd_proc_sel [simp]:
  "length (procs (upd_proc i f t)) = length (procs t)" "next_pid (upd_proc i f t) = next_pid t"
  "i < length (procs t) \<Longrightarrow> procs (upd_proc i f t) ! j = (if j = i then f (procs t ! i) else procs t ! j)"
  by (auto simp: upd_proc_def nth_list_update)

lemma ptable_inv_new: "ptable_inv ptable_new"
  by (simp add: ptable_inv_def ptable_new_def process_unused_def)

text \<open>A slot is changed without touching its pid.\<close>

lemma ptable_inv_upd:
  assumes inv: "ptable_inv t" and i: "i < NPROC" and p: "pid (f (procs t ! i)) = pid (procs t ! i)"
    and st: "state (f (procs t ! i)) \<noteq> Invalid" "is_unused (state (f (procs t ! i))) = is_unused (state (procs t ! i))"
  shows "ptable_inv (upd_proc i f t)"
proof -
  have len: "length (procs t) = NPROC" using ptable_invD(1) [OF inv] .
  have pid: "pid (procs (upd_proc i f t) ! j) = pid (procs t ! j)" for j using i len p by simp
  show ?thesis
    unfolding ptable_inv_def pid using inv i len st p by (auto simp: ptable_inv_def)
qed

text \<open>Waking up: the slots that sleep on the token become runnable, the current one and all others are as before.\<close>

definition woken :: "usize \<Rightarrow> 'c pstate \<Rightarrow> 'c pstate" where
  "woken token st = (case st of Sleeping c on \<Rightarrow> if on = token then Runnable c else st | _ \<Rightarrow> st)"

lemma upd_proc_id [simp]: "upd_proc i (\<lambda>p. p) t = t"
  by (simp add: upd_proc_def)

lemma upd_proc_cong: "f (procs t ! i) = g (procs t ! i) \<Longrightarrow> upd_proc i f t = upd_proc i g t"
  by (simp add: upd_proc_def)

lemma upd_proc_same: "f (procs t ! i) = procs t ! i \<Longrightarrow> upd_proc i f t = t"
  using upd_proc_cong [of f t i "\<lambda>p. p"] by simp

lemma wakeup_slot_spec:
  "wakeup_slot token current i t = Some (if current = Some i then t else upd_proc i (\<lambda>p. p\<lparr>state := woken token (state p)\<rparr>) t)"
proof (cases "current = Some i \<or> \<not> is_sleeping_on token (state (procs t ! i))")
  case True
  then have "current \<noteq> Some i \<Longrightarrow> woken token (state (procs t ! i)) = state (procs t ! i)"
    by (cases "state (procs t ! i)") (auto simp: woken_def)
  with True show ?thesis by (auto simp: wakeup_slot_def upd_proc_same)
next
  case False
  then show ?thesis by (cases "state (procs t ! i)") (auto simp: wakeup_slot_def woken_def ps_defs intro: upd_proc_cong)
qed

lemma wakeup_loop:
  assumes "n \<le> length (procs t)"
  shows "\<exists>t'. for_each (wakeup_slot token current) [0..<n] t = Some t' \<and> next_pid t' = next_pid t \<and> length (procs t') = length (procs t) \<and>
    (\<forall>j<length (procs t). procs t' ! j =
      (if j < n \<and> current \<noteq> Some j then (procs t ! j)\<lparr>state := woken token (state (procs t ! j))\<rparr> else procs t ! j))"
  using assms
proof (induction n)
  case (Suc n)
  then obtain t' where t': "for_each (wakeup_slot token current) [0..<n] t = Some t'" "next_pid t' = next_pid t" "length (procs t') = length (procs t)"
    "\<forall>j<length (procs t). procs t' ! j =
      (if j < n \<and> current \<noteq> Some j then (procs t ! j)\<lparr>state := woken token (state (procs t ! j))\<rparr> else procs t ! j)" by auto
  have "for_each (wakeup_slot token current) [0..<Suc n] t =
    Some (if current = Some n then t' else upd_proc n (\<lambda>p. p\<lparr>state := woken token (state p)\<rparr>) t')"
    unfolding for_each_upt_Suc t'(1) by (simp add: wakeup_slot_spec)
  then show ?case using t' Suc.prems by (auto simp: less_Suc_eq)
qed simp

lemma table_wakeup_spec:
  "\<exists>t'. table_wakeup token current t = Some t' \<and> next_pid t' = next_pid t \<and> length (procs t') = length (procs t) \<and>
    (\<forall>j<length (procs t). procs t' ! j =
      (if current \<noteq> Some j then (procs t ! j)\<lparr>state := woken token (state (procs t ! j))\<rparr> else procs t ! j))"
  using wakeup_loop [of "length (procs t)" t token current] unfolding table_wakeup_def by auto

subsection \<open>Allocating and killing\<close>

lemma allocate_slot_spec:
  assumes "is_unused (state (procs t ! i))"
  shows "allocate_slot i t = Some ((upd_proc i (\<lambda>p. p\<lparr>state := Used, pid := next_pid t\<rparr>) t)\<lparr>next_pid := next_pid t + 1\<rparr>)"
  using assms by (cases "state (procs t ! i)") (simp_all add: allocate_slot_def allocate_pid_def ps_defs upd_proc_def)

lemma ptable_inv_allocate:
  assumes inv: "ptable_inv t" and i: "i < NPROC" and un: "is_unused (state (procs t ! i))" and room: "next_pid t \<noteq> - 1"
  shows "ptable_inv ((upd_proc i (\<lambda>p. p\<lparr>state := Used, pid := next_pid t\<rparr>) t)\<lparr>next_pid := next_pid t + 1\<rparr>)"
proof -
  have "1 + next_pid t \<noteq> 0" using room by (metis add.commute eq_neg_iff_add_eq_0)
  from unatSuc [OF this] have succ: "next_pid t < next_pid t + 1" "0 < next_pid t + 1"
    by (simp_all add: word_less_nat_alt add.commute)
  have less: "pid (procs t ! j) < next_pid t + 1 \<and> pid (procs t ! j) \<noteq> next_pid t" if "j < NPROC" for j
    using ptable_invD(4) [OF inv that] succ(1) by (metis less_trans order_less_irrefl)
  show ?thesis
    using inv i succ less ptable_invD(2) [OF inv] unfolding ptable_inv_def by (auto simp: nth_list_update word_gt_0 upd_proc_def)
qed

text \<open>
  \<open>ProcessTable::allocate_process\<close> takes the first unused slot of the table, marks it used and gives it
  a process number that no process of the table has; all other slots stay as they are and the table stays
  well formed (process numbers are distinct, exactly the unused slots have number 0). It reports that there is
  none only if every slot is in use. It never panics. The \<open>killed\<close> flag of the slot is kept.
\<close>

theorem allocate_process_correct:
  assumes "ptable_inv t" "next_pid t \<noteq> - 1"
  shows "\<exists>r t'. allocate_process t = Some (r, t') \<and> ptable_inv t' \<and>
    (case r of
       None \<Rightarrow> t' = t \<and> (\<forall>i<NPROC. \<not> is_unused (state (procs t ! i)))
     | Some i \<Rightarrow> i < NPROC \<and> is_unused (state (procs t ! i)) \<and> (\<forall>j<i. \<not> is_unused (state (procs t ! j))) \<and>
         (\<forall>j<NPROC. pid (procs t ! j) \<noteq> next_pid t) \<and>
         procs t' = (procs t)[i := (procs t ! i)\<lparr>state := Used, pid := next_pid t\<rparr>])"
proof (cases "find (\<lambda>i. is_unused (state (procs t ! i))) [0..<length (procs t)]")
  case None
  then have "allocate_process t = Some (None, t)" by (simp only: allocate_process_def option.case)
  moreover have "\<forall>i<NPROC. \<not> is_unused (state (procs t ! i))"
    using None unfolding find_upt_None ptable_invD(1) [OF assms(1)] .
  ultimately show ?thesis using assms(1) by simp
next
  case (Some i)
  note i = find_upt_SomeD [OF Some, unfolded ptable_invD(1) [OF assms(1)]]
  have "\<forall>j<NPROC. pid (procs t ! j) \<noteq> next_pid t" using ptable_invD(4) [OF assms(1)] by fastforce
  with Some i ptable_inv_allocate [OF assms(1) i(1,2) assms(2)] show ?thesis
    by (simp add: allocate_process_def allocate_slot_spec upd_proc_def)
qed

theorem allocate_process_correct_witness:
  "\<exists>r t'. allocate_process (ptable_new :: unit ptable) = Some (r, t') \<and> ptable_inv t'"
  using allocate_process_correct [OF ptable_inv_new] by (auto simp: ptable_new_def)

text \<open>Killing: the flag of the process is set, and a sleeping process becomes runnable.\<close>

definition killed_process :: "'c process \<Rightarrow> 'c process" where
  "killed_process p = (let p = p\<lparr>killed := True\<rparr> in case state p of Sleeping c _ \<Rightarrow> p\<lparr>state := Runnable c\<rparr> | _ \<Rightarrow> p)"

lemma killed_process_sel [simp]:
  "pid (killed_process p) = pid p" "killed (killed_process p)" "is_unused (state (killed_process p)) = is_unused (state p)"
  "state (killed_process p) = Invalid \<longleftrightarrow> state p = Invalid"
  by (cases "state p"; simp add: killed_process_def Let_def)+

lemma kill_slot_spec:
  assumes "i < length (procs t)"
  shows "kill_slot i t = Some (upd_proc i killed_process t)"
  using assms
  by (cases "state (procs t ! i)") (simp_all add: kill_slot_def ps_defs upd_proc_def killed_process_def Let_def)

text \<open>
  C38. \<open>ProcessTable::kill\<close> with the number of a live process sets the flag of that process, makes it runnable if
  it sleeps, leaves every other slot alone and answers true; for a number that no slot has it answers false and
  changes nothing. The table stays well formed and the call never panics. With number 0, which no
  process has, it marks an unused slot if there is one, and the process that is later allocated in this
  slot is born killed: \<open>allocate_process\<close> does not reset the flag.
\<close>

theorem kill_correct:
  assumes "ptable_inv t"
  shows "\<exists>r t'. table_kill p t = Some (r, t') \<and> ptable_inv t' \<and>
    (r \<longleftrightarrow> (\<exists>i<NPROC. pid (procs t ! i) = p)) \<and>
    (\<not> r \<longrightarrow> t' = t) \<and>
    (p \<noteq> 0 \<longrightarrow> (\<forall>i<NPROC. procs t' ! i = (if pid (procs t ! i) = p then killed_process (procs t ! i) else procs t ! i))) \<and>
    (p = 0 \<and> r \<and> next_pid t \<noteq> - 1 \<longrightarrow> (\<exists>i t''. allocate_process t' = Some (Some i, t'') \<and> killed (procs t'' ! i)))"
proof (cases "find (\<lambda>i. pid (procs t ! i) = p) [0..<length (procs t)]")
  case None
  then have "table_kill p t = Some (False, t)" by (simp only: table_kill_def option.case)
  moreover have "\<forall>i<NPROC. pid (procs t ! i) \<noteq> p"
    using None unfolding find_upt_None ptable_invD(1) [OF assms] .
  ultimately show ?thesis using assms by auto
next
  case (Some i)
  note len = ptable_invD(1) [OF assms]
  note i = find_upt_SomeD [OF Some, unfolded len]
  have run: "table_kill p t = Some (True, upd_proc i killed_process t)"
    using Some i len by (simp add: table_kill_def kill_slot_spec)
  have inv: "ptable_inv (upd_proc i killed_process t)"
    using ptable_invD(3) [OF assms i(1)] by (intro ptable_inv_upd assms i(1)) simp_all
  have live: "j = i" if "p \<noteq> 0" "j < NPROC" "pid (procs t ! j) = p" for j
    using ptable_invD(6) [OF assms, of j i] that i by simp
  have zero: "\<exists>k t''. allocate_process (upd_proc i killed_process t) = Some (Some k, t'') \<and> killed (procs t'' ! k)" if "p = 0" "next_pid t \<noteq> - 1"
  proof -
    have un: "is_unused (state (procs t ! j)) \<longleftrightarrow> pid (procs t ! j) = 0" if "j < NPROC" for j
      using ptable_invD(5) [OF assms that] .
    have "is_unused (state (procs t ! i))" using un [OF i(1)] i(2) \<open>p = 0\<close> by simp
    moreover have "\<not> is_unused (state (procs t ! j))" if "j < i" for j using un [of j] i that \<open>p = 0\<close> by simp
    ultimately have "find (\<lambda>j. is_unused (state (procs (upd_proc i killed_process t) ! j))) [0..<NPROC] = Some i"
      using i(1) len by (intro find_upt_SomeI) simp_all
    then show ?thesis using \<open>is_unused (state (procs t ! i))\<close> i(1) len by (simp add: allocate_process_def allocate_slot_spec)
  qed
  have rest: "procs (upd_proc i killed_process t) ! j = (if pid (procs t ! j) = p then killed_process (procs t ! j) else procs t ! j)"
    if "p \<noteq> 0" "j < NPROC" for j
  proof -
    have "pid (procs t ! j) = p \<longleftrightarrow> j = i" using live [OF that] i(2) by blast
    then show ?thesis using i(1,2) len by simp
  qed
  show ?thesis using run inv i(1,2) zero rest by (intro exI [of _ True] exI [of _ "upd_proc i killed_process t"] conjI) blast+
qed

theorem kill_correct_witness:
  "\<exists>r t'. table_kill 0 (ptable_new :: unit ptable) = Some (r, t') \<and> r \<and> (\<exists>i t''. allocate_process t' = Some (Some i, t'') \<and> killed (procs t'' ! i))"
proof -
  have "\<exists>i<NPROC. pid (procs (ptable_new :: unit ptable) ! i) = 0"
    by (rule exI [of _ 0]) (simp add: ptable_new_def process_unused_def NPROC_def)
  moreover have "next_pid (ptable_new :: unit ptable) \<noteq> - 1" by (simp add: ptable_new_def)
  ultimately show ?thesis using kill_correct [OF ptable_inv_new, of 0] by blast
qed

end
