(* ===== verification/Scheduling.thy ===== *)
theory Scheduling
  imports Process_Table Spinlock
begin

text \<open>
  The scheduler and the calls that change the state of a process, src/kernel/src/process.rs, run by any of the
  \<open>NCPU\<close> harts at once. One action is what a hart does while it holds the lock of one slot of the process table
  (or what it does to its own entry of \<open>ASSIGNED\<close>), so that the actions of different harts interleave wherever the
  code lets go of a slot. \<open>owner\<close> tells which hart holds the lock of a slot (mutual exclusion is the theorem of the
  theory Spinlock); to take a lock that another hart holds is \<open>Spin\<close>. The program counter \<open>pc\<close> of a hart tells
  which part of the code it is in:

    \<^item> \<open>Scheduling\<close>: in the loop of \<open>scheduler\<close>, without a process;
    \<^item> \<open>Entering i\<close>: \<open>cpu::dispatch\<close> has switched to the stack of process \<open>i\<close>, which is about to call \<open>Assigned::assign\<close>;
    \<^item> \<open>Executing\<close>: in the code of its process, without the lock of a slot;
    \<^item> \<open>Forking j\<close>, \<open>Cloned j c\<close>, \<open>Linked j c\<close>: in \<open>fork\<close>, after \<open>allocate_process\<close>, after \<open>try_clone\<close>, and after the parent is set;
    \<^item> \<open>Leaving\<close>: \<open>cpu::preemption\<close> has switched back to the scheduler, which is about to call \<open>Assigned::release\<close>.

  \<open>intena\<close> is the local variable of that name on the stack of a process suspended in \<open>return_to_scheduler\<close>.
  A call of \<open>map_assigned\<close> masks interrupts and restores the mask; it is not a step of its own.
\<close>

datatype assigned = ANone | Switching nat | Assigned nat

fun assigned_get :: "assigned \<Rightarrow> nat option" where
  "assigned_get (Assigned i) = Some i"
| "assigned_get _ = None"

datatype 'c pc = Scheduling | Entering nat | Executing | Forking nat | Cloned nat 'c | Linked nat 'c | Leaving

record 'c sched =
  ptab :: "'c ptable"
  owner :: "nat \<Rightarrow> nat option"
  harts :: "nat \<Rightarrow> hart"
  ASSIGNED :: "nat \<Rightarrow> assigned"
  pc :: "nat \<Rightarrow> 'c pc"
  intena :: "nat \<Rightarrow> bool option"

abbreviation slot :: "'c sched \<Rightarrow> nat \<Rightarrow> 'c process" where
  "slot s i \<equiv> procs (ptab s) ! i"

definition set_slot :: "nat \<Rightarrow> ('c process \<Rightarrow> 'c process) \<Rightarrow> 'c sched \<Rightarrow> 'c sched" where
  "set_slot i f s = s\<lparr>ptab := upd_proc i f (ptab s)\<rparr>"

definition set_hart :: "nat \<Rightarrow> hart \<Rightarrow> 'c sched \<Rightarrow> 'c sched" where
  "set_hart h c s = s\<lparr>harts := (harts s)(h := c)\<rparr>"

definition set_assigned :: "nat \<Rightarrow> assigned \<Rightarrow> 'c sched \<Rightarrow> 'c sched" where
  "set_assigned h a s = s\<lparr>ASSIGNED := (ASSIGNED s)(h := a)\<rparr>"

definition goto :: "nat \<Rightarrow> 'c pc \<Rightarrow> 'c sched \<Rightarrow> 'c sched" where
  "goto h p s = s\<lparr>pc := (pc s)(h := p)\<rparr>"

subsection \<open>The lock of a slot\<close>

definition lock_slot :: "nat \<Rightarrow> nat \<Rightarrow> 'c sched \<Rightarrow> 'c sched acquired kernel" where
  "lock_slot h i s = do {
     c \<leftarrow> push_off (harts s h);
     assertk (owner s i \<noteq> Some h);
     if owner s i \<noteq> None then Some Spin
     else Some (Acquired ((set_hart h c s)\<lparr>owner := (owner s)(i := Some h)\<rparr>)) }"

definition unlock_slot :: "nat \<Rightarrow> nat \<Rightarrow> 'c sched \<Rightarrow> 'c sched kernel" where
  "unlock_slot h i s = do {
     assertk (owner s i = Some h);
     c \<leftarrow> pop_off (harts s h);
     Some ((set_hart h c s)\<lparr>owner := (owner s)(i := None)\<rparr>) }"

definition locked :: "nat \<Rightarrow> nat \<Rightarrow> ('c sched \<Rightarrow> 'c sched kernel) \<Rightarrow> 'c sched \<Rightarrow> 'c sched acquired kernel" where
  "locked h i f s = do {
     a \<leftarrow> lock_slot h i s;
     case a of Spin \<Rightarrow> Some Spin | Acquired s \<Rightarrow> do { s \<leftarrow> f s; Some (Acquired s) } }"

text \<open>Another lock that the hart holds, the guard of \<open>sleep\<close> or the lock of \<open>wait\<close>, is let go.\<close>

definition unlock_guard :: "nat \<Rightarrow> 'c sched \<Rightarrow> 'c sched kernel" where
  "unlock_guard h s = do { c \<leftarrow> pop_off (harts s h); Some (set_hart h c s) }"

subsection \<open>Assigned\<close>

definition assigned_switch :: "nat \<Rightarrow> nat \<Rightarrow> 'c sched \<Rightarrow> 'c sched" where
  "assigned_switch h i s = set_assigned h (Switching i) s"

definition assigned_assign :: "nat \<Rightarrow> 'c sched \<Rightarrow> 'c sched kernel" where
  "assigned_assign h s = (case ASSIGNED s h of
     Switching i \<Rightarrow> do { s \<leftarrow> unlock_slot h i (set_assigned h ANone s); Some (set_assigned h (Assigned i) s) }
   | _ \<Rightarrow> None)"

text \<open>The guard in \<open>Switching\<close> is dropped.\<close>

definition assigned_release :: "nat \<Rightarrow> 'c sched \<Rightarrow> 'c sched kernel" where
  "assigned_release h s = (case ASSIGNED s h of
     Switching i \<Rightarrow> unlock_slot h i (set_assigned h ANone s)
   | _ \<Rightarrow> Some (set_assigned h ANone s))"

subsection \<open>The scheduler\<close>

definition sched_dispatch :: "nat \<Rightarrow> nat \<Rightarrow> 'c sched \<Rightarrow> 'c sched acquired kernel" where
  "sched_dispatch h i = locked h i (\<lambda>s.
     if is_runnable (state (slot s i)) then
       (case ps_run (state (slot s i)) of (st, r) \<Rightarrow> do {
          _ \<leftarrow> unwrap r;
          let s = set_slot i (\<lambda>p. p\<lparr>state := st\<rparr>) s;
          _ \<leftarrow> process_context (slot s i);
          Some (goto h (Entering i) (assigned_switch h i s)) })
     else unlock_slot h i s)"

definition sched_release :: "nat \<Rightarrow> 'c sched \<Rightarrow> 'c sched kernel" where
  "sched_release h s = do { s \<leftarrow> assigned_release h s; Some (goto h Scheduling s) }"

definition return_to_scheduler :: "nat \<Rightarrow> nat \<Rightarrow> 'c sched \<Rightarrow> 'c sched kernel" where
  "return_to_scheduler h i s = do {
     assertk (\<not> is_enabled (harts s h));
     get_state (harts s h);
     assertk (depth_of_disable (harts s h) = 1);
     assertk (\<not> is_running (state (slot s i)));
     _ \<leftarrow> process_context (slot s i);
     let s = assigned_switch h i s;
     let s = s\<lparr>intena := (intena s)(i := Some (is_enabled_before (harts s h)))\<rparr>;
     Some (goto h Leaving s) }"

text \<open>
  A dispatched process goes on after \<open>cpu::preemption\<close>, where it was suspended, or, when it has not run before,
  at \<open>finish_dispatch\<close>.
\<close>

definition resume :: "nat \<Rightarrow> nat \<Rightarrow> 'c sched \<Rightarrow> 'c sched kernel" where
  "resume h i s = do {
     let s = (case intena s i of None \<Rightarrow> s | Some b \<Rightarrow> set_hart h ((harts s h)\<lparr>is_enabled_before := b\<rparr>) s);
     s \<leftarrow> assigned_assign h s;
     Some (goto h Executing s) }"

subsection \<open>Calls of a process\<close>

definition proc_sleep :: "nat \<Rightarrow> usize \<Rightarrow> 'c sched \<Rightarrow> 'c sched acquired kernel" where
  "proc_sleep h token s = do {
     i \<leftarrow> assigned_get (ASSIGNED s h);
     locked h i (\<lambda>s. do {
       s \<leftarrow> unlock_guard h s;
       case ps_sleep token (state (slot s i)) of (st, r) \<Rightarrow> do {
         _ \<leftarrow> unwrap r;
         return_to_scheduler h i (set_slot i (\<lambda>p. p\<lparr>state := st\<rparr>) s) } }) s }"

definition proc_pause :: "nat \<Rightarrow> 'c sched \<Rightarrow> 'c sched acquired kernel" where
  "proc_pause h s = do {
     i \<leftarrow> assigned_get (ASSIGNED s h);
     locked h i (\<lambda>s.
       case ps_pause (state (slot s i)) of (st, r) \<Rightarrow> do {
         _ \<leftarrow> unwrap r;
         return_to_scheduler h i (set_slot i (\<lambda>p. p\<lparr>state := st\<rparr>) s) }) s }"

text \<open>
  \<open>exit\<close>: the assertion on the process number at its start, the loop that hands the children to the initial
  process, one slot at a time, and its last part, in which the process dies. The wakeups in between are
  actions of \<open>wakeup_one\<close>.
\<close>

definition exit_check :: "nat \<Rightarrow> 'c sched \<Rightarrow> unit kernel" where
  "exit_check h s = do {
     i \<leftarrow> assigned_get (ASSIGNED s h);
     assertk (pid (slot s i) \<noteq> 1);
     _ \<leftarrow> process_context (slot s i);
     Some () }"

definition exit_reparent :: "nat \<Rightarrow> nat \<Rightarrow> 'c sched \<Rightarrow> 'c sched kernel" where
  "exit_reparent h j s = do {
     i \<leftarrow> assigned_get (ASSIGNED s h);
     initptr \<leftarrow> find (\<lambda>k. pid (slot s k) = 1) [0..<length (procs (ptab s))];
     Some (if parent (slot s j) = Some i then set_slot j (\<lambda>p. p\<lparr>parent := Some initptr\<rparr>) s else s) }"

definition exit_die :: "nat \<Rightarrow> i32 \<Rightarrow> 'c sched \<Rightarrow> 'c sched acquired kernel" where
  "exit_die h status s = do {
     i \<leftarrow> assigned_get (ASSIGNED s h);
     locked h i (\<lambda>s.
       case ps_die status (state (slot s i)) of (st, r) \<Rightarrow> do {
         _ \<leftarrow> unwrap r;
         s \<leftarrow> unlock_guard h (set_slot i (\<lambda>p. p\<lparr>state := st\<rparr>) s);
         return_to_scheduler h i s }) s }"

definition wakeup_one :: "nat \<Rightarrow> usize \<Rightarrow> nat \<Rightarrow> 'c sched \<Rightarrow> 'c sched acquired kernel" where
  "wakeup_one h token i s =
     (if assigned_get (ASSIGNED s h) = Some i then Some (Acquired s)
      else locked h i (\<lambda>s. do {
        t \<leftarrow> wakeup_slot token None i (ptab s);
        unlock_slot h i (s\<lparr>ptab := t\<rparr>) }) s)"

definition kill_one :: "nat \<Rightarrow> usize \<Rightarrow> nat \<Rightarrow> 'c sched \<Rightarrow> 'c sched acquired kernel" where
  "kill_one h p i = locked h i (\<lambda>s. do {
     t \<leftarrow> (if pid (slot s i) = p then kill_slot i (ptab s) else Some (ptab s));
     unlock_slot h i (s\<lparr>ptab := t\<rparr>) })"

definition set_killed :: "nat \<Rightarrow> 'c sched \<Rightarrow> 'c sched acquired kernel" where
  "set_killed h s = (case assigned_get (ASSIGNED s h) of None \<Rightarrow> Some (Acquired s) | Some i \<Rightarrow>
     locked h i (\<lambda>s. unlock_slot h i (set_slot i (\<lambda>p. p\<lparr>killed := True\<rparr>) s)) s)"

text \<open>\<open>fork\<close>: one slot of the loop in \<open>allocate_process\<close>, then the failure or the success of \<open>try_clone\<close>, the store to \<open>parent\<close>, the setup.\<close>

definition fork_allocate :: "nat \<Rightarrow> nat \<Rightarrow> 'c sched \<Rightarrow> 'c sched acquired kernel" where
  "fork_allocate h j = locked h j (\<lambda>s.
     if is_unused (state (slot s j)) then do {
       t \<leftarrow> allocate_slot j (ptab s);
       Some (goto h (Forking j) (s\<lparr>ptab := t\<rparr>)) }
     else unlock_slot h j s)"

definition fork_failed :: "nat \<Rightarrow> nat \<Rightarrow> 'c sched \<Rightarrow> 'c sched kernel" where
  "fork_failed h j s = do { s \<leftarrow> unlock_slot h j s; Some (goto h Executing s) }"

definition fork_cloned :: "nat \<Rightarrow> nat \<Rightarrow> 'c \<Rightarrow> 'c sched \<Rightarrow> 'c sched kernel" where
  "fork_cloned h j c s = do {
     i \<leftarrow> assigned_get (ASSIGNED s h);
     s \<leftarrow> unlock_slot h j (set_slot j (\<lambda>p. p\<lparr>pname := pname (slot s i)\<rparr>) s);
     Some (goto h (Cloned j c) s) }"

definition fork_link :: "nat \<Rightarrow> nat \<Rightarrow> 'c \<Rightarrow> 'c sched \<Rightarrow> 'c sched kernel" where
  "fork_link h j c s = do {
     i \<leftarrow> assigned_get (ASSIGNED s h);
     Some (goto h (Linked j c) (set_slot j (\<lambda>p. p\<lparr>parent := Some i\<rparr>) s)) }"

definition fork_setup :: "nat \<Rightarrow> nat \<Rightarrow> 'c \<Rightarrow> 'c sched \<Rightarrow> 'c sched acquired kernel" where
  "fork_setup h j c = locked h j (\<lambda>s.
     case ps_setup c (state (slot s j)) of (st, r) \<Rightarrow> do {
       _ \<leftarrow> unwrap r;
       s \<leftarrow> unlock_slot h j (set_slot j (\<lambda>p. p\<lparr>state := st\<rparr>) (s\<lparr>intena := (intena s)(j := None)\<rparr>));
       Some (goto h Executing s) })"

text \<open>
  \<open>wait\<close>: the body of its loop for slot \<open>j\<close>. \<open>stored\<close> is \<open>None\<close> when the caller gave no address for the exit status,
  and otherwise tells whether the status could be written to the caller's memory.
\<close>

definition wait_one :: "nat \<Rightarrow> nat \<Rightarrow> bool option \<Rightarrow> 'c sched \<Rightarrow> 'c sched acquired kernel" where
  "wait_one h j stored s = do {
     i \<leftarrow> assigned_get (ASSIGNED s h);
     if parent (slot s j) = Some i then
       locked h j (\<lambda>s.
         if is_zombie (state (slot s j)) then do {
           _ \<leftarrow> (if stored \<noteq> None then process_context (slot s i) \<bind> (\<lambda>_. Some ()) else Some ());
           unlock_slot h j (if stored = Some False then s else set_slot j (\<lambda>p. fst (process_deallocate p)) s) }
         else unlock_slot h j s) s
     else Some (Acquired s) }"

text \<open>The process changes its own context, through the reference that \<open>context()\<close> gives it.\<close>

definition set_context :: "nat \<Rightarrow> 'c \<Rightarrow> 'c sched \<Rightarrow> 'c sched kernel" where
  "set_context h c s = do {
     i \<leftarrow> assigned_get (ASSIGNED s h);
     _ \<leftarrow> process_context (slot s i);
     Some (set_slot i (\<lambda>p. p\<lparr>state := (case state p of
        Runnable _ \<Rightarrow> Runnable c | Running _ \<Rightarrow> Running c | Sleeping _ t \<Rightarrow> Sleeping c t | Zombie _ e \<Rightarrow> Zombie c e | st \<Rightarrow> st)\<rparr>) s) }"

subsection \<open>Interleaving\<close>

datatype 'c action =
    EnableInterrupt nat | Dispatch nat nat | Resume nat | Release nat
  | SleepOn nat usize | Pause nat | ExitCheck nat | Reparent nat nat | Die nat i32
  | Wakeup nat usize nat | Kill nat usize nat | SetKilled nat
  | ForkAllocate nat nat | ForkFailed nat | ForkCloned nat 'c | ForkLink nat | ForkSetup nat
  | WaitOne nat nat "bool option" | SetContext nat 'c | Other nat hart

definition atomically :: "'c sched kernel \<Rightarrow> 'c sched acquired kernel" where
  "atomically m = do { s \<leftarrow> m; Some (Acquired s) }"

fun act :: "'c action \<Rightarrow> 'c sched \<Rightarrow> 'c sched acquired kernel" where
  "act (EnableInterrupt h) s = Some (Acquired (set_hart h (enable_interrupt (harts s h)) s))"
| "act (Dispatch h i) s = sched_dispatch h i s"
| "act (Resume h) s = (case pc s h of Entering i \<Rightarrow> atomically (resume h i s) | _ \<Rightarrow> None)"
| "act (Release h) s = atomically (sched_release h s)"
| "act (SleepOn h token) s = proc_sleep h token s"
| "act (Pause h) s = proc_pause h s"
| "act (ExitCheck h) s = do { _ \<leftarrow> exit_check h s; Some (Acquired s) }"
| "act (Reparent h j) s = atomically (exit_reparent h j s)"
| "act (Die h status) s = do { _ \<leftarrow> exit_check h s; exit_die h status s }"
| "act (Wakeup h token i) s = wakeup_one h token i s"
| "act (Kill h p i) s = kill_one h p i s"
| "act (SetKilled h) s = set_killed h s"
| "act (ForkAllocate h j) s = fork_allocate h j s"
| "act (ForkFailed h) s = (case pc s h of Forking j \<Rightarrow> atomically (fork_failed h j s) | _ \<Rightarrow> None)"
| "act (ForkCloned h c) s = (case pc s h of Forking j \<Rightarrow> atomically (fork_cloned h j c s) | _ \<Rightarrow> None)"
| "act (ForkLink h) s = (case pc s h of Cloned j c \<Rightarrow> atomically (fork_link h j c s) | _ \<Rightarrow> None)"
| "act (ForkSetup h) s = (case pc s h of Linked j c \<Rightarrow> fork_setup h j c s | _ \<Rightarrow> None)"
| "act (WaitOne h j stored) s = wait_one h j stored s"
| "act (SetContext h c) s = atomically (set_context h c s)"
| "act (Other h c) s = Some (Acquired (set_hart h c s))"

text \<open>
  Which actions the code of a hart can take next. \<open>sleep\<close> is called with the guard of one lock, the last part of
  \<open>exit\<close> runs under the lock of \<open>wait\<close>, and \<open>pause\<close> is called from the trap handlers, without a lock. Wakeups
  also come from interrupt handlers, which interrupt the scheduler too. \<open>Other\<close> is any other code of
  a process, which takes and releases further locks.
\<close>

fun can :: "'c action \<Rightarrow> 'c sched \<Rightarrow> bool" where
  "can (EnableInterrupt h) s \<longleftrightarrow> h < NCPU \<and> pc s h = Scheduling"
| "can (Dispatch h i) s \<longleftrightarrow> h < NCPU \<and> pc s h = Scheduling \<and> i < NPROC"
| "can (Resume h) s \<longleftrightarrow> h < NCPU \<and> (\<exists>i<NPROC. pc s h = Entering i)"
| "can (Release h) s \<longleftrightarrow> h < NCPU \<and> pc s h = Leaving"
| "can (SleepOn h token) s \<longleftrightarrow> h < NCPU \<and> pc s h = Executing \<and> depth_of_disable (harts s h) = 1"
| "can (Pause h) s \<longleftrightarrow> h < NCPU \<and> pc s h = Executing \<and> depth_of_disable (harts s h) = 0"
| "can (ExitCheck h) s \<longleftrightarrow> h < NCPU \<and> pc s h = Executing"
| "can (Reparent h j) s \<longleftrightarrow> h < NCPU \<and> pc s h = Executing \<and> j < NPROC"
| "can (Die h status) s \<longleftrightarrow> h < NCPU \<and> pc s h = Executing \<and> depth_of_disable (harts s h) = 1"
| "can (Wakeup h token i) s \<longleftrightarrow> h < NCPU \<and> (pc s h = Executing \<or> pc s h = Scheduling) \<and> i < NPROC"
| "can (Kill h p i) s \<longleftrightarrow> h < NCPU \<and> pc s h = Executing \<and> i < NPROC"
| "can (SetKilled h) s \<longleftrightarrow> h < NCPU \<and> pc s h = Executing"
| "can (ForkAllocate h j) s \<longleftrightarrow> h < NCPU \<and> pc s h = Executing \<and> j < NPROC"
| "can (ForkFailed h) s \<longleftrightarrow> h < NCPU \<and> (\<exists>j<NPROC. pc s h = Forking j)"
| "can (ForkCloned h c) s \<longleftrightarrow> h < NCPU \<and> (\<exists>j<NPROC. pc s h = Forking j)"
| "can (ForkLink h) s \<longleftrightarrow> h < NCPU \<and> (case pc s h of Cloned _ _ \<Rightarrow> True | _ \<Rightarrow> False)"
| "can (ForkSetup h) s \<longleftrightarrow> h < NCPU \<and> (case pc s h of Linked _ _ \<Rightarrow> True | _ \<Rightarrow> False)"
| "can (WaitOne h j stored) s \<longleftrightarrow> h < NCPU \<and> pc s h = Executing \<and> j < NPROC"
| "can (SetContext h c) s \<longleftrightarrow> h < NCPU \<and> pc s h = Executing"
| "can (Other h c) s \<longleftrightarrow> h < NCPU \<and> pc s h = Executing \<and> hart_inv c \<and> tp c = tp (harts s h)"

text \<open>The state after \<open>setup_init_process\<close>: the initial process, with number 1, is runnable, and all harts are in the scheduler.\<close>

definition boot_hart :: "nat \<Rightarrow> hart" where
  "boot_hart h = \<lparr>sstatus = 0, tp = of_nat h, depth_of_disable = 0, is_enabled_before = False\<rparr>"

definition setup_init_process :: "'c \<Rightarrow> 'c ptable \<Rightarrow> 'c ptable kernel" where
  "setup_init_process c t = do {
     (r, t) \<leftarrow> allocate_process t;
     i \<leftarrow> r;
     assertk (pid (procs t ! i) = 1);
     Some (upd_proc i (\<lambda>p. p\<lparr>state := Runnable c\<rparr>) t) }"

inductive sched_reach :: "'c \<Rightarrow> 'c sched \<Rightarrow> bool" for c where
  boot: "setup_init_process c ptable_new = Some t \<Longrightarrow>
    sched_reach c \<lparr>ptab = t, owner = (\<lambda>_. None), harts = boot_hart, ASSIGNED = (\<lambda>_. ANone), pc = (\<lambda>_. Scheduling), intena = (\<lambda>_. None)\<rparr>"
| step: "sched_reach c s \<Longrightarrow> can a s \<Longrightarrow> act a s = Some (Acquired s') \<Longrightarrow> sched_reach c s'"

subsection \<open>The invariant\<close>

text \<open>The process a hart is on, and the slot it is filling in \<open>fork\<close>.\<close>

fun slot_of :: "assigned \<Rightarrow> nat option" where
  "slot_of ANone = None"
| "slot_of (Switching i) = Some i"
| "slot_of (Assigned i) = Some i"

fun making :: "'c pc \<Rightarrow> nat option" where
  "making (Forking j) = Some j"
| "making (Cloned j _) = Some j"
| "making (Linked j _) = Some j"
| "making _ = None"

definition holds :: "assigned \<Rightarrow> 'c pc \<Rightarrow> nat \<Rightarrow> bool" where
  "holds a p i \<longleftrightarrow> a = Switching i \<or> p = Forking i"

text \<open>What the rest of the state owes to a hart at program counter \<open>p\<close>.\<close>

definition suspended :: "'c pstate \<Rightarrow> bool" where
  "suspended st \<longleftrightarrow> is_runnable st \<or> is_sleeping st \<or> is_zombie st"

definition hart_ok :: "(nat \<Rightarrow> 'c process) \<Rightarrow> (nat \<Rightarrow> nat option) \<Rightarrow> nat \<Rightarrow> hart \<Rightarrow> assigned \<Rightarrow> 'c pc \<Rightarrow> bool" where
  "hart_ok f own h c a p \<longleftrightarrow> hart_inv c \<and> tp c = of_nat h \<and>
     (\<forall>i. slot_of a = Some i \<longrightarrow> i < NPROC \<and> (if p = Leaving then suspended (state (f i)) else is_running (state (f i)))) \<and>
     (\<forall>j. making p = Some j \<longrightarrow> j < NPROC \<and> state (f j) = Used) \<and>
     (\<forall>i. holds a p i \<longrightarrow> own i = Some h) \<and>
     (case p of
        Scheduling \<Rightarrow> a = ANone \<and> depth_of_disable c = 0
      | Entering i \<Rightarrow> a = Switching i \<and> depth_of_disable c = 1
      | Leaving \<Rightarrow> (\<exists>i. a = Switching i) \<and> depth_of_disable c = 1
      | Forking _ \<Rightarrow> (\<exists>i. a = Assigned i) \<and> 0 < depth_of_disable c
      | _ \<Rightarrow> (\<exists>i. a = Assigned i))"

definition sched_inv :: "'c sched \<Rightarrow> bool" where
  "sched_inv s \<longleftrightarrow> length (procs (ptab s)) = NPROC \<and>
     (\<forall>i<NPROC. state (slot s i) \<noteq> Invalid) \<and>
     (\<exists>i<NPROC. pid (slot s i) = 1 \<and> \<not> is_unused (state (slot s i)) \<and> \<not> is_zombie (state (slot s i))) \<and>
     (\<forall>h<NCPU. hart_ok (slot s) (owner s) h (harts s h) (ASSIGNED s h) (pc s h)) \<and>
     (\<forall>i h. owner s i = Some h \<longrightarrow> h < NCPU \<and> holds (ASSIGNED s h) (pc s h) i) \<and>
     (\<forall>h<NCPU. \<forall>h'<NCPU. \<forall>i. slot_of (ASSIGNED s h) = Some i \<and> slot_of (ASSIGNED s h') = Some i \<longrightarrow> h = h') \<and>
     (\<forall>h<NCPU. \<forall>h'<NCPU. \<forall>i. making (pc s h) = Some i \<and> making (pc s h') = Some i \<longrightarrow> h = h') \<and>
     (\<forall>i<NPROC. is_running (state (slot s i)) \<longrightarrow> (\<exists>h<NCPU. slot_of (ASSIGNED s h) = Some i \<and> pc s h \<noteq> Leaving))"

lemma sched_invD:
  assumes "sched_inv s"
  shows "length (procs (ptab s)) = NPROC" "i < NPROC \<Longrightarrow> state (slot s i) \<noteq> Invalid"
    "\<exists>i<NPROC. pid (slot s i) = 1 \<and> \<not> is_unused (state (slot s i)) \<and> \<not> is_zombie (state (slot s i))"
    "h < NCPU \<Longrightarrow> hart_ok (slot s) (owner s) h (harts s h) (ASSIGNED s h) (pc s h)"
    "owner s i = Some h \<Longrightarrow> h < NCPU \<and> holds (ASSIGNED s h) (pc s h) i"
    "h < NCPU \<Longrightarrow> h' < NCPU \<Longrightarrow> slot_of (ASSIGNED s h) = Some i \<Longrightarrow> slot_of (ASSIGNED s h') = Some i \<Longrightarrow> h = h'"
    "h < NCPU \<Longrightarrow> h' < NCPU \<Longrightarrow> making (pc s h) = Some i \<Longrightarrow> making (pc s h') = Some i \<Longrightarrow> h = h'"
    "i < NPROC \<Longrightarrow> is_running (state (slot s i)) \<Longrightarrow> \<exists>h<NCPU. slot_of (ASSIGNED s h) = Some i \<and> pc s h \<noteq> Leaving"
  using assms unfolding sched_inv_def by blast+

lemma hart_okD:
  assumes "hart_ok f own h c a p"
  shows "hart_inv c" "tp c = of_nat h" "slot_of a = Some i \<Longrightarrow> i < NPROC"
    "slot_of a = Some i \<Longrightarrow> p \<noteq> Leaving \<Longrightarrow> is_running (state (f i))" "slot_of a = Some i \<Longrightarrow> p = Leaving \<Longrightarrow> suspended (state (f i))"
    "making p = Some j \<Longrightarrow> j < NPROC" "making p = Some j \<Longrightarrow> state (f j) = Used" "holds a p i \<Longrightarrow> own i = Some h"
    "p = Leaving \<Longrightarrow> slot_of a = Some i \<Longrightarrow> a = Switching i"
  using assms unfolding hart_ok_def by (auto split: if_splits)

text \<open>A hart is not disturbed by a change of slot \<open>i\<close> that does not stop a process it runs or spoil a slot it fills.\<close>

lemma hart_ok_other:
  assumes ok: "hart_ok f own h c a p"
    and run: "is_running (state (f i)) \<Longrightarrow> slot_of a = Some i \<Longrightarrow> is_running (state q)"
    and used: "state (f i) = Used \<Longrightarrow> making p = Some i \<Longrightarrow> state q = Used"
    and own: "own i = Some h \<Longrightarrow> state q = state (f i) \<and> w = own i"
  shows "hart_ok (f(i := q)) (own(i := w)) h c a p"
proof -
  have "if p = Leaving then suspended (state ((f(i := q)) j)) else is_running (state ((f(i := q)) j))" if "slot_of a = Some j" for j
  proof (cases "p = Leaving")
    case True
    then have "own j = Some h" using that hart_okD(8,9) [OF ok] by (simp add: holds_def)
    then show ?thesis using own True hart_okD(5) [OF ok that] by auto
  next
    case False
    then show ?thesis using hart_okD(4) [OF ok that] run that by auto
  qed
  moreover have "state ((f(i := q)) j) = Used" if "making p = Some j" for j using hart_okD(7) [OF ok that] used that by auto
  moreover have "(own(i := w)) j = Some h" if "holds a p j" for j using hart_okD(8) [OF ok that] own by auto
  ultimately show ?thesis using ok unfolding hart_ok_def by blast
qed

text \<open>One action changes one hart and one slot.\<close>

definition changed :: "nat \<Rightarrow> nat \<Rightarrow> 'c process \<Rightarrow> nat option \<Rightarrow> hart \<Rightarrow> assigned \<Rightarrow> 'c pc \<Rightarrow> 'c sched \<Rightarrow> 'c sched \<Rightarrow> bool" where
  "changed h i q w c a p s s' \<longleftrightarrow> procs (ptab s') = (procs (ptab s))[i := q] \<and> owner s' = (owner s)(i := w) \<and>
     harts s' = (harts s)(h := c) \<and> ASSIGNED s' = (ASSIGNED s)(h := a) \<and> pc s' = (pc s)(h := p)"

text \<open>The side conditions under which the invariant survives.\<close>

definition legal :: "nat \<Rightarrow> nat \<Rightarrow> 'c process \<Rightarrow> nat option \<Rightarrow> hart \<Rightarrow> assigned \<Rightarrow> 'c pc \<Rightarrow> 'c sched \<Rightarrow> bool" where
  "legal h i q w c a p s \<longleftrightarrow> h < NCPU \<and> i < NPROC \<and>
     (owner s i = None \<or> owner s i = Some h \<or> state q = state (slot s i) \<and> w = owner s i) \<and>
     (is_running (state (slot s i)) \<longrightarrow> is_running (state q) \<or> slot_of (ASSIGNED s h) = Some i) \<and>
     (state (slot s i) = Used \<longrightarrow> state q = Used \<or> making (pc s h) = Some i) \<and>
     (w = owner s i \<or> w = None \<or> w = Some h) \<and>
     (\<forall>j. ((owner s)(i := w)) j = Some h \<longrightarrow> holds a p j) \<and>
     (\<forall>j. slot_of a = Some j \<longrightarrow> slot_of (ASSIGNED s h) = Some j \<or> j = i \<and> is_runnable (state (slot s i)) \<and> owner s i = None) \<and>
     (\<forall>j. making p = Some j \<longrightarrow> making (pc s h) = Some j \<or> j = i \<and> state (slot s i) \<noteq> Used) \<and>
     (\<forall>j. slot_of (ASSIGNED s h) = Some j \<and> pc s h \<noteq> Leaving \<longrightarrow> slot_of a = Some j \<and> p \<noteq> Leaving \<or> j = i \<and> \<not> is_running (state q)) \<and>
     (is_running (state q) \<longrightarrow> is_running (state (slot s i)) \<or> slot_of a = Some i \<and> p \<noteq> Leaving) \<and>
     (pid (slot s i) = 1 \<and> \<not> is_unused (state (slot s i)) \<and> \<not> is_zombie (state (slot s i)) \<longrightarrow>
        pid q = 1 \<and> \<not> is_unused (state q) \<and> \<not> is_zombie (state q)) \<and>
     state q \<noteq> Invalid"

lemma legalD:
  assumes "legal h i q w c a p s"
  shows "h < NCPU" "i < NPROC" "owner s i = None \<or> owner s i = Some h \<or> state q = state (slot s i) \<and> w = owner s i"
    "is_running (state (slot s i)) \<Longrightarrow> is_running (state q) \<or> slot_of (ASSIGNED s h) = Some i"
    "state (slot s i) = Used \<Longrightarrow> state q = Used \<or> making (pc s h) = Some i"
    "w = owner s i \<or> w = None \<or> w = Some h"
    "((owner s)(i := w)) j = Some h \<Longrightarrow> holds a p j"
    "slot_of a = Some j \<Longrightarrow> slot_of (ASSIGNED s h) = Some j \<or> j = i \<and> is_runnable (state (slot s i)) \<and> owner s i = None"
    "making p = Some j \<Longrightarrow> making (pc s h) = Some j \<or> j = i \<and> state (slot s i) \<noteq> Used"
    "slot_of (ASSIGNED s h) = Some j \<Longrightarrow> pc s h \<noteq> Leaving \<Longrightarrow> slot_of a = Some j \<and> p \<noteq> Leaving \<or> j = i \<and> \<not> is_running (state q)"
    "is_running (state q) \<Longrightarrow> is_running (state (slot s i)) \<or> slot_of a = Some i \<and> p \<noteq> Leaving"
    "pid (slot s i) = 1 \<Longrightarrow> \<not> is_unused (state (slot s i)) \<Longrightarrow> \<not> is_zombie (state (slot s i)) \<Longrightarrow>
        pid q = 1 \<and> \<not> is_unused (state q) \<and> \<not> is_zombie (state q)"
    "state q \<noteq> Invalid"
  using assms unfolding legal_def by simp_all

lemma changed_slot:
  assumes "changed h i q w c a p s s'" "length (procs (ptab s)) = NPROC" "i < NPROC"
  shows "slot s' = (slot s)(i := q)"
  using assms by (auto simp: changed_def fun_eq_iff nth_list_update)

lemma changed_slots_apart:
  assumes inv: "sched_inv s" and lg: "legal h i q w c a p s" and h': "h' < NCPU" "h' \<noteq> h"
    and sl: "slot_of a = Some j" "slot_of (ASSIGNED s h') = Some j"
  shows False
proof -
  have h: "h < NCPU" using legalD(1) [OF lg] .
  note ok = sched_invD(4) [OF inv h'(1)]
  from legalD(8) [OF lg sl(1)] consider "slot_of (ASSIGNED s h) = Some j" | "j = i" "is_runnable (state (slot s i))" "owner s i = None"
    by metis
  then show False
  proof cases
    case 1 then show False using sched_invD(6) [OF inv h h'(1)] sl h'(2) by blast
  next
    case 2
    show False
    proof (cases "pc s h' = Leaving")
      case True then show False using hart_okD(8,9) [OF ok] sl(2) 2 by (auto simp: holds_def)
    next
      case False then show False using hart_okD(4) [OF ok sl(2)] 2 by (cases "state (slot s i)") auto
    qed
  qed
qed

lemma changed_making_apart:
  assumes inv: "sched_inv s" and lg: "legal h i q w c a p s" and h': "h' < NCPU" "h' \<noteq> h"
    and mk: "making p = Some j" "making (pc s h') = Some j"
  shows False
proof -
  have h: "h < NCPU" using legalD(1) [OF lg] .
  from legalD(9) [OF lg mk(1)] consider "making (pc s h) = Some j" | "j = i" "state (slot s i) \<noteq> Used" by metis
  then show False
    using sched_invD(7) [OF inv h h'(1)] mk h'(2) hart_okD(7) [OF sched_invD(4) [OF inv h'(1)] mk(2)] by cases auto
qed

lemma sched_inv_changed:
  assumes inv: "sched_inv s" and lg: "legal h i q w c a p s" and ch: "changed h i q w c a p s s'"
    and ok: "hart_ok ((slot s)(i := q)) ((owner s)(i := w)) h c a p"
  shows "sched_inv s'"
proof -
  have h: "h < NCPU" and i: "i < NPROC" using legalD(1,2) [OF lg] .
  note len = sched_invD(1) [OF inv]
  have sl: "slot s' = (slot s)(i := q)" using changed_slot [OF ch len i] .
  have own: "owner s' = (owner s)(i := w)" and eqs: "ASSIGNED s' = (ASSIGNED s)(h := a)" "pc s' = (pc s)(h := p)" "harts s' = (harts s)(h := c)"
    and len': "length (procs (ptab s')) = NPROC" using ch len by (simp_all add: changed_def)
  have valid: "\<forall>j<NPROC. state (slot s' j) \<noteq> Invalid" using sched_invD(2) [OF inv] legalD(13) [OF lg] by (simp add: sl)
  have ini: "\<exists>j<NPROC. pid (slot s' j) = 1 \<and> \<not> is_unused (state (slot s' j)) \<and> \<not> is_zombie (state (slot s' j))"
    using sched_invD(3) [OF inv] legalD(12) [OF lg] unfolding sl by (metis fun_upd_apply)
  have other: "hart_ok (slot s') (owner s') h' (harts s' h') (ASSIGNED s' h') (pc s' h')" if h': "h' < NCPU" "h' \<noteq> h" for h'
    unfolding sl own eqs fun_upd_other [OF h'(2)]
  proof (rule hart_ok_other [OF sched_invD(4) [OF inv h'(1)]])
    show "is_running (state q)" if "is_running (state (slot s i))" "slot_of (ASSIGNED s h') = Some i"
      using legalD(4) [OF lg] that sched_invD(6) [OF inv h h'(1)] h'(2) by blast
    show "state q = Used" if "state (slot s i) = Used" "making (pc s h') = Some i"
      using legalD(5) [OF lg] that sched_invD(7) [OF inv h h'(1)] h'(2) by blast
    show "state q = state (slot s i) \<and> w = owner s i" if "owner s i = Some h'"
      using legalD(3) [OF lg] that h'(2) by simp
  qed
  have harts: "hart_ok (slot s') (owner s') h' (harts s' h') (ASSIGNED s' h') (pc s' h')" if "h' < NCPU" for h'
  proof (cases "h' = h")
    case True show ?thesis unfolding True sl own eqs fun_upd_same by (rule ok)
  next
    case False then show ?thesis using other [OF that] by blast
  qed
  have owned: "h' < NCPU \<and> holds (ASSIGNED s' h') (pc s' h') j" if "owner s' j = Some h'" for j h'
  proof (cases "h' = h")
    case True then show ?thesis using legalD(7) [OF lg] that h unfolding own eqs by simp
  next
    case False
    then have "owner s j = Some h'" using legalD(6) [OF lg] that unfolding own by (cases "j = i") auto
    then show ?thesis using sched_invD(5) [OF inv] False by (simp add: eqs)
  qed
  have apart: "h1 = h2" if "h1 < NCPU" "h2 < NCPU" "slot_of (ASSIGNED s' h1) = Some j" "slot_of (ASSIGNED s' h2) = Some j" for h1 h2 j
    using that changed_slots_apart [OF inv lg, of h1 j] changed_slots_apart [OF inv lg, of h2 j] sched_invD(6) [OF inv that(1,2)]
    by (cases "h1 = h"; cases "h2 = h") (simp_all add: eqs)
  have makers: "h1 = h2" if "h1 < NCPU" "h2 < NCPU" "making (pc s' h1) = Some j" "making (pc s' h2) = Some j" for h1 h2 j
    using that changed_making_apart [OF inv lg, of h1 j] changed_making_apart [OF inv lg, of h2 j] sched_invD(7) [OF inv that(1,2)]
    by (cases "h1 = h"; cases "h2 = h") (simp_all add: eqs)
  have running: "\<exists>h'<NCPU. slot_of (ASSIGNED s' h') = Some j \<and> pc s' h' \<noteq> Leaving" if j: "j < NPROC" and r: "is_running (state (slot s' j))" for j
  proof (cases "slot_of a = Some j \<and> p \<noteq> Leaving")
    case True then show ?thesis using h by (intro exI [of _ h]) (simp add: eqs)
  next
    case False
    then have "is_running (state (slot s j))" using r legalD(11) [OF lg] by (cases "j = i") (auto simp: sl)
    from sched_invD(8) [OF inv j this] obtain h' where h': "h' < NCPU" "slot_of (ASSIGNED s h') = Some j" "pc s h' \<noteq> Leaving" by blast
    have "h' \<noteq> h" using h' legalD(10) [OF lg] False r by (auto simp: sl)
    then show ?thesis using h' by (intro exI [of _ h']) (simp add: eqs)
  qed
  show ?thesis unfolding sched_inv_def using len' valid ini harts owned apart makers running by blast
qed

end
