(* ===== verification/Scheduling_Safety.thy ===== *)
theory Scheduling_Safety
  imports Scheduling
begin

text \<open>
  Every action of every hart keeps the invariant of the scheduler, and the panics of src/kernel/src/process.rs do
  not happen: one lemma per action, then the induction over all interleavings.
\<close>

subsection \<open>Locking and unlocking a slot\<close>

definition good :: "'c sched kernel \<Rightarrow> bool" where
  "good m \<longleftrightarrow> (\<exists>s. m = Some s \<and> sched_inv s)"

definition safe :: "'c sched acquired kernel \<Rightarrow> bool" where
  "safe m \<longleftrightarrow> (\<exists>r. m = Some r \<and> (\<forall>s. r = Acquired s \<longrightarrow> sched_inv s))"

lemma safe_Acquired [simp]: "safe (Some (Acquired s)) \<longleftrightarrow> sched_inv s"
  by (simp add: safe_def)

lemma safe_atomically [simp]: "safe (atomically m) \<longleftrightarrow> good m"
  by (auto simp: safe_def good_def atomically_def split: Option.bind_splits)

lemma hart_number: "h < NCPU \<Longrightarrow> unat (of_nat h :: usize) = h"
  by (rule unat_of_nat_usize) (simp add: NCPU_def)

lemma lock_slot_free:
  assumes "h < NCPU" "hart_ok f own h (harts s h) a p" "owner s i = None"
  obtains c where "lock_slot h i s = Some (Acquired ((set_hart h c s)\<lparr>owner := (owner s)(i := Some h)\<rparr>))"
    "hart_inv c" "tp c = of_nat h" "depth_of_disable c = Suc (depth_of_disable (harts s h))" "\<not> is_enabled c"
proof -
  have "unat (tp (harts s h)) < NCPU" using hart_okD(2) [OF assms(2)] hart_number [OF assms(1)] assms(1) by simp
  then obtain c where c: "push_off (harts s h) = Some c" using push_off_Some by blast
  show ?thesis
    using that [of c] c push_off_facts [OF c] hart_okD(2) [OF assms(2)] assms(3) by (simp add: lock_slot_def)
qed

lemma lock_slot_busy:
  assumes "h < NCPU" "hart_ok f own h (harts s h) a p" "owner s i = Some h'" "h' \<noteq> h"
  shows "lock_slot h i s = Some Spin"
proof -
  have "unat (tp (harts s h)) < NCPU" using hart_okD(2) [OF assms(2)] hart_number [OF assms(1)] assms(1) by simp
  then obtain c where "push_off (harts s h) = Some c" using push_off_Some by blast
  with assms show ?thesis by (simp add: lock_slot_def)
qed

lemma safe_locked:
  assumes inv: "sched_inv s" and h: "h < NCPU" and free: "\<not> holds (ASSIGNED s h) (pc s h) i"
    and body: "\<And>c. owner s i = None \<Longrightarrow> hart_inv c \<Longrightarrow> tp c = of_nat h \<Longrightarrow> depth_of_disable c = Suc (depth_of_disable (harts s h)) \<Longrightarrow>
      \<not> is_enabled c \<Longrightarrow> good (f ((set_hart h c s)\<lparr>owner := (owner s)(i := Some h)\<rparr>))"
  shows "safe (locked h i f s)"
proof (cases "owner s i")
  case None
  obtain c where "lock_slot h i s = Some (Acquired ((set_hart h c s)\<lparr>owner := (owner s)(i := Some h)\<rparr>))"
    "hart_inv c" "tp c = of_nat h" "depth_of_disable c = Suc (depth_of_disable (harts s h))" "\<not> is_enabled c"
    using lock_slot_free [OF h sched_invD(4) [OF inv h] None] .
  with body [OF None, of c] show ?thesis by (auto simp: locked_def good_def)
next
  case (Some h')
  then have "h' \<noteq> h" using sched_invD(5) [OF inv Some] free by auto
  with lock_slot_busy [OF h sched_invD(4) [OF inv h] Some] show ?thesis by (simp add: locked_def safe_def)
qed

lemma unlock_slot_owned:
  assumes "owner s i = Some h" "hart_inv (harts s h)" "0 < depth_of_disable (harts s h)"
  obtains c where "unlock_slot h i s = Some ((set_hart h c s)\<lparr>owner := (owner s)(i := None)\<rparr>)"
    "hart_inv c" "tp c = tp (harts s h)" "depth_of_disable (harts s h) = Suc (depth_of_disable c)"
proof -
  obtain c where c: "pop_off (harts s h) = Some c" using pop_off_Some [OF assms(2,3)] by auto
  show ?thesis using that [of c] c pop_off_facts [OF c] assms(1) by (simp add: unlock_slot_def)
qed

lemmas sched_upd_defs = set_slot_def set_hart_def set_assigned_def goto_def

lemma hart_ok_cpu:
  assumes "hart_ok f own h c a p" "hart_inv c'" "tp c' = of_nat h" "depth_of_disable c' = depth_of_disable c"
  shows "hart_ok f own h c' a p"
  using assms by (auto simp: hart_ok_def split: pc.splits)

subsection \<open>Actions that leave the hart where it is\<close>

text \<open>The new contents \<open>q\<close> of a slot that the hart may store while other harts run or fill it.\<close>

definition harmless :: "'c process \<Rightarrow> 'c process \<Rightarrow> bool" where
  "harmless q0 q \<longleftrightarrow> is_running (state q) = is_running (state q0) \<and> (state q0 = Used \<longrightarrow> state q = Used) \<and> state q \<noteq> Invalid \<and>
     (pid q0 = 1 \<and> \<not> is_unused (state q0) \<and> \<not> is_zombie (state q0) \<longrightarrow> pid q = 1 \<and> \<not> is_unused (state q) \<and> \<not> is_zombie (state q))"

lemma sched_inv_harmless:
  assumes inv: "sched_inv s" and h: "h < NCPU" and i: "i < NPROC" and hm: "harmless (slot s i) q"
    and w: "owner s i = None \<or> state q = state (slot s i)"
    and c: "hart_inv c" "tp c = of_nat h" "depth_of_disable c = depth_of_disable (harts s h)"
    and ch: "changed h i q (owner s i) c (ASSIGNED s h) (pc s h) s s'"
  shows "sched_inv s'"
proof (rule sched_inv_changed [OF inv _ ch])
  show "legal h i q (owner s i) c (ASSIGNED s h) (pc s h) s"
    unfolding legal_def using h i hm w sched_invD(5) [OF inv] by (auto simp: harmless_def)
  have "hart_ok ((slot s)(i := q)) ((owner s)(i := owner s i)) h (harts s h) (ASSIGNED s h) (pc s h)"
    using hm w by (intro hart_ok_other sched_invD(4) [OF inv h]) (auto simp: harmless_def)
  then show "hart_ok ((slot s)(i := q)) ((owner s)(i := owner s i)) h c (ASSIGNED s h) (pc s h)"
    using c by (rule hart_ok_cpu)
qed

lemma good_unlock_harmless:
  assumes inv: "sched_inv s" and h: "h < NCPU" and i: "i < NPROC" and own: "owner s i = None"
    and c: "hart_inv c" "tp c = of_nat h" "depth_of_disable c = Suc (depth_of_disable (harts s h))"
    and ch: "changed h i q (Some h) c (ASSIGNED s h) (pc s h) s s1" and hm: "harmless (slot s i) q"
  shows "good (unlock_slot h i s1)"
proof -
  have s1: "owner s1 i = Some h" "harts s1 h = c" using ch by (simp_all add: changed_def)
  obtain c' where c': "unlock_slot h i s1 = Some ((set_hart h c' s1)\<lparr>owner := (owner s1)(i := None)\<rparr>)" "hart_inv c'" "tp c' = tp c" "depth_of_disable c = Suc (depth_of_disable c')"
    using unlock_slot_owned [of s1 i h] s1 c by auto
  have "changed h i q (owner s i) c' (ASSIGNED s h) (pc s h) s ((set_hart h c' s1)\<lparr>owner := (owner s1)(i := None)\<rparr>)"
    using ch own by (simp add: changed_def sched_upd_defs)
  from sched_inv_harmless [OF inv h i hm _ c'(2) _ _ this] c c' own show ?thesis by (simp add: good_def)
qed

text \<open>The state right after the lock was taken.\<close>

abbreviation taken :: "nat \<Rightarrow> nat \<Rightarrow> hart \<Rightarrow> 'c sched \<Rightarrow> 'c sched" where
  "taken h i c s \<equiv> (set_hart h c s)\<lparr>owner := (owner s)(i := Some h)\<rparr>"

lemma changed_taken: "changed h i (g (slot s i)) (Some h) c (ASSIGNED s h) (pc s h) s (set_slot i g (taken h i c s))"
  by (simp add: changed_def sched_upd_defs upd_proc_def)

lemma changed_taken_same: "changed h i (slot s i) (Some h) c (ASSIGNED s h) (pc s h) s (taken h i c s)"
  by (simp add: changed_def sched_upd_defs)

lemma slot_taken [simp]: "ptab (taken h i c s) = ptab s" "ASSIGNED (taken h i c s) = ASSIGNED s" "pc (taken h i c s) = pc s"
  by (simp_all add: sched_upd_defs)

lemma harmless_refl: "sched_inv s \<Longrightarrow> i < NPROC \<Longrightarrow> harmless (slot s i) (slot s i)"
  using sched_invD(2) by (auto simp: harmless_def)

lemma executing_not_holding:
  assumes "sched_inv s" "h < NCPU" "pc s h = Executing \<or> pc s h = Scheduling \<or> pc s h = Linked j c"
  shows "\<not> holds (ASSIGNED s h) (pc s h) i"
  using sched_invD(4) [OF assms(1,2)] assms(3) by (auto simp: hart_ok_def holds_def)

lemmas executing_free = executing_not_holding [OF _ _ disjI1]

lemma not_holding_owner: "sched_inv s \<Longrightarrow> \<not> holds (ASSIGNED s h) (pc s h) k \<Longrightarrow> owner s k \<noteq> Some h"
  using sched_invD(5) by blast

lemma executing_assigned:
  assumes "sched_inv s" "h < NCPU" "pc s h = Executing \<or> making (pc s h) \<noteq> None"
  obtains i where "ASSIGNED s h = Assigned i" "i < NPROC" "is_running (state (slot s i))"
  using sched_invD(4) [OF assms(1,2)] assms(3) by (auto simp: hart_ok_def split: pc.splits)

lemma running_owner:
  assumes inv: "sched_inv s" and h: "h < NCPU" and a: "ASSIGNED s h = Assigned i"
  shows "owner s i = None"
proof (rule ccontr)
  assume "owner s i \<noteq> None"
  then obtain h' where own: "owner s i = Some h'" by blast
  note h' = sched_invD(5) [OF inv own]
  show False
  proof (cases "ASSIGNED s h' = Switching i")
    case True then show False using sched_invD(6) [OF inv h, of h' i] h' a by auto
  next
    case False
    then have "making (pc s h') = Some i" using h' by (auto simp: holds_def)
    then have "state (slot s i) = Used" using hart_okD(7) [OF sched_invD(4) [OF inv]] h' by blast
    moreover have "pc s h \<noteq> Leaving" using hart_okD(9) [OF sched_invD(4) [OF inv h]] a by fastforce
    ultimately show False using hart_okD(4) [OF sched_invD(4) [OF inv h], of i] a by simp
  qed
qed

lemma safe_locked_harmless:
  assumes inv: "sched_inv s" and h: "h < NCPU" and i: "i < NPROC" and free: "\<not> holds (ASSIGNED s h) (pc s h) i"
    and body: "\<And>c. f (taken h i c s) = unlock_slot h i (set_slot i g (taken h i c s))" and hm: "harmless (slot s i) (g (slot s i))"
  shows "safe (locked h i f s)"
proof (rule safe_locked [OF inv h free])
  fix c assume c: "owner s i = None" "hart_inv c" "tp c = of_nat h" "depth_of_disable c = Suc (depth_of_disable (harts s h))" "\<not> is_enabled c"
  show "good (f (taken h i c s))" unfolding body by (rule good_unlock_harmless [OF inv h i c(1-4) changed_taken [of h i g s c] hm])
qed

lemma set_slot_same [simp]: "set_slot i (\<lambda>p. p) s = s"
  by (simp add: set_slot_def)

lemma safe_wakeup:
  assumes inv: "sched_inv s" and c: "can (Wakeup h token i) s"
  shows "safe (wakeup_one h token i s)"
proof (cases "assigned_get (ASSIGNED s h) = Some i")
  case False
  have "safe (locked h i (\<lambda>s. do { t \<leftarrow> wakeup_slot token None i (ptab s); unlock_slot h i (s\<lparr>ptab := t\<rparr>) }) s)"
  proof (rule safe_locked_harmless [OF inv, where g = "\<lambda>p. p\<lparr>state := woken token (state p)\<rparr>"])
    show "harmless (slot s i) ((slot s i)\<lparr>state := woken token (state (slot s i))\<rparr>)"
      using sched_invD(2) [OF inv, of i] c by (cases "state (slot s i)") (auto simp: harmless_def woken_def)
  qed (use c executing_not_holding [OF inv] in \<open>auto simp: wakeup_slot_spec set_slot_def\<close>)
  with False show ?thesis by (simp add: wakeup_one_def)
qed (use inv in \<open>simp add: wakeup_one_def\<close>)

lemma safe_kill:
  assumes inv: "sched_inv s" and c: "can (Kill h p i) s"
  shows "safe (kill_one h p i s)"
  unfolding kill_one_def
proof (rule safe_locked_harmless [OF inv, where g = "\<lambda>q. if pid q = p then killed_process q else q"])
  have i: "i < NPROC" using c by simp
  then show "harmless (slot s i) (if pid (slot s i) = p then killed_process (slot s i) else slot s i)" using sched_invD(2) [OF inv i]
    by (cases "state (slot s i)") (auto simp: harmless_def killed_process_def)
  show "(do { t \<leftarrow> (if pid (slot (taken h i c s) i) = p then kill_slot i (ptab (taken h i c s)) else Some (ptab (taken h i c s)));
       unlock_slot h i ((taken h i c s)\<lparr>ptab := t\<rparr>) }) =
     unlock_slot h i (set_slot i (\<lambda>q. if pid q = p then killed_process q else q) (taken h i c s))" for c
    using i sched_invD(1) [OF inv]
    by (cases "pid (slot s i) = p") (simp_all add: kill_slot_spec upd_proc_def set_slot_def)
qed (use c executing_free [OF inv] in auto)

lemma safe_set_killed:
  assumes inv: "sched_inv s" and c: "can (SetKilled h) s"
  shows "safe (set_killed h s)"
proof -
  have h: "h < NCPU" "pc s h = Executing" using c by simp_all
  obtain i where a: "ASSIGNED s h = Assigned i" and i: "i < NPROC" using executing_assigned [OF inv h(1)] h(2) by blast
  have "safe (locked h i (\<lambda>s. unlock_slot h i (set_slot i (\<lambda>p. p\<lparr>killed := True\<rparr>) s)) s)"
    using harmless_refl [OF inv i] executing_free [OF inv h]
    by (intro safe_locked_harmless [OF inv h(1) i, where g = "\<lambda>p. p\<lparr>killed := True\<rparr>"]) (auto simp: harmless_def)
  then show ?thesis using a by (simp add: set_killed_def)
qed

lemma safe_wait:
  assumes inv: "sched_inv s" and c: "can (WaitOne h j stored) s"
  shows "safe (wait_one h j stored s)"
proof -
  have h: "h < NCPU" "pc s h = Executing" and j: "j < NPROC" using c by simp_all
  obtain i where a: "ASSIGNED s h = Assigned i" and i: "i < NPROC" and run: "is_running (state (slot s i))"
    using executing_assigned [OF inv h(1)] h(2) by blast
  have ctx: "process_context (slot s i) \<noteq> None" using run by (cases "state (slot s i)") (auto simp: process_context_def)
  let ?g = "\<lambda>p. if is_zombie (state (slot s j)) \<and> stored \<noteq> Some False then fst (process_deallocate p) else p"
  have "safe (locked h j (\<lambda>s.
         if is_zombie (state (slot s j)) then do {
           _ \<leftarrow> (if stored \<noteq> None then process_context (slot s i) \<bind> (\<lambda>_. Some ()) else Some ());
           unlock_slot h j (if stored = Some False then s else set_slot j (\<lambda>p. fst (process_deallocate p)) s) }
         else unlock_slot h j s) s)"
  proof (rule safe_locked_harmless [OF inv h(1) j, where g = ?g])
    show "harmless (slot s j) (?g (slot s j))"
      using harmless_refl [OF inv j] by (cases "state (slot s j)") (auto simp: harmless_def process_deallocate_def)
  qed (use executing_free [OF inv h] ctx in auto)
  then show ?thesis using a inv by (simp add: wait_one_def)
qed

lemma safe_fork_allocate:
  assumes inv: "sched_inv s" and c: "can (ForkAllocate h j) s"
  shows "safe (fork_allocate h j s)"
  unfolding fork_allocate_def
proof (rule safe_locked [OF inv])
  have h: "h < NCPU" "pc s h = Executing" and j: "j < NPROC" using c by simp_all
  obtain i where a: "ASSIGNED s h = Assigned i" and i: "i < NPROC" and run: "is_running (state (slot s i))"
    using executing_assigned [OF inv h(1)] h(2) by blast
  show "h < NCPU" "\<not> holds (ASSIGNED s h) (pc s h) j" using h executing_free [OF inv] by blast+
  fix c assume own: "owner s j = None" and c: "hart_inv c" "tp c = of_nat h" "depth_of_disable c = Suc (depth_of_disable (harts s h))" "\<not> is_enabled c"
  show "good (if is_unused (state (slot (taken h j c s) j)) then do {
       t \<leftarrow> allocate_slot j (ptab (taken h j c s));
       Some (goto h (Forking j) ((taken h j c s)\<lparr>ptab := t\<rparr>)) }
     else unlock_slot h j (taken h j c s))"
  proof (cases "is_unused (state (slot s j))")
    case False
    then show ?thesis using good_unlock_harmless [OF inv h(1) j own c(1-3) changed_taken_same harmless_refl [OF inv j]] by simp
  next
    case True
    let ?q = "(slot s j)\<lparr>state := Used, pid := next_pid (ptab s)\<rparr>"
    let ?s = "goto h (Forking j) ((taken h j c s)\<lparr>ptab := (upd_proc j (\<lambda>p. p\<lparr>state := Used, pid := next_pid (ptab s)\<rparr>) (ptab s))\<lparr>next_pid := next_pid (ptab s) + 1\<rparr>\<rparr>)"
    have "sched_inv ?s"
    proof (rule sched_inv_changed [OF inv])
      show "changed h j ?q (Some h) c (ASSIGNED s h) (Forking j) s ?s"
        by (simp add: changed_def sched_upd_defs upd_proc_def)
      show "legal h j ?q (Some h) c (ASSIGNED s h) (Forking j) s"
        unfolding legal_def using h j own True not_holding_owner [OF inv executing_free [OF inv h]]
        by (cases "state (slot s j)") (auto simp: holds_def)
      show "hart_ok ((slot s)(j := ?q)) ((owner s)(j := Some h)) h c (ASSIGNED s h) (Forking j)"
        using a c i run j True by (cases "j = i"; cases "state (slot s i)") (auto simp: hart_ok_def holds_def)
    qed
    then show ?thesis using True by (simp add: allocate_slot_spec good_def)
  qed
qed

text \<open>Actions that take no lock.\<close>

lemma good_reparent:
  assumes inv: "sched_inv s" and c: "can (Reparent h j) s"
  shows "good (exit_reparent h j s)"
proof -
  have h: "h < NCPU" "pc s h = Executing" and j: "j < NPROC" using c by simp_all
  obtain i where a: "ASSIGNED s h = Assigned i" using executing_assigned [OF inv h(1)] h(2) by blast
  have "find (\<lambda>k. pid (slot s k) = 1) [0..<length (procs (ptab s))] \<noteq> None"
    using sched_invD(1,3) [OF inv] unfolding find_upt_None by auto
  then obtain k where k: "find (\<lambda>k. pid (slot s k) = 1) [0..<length (procs (ptab s))] = Some k" by blast
  let ?q = "(slot s j)\<lparr>parent := Some k\<rparr>"
  have "sched_inv (set_slot j (\<lambda>p. p\<lparr>parent := Some k\<rparr>) s)"
  proof (rule sched_inv_harmless [OF inv h(1) j])
    show "harmless (slot s j) ?q" using harmless_refl [OF inv j] by (auto simp: harmless_def)
    show "changed h j ?q (owner s j) (harts s h) (ASSIGNED s h) (pc s h) s (set_slot j (\<lambda>p. p\<lparr>parent := Some k\<rparr>) s)"
      by (simp add: changed_def sched_upd_defs upd_proc_def)
  qed (use hart_okD(1,2) [OF sched_invD(4) [OF inv h(1)]] in simp_all)
  then show ?thesis using a inv k by (simp add: exit_reparent_def good_def)
qed

lemma good_set_context:
  assumes inv: "sched_inv s" and c: "can (SetContext h c) s"
  shows "good (set_context h c s)"
proof -
  have h: "h < NCPU" "pc s h = Executing" using c by simp_all
  obtain i where a: "ASSIGNED s h = Assigned i" and i: "i < NPROC" and run: "is_running (state (slot s i))"
    using executing_assigned [OF inv h(1)] h(2) by blast
  from run obtain c0 where c0: "state (slot s i) = Running c0" by (cases "state (slot s i)") auto
  let ?q = "(slot s i)\<lparr>state := Running c\<rparr>"
  have "sched_inv (set_slot i (\<lambda>p. p\<lparr>state := Running c\<rparr>) s)"
  proof (rule sched_inv_harmless [OF inv h(1) i])
    show "harmless (slot s i) ?q" using c0 by (auto simp: harmless_def)
    show "changed h i ?q (owner s i) (harts s h) (ASSIGNED s h) (pc s h) s (set_slot i (\<lambda>p. p\<lparr>state := Running c\<rparr>) s)"
      by (simp add: changed_def sched_upd_defs upd_proc_def)
  qed (use hart_okD(1,2) [OF sched_invD(4) [OF inv h(1)]] running_owner [OF inv h(1) a] in simp_all)
  then show ?thesis using a c0 by (simp add: set_context_def good_def process_context_def set_slot_def upd_proc_def)
qed

lemma sched_inv_set_hart:
  assumes inv: "sched_inv s" and h: "h < NCPU" and ok: "hart_ok (slot s) (owner s) h c (ASSIGNED s h) (pc s h)"
  shows "sched_inv (set_hart h c s)"
  using inv ok h unfolding sched_inv_def by (auto simp: sched_upd_defs)

subsection \<open>Entering and leaving a process\<close>

lemma safe_dispatch:
  assumes inv: "sched_inv s" and c: "can (Dispatch h i) s"
  shows "safe (sched_dispatch h i s)"
  unfolding sched_dispatch_def
proof (rule safe_locked [OF inv])
  have h: "h < NCPU" "pc s h = Scheduling" and i: "i < NPROC" using c by simp_all
  have a: "ASSIGNED s h = ANone" "depth_of_disable (harts s h) = 0" using sched_invD(4) [OF inv h(1)] h(2) by (simp_all add: hart_ok_def)
  show free: "h < NCPU" "\<not> holds (ASSIGNED s h) (pc s h) i" for i using h executing_not_holding [OF inv] by blast+
  fix c assume own: "owner s i = None" and c: "hart_inv c" "tp c = of_nat h" "depth_of_disable c = Suc (depth_of_disable (harts s h))" "\<not> is_enabled c"
  show "good (if is_runnable (state (slot (taken h i c s) i)) then
       (case ps_run (state (slot (taken h i c s) i)) of (st, r) \<Rightarrow> do {
          _ \<leftarrow> unwrap r;
          let s = set_slot i (\<lambda>p. p\<lparr>state := st\<rparr>) (taken h i c s);
          _ \<leftarrow> process_context (slot s i);
          Some (goto h (Entering i) (assigned_switch h i s)) })
     else unlock_slot h i (taken h i c s))"
  proof (cases "is_runnable (state (slot s i))")
    case False
    then show ?thesis using good_unlock_harmless [OF inv h(1) i own c(1-3) changed_taken_same harmless_refl [OF inv i]] by simp
  next
    case True
    then obtain x where x: "state (slot s i) = Runnable x" by (cases "state (slot s i)") auto
    let ?q = "(slot s i)\<lparr>state := Running x\<rparr>"
    let ?s = "goto h (Entering i) (assigned_switch h i (set_slot i (\<lambda>p. p\<lparr>state := Running x\<rparr>) (taken h i c s)))"
    have "sched_inv ?s"
    proof (rule sched_inv_changed [OF inv])
      show "changed h i ?q (Some h) c (Switching i) (Entering i) s ?s"
        by (simp add: changed_def sched_upd_defs upd_proc_def assigned_switch_def)
      show "legal h i ?q (Some h) c (Switching i) (Entering i) s"
        unfolding legal_def using h i a own x not_holding_owner [OF inv free(2)] by (auto simp: holds_def)
      show "hart_ok ((slot s)(i := ?q)) ((owner s)(i := Some h)) h c (Switching i) (Entering i)"
        using a c i by (auto simp: hart_ok_def holds_def)
    qed
    then show ?thesis using x i sched_invD(1) [OF inv]
      by (simp add: good_def ps_defs process_context_def set_slot_def)
  qed
qed

lemma good_resume:
  assumes inv: "sched_inv s" and h: "h < NCPU" and p: "pc s h = Entering i"
  shows "good (resume h i s)"
proof -
  note ok = sched_invD(4) [OF inv h]
  have a: "ASSIGNED s h = Switching i" and d: "depth_of_disable (harts s h) = 1" using ok p by (simp_all add: hart_ok_def)
  have i: "i < NPROC" and run: "is_running (state (slot s i))" and own: "owner s i = Some h"
    using hart_okD(3,4,8) [OF ok, of i] a p by (simp_all add: holds_def)
  have others: "owner s j \<noteq> Some h" if "j \<noteq> i" for j using sched_invD(5) [OF inv, of j h] that a p by (auto simp: holds_def)
  let ?c0 = "case intena s i of None \<Rightarrow> harts s h | Some b \<Rightarrow> (harts s h)\<lparr>is_enabled_before := b\<rparr>"
  let ?s0 = "case intena s i of None \<Rightarrow> s | Some b \<Rightarrow> set_hart h ((harts s h)\<lparr>is_enabled_before := b\<rparr>) s"
  have c0: "hart_inv ?c0" "tp ?c0 = of_nat h" "depth_of_disable ?c0 = 1"
    using hart_okD(1,2) [OF ok] d by (simp_all add: hart_inv_def split: option.split)
  have s0: "harts (set_assigned h ANone ?s0) h = ?c0" "owner (set_assigned h ANone ?s0) = owner s" "ASSIGNED ?s0 = ASSIGNED s"
    by (simp_all add: sched_upd_defs split: option.split)
  obtain c where c: "unlock_slot h i (set_assigned h ANone ?s0) = Some ((set_hart h c (set_assigned h ANone ?s0))\<lparr>owner := (owner s)(i := None)\<rparr>)"
    "hart_inv c" "tp c = of_nat h"
    using unlock_slot_owned [of "set_assigned h ANone ?s0" i h] unfolding s0 using own c0 by (metis One_nat_def zero_less_one)
  let ?s = "goto h Executing (set_assigned h (Assigned i) ((set_hart h c (set_assigned h ANone ?s0))\<lparr>owner := (owner s)(i := None)\<rparr>))"
  have "sched_inv ?s"
  proof (rule sched_inv_changed [OF inv])
    show "changed h i (slot s i) None c (Assigned i) Executing s ?s" by (cases "intena s i") (simp_all add: changed_def sched_upd_defs)
    show "legal h i (slot s i) None c (Assigned i) Executing s"
      unfolding legal_def using h i a own run p others sched_invD(2) [OF inv i] by auto
    show "hart_ok ((slot s)(i := slot s i)) ((owner s)(i := None)) h c (Assigned i) Executing"
      using c i run by (auto simp: hart_ok_def holds_def)
  qed
  then show ?thesis using c(1) a by (simp add: resume_def assigned_assign_def good_def s0(3))
qed

lemma good_release:
  assumes inv: "sched_inv s" and h: "h < NCPU" and p: "pc s h = Leaving"
  shows "good (sched_release h s)"
proof -
  note ok = sched_invD(4) [OF inv h]
  obtain i where a: "ASSIGNED s h = Switching i" and d: "depth_of_disable (harts s h) = 1" using ok p by (auto simp: hart_ok_def)
  have i: "i < NPROC" and st: "suspended (state (slot s i))" and own: "owner s i = Some h"
    using hart_okD(3,5,8) [OF ok, of i] a p by (simp_all add: holds_def)
  have others: "owner s j \<noteq> Some h" if "j \<noteq> i" for j using sched_invD(5) [OF inv, of j h] that a p by (auto simp: holds_def)
  have nr: "\<not> is_running (state (slot s i))" using st by (cases "state (slot s i)") (auto simp: suspended_def)
  obtain c where c: "unlock_slot h i (set_assigned h ANone s) = Some ((set_hart h c (set_assigned h ANone s))\<lparr>owner := (owner s)(i := None)\<rparr>)"
    "hart_inv c" "tp c = of_nat h" "depth_of_disable c = 0"
    using unlock_slot_owned [of "set_assigned h ANone s" i h] own hart_okD(1,2) [OF ok] d by (auto simp: sched_upd_defs)
  let ?s = "goto h Scheduling ((set_hart h c (set_assigned h ANone s))\<lparr>owner := (owner s)(i := None)\<rparr>)"
  have "sched_inv ?s"
  proof (rule sched_inv_changed [OF inv])
    show "changed h i (slot s i) None c ANone Scheduling s ?s" by (simp add: changed_def sched_upd_defs)
    show "legal h i (slot s i) None c ANone Scheduling s"
      unfolding legal_def using h i a own nr p others sched_invD(2) [OF inv i] by auto
    show "hart_ok ((slot s)(i := slot s i)) ((owner s)(i := None)) h c ANone Scheduling"
      using c by (auto simp: hart_ok_def holds_def)
  qed
  then show ?thesis using c(1) a by (simp add: sched_release_def assigned_release_def good_def)
qed

text \<open>The common last part of \<open>sleep\<close>, \<open>pause\<close> and \<open>exit\<close>.\<close>

lemma good_return_to_scheduler:
  assumes inv: "sched_inv s" and h: "h < NCPU" "pc s h = Executing" and a: "ASSIGNED s h = Assigned i" and i: "i < NPROC"
    and q: "suspended (state q)" "\<not> is_unused (state q)" "pid q = pid (slot s i)" "pid (slot s i) = 1 \<longrightarrow> \<not> is_zombie (state q)"
    and c: "hart_inv c" "tp c = of_nat h" "depth_of_disable c = 1" "\<not> is_enabled c"
    and ch: "changed h i q (Some h) c (ASSIGNED s h) (pc s h) s s1"
  shows "good (return_to_scheduler h i s1)"
proof -
  let ?s = "goto h Leaving ((assigned_switch h i s1)\<lparr>intena := (intena s1)(i := Some (is_enabled_before (harts s1 h)))\<rparr>)"
  have sl: "slot s1 i = q" using changed_slot [OF ch sched_invD(1) [OF inv] i] by (simp add: fun_eq_iff)
  have nr: "\<not> is_running (state q)" "process_context q \<noteq> None" "state q \<noteq> Invalid" "state q \<noteq> Used"
    using q(1) by (cases "state q"; simp add: suspended_def process_context_def)+
  have hs: "harts s1 h = c" using ch by (simp add: changed_def)
  have run: "is_running (state (slot s i))" using hart_okD(4) [OF sched_invD(4) [OF inv h(1)], of i] a h(2) by simp
  have "sched_inv ?s"
  proof (rule sched_inv_changed [OF inv])
    show "changed h i q (Some h) c (Switching i) Leaving s ?s" using ch by (simp add: changed_def sched_upd_defs assigned_switch_def)
    show "legal h i q (Some h) c (Switching i) Leaving s"
      unfolding legal_def using h i a q nr running_owner [OF inv h(1) a] run not_holding_owner [OF inv executing_free [OF inv h]]
      by (auto simp: holds_def)
    show "hart_ok ((slot s)(i := q)) ((owner s)(i := Some h)) h c (Switching i) Leaving"
      using c i q by (auto simp: hart_ok_def holds_def)
  qed
  moreover have "get_state c = Some ()" using c h(1) hart_number [OF h(1)] by (simp add: get_state_iff)
  ultimately show ?thesis using nr c sl hs by (auto simp: return_to_scheduler_def good_def assigned_switch_def sched_upd_defs)
qed

lemma unlock_guard_Some:
  assumes "hart_inv (harts s h)" "depth_of_disable (harts s h) = Suc (Suc d)"
  obtains c where "unlock_guard h s = Some (set_hart h c s)" "hart_inv c" "tp c = tp (harts s h)" "depth_of_disable c = Suc d" "\<not> is_enabled c"
proof -
  obtain c where c: "pop_off (harts s h) = Some c" using pop_off_Some [OF assms(1)] assms(2) by auto
  note f = pop_off_facts [OF c]
  have "\<not> is_enabled c" using f assms(2) by (simp add: hart_inv_def)
  then show ?thesis using that [of c] c f assms by (simp add: unlock_guard_def)
qed

lemma running_cases:
  assumes inv: "sched_inv s" and h: "h < NCPU" "pc s h = Executing"
  obtains i x where "ASSIGNED s h = Assigned i" "i < NPROC" "state (slot s i) = Running x"
  using executing_assigned [OF inv h(1)] h(2) by (metis is_running.elims(2))

lemma safe_sleep:
  assumes inv: "sched_inv s" and c: "can (SleepOn h token) s"
  shows "safe (proc_sleep h token s)"
proof -
  have h: "h < NCPU" "pc s h = Executing" and d: "depth_of_disable (harts s h) = 1" using c by simp_all
  obtain i x where a: "ASSIGNED s h = Assigned i" and i: "i < NPROC" and x: "state (slot s i) = Running x" using running_cases [OF inv h] .
  have "safe (locked h i (\<lambda>s. do {
       s \<leftarrow> unlock_guard h s;
       case ps_sleep token (state (slot s i)) of (st, r) \<Rightarrow> do {
         _ \<leftarrow> unwrap r;
         return_to_scheduler h i (set_slot i (\<lambda>p. p\<lparr>state := st\<rparr>) s) } }) s)"
  proof (rule safe_locked [OF inv h(1) executing_free [OF inv h]])
    fix c assume c: "owner s i = None" "hart_inv c" "tp c = of_nat h" "depth_of_disable c = Suc (depth_of_disable (harts s h))" "\<not> is_enabled c"
    obtain c' where c': "unlock_guard h (taken h i c s) = Some (set_hart h c' (taken h i c s))" "hart_inv c'" "tp c' = of_nat h" "depth_of_disable c' = 1" "\<not> is_enabled c'"
      using unlock_guard_Some [of "taken h i c s" h 0] c d by (auto simp: set_hart_def)
    let ?q = "(slot s i)\<lparr>state := Sleeping x token\<rparr>"
    have ch: "changed h i ?q (Some h) c' (ASSIGNED s h) (pc s h) s (set_slot i (\<lambda>p. p\<lparr>state := Sleeping x token\<rparr>) (set_hart h c' (taken h i c s)))"
      by (simp add: changed_def sched_upd_defs upd_proc_def)
    have "ptab (set_hart h c' (taken h i c s)) = ptab s" by (simp add: set_hart_def)
    with good_return_to_scheduler [OF inv h a i _ _ _ _ c'(2-5) ch] c' x
    show "good (do {
       s \<leftarrow> unlock_guard h (taken h i c s);
       case ps_sleep token (state (slot s i)) of (st, r) \<Rightarrow> do {
         _ \<leftarrow> unwrap r;
         return_to_scheduler h i (set_slot i (\<lambda>p. p\<lparr>state := st\<rparr>) s) } })" by (simp add: ps_defs suspended_def)
  qed
  then show ?thesis using a by (simp add: proc_sleep_def)
qed

lemma safe_pause:
  assumes inv: "sched_inv s" and c: "can (Pause h) s"
  shows "safe (proc_pause h s)"
proof -
  have h: "h < NCPU" "pc s h = Executing" and d: "depth_of_disable (harts s h) = 0" using c by simp_all
  obtain i x where a: "ASSIGNED s h = Assigned i" and i: "i < NPROC" and x: "state (slot s i) = Running x" using running_cases [OF inv h] .
  have "safe (locked h i (\<lambda>s.
       case ps_pause (state (slot s i)) of (st, r) \<Rightarrow> do {
         _ \<leftarrow> unwrap r;
         return_to_scheduler h i (set_slot i (\<lambda>p. p\<lparr>state := st\<rparr>) s) }) s)"
  proof (rule safe_locked [OF inv h(1) executing_free [OF inv h]])
    fix c assume c: "owner s i = None" "hart_inv c" "tp c = of_nat h" "depth_of_disable c = Suc (depth_of_disable (harts s h))" "\<not> is_enabled c"
    show "good (case ps_pause (state (slot (taken h i c s) i)) of (st, r) \<Rightarrow> do {
         _ \<leftarrow> unwrap r;
         return_to_scheduler h i (set_slot i (\<lambda>p. p\<lparr>state := st\<rparr>) (taken h i c s)) })"
      using good_return_to_scheduler [OF inv h a i _ _ _ _ c(2,3) _ c(5) changed_taken [of h i "\<lambda>p. p\<lparr>state := Runnable x\<rparr>"]] c d x
      by (simp add: ps_defs suspended_def)
  qed
  then show ?thesis using a by (simp add: proc_pause_def)
qed

lemma safe_die:
  assumes inv: "sched_inv s" and c: "can (Die h status) s" and a: "ASSIGNED s h = Assigned i" and p: "pid (slot s i) \<noteq> 1"
  shows "safe (exit_die h status s)"
proof -
  have h: "h < NCPU" "pc s h = Executing" and d: "depth_of_disable (harts s h) = 1" using c by simp_all
  obtain x where i: "i < NPROC" and x: "state (slot s i) = Running x" using running_cases [OF inv h] a by auto
  have "safe (locked h i (\<lambda>s.
       case ps_die status (state (slot s i)) of (st, r) \<Rightarrow> do {
         _ \<leftarrow> unwrap r;
         s \<leftarrow> unlock_guard h (set_slot i (\<lambda>p. p\<lparr>state := st\<rparr>) s);
         return_to_scheduler h i s }) s)"
  proof (rule safe_locked [OF inv h(1) executing_free [OF inv h]])
    fix c assume c: "owner s i = None" "hart_inv c" "tp c = of_nat h" "depth_of_disable c = Suc (depth_of_disable (harts s h))" "\<not> is_enabled c"
    let ?s1 = "set_slot i (\<lambda>p. p\<lparr>state := Zombie x status\<rparr>) (taken h i c s)"
    obtain c' where c': "unlock_guard h ?s1 = Some (set_hart h c' ?s1)" "hart_inv c'" "tp c' = of_nat h" "depth_of_disable c' = 1" "\<not> is_enabled c'"
      using unlock_guard_Some [of ?s1 h 0] c d by (auto simp: sched_upd_defs)
    have ch: "changed h i ((slot s i)\<lparr>state := Zombie x status\<rparr>) (Some h) c' (ASSIGNED s h) (pc s h) s (set_hart h c' ?s1)"
      by (simp add: changed_def sched_upd_defs upd_proc_def)
    from good_return_to_scheduler [OF inv h a i _ _ _ _ c'(2-5) ch] c' x p
    show "good (case ps_die status (state (slot (taken h i c s) i)) of (st, r) \<Rightarrow> do {
         _ \<leftarrow> unwrap r;
         s \<leftarrow> unlock_guard h (set_slot i (\<lambda>p. p\<lparr>state := st\<rparr>) (taken h i c s));
         return_to_scheduler h i s })" by (simp add: ps_defs suspended_def)
  qed
  then show ?thesis using a by (simp add: exit_die_def)
qed

subsection \<open>Forking\<close>

lemma forking_facts:
  assumes inv: "sched_inv s" and h: "h < NCPU" and m: "making (pc s h) = Some j"
  shows "j < NPROC" "state (slot s j) = Used"
  using hart_okD(6,7) [OF sched_invD(4) [OF inv h] m] by simp_all

text \<open>The hart moves on in \<open>fork\<close>, from \<open>pc s h\<close> to \<open>p\<close>, with the lock of the slot free afterwards.\<close>

lemma sched_inv_forking:
  assumes inv: "sched_inv s" and h: "h < NCPU" and m: "making (pc s h) = Some j" and own: "owner s j = Some h \<or> owner s j = w" "w \<noteq> Some h"
    and p: "p = Executing \<or> (\<exists>c. p = Cloned j c) \<or> (\<exists>c. p = Linked j c)"
    and q: "state q = Used \<or> is_runnable (state q) \<and> p = Executing \<and> owner s j = None" "pid q = pid (slot s j)"
    and c: "hart_inv c" "tp c = of_nat h" and ch: "changed h j q w c (ASSIGNED s h) p s s'"
    and w: "owner s j = Some h \<longrightarrow> w = None"
  shows "sched_inv s'"
proof -
  note jf = forking_facts [OF inv h m]
  obtain i where a: "ASSIGNED s h = Assigned i" and i: "i < NPROC" "is_running (state (slot s i))"
    using executing_assigned [OF inv h] m by auto
  have others: "owner s k \<noteq> Some h" if "k \<noteq> j" for k using sched_invD(5) [OF inv, of k h] that a m by (auto simp: holds_def)
  have qs: "state q \<noteq> Invalid" "\<not> is_unused (state q)" "\<not> is_running (state q)" "\<not> is_zombie (state q)" using q(1) by (cases "state q"; auto)+
  have ij: "i \<noteq> j" using i(2) jf(2) by auto
  show ?thesis
  proof (rule sched_inv_changed [OF inv _ ch])
    show "legal h j q w c (ASSIGNED s h) p s"
      unfolding legal_def using h jf a m own p q qs others w ij by (auto simp: holds_def split: if_splits)
    show "hart_ok ((slot s)(j := q)) ((owner s)(j := w)) h c (ASSIGNED s h) p"
      using c i a ij p q jf by (auto simp: hart_ok_def holds_def)
  qed
qed

lemma good_fork_unlock:
  assumes inv: "sched_inv s" and h: "h < NCPU" and p: "pc s h = Forking j" and p': "p' = Executing \<or> p' = Cloned j x"
    and g: "state (g (slot s j)) = state (slot s j)" "pid (g (slot s j)) = pid (slot s j)"
  shows "good (do { s \<leftarrow> unlock_slot h j (set_slot j g s); Some (goto h p' s) })"
proof -
  note ok = sched_invD(4) [OF inv h]
  have m: "making (pc s h) = Some j" using p by simp
  have own: "owner s j = Some h" using hart_okD(8) [OF ok, of j] p by (simp add: holds_def)
  have d: "0 < depth_of_disable (harts s h)" using ok p by (simp add: hart_ok_def)
  let ?s1 = "set_slot j g s"
  obtain c where c: "unlock_slot h j ?s1 = Some ((set_hart h c ?s1)\<lparr>owner := (owner s)(j := None)\<rparr>)" "hart_inv c" "tp c = of_nat h"
    using unlock_slot_owned [of ?s1 j h] own d hart_okD(1,2) [OF ok] by (auto simp: set_slot_def)
  let ?s = "goto h p' ((set_hart h c ?s1)\<lparr>owner := (owner s)(j := None)\<rparr>)"
  have ch: "changed h j (g (slot s j)) None c (ASSIGNED s h) p' s ?s"
    by (simp add: changed_def sched_upd_defs upd_proc_def)
  have "sched_inv ?s"
    using sched_inv_forking [OF inv h m _ _ _ _ _ c(2,3) ch] own p' g forking_facts(2) [OF inv h m] by auto
  then show ?thesis using c(1) by (simp add: good_def)
qed

lemma good_fork_failed: "sched_inv s \<Longrightarrow> h < NCPU \<Longrightarrow> pc s h = Forking j \<Longrightarrow> good (fork_failed h j s)"
  using good_fork_unlock [where g = "\<lambda>p. p" and p' = Executing] by (simp add: fork_failed_def)

lemma good_fork_cloned:
  assumes inv: "sched_inv s" and h: "h < NCPU" and p: "pc s h = Forking j"
  shows "good (fork_cloned h j x s)"
proof -
  obtain i where "ASSIGNED s h = Assigned i" using executing_assigned [OF inv h] p by auto
  with good_fork_unlock [OF inv h p, of "Cloned j x" x "\<lambda>p. p\<lparr>pname := pname (slot s i)\<rparr>"]
  show ?thesis by (simp add: fork_cloned_def)
qed

lemma good_fork_link:
  assumes inv: "sched_inv s" and h: "h < NCPU" and p: "pc s h = Cloned j x"
  shows "good (fork_link h j x s)"
proof -
  obtain i where a: "ASSIGNED s h = Assigned i" using executing_assigned [OF inv h] p by auto
  have m: "making (pc s h) = Some j" using p by simp
  have own: "owner s j \<noteq> Some h" using sched_invD(5) [OF inv, of j h] a p by (auto simp: holds_def)
  let ?s = "goto h (Linked j x) (set_slot j (\<lambda>p. p\<lparr>parent := Some i\<rparr>) s)"
  have ch: "changed h j ((slot s j)\<lparr>parent := Some i\<rparr>) (owner s j) (harts s h) (ASSIGNED s h) (Linked j x) s ?s"
    by (simp add: changed_def sched_upd_defs upd_proc_def)
  have "sched_inv ?s"
    using sched_inv_forking [OF inv h m _ own _ _ _ hart_okD(1,2) [OF sched_invD(4) [OF inv h]] ch] own forking_facts(2) [OF inv h m] by auto
  then show ?thesis using a by (simp add: fork_link_def good_def)
qed

lemma safe_fork_setup:
  assumes inv: "sched_inv s" and h: "h < NCPU" and p: "pc s h = Linked j x"
  shows "safe (fork_setup h j x s)"
  unfolding fork_setup_def
proof (rule safe_locked [OF inv h])
  have m: "making (pc s h) = Some j" using p by simp
  note used = forking_facts(2) [OF inv h m]
  show "\<not> holds (ASSIGNED s h) (pc s h) j" using executing_not_holding [OF inv h] p by blast
  fix c assume c: "owner s j = None" "hart_inv c" "tp c = of_nat h" "depth_of_disable c = Suc (depth_of_disable (harts s h))" "\<not> is_enabled c"
  let ?s1 = "set_slot j (\<lambda>p. p\<lparr>state := Runnable x\<rparr>) ((taken h j c s)\<lparr>intena := (intena s)(j := None)\<rparr>)"
  obtain c' where c': "unlock_slot h j ?s1 = Some ((set_hart h c' ?s1)\<lparr>owner := (owner ?s1)(j := None)\<rparr>)" "hart_inv c'" "tp c' = of_nat h"
    using unlock_slot_owned [of ?s1 j h] c by (auto simp: sched_upd_defs)
  let ?s = "goto h Executing ((set_hart h c' ?s1)\<lparr>owner := (owner ?s1)(j := None)\<rparr>)"
  have ch: "changed h j ((slot s j)\<lparr>state := Runnable x\<rparr>) None c' (ASSIGNED s h) Executing s ?s"
    by (simp add: changed_def sched_upd_defs upd_proc_def)
  have "sched_inv ?s" using sched_inv_forking [OF inv h m _ _ _ _ _ c'(2,3) ch] c by auto
  then show "good (case ps_setup x (state (slot (taken h j c s) j)) of (st, r) \<Rightarrow> do {
       _ \<leftarrow> unwrap r;
       s \<leftarrow> unlock_slot h j (set_slot j (\<lambda>p. p\<lparr>state := st\<rparr>) ((taken h j c s)\<lparr>intena := (intena (taken h j c s))(j := None)\<rparr>));
       Some (goto h Executing s) })"
    using c'(1) used by (simp add: ps_defs good_def set_hart_def)
qed

subsection \<open>All interleavings\<close>

text \<open>The one panic: the initial process, whose number is 1, must not exit.\<close>

fun init_exits :: "'c action \<Rightarrow> 'c sched \<Rightarrow> bool" where
  "init_exits (ExitCheck h) s = (\<exists>i. ASSIGNED s h = Assigned i \<and> pid (slot s i) = 1)"
| "init_exits (Die h _) s = (\<exists>i. ASSIGNED s h = Assigned i \<and> pid (slot s i) = 1)"
| "init_exits _ _ = False"

lemma exit_check_outcome:
  assumes inv: "sched_inv s" and h: "h < NCPU" "pc s h = Executing"
  obtains i where "ASSIGNED s h = Assigned i" "exit_check h s = (if pid (slot s i) = 1 then None else Some ())"
proof -
  obtain i x where "ASSIGNED s h = Assigned i" "state (slot s i) = Running x" using running_cases [OF inv h] .
  then show ?thesis using that [of i] by (simp add: exit_check_def process_context_def)
qed

lemma act_safe:
  assumes inv: "sched_inv s" and c: "can a s"
  shows "if init_exits a s then act a s = None else safe (act a s)"
proof (cases a)
  case (ExitCheck h)
  then obtain i where "ASSIGNED s h = Assigned i" "exit_check h s = (if pid (slot s i) = 1 then None else Some ())"
    using exit_check_outcome [OF inv] c by auto
  then show ?thesis using ExitCheck inv by simp
next
  case (Die h status)
  then obtain i where i: "ASSIGNED s h = Assigned i" "exit_check h s = (if pid (slot s i) = 1 then None else Some ())"
    using exit_check_outcome [OF inv] c by auto
  then show ?thesis using Die safe_die [OF inv _ i(1)] c by simp
next
  case (EnableInterrupt h)
  then have "hart_ok (slot s) (owner s) h (enable_interrupt (harts s h)) (ASSIGNED s h) (pc s h)"
    using c sched_invD(4) [OF inv, of h] by (auto simp: hart_ok_def hart_inv_def)
  with EnableInterrupt c sched_inv_set_hart [OF inv] show ?thesis by simp
next
  case (Other h x)
  then have "hart_ok (slot s) (owner s) h x (ASSIGNED s h) (pc s h)"
    using c sched_invD(4) [OF inv, of h] by (auto simp: hart_ok_def)
  with Other c sched_inv_set_hart [OF inv] show ?thesis by simp
qed (use c inv in \<open>auto simp: safe_dispatch good_resume good_release safe_sleep safe_pause good_reparent safe_wakeup safe_kill safe_set_killed
  safe_fork_allocate good_fork_failed good_fork_cloned good_fork_link safe_fork_setup safe_wait good_set_context split: pc.splits\<close>)

lemma ptable_new_sel: "length (procs ptable_new) = NPROC" "i < NPROC \<Longrightarrow> procs ptable_new ! i = process_unused" "next_pid ptable_new = 1"
  by (simp_all add: ptable_new_def)

lemma setup_init_process_spec:
  fixes c :: 'c
  shows "setup_init_process c ptable_new = Some ((upd_proc 0 (\<lambda>p. p\<lparr>state := Runnable c, pid := 1\<rparr>) ptable_new)\<lparr>next_pid := 2\<rparr>)"
proof -
  have z: "0 < NPROC" by (simp add: NPROC_def)
  let ?t = "ptable_new :: 'c ptable"
  have find0: "find (\<lambda>i. is_unused (state (procs ?t ! i))) [0..<length (procs ?t)] = Some 0"
    using z by (intro find_upt_SomeI) (simp_all add: ptable_new_sel process_unused_def)
  have "is_unused (state (procs ?t ! 0))" using z by (simp add: ptable_new_sel process_unused_def)
  from allocate_slot_spec [OF this]
  have "allocate_process ?t = Some (Some 0, (upd_proc 0 (\<lambda>p. p\<lparr>state := Used, pid := 1\<rparr>) ptable_new)\<lparr>next_pid := 2\<rparr>)"
    unfolding allocate_process_def find0 by (simp add: ptable_new_sel(3))
  then show ?thesis using z by (simp add: setup_init_process_def upd_proc_def) (simp add: ptable_new_def process_unused_def)
qed

lemma sched_reach_inv: "sched_reach c s \<Longrightarrow> sched_inv s"
proof (induction rule: sched_reach.induct)
  case (boot t)
  have "hart_ok f own h (boot_hart h) ANone Scheduling" if "h < NCPU" for f :: "nat \<Rightarrow> 'a process" and own h
    using that hart_number [OF that] by (auto simp: hart_ok_def holds_def hart_inv_def boot_hart_def is_enabled_def)
  moreover have "length (procs t) = NPROC" "0 < NPROC"
    "\<And>i. i < NPROC \<Longrightarrow> procs t ! i = (if i = 0 then process_unused\<lparr>state := Runnable c, pid := 1\<rparr> else process_unused)"
    using boot unfolding setup_init_process_spec by (auto simp: ptable_new_sel NPROC_def)
  ultimately show ?case by (auto simp: sched_inv_def process_unused_def intro!: exI [of _ 0])
next
  case (step s a s')
  then show ?case using act_safe [OF step.IH step.hyps(2)] by (auto simp: safe_def split: if_splits)
qed

text \<open>
  C2. In every state that any interleaving of the harts can reach, no two harts are on the same process; a process is
  in state \<open>Running\<close> exactly when some hart is on it that has not left it yet; and none of the \<open>unwrap\<close>s, \<open>assert\<close>s and
  \<open>panic\<close>s of the scheduler, of \<open>sleep\<close>, \<open>pause\<close>, \<open>exit\<close>, \<open>wakeup\<close>, \<open>kill\<close>, \<open>fork\<close> and \<open>wait\<close> fires, except the assertion
  that the initial process does not exit.
\<close>

theorem scheduling_safe:
  assumes "sched_reach c s"
  shows "(\<forall>h<NCPU. \<forall>h'<NCPU. slot_of (ASSIGNED s h) = slot_of (ASSIGNED s h') \<and> slot_of (ASSIGNED s h) \<noteq> None \<longrightarrow> h = h') \<and>
    (\<forall>i<NPROC. is_running (state (slot s i)) \<longleftrightarrow> (\<exists>h<NCPU. slot_of (ASSIGNED s h) = Some i \<and> pc s h \<noteq> Leaving)) \<and>
    (\<forall>a. can a s \<longrightarrow> (act a s = None \<longleftrightarrow> init_exits a s))"
proof -
  note inv = sched_reach_inv [OF assms]
  have "is_running (state (slot s i)) \<longleftrightarrow> (\<exists>h<NCPU. slot_of (ASSIGNED s h) = Some i \<and> pc s h \<noteq> Leaving)" if "i < NPROC" for i
    using sched_invD(8) [OF inv that] hart_okD(4) [OF sched_invD(4) [OF inv]] by blast
  moreover have "act a s = None \<longleftrightarrow> init_exits a s" if "can a s" for a
    using act_safe [OF inv that] by (auto simp: safe_def split: if_splits)
  ultimately show ?thesis using sched_invD(6) [OF inv] by fastforce
qed

definition sched_boot :: "'c \<Rightarrow> 'c sched" where
  "sched_boot c = \<lparr>ptab = (upd_proc 0 (\<lambda>p. p\<lparr>state := Runnable c, pid := 1\<rparr>) ptable_new)\<lparr>next_pid := 2\<rparr>,
     owner = (\<lambda>_. None), harts = boot_hart, ASSIGNED = (\<lambda>_. ANone), pc = (\<lambda>_. Scheduling), intena = (\<lambda>_. None)\<rparr>"

lemma sched_reach_boot: "sched_reach c (sched_boot c)"
  unfolding sched_boot_def by (rule sched_reach.boot) (rule setup_init_process_spec)

theorem scheduling_safe_witness:
  "sched_reach () (sched_boot ()) \<and> can (Dispatch 3 0) (sched_boot ()) \<and> act (Dispatch 3 0) (sched_boot ()) \<noteq> None"
proof -
  have "can (Dispatch 3 0) (sched_boot ())" by (simp add: sched_boot_def config_defs)
  moreover have "\<not> init_exits (Dispatch 3 0) (sched_boot ())" by simp
  ultimately show ?thesis
    using scheduling_safe [OF sched_reach_boot [of "()"], THEN conjunct2, THEN conjunct2, THEN spec, of "Dispatch 3 0"] sched_reach_boot by simp
qed

text \<open>
  C19. When \<open>wait\<close> frees a slot, the slot held a zombie, it is a child of the caller, and no hart is on the process: the hart
  that ran it has let go of its kernel stack and of its page table before they are freed.
\<close>

theorem reap_safe:
  assumes "sched_reach c s" "can (WaitOne h j stored) s" "act (WaitOne h j stored) s = Some (Acquired s')"
    "is_unused (state (slot s' j))" "\<not> is_unused (state (slot s j))"
  shows "is_zombie (state (slot s j)) \<and> parent (slot s j) = assigned_get (ASSIGNED s h) \<and> (\<forall>h'<NCPU. slot_of (ASSIGNED s h') \<noteq> Some j)"
proof -
  note inv = sched_reach_inv [OF assms(1)]
  have h: "h < NCPU" "pc s h = Executing" and j: "j < NPROC" using assms(2) by simp_all
  obtain i where a: "ASSIGNED s h = Assigned i" using executing_assigned [OF inv h(1)] h(2) by blast
  have par: "parent (slot s j) = Some i" using assms(3-5) a by (auto simp: wait_one_def split: if_splits)
  have own: "owner s j = None"
  proof (rule ccontr)
    assume "owner s j \<noteq> None"
    then have "lock_slot h j s = Some Spin"
      using lock_slot_busy [OF h(1) sched_invD(4) [OF inv h(1)]] not_holding_owner [OF inv executing_free [OF inv h]] by blast
    then show False using assms(3) a par by (simp add: wait_one_def locked_def)
  qed
  have z: "is_zombie (state (slot s j))"
  proof (rule ccontr)
    assume "\<not> is_zombie (state (slot s j))"
    moreover obtain x where "lock_slot h j s = Some (Acquired (taken h j x s))"
      using lock_slot_free [OF h(1) sched_invD(4) [OF inv h(1)] own] by blast
    ultimately have "unlock_slot h j (taken h j x s) = Some s'" using assms(3) a par by (auto simp: wait_one_def locked_def kernel_simps)
    then have "slot s' j = slot s j" by (auto simp: unlock_slot_def sched_upd_defs kernel_simps)
    then show False using assms(4,5) by simp
  qed
  have "slot_of (ASSIGNED s h') \<noteq> Some j" if h': "h' < NCPU" for h'
  proof
    assume sl: "slot_of (ASSIGNED s h') = Some j"
    show False
    proof (cases "pc s h' = Leaving")
      case True then show False using hart_okD(8,9) [OF sched_invD(4) [OF inv h']] sl own by (auto simp: holds_def)
    next
      case False then show False using hart_okD(4) [OF sched_invD(4) [OF inv h'] sl] z by (cases "state (slot s j)") auto
    qed
  qed
  then show ?thesis using z par a by simp
qed

text \<open>A run: the initial process forks a child, which exits on another hart.\<close>

fun run_actions :: "'c action list \<Rightarrow> 'c sched \<Rightarrow> 'c sched option" where
  "run_actions [] s = Some s"
| "run_actions (a # as) s = (if can a s then (case act a s of Some (Acquired s') \<Rightarrow> run_actions as s' | _ \<Rightarrow> None) else None)"

lemma sched_reach_run: "sched_reach c s \<Longrightarrow> run_actions as s = Some s' \<Longrightarrow> sched_reach c s'"
  by (induction as arbitrary: s) (auto split: if_splits option.splits acquired.splits intro: sched_reach.step)

definition child_exits :: "unit action list" where
  "child_exits = [Dispatch 0 0, Resume 0, ForkAllocate 0 1, ForkCloned 0 (), ForkLink 0, ForkSetup 0, Dispatch 1 1, Resume 1,
     Other 1 \<lparr>sstatus = 0, tp = 1, depth_of_disable = 1, is_enabled_before = False\<rparr>, Die 1 7, Release 1]"

lemma child_exits_run:
  "case run_actions child_exits (sched_boot ()) of None \<Rightarrow> False | Some s \<Rightarrow>
     can (WaitOne 0 1 None) s \<and> \<not> is_unused (state (slot s 1)) \<and>
     (case act (WaitOne 0 1 None) s of Some (Acquired s') \<Rightarrow> is_unused (state (slot s' 1)) | _ \<Rightarrow> False)"
  by code_simp

theorem reap_safe_witness:
  "\<exists>s s'. run_actions child_exits (sched_boot ()) = Some s \<and> act (WaitOne 0 1 None) s = Some (Acquired s') \<and> is_unused (state (slot s' 1)) \<and>
     is_zombie (state (slot s 1)) \<and> (\<forall>h'<NCPU. slot_of (ASSIGNED s h') \<noteq> Some 1)"
proof -
  obtain s s' where s: "run_actions child_exits (sched_boot ()) = Some s" "can (WaitOne 0 1 None) s" "\<not> is_unused (state (slot s 1))"
    "act (WaitOne 0 1 None) s = Some (Acquired s')" "is_unused (state (slot s' 1))"
    using child_exits_run by (auto split: option.splits acquired.splits)
  from reap_safe [OF sched_reach_run [OF sched_reach_boot s(1)] s(2,4,5,3)] s show ?thesis by blast
qed

end
