(* ===== verification/Fs_Layout.thy ===== *)
theory Fs_Layout
  imports Log Bitmap
begin

text \<open>
  What is on the disk: inodes (src/kernel/src/filesystem/inode.rs), directory entries
  (src/kernel/src/filesystem/directory_entry.rs), the superblock's arithmetic
  (src/kernel/src/filesystem/superblock.rs), and the allocation of blocks and inodes
  (\<open>allocate_block\<close>, \<open>deallocate_block\<close>, \<open>allocate_inode\<close> of src/kernel/src/fs.rs).

  The file system sees the disk through the buffer cache and the log, whose theories show that a block read back is the
  block last stored and that a transaction is atomic. Here the disk is therefore a map from block numbers to
  the contents of their buffers. \<open>logged\<close> records the calls of \<open>log::write\<close>
  and where \<open>log::with\<close> starts and ends a transaction, and \<open>no_buffer\<close> the blocks for
  which \<open>buffer::with_read\<close> finds no buffer and returns \<open>None\<close>.
\<close>

definition BITMAP_BITS :: nat where "BITMAP_BITS = BSIZE * 8"
definition INODE_SIZE :: nat where "INODE_SIZE = 64"
definition INODES_PER_BLOCK :: nat where "INODES_PER_BLOCK = BSIZE div INODE_SIZE"
definition ROOTINO :: nat where "ROOTINO = 1"
definition ROOTDEV :: nat where "ROOTDEV = 1"
definition NDIRECT :: nat where "NDIRECT = 12"
definition NINDIRECT :: nat where "NINDIRECT = BSIZE div 4"
definition MAXFILE :: nat where "MAXFILE = NDIRECT + NINDIRECT"
definition FSMAGIC :: u32 where "FSMAGIC = 0x10203040"

lemmas fs_consts = BITMAP_BITS_def INODE_SIZE_def INODES_PER_BLOCK_def NDIRECT_def NINDIRECT_def MAXFILE_def BSIZE_def

subsection \<open>Inodes\<close>

datatype inode_kind = KUnused | KDirectory | KFile | KDevice

fun kind_code :: "inode_kind \<Rightarrow> u16" where
  "kind_code KUnused = 0"
| "kind_code KDirectory = 1"
| "kind_code KFile = 2"
| "kind_code KDevice = 3"

text \<open>A field of the enum type with another value is undefined behaviour: no decoding.\<close>

definition code_kind :: "u16 \<Rightarrow> inode_kind option" where
  "code_kind w = (if w = 0 then Some KUnused else if w = 1 then Some KDirectory else if w = 2 then Some KFile
     else if w = 3 then Some KDevice else None)"

record dinode =
  kind :: inode_kind
  major :: u16
  minor :: u16
  nlink :: u16
  isize :: u32
  addrs :: "u32 list"
  chain :: u32

definition inode_zeroed :: dinode where
  "inode_zeroed = \<lparr>kind = KUnused, major = 0, minor = 0, nlink = 0, isize = 0, addrs = replicate NDIRECT 0, chain = 0\<rparr>"

text \<open>The layout of \<open>repr(C)\<close>: the fields in order, each aligned already.\<close>

definition encode_inode :: "dinode \<Rightarrow> u8 list" where
  "encode_inode i = to_le 2 (kind_code (kind i)) @ to_le 2 (major i) @ to_le 2 (minor i) @ to_le 2 (nlink i) @
     to_le 4 (isize i) @ concat (map (to_le 4) (addrs i)) @ to_le 4 (chain i)"

definition decode_inode :: "u8 list \<Rightarrow> dinode option" where
  "decode_inode bs = do {
     k \<leftarrow> code_kind (of_le (subrange 0 2 bs));
     Some \<lparr>kind = k, major = of_le (subrange 2 2 bs), minor = of_le (subrange 4 2 bs), nlink = of_le (subrange 6 2 bs),
       isize = of_le (subrange 8 4 bs), addrs = map (\<lambda>j. of_le (subrange (12 + 4 * j) 4 bs)) [0..<NDIRECT],
       chain = of_le (subrange 60 4 bs)\<rparr> }"

text \<open>An entry of a block that is an array of inodes, or of an array of 32-bit block numbers.\<close>

definition inode_in :: "nat \<Rightarrow> block \<Rightarrow> dinode option" where
  "inode_in k x = decode_inode (subrange (INODE_SIZE * k) INODE_SIZE x)"

definition put_inode :: "nat \<Rightarrow> dinode \<Rightarrow> block \<Rightarrow> block" where
  "put_inode k i x = overwrite (INODE_SIZE * k) (encode_inode i) x"

definition u32_in :: "nat \<Rightarrow> block \<Rightarrow> u32" where
  "u32_in k x = of_le (subrange (4 * k) 4 x)"

definition put_u32 :: "nat \<Rightarrow> u32 \<Rightarrow> block \<Rightarrow> block" where
  "put_u32 k w x = overwrite (4 * k) (to_le 4 w) x"

subsection \<open>Directory entries\<close>

definition NAME_LENGTH :: nat where "NAME_LENGTH = 14"
definition DIRENT_SIZE :: nat where "DIRENT_SIZE = 16"

record dirent =
  d_inum :: u16
  d_name :: "u8 list"

definition dirent_unused :: dirent where
  "dirent_unused = \<lparr>d_inum = 0, d_name = replicate NAME_LENGTH 0\<rparr>"

definition dirent_new :: "nat \<Rightarrow> u8 list \<Rightarrow> dirent" where
  "dirent_new inum name = (let len = min (length name) NAME_LENGTH in
     \<lparr>d_inum = of_nat inum, d_name = overwrite 0 (take len name) (replicate NAME_LENGTH 0)\<rparr>)"

definition dirent_inode_number :: "dirent \<Rightarrow> nat" where
  "dirent_inode_number e = unat (d_inum e)"

definition dirent_is :: "dirent \<Rightarrow> u8 list \<Rightarrow> bool" where
  "dirent_is e name = (let len = min (length name) NAME_LENGTH in take len (d_name e) = take len name)"

definition encode_dirent :: "dirent \<Rightarrow> u8 list" where
  "encode_dirent e = to_le 2 (d_inum e) @ d_name e"

definition decode_dirent :: "u8 list \<Rightarrow> dirent" where
  "decode_dirent bs = \<lparr>d_inum = of_le (subrange 0 2 bs), d_name = subrange 2 NAME_LENGTH bs\<rparr>"

subsection \<open>The superblock\<close>

definition inode_block_at :: "superblock \<Rightarrow> nat \<Rightarrow> nat" where
  "inode_block_at sb index = unat (inodestart sb) + index div INODES_PER_BLOCK"

definition bitmap_at :: "superblock \<Rightarrow> nat \<Rightarrow> nat" where
  "bitmap_at sb index = unat (bmapstart sb) + index div BITMAP_BITS"

subsection \<open>The disk as the file system sees it\<close>

datatype log_call = LogStart | LogWrite nat block | LogEnd

record disk_view =
  blk :: "nat \<Rightarrow> block"
  logged :: "log_call list"
  no_buffer :: "nat set"

definition read_block :: "nat \<Rightarrow> disk_view \<Rightarrow> block option" where
  "read_block b d = (if b \<in> no_buffer d then None else Some (blk d b))"

definition store_block :: "nat \<Rightarrow> block \<Rightarrow> disk_view \<Rightarrow> disk_view" where
  "store_block b x d = d\<lparr>blk := (blk d)(b := x)\<rparr>"

definition log_block :: "nat \<Rightarrow> disk_view \<Rightarrow> disk_view" where
  "log_block b d = d\<lparr>logged := logged d @ [LogWrite b (blk d b)]\<rparr>"

definition put_block :: "nat \<Rightarrow> block \<Rightarrow> disk_view \<Rightarrow> disk_view" where
  "put_block b x d = log_block b (store_block b x d)"

subsection \<open>Allocation of blocks\<close>

definition write_zeros_to_block :: "nat \<Rightarrow> disk_view \<Rightarrow> disk_view kernel" where
  "write_zeros_to_block b d = do {
     _ \<leftarrow> read_block b d;
     Some (put_block b (replicate BSIZE 0) d) }"

text \<open>\<open>(lo..hi).step_by(k)\<close>\<close>

definition step_range :: "nat \<Rightarrow> nat \<Rightarrow> nat \<Rightarrow> nat list" where
  "step_range lo hi k = map (\<lambda>j. lo + k * j) [0..<(hi - lo + k - 1) div k]"

fun allocate_block_in :: "superblock \<Rightarrow> nat list \<Rightarrow> disk_view \<Rightarrow> (nat option \<times> disk_view) kernel" where
  "allocate_block_in sb [] d = Some (None, d)"
| "allocate_block_in sb (bi # bis) d = do {
     x \<leftarrow> read_block (bitmap_at sb bi) d;
     (r, bm) \<leftarrow> bitmap_allocate BITMAP_BITS \<lparr>bytes = x\<rparr>;
     (case r of
        Some index \<Rightarrow>
          if bi + index < unat (sb_size sb) then do {
            let d = put_block (bitmap_at sb bi) (bytes bm) d;
            d \<leftarrow> write_zeros_to_block (bi + index) d;
            Some (Some (bi + index), d) }
          else do {
            let (r, bm) = bitmap_deallocate BITMAP_BITS bm index;
            _ \<leftarrow> unwrap r;
            Some (None, store_block (bitmap_at sb bi) (bytes bm) d) }
      | None \<Rightarrow> allocate_block_in sb bis d) }"

definition allocate_block :: "superblock \<Rightarrow> disk_view \<Rightarrow> (nat option \<times> disk_view) kernel" where
  "allocate_block sb d = allocate_block_in sb (step_range 0 (unat (sb_size sb)) BITMAP_BITS) d"

definition deallocate_block :: "superblock \<Rightarrow> nat \<Rightarrow> disk_view \<Rightarrow> disk_view kernel" where
  "deallocate_block sb b d = do {
     x \<leftarrow> read_block (bitmap_at sb b) d;
     let (r, bm) = bitmap_deallocate BITMAP_BITS \<lparr>bytes = x\<rparr> (b mod BITMAP_BITS);
     _ \<leftarrow> unwrap r;
     assertk (bitmap_get BITMAP_BITS bm (b mod BITMAP_BITS) = Some False);
     Some (put_block (bitmap_at sb b) (bytes bm) d) }"

subsection \<open>Allocation of inodes\<close>

fun allocate_inode_in :: "superblock \<Rightarrow> inode_kind \<Rightarrow> nat list \<Rightarrow> disk_view \<Rightarrow> ((nat, unit) result \<times> disk_view) kernel" where
  "allocate_inode_in sb k [] d = Some (Err (), d)"
| "allocate_inode_in sb k (inum # inums) d = do {
     let b = inode_block_at sb inum;
     let j = inum mod INODES_PER_BLOCK;
     x \<leftarrow> read_block b d;
     i \<leftarrow> inode_in j x;
     if kind i = KUnused then Some (Ok inum, put_block b (put_inode j (i\<lparr>kind := k\<rparr>) x) d)
     else allocate_inode_in sb k inums d }"

definition allocate_inode :: "superblock \<Rightarrow> inode_kind \<Rightarrow> disk_view \<Rightarrow> ((nat, unit) result \<times> disk_view) kernel" where
  "allocate_inode sb k d = allocate_inode_in sb k [1..<unat (ninodes sb)] d"

end
