(* ===== verification/Fs_Alloc.thy ===== *)
theory Fs_Alloc
  imports Fs_Layout
begin

text \<open>
  The encodings of inodes and directory entries are exact, and the allocator of blocks is a pool of the blocks
  whose bits are clear: \<open>in_use\<close> is the set of blocks that the bitmap on the disk marks.
\<close>

subsection \<open>Encodings\<close>

lemma code_kind_code [simp]: "code_kind (kind_code k) = Some k"
  by (cases k) (simp_all add: code_kind_def)

lemma length_encode_inode: "length (addrs i) = NDIRECT \<Longrightarrow> length (encode_inode i) = INODE_SIZE"
  by (simp add: encode_inode_def length_concat_to_le fs_consts)

lemma subrange_append_right: "length xs \<le> off \<Longrightarrow> subrange off n (xs @ ys) = subrange (off - length xs) n ys"
  by (simp add: subrange_def)

lemma subrange_full: "length xs = n \<Longrightarrow> subrange 0 n xs = xs"
  by (simp add: subrange_def)

lemma subrange_concat_le: "j < length ws \<Longrightarrow> subrange (4 * j) 4 (concat (map (to_le 4) ws)) = to_le 4 (ws ! j)"
  using subrange_concat [of "map (to_le 4) ws" 4 j] by fastforce

lemma decode_encode_inode:
  assumes "length (addrs i) = NDIRECT"
  shows "decode_inode (encode_inode i) = Some i"
proof -
  let ?as = "concat (map (to_le 4) (addrs i))"
  have len: "length ?as = 48" using assms by (simp add: length_concat_to_le fs_consts)
  have "subrange 0 2 (encode_inode i) = to_le 2 (kind_code (kind i))" "subrange 2 2 (encode_inode i) = to_le 2 (major i)"
    "subrange 4 2 (encode_inode i) = to_le 2 (minor i)" "subrange 6 2 (encode_inode i) = to_le 2 (nlink i)"
    "subrange 8 4 (encode_inode i) = to_le 4 (isize i)" "subrange 60 4 (encode_inode i) = to_le 4 (chain i)"
    unfolding encode_inode_def by (simp_all add: subrange_append_left subrange_append_right subrange_full len)
  moreover have "subrange (12 + 4 * j) 4 (encode_inode i) = to_le 4 (addrs i ! j)" if "j < NDIRECT" for j
    using that subrange_concat_le [of j "addrs i"] assms unfolding encode_inode_def
    by (simp add: subrange_append_left subrange_append_right len fs_consts)
  then have "map (\<lambda>j. of_le (subrange (12 + 4 * j) 4 (encode_inode i))) [0..<NDIRECT] = addrs i"
    using assms by (intro nth_equalityI) simp_all
  ultimately show ?thesis by (simp add: decode_inode_def)
qed

lemma inode_in_put:
  assumes "length x = BSIZE" "length (addrs i) = NDIRECT" "k < INODES_PER_BLOCK" "j < INODES_PER_BLOCK"
  shows "inode_in j (put_inode k i x) = (if j = k then Some i else inode_in j x)"
proof (cases "j = k")
  case True
  have "INODE_SIZE * k \<le> length x" using assms by (simp add: fs_consts)
  then show ?thesis using True assms by (simp add: inode_in_def put_inode_def length_encode_inode decode_encode_inode)
next
  case False
  have "INODE_SIZE * j + INODE_SIZE \<le> INODE_SIZE * k \<or> INODE_SIZE * k + INODE_SIZE \<le> INODE_SIZE * j"
    using False by (cases "j < k") (auto simp: fs_consts)
  moreover have "INODE_SIZE * k + INODE_SIZE \<le> length x" "INODE_SIZE * j + INODE_SIZE \<le> length x" using assms by (simp_all add: fs_consts)
  ultimately show ?thesis using False assms by (simp add: inode_in_def put_inode_def subrange_overwrite_other length_encode_inode)
qed

lemma length_put_inode [simp]:
  "length x = BSIZE \<Longrightarrow> length (addrs i) = NDIRECT \<Longrightarrow> k < INODES_PER_BLOCK \<Longrightarrow> length (put_inode k i x) = BSIZE"
  by (simp add: put_inode_def length_encode_inode fs_consts)

lemma length_decode_inode: "decode_inode bs = Some i \<Longrightarrow> length (addrs i) = NDIRECT"
  by (auto simp: decode_inode_def kernel_simps)

lemma length_inode_in: "inode_in k x = Some i \<Longrightarrow> length (addrs i) = NDIRECT"
  unfolding inode_in_def by (rule length_decode_inode)

lemma u32_in_put:
  assumes "length x = BSIZE" "k < NINDIRECT" "j < NINDIRECT"
  shows "u32_in j (put_u32 k w x) = (if j = k then w else u32_in j x)"
proof (cases "j = k")
  case True
  then show ?thesis using assms by (simp add: u32_in_def put_u32_def fs_consts)
next
  case False
  then have "4 * j + 4 \<le> 4 * k \<or> 4 * k + 4 \<le> 4 * j" by (cases "j < k") auto
  then show ?thesis using False assms by (simp add: u32_in_def put_u32_def subrange_overwrite_other fs_consts)
qed

lemma length_put_u32 [simp]: "length x = BSIZE \<Longrightarrow> k < NINDIRECT \<Longrightarrow> length (put_u32 k w x) = BSIZE"
  by (simp add: put_u32_def fs_consts)

lemma of_le_zeros: "of_le (replicate n 0) = 0"
  by (induction n) simp_all

lemma u32_in_zeros: "k < NINDIRECT \<Longrightarrow> u32_in k (replicate BSIZE 0) = 0"
  by (simp add: u32_in_def subrange_def of_le_zeros)

lemma decode_encode_dirent: "length (d_name e) = NAME_LENGTH \<Longrightarrow> decode_dirent (encode_dirent e) = e"
  by (simp add: decode_dirent_def encode_dirent_def subrange_append_left subrange_append_right subrange_full)

lemma length_dirent_new [simp]: "length (d_name (dirent_new inum name)) = NAME_LENGTH"
  by (simp add: dirent_new_def Let_def)

lemma length_encode_dirent: "length (d_name e) = NAME_LENGTH \<Longrightarrow> length (encode_dirent e) = DIRENT_SIZE"
  by (simp add: encode_dirent_def NAME_LENGTH_def DIRENT_SIZE_def)

subsection \<open>Blocks in use\<close>

abbreviation fs_size :: "superblock \<Rightarrow> nat" where
  "fs_size sb \<equiv> unat (sb_size sb)"

definition in_use :: "superblock \<Rightarrow> disk_view \<Rightarrow> nat set" where
  "in_use sb d = {b. b < fs_size sb \<and> b mod BITMAP_BITS \<in> used BITMAP_BITS \<lparr>bytes = blk d (bitmap_at sb b)\<rparr>}"

definition disk_ok :: "disk_view \<Rightarrow> bool" where
  "disk_ok d \<longleftrightarrow> (\<forall>b. length (blk d b) = BSIZE) \<and> no_buffer d = {}"

text \<open>The blocks of the bitmap and of the inode table are apart and marked, and so is block 0.\<close>

definition bitmap_blocks :: "superblock \<Rightarrow> nat set" where
  "bitmap_blocks sb = bitmap_at sb ` {..<fs_size sb}"

definition inode_table :: "superblock \<Rightarrow> nat set" where
  "inode_table sb = inode_block_at sb ` {..<unat (ninodes sb)}"

definition alloc_ok :: "superblock \<Rightarrow> disk_view \<Rightarrow> bool" where
  "alloc_ok sb d \<longleftrightarrow> disk_ok d \<and> bitmap_blocks sb \<union> inode_table sb \<subseteq> in_use sb d \<and> 0 \<in> in_use sb d \<and>
     bitmap_blocks sb \<inter> inode_table sb = {}"

lemma BITMAP_BITS_pos [simp]: "0 < BITMAP_BITS" "BITMAP_BITS \<noteq> 0"
  by (simp_all add: fs_consts)

lemma bitmap_eta [simp]: "\<lparr>bytes = bytes bm\<rparr> = (bm :: bitmap)"
  by (cases bm) simp

lemma bitmap_block_wf: "length x = BSIZE \<Longrightarrow> bitmap_wf BITMAP_BITS \<lparr>bytes = x\<rparr>"
  by (simp add: bitmap_wf_def require_bytes_def fs_consts)

lemma blk_store [simp]: "blk (store_block b x d) = (blk d)(b := x)" "no_buffer (store_block b x d) = no_buffer d"
  "logged (store_block b x d) = logged d"
  by (simp_all add: store_block_def)

lemma blk_put [simp]: "blk (put_block b x d) = (blk d)(b := x)" "no_buffer (put_block b x d) = no_buffer d"
  "logged (put_block b x d) = logged d @ [LogWrite b x]"
  by (simp_all add: put_block_def log_block_def)

text \<open>The blocks that were handed to the log.\<close>

fun logged_block :: "log_call \<Rightarrow> nat list" where
  "logged_block (LogWrite b x) = [b]"
| "logged_block _ = []"

definition logged_blocks :: "disk_view \<Rightarrow> nat list" where
  "logged_blocks d = concat (map logged_block (logged d))"

lemma logged_blocks_store [simp]:
  "logged_blocks (store_block b x d) = logged_blocks d" "logged_blocks (put_block b x d) = logged_blocks d @ [b]"
  by (simp_all add: logged_blocks_def)

lemma disk_ok_put: "disk_ok d \<Longrightarrow> length x = BSIZE \<Longrightarrow> disk_ok (put_block b x d)"
  by (simp add: disk_ok_def)

lemma disk_okD: "disk_ok d \<Longrightarrow> length (blk d b) = BSIZE" "disk_ok d \<Longrightarrow> no_buffer d = {}"
  by (simp_all add: disk_ok_def)

lemma read_block_ok [simp]: "disk_ok d \<Longrightarrow> read_block b d = Some (blk d b)"
  by (simp add: read_block_def disk_ok_def)

lemma in_use_iff: "b \<in> in_use sb d \<longleftrightarrow> b < fs_size sb \<and> b mod BITMAP_BITS \<in> used BITMAP_BITS \<lparr>bytes = blk d (bitmap_at sb b)\<rparr>"
  by (simp add: in_use_def)

lemma bitmap_at_eq_iff: "bitmap_at sb b = bitmap_at sb c \<longleftrightarrow> b div BITMAP_BITS = c div BITMAP_BITS"
  by (simp add: bitmap_at_def)

lemma same_bitmap_bit: "bitmap_at sb b = bitmap_at sb c \<Longrightarrow> b mod BITMAP_BITS = c mod BITMAP_BITS \<Longrightarrow> b = c"
  by (metis bitmap_at_eq_iff mult_div_mod_eq)

text \<open>Storing a block other than one of the bitmap does not change what is in use.\<close>

lemma in_use_cong:
  assumes "\<And>b. b < fs_size sb \<Longrightarrow> blk d' (bitmap_at sb b) = blk d (bitmap_at sb b)"
  shows "in_use sb d' = in_use sb d"
  using assms by (auto simp: in_use_def)

lemma in_use_upd: "blk d' = (blk d)(b := x) \<Longrightarrow> b \<notin> bitmap_blocks sb \<Longrightarrow> in_use sb d' = in_use sb d"
  by (intro in_use_cong) (metis bitmap_blocks_def fun_upd_other image_eqI lessThan_iff)

lemma in_use_put:
  assumes "b \<notin> bitmap_blocks sb"
  shows "in_use sb (put_block b x d) = in_use sb d" "in_use sb (store_block b x d) = in_use sb d"
  using assms by (simp_all add: in_use_upd)

text \<open>Changing one bit of the bitmap.\<close>

lemma in_use_set_bit:
  assumes d: "disk_ok d" and b: "b < fs_size sb"
    and x: "x = bytes (snd (bitmap_set BITMAP_BITS \<lparr>bytes = blk d (bitmap_at sb b)\<rparr> (b mod BITMAP_BITS) v))"
    and d': "blk d' = (blk d)(bitmap_at sb b := x)"
  shows "in_use sb d' = (if v then insert b (in_use sb d) else in_use sb d - {b})"
proof -
  let ?bm = "\<lparr>bytes = blk d (bitmap_at sb b)\<rparr>"
  have wf: "bitmap_wf BITMAP_BITS ?bm" using disk_okD(1) [OF d] by (rule bitmap_block_wf)
  have us: "used BITMAP_BITS \<lparr>bytes = x\<rparr> = (if v then insert (b mod BITMAP_BITS) (used BITMAP_BITS ?bm) else used BITMAP_BITS ?bm - {b mod BITMAP_BITS})"
    using used_set [OF wf, of "b mod BITMAP_BITS" v] unfolding x by simp
  have "c \<in> in_use sb d' \<longleftrightarrow> (if c = b then v else c \<in> in_use sb d)" for c
  proof (cases "bitmap_at sb c = bitmap_at sb b")
    case True
    then show ?thesis using us b same_bitmap_bit [of sb c b] by (auto simp: in_use_iff d')
  next
    case False
    then show ?thesis using d' by (auto simp: in_use_iff)
  qed
  then show ?thesis by (intro set_eqI) simp
qed

lemma length_bitmap_set: "length (bytes bm) = BSIZE \<Longrightarrow> length (bytes (snd (bitmap_set BITMAP_BITS bm i v))) = BSIZE"
  using bitmap_wf_set [of BITMAP_BITS bm i v] bitmap_block_wf [of "bytes bm"] by (simp add: bitmap_wf_def require_bytes_def fs_consts)

lemma bitmap_set_undo:
  assumes "length (bytes bm) = BSIZE" "i < BITMAP_BITS" "i \<notin> used BITMAP_BITS bm"
  shows "bitmap_deallocate BITMAP_BITS (snd (bitmap_set BITMAP_BITS bm i True)) i = (Ok (), bm)"
proof -
  let ?bm = "snd (bitmap_set BITMAP_BITS bm i True)"
  have wf: "bitmap_wf BITMAP_BITS bm" using bitmap_block_wf [OF assms(1)] by simp
  have "i \<in> used BITMAP_BITS ?bm" using used_set [OF wf assms(2), of True] by simp
  moreover have "\<not> bit (bytes bm ! (i div 8)) (i mod 8)" using assms(2,3) by (simp add: used_def bitmap_get_bit)
  moreover have "i div 8 < length (bytes bm)" using assms(1,2) by (simp add: fs_consts)
  moreover have "unset_bit n (set_bit n w) = w" if "\<not> bit w n" for n and w :: u8
    using that by (intro bit_word_eqI) (auto simp: bit_unset_bit_iff bit_set_bit_iff)
  ultimately show ?thesis using assms(2) by (simp add: bitmap_deallocate_eq bitmap_set_bytes)
qed

subsection \<open>Allocating and freeing\<close>

lemma multiple_gap:
  assumes "a mod n = 0" "b mod n = 0" "a < b"
  shows "a + n \<le> (b :: nat)"
proof -
  from assms obtain k l where "a = n * k" "b = n * l" by (auto simp: mod_eq_0_iff_dvd elim!: dvdE)
  then have "k < l" using assms(3) by auto
  then have "n * Suc k \<le> n * l" by (intro mult_le_mono2) simp
  then show ?thesis using \<open>a = n * k\<close> \<open>b = n * l\<close> by simp
qed

lemma allocate_block_in_spec:
  assumes d: "alloc_ok sb d" and bis: "\<forall>bi\<in>set bis. bi < fs_size sb \<and> bi mod BITMAP_BITS = 0" "sorted_wrt (<) bis"
  shows "(\<exists>b y. b < fs_size sb \<and> b \<notin> in_use sb d \<and> length y = BSIZE \<and>
      y = bytes (snd (bitmap_set BITMAP_BITS \<lparr>bytes = blk d (bitmap_at sb b)\<rparr> (b mod BITMAP_BITS) True)) \<and>
      allocate_block_in sb bis d = Some (Some b, put_block b (replicate BSIZE 0) (put_block (bitmap_at sb b) y d))) \<or>
    allocate_block_in sb bis d = Some (None, d) \<and> (\<forall>bi\<in>set bis. \<forall>k<BITMAP_BITS. bi + k < fs_size sb \<longrightarrow> bi + k \<in> in_use sb d)"
  using bis
proof (induction bis)
  case (Cons bi bis)
  let ?bm = "\<lparr>bytes = blk d (bitmap_at sb bi)\<rparr>"
  have ok: "disk_ok d" using d by (simp add: alloc_ok_def)
  have bi: "bi < fs_size sb" "bi mod BITMAP_BITS = 0" using Cons.prems by simp_all
  have at: "bitmap_at sb (bi + k) = bitmap_at sb bi" "(bi + k) mod BITMAP_BITS = k" if "k < BITMAP_BITS" for k
    using bi(2) that by (auto simp: bitmap_at_eq_iff mod_add_left_eq [symmetric, of bi] div_add1_eq [of bi])
  have iu: "bi + k \<in> in_use sb d \<longleftrightarrow> bi + k < fs_size sb \<and> k \<in> used BITMAP_BITS ?bm" if "k < BITMAP_BITS" for k
    using at [OF that] by (simp add: in_use_iff)
  obtain r bm where al: "bitmap_allocate BITMAP_BITS ?bm = Some (r, bm)" using bitmap_allocate_total by blast
  show ?case
  proof (cases r)
    case None
    then have "used BITMAP_BITS ?bm = {..<BITMAP_BITS}" using al bitmap_allocate_None by blast
    then have full: "\<forall>k<BITMAP_BITS. bi + k < fs_size sb \<longrightarrow> bi + k \<in> in_use sb d" using iu by simp
    have "allocate_block_in sb (bi # bis) d = allocate_block_in sb bis d" using al None ok by simp
    then show ?thesis using Cons full by auto
  next
    case (Some index)
    then have ix: "index < BITMAP_BITS" "index \<notin> used BITMAP_BITS ?bm" "\<forall>j<index. j \<in> used BITMAP_BITS ?bm"
      and bm: "bm = snd (bitmap_set BITMAP_BITS ?bm index True)" using al bitmap_allocate_Some by blast+
    show ?thesis
    proof (cases "bi + index < fs_size sb")
      case True
      have "length (bytes bm) = BSIZE" using bm length_bitmap_set disk_okD(1) [OF ok] by simp
      moreover have "allocate_block_in sb (bi # bis) d = Some (Some (bi + index), put_block (bi + index) (replicate BSIZE 0) (put_block (bitmap_at sb bi) (bytes bm) d))"
        using al Some ok True calculation by (simp add: write_zeros_to_block_def disk_ok_put)
      ultimately show ?thesis using True ix bm at [OF ix(1)] iu [OF ix(1)]
        by (intro disjI1 exI [of _ "bi + index"] exI [of _ "bytes bm"]) simp
    next
      case False
      have "bitmap_deallocate BITMAP_BITS bm index = (Ok (), ?bm)"
        unfolding bm using ix disk_okD(1) [OF ok] by (intro bitmap_set_undo) simp_all
      then have run: "allocate_block_in sb (bi # bis) d = Some (None, d)" using al Some ok False by (simp add: store_block_def)
      show ?thesis
      proof (intro disjI2 conjI ballI allI impI run)
        fix bj k assume "bj \<in> set (bi # bis)" and k: "k < BITMAP_BITS" "bj + k < fs_size sb"
        have "bj = bi"
        proof (rule ccontr)
          assume "bj \<noteq> bi"
          then have bj: "bi < bj" "bj < fs_size sb" "bj mod BITMAP_BITS = 0" using \<open>bj \<in> set (bi # bis)\<close> Cons.prems by auto
          then have "bi + BITMAP_BITS \<le> bj" using bi(2) by (intro multiple_gap)
          then show False using False ix(1) bj(2) by simp
        qed
        then show "bj + k \<in> in_use sb d" using iu [OF k(1)] k ix(3) False by (auto simp: not_less)
      qed
    qed
  qed
qed simp

lemma set_step_range: "0 < k \<Longrightarrow> set (step_range lo hi k) = {i. lo \<le> i \<and> i < hi \<and> (i - lo) mod k = 0}"
proof (intro set_eqI iffI)
  fix i assume k: "0 < k" and "i \<in> set (step_range lo hi k)"
  then obtain j where j: "i = lo + k * j" "j < (hi - lo + k - 1) div k" by (auto simp: step_range_def)
  then have "Suc j * k \<le> hi - lo + k - 1" using k by (metis Suc_leI less_eq_div_iff_mult_less_eq)
  then show "i \<in> {i. lo \<le> i \<and> i < hi \<and> (i - lo) mod k = 0}" using j k by (auto simp: algebra_simps)
next
  fix i assume k: "0 < k" and "i \<in> {i. lo \<le> i \<and> i < hi \<and> (i - lo) mod k = 0}"
  then obtain j where j: "i = lo + k * j" "lo + k * j < hi" by (auto simp: mod_eq_0_iff_dvd elim!: dvdE) (metis le_add_diff_inverse)
  then have "Suc j * k \<le> hi - lo + k - 1" by (simp add: algebra_simps)
  then have "j < (hi - lo + k - 1) div k" using k by (metis Suc_le_lessD less_eq_div_iff_mult_less_eq)
  then show "i \<in> set (step_range lo hi k)" using j by (auto simp: step_range_def)
qed

lemma sorted_step_range: "0 < k \<Longrightarrow> sorted_wrt (<) (step_range lo hi k)"
  by (simp add: step_range_def sorted_wrt_map sorted_wrt_iff_nth_less)

text \<open>What a fresh block is, and what allocating it leaves alone.\<close>

definition fresh_block :: "superblock \<Rightarrow> disk_view \<Rightarrow> nat \<Rightarrow> disk_view \<Rightarrow> bool" where
  "fresh_block sb d b d' \<longleftrightarrow> b < fs_size sb \<and> b \<noteq> 0 \<and> b \<notin> in_use sb d \<and> in_use sb d' = insert b (in_use sb d) \<and>
     blk d' b = replicate BSIZE 0 \<and> (\<forall>c. c \<noteq> b \<and> c \<notin> bitmap_blocks sb \<longrightarrow> blk d' c = blk d c) \<and>
     logged_blocks d' = logged_blocks d @ [bitmap_at sb b, b]"

lemma allocate_block_spec:
  assumes d: "alloc_ok sb d"
  shows "(\<exists>b d'. allocate_block sb d = Some (Some b, d') \<and> alloc_ok sb d' \<and> fresh_block sb d b d') \<or>
    allocate_block sb d = Some (None, d) \<and> in_use sb d = {..<fs_size sb}"
proof -
  let ?bis = "step_range 0 (fs_size sb) BITMAP_BITS"
  have ok: "disk_ok d" using d by (simp add: alloc_ok_def)
  have bis: "\<forall>bi\<in>set ?bis. bi < fs_size sb \<and> bi mod BITMAP_BITS = 0" by (simp add: set_step_range)
  from allocate_block_in_spec [OF d bis sorted_step_range [OF BITMAP_BITS_pos(1)]] show ?thesis
  proof (elim disjE exE conjE)
    fix b y assume b: "b < fs_size sb" "b \<notin> in_use sb d" and y: "length y = BSIZE"
      "y = bytes (snd (bitmap_set BITMAP_BITS \<lparr>bytes = blk d (bitmap_at sb b)\<rparr> (b mod BITMAP_BITS) True))"
      and run: "allocate_block_in sb ?bis d = Some (Some b, put_block b (replicate BSIZE 0) (put_block (bitmap_at sb b) y d))"
    let ?d = "put_block (bitmap_at sb b) y d" and ?d' = "put_block b (replicate BSIZE 0) (put_block (bitmap_at sb b) y d)"
    have nb: "b \<notin> bitmap_blocks sb" using d b(2) by (auto simp: alloc_ok_def)
    have at: "bitmap_at sb b \<in> bitmap_blocks sb" using b(1) by (auto simp: bitmap_blocks_def)
    have "in_use sb ?d' = in_use sb ?d" using nb by (rule in_use_put)
    also have "\<dots> = insert b (in_use sb d)" using in_use_set_bit [OF ok b(1) y(2), of ?d] by simp
    finally have iu: "in_use sb ?d' = insert b (in_use sb d)" .
    have "alloc_ok sb ?d'" using d iu y(1) by (auto simp: alloc_ok_def disk_ok_put)
    moreover have "fresh_block sb d b ?d'" using b iu nb at d by (cases "b = 0") (auto simp: fresh_block_def alloc_ok_def)
    ultimately show ?thesis using run by (auto simp: allocate_block_def)
  next
    assume run: "allocate_block_in sb ?bis d = Some (None, d)" and
      full: "\<forall>bi\<in>set ?bis. \<forall>k<BITMAP_BITS. bi + k < fs_size sb \<longrightarrow> bi + k \<in> in_use sb d"
    have "b \<in> in_use sb d" if "b < fs_size sb" for b
    proof -
      have "b - b mod BITMAP_BITS \<in> set ?bis" using that by (auto simp: set_step_range minus_mod_eq_mult_div intro: le_less_trans [OF times_div_less_eq_dividend])
      from full [rule_format, OF this, of "b mod BITMAP_BITS"] show ?thesis using that by simp
    qed
    then show ?thesis using run by (auto simp: allocate_block_def in_use_iff)
  qed
qed

lemma deallocate_block_spec:
  assumes d: "disk_ok d" and b: "b \<in> in_use sb d"
  shows "\<exists>d'. deallocate_block sb b d = Some d' \<and> disk_ok d' \<and> in_use sb d' = in_use sb d - {b} \<and>
    (\<forall>c. c \<notin> bitmap_blocks sb \<longrightarrow> blk d' c = blk d c) \<and> logged_blocks d' = logged_blocks d @ [bitmap_at sb b]"
proof -
  let ?bm = "\<lparr>bytes = blk d (bitmap_at sb b)\<rparr>"
  let ?x = "bytes (snd (bitmap_set BITMAP_BITS ?bm (b mod BITMAP_BITS) False))"
  have bs: "b < fs_size sb" "b mod BITMAP_BITS \<in> used BITMAP_BITS ?bm" using b by (simp_all add: in_use_iff)
  have wf: "bitmap_wf BITMAP_BITS ?bm" using disk_okD(1) [OF d] by (rule bitmap_block_wf)
  have de: "bitmap_deallocate BITMAP_BITS ?bm (b mod BITMAP_BITS) = (Ok (), snd (bitmap_set BITMAP_BITS ?bm (b mod BITMAP_BITS) False))"
    using bs(2) by (simp add: bitmap_deallocate_eq)
  have get: "bitmap_get BITMAP_BITS (snd (bitmap_set BITMAP_BITS ?bm (b mod BITMAP_BITS) False)) (b mod BITMAP_BITS) = Some False"
    using bitmap_get_set [OF wf, of "b mod BITMAP_BITS" False] by simp
  let ?d = "put_block (bitmap_at sb b) ?x d"
  have "deallocate_block sb b d = Some ?d" using d de get by (simp add: deallocate_block_def)
  moreover have "disk_ok ?d" using d disk_okD(1) [OF d] by (intro disk_ok_put length_bitmap_set) simp_all
  moreover have "in_use sb ?d = in_use sb d - {b}" using in_use_set_bit [OF d bs(1) refl, of ?d False] by simp
  moreover have "bitmap_at sb b \<in> bitmap_blocks sb" using bs(1) by (auto simp: bitmap_blocks_def)
  ultimately show ?thesis by auto
qed

end
