(* ===== verification/Inode.thy ===== *)
theory Inode
  imports Fs_Alloc
begin

text \<open>
  Inodes in memory, \<open>CachedInode\<close> of src/kernel/src/fs.rs: the map from file offsets to disk blocks, reading, writing
  and truncating a file. The functions take and return the inode and the disk.

  A transfer to or from memory (\<open>copyout_either\<close>, \<open>copyin_either\<close>) is a parameter: \<open>out a bs w\<close> stores the bytes \<open>bs\<close> at
  address \<open>a\<close> of the memory \<open>w\<close> and \<open>inp a n\<close> loads \<open>n\<close> bytes from address \<open>a\<close>. Either may fail, which the boolean tells,
  after it has transferred a part: the new memory, or the bytes it got. The addresses are 64-bit words. Offsets and counts are below \<open>2 ^ 64\<close>; a product of \<open>usize\<close> values wraps around.
\<close>

record cinode =
  inode :: dinode
  device :: nat
  inode_number :: nat
  is_initialized :: bool

definition cinode_zeroed :: cinode where
  "cinode_zeroed = \<lparr>inode = inode_zeroed, device = 0, inode_number = 0, is_initialized = False\<rparr>"

definition is_directory :: "cinode \<Rightarrow> bool" where "is_directory ip \<longleftrightarrow> kind (inode ip) = KDirectory"
definition is_file :: "cinode \<Rightarrow> bool" where "is_file ip \<longleftrightarrow> kind (inode ip) = KFile"
definition is_device :: "cinode \<Rightarrow> bool" where "is_device ip \<longleftrightarrow> kind (inode ip) = KDevice"

definition count_of_link :: "cinode \<Rightarrow> nat" where "count_of_link ip = unat (nlink (inode ip))"

definition increment_link :: "cinode \<Rightarrow> cinode" where
  "increment_link ip = ip\<lparr>inode := (inode ip)\<lparr>nlink := nlink (inode ip) + 1\<rparr>\<rparr>"

definition decrement_link :: "cinode \<Rightarrow> cinode" where
  "decrement_link ip = ip\<lparr>inode := (inode ip)\<lparr>nlink := nlink (inode ip) - 1\<rparr>\<rparr>"

definition file_size :: "cinode \<Rightarrow> nat" where "file_size ip = unat (isize (inode ip))"

definition device_major :: "cinode \<Rightarrow> nat option" where
  "device_major ip = (if is_device ip then Some (unat (major (inode ip))) else None)"

definition device_minor :: "cinode \<Rightarrow> nat option" where
  "device_minor ip = (if is_device ip then Some (unat (minor (inode ip))) else None)"

record stat =
  st_device :: u32
  st_inode :: u32
  st_kind :: inode_kind
  st_nlink :: u16
  st_size :: usize

definition inode_stat :: "cinode \<Rightarrow> stat" where
  "inode_stat ip = \<lparr>st_device = of_nat (device ip), st_inode = of_nat (inode_number ip), st_kind = kind (inode ip),
     st_nlink = nlink (inode ip), st_size = ucast (isize (inode ip))\<rparr>"

definition initialize :: "superblock \<Rightarrow> cinode \<Rightarrow> disk_view \<Rightarrow> cinode kernel" where
  "initialize sb ip d = do {
     x \<leftarrow> read_block (unat (inodestart sb) + inode_number ip div INODES_PER_BLOCK) d;
     i \<leftarrow> inode_in (inode_number ip mod INODES_PER_BLOCK) x;
     assertk (kind i \<noteq> KUnused);
     Some (ip\<lparr>inode := i\<rparr>) }"

definition update :: "superblock \<Rightarrow> cinode \<Rightarrow> disk_view \<Rightarrow> disk_view kernel" where
  "update sb ip d = do {
     let b = unat (inodestart sb) + inode_number ip div INODES_PER_BLOCK;
     x \<leftarrow> read_block b d;
     Some (put_block b (put_inode (inode_number ip mod INODES_PER_BLOCK) (inode ip) x) d) }"

subsection \<open>From offsets to blocks\<close>

definition set_addr :: "nat \<Rightarrow> u32 \<Rightarrow> cinode \<Rightarrow> cinode" where
  "set_addr k a ip = ip\<lparr>inode := (inode ip)\<lparr>addrs := (addrs (inode ip))[k := a]\<rparr>\<rparr>"

definition set_chain :: "u32 \<Rightarrow> cinode \<Rightarrow> cinode" where
  "set_chain a ip = ip\<lparr>inode := (inode ip)\<lparr>chain := a\<rparr>\<rparr>"

definition offset_to_block :: "superblock \<Rightarrow> nat \<Rightarrow> cinode \<Rightarrow> disk_view \<Rightarrow> (nat option \<times> cinode \<times> disk_view) kernel" where
  "offset_to_block sb offset ip d = (let index = offset div BSIZE in
     if index < length (addrs (inode ip)) then
       (if addrs (inode ip) ! index = 0 then do {
          (r, d) \<leftarrow> allocate_block sb d;
          (case r of
             None \<Rightarrow> Some (None, ip, d)
           | Some b \<Rightarrow> let ip = set_addr index (of_nat b) ip in Some (Some (unat (addrs (inode ip) ! index)), ip, d)) }
        else Some (Some (unat (addrs (inode ip) ! index)), ip, d))
     else if NDIRECT \<le> index \<and> index < NDIRECT + NINDIRECT then
       let index = index - NDIRECT in do {
         (r, ip, d) \<leftarrow>
           (if chain (inode ip) = 0 then do {
              (r, d) \<leftarrow> allocate_block sb d;
              (case r of None \<Rightarrow> Some (None, ip, d) | Some b \<Rightarrow> Some (Some (), set_chain (of_nat b) ip, d)) }
            else Some (Some (), ip, d));
         (case r of None \<Rightarrow> Some (None, ip, d) | Some _ \<Rightarrow>
           (case read_block (unat (chain (inode ip))) d of None \<Rightarrow> Some (None, ip, d) | Some x \<Rightarrow>
              if u32_in index x = 0 then do {
                (r, d) \<leftarrow> allocate_block sb d;
                (case r of
                   None \<Rightarrow> Some (None, ip, d)
                 | Some b \<Rightarrow> Some (Some b, ip, put_block (unat (chain (inode ip))) (put_u32 index (of_nat b) x) d)) }
              else Some (Some (unat (u32_in index x)), ip, d))) }
     else Some (None, ip, d))"

subsection \<open>Reading\<close>

text \<open>The loop of \<open>copy_to\<close>: \<open>read\<close> bytes of \<open>n\<close> have been transferred.\<close>

function copy_to_loop :: "superblock \<Rightarrow> (usize \<Rightarrow> u8 list \<Rightarrow> 'w \<Rightarrow> bool \<times> 'w) \<Rightarrow> usize \<Rightarrow> nat \<Rightarrow> nat \<Rightarrow> nat \<Rightarrow>
    cinode \<Rightarrow> disk_view \<Rightarrow> 'w \<Rightarrow> ((nat, unit) result \<times> cinode \<times> disk_view \<times> 'w) kernel" where
  "copy_to_loop sb out dst offset n read ip d w =
     (if read < n then do {
        let off = offset + read;
        (r, ip, d) \<leftarrow> offset_to_block sb off ip d;
        (case r of None \<Rightarrow> Some (Err (), ip, d, w) | Some block \<Rightarrow> do {
           let offset_in_block = off mod BSIZE;
           let len = min (n - read) (BSIZE - offset_in_block);
           src \<leftarrow> read_block block d;
           let (is_copied, w) = out (dst + of_nat read) (subrange offset_in_block len src) w;
           if \<not> is_copied then Some (Err (), ip, d, w)
           else copy_to_loop sb out dst offset n (read + len) ip d w }) }
      else Some (Ok read, ip, d, w))"
  by pat_completeness auto
termination
  by (relation "measure (\<lambda>(sb, out, dst, offset, n, read, ip, d, w). n - read)") (auto simp: BSIZE_def)

declare copy_to_loop.simps [simp del]

definition copy_to :: "superblock \<Rightarrow> (usize \<Rightarrow> u8 list \<Rightarrow> 'w \<Rightarrow> bool \<times> 'w) \<Rightarrow> nat \<Rightarrow> usize \<Rightarrow> nat \<Rightarrow> nat \<Rightarrow>
    cinode \<Rightarrow> disk_view \<Rightarrow> 'w \<Rightarrow> ((nat, unit) result \<times> cinode \<times> disk_view \<times> 'w) kernel" where
  "copy_to sb out type_size dst offset count ip d w =
     (let read_size = (type_size * count) mod 2 ^ 64 in
      if offset > file_size ip \<or> offset + read_size \<ge> 2 ^ 64 then Some (Ok 0, ip, d, w)
      else
        let n = (if offset + read_size > file_size ip then file_size ip - offset else read_size)
        in copy_to_loop sb out dst offset n 0 ip d w)"

text \<open>\<open>read::<T>\<close>: the destination is a local variable of \<open>type_size\<close> bytes in kernel memory, whose bytes are collected in order.\<close>

definition inode_read :: "superblock \<Rightarrow> nat \<Rightarrow> nat \<Rightarrow> cinode \<Rightarrow> disk_view \<Rightarrow> ((u8 list, unit) result \<times> cinode \<times> disk_view) kernel" where
  "inode_read sb type_size offset ip d = do {
     (r, ip, d, w) \<leftarrow> copy_to sb (\<lambda>_ bs w. (True, w @ bs)) type_size 0 offset 1 ip d [];
     Some ((case r of Err e \<Rightarrow> Err e | Ok read \<Rightarrow> if read = type_size then Ok w else Err ()), ip, d) }"

subsection \<open>Writing\<close>

text \<open>
  The loop of \<open>copy_from\<close>. When the source cannot be read, the loop is left with the bytes written so far,
  and what was copied to the buffer before the failure stays there without being logged; when no block
  can be had, the whole call returns an error (\<open>Err\<close>) at once.
\<close>

function copy_from_loop :: "superblock \<Rightarrow> (usize \<Rightarrow> nat \<Rightarrow> u8 list \<times> bool) \<Rightarrow> usize \<Rightarrow> nat \<Rightarrow> nat \<Rightarrow> nat \<Rightarrow>
    cinode \<Rightarrow> disk_view \<Rightarrow> ((nat, unit) result \<times> cinode \<times> disk_view) kernel" where
  "copy_from_loop sb inp src offset write_size wrote ip d =
     (if wrote < write_size then do {
        let off = offset + wrote;
        (r, ip, d) \<leftarrow> offset_to_block sb off ip d;
        (case r of None \<Rightarrow> Some (Err (), ip, d) | Some block \<Rightarrow> do {
           dst \<leftarrow> read_block block d;
           let offset_in_block = off mod BSIZE;
           let len = min (write_size - wrote) (BSIZE - offset_in_block);
           let (bs, is_copied) = inp (src + of_nat wrote) len;
           let d = store_block block (overwrite offset_in_block bs dst) d;
           if is_copied then copy_from_loop sb inp src offset write_size (wrote + len) ip (log_block block d)
           else Some (Ok wrote, ip, d) }) }
      else Some (Ok wrote, ip, d))"
  by pat_completeness auto
termination
  by (relation "measure (\<lambda>(sb, inp, src, offset, n, wrote, ip, d). n - wrote)") (auto simp: BSIZE_def)

declare copy_from_loop.simps [simp del]

definition copy_from :: "superblock \<Rightarrow> (usize \<Rightarrow> nat \<Rightarrow> u8 list \<times> bool) \<Rightarrow> nat \<Rightarrow> usize \<Rightarrow> nat \<Rightarrow> nat \<Rightarrow>
    cinode \<Rightarrow> disk_view \<Rightarrow> ((nat, unit) result \<times> cinode \<times> disk_view) kernel" where
  "copy_from sb inp type_size src offset count ip d =
     (let write_size = (type_size * count) mod 2 ^ 64 in
      if offset > file_size ip \<or> offset + write_size \<ge> 2 ^ 64 then Some (Err (), ip, d)
      else if offset + write_size > MAXFILE * BSIZE then Some (Err (), ip, d)
      else do {
        (r, ip, d) \<leftarrow> copy_from_loop sb inp src offset write_size 0 ip d;
        (case r of Err e \<Rightarrow> Some (Err e, ip, d) | Ok wrote \<Rightarrow> do {
           let ip = ip\<lparr>inode := (inode ip)\<lparr>isize := max (isize (inode ip)) (of_nat (offset + wrote))\<rparr>\<rparr>;
           d \<leftarrow> update sb ip d;
           Some (Ok wrote, ip, d) }) })"

text \<open>\<open>write::<T>\<close>: the source is a local variable in kernel memory, whose bytes are \<open>bs\<close>; what is around it is never read.\<close>

definition local_byte :: "u8 list \<Rightarrow> usize \<Rightarrow> u8" where
  "local_byte bs a = (if unat a < length bs then bs ! unat a else 0)"

definition inode_write :: "superblock \<Rightarrow> u8 list \<Rightarrow> nat \<Rightarrow> cinode \<Rightarrow> disk_view \<Rightarrow> ((unit, unit) result \<times> cinode \<times> disk_view) kernel" where
  "inode_write sb bs offset ip d = do {
     (r, ip, d) \<leftarrow> copy_from sb (\<lambda>a n. (map (\<lambda>j. local_byte bs (a + of_nat j)) [0..<n], True)) (length bs) 0 offset 1 ip d;
     Some ((case r of Err e \<Rightarrow> Err e | Ok wrote \<Rightarrow> if wrote = length bs then Ok () else Err ()), ip, d) }"

subsection \<open>Truncating\<close>

definition free_addr :: "superblock \<Rightarrow> u32 \<Rightarrow> disk_view \<Rightarrow> disk_view kernel" where
  "free_addr sb a d = (if a \<noteq> 0 then deallocate_block sb (unat a) d else Some d)"

definition truncate :: "superblock \<Rightarrow> cinode \<Rightarrow> disk_view \<Rightarrow> (cinode \<times> disk_view) kernel" where
  "truncate sb ip d = do {
     d \<leftarrow> for_each (free_addr sb) (addrs (inode ip)) d;
     let ip = ip\<lparr>inode := (inode ip)\<lparr>addrs := replicate (length (addrs (inode ip))) 0\<rparr>\<rparr>;
     (ip, d) \<leftarrow>
       (if chain (inode ip) \<noteq> 0 then do {
          x \<leftarrow> read_block (unat (chain (inode ip))) d;
          d \<leftarrow> for_each (free_addr sb) (map (\<lambda>k. u32_in k x) [0..<NINDIRECT]) d;
          d \<leftarrow> deallocate_block sb (unat (chain (inode ip))) d;
          Some (set_chain 0 ip, d) }
        else Some (ip, d));
     let ip = ip\<lparr>inode := (inode ip)\<lparr>isize := 0\<rparr>\<rparr>;
     d \<leftarrow> update sb ip d;
     Some (ip, d) }"

end
