(* ===== verification/Inode_File.thy ===== *)
theory Inode_File
  imports Inode
begin

text \<open>
  A file is an array of bytes. \<open>fblock ip d k\<close> is the disk block that holds the \<open>k\<close>-th block of a file, 0 for none, and
  \<open>fbyte ip d o\<close> the byte at offset \<open>o\<close>, 0 in a hole. The invariant \<open>inode_ok\<close> says that the blocks of an inode are distinct
  and marked in the bitmap; \<open>evolve\<close> says what an operation on one file leaves alone of all others.
\<close>

subsection \<open>The blocks of a file\<close>

definition chain_block :: "cinode \<Rightarrow> nat" where
  "chain_block ip = unat (chain (inode ip))"

definition fblock :: "cinode \<Rightarrow> disk_view \<Rightarrow> nat \<Rightarrow> nat" where
  "fblock ip d k = (if k < NDIRECT then unat (addrs (inode ip) ! k)
     else if k < MAXFILE \<and> chain_block ip \<noteq> 0 then unat (u32_in (k - NDIRECT) (blk d (chain_block ip))) else 0)"

definition inode_blocks :: "cinode \<Rightarrow> disk_view \<Rightarrow> nat set" where
  "inode_blocks ip d = insert (chain_block ip) (fblock ip d ` {..<MAXFILE}) - {0}"

definition fbyte :: "cinode \<Rightarrow> disk_view \<Rightarrow> nat \<Rightarrow> u8" where
  "fbyte ip d off = (let b = fblock ip d (off div BSIZE) in if b = 0 then 0 else blk d b ! (off mod BSIZE))"

definition inode_ok :: "superblock \<Rightarrow> cinode \<Rightarrow> disk_view \<Rightarrow> bool" where
  "inode_ok sb ip d \<longleftrightarrow> alloc_ok sb d \<and> length (addrs (inode ip)) = NDIRECT \<and>
     inode_blocks ip d \<subseteq> in_use sb d \<and> inode_blocks ip d \<inter> (bitmap_blocks sb \<union> inode_table sb) = {} \<and>
     (\<forall>k<MAXFILE. \<forall>j<MAXFILE. fblock ip d k \<noteq> 0 \<and> fblock ip d k = fblock ip d j \<longrightarrow> k = j) \<and>
     (\<forall>k<MAXFILE. fblock ip d k \<noteq> 0 \<longrightarrow> fblock ip d k \<noteq> chain_block ip)"

lemma inode_okD:
  assumes "inode_ok sb ip d"
  shows "alloc_ok sb d" "disk_ok d" "length (addrs (inode ip)) = NDIRECT"
    "k < MAXFILE \<Longrightarrow> fblock ip d k \<noteq> 0 \<Longrightarrow> fblock ip d k \<in> inode_blocks ip d"
    "chain_block ip \<noteq> 0 \<Longrightarrow> chain_block ip \<in> inode_blocks ip d"
    "b \<in> inode_blocks ip d \<Longrightarrow> b \<in> in_use sb d" "b \<in> inode_blocks ip d \<Longrightarrow> b \<notin> bitmap_blocks sb"
    "b \<in> inode_blocks ip d \<Longrightarrow> b \<notin> inode_table sb"
    "k < MAXFILE \<Longrightarrow> j < MAXFILE \<Longrightarrow> fblock ip d k \<noteq> 0 \<Longrightarrow> fblock ip d k = fblock ip d j \<Longrightarrow> k = j"
    "k < MAXFILE \<Longrightarrow> fblock ip d k \<noteq> 0 \<Longrightarrow> fblock ip d k \<noteq> chain_block ip"
  using assms by (auto simp: inode_ok_def alloc_ok_def inode_blocks_def)

text \<open>The fields of an inode that finding a block does not touch.\<close>

definition same_attrs :: "cinode \<Rightarrow> cinode \<Rightarrow> bool" where
  "same_attrs ip ip' \<longleftrightarrow> device ip' = device ip \<and> inode_number ip' = inode_number ip \<and> is_initialized ip' = is_initialized ip \<and>
     kind (inode ip') = kind (inode ip) \<and> major (inode ip') = major (inode ip) \<and> minor (inode ip') = minor (inode ip) \<and>
     nlink (inode ip') = nlink (inode ip) \<and> isize (inode ip') = isize (inode ip)"

lemma same_attrs_refl [simp]: "same_attrs ip ip"
  by (simp add: same_attrs_def)

lemma same_attrs_trans: "same_attrs ip ip' \<Longrightarrow> same_attrs ip' ip'' \<Longrightarrow> same_attrs ip ip''"
  by (simp add: same_attrs_def)

lemma addrs_set [simp]: "length (addrs (inode (set_addr k a ip))) = length (addrs (inode ip))" "addrs (inode (set_chain a ip)) = addrs (inode ip)"
  by (simp_all add: set_addr_def set_chain_def)

lemma same_attrs_set [simp]: "same_attrs ip (set_addr k a ip)" "same_attrs ip (set_chain a ip)"
  by (simp_all add: same_attrs_def set_addr_def set_chain_def)

text \<open>
  The file may take blocks that nobody used; every block that was in use and is not the file's own keeps its
  contents, apart from the bitmap.
\<close>

definition evolve :: "superblock \<Rightarrow> cinode \<Rightarrow> disk_view \<Rightarrow> cinode \<Rightarrow> disk_view \<Rightarrow> bool" where
  "evolve sb ip d ip' d' \<longleftrightarrow> inode_ok sb ip' d' \<and> same_attrs ip ip' \<and> in_use sb d \<subseteq> in_use sb d' \<and>
     inode_blocks ip' d' = inode_blocks ip d \<union> (in_use sb d' - in_use sb d) \<and>
     (\<forall>k<MAXFILE. fblock ip d k \<noteq> 0 \<longrightarrow> fblock ip' d' k = fblock ip d k) \<and>
     (chain_block ip \<noteq> 0 \<longrightarrow> chain_block ip' = chain_block ip) \<and>
     (\<forall>b \<in> in_use sb d - bitmap_blocks sb - inode_blocks ip d. blk d' b = blk d b)"

lemma evolve_fblock: "evolve sb ip d ip' d' \<Longrightarrow> k < MAXFILE \<Longrightarrow> fblock ip d k \<noteq> 0 \<Longrightarrow> fblock ip' d' k = fblock ip d k"
  by (simp add: evolve_def)

lemma evolve_refl: "inode_ok sb ip d \<Longrightarrow> evolve sb ip d ip d"
  by (simp add: evolve_def)

lemma evolve_trans:
  assumes 1: "evolve sb ip d ip' d'" and 2: "evolve sb ip' d' ip'' d''"
  shows "evolve sb ip d ip'' d''"
proof -
  have "blk d'' b = blk d b" if "b \<in> in_use sb d - bitmap_blocks sb - inode_blocks ip d" for b
  proof -
    have "b \<in> in_use sb d' - bitmap_blocks sb - inode_blocks ip' d'" using that 1 by (auto simp: evolve_def)
    then show ?thesis using that 1 2 by (simp add: evolve_def)
  qed
  moreover have "inode_blocks ip'' d'' = inode_blocks ip d \<union> (in_use sb d'' - in_use sb d)" using 1 2 by (auto simp: evolve_def)
  moreover have "\<forall>k<MAXFILE. fblock ip d k \<noteq> 0 \<longrightarrow> fblock ip'' d'' k = fblock ip d k"
    using evolve_fblock [OF 1] evolve_fblock [OF 2] by metis
  moreover have "chain_block ip \<noteq> 0 \<longrightarrow> chain_block ip'' = chain_block ip" using 1 2 by (simp add: evolve_def)
  ultimately show ?thesis using 1 2 same_attrs_trans by (auto simp: evolve_def)
qed

lemma unat_u32_block: "b < unat (w :: u32) \<Longrightarrow> unat (of_nat b :: u32) = b"
  using unsigned_less [of w, where 'a = nat] by (simp add: unsigned_of_nat take_bit_nat_eq_self)

text \<open>The file takes one fresh block: as the new data block \<open>k\<close>, or, when \<open>k\<close> is \<open>None\<close>, as its block of addresses.\<close>

lemma evolve_fresh:
  assumes ok: "inode_ok sb ip d" and al: "alloc_ok sb d'" and fr: "b \<notin> in_use sb d" "b \<noteq> 0" "in_use sb d' = insert b (in_use sb d)"
    and len: "length (addrs (inode ip')) = NDIRECT" and at: "same_attrs ip ip'"
    and fb: "\<And>j. j < MAXFILE \<Longrightarrow> fblock ip' d' j = (if k = Some j then b else fblock ip d j)"
    and k: "\<And>j. k = Some j \<Longrightarrow> j < MAXFILE \<and> fblock ip d j = 0"
    and ch: "chain_block ip' = (if k = None then b else chain_block ip)" "k = None \<Longrightarrow> chain_block ip = 0"
    and frame: "\<And>c. c \<in> in_use sb d \<Longrightarrow> c \<notin> bitmap_blocks sb \<Longrightarrow> c \<notin> inode_blocks ip d \<Longrightarrow> blk d' c = blk d c"
  shows "evolve sb ip d ip' d'"
proof -
  have data: "fblock ip' d' ` {..<MAXFILE} - {0} = (fblock ip d ` {..<MAXFILE} - {0}) \<union> (if k = None then {} else {b})"
  proof (cases k)
    case None then show ?thesis using fb by auto
  next
    case (Some j)
    then have "fblock ip' d' ` {..<MAXFILE} = insert b (fblock ip d ` ({..<MAXFILE} - {j}))" using fb k [OF Some] by (auto simp: image_iff)
    moreover have "fblock ip d ` ({..<MAXFILE} - {j}) - {0} = fblock ip d ` {..<MAXFILE} - {0}" using k [OF Some] by (auto simp: image_iff)
    ultimately show ?thesis using Some fr(2) by auto
  qed
  have split: "inode_blocks x y = ({chain_block x} - {0}) \<union> (fblock x y ` {..<MAXFILE} - {0})" for x y
    unfolding inode_blocks_def by blast
  have ib: "inode_blocks ip' d' = insert b (inode_blocks ip d)"
    unfolding split data using ch fr(2) by (cases k) simp_all
  have old: "c \<noteq> b" if "c \<in> inode_blocks ip d" for c using inode_okD(6) [OF ok that] fr(1) by auto
  have meta: "b \<notin> bitmap_blocks sb \<union> inode_table sb" using inode_okD(1) [OF ok] fr(1) by (auto simp: alloc_ok_def)
  have old_fb: "fblock ip d i \<noteq> b" if "i < MAXFILE" for i using inode_okD(4) [OF ok that] old fr(2) by blast
  have inj: "i = j" if ij: "i < MAXFILE" "j < MAXFILE" "fblock ip' d' i \<noteq> 0" "fblock ip' d' i = fblock ip' d' j" for i j
  proof (cases "k = Some i \<or> k = Some j")
    case True
    then show ?thesis using ij fb [OF ij(1)] fb [OF ij(2)] old_fb [OF ij(1)] old_fb [OF ij(2)] by (metis option.inject)
  next
    case False
    then show ?thesis using ij fb [OF ij(1)] fb [OF ij(2)] inode_okD(9) [OF ok ij(1,2)] by simp
  qed
  have "fblock ip' d' i \<noteq> chain_block ip'" if i: "i < MAXFILE" "fblock ip' d' i \<noteq> 0" for i
  proof (cases "k = Some i")
    case True
    then show ?thesis using fb [OF i(1)] ch(1) old [of "chain_block ip"] inode_okD(5) [OF ok] fr(2) by (cases "chain_block ip = 0") auto
  next
    case False
    then show ?thesis using i fb [OF i(1)] inode_okD(10) [OF ok i(1)] ch(1) old_fb [OF i(1)] by (cases k) simp_all
  qed
  then have "inode_ok sb ip' d'"
    unfolding inode_ok_def using al len ib fr meta ok inj by (auto simp: inode_ok_def)
  moreover have "fblock ip' d' j = fblock ip d j" if "j < MAXFILE" "fblock ip d j \<noteq> 0" for j
    using fb [OF that(1)] k that(2) by auto
  moreover have "insert b (inode_blocks ip d) = inode_blocks ip d \<union> (insert b (in_use sb d) - in_use sb d)" using fr(1) by blast
  ultimately show ?thesis unfolding evolve_def using at ib fr frame ch by (simp add: subset_insertI)
qed

text \<open>Bytes are kept when blocks are kept and only blocks of zeros are new.\<close>

lemma fbyte_kept:
  assumes "\<And>k. k < MAXFILE \<Longrightarrow> fblock ip d k \<noteq> 0 \<Longrightarrow> fblock ip' d' k = fblock ip d k \<and> blk d' (fblock ip d k) = blk d (fblock ip d k)"
    and "\<And>k. k < MAXFILE \<Longrightarrow> fblock ip d k = 0 \<Longrightarrow> fblock ip' d' k = 0 \<or> blk d' (fblock ip' d' k) = replicate BSIZE 0"
  shows "fbyte ip' d' = fbyte ip d"
proof
  fix off
  have lt: "off mod BSIZE < BSIZE" by (simp add: BSIZE_def)
  show "fbyte ip' d' off = fbyte ip d off"
  proof (cases "off div BSIZE < MAXFILE")
    case True
    then show ?thesis using assms(1) [OF True] assms(2) [OF True] lt by (cases "fblock ip d (off div BSIZE) = 0") (auto simp: fbyte_def Let_def)
  next
    case False
    then have "fblock ip' d' (off div BSIZE) = 0" "fblock ip d (off div BSIZE) = 0" by (simp_all add: fblock_def MAXFILE_def)
    then show ?thesis by (simp add: fbyte_def)
  qed
qed

subsection \<open>Finding a block\<close>

lemma fblock_cong:
  assumes "inode ip' = inode ip" "chain_block ip \<noteq> 0 \<Longrightarrow> blk d' (chain_block ip) = blk d (chain_block ip)"
  shows "fblock ip' d' = fblock ip d"
  using assms by (auto simp: fblock_def chain_block_def fun_eq_iff)

lemma fresh_blockD:
  assumes "fresh_block sb d b d'"
  shows "b < fs_size sb" "b \<noteq> 0" "b \<notin> in_use sb d" "in_use sb d' = insert b (in_use sb d)" "blk d' b = replicate BSIZE 0"
    "c \<in> in_use sb d \<Longrightarrow> c \<notin> bitmap_blocks sb \<Longrightarrow> blk d' c = blk d c" "unat (of_nat b :: u32) = b"
  using assms unat_u32_block [of b "sb_size sb"] unfolding fresh_block_def by (blast | metis)+

lemma fresh_keeps:
  assumes "inode_ok sb ip d" "fresh_block sb d b d'" "c \<in> inode_blocks ip d"
  shows "blk d' c = blk d c" "c \<noteq> b"
  using fresh_blockD(3,6) [OF assms(2)] inode_okD(6,7) [OF assms(1,3)] by auto

lemma add_direct:
  assumes ok: "inode_ok sb ip d" and al: "alloc_ok sb d'" and fr: "fresh_block sb d b d'" and k: "k < NDIRECT" and z: "addrs (inode ip) ! k = 0"
  shows "evolve sb ip d (set_addr k (of_nat b) ip) d'" "fbyte (set_addr k (of_nat b) ip) d' = fbyte ip d"
    "fblock (set_addr k (of_nat b) ip) d' k = b"
proof -
  let ?ip = "set_addr k (of_nat b) ip"
  note f = fresh_blockD [OF fr]
  have km: "k < MAXFILE" using k by (simp add: MAXFILE_def)
  have ch: "chain_block ?ip = chain_block ip" by (simp add: chain_block_def set_addr_def)
  have fb: "fblock ?ip d' j = (if j = k then b else fblock ip d j)" for j
    using inode_okD(3,5) [OF ok] k f(7) fresh_keeps(1) [OF ok fr]
    by (auto simp: fblock_def ch) (simp_all add: set_addr_def)
  have zk: "fblock ip d k = 0" using k z by (simp add: fblock_def)
  show "evolve sb ip d ?ip d'"
    using inode_okD(3) [OF ok] f fb zk km by (intro evolve_fresh [OF ok al f(3,2,4), where k = "Some k"]) (auto simp: ch)
  show "fbyte ?ip d' = fbyte ip d"
    using fb zk fresh_keeps(1) [OF ok fr] inode_okD(4) [OF ok] f(5) by (intro fbyte_kept) (auto split: if_splits)
  show "fblock ?ip d' k = b" using fb by simp
qed

lemma add_chain:
  assumes ok: "inode_ok sb ip d" and al: "alloc_ok sb d'" and fr: "fresh_block sb d b d'" and z: "chain (inode ip) = 0"
  shows "evolve sb ip d (set_chain (of_nat b) ip) d'" "fbyte (set_chain (of_nat b) ip) d' = fbyte ip d"
    "chain_block (set_chain (of_nat b) ip) = b"
proof -
  let ?ip = "set_chain (of_nat b) ip"
  note f = fresh_blockD [OF fr]
  show ch: "chain_block ?ip = b" using f(7) by (simp add: chain_block_def set_chain_def)
  have z': "chain_block ip = 0" using z by (simp add: chain_block_def)
  have fb: "fblock ?ip d' j = fblock ip d j" if "j < MAXFILE" for j
    using that u32_in_zeros [of "j - NDIRECT"] z' f(5) unfolding fblock_def ch by (auto simp: set_chain_def MAXFILE_def)
  show "evolve sb ip d ?ip d'"
    using inode_okD(3) [OF ok] f fb z' by (intro evolve_fresh [OF ok al f(3,2,4), where k = None]) (auto simp: ch)
  show "fbyte ?ip d' = fbyte ip d"
    using fb fresh_keeps(1) [OF ok fr] inode_okD(4) [OF ok] by (intro fbyte_kept) auto
qed

lemma add_indirect:
  assumes ok: "inode_ok sb ip d" and al: "alloc_ok sb d'" and fr: "fresh_block sb d b d'" and k: "k < NINDIRECT"
    and c: "chain_block ip \<noteq> 0" and z: "u32_in k (blk d (chain_block ip)) = 0"
    and d'': "d'' = put_block (chain_block ip) (put_u32 k (of_nat b) (blk d (chain_block ip))) d'"
  shows "evolve sb ip d ip d''" "fbyte ip d'' = fbyte ip d" "fblock ip d'' (NDIRECT + k) = b"
proof -
  note f = fresh_blockD [OF fr]
  note cb = inode_okD(5) [OF ok c]
  have len: "length (blk d c) = BSIZE" for c using disk_okD(1) [OF inode_okD(2) [OF ok]] .
  have iu: "in_use sb d'' = in_use sb d'" unfolding d'' using inode_okD(7) [OF ok cb] by (rule in_use_put)
  have al'': "alloc_ok sb d''" using al len [of "chain_block ip"] k iu by (auto simp: alloc_ok_def d'' intro: disk_ok_put)
  have fb: "fblock ip d'' j = (if j = NDIRECT + k then b else fblock ip d j)" for j
    using c len [of "chain_block ip"] k f(7) by (auto simp: fblock_def d'' u32_in_put MAXFILE_def)
  have zk: "fblock ip d (NDIRECT + k) = 0" using z c k by (simp add: fblock_def)
  have km: "NDIRECT + k < MAXFILE" using k by (simp add: MAXFILE_def)
  have keep: "blk d'' a = blk d a" if "a \<in> in_use sb d" "a \<notin> bitmap_blocks sb" "a \<noteq> chain_block ip" for a
    using that f(6) by (simp add: d'')
  have cnb: "b \<noteq> chain_block ip" using fresh_keeps(2) [OF ok fr cb] by simp
  have keep': "blk d'' a = blk d a" if "a \<in> in_use sb d" "a \<notin> bitmap_blocks sb" "a \<notin> inode_blocks ip d" for a
    using keep [OF that(1,2)] that(3) cb by metis
  show "evolve sb ip d ip d''"
    using inode_okD(3) [OF ok] iu f(4) fb zk km keep' by (intro evolve_fresh [OF ok al'' f(3,2), where k = "Some (NDIRECT + k)"]) auto
  show "fbyte ip d'' = fbyte ip d"
  proof (rule fbyte_kept)
    show "fblock ip d'' j = fblock ip d j \<and> blk d'' (fblock ip d j) = blk d (fblock ip d j)" if j: "j < MAXFILE" "fblock ip d j \<noteq> 0" for j
      using fb zk j keep inode_okD(10) [OF ok j] inode_okD(6,7) [OF ok inode_okD(4) [OF ok j]] by auto
    show "fblock ip d'' j = 0 \<or> blk d'' (fblock ip d'' j) = replicate BSIZE 0" if "j < MAXFILE" "fblock ip d j = 0" for j
      using fb that f(5) cnb by (auto simp: d'')
  qed
  show "fblock ip d'' (NDIRECT + k) = b" using fb by simp
qed

text \<open>
  \<open>offset_to_block\<close> finds the block of an offset, or gives the file a block of zeros there. It fails only when no block is
  left. The bytes of the file stay what they are.
\<close>

definition found :: "superblock \<Rightarrow> nat \<Rightarrow> cinode \<Rightarrow> disk_view \<Rightarrow> nat option \<Rightarrow> cinode \<Rightarrow> disk_view \<Rightarrow> bool" where
  "found sb k ip d r ip' d' \<longleftrightarrow> evolve sb ip d ip' d' \<and> fbyte ip' d' = fbyte ip d \<and>
     (case r of None \<Rightarrow> in_use sb d' = {..<fs_size sb} | Some b \<Rightarrow> b \<noteq> 0 \<and> fblock ip' d' k = b)"

lemma found_trans:
  "evolve sb ip d ip' d' \<Longrightarrow> fbyte ip' d' = fbyte ip d \<Longrightarrow> found sb k ip' d' r ip'' d'' \<Longrightarrow> found sb k ip d r ip'' d''"
  using evolve_trans by (auto simp: found_def)

lemma offset_to_block_direct:
  assumes ok: "inode_ok sb ip d" and k: "off div BSIZE < NDIRECT"
  shows "\<exists>r ip' d'. offset_to_block sb off ip d = Some (r, ip', d') \<and> found sb (off div BSIZE) ip d r ip' d'"
proof (cases "addrs (inode ip) ! (off div BSIZE) = 0")
  case False
  then have "offset_to_block sb off ip d = Some (Some (fblock ip d (off div BSIZE)), ip, d)" "fblock ip d (off div BSIZE) \<noteq> 0"
    using inode_okD(3) [OF ok] k by (simp_all add: offset_to_block_def fblock_def unat_eq_zero)
  then show ?thesis using evolve_refl [OF ok] by (auto simp: found_def)
next
  case True
  from allocate_block_spec [OF inode_okD(1) [OF ok]] show ?thesis
  proof (elim disjE exE conjE)
    fix b d' assume al: "allocate_block sb d = Some (Some b, d')" "alloc_ok sb d'" "fresh_block sb d b d'"
    then have "offset_to_block sb off ip d = Some (Some b, set_addr (off div BSIZE) (of_nat b) ip, d')"
      using True k inode_okD(3) [OF ok] fresh_blockD(7) [OF al(3)] by (simp add: offset_to_block_def set_addr_def)
    then show ?thesis using add_direct [OF ok al(2,3) k True] fresh_blockD(2) [OF al(3)] by (auto simp: found_def)
  next
    assume "allocate_block sb d = Some (None, d)" "in_use sb d = {..<fs_size sb}"
    then show ?thesis using True k inode_okD(3) [OF ok] evolve_refl [OF ok] by (auto simp: offset_to_block_def found_def)
  qed
qed

lemma offset_to_block_chained:
  assumes ok: "inode_ok sb ip d" and k: "NDIRECT \<le> off div BSIZE" "off div BSIZE < MAXFILE" and c: "chain (inode ip) \<noteq> 0"
  shows "\<exists>r ip' d'. offset_to_block sb off ip d = Some (r, ip', d') \<and> found sb (off div BSIZE) ip d r ip' d'"
proof -
  let ?k = "off div BSIZE - NDIRECT" and ?x = "blk d (chain_block ip)"
  have k': "?k < NINDIRECT" "off div BSIZE = NDIRECT + ?k" "off div BSIZE < NDIRECT + NINDIRECT" using k by (simp_all add: MAXFILE_def)
  have c': "chain_block ip \<noteq> 0" using c by (simp add: chain_block_def unat_eq_zero)
  have step: "offset_to_block sb off ip d =
    (if u32_in ?k ?x = 0 then do {
       (r, d) \<leftarrow> allocate_block sb d;
       (case r of
          None \<Rightarrow> Some (None, ip, d)
        | Some b \<Rightarrow> Some (Some b, ip, put_block (chain_block ip) (put_u32 ?k (of_nat b) ?x) d)) }
     else Some (Some (unat (u32_in ?k ?x)), ip, d))"
    unfolding offset_to_block_def chain_block_def Let_def using k k'(3) c inode_okD(2,3) [OF ok] by simp
  have fb: "fblock ip d (off div BSIZE) = unat (u32_in ?k ?x)" using k c' by (simp add: fblock_def)
  show ?thesis
  proof (cases "u32_in ?k ?x = 0")
    case False
    then have "fblock ip d (off div BSIZE) \<noteq> 0" using fb by (simp add: unat_eq_zero)
    then show ?thesis using False evolve_refl [OF ok] fb unfolding step found_def by simp
  next
    case True
    from allocate_block_spec [OF inode_okD(1) [OF ok]] show ?thesis
    proof (elim disjE exE conjE)
      fix b d' assume al: "allocate_block sb d = Some (Some b, d')" "alloc_ok sb d'" "fresh_block sb d b d'"
      from add_indirect [OF ok al(2,3) k'(1) c' True refl] show ?thesis
        unfolding step found_def using True al(1) fresh_blockD(2) [OF al(3)] k'(2) by simp
    next
      assume "allocate_block sb d = Some (None, d)" "in_use sb d = {..<fs_size sb}"
      then show ?thesis using True evolve_refl [OF ok] by (simp add: step found_def)
    qed
  qed
qed

lemma offset_to_block_spec:
  assumes ok: "inode_ok sb ip d" and k: "off div BSIZE < MAXFILE"
  shows "\<exists>r ip' d'. offset_to_block sb off ip d = Some (r, ip', d') \<and> found sb (off div BSIZE) ip d r ip' d'"
proof (cases "off div BSIZE < NDIRECT")
  case True
  then show ?thesis by (rule offset_to_block_direct [OF ok])
next
  case False
  then have k1: "NDIRECT \<le> off div BSIZE" "off div BSIZE < NDIRECT + NINDIRECT" "\<not> off div BSIZE < length (addrs (inode ip))"
    using k inode_okD(3) [OF ok] by (simp_all add: MAXFILE_def)
  show ?thesis
  proof (cases "chain (inode ip) = 0")
    case False
    then show ?thesis by (rule offset_to_block_chained [OF ok k1(1) k])
  next
    case True
    from allocate_block_spec [OF inode_okD(1) [OF ok]] show ?thesis
    proof (elim disjE exE conjE)
      fix b d' assume al: "allocate_block sb d = Some (Some b, d')" "alloc_ok sb d'" "fresh_block sb d b d'"
      let ?ip = "set_chain (of_nat b) ip"
      note ac = add_chain [OF ok al(2,3) True]
      have ok': "inode_ok sb ?ip d'" using ac(1) by (simp add: evolve_def)
      have c: "chain (inode ?ip) \<noteq> 0" using ac(3) fresh_blockD(2) [OF al(3)] by (auto simp: chain_block_def)
      have "offset_to_block sb off ip d = offset_to_block sb off ?ip d'"
        using k1 True al(1) c inode_okD(3) [OF ok'] by (simp add: offset_to_block_def Let_def)
      then show ?thesis using offset_to_block_chained [OF ok' k1(1) k c] found_trans [OF ac(1,2)] by metis
    next
      assume "allocate_block sb d = Some (None, d)" "in_use sb d = {..<fs_size sb}"
      then show ?thesis using True k1 evolve_refl [OF ok] by (simp add: offset_to_block_def found_def Let_def)
    qed
  qed
qed

subsection \<open>Reading a file\<close>

text \<open>The bytes of a file between two offsets.\<close>

definition frange :: "(nat \<Rightarrow> u8) \<Rightarrow> nat \<Rightarrow> nat \<Rightarrow> u8 list" where
  "frange f off n = map (\<lambda>j. f (off + j)) [0..<n]"

lemma length_frange [simp]: "length (frange f off n) = n"
  by (simp add: frange_def)

lemma frange_append: "frange f off (m + n) = frange f off m @ frange f (off + m) n"
  by (rule nth_equalityI) (auto simp: frange_def nth_append)

lemma div_mod_within:
  assumes "a mod n + j < (n :: nat)"
  shows "(a + j) div n = a div n" "(a + j) mod n = a mod n + j"
proof -
  have n: "n \<noteq> 0" using assms by auto
  have eq: "a + j = (a mod n + j) + n * (a div n)" by simp
  show "(a + j) div n = a div n" using n assms by (subst eq, subst div_mult_self2) simp_all
  show "(a + j) mod n = a mod n + j" using assms by (subst eq, subst mod_mult_self2) simp_all
qed

lemma subrange_fblock:
  assumes ok: "disk_ok d" and b: "fblock ip d (off div BSIZE) = b" "b \<noteq> 0" and n: "n \<le> BSIZE - off mod BSIZE"
  shows "subrange (off mod BSIZE) n (blk d b) = frange (fbyte ip d) off n"
proof (rule nth_equalityI)
  have lt: "off mod BSIZE < BSIZE" by (simp add: BSIZE_def)
  have len: "off mod BSIZE + n \<le> length (blk d b)" using disk_okD(1) [OF ok] n lt by simp
  then show "length (subrange (off mod BSIZE) n (blk d b)) = length (frange (fbyte ip d) off n)" by simp
  fix j assume "j < length (subrange (off mod BSIZE) n (blk d b))"
  then have j: "j < n" using len by simp
  then have "off mod BSIZE + j < BSIZE" using n by simp
  note div_mod_within [OF this]
  then show "subrange (off mod BSIZE) n (blk d b) ! j = frange (fbyte ip d) off n ! j"
    using j len b by (simp add: nth_subrange frange_def fbyte_def)
qed

text \<open>A memory that stores bytes one after the other, and never refuses.\<close>

definition sink :: "(usize \<Rightarrow> u8 list \<Rightarrow> 'w \<Rightarrow> bool \<times> 'w) \<Rightarrow> (usize \<Rightarrow> u8 list \<Rightarrow> 'w \<Rightarrow> 'w) \<Rightarrow> bool" where
  "sink out st \<longleftrightarrow> (\<forall>a bs w. out a bs w = (True, st a bs w)) \<and> (\<forall>a w. st a [] w = w) \<and>
     (\<forall>a xs ys w. st (a + of_nat (length xs)) ys (st a xs w) = st a (xs @ ys) w)"

lemma sinkD:
  assumes "sink out st"
  shows "out a bs w = (True, st a bs w)" "st a [] w = w" "st (a + of_nat (length xs)) ys (st a xs w) = st a (xs @ ys) w"
  using assms by (simp_all add: sink_def)

text \<open>A file without holes, of a size that its blocks can hold.\<close>

definition file_ok :: "superblock \<Rightarrow> cinode \<Rightarrow> disk_view \<Rightarrow> bool" where
  "file_ok sb ip d \<longleftrightarrow> inode_ok sb ip d \<and> file_size ip \<le> MAXFILE * BSIZE \<and> (\<forall>off<file_size ip. fblock ip d (off div BSIZE) \<noteq> 0)"

lemma file_okD:
  assumes "file_ok sb ip d"
  shows "inode_ok sb ip d" "file_size ip \<le> MAXFILE * BSIZE" "off < file_size ip \<Longrightarrow> fblock ip d (off div BSIZE) \<noteq> 0"
  using assms by (simp_all add: file_ok_def)

lemma offset_to_block_present:
  assumes ok: "inode_ok sb ip d" and b: "fblock ip d (off div BSIZE) \<noteq> 0"
  shows "offset_to_block sb off ip d = Some (Some (fblock ip d (off div BSIZE)), ip, d)"
proof (cases "off div BSIZE < NDIRECT")
  case True
  then show ?thesis using b inode_okD(3) [OF ok] by (auto simp: offset_to_block_def fblock_def Let_def)
next
  case False
  then have "off div BSIZE < MAXFILE" "chain_block ip \<noteq> 0" "u32_in (off div BSIZE - NDIRECT) (blk d (chain_block ip)) \<noteq> 0"
    using b by (auto simp: fblock_def split: if_splits)
  then show ?thesis using False inode_okD(2,3) [OF ok]
    by (auto simp: offset_to_block_def fblock_def chain_block_def MAXFILE_def Let_def)
qed

lemma copy_to_loop_spec:
  assumes ok: "file_ok sb ip d" and out: "sink out st" and n: "offset + n \<le> file_size ip"
  shows "read \<le> n \<Longrightarrow> copy_to_loop sb out dst offset n read ip d w =
    Some (Ok n, ip, d, st (dst + of_nat read) (frange (fbyte ip d) (offset + read) (n - read)) w)"
proof (induction "n - read" arbitrary: read w rule: less_induct)
  case less
  show ?case
  proof (cases "read < n")
    case False
    then show ?thesis using less.prems sinkD(2) [OF out] by (subst copy_to_loop.simps) (simp add: frange_def)
  next
    case True
    let ?off = "offset + read"
    let ?len = "min (n - read) (BSIZE - ?off mod BSIZE)"
    let ?w = "st (dst + of_nat read) (frange (fbyte ip d) ?off ?len) w"
    have lt: "?off mod BSIZE < BSIZE" by (simp add: BSIZE_def)
    have b: "fblock ip d (?off div BSIZE) \<noteq> 0" using file_okD(3) [OF ok, of ?off] True n by simp
    note ino = file_okD(1) [OF ok]
    have "subrange (?off mod BSIZE) ?len (blk d (fblock ip d (?off div BSIZE))) = frange (fbyte ip d) ?off ?len"
      using subrange_fblock [OF inode_okD(2) [OF ino] refl b] by simp
    then have step: "copy_to_loop sb out dst offset n read ip d w = copy_to_loop sb out dst offset n (read + ?len) ip d ?w"
      using True offset_to_block_present [OF ino b] inode_okD(2) [OF ino] sinkD(1) [OF out]
      by (subst copy_to_loop.simps) (simp add: Let_def)
    have pos: "n - (read + ?len) < n - read" "read + ?len \<le> n" using True lt by auto
    have "?len + (n - (read + ?len)) = n - read" using pos(2) by simp
    then have "st (dst + of_nat (read + ?len)) (frange (fbyte ip d) (offset + (read + ?len)) (n - (read + ?len))) ?w =
      st (dst + of_nat read) (frange (fbyte ip d) ?off (n - read)) w"
      using sinkD(3) [OF out, of "dst + of_nat read" "frange (fbyte ip d) ?off ?len"]
        frange_append [of "fbyte ip d" ?off ?len "n - (read + ?len)"] by (simp only: length_frange of_nat_add add.assoc)
    then show ?thesis using step less.hyps [OF pos] by simp
  qed
qed

text \<open>How many bytes a read at an offset gets.\<close>

definition read_count :: "nat \<Rightarrow> nat \<Rightarrow> nat \<Rightarrow> nat" where
  "read_count fsize offset n = (if offset > fsize \<or> offset + n \<ge> 2 ^ 64 then 0 else min n (fsize - offset))"

lemma copy_to_spec:
  assumes ok: "file_ok sb ip d" and out: "sink out st" and n: "type_size * count < 2 ^ 64"
  shows "copy_to sb out type_size dst offset count ip d w =
    (let m = read_count (file_size ip) offset (type_size * count) in Some (Ok m, ip, d, st dst (frange (fbyte ip d) offset m) w))"
proof (cases "offset > file_size ip \<or> offset + type_size * count \<ge> 2 ^ 64")
  case True
  then show ?thesis using n sinkD(2) [OF out] by (auto simp: copy_to_def read_count_def frange_def Let_def)
next
  case False
  let ?m = "read_count (file_size ip) offset (type_size * count)"
  have m: "(if offset + type_size * count > file_size ip then file_size ip - offset else type_size * count) = ?m" "offset + ?m \<le> file_size ip"
    using False by (auto simp: read_count_def)
  have "copy_to sb out type_size dst offset count ip d w = copy_to_loop sb out dst offset ?m 0 ip d w"
    using False n m(1) by (simp add: copy_to_def Let_def)
  then show ?thesis using copy_to_loop_spec [OF ok out m(2), of 0] by (simp add: Let_def)
qed

lemma inode_read_spec:
  assumes ok: "file_ok sb ip d" and n: "offset + n < 2 ^ 64"
  shows "inode_read sb n offset ip d =
    Some (if offset + n \<le> file_size ip \<or> n = 0 then Ok (frange (fbyte ip d) offset n) else Err (), ip, d)"
proof -
  let ?st = "\<lambda>(_ :: usize) bs w. w @ (bs :: u8 list)"
  have "sink (\<lambda>_ bs w. (True, w @ bs)) ?st" by (simp add: sink_def)
  from copy_to_spec [OF ok this, of n 1 0 offset "[]"] n show ?thesis
    by (auto simp: inode_read_def read_count_def Let_def frange_def)
qed

end
