(* ===== verification/Inode_Write.thy ===== *)
theory Inode_Write
  imports Inode_File
begin

text \<open>
  Writing and truncating a file: the bytes written are exactly those of the source, all other files and the rest of this
  one keep theirs, and truncation gives exactly the blocks of the file back.
\<close>

subsection \<open>Storing into a block of the file\<close>

lemma fblock_store:
  assumes ok: "inode_ok sb ip d" and k: "k < MAXFILE" "fblock ip d k \<noteq> 0"
    and d': "blk d' = (blk d)(fblock ip d k := x)"
  shows "fblock ip d' = fblock ip d"
  using inode_okD(10) [OF ok k] d' by (intro fblock_cong) auto

lemma fblock_bound: "fblock ip d k \<noteq> 0 \<Longrightarrow> k < MAXFILE"
  by (auto simp: fblock_def MAXFILE_def split: if_splits)

lemma evolve_store:
  assumes ok: "inode_ok sb ip d" and k: "k < MAXFILE" "fblock ip d k \<noteq> 0"
    and d': "blk d' = (blk d)(fblock ip d k := x)" "no_buffer d' = no_buffer d" and x: "length x = BSIZE"
  shows "evolve sb ip d ip d'"
proof -
  note b = inode_okD(4) [OF ok k]
  have fb: "fblock ip d' = fblock ip d" using fblock_store [OF ok k d'(1)] .
  have iu: "in_use sb d' = in_use sb d" using in_use_upd [OF d'(1) inode_okD(7) [OF ok b]] .
  have "alloc_ok sb d'" using inode_okD(1) [OF ok] x d' iu by (auto simp: alloc_ok_def disk_ok_def)
  moreover have ib: "inode_blocks ip d' = inode_blocks ip d" by (simp add: inode_blocks_def fb)
  ultimately have "inode_ok sb ip d'" using ok by (simp add: inode_ok_def fb iu)
  then show ?thesis using b d'(1) by (auto simp: evolve_def ib iu fb)
qed

lemma fbyte_store:
  assumes ok: "inode_ok sb ip d" and k: "off div BSIZE < MAXFILE" "fblock ip d (off div BSIZE) \<noteq> 0" and bs: "off mod BSIZE + length bs \<le> BSIZE"
    and d': "blk d' = (blk d)(fblock ip d (off div BSIZE) := overwrite (off mod BSIZE) bs (blk d (fblock ip d (off div BSIZE))))"
  shows "fbyte ip d' j = (if off \<le> j \<and> j < off + length bs then bs ! (j - off) else fbyte ip d j)"
proof -
  let ?b = "fblock ip d (off div BSIZE)"
  have fb: "fblock ip d' = fblock ip d" using fblock_store [OF ok k d'] .
  have len: "length (blk d ?b) = BSIZE" using disk_okD(1) [OF inode_okD(2) [OF ok]] .
  have lt: "j mod BSIZE < BSIZE" by (simp add: BSIZE_def)
  show ?thesis
  proof (cases "j div BSIZE = off div BSIZE")
    case True
    then obtain q where q: "j = q + j mod BSIZE" "off = q + off mod BSIZE" by (metis div_mult_mod_eq)
    from q have "j - off = j mod BSIZE - off mod BSIZE" by linarith
    moreover from q have "off \<le> j \<longleftrightarrow> off mod BSIZE \<le> j mod BSIZE" by linarith
    moreover from q have "j < off + length bs \<longleftrightarrow> j mod BSIZE < off mod BSIZE + length bs" by linarith
    moreover have "fbyte ip d' j = overwrite (off mod BSIZE) bs (blk d ?b) ! (j mod BSIZE)" "fbyte ip d j = blk d ?b ! (j mod BSIZE)"
      using True k d' by (simp_all add: fbyte_def fb)
    ultimately show ?thesis using nth_overwrite [of "off mod BSIZE" bs "blk d ?b" "j mod BSIZE"] bs len by auto
  next
    case False
    have other: "fblock ip d (j div BSIZE) \<noteq> ?b \<or> fblock ip d (j div BSIZE) = 0"
    proof (cases "j div BSIZE < MAXFILE")
      case True then show ?thesis using inode_okD(9) [OF ok k(1) True k(2)] False by auto
    next
      case False then show ?thesis by (simp add: fblock_def MAXFILE_def)
    qed
    have "\<not> (off \<le> j \<and> j < off + length bs)"
    proof
      assume j: "off \<le> j \<and> j < off + length bs"
      then have "off mod BSIZE + (j - off) < BSIZE" using bs by linarith
      from div_mod_within(1) [OF this] j False show False by simp
    qed
    then show ?thesis using other d' by (auto simp: fbyte_def fb Let_def)
  qed
qed

subsection \<open>The loop\<close>

text \<open>
  The memory that the bytes come from: \<open>inp\<close> gives a prefix of the bytes asked for, all of them when it succeeds.
\<close>

definition source :: "(usize \<Rightarrow> nat \<Rightarrow> u8 list \<times> bool) \<Rightarrow> (usize \<Rightarrow> u8) \<Rightarrow> bool" where
  "source inp mem \<longleftrightarrow> (\<forall>a n. length (fst (inp a n)) \<le> n \<and> (snd (inp a n) \<longrightarrow> length (fst (inp a n)) = n) \<and>
     (\<forall>j<length (fst (inp a n)). fst (inp a n) ! j = mem (a + of_nat j)))"

lemma sourceD:
  assumes "source inp mem" "inp a n = (bs, b)"
  shows "length bs \<le> n" "b \<Longrightarrow> length bs = n" "j < length bs \<Longrightarrow> bs ! j = mem (a + of_nat j)"
  using assms unfolding source_def by (metis fst_conv snd_conv)+

text \<open>The bytes from \<open>lo\<close> up to \<open>hi\<close> are those of the source, the others are as before.\<close>

definition written_from :: "(usize \<Rightarrow> u8) \<Rightarrow> usize \<Rightarrow> nat \<Rightarrow> nat \<Rightarrow> nat \<Rightarrow> (nat \<Rightarrow> u8) \<Rightarrow> nat \<Rightarrow> u8" where
  "written_from mem src offset lo hi f j = (if offset + lo \<le> j \<and> j < offset + hi then mem (src + of_nat (j - offset)) else f j)"

lemma written_from_empty [simp]: "written_from mem src offset lo lo f = f"
  by (auto simp: written_from_def fun_eq_iff)

lemma written_from_append:
  "lo \<le> mid \<Longrightarrow> mid \<le> hi \<Longrightarrow> written_from mem src offset mid hi (written_from mem src offset lo mid f) = written_from mem src offset lo hi f"
  by (auto simp: written_from_def fun_eq_iff)

lemma store_written:
  assumes ok: "inode_ok sb ip d" and sr: "source inp mem" and k: "(offset + wrote) div BSIZE < MAXFILE" "fblock ip d ((offset + wrote) div BSIZE) = b" "b \<noteq> 0"
    and inp: "inp (src + of_nat wrote) len = (bs, c)" and len: "len \<le> BSIZE - (offset + wrote) mod BSIZE"
    and d': "blk d' = (blk d)(b := overwrite ((offset + wrote) mod BSIZE) bs (blk d b))" "no_buffer d' = no_buffer d"
  shows "evolve sb ip d ip d'" "fbyte ip d' = written_from mem src offset wrote (wrote + length bs) (fbyte ip d)"
proof -
  have lt: "(offset + wrote) mod BSIZE < BSIZE" by (simp add: BSIZE_def)
  have bs: "(offset + wrote) mod BSIZE + length bs \<le> BSIZE" using sourceD(1) [OF sr inp] len lt by linarith
  have k0: "fblock ip d ((offset + wrote) div BSIZE) \<noteq> 0" using k by simp
  have blk: "blk d' = (blk d)(fblock ip d ((offset + wrote) div BSIZE) := overwrite ((offset + wrote) mod BSIZE) bs (blk d (fblock ip d ((offset + wrote) div BSIZE))))"
    using d'(1) k(2) by simp
  have "length (overwrite ((offset + wrote) mod BSIZE) bs (blk d b)) = BSIZE" using bs disk_okD(1) [OF inode_okD(2) [OF ok]] by simp
  then show "evolve sb ip d ip d'" using d' k by (intro evolve_store [OF ok k(1) k0 blk]) simp_all
  have "bs ! (j - (offset + wrote)) = mem (src + of_nat (j - offset))" if "offset + wrote \<le> j" "j < offset + wrote + length bs" for j
  proof -
    have "j - (offset + wrote) < length bs" using that by simp
    moreover have "j - offset = wrote + (j - (offset + wrote))" using that by simp
    then have "src + of_nat wrote + of_nat (j - (offset + wrote)) = src + (of_nat (j - offset) :: usize)"
      by (simp only: of_nat_add add.assoc)
    ultimately show ?thesis using sourceD(3) [OF sr inp] by metis
  qed
  then show "fbyte ip d' = written_from mem src offset wrote (wrote + length bs) (fbyte ip d)"
    using fbyte_store [OF ok k(1) k0 bs blk] by (auto simp: written_from_def fun_eq_iff add.assoc)
qed

text \<open>
  The loop writes a prefix of the source. \<open>m\<close> bytes are in the file in the end, of which the result counts those of whole
  chunks; it counts fewer than were asked for only if the source could not be read, and the call fails only when no block is left.
\<close>

definition wrote_all :: "superblock \<Rightarrow> (usize \<Rightarrow> nat \<Rightarrow> u8 list \<times> bool) \<Rightarrow> usize \<Rightarrow> nat \<Rightarrow> nat \<Rightarrow> (nat, unit) result \<Rightarrow> disk_view \<Rightarrow> bool" where
  "wrote_all sb inp src write_size m r d' \<longleftrightarrow> (case r of
     Ok c \<Rightarrow> c \<le> m \<and> (c = write_size \<or> c < write_size \<and> (\<exists>n\<le>write_size - c. \<not> snd (inp (src + of_nat c) n)))
   | Err _ \<Rightarrow> m < write_size \<and> in_use sb d' = {..<fs_size sb})"

lemma copy_from_loop_spec:
  assumes "source inp mem" "offset + write_size \<le> MAXFILE * BSIZE"
  shows "inode_ok sb ip d \<Longrightarrow> wrote \<le> write_size \<Longrightarrow>
    \<exists>r ip' d' m. copy_from_loop sb inp src offset write_size wrote ip d = Some (r, ip', d') \<and> evolve sb ip d ip' d' \<and>
      wrote \<le> m \<and> m \<le> write_size \<and> fbyte ip' d' = written_from mem src offset wrote m (fbyte ip d) \<and>
      wrote_all sb inp src write_size m r d' \<and> (\<forall>c. r = Ok c \<longrightarrow> wrote \<le> c) \<and>
      (r = Err () \<longrightarrow> fblock ip d ((offset + m) div BSIZE) = 0) \<and>
      (\<forall>j. offset + wrote \<le> j \<and> j < offset + m \<longrightarrow> fblock ip' d' (j div BSIZE) \<noteq> 0)"
proof (induction "write_size - wrote" arbitrary: wrote ip d rule: less_induct)
  case less
  show ?case
  proof (cases "wrote < write_size")
    case False
    then show ?thesis using less.prems evolve_refl
      by (subst copy_from_loop.simps) (auto simp: wrote_all_def intro!: exI [of _ wrote])
  next
    case True
    let ?off = "offset + wrote"
    let ?len = "min (write_size - wrote) (BSIZE - ?off mod BSIZE)"
    have lt: "?off mod BSIZE < BSIZE" by (simp add: BSIZE_def)
    have k: "?off div BSIZE < MAXFILE" using True assms(2) by (simp add: less_mult_imp_div_less)
    obtain r ip1 d1 where 1: "offset_to_block sb ?off ip d = Some (r, ip1, d1)" "found sb (?off div BSIZE) ip d r ip1 d1"
      using offset_to_block_spec [OF less.prems(1) k] by blast
    have ev1: "evolve sb ip d ip1 d1" and fb1: "fbyte ip1 d1 = fbyte ip d" using 1(2) by (auto simp: found_def)
    have ok1: "inode_ok sb ip1 d1" using ev1 by (simp add: evolve_def)
    show ?thesis
    proof (cases r)
      case None
      then have "copy_from_loop sb inp src offset write_size wrote ip d = Some (Err (), ip1, d1)" "in_use sb d1 = {..<fs_size sb}"
        using 1 True by (subst copy_from_loop.simps, simp, simp add: found_def)
      moreover have "fblock ip d (?off div BSIZE) = 0" using offset_to_block_present [OF less.prems(1)] 1(1) None by fastforce
      ultimately show ?thesis using True ev1 fb1
        by (intro exI [of _ "Err ()"] exI [of _ ip1] exI [of _ d1] exI [of _ wrote]) (simp add: wrote_all_def)
    next
      case (Some b)
      then have b: "fblock ip1 d1 (?off div BSIZE) = b" "b \<noteq> 0" using 1(2) by (auto simp: found_def)
      obtain bs ok where inp: "inp (src + of_nat wrote) ?len = (bs, ok)" by fastforce
      let ?x = "overwrite (?off mod BSIZE) bs (blk d1 b)"
      let ?d2 = "if ok then put_block b ?x d1 else store_block b ?x d1"
      note st = store_written [OF ok1 assms(1) k b inp min.cobounded2, where d' = ?d2]
      have ev2: "evolve sb ip1 d1 ip1 ?d2" and fb2: "fbyte ip1 ?d2 = written_from mem src offset wrote (wrote + length bs) (fbyte ip d)"
        using st fb1 by simp_all
      have same: "fblock ip1 ?d2 (j div BSIZE) \<noteq> 0" if "?off \<le> j" "j < ?off + length bs" for j
      proof -
        have "?off mod BSIZE + (j - ?off) < BSIZE" using that sourceD(1) [OF assms(1) inp] lt by linarith
        from div_mod_within(1) [OF this] that have "j div BSIZE = ?off div BSIZE" by simp
        then show ?thesis using fblock_store [OF ok1 k, of ?d2 ?x] b by simp
      qed
      show ?thesis
      proof (cases ok)
        case False
        then have "copy_from_loop sb inp src offset write_size wrote ip d = Some (Ok wrote, ip1, ?d2)"
          using True 1(1) Some inp inode_okD(2) [OF ok1] by (subst copy_from_loop.simps) (simp add: Let_def)
        moreover have "wrote_all sb inp src write_size (wrote + length bs) (Ok wrote) ?d2"
          using True False inp by (auto simp: wrote_all_def intro!: exI [of _ ?len])
        moreover have "wrote + length bs \<le> write_size" using sourceD(1) [OF assms(1) inp] True by linarith
        ultimately show ?thesis using evolve_trans [OF ev1 ev2] fb2 same
          by (intro exI [of _ "Ok wrote"] exI [of _ ip1] exI [of _ ?d2] exI [of _ "wrote + length bs"]) (auto simp: add.assoc)
      next
        case True
        note ok = True
        have len: "length bs = ?len" using sourceD(2) [OF assms(1) inp] ok by simp
        have step: "copy_from_loop sb inp src offset write_size wrote ip d = copy_from_loop sb inp src offset write_size (wrote + ?len) ip1 ?d2"
          using \<open>wrote < write_size\<close> 1(1) Some inp ok inode_okD(2) [OF ok1] by (subst copy_from_loop.simps) (simp add: Let_def put_block_def)
        have dec: "write_size - (wrote + ?len) < write_size - wrote" "wrote + ?len \<le> write_size" using \<open>wrote < write_size\<close> lt by auto
        have ok2: "inode_ok sb ip1 ?d2" using ev2 by (simp add: evolve_def)
        from less.hyps [OF dec(1) ok2 dec(2)] obtain r' ip' d' m where
          IH: "copy_from_loop sb inp src offset write_size (wrote + ?len) ip1 ?d2 = Some (r', ip', d')" "evolve sb ip1 ?d2 ip' d'"
            "wrote + ?len \<le> m" "m \<le> write_size" "fbyte ip' d' = written_from mem src offset (wrote + ?len) m (fbyte ip1 ?d2)"
            "wrote_all sb inp src write_size m r' d'" "\<forall>c. r' = Ok c \<longrightarrow> wrote + ?len \<le> c"
            "r' = Err () \<longrightarrow> fblock ip1 ?d2 ((offset + m) div BSIZE) = 0"
            "\<forall>j. offset + (wrote + ?len) \<le> j \<and> j < offset + m \<longrightarrow> fblock ip' d' (j div BSIZE) \<noteq> 0"
          by (elim exE conjE) (rule that)
        have fb: "fbyte ip' d' = written_from mem src offset wrote m (fbyte ip d)"
          unfolding IH(5) fb2 len by (rule written_from_append) (use IH(3) in simp_all)
        have "r' = Err () \<longrightarrow> fblock ip d ((offset + m) div BSIZE) = 0"
          using IH(8) evolve_fblock [OF evolve_trans [OF ev1 ev2] fblock_bound] by metis
        moreover have "fblock ip' d' (j div BSIZE) \<noteq> 0" if "?off \<le> j" "j < offset + m" for j
          using that IH(9) same [of j] evolve_fblock [OF IH(2) fblock_bound] len by (cases "j < ?off + ?len") (auto simp: add.assoc)
        ultimately show ?thesis using step IH(1,3,4,6,7) fb evolve_trans [OF ev1 evolve_trans [OF ev2 IH(2)]]
          by (intro exI [of _ r'] exI [of _ ip'] exI [of _ d'] exI [of _ m]) auto
      qed
    qed
  qed
qed

subsection \<open>The inode table\<close>

definition inode_at :: "superblock \<Rightarrow> nat \<Rightarrow> disk_view \<Rightarrow> dinode option" where
  "inode_at sb inum d = inode_in (inum mod INODES_PER_BLOCK) (blk d (inode_block_at sb inum))"

lemma inode_ok_outside:
  assumes ok: "inode_ok sb ip d" and d': "blk d' = (blk d)(b := x)" "no_buffer d' = no_buffer d" "length x = BSIZE"
    and b: "b \<in> inode_table sb"
  shows "inode_ok sb ip d'" "fblock ip d' = fblock ip d" "fbyte ip d' = fbyte ip d" "in_use sb d' = in_use sb d" "inode_blocks ip d' = inode_blocks ip d"
proof -
  have al: "alloc_ok sb d" using inode_okD(1) [OF ok] .
  have nb: "b \<notin> bitmap_blocks sb" using al b by (auto simp: alloc_ok_def)
  show iu: "in_use sb d' = in_use sb d" using in_use_upd [OF d'(1) nb] .
  have ne: "c \<noteq> b" if "c \<in> inode_blocks ip d" for c using inode_okD(8) [OF ok that] b by auto
  show fb: "fblock ip d' = fblock ip d" using inode_okD(5) [OF ok] ne d'(1) by (intro fblock_cong) auto
  show ib: "inode_blocks ip d' = inode_blocks ip d" by (simp add: inode_blocks_def fb)
  have "alloc_ok sb d'" using al d' iu by (auto simp: alloc_ok_def disk_ok_def)
  then show "inode_ok sb ip d'" using ok by (simp add: inode_ok_def fb iu ib)
  show "fbyte ip d' = fbyte ip d"
    using fb ne inode_okD(4) [OF ok] d'(1) by (intro fbyte_kept) auto
qed

lemma inode_ok_attrs:
  assumes "inode_ok sb ip d" "addrs (inode ip') = addrs (inode ip)" "chain (inode ip') = chain (inode ip)"
  shows "inode_ok sb ip' d" "fblock ip' d = fblock ip d" "fbyte ip' d = fbyte ip d" "inode_blocks ip' d = inode_blocks ip d"
proof -
  have ch: "chain_block ip' = chain_block ip" using assms by (simp add: chain_block_def)
  show fb: "fblock ip' d = fblock ip d" using assms by (auto simp: fblock_def ch fun_eq_iff)
  show ib: "inode_blocks ip' d = inode_blocks ip d" by (simp add: inode_blocks_def fb ch)
  show "fbyte ip' d = fbyte ip d" by (simp add: fbyte_def fb fun_eq_iff)
  show "inode_ok sb ip' d" using assms by (simp add: inode_ok_def fb ib ch)
qed

lemma same_inode_slot: "i div INODES_PER_BLOCK = j div INODES_PER_BLOCK \<Longrightarrow> i mod INODES_PER_BLOCK = j mod INODES_PER_BLOCK \<Longrightarrow> i = j"
  by (metis mult_div_mod_eq)

lemma update_spec:
  assumes ok: "inode_ok sb ip d" and n: "inode_number ip < unat (ninodes sb)"
  shows "\<exists>d'. update sb ip d = Some d' \<and> inode_ok sb ip d' \<and> fblock ip d' = fblock ip d \<and> fbyte ip d' = fbyte ip d \<and>
    in_use sb d' = in_use sb d \<and> inode_blocks ip d' = inode_blocks ip d \<and> (\<forall>b. b \<noteq> inode_block_at sb (inode_number ip) \<longrightarrow> blk d' b = blk d b) \<and>
    (\<forall>i. inode_at sb i d' = (if i = inode_number ip then Some (inode ip) else inode_at sb i d))"
proof -
  let ?b = "inode_block_at sb (inode_number ip)" and ?k = "inode_number ip mod INODES_PER_BLOCK"
  let ?x = "put_inode ?k (inode ip) (blk d ?b)"
  let ?d = "put_block ?b ?x d"
  have ipb: "0 < INODES_PER_BLOCK" by (simp add: fs_consts)
  have len: "length (blk d ?b) = BSIZE" using disk_okD(1) [OF inode_okD(2) [OF ok]] .
  have k: "j mod INODES_PER_BLOCK < INODES_PER_BLOCK" for j using ipb by simp
  have "update sb ip d = Some ?d" using inode_okD(2) [OF ok] by (simp add: update_def inode_block_at_def Let_def)
  moreover have "length ?x = BSIZE" using len inode_okD(3) [OF ok] k by simp
  moreover have "?b \<in> inode_table sb" using n by (auto simp: inode_table_def)
  moreover have "inode_at sb i ?d = (if i = inode_number ip then Some (inode ip) else inode_at sb i d)" for i
  proof (cases "inode_block_at sb i = ?b")
    case True
    then have "i = inode_number ip \<longleftrightarrow> i mod INODES_PER_BLOCK = ?k" using same_inode_slot [of i "inode_number ip"] by (auto simp: inode_block_at_def)
    then show ?thesis using True inode_in_put [OF len inode_okD(3) [OF ok] k k] by (simp add: inode_at_def)
  next
    case False then show ?thesis by (auto simp: inode_at_def)
  qed
  ultimately show ?thesis using inode_ok_outside [OF ok, of ?d ?b ?x] by auto
qed

subsection \<open>Writing a file\<close>

lemma unat_max_of_nat: "x < 2 ^ 32 \<Longrightarrow> unat (max w (of_nat x :: u32)) = max (unat w) x"
proof -
  assume "x < 2 ^ 32"
  then have "unat (of_nat x :: u32) = x" by (simp add: unsigned_of_nat take_bit_nat_eq_self)
  then show ?thesis by (simp add: max_def word_le_nat_alt)
qed

definition write_refused :: "nat \<Rightarrow> nat \<Rightarrow> nat \<Rightarrow> bool" where
  "write_refused fsize offset n \<longleftrightarrow> offset > fsize \<or> offset + n \<ge> 2 ^ 64 \<or> offset + n > MAXFILE * BSIZE"

text \<open>What a write leaves of the rest of the disk.\<close>

definition others_kept :: "superblock \<Rightarrow> cinode \<Rightarrow> disk_view \<Rightarrow> disk_view \<Rightarrow> bool" where
  "others_kept sb ip d d' \<longleftrightarrow> in_use sb d \<subseteq> in_use sb d' \<and>
     (\<forall>b \<in> in_use sb d - bitmap_blocks sb - inode_table sb - inode_blocks ip d. blk d' b = blk d b) \<and>
     (\<forall>i<unat (ninodes sb). i \<noteq> inode_number ip \<longrightarrow> inode_at sb i d' = inode_at sb i d)"

lemma evolve_inode_at:
  assumes ok: "inode_ok sb ip d" and ev: "evolve sb ip d ip' d'" and i: "i < unat (ninodes sb)"
  shows "inode_at sb i d' = inode_at sb i d"
proof -
  have t: "inode_block_at sb i \<in> inode_table sb" using i by (auto simp: inode_table_def)
  then have "inode_block_at sb i \<in> in_use sb d - bitmap_blocks sb - inode_blocks ip d"
    using inode_okD(1) [OF ok] inode_okD(8) [OF ok] by (auto simp: alloc_ok_def)
  then show ?thesis using ev by (simp add: evolve_def inode_at_def)
qed

lemma others_kept_evolve: "inode_ok sb ip d \<Longrightarrow> evolve sb ip d ip' d' \<Longrightarrow> others_kept sb ip d d'"
  using evolve_inode_at unfolding others_kept_def evolve_def by blast

lemma others_kept_update:
  assumes "others_kept sb ip d d1" "in_use sb d' = in_use sb d1" "inode_block_at sb (inode_number ip) \<in> inode_table sb"
    and "\<forall>b. b \<noteq> inode_block_at sb (inode_number ip) \<longrightarrow> blk d' b = blk d1 b" "\<forall>i. i \<noteq> inode_number ip \<longrightarrow> inode_at sb i d' = inode_at sb i d1"
  shows "others_kept sb ip d d'"
  unfolding others_kept_def
proof (intro conjI ballI allI impI)
  show "in_use sb d \<subseteq> in_use sb d'" using assms(1,2) by (simp add: others_kept_def)
  fix b assume b: "b \<in> in_use sb d - bitmap_blocks sb - inode_table sb - inode_blocks ip d"
  then have "b \<noteq> inode_block_at sb (inode_number ip)" using assms(3) by auto
  then show "blk d' b = blk d b" using assms(1,4) b by (simp add: others_kept_def)
next
  fix i assume "i < unat (ninodes sb)" "i \<noteq> inode_number ip"
  then show "inode_at sb i d' = inode_at sb i d" using assms(1,5) by (simp add: others_kept_def)
qed

text \<open>The outcome of a write of \<open>n\<close> bytes that is not refused: \<open>m\<close> bytes of the source are in the file.\<close>

definition write_outcome :: "superblock \<Rightarrow> (usize \<Rightarrow> nat \<Rightarrow> u8 list \<times> bool) \<Rightarrow> usize \<Rightarrow> nat \<Rightarrow> nat \<Rightarrow> cinode \<Rightarrow> disk_view \<Rightarrow>
    (nat, unit) result \<Rightarrow> nat \<Rightarrow> cinode \<Rightarrow> disk_view \<Rightarrow> bool" where
  "write_outcome sb inp src offset n ip d r m ip' d' \<longleftrightarrow> (case r of
     Ok c \<Rightarrow> c \<le> m \<and> (c = n \<or> c < n \<and> (\<exists>k\<le>n - c. \<not> snd (inp (src + of_nat c) k))) \<and>
       file_size ip' = max (file_size ip) (offset + c) \<and> inode_at sb (inode_number ip) d' = Some (inode ip')
   | Err _ \<Rightarrow> m < n \<and> in_use sb d' = {..<fs_size sb} \<and> fblock ip d ((offset + m) div BSIZE) = 0 \<and> evolve sb ip d ip' d' \<and> file_size ip' = file_size ip \<and>
       inode_at sb (inode_number ip) d' = inode_at sb (inode_number ip) d)"

lemma copy_from_spec:
  assumes ok: "file_ok sb ip d" and num: "inode_number ip < unat (ninodes sb)" and sr: "source inp mem"
    and n: "type_size * count < 2 ^ 64" and w: "\<not> write_refused (file_size ip) offset (type_size * count)"
  shows "\<exists>r ip' d' m. copy_from sb inp type_size src offset count ip d = Some (r, ip', d') \<and> file_ok sb ip' d' \<and> m \<le> type_size * count \<and>
    fbyte ip' d' = written_from mem src offset 0 m (fbyte ip d) \<and> others_kept sb ip d d' \<and>
    inode_blocks ip' d' = inode_blocks ip d \<union> (in_use sb d' - in_use sb d) \<and>
    device ip' = device ip \<and> inode_number ip' = inode_number ip \<and> is_initialized ip' = is_initialized ip \<and> kind (inode ip') = kind (inode ip) \<and>
    major (inode ip') = major (inode ip) \<and> minor (inode ip') = minor (inode ip) \<and> nlink (inode ip') = nlink (inode ip) \<and>
    write_outcome sb inp src offset (type_size * count) ip d r m ip' d'"
proof -
  let ?n = "type_size * count"
  note ino = file_okD(1) [OF ok]
  have le: "offset + ?n \<le> MAXFILE * BSIZE" "offset \<le> file_size ip" using w by (simp_all add: write_refused_def)
  from copy_from_loop_spec [OF sr le(1) ino le0] obtain r ip1 d1 m where
    1: "copy_from_loop sb inp src offset ?n 0 ip d = Some (r, ip1, d1)" "evolve sb ip d ip1 d1" "m \<le> ?n"
      "fbyte ip1 d1 = written_from mem src offset 0 m (fbyte ip d)" "wrote_all sb inp src ?n m r d1"
      "r = Err () \<longrightarrow> fblock ip d ((offset + m) div BSIZE) = 0"
      "\<forall>j. offset + 0 \<le> j \<and> j < offset + m \<longrightarrow> fblock ip1 d1 (j div BSIZE) \<noteq> 0" by blast
  have ok1: "inode_ok sb ip1 d1" and at: "same_attrs ip ip1" and blks: "inode_blocks ip1 d1 = inode_blocks ip d \<union> (in_use sb d1 - in_use sb d)"
    using 1(2) by (simp_all add: evolve_def)
  have dense: "fblock ip1 d1 (j div BSIZE) \<noteq> 0" if "j < file_size ip" for j
    using evolve_fblock [OF 1(2) fblock_bound] file_okD(3) [OF ok that] by metis
  have sz: "file_size ip1 = file_size ip" using at by (simp add: same_attrs_def file_size_def)
  have keep: "others_kept sb ip d d1" using others_kept_evolve [OF ino 1(2)] .
  show ?thesis
  proof (cases r)
    case (Err e)
    then have "copy_from sb inp type_size src offset count ip d = Some (r, ip1, d1)" using 1(1) w n by (simp add: copy_from_def write_refused_def Let_def)
    moreover have "file_ok sb ip1 d1" using ok1 dense sz file_okD(2) [OF ok] by (simp add: file_ok_def)
    moreover have "write_outcome sb inp src offset ?n ip d r m ip1 d1"
      using Err 1(2,5,6) sz evolve_inode_at [OF ino 1(2) num] by (simp add: write_outcome_def wrote_all_def)
    ultimately show ?thesis using 1(3,4) keep at blks by (intro exI [of _ r] exI [of _ ip1] exI [of _ d1] exI [of _ m]) (simp add: same_attrs_def)
  next
    case (Ok c)
    let ?ip = "ip1\<lparr>inode := (inode ip1)\<lparr>isize := max (isize (inode ip1)) (of_nat (offset + c))\<rparr>\<rparr>"
    have c: "c \<le> m" "c = ?n \<or> c < ?n \<and> (\<exists>k\<le>?n - c. \<not> snd (inp (src + of_nat c) k))" using 1(5) Ok by (simp_all add: wrote_all_def)
    have ok2: "inode_ok sb ?ip d1" "fblock ?ip d1 = fblock ip1 d1" "fbyte ?ip d1 = fbyte ip1 d1" "inode_blocks ?ip d1 = inode_blocks ip1 d1"
      by (rule inode_ok_attrs [OF ok1]; simp)+
    have num': "inode_number ?ip < unat (ninodes sb)" using num at by (simp add: same_attrs_def)
    from update_spec [OF ok2(1) num'] obtain d2 where
      2: "update sb ?ip d1 = Some d2" "inode_ok sb ?ip d2" "fblock ?ip d2 = fblock ?ip d1" "fbyte ?ip d2 = fbyte ?ip d1" "in_use sb d2 = in_use sb d1"
        "\<forall>b. b \<noteq> inode_block_at sb (inode_number ?ip) \<longrightarrow> blk d2 b = blk d1 b"
        "\<forall>i. inode_at sb i d2 = (if i = inode_number ?ip then Some (inode ?ip) else inode_at sb i d1)" "inode_blocks ?ip d2 = inode_blocks ?ip d1" by (elim exE conjE) (rule that)
    have sz': "file_size ?ip = max (file_size ip) (offset + c)"
      using unat_max_of_nat [of "offset + c" "isize (inode ip1)"] le(1) c(1) 1(3) sz by (simp add: file_size_def fs_consts)
    have run: "copy_from sb inp type_size src offset count ip d = Some (Ok c, ?ip, d2)"
      using 1(1) w n Ok 2(1) by (simp add: copy_from_def write_refused_def Let_def)
    have "fblock ?ip d2 (j div BSIZE) \<noteq> 0" if "j < max (file_size ip) (offset + c)" for j
      unfolding 2(3) ok2(2) using dense [of j] that 1(7) le(2) c(1) by (cases "j < file_size ip") auto
    then have "file_ok sb ?ip d2" using 2(2) sz' file_okD(2) [OF ok] le(1) c(1) 1(3) by (simp add: file_ok_def)
    moreover have "others_kept sb ip d d2"
      using num at 2(5-7) by (intro others_kept_update [OF keep]) (auto simp: same_attrs_def inode_table_def)
    moreover have "write_outcome sb inp src offset ?n ip d (Ok c) m ?ip d2"
      using c sz' 2(7) at by (simp add: write_outcome_def same_attrs_def)
    moreover have "inode_blocks ?ip d2 = inode_blocks ip d \<union> (in_use sb d2 - in_use sb d)" using 2(5,8) ok2(4) blks by simp
    ultimately show ?thesis using run 1(3,4) at 2(4) ok2(3)
      by (intro exI [of _ "Ok c"] exI [of _ ?ip] exI [of _ d2] exI [of _ m]) (simp add: same_attrs_def)
  qed
qed

subsection \<open>Truncating a file\<close>

lemma free_addrs_spec:
  assumes "disk_ok d" "\<forall>a\<in>set as. a \<noteq> 0 \<longrightarrow> unat a \<in> in_use sb d" "distinct (filter (\<lambda>a. a \<noteq> 0) as)"
  shows "\<exists>d'. for_each (free_addr sb) as d = Some d' \<and> disk_ok d' \<and> in_use sb d' = in_use sb d - unat ` (set as - {0}) \<and>
    (\<forall>c. c \<notin> bitmap_blocks sb \<longrightarrow> blk d' c = blk d c)"
  using assms
proof (induction as arbitrary: d)
  case (Cons a as)
  show ?case
  proof (cases "a = 0")
    case True
    then have "for_each (free_addr sb) (a # as) d = for_each (free_addr sb) as d" "set (a # as) - {0} = set as - {0}"
      by (auto simp: free_addr_def)
    then show ?thesis using Cons.IH [OF Cons.prems(1)] Cons.prems(2,3) True by simp
  next
    case False
    then obtain d1 where 1: "deallocate_block sb (unat a) d = Some d1" "disk_ok d1" "in_use sb d1 = in_use sb d - {unat a}"
      "\<forall>c. c \<notin> bitmap_blocks sb \<longrightarrow> blk d1 c = blk d c"
      using deallocate_block_spec [OF Cons.prems(1)] Cons.prems(2) by (metis list.set_intros(1))
    have "a \<notin> set as" using Cons.prems(3) False by simp
    then have "unat b \<noteq> unat a" if "b \<in> set as" for b using that unsigned_word_eqI [of b a] by auto
    then have "\<forall>a\<in>set as. a \<noteq> 0 \<longrightarrow> unat a \<in> in_use sb d1" using Cons.prems(2) 1(3) by simp
    moreover have "distinct (filter (\<lambda>a. a \<noteq> 0) as)" using Cons.prems(3) False by simp
    ultimately obtain d' where d': "for_each (free_addr sb) as d1 = Some d'" "disk_ok d'" "in_use sb d' = in_use sb d1 - unat ` (set as - {0})"
      "\<forall>c. c \<notin> bitmap_blocks sb \<longrightarrow> blk d' c = blk d1 c" using Cons.IH [OF 1(2)] by blast
    have "set (a # as) - {0} = insert a (set as - {0})" using False by auto
    then have "in_use sb d' = in_use sb d - unat ` (set (a # as) - {0})" using d'(3) 1(3) by auto
    moreover have "for_each (free_addr sb) (a # as) d = Some d'" using 1(1) d'(1) False by (simp add: free_addr_def)
    ultimately show ?thesis using d'(2,4) 1(4) by simp
  qed
qed simp

lemma distinct_filterI: "\<forall>i j. i < length as \<and> j < length as \<and> P (as ! i) \<and> as ! i = as ! j \<longrightarrow> i = j \<Longrightarrow> distinct (filter P as)"
proof (induction as)
  case (Cons a as)
  have "i = j" if "i < length as" "j < length as" "P (as ! i)" "as ! i = as ! j" for i j
    using Cons.prems [rule_format, of "Suc i" "Suc j"] that by simp
  then have "distinct (filter P as)" by (intro Cons.IH) blast
  moreover have "a \<notin> set as" if "P a"
  proof
    assume "a \<in> set as"
    then obtain k where "k < length as" "as ! k = a" by (auto simp: in_set_conv_nth)
    then show False using Cons.prems [rule_format, of 0 "Suc k"] that by simp
  qed
  ultimately show ?case by simp
qed simp

lemma distinct_addrs:
  fixes as :: "u32 list"
  assumes ok: "inode_ok sb ip d" and len: "lo + length as \<le> MAXFILE" and as: "\<And>k. k < length as \<Longrightarrow> unat (as ! k) = fblock ip d (lo + k)"
  shows "distinct (filter (\<lambda>a. a \<noteq> 0) as)" "unat ` (set as - {0}) = fblock ip d ` {lo..<lo + length as} - {0}"
proof -
  have "i = j" if ij: "i < length as" "j < length as" "as ! i \<noteq> 0" "as ! i = as ! j" for i j
  proof -
    have f: "fblock ip d (lo + i) \<noteq> 0" "fblock ip d (lo + i) = fblock ip d (lo + j)"
      using ij as [of i] as [of j] by (metis unat_eq_zero)+
    have "lo + i = lo + j" by (rule inode_okD(9) [OF ok _ _ f]) (use ij len in simp_all)
    then show ?thesis by simp
  qed
  then show "distinct (filter (\<lambda>a. a \<noteq> 0) as)" by (intro distinct_filterI) blast
next
  have "unat ` set as = fblock ip d ` {lo..<lo + length as}"
  proof (intro set_eqI iffI)
    fix b assume "b \<in> unat ` set as"
    then obtain k where "k < length as" "b = unat (as ! k)" by (auto simp: in_set_conv_nth)
    then show "b \<in> fblock ip d ` {lo..<lo + length as}" using as by auto
  next
    fix b assume "b \<in> fblock ip d ` {lo..<lo + length as}"
    then obtain k where "lo \<le> k" "k < lo + length as" "b = fblock ip d k" by auto
    then show "b \<in> unat ` set as" using as [of "k - lo"] by (auto intro!: image_eqI [of _ _ "as ! (k - lo)"])
  qed
  moreover have "unat ` (A - {0}) = unat ` A - {0}" for A :: "u32 set" by (auto simp: unat_eq_zero)
  ultimately show "unat ` (set as - {0}) = fblock ip d ` {lo..<lo + length as} - {0}" by simp
qed

lemma blocks_direct:
  assumes ok: "inode_ok sb ip d"
  shows "distinct (filter (\<lambda>a. a \<noteq> 0) (addrs (inode ip)))" "unat ` (set (addrs (inode ip)) - {0}) = fblock ip d ` {0..<NDIRECT} - {0}"
proof -
  note len = inode_okD(3) [OF ok]
  have as: "unat (addrs (inode ip) ! k) = fblock ip d (0 + k)" if "k < length (addrs (inode ip))" for k using that len by (simp add: fblock_def)
  have le: "0 + length (addrs (inode ip)) \<le> MAXFILE" using len by (simp add: MAXFILE_def)
  show "distinct (filter (\<lambda>a. a \<noteq> 0) (addrs (inode ip)))" by (rule distinct_addrs(1) [OF ok le as])
  show "unat ` (set (addrs (inode ip)) - {0}) = fblock ip d ` {0..<NDIRECT} - {0}" using distinct_addrs(2) [OF ok le as] len by simp
qed

lemma blocks_chained:
  assumes ok: "inode_ok sb ip d" and c: "chain_block ip \<noteq> 0" and as: "as = map (\<lambda>k. u32_in k (blk d (chain_block ip))) [0..<NINDIRECT]"
  shows "distinct (filter (\<lambda>a. a \<noteq> 0) as)" "unat ` (set as - {0}) = fblock ip d ` {NDIRECT..<MAXFILE} - {0}"
proof -
  have len: "length as = NINDIRECT" using as by simp
  have at: "unat (as ! k) = fblock ip d (NDIRECT + k)" if "k < length as" for k using that as c by (simp add: fblock_def MAXFILE_def)
  have le: "NDIRECT + length as \<le> MAXFILE" using len by (simp add: MAXFILE_def)
  show "distinct (filter (\<lambda>a. a \<noteq> 0) as)" by (rule distinct_addrs(1) [OF ok le at])
  show "unat ` (set as - {0}) = fblock ip d ` {NDIRECT..<MAXFILE} - {0}" using distinct_addrs(2) [OF ok le at] len by (simp add: MAXFILE_def)
qed

lemma blocks_split:
  "inode_blocks ip d = (fblock ip d ` {0..<NDIRECT} - {0}) \<union> (fblock ip d ` {NDIRECT..<MAXFILE} - {0}) \<union> ({chain_block ip} - {0})"
proof -
  have "{..<MAXFILE} = {0..<NDIRECT} \<union> {NDIRECT..<MAXFILE}" by (auto simp: MAXFILE_def)
  then have "fblock ip d ` {..<MAXFILE} = fblock ip d ` {0..<NDIRECT} \<union> fblock ip d ` {NDIRECT..<MAXFILE}" by (metis image_Un)
  then show ?thesis unfolding inode_blocks_def by blast
qed

lemma inode_blocks_meta: "inode_ok sb ip d \<Longrightarrow> inode_blocks ip d \<subseteq> in_use sb d" "inode_ok sb ip d \<Longrightarrow> inode_blocks ip d \<inter> bitmap_blocks sb = {}"
  by (auto simp: inode_ok_def)

text \<open>The blocks of the file are freed: the direct ones, then, if there is one, those of the block of addresses and this block.\<close>

lemma free_direct:
  assumes ok: "inode_ok sb ip d"
  shows "\<exists>d'. for_each (free_addr sb) (addrs (inode ip)) d = Some d' \<and> disk_ok d' \<and> in_use sb d' = in_use sb d - (fblock ip d ` {0..<NDIRECT} - {0}) \<and>
    (\<forall>c. c \<notin> bitmap_blocks sb \<longrightarrow> blk d' c = blk d c)"
proof -
  have "\<forall>a\<in>set (addrs (inode ip)). a \<noteq> 0 \<longrightarrow> unat a \<in> in_use sb d"
    using blocks_direct(2) [OF ok] blocks_split [of ip d] inode_blocks_meta(1) [OF ok] by blast
  from free_addrs_spec [OF inode_okD(2) [OF ok] this blocks_direct(1) [OF ok]] show ?thesis by (simp add: blocks_direct(2) [OF ok])
qed

lemma free_chained:
  assumes ok: "inode_ok sb ip d" and c: "chain_block ip \<noteq> 0" and d1: "disk_ok d1" "in_use sb d1 = in_use sb d - (fblock ip d ` {0..<NDIRECT} - {0})"
    and blk: "\<forall>c. c \<notin> bitmap_blocks sb \<longrightarrow> blk d1 c = blk d c"
  shows "\<exists>d2 d3. for_each (free_addr sb) (map (\<lambda>k. u32_in k (blk d1 (chain_block ip))) [0..<NINDIRECT]) d1 = Some d2 \<and>
    deallocate_block sb (chain_block ip) d2 = Some d3 \<and> disk_ok d3 \<and> in_use sb d3 = in_use sb d - inode_blocks ip d \<and>
    (\<forall>c. c \<notin> bitmap_blocks sb \<longrightarrow> blk d3 c = blk d c)"
proof -
  note cb = inode_okD(5) [OF ok c]
  have same: "blk d1 (chain_block ip) = blk d (chain_block ip)" using blk inode_okD(7) [OF ok cb] by blast
  let ?as = "map (\<lambda>k. u32_in k (blk d (chain_block ip))) [0..<NINDIRECT]"
  note ch = blocks_chained [OF ok c refl]
  have apart: "fblock ip d ` {NDIRECT..<MAXFILE} \<inter> (fblock ip d ` {0..<NDIRECT} - {0}) = {}"
  proof -
    have False if j: "NDIRECT \<le> j" "j < MAXFILE" and k: "k < NDIRECT" "fblock ip d k \<noteq> 0" "fblock ip d k = fblock ip d j" for j k
    proof -
      have "k = j" by (rule inode_okD(9) [OF ok _ j(2) k(2,3)]) (use k in \<open>simp add: MAXFILE_def\<close>)
      then show False using j(1) k(1) by simp
    qed
    then have "fblock ip d j \<notin> fblock ip d ` {0..<NDIRECT} - {0}" if "NDIRECT \<le> j" "j < MAXFILE" for j using that by fastforce
    then have "\<forall>b \<in> fblock ip d ` {NDIRECT..<MAXFILE}. b \<notin> fblock ip d ` {0..<NDIRECT} - {0}" unfolding ball_simps by simp
    then show ?thesis by blast
  qed
  have "unat ` (set ?as - {0}) \<subseteq> in_use sb d1"
    unfolding ch(2) d1(2) using apart blocks_split [of ip d] inode_blocks_meta(1) [OF ok] by blast
  then have "\<forall>a\<in>set ?as. a \<noteq> 0 \<longrightarrow> unat a \<in> in_use sb d1" by blast
  from free_addrs_spec [OF d1(1) this ch(1)] obtain d2 where 2: "for_each (free_addr sb) ?as d1 = Some d2" "disk_ok d2"
    "in_use sb d2 = in_use sb d1 - (fblock ip d ` {NDIRECT..<MAXFILE} - {0})" "\<forall>c. c \<notin> bitmap_blocks sb \<longrightarrow> blk d2 c = blk d1 c"
    unfolding ch(2) by blast
  have "chain_block ip \<noteq> fblock ip d k" if "k < MAXFILE" for k using inode_okD(10) [OF ok that] c by metis
  then have "chain_block ip \<notin> fblock ip d ` {0..<MAXFILE}" by force
  then have "chain_block ip \<notin> fblock ip d ` {0..<NDIRECT}" "chain_block ip \<notin> fblock ip d ` {NDIRECT..<MAXFILE}" by (auto simp: MAXFILE_def image_iff)
  then have "chain_block ip \<in> in_use sb d2" unfolding 2(3) d1(2) using inode_okD(6) [OF ok cb] by blast
  from deallocate_block_spec [OF 2(2) this] obtain d3 where 3: "deallocate_block sb (chain_block ip) d2 = Some d3" "disk_ok d3"
    "in_use sb d3 = in_use sb d2 - {chain_block ip}" "\<forall>c. c \<notin> bitmap_blocks sb \<longrightarrow> blk d3 c = blk d2 c" by blast
  have "in_use sb d3 = in_use sb d - inode_blocks ip d" unfolding 3(3) 2(3) d1(2) blocks_split using c by blast
  then show ?thesis using 2 3 blk same by auto
qed

lemma truncate_spec:
  assumes ok: "inode_ok sb ip d" and num: "inode_number ip < unat (ninodes sb)"
  shows "\<exists>ip' d'. truncate sb ip d = Some (ip', d') \<and> in_use sb d' = in_use sb d - inode_blocks ip d \<and>
    inode ip' = (inode ip)\<lparr>isize := 0, addrs := replicate NDIRECT 0, chain := 0\<rparr> \<and> inode_number ip' = inode_number ip \<and>
    device ip' = device ip \<and> is_initialized ip' = is_initialized ip \<and>
    file_ok sb ip' d' \<and> (\<forall>i<unat (ninodes sb). inode_at sb i d' = (if i = inode_number ip then Some (inode ip') else inode_at sb i d)) \<and>
    (\<forall>b. b \<notin> bitmap_blocks sb \<and> b \<noteq> inode_block_at sb (inode_number ip) \<longrightarrow> blk d' b = blk d b)"
proof -
  obtain d1 where 1: "for_each (free_addr sb) (addrs (inode ip)) d = Some d1" "disk_ok d1" "in_use sb d1 = in_use sb d - (fblock ip d ` {0..<NDIRECT} - {0})"
    "\<forall>c. c \<notin> bitmap_blocks sb \<longrightarrow> blk d1 c = blk d c" using free_direct [OF ok] by blast
  let ?ip = "ip\<lparr>inode := (inode ip)\<lparr>isize := 0, addrs := replicate NDIRECT 0, chain := 0\<rparr>\<rparr>"
  obtain d2 where 2: "disk_ok d2" "in_use sb d2 = in_use sb d - inode_blocks ip d" "\<forall>c. c \<notin> bitmap_blocks sb \<longrightarrow> blk d2 c = blk d c"
    "truncate sb ip d = do { d \<leftarrow> update sb ?ip d2; Some (?ip, d) }"
  proof (cases "chain_block ip = 0")
    case True
    have "fblock ip d ` {NDIRECT..<MAXFILE} - {0} = {}" using True by (auto simp: fblock_def)
    then have "in_use sb d1 = in_use sb d - inode_blocks ip d" using 1(3) True blocks_split [of ip d] by auto
    moreover have "chain (inode ip) = 0" using True by (simp add: chain_block_def unat_eq_zero)
    then have "truncate sb ip d = do { d \<leftarrow> update sb ?ip d1; Some (?ip, d) }"
      using 1(1) inode_okD(3) [OF ok] by (simp add: truncate_def Let_def) (cases "inode ip", simp)
    ultimately show ?thesis using that 1(2,4) by blast
  next
    case False
    from free_chained [OF ok False 1(2,3,4)] obtain e d3 where
      3: "for_each (free_addr sb) (map (\<lambda>k. u32_in k (blk d1 (chain_block ip))) [0..<NINDIRECT]) d1 = Some e"
      "deallocate_block sb (chain_block ip) e = Some d3" "disk_ok d3" "in_use sb d3 = in_use sb d - inode_blocks ip d"
      "\<forall>c. c \<notin> bitmap_blocks sb \<longrightarrow> blk d3 c = blk d c" by blast
    have "chain (inode ip) \<noteq> 0" using False by (auto simp: chain_block_def)
    then have "truncate sb ip d = do { d \<leftarrow> update sb ?ip d3; Some (?ip, d) }"
      using 1(1,2) 3(1,2) inode_okD(3) [OF ok] by (simp add: truncate_def Let_def chain_block_def set_chain_def) (cases "inode ip", simp)
    then show ?thesis using that 3 by blast
  qed
  have fb: "fblock ?ip d2 k = 0" for k by (simp add: fblock_def chain_block_def)
  then have ib: "inode_blocks ?ip d2 = {}" by (auto simp: inode_blocks_def chain_block_def)
  have "alloc_ok sb d2" using 2(1,2) inode_okD(1) [OF ok] ok by (auto simp: alloc_ok_def inode_ok_def inode_blocks_def)
  then have ok2: "inode_ok sb ?ip d2" by (simp add: inode_ok_def ib fb)
  have num': "inode_number ?ip < unat (ninodes sb)" using num by simp
  from update_spec [OF ok2 num'] obtain d3 where 3: "update sb ?ip d2 = Some d3" "inode_ok sb ?ip d3" "in_use sb d3 = in_use sb d2"
    "\<forall>b. b \<noteq> inode_block_at sb (inode_number ?ip) \<longrightarrow> blk d3 b = blk d2 b"
    "\<forall>i. inode_at sb i d3 = (if i = inode_number ?ip then Some (inode ?ip) else inode_at sb i d2)" by (elim exE conjE) (rule that)
  have "file_ok sb ?ip d3" using 3(2) by (simp add: file_ok_def file_size_def)
  moreover have "inode_at sb i d2 = inode_at sb i d" if "i < unat (ninodes sb)" for i
  proof -
    have "inode_block_at sb i \<notin> bitmap_blocks sb" using that inode_okD(1) [OF ok] by (auto simp: alloc_ok_def inode_table_def)
    then show ?thesis using 2(3) by (simp add: inode_at_def)
  qed
  ultimately show ?thesis using 2(2-4) 3 by (intro exI [of _ ?ip] exI [of _ d3]) simp
qed

end
