(* ===== verification/Example_Disk.thy ===== *)
theory Example_Disk
  imports Inode_Write
begin

text \<open>
  A small formatted disk, on which the theorems about the file system are put to use: 100 blocks, 16 inodes in block 2, the
  bitmap in block 3, the first ten blocks in use. Inode 1 is the root directory, whose entries \<open>.\<close>, \<open>..\<close> and
  \<open>a\<close> are in block 9; inode 2 is the empty file \<open>a\<close>.
\<close>

definition ex_sb :: superblock where
  "ex_sb = \<lparr>magic = FSMAGIC, sb_size = 100, nblocks = 90, ninodes = 16, nlog = 0, logstart = 2, inodestart = 2, bmapstart = 3\<rparr>"

definition ex_root :: dinode where
  "ex_root = \<lparr>kind = KDirectory, major = 0, minor = 0, nlink = 1, isize = 48, addrs = 9 # replicate 11 0, chain = 0\<rparr>"

definition ex_file :: dinode where
  "ex_file = inode_zeroed\<lparr>kind := KFile, nlink := 1\<rparr>"

definition ex_entries :: "u8 list" where
  "ex_entries = encode_dirent (dirent_new 1 [46]) @ encode_dirent (dirent_new 1 [46, 46]) @ encode_dirent (dirent_new 2 [97])"

definition ex_disk :: disk_view where
  "ex_disk = \<lparr>blk = (\<lambda>_. replicate BSIZE 0)
     (2 := put_inode 1 ex_root (put_inode 2 ex_file (replicate BSIZE 0)), 3 := overwrite 0 [0xff, 3] (replicate BSIZE 0),
      9 := overwrite 0 ex_entries (replicate BSIZE 0)), logged = [], no_buffer = {}\<rparr>"

definition ex_inode :: "nat \<Rightarrow> dinode" where
  "ex_inode i = (if i = 1 then ex_root else if i = 2 then ex_file else inode_zeroed)"

definition ex_cinode :: "nat \<Rightarrow> cinode" where
  "ex_cinode i = \<lparr>inode = ex_inode i, device = ROOTDEV, inode_number = i, is_initialized = True\<rparr>"

lemma ex_fs_size [simp]: "fs_size ex_sb = 100" "unat (ninodes ex_sb) = 16"
  by (simp_all add: ex_sb_def)

lemma length_ex_addrs [simp]: "length (addrs (ex_inode i)) = NDIRECT"
  by (simp add: ex_inode_def ex_root_def ex_file_def inode_zeroed_def NDIRECT_def)

lemma length_ex_entries: "length ex_entries = 48"
  by (simp add: ex_entries_def encode_dirent_def NAME_LENGTH_def)

lemma ex_disk_ok: "disk_ok ex_disk"
proof -
  have "length (addrs ex_root) = NDIRECT" "length (addrs ex_file) = NDIRECT" using length_ex_addrs [of 1] length_ex_addrs [of 2] by (simp_all add: ex_inode_def)
  moreover have "1 < INODES_PER_BLOCK" "2 < INODES_PER_BLOCK" "2 \<le> BSIZE" "48 \<le> BSIZE" by (simp_all add: fs_consts)
  ultimately show ?thesis using length_ex_entries by (simp add: disk_ok_def ex_disk_def)
qed

lemma ex_bit: "b < 100 \<Longrightarrow> bit (overwrite 0 [0xff, 3 :: u8] (replicate BSIZE 0) ! (b div 8)) (b mod 8) \<longleftrightarrow> b < 10"
proof -
  assume b: "b < 100"
  have n: "overwrite 0 [0xff, 3 :: u8] (replicate BSIZE 0) ! (b div 8) = (if b < 8 then 0xff else if b < 16 then 3 else 0)"
    using b by (auto simp: nth_overwrite BSIZE_def less_Suc_eq nth_Cons')
  have "bit (0xff :: u8) k" if "k < 8" for k
  proof -
    have "k = 0 \<or> k = 1 \<or> k = 2 \<or> k = 3 \<or> k = 4 \<or> k = 5 \<or> k = 6 \<or> k = 7" using that by arith
    then show ?thesis by auto
  qed
  moreover have "bit (3 :: u8) (k mod 8) \<longleftrightarrow> k < 10" if "\<not> k < 8" "k < 16" for k
  proof -
    have "k = 8 \<or> k = 9 \<or> k = 10 \<or> k = 11 \<or> k = 12 \<or> k = 13 \<or> k = 14 \<or> k = 15" using that by arith
    then show ?thesis by auto
  qed
  ultimately show ?thesis using n by (cases "b < 8"; cases "b < 16") simp_all
qed

lemma ex_at: "b < 100 \<Longrightarrow> bitmap_at ex_sb b = 3" "i < 16 \<Longrightarrow> inode_block_at ex_sb i = 2"
  by (simp_all add: bitmap_at_def inode_block_at_def ex_sb_def fs_consts)

lemma ex_meta: "bitmap_blocks ex_sb = {3}" "inode_table ex_sb = {2}"
proof -
  have "bitmap_at ex_sb ` {..<100} = (\<lambda>_. 3) ` {..<100 :: nat}" "inode_block_at ex_sb ` {..<16} = (\<lambda>_. 2) ` {..<16 :: nat}"
    by (rule image_cong; simp add: ex_at)+
  then show "bitmap_blocks ex_sb = {3}" "inode_table ex_sb = {2}" by (simp_all add: bitmap_blocks_def inode_table_def image_constant_conv lessThan_empty_iff)
qed

lemma ex_in_use: "in_use ex_sb ex_disk = {..<10}"
proof (rule set_eqI)
  fix b
  have "b \<in> in_use ex_sb ex_disk \<longleftrightarrow> b < 100 \<and> bit (overwrite 0 [0xff, 3 :: u8] (replicate BSIZE 0) ! (b div 8)) (b mod 8)"
    by (cases "b < 100") (simp_all add: in_use_iff used_def bitmap_get_bit ex_disk_def ex_at BITMAP_BITS_def BSIZE_def)
  then show "b \<in> in_use ex_sb ex_disk \<longleftrightarrow> b \<in> {..<10}" using ex_bit [of b] by auto
qed

lemma ex_alloc_ok: "alloc_ok ex_sb ex_disk"
  using ex_disk_ok by (simp add: alloc_ok_def ex_in_use ex_meta)

lemma inode_in_zeros: "k < INODES_PER_BLOCK \<Longrightarrow> inode_in k (replicate BSIZE 0) = Some inode_zeroed"
  by (simp add: inode_in_def decode_inode_def subrange_def of_le_zeros code_kind_def inode_zeroed_def map_replicate_const fs_consts)

lemma ex_inode_at: "i < 16 \<Longrightarrow> inode_at ex_sb i ex_disk = Some (ex_inode i)"
proof -
  assume i: "i < 16"
  let ?x = "put_inode 2 ex_file (replicate BSIZE 0)"
  have ipb: "INODES_PER_BLOCK = 16" by (simp add: fs_consts)
  have "length (addrs ex_file) = NDIRECT" "length (addrs ex_root) = NDIRECT" using length_ex_addrs [of 1] length_ex_addrs [of 2] by (simp_all add: ex_inode_def)
  then have "inode_in i (put_inode 1 ex_root ?x) = Some (ex_inode i)"
    using i by (simp add: inode_in_put ipb inode_in_zeros ex_inode_def)
  then show ?thesis using i by (simp add: inode_at_def inode_block_at_def ex_sb_def ex_disk_def ipb)
qed

lemma ex_fblock: "fblock (ex_cinode i) ex_disk k = (if i = 1 \<and> k = 0 then 9 else 0)"
  by (simp add: fblock_def chain_block_def ex_cinode_def ex_inode_def ex_root_def ex_file_def inode_zeroed_def nth_Cons' NDIRECT_def)

lemma ex_inode_blocks: "inode_blocks (ex_cinode i) ex_disk = (if i = 1 then {9} else {})"
proof -
  have "chain_block (ex_cinode i) = 0" by (simp add: chain_block_def ex_cinode_def ex_inode_def ex_root_def ex_file_def inode_zeroed_def)
  moreover have "fblock (ex_cinode i) ex_disk ` {..<MAXFILE} - {0} = (if i = 1 then {9} else {})"
    by (auto simp: ex_fblock image_iff fs_consts intro: bexI [of _ 0])
  ultimately show ?thesis by (auto simp: inode_blocks_def)
qed

lemma ex_inode_ok: "inode_ok ex_sb (ex_cinode i) ex_disk"
proof -
  have "chain_block (ex_cinode i) = 0" by (simp add: chain_block_def ex_cinode_def ex_inode_def ex_root_def ex_file_def inode_zeroed_def)
  moreover have "length (addrs (inode (ex_cinode i))) = NDIRECT" by (simp add: ex_cinode_def)
  ultimately show ?thesis using ex_alloc_ok by (auto simp: inode_ok_def ex_inode_blocks ex_in_use ex_meta ex_fblock split: if_splits)
qed

lemma ex_file_ok: "file_ok ex_sb (ex_cinode i) ex_disk"
proof -
  have "file_size (ex_cinode i) = (if i = 1 then 48 else 0)"
    by (simp add: file_size_def ex_cinode_def ex_inode_def ex_root_def ex_file_def inode_zeroed_def)
  then show ?thesis using ex_inode_ok [of i] by (auto simp: file_ok_def ex_fblock fs_consts)
qed

end
