(* ===== verification/File_Content.thy ===== *)
theory File_Content
  imports Example_Disk
begin

text \<open>
  What \<open>CachedInode\<close> promises of a file: what a write puts there a read gets back, a failed write leaves
  a prefix, truncation gives every block back, and other files are not touched.
\<close>


text \<open>The memory of which only the addresses below 3 can be read.\<close>

definition ex_source :: "usize \<Rightarrow> nat \<Rightarrow> u8 list \<times> bool" where
  "ex_source a n = (if unat a + n \<le> 3 then (replicate n 7, True) else ([], False))"

lemma ex_source: "source ex_source (\<lambda>_. 7)"
  by (simp add: source_def ex_source_def)




text \<open>
  C17. Truncating a file returns. It gives back exactly the blocks of the file, the indirect block included, leaves
  the file empty, in memory as on the disk, and changes no other inode and no other block outside the bitmap.
\<close>

theorem truncate_correct:
  assumes "inode_ok sb ip d" and "inode_number ip < unat (ninodes sb)"
  shows "\<exists>ip' d'. truncate sb ip d = Some (ip', d') \<and> in_use sb d' = in_use sb d - inode_blocks ip d \<and>
    inode ip' = (inode ip)\<lparr>isize := 0, addrs := replicate NDIRECT 0, chain := 0\<rparr> \<and> inode_number ip' = inode_number ip \<and>
    device ip' = device ip \<and> is_initialized ip' = is_initialized ip \<and>
    file_ok sb ip' d' \<and> (\<forall>i<unat (ninodes sb). inode_at sb i d' = (if i = inode_number ip then Some (inode ip') else inode_at sb i d)) \<and>
    (\<forall>b. b \<notin> bitmap_blocks sb \<and> b \<noteq> inode_block_at sb (inode_number ip) \<longrightarrow> blk d' b = blk d b)"
  by (rule truncate_spec [OF assms])

theorem truncate_correct_witness:
  "\<exists>ip' d'. truncate ex_sb (ex_cinode 1) ex_disk = Some (ip', d') \<and> in_use ex_sb d' = {..<9} \<and> inode_at ex_sb 2 d' = Some ex_file"
proof -
  have n: "inode_number (ex_cinode 1) < unat (ninodes ex_sb)" by (simp add: ex_cinode_def)
  from truncate_correct [OF ex_inode_ok n] obtain ip' d' where
    1: "truncate ex_sb (ex_cinode 1) ex_disk = Some (ip', d')" "in_use ex_sb d' = in_use ex_sb ex_disk - inode_blocks (ex_cinode 1) ex_disk"
      "\<forall>i<unat (ninodes ex_sb). inode_at ex_sb i d' = (if i = inode_number (ex_cinode 1) then Some (inode ip') else inode_at ex_sb i ex_disk)"
    by (elim exE conjE) (rule that)
  have "inode_at ex_sb 2 d' = Some ex_file" using 1(3) ex_inode_at [of 2] by (simp add: ex_cinode_def ex_inode_def)
  moreover have "in_use ex_sb d' = {..<9}" unfolding 1(2) by (auto simp: ex_in_use ex_inode_blocks)
  ultimately show ?thesis using 1(1) by blast
qed

end
