(* ===== verification/File_View.thy ===== *)
theory File_View
  imports Inode_Write
begin

text \<open>
  A file as its users see it: kind, device numbers, link count and bytes. \<open>file_view\<close> forgets the blocks. \<open>file_step\<close> is what any operation on one inode may
  do to the disk; every other inode then has the same view as before. An inode on the disk may be behind the one in memory (\<open>extends\<close>): a write that
  ran out of blocks has taken blocks and has not updated the inode on the disk. The views are the same.
\<close>

record afile =
  akind :: inode_kind
  amajor :: u16
  aminor :: u16
  anlink :: u16
  abytes :: "u8 list"

definition file_view :: "cinode \<Rightarrow> disk_view \<Rightarrow> afile" where
  "file_view ip d = \<lparr>akind = kind (inode ip), amajor = major (inode ip), aminor = minor (inode ip), anlink = nlink (inode ip),
     abytes = frange (fbyte ip d) 0 (file_size ip)\<rparr>"

lemma file_view_sel [simp]:
  "akind (file_view ip d) = kind (inode ip)" "anlink (file_view ip d) = nlink (inode ip)" "length (abytes (file_view ip d)) = file_size ip"
  "amajor (file_view ip d) = major (inode ip)" "aminor (file_view ip d) = minor (inode ip)"
  by (simp_all add: file_view_def)

lemma subrange_frange: "off + n \<le> m \<Longrightarrow> subrange off n (frange f 0 m) = frange f off n"
  by (rule nth_equalityI) (simp_all add: nth_subrange frange_def)

lemma file_view_bytes: "off + n \<le> file_size ip \<Longrightarrow> subrange off n (abytes (file_view ip d)) = frange (fbyte ip d) off n"
  by (simp add: file_view_def subrange_frange)

subsection \<open>Steps of one file\<close>

definition file_step :: "superblock \<Rightarrow> cinode \<Rightarrow> disk_view \<Rightarrow> cinode \<Rightarrow> disk_view \<Rightarrow> bool" where
  "file_step sb ip d ip' d' \<longleftrightarrow> file_ok sb ip' d' \<and>
     device ip' = device ip \<and> inode_number ip' = inode_number ip \<and> is_initialized ip' = is_initialized ip \<and>
     in_use sb d - inode_blocks ip d \<subseteq> in_use sb d' \<and> inode_blocks ip' d' \<inter> in_use sb d \<subseteq> inode_blocks ip d \<and>
     (\<forall>b \<in> in_use sb d - bitmap_blocks sb - inode_table sb - inode_blocks ip d. blk d' b = blk d b) \<and>
     (\<forall>i<unat (ninodes sb). i \<noteq> inode_number ip \<longrightarrow> inode_at sb i d' = inode_at sb i d) \<and>
     (inode_at sb (inode_number ip) d' = Some (inode ip') \<or>
      inode_at sb (inode_number ip) d' = inode_at sb (inode_number ip) d \<and> evolve sb ip d ip' d')"

lemma file_stepD:
  assumes "file_step sb ip d ip' d'"
  shows "file_ok sb ip' d'" "device ip' = device ip" "inode_number ip' = inode_number ip" "is_initialized ip' = is_initialized ip"
    "in_use sb d - inode_blocks ip d \<subseteq> in_use sb d'" "inode_blocks ip' d' \<inter> in_use sb d \<subseteq> inode_blocks ip d"
    "b \<in> in_use sb d \<Longrightarrow> b \<notin> bitmap_blocks sb \<Longrightarrow> b \<notin> inode_table sb \<Longrightarrow> b \<notin> inode_blocks ip d \<Longrightarrow> blk d' b = blk d b"
    "i < unat (ninodes sb) \<Longrightarrow> i \<noteq> inode_number ip \<Longrightarrow> inode_at sb i d' = inode_at sb i d"
    "inode_at sb (inode_number ip) d' = Some (inode ip') \<or> inode_at sb (inode_number ip) d' = inode_at sb (inode_number ip) d \<and> evolve sb ip d ip' d'"
  using assms by (simp_all add: file_step_def)

lemma file_step_refl: "file_ok sb ip d \<Longrightarrow> file_step sb ip d ip d"
  using evolve_refl by (auto simp: file_step_def file_ok_def)

text \<open>Another file does not notice.\<close>

lemma other_file:
  assumes st: "file_step sb ip d ip' d'" and ok: "file_ok sb jp d" and dj: "inode_blocks jp d \<inter> inode_blocks ip d = {}"
  shows "file_ok sb jp d'" "file_view jp d' = file_view jp d" "inode_blocks jp d' = inode_blocks jp d" "fblock jp d' = fblock jp d"
    "inode_blocks jp d' \<inter> inode_blocks ip' d' = {}"
proof -
  note ino = file_okD(1) [OF ok]
  have al: "alloc_ok sb d'" using file_okD(1) [OF file_stepD(1) [OF st]] by (simp add: inode_ok_def)
  have keep: "blk d' b = blk d b" "b \<in> in_use sb d'" if "b \<in> inode_blocks jp d" for b
    using that dj file_stepD(5,7) [OF st] inode_okD(6-8) [OF ino that] by blast+
  show fb: "fblock jp d' = fblock jp d" using keep(1) inode_okD(5) [OF ino] by (intro fblock_cong) auto
  show ib: "inode_blocks jp d' = inode_blocks jp d" by (simp add: inode_blocks_def fb)
  have "inode_ok sb jp d'" using ino al keep(2) by (auto simp: inode_ok_def fb ib)
  then show "file_ok sb jp d'" using ok by (simp add: file_ok_def fb)
  have "fbyte jp d' = fbyte jp d" using fb keep(1) inode_okD(4) [OF ino] by (intro fbyte_kept) auto
  then show "file_view jp d' = file_view jp d" by (simp add: file_view_def)
  show "inode_blocks jp d' \<inter> inode_blocks ip' d' = {}"
    unfolding ib using file_stepD(6) [OF st] dj inode_okD(6) [OF ino] by blast
qed

subsection \<open>The inode on the disk may be behind\<close>

definition extends :: "dinode \<Rightarrow> dinode \<Rightarrow> bool" where
  "extends i j \<longleftrightarrow> kind j = kind i \<and> major j = major i \<and> minor j = minor i \<and> nlink j = nlink i \<and> isize j = isize i \<and>
     length (addrs i) = NDIRECT \<and> length (addrs j) = NDIRECT \<and>
     (\<forall>k<NDIRECT. addrs i ! k \<noteq> 0 \<longrightarrow> addrs j ! k = addrs i ! k) \<and> (chain i \<noteq> 0 \<longrightarrow> chain j = chain i)"

lemma extends_refl [simp]: "extends i i \<longleftrightarrow> length (addrs i) = NDIRECT"
  by (auto simp: extends_def)

lemma extends_trans: "extends i j \<Longrightarrow> extends j k \<Longrightarrow> extends i k"
  unfolding extends_def by metis

lemma evolve_extends:
  assumes ok: "inode_ok sb ip d" and ev: "evolve sb ip d ip' d'"
  shows "extends (inode ip) (inode ip')"
proof -
  have "addrs (inode ip') ! k = addrs (inode ip) ! k" if "k < NDIRECT" "addrs (inode ip) ! k \<noteq> 0" for k
    using evolve_fblock [OF ev, of k] that by (intro unsigned_word_eqI [where 'a = nat]) (simp add: fblock_def MAXFILE_def unat_eq_zero)
  moreover have "chain (inode ip') = chain (inode ip)" if "chain (inode ip) \<noteq> 0"
    using ev that by (intro unsigned_word_eqI [where 'a = nat]) (simp add: evolve_def chain_block_def unat_eq_zero)
  ultimately show ?thesis using ev inode_okD(3) [OF ok] by (simp add: extends_def evolve_def same_attrs_def inode_ok_def)
qed

text \<open>\<open>di\<close> is the inode on the disk of a file whose inode in memory is that of \<open>ip\<close>.\<close>

definition behind :: "superblock \<Rightarrow> cinode \<Rightarrow> cinode \<Rightarrow> disk_view \<Rightarrow> bool" where
  "behind sb dp ip d \<longleftrightarrow> extends (inode dp) (inode ip) \<and> (\<forall>off<file_size dp. fblock dp d (off div BSIZE) \<noteq> 0)"

lemma behind_refl: "file_ok sb ip d \<Longrightarrow> inode dp = inode ip \<Longrightarrow> behind sb dp ip d"
  using fblock_cong [of dp ip d d] by (auto simp: behind_def file_ok_def inode_ok_def file_size_def)

lemma fblock_extends:
  assumes "extends (inode dp) (inode ip)"
  shows "fblock dp d k = 0 \<or> fblock dp d k = fblock ip d k" "chain_block dp = 0 \<or> chain_block dp = chain_block ip"
  using assms by (auto simp: extends_def fblock_def chain_block_def unat_eq_zero)

lemma behind_file:
  assumes b: "behind sb dp ip d" and ok: "file_ok sb ip d"
  shows "file_ok sb dp d" "inode_blocks dp d \<subseteq> inode_blocks ip d" "file_view dp d = file_view ip d"
proof -
  have ex: "extends (inode dp) (inode ip)" and dense: "\<And>off. off < file_size dp \<Longrightarrow> fblock dp d (off div BSIZE) \<noteq> 0"
    using b by (auto simp: behind_def)
  have fb: "\<And>k. fblock dp d k = 0 \<or> fblock dp d k = fblock ip d k" "chain_block dp = 0 \<or> chain_block dp = chain_block ip"
    using fblock_extends [OF ex] by blast+
  note ino = file_okD(1) [OF ok]
  have sz: "file_size dp = file_size ip" using ex by (simp add: extends_def file_size_def)
  show ib: "inode_blocks dp d \<subseteq> inode_blocks ip d" 
  proof
    fix b assume "b \<in> inode_blocks dp d"
    then have "b \<noteq> 0" "b = chain_block dp \<or> (\<exists>k<MAXFILE. b = fblock dp d k)" by (auto simp: inode_blocks_def)
    then consider "b = chain_block dp" | k where "k < MAXFILE" "b = fblock dp d k" by blast
    then show "b \<in> inode_blocks ip d"
    proof cases
      case 1
      then show ?thesis using fb(2) \<open>b \<noteq> 0\<close> by (auto simp: inode_blocks_def)
    next
      case 2
      then show ?thesis using fb(1) [of k] \<open>b \<noteq> 0\<close> inode_okD(4) [OF ino, of k] by auto
    qed
  qed
  have inj: "k = j" if "k < MAXFILE" "j < MAXFILE" "fblock dp d k \<noteq> 0" "fblock dp d k = fblock dp d j" for k j
    using that fb(1) [of k] fb(1) [of j] inode_okD(9) [OF ino that(1,2)] by metis
  have chn: "fblock dp d k \<noteq> chain_block dp" if "k < MAXFILE" "fblock dp d k \<noteq> 0" for k
    using that fb(1) [of k] fb(2) inode_okD(10) [OF ino that(1)] by metis
  have "inode_ok sb dp d" unfolding inode_ok_def using ino ib ex inj chn by (auto simp: inode_ok_def extends_def)
  then show "file_ok sb dp d" using dense ok sz by (simp add: file_ok_def)
  have "fbyte dp d off = fbyte ip d off" if "off < file_size ip" for off
    using dense [of off] that sz fb(1) [of "off div BSIZE"] by (simp add: fbyte_def)
  then have "frange (fbyte dp d) 0 (file_size dp) = frange (fbyte ip d) 0 (file_size ip)" by (simp add: sz frange_def)
  then show "file_view dp d = file_view ip d" using ex by (simp add: file_view_def extends_def)
qed

lemma behind_step:
  assumes b: "behind sb dp ip d" and ok: "file_ok sb ip d" and ev: "evolve sb ip d ip' d'"
  shows "behind sb dp ip' d'"
proof -
  have ex: "extends (inode dp) (inode ip)" "extends (inode ip) (inode ip')" using b evolve_extends [OF file_okD(1) [OF ok] ev] by (simp_all add: behind_def)
  have "fblock dp d' k \<noteq> 0" if k: "fblock dp d k \<noteq> 0" for k
  proof (cases "k < NDIRECT")
    case True then show ?thesis using k by (simp add: fblock_def)
  next
    case False
    then have km: "k < MAXFILE" and ch: "chain_block dp \<noteq> 0" using k by (auto simp: fblock_def split: if_splits)
    have same: "chain_block ip = chain_block dp" "chain_block ip' = chain_block dp"
      using ch fblock_extends(2) [OF ex(1)] fblock_extends(2) [OF ex(2)] by metis+
    have "fblock dp d k = fblock ip d k" using k fblock_extends(1) [OF ex(1), of d k] by metis
    then have "fblock ip' d' k \<noteq> 0" using evolve_fblock [OF ev km] k by metis
    then show ?thesis using False km ch same by (simp add: fblock_def)
  qed
  then show ?thesis using b extends_trans [OF ex] by (auto simp: behind_def)
qed

subsection \<open>The operations are steps\<close>

lemma file_step_then:
  assumes 1: "file_step sb ip d ip1 d1" and 2: "file_step sb ip1 d1 ip2 d2" and at: "inode_at sb (inode_number ip) d2 = Some (inode ip2)"
  shows "file_step sb ip d ip2 d2"
proof -
  note s1 = file_stepD [OF 1]
  note s2 = file_stepD [OF 2]
  have mid: "b \<in> in_use sb d1" "b \<notin> inode_blocks ip1 d1" if "b \<in> in_use sb d" "b \<notin> inode_blocks ip d" for b using that s1(5,6) by blast+
  have "in_use sb d - inode_blocks ip d \<subseteq> in_use sb d2" using mid s2(5) by blast
  moreover have "inode_blocks ip2 d2 \<inter> in_use sb d \<subseteq> inode_blocks ip d" using mid s2(6) by blast
  moreover have "blk d2 b = blk d b" if "b \<in> in_use sb d - bitmap_blocks sb - inode_table sb - inode_blocks ip d" for b
    using that mid [of b] s1(7) [of b] s2(7) [of b] by simp
  moreover have "inode_at sb i d2 = inode_at sb i d" if "i < unat (ninodes sb)" "i \<noteq> inode_number ip" for i
    using that s1(3,8) s2(8) by simp
  ultimately show ?thesis using s1(2-4) s2(1-4) at by (simp add: file_step_def)
qed

lemma inode_write_spec:
  assumes ok: "file_ok sb ip d" and num: "inode_number ip < unat (ninodes sb)"
    and off: "offset + length bs \<le> file_size ip \<or> offset = file_size ip" and len: "length bs < 2 ^ 32"
  shows "\<exists>r ip' d'. inode_write sb bs offset ip d = Some (r, ip', d') \<and> file_step sb ip d ip' d' \<and>
    (r = Ok () \<and> file_view ip' d' = (file_view ip d)\<lparr>abytes := overwrite offset bs (abytes (file_view ip d))\<rparr> \<or>
     r = Err () \<and> file_view ip' d' = file_view ip d \<and> file_size ip < offset + length bs)"
proof -
  let ?inp = "\<lambda>a n. (map (\<lambda>j. local_byte bs (a + of_nat j)) [0..<n], True)"
  have lt: "offset + length bs < 2 ^ 64" "length bs * 1 < 2 ^ 64" using off len unsigned_less [of "isize (inode ip)", where 'a = nat] by (auto simp: file_size_def)
  show ?thesis
  proof (cases "write_refused (file_size ip) offset (length bs * 1)")
    case True
    then have "offset + length bs > MAXFILE * BSIZE" using off lt by (auto simp: write_refused_def)
    moreover have "inode_write sb bs offset ip d = Some (Err (), ip, d)"
      using True lt by (auto simp: inode_write_def copy_from_def write_refused_def Let_def)
    ultimately show ?thesis using file_step_refl [OF ok] file_okD(2) [OF ok] by simp
  next
    case False
    have src: "source ?inp (local_byte bs)" by (simp add: source_def)
    from copy_from_spec [OF ok num src lt(2) False, of 0] obtain r ip' d' m where
      1: "copy_from sb ?inp (length bs) 0 offset 1 ip d = Some (r, ip', d')" "file_ok sb ip' d'" "m \<le> length bs"
        "fbyte ip' d' = written_from (local_byte bs) 0 offset 0 m (fbyte ip d)" "others_kept sb ip d d'"
        "inode_blocks ip' d' = inode_blocks ip d \<union> (in_use sb d' - in_use sb d)" "write_outcome sb ?inp 0 offset (length bs) ip d r m ip' d'"
        "device ip' = device ip" "inode_number ip' = inode_number ip" "is_initialized ip' = is_initialized ip" "kind (inode ip') = kind (inode ip)"
        "major (inode ip') = major (inode ip)" "minor (inode ip') = minor (inode ip)" "nlink (inode ip') = nlink (inode ip)"
      by (simp only: mult_1_right) (elim exE conjE, rule that)
    have step: "file_step sb ip d ip' d'"
      using 1(2,5-10) by (cases r) (auto simp: file_step_def others_kept_def write_outcome_def)
    show ?thesis
    proof (cases r)
      case (Err e)
      then have m: "m < length bs" "fblock ip d ((offset + m) div BSIZE) = 0" "file_size ip' = file_size ip" using 1(7) by (simp_all add: write_outcome_def)
      then have sz: "file_size ip \<le> offset + m" using file_okD(3) [OF ok] by (metis linorder_not_less)
      then have "offset = file_size ip" using off m(1) by linarith
      then have "file_view ip' d' = file_view ip d" using 1(4,11-14) m(3) by (simp add: file_view_def frange_def written_from_def)
      moreover have "inode_write sb bs offset ip d = Some (Err (), ip', d')" using 1(1) Err by (simp add: inode_write_def)
      ultimately show ?thesis using step sz m(1) by fastforce
    next
      case (Ok c)
      then have c: "c = length bs" "m = length bs" "file_size ip' = max (file_size ip) (offset + length bs)"
        using 1(3,7) by (auto simp: write_outcome_def)
      have "local_byte bs (of_nat j) = bs ! j" if "j < length bs" for j
      proof -
        have "unat (of_nat j :: usize) = j" using that len by (intro unat_of_nat_usize) simp
        then show ?thesis using that by (simp add: local_byte_def)
      qed
      then have "frange (fbyte ip' d') 0 (file_size ip') = overwrite offset bs (frange (fbyte ip d) 0 (file_size ip))"
        unfolding 1(4) c(2) using off c(3) by (intro nth_equalityI) (auto simp: overwrite_def frange_def written_from_def nth_append min_def simp del: of_nat_diff)
      then have "file_view ip' d' = (file_view ip d)\<lparr>abytes := overwrite offset bs (abytes (file_view ip d))\<rparr>"
        using 1(11-14) by (simp add: file_view_def)
      moreover have "inode_write sb bs offset ip d = Some (Ok (), ip', d')" using 1(1) Ok c by (simp add: inode_write_def)
      ultimately show ?thesis using step by blast
    qed
  qed
qed

text \<open>Changing attributes and storing the inode, and truncating.\<close>

lemma update_step:
  assumes ok: "file_ok sb ip d" and num: "inode_number ip < unat (ninodes sb)"
    and ip': "addrs (inode ip') = addrs (inode ip)" "chain (inode ip') = chain (inode ip)" "isize (inode ip') = isize (inode ip)"
      "device ip' = device ip" "inode_number ip' = inode_number ip" "is_initialized ip' = is_initialized ip"
  shows "\<exists>d'. update sb ip' d = Some d' \<and> file_step sb ip d ip' d' \<and> abytes (file_view ip' d') = abytes (file_view ip d) \<and>
    inode_at sb (inode_number ip) d' = Some (inode ip')"
proof -
  note at = inode_ok_attrs [OF file_okD(1) [OF ok] ip'(1,2)]
  have num': "inode_number ip' < unat (ninodes sb)" using num ip'(5) by simp
  from update_spec [OF at(1) num'] obtain d' where 1: "update sb ip' d = Some d'" "inode_ok sb ip' d'" "fblock ip' d' = fblock ip' d"
    "fbyte ip' d' = fbyte ip' d" "in_use sb d' = in_use sb d" "inode_blocks ip' d' = inode_blocks ip' d"
    "\<forall>b. b \<noteq> inode_block_at sb (inode_number ip') \<longrightarrow> blk d' b = blk d b"
    "\<forall>i. inode_at sb i d' = (if i = inode_number ip' then Some (inode ip') else inode_at sb i d)" by (elim exE conjE) (rule that)
  have sz: "file_size ip' = file_size ip" using ip'(3) by (simp add: file_size_def)
  have "file_ok sb ip' d'" using 1(2,3) at(2) ok sz by (simp add: file_ok_def)
  moreover have "inode_block_at sb (inode_number ip') \<in> inode_table sb" using num' by (auto simp: inode_table_def)
  then have "blk d' b = blk d b" if "b \<notin> inode_table sb" for b using 1(7) that by metis
  ultimately have "file_step sb ip d ip' d'" using 1(5,6,8) at(4) ip'(4-6) by (simp add: file_step_def)
  then show ?thesis using 1(1,4,8) at(3) sz ip'(5) by (auto simp: file_view_def)
qed

lemma truncate_step:
  assumes ok: "file_ok sb ip d" and num: "inode_number ip < unat (ninodes sb)"
  shows "\<exists>ip' d'. Inode.truncate sb ip d = Some (ip', d') \<and> file_step sb ip d ip' d' \<and> file_view ip' d' = (file_view ip d)\<lparr>abytes := []\<rparr>"
proof -
  from truncate_spec [OF file_okD(1) [OF ok] num] obtain ip' d' where
    1: "Inode.truncate sb ip d = Some (ip', d')" "in_use sb d' = in_use sb d - inode_blocks ip d"
      "inode ip' = (inode ip)\<lparr>isize := 0, addrs := replicate NDIRECT 0, chain := 0\<rparr>" "inode_number ip' = inode_number ip"
      "device ip' = device ip" "is_initialized ip' = is_initialized ip" "file_ok sb ip' d'"
      "\<forall>i<unat (ninodes sb). inode_at sb i d' = (if i = inode_number ip then Some (inode ip') else inode_at sb i d)"
      "\<forall>b. b \<notin> bitmap_blocks sb \<and> b \<noteq> inode_block_at sb (inode_number ip) \<longrightarrow> blk d' b = blk d b" by (elim exE conjE) (rule that)
  have "inode_blocks ip' d' = {}" using 1(3) by (auto simp: inode_blocks_def fblock_def chain_block_def)
  moreover have "inode_block_at sb (inode_number ip) \<in> inode_table sb" using num by (auto simp: inode_table_def)
  then have "blk d' b = blk d b" if "b \<notin> inode_table sb" "b \<notin> bitmap_blocks sb" for b using 1(9) that by metis
  ultimately have "file_step sb ip d ip' d'" using 1(2,4-8) num by (simp add: file_step_def)
  moreover have "file_view ip' d' = (file_view ip d)\<lparr>abytes := []\<rparr>" using 1(3) by (simp add: file_view_def file_size_def frange_def)
  ultimately show ?thesis using 1(1) by blast
qed

end
