(* ===== verification/Directory.thy ===== *)
theory Directory
  imports File_View
begin

text \<open>
  Directories: the loops over the entries of a directory in \<open>lookup\<close>, \<open>is_empty\<close> and \<open>link\<close> of \<open>CachedInode\<close>
  (src/kernel/src/fs.rs). The functions here work on one locked inode; what \<open>lookup\<close> and \<open>link\<close> do with the inode
  cache is in \<open>Inode_Cache\<close>.

  A name is the list of its bytes. A directory is a file whose size is a multiple of the entry size; \<open>entry_at\<close> is
  its entry at an offset and \<open>dir_find\<close> the offset of the first entry in use that answers to a name.
\<close>

subsection \<open>Definitions\<close>

text \<open>The loop of \<open>lookup\<close> up to the entry that is found: its inode number and offset.\<close>

fun lookup_loop :: "superblock \<Rightarrow> u8 list \<Rightarrow> nat list \<Rightarrow> cinode \<Rightarrow> disk_view \<Rightarrow> ((nat \<times> nat) option \<times> cinode \<times> disk_view) kernel" where
  "lookup_loop sb name [] ip d = Some (None, ip, d)"
| "lookup_loop sb name (offset # offsets) ip d = do {
     (r, ip, d) \<leftarrow> inode_read sb DIRENT_SIZE offset ip d;
     bs \<leftarrow> unwrap r;
     let entry = decode_dirent bs;
     if dirent_inode_number entry = 0 then lookup_loop sb name offsets ip d
     else if dirent_is entry name then Some (Some (dirent_inode_number entry, offset), ip, d)
     else lookup_loop sb name offsets ip d }"

definition lookup_entry :: "superblock \<Rightarrow> u8 list \<Rightarrow> cinode \<Rightarrow> disk_view \<Rightarrow> ((nat \<times> nat) option \<times> cinode \<times> disk_view) kernel" where
  "lookup_entry sb name ip d = (if \<not> is_directory ip then Some (None, ip, d)
     else lookup_loop sb name (step_range 0 (file_size ip) DIRENT_SIZE) ip d)"

fun is_empty_loop :: "superblock \<Rightarrow> nat list \<Rightarrow> cinode \<Rightarrow> disk_view \<Rightarrow> (bool option \<times> cinode \<times> disk_view) kernel" where
  "is_empty_loop sb [] ip d = Some (Some True, ip, d)"
| "is_empty_loop sb (off # offs) ip d = do {
     (r, ip, d) \<leftarrow> inode_read sb DIRENT_SIZE off ip d;
     bs \<leftarrow> unwrap r;
     if dirent_inode_number (decode_dirent bs) \<noteq> 0 then Some (Some False, ip, d) else is_empty_loop sb offs ip d }"

definition is_empty :: "superblock \<Rightarrow> cinode \<Rightarrow> disk_view \<Rightarrow> (bool option \<times> cinode \<times> disk_view) kernel" where
  "is_empty sb ip d = (if \<not> is_directory ip then Some (None, ip, d)
     else is_empty_loop sb (step_range (2 * DIRENT_SIZE) (file_size ip) DIRENT_SIZE) ip d)"

text \<open>The loop of \<open>link\<close>, which uses the first free entry, and the entry that \<open>link\<close> adds after it.\<close>

fun link_loop :: "superblock \<Rightarrow> dirent \<Rightarrow> nat list \<Rightarrow> cinode \<Rightarrow> disk_view \<Rightarrow> (bool \<times> cinode \<times> disk_view) kernel" where
  "link_loop sb new_entry [] ip d = Some (False, ip, d)"
| "link_loop sb new_entry (offset # offsets) ip d = do {
     (r, ip, d) \<leftarrow> inode_read sb DIRENT_SIZE offset ip d;
     bs \<leftarrow> unwrap r;
     if dirent_inode_number (decode_dirent bs) = 0 then do {
       (w, ip, d) \<leftarrow> inode_write sb (encode_dirent new_entry) offset ip d;
       _ \<leftarrow> unwrap w;
       Some (True, ip, d) }
     else link_loop sb new_entry offsets ip d }"

definition link_entry :: "superblock \<Rightarrow> dirent \<Rightarrow> cinode \<Rightarrow> disk_view \<Rightarrow> ((unit, unit) result \<times> cinode \<times> disk_view) kernel" where
  "link_entry sb new_entry ip d = do {
     (written, ip, d) \<leftarrow> link_loop sb new_entry (step_range 0 (file_size ip) DIRENT_SIZE) ip d;
     if written then Some (Ok (), ip, d)
     else let insert_offset = file_size ip - file_size ip mod DIRENT_SIZE in
       inode_write sb (encode_dirent new_entry) insert_offset ip d }"

subsection \<open>The entries of a directory\<close>

definition entry_at :: "afile \<Rightarrow> nat \<Rightarrow> dirent" where
  "entry_at f off = decode_dirent (subrange off DIRENT_SIZE (abytes f))"

definition entry_offsets :: "afile \<Rightarrow> nat list" where
  "entry_offsets f = step_range 0 (length (abytes f)) DIRENT_SIZE"

definition in_use_entry :: "dirent \<Rightarrow> bool" where
  "in_use_entry e \<longleftrightarrow> dirent_inode_number e \<noteq> 0"

definition dir_find :: "u8 list \<Rightarrow> afile \<Rightarrow> nat option" where
  "dir_find name f = find (\<lambda>off. in_use_entry (entry_at f off) \<and> dirent_is (entry_at f off) name) (entry_offsets f)"

definition entries_aligned :: "afile \<Rightarrow> bool" where
  "entries_aligned f \<longleftrightarrow> length (abytes f) mod DIRENT_SIZE = 0"

lemma DIRENT_SIZE_pos [simp]: "0 < DIRENT_SIZE"
  by (simp add: DIRENT_SIZE_def)

lemma step_range_within:
  assumes "off \<in> set (step_range lo n DIRENT_SIZE)" "n mod DIRENT_SIZE = 0" "lo mod DIRENT_SIZE = 0"
  shows "off + DIRENT_SIZE \<le> n" "lo \<le> off" "off mod DIRENT_SIZE = 0"
proof -
  have off: "lo \<le> off" "off < n" "(off - lo) mod DIRENT_SIZE = 0" using assms(1) by (simp_all add: set_step_range)
  then have m: "off mod DIRENT_SIZE = 0" using assms(3) by (metis le_add_diff_inverse mod_0 mod_add_eq add_0)
  have "off \<noteq> n" "off div DIRENT_SIZE < n div DIRENT_SIZE"
    using off(2) m assms(2) by (auto intro: div_less_mono simp: DIRENT_SIZE_def)
  then show "off + DIRENT_SIZE \<le> n" using m assms(2) by (auto simp: DIRENT_SIZE_def)
  show "lo \<le> off" "off mod DIRENT_SIZE = 0" using off m by simp_all
qed

lemma entry_offsets_iff: "off \<in> set (entry_offsets f) \<longleftrightarrow> off < length (abytes f) \<and> off mod DIRENT_SIZE = 0"
  by (simp add: entry_offsets_def set_step_range)

lemma entry_offsets_within: "entries_aligned f \<Longrightarrow> off \<in> set (entry_offsets f) \<Longrightarrow> off + DIRENT_SIZE \<le> length (abytes f)"
  using step_range_within(1) [of off 0] by (simp add: entries_aligned_def entry_offsets_def)

lemma file_size_bound: "file_size ip < 2 ^ 32"
  using unsigned_less [of "isize (inode ip)", where 'a = nat] by (simp add: file_size_def)

lemma read_entry:
  assumes "file_ok sb ip d" "off + DIRENT_SIZE \<le> file_size ip"
  shows "inode_read sb DIRENT_SIZE off ip d = Some (Ok (subrange off DIRENT_SIZE (abytes (file_view ip d))), ip, d)"
  using inode_read_spec [OF assms(1), of off DIRENT_SIZE] assms(2) file_size_bound [of ip] by (simp add: file_view_bytes)

lemma lookup_loop_spec:
  assumes ok: "file_ok sb ip d" and offs: "\<forall>off\<in>set offs. off + DIRENT_SIZE \<le> file_size ip"
  shows "lookup_loop sb name offs ip d = Some (map_option (\<lambda>off. (dirent_inode_number (entry_at (file_view ip d) off), off))
    (find (\<lambda>off. in_use_entry (entry_at (file_view ip d) off) \<and> dirent_is (entry_at (file_view ip d) off) name) offs), ip, d)"
  using offs by (induction offs) (simp_all add: read_entry [OF ok] in_use_entry_def entry_at_def Let_def)

lemma lookup_entry_spec:
  assumes "file_ok sb ip d" "is_directory ip" "entries_aligned (file_view ip d)"
  shows "lookup_entry sb name ip d =
    Some (map_option (\<lambda>off. (dirent_inode_number (entry_at (file_view ip d) off), off)) (dir_find name (file_view ip d)), ip, d)"
  using assms entry_offsets_within [OF assms(3)] lookup_loop_spec [OF assms(1), of "entry_offsets (file_view ip d)" name]
  by (simp add: lookup_entry_def dir_find_def) (simp add: entry_offsets_def)

lemma is_empty_loop_spec:
  assumes ok: "file_ok sb ip d" and offs: "\<forall>off\<in>set offs. off + DIRENT_SIZE \<le> file_size ip"
  shows "is_empty_loop sb offs ip d = Some (Some (\<forall>off\<in>set offs. \<not> in_use_entry (entry_at (file_view ip d) off)), ip, d)"
  using offs by (induction offs) (auto simp: read_entry [OF ok] in_use_entry_def entry_at_def Let_def)

text \<open>A directory is empty when no entry but the first two is in use.\<close>

definition dir_empty :: "afile \<Rightarrow> bool" where
  "dir_empty f \<longleftrightarrow> (\<forall>off\<in>set (entry_offsets f). 2 * DIRENT_SIZE \<le> off \<longrightarrow> \<not> in_use_entry (entry_at f off))"

lemma is_empty_spec:
  assumes ok: "file_ok sb ip d" and al: "is_directory ip \<Longrightarrow> entries_aligned (file_view ip d)"
  shows "is_empty sb ip d = Some (if is_directory ip then Some (dir_empty (file_view ip d)) else None, ip, d)"
proof (cases "is_directory ip")
  case True
  let ?offs = "step_range (2 * DIRENT_SIZE) (file_size ip) DIRENT_SIZE"
  have m: "file_size ip mod DIRENT_SIZE = 0" "(2 * DIRENT_SIZE) mod DIRENT_SIZE = 0" using al [OF True] by (simp_all add: entries_aligned_def)
  have "\<forall>off\<in>set ?offs. off + DIRENT_SIZE \<le> file_size ip" using step_range_within(1) [OF _ m] by blast
  moreover have "off \<in> set ?offs \<longleftrightarrow> off \<in> set (entry_offsets (file_view ip d)) \<and> 2 * DIRENT_SIZE \<le> off" for off
  proof -
    have "(off - 2 * DIRENT_SIZE) mod DIRENT_SIZE = off mod DIRENT_SIZE" if "2 * DIRENT_SIZE \<le> off"
      using that by (metis le_add_diff_inverse2 mod_mult_self1 mult.commute)
    then show ?thesis by (auto simp: set_step_range entry_offsets_def)
  qed
  ultimately show ?thesis using True is_empty_loop_spec [OF ok, of ?offs] by (auto simp: is_empty_def dir_empty_def)
qed (simp add: is_empty_def)

subsection \<open>Adding an entry\<close>

definition free_offset :: "afile \<Rightarrow> nat option" where
  "free_offset f = find (\<lambda>off. \<not> in_use_entry (entry_at f off)) (entry_offsets f)"

definition put_entry :: "nat \<Rightarrow> dirent \<Rightarrow> afile \<Rightarrow> afile" where
  "put_entry off e f = f\<lparr>abytes := overwrite off (encode_dirent e) (abytes f)\<rparr>"

definition add_entry :: "dirent \<Rightarrow> afile \<Rightarrow> afile" where
  "add_entry e f = put_entry (case free_offset f of Some off \<Rightarrow> off | None \<Rightarrow> length (abytes f)) e f"

lemma link_loop_spec:
  assumes ok: "file_ok sb ip d" and num: "inode_number ip < unat (ninodes sb)" and e: "length (d_name e) = NAME_LENGTH"
    and offs: "\<forall>off\<in>set offs. off + DIRENT_SIZE \<le> file_size ip"
  shows "\<exists>b ip' d'. link_loop sb e offs ip d = Some (b, ip', d') \<and>
    (case find (\<lambda>off. \<not> in_use_entry (entry_at (file_view ip d) off)) offs of
       Some off \<Rightarrow> b \<and> file_step sb ip d ip' d' \<and> file_view ip' d' = put_entry off e (file_view ip d)
     | None \<Rightarrow> \<not> b \<and> ip' = ip \<and> d' = d)"
  using offs
proof (induction offs)
  case Nil
  show ?case by (intro exI [of _ False]) simp
next
  case (Cons off offs)
  then have off: "off + DIRENT_SIZE \<le> file_size ip" by simp
  have len: "length (encode_dirent e) = DIRENT_SIZE" using length_encode_dirent [OF e] .
  show ?case
  proof (cases "in_use_entry (entry_at (file_view ip d) off)")
    case True
    then have "link_loop sb e (off # offs) ip d = link_loop sb e offs ip d"
      using read_entry [OF ok off] by (simp add: in_use_entry_def entry_at_def)
    then show ?thesis using Cons True by simp
  next
    case False
    have "offset + length (encode_dirent e) \<le> file_size ip \<or> offset = file_size ip" if "offset = off" for offset using off len that by simp
    from inode_write_spec [OF ok num this [OF refl]] off len obtain ip' d' where
      "inode_write sb (encode_dirent e) off ip d = Some (Ok (), ip', d')" "file_step sb ip d ip' d'" "file_view ip' d' = put_entry off e (file_view ip d)"
      by (auto simp: put_entry_def DIRENT_SIZE_def)
    then show ?thesis using False read_entry [OF ok off]
      by (intro exI [of _ True] exI [of _ ip'] exI [of _ d']) (simp add: in_use_entry_def entry_at_def)
  qed
qed

lemma link_entry_spec:
  assumes ok: "file_ok sb ip d" and num: "inode_number ip < unat (ninodes sb)" and e: "length (d_name e) = NAME_LENGTH"
    and al: "entries_aligned (file_view ip d)"
  shows "\<exists>r ip' d'. link_entry sb e ip d = Some (r, ip', d') \<and> file_step sb ip d ip' d' \<and>
    (r = Ok () \<and> file_view ip' d' = add_entry e (file_view ip d) \<or>
     r = Err () \<and> file_view ip' d' = file_view ip d \<and> free_offset (file_view ip d) = None)"
proof -
  have "\<forall>off\<in>set (step_range 0 (file_size ip) DIRENT_SIZE). off + DIRENT_SIZE \<le> file_size ip"
    using entry_offsets_within [OF al] by (simp add: entry_offsets_def)
  from link_loop_spec [OF ok num e this] obtain b ip1 d1 where
    1: "link_loop sb e (step_range 0 (file_size ip) DIRENT_SIZE) ip d = Some (b, ip1, d1)"
      "case free_offset (file_view ip d) of Some off \<Rightarrow> b \<and> file_step sb ip d ip1 d1 \<and> file_view ip1 d1 = put_entry off e (file_view ip d)
       | None \<Rightarrow> \<not> b \<and> ip1 = ip \<and> d1 = d"
    by (auto simp: free_offset_def entry_offsets_def)
  show ?thesis
  proof (cases "free_offset (file_view ip d)")
    case (Some off)
    then show ?thesis using 1 by (auto simp: link_entry_def add_entry_def)
  next
    case None
    have at: "file_size ip - file_size ip mod DIRENT_SIZE = file_size ip" using al by (simp add: entries_aligned_def)
    have len: "length (encode_dirent e) < 2 ^ 32" using length_encode_dirent [OF e] by (simp add: DIRENT_SIZE_def)
    from inode_write_spec [OF ok num disjI2 [OF refl] len] obtain r ip' d' where
      "inode_write sb (encode_dirent e) (file_size ip) ip d = Some (r, ip', d')" "file_step sb ip d ip' d'"
      "r = Ok () \<and> file_view ip' d' = add_entry e (file_view ip d) \<or> r = Err () \<and> file_view ip' d' = file_view ip d"
      using None by (auto simp: add_entry_def put_entry_def)
    then show ?thesis using 1 None at by (auto simp: link_entry_def Let_def)
  qed
qed

text \<open>Clearing an entry, as \<open>unlink\<close> does.\<close>

lemma put_entry_spec:
  assumes ok: "file_ok sb ip d" and num: "inode_number ip < unat (ninodes sb)" and e: "length (d_name e) = NAME_LENGTH"
    and off: "entries_aligned (file_view ip d)" "off \<in> set (entry_offsets (file_view ip d))"
  shows "\<exists>ip' d'. inode_write sb (encode_dirent e) off ip d = Some (Ok (), ip', d') \<and> file_step sb ip d ip' d' \<and>
    file_view ip' d' = put_entry off e (file_view ip d)"
proof -
  have len: "length (encode_dirent e) = DIRENT_SIZE" using length_encode_dirent [OF e] .
  have "off + length (encode_dirent e) \<le> file_size ip" using entry_offsets_within [OF off] len by simp
  from inode_write_spec [OF ok num disjI1 [OF this]] this len show ?thesis by (auto simp: put_entry_def DIRENT_SIZE_def)
qed

subsection \<open>Finding entries after a change\<close>

lemma entry_at_put:
  assumes "entries_aligned f" "off = length (abytes f) \<or> off \<in> set (entry_offsets f)" "length (d_name e) = NAME_LENGTH"
    "off' \<in> set (entry_offsets f) \<or> off' = off"
  shows "entry_at (put_entry off e f) off' = (if off' = off then e else entry_at f off')"
proof -
  let ?x = "encode_dirent e"
  have len: "length ?x = DIRENT_SIZE" using length_encode_dirent [OF assms(3)] .
  have le: "off \<le> length (abytes f)" using assms(2) by (auto simp: entry_offsets_iff)
  have al: "off mod DIRENT_SIZE = 0" using assms(1,2) by (auto simp: entry_offsets_iff entries_aligned_def)
  show ?thesis
  proof (cases "off' = off")
    case True
    then show ?thesis using le len decode_encode_dirent [OF assms(3)] by (simp add: entry_at_def put_entry_def)
  next
    case False
    then have off': "off' + DIRENT_SIZE \<le> length (abytes f)" "off' mod DIRENT_SIZE = 0"
      using assms(4) entry_offsets_within [OF assms(1)] by (auto simp: entry_offsets_iff)
    have gap: "off' + DIRENT_SIZE \<le> off \<or> off + DIRENT_SIZE \<le> off'"
      using False al off'(2) multiple_gap by (metis DIRENT_SIZE_pos linorder_neqE_nat)
    have "subrange off' DIRENT_SIZE (overwrite off ?x (abytes f)) = subrange off' DIRENT_SIZE (abytes f)"
    proof (cases "off + DIRENT_SIZE \<le> length (abytes f)")
      case True then show ?thesis using gap off' len by (intro subrange_overwrite_other) auto
    next
      case False
      then have "DIRENT_SIZE \<le> off - off'" "DIRENT_SIZE \<le> length (abytes f) - off'" using gap off'(1) by linarith+
      then show ?thesis using le by (simp add: subrange_def overwrite_def drop_take min.absorb1)
    qed
    then show ?thesis using False by (simp add: entry_at_def put_entry_def)
  qed
qed

lemma entry_offsets_put:
  assumes "entries_aligned f" "length (d_name e) = NAME_LENGTH"
  shows "off \<in> set (entry_offsets f) \<Longrightarrow> entry_offsets (put_entry off e f) = entry_offsets f"
    "entry_offsets (put_entry (length (abytes f)) e f) = entry_offsets f @ [length (abytes f)]"
    "off \<in> set (entry_offsets f) \<or> off = length (abytes f) \<Longrightarrow> entries_aligned (put_entry off e f)"
proof -
  have len: "length (encode_dirent e) = DIRENT_SIZE" using length_encode_dirent [OF assms(2)] .
  show same: "entry_offsets (put_entry off e f) = entry_offsets f" if "off \<in> set (entry_offsets f)" for off
    using entry_offsets_within [OF assms(1) that] len by (simp add: entry_offsets_def put_entry_def)
  obtain k where k: "length (abytes f) = DIRENT_SIZE * k" using assms(1) by (auto simp: entries_aligned_def)
  have div: "(DIRENT_SIZE * j + DIRENT_SIZE - Suc 0) div DIRENT_SIZE = j" for j by (simp add: DIRENT_SIZE_def)
  have "step_range 0 (DIRENT_SIZE * j) DIRENT_SIZE = map (\<lambda>i. DIRENT_SIZE * i) [0..<j]" for j
    using div [of j] by (simp add: step_range_def)
  from this [of k] this [of "Suc k"] k
  show "entry_offsets (put_entry (length (abytes f)) e f) = entry_offsets f @ [length (abytes f)]"
    using len by (simp add: entry_offsets_def put_entry_def overwrite_def add.commute)
  show "off \<in> set (entry_offsets f) \<or> off = length (abytes f) \<Longrightarrow> entries_aligned (put_entry off e f)"
    using assms(1) len entry_offsets_within [OF assms(1), of off] by (auto simp: entries_aligned_def put_entry_def overwrite_def)
qed

lemma find_cong_set: "(\<And>x. x \<in> set xs \<Longrightarrow> P x = Q x) \<Longrightarrow> find P xs = find Q xs"
  by (rule find_cong) simp_all

lemma find_snoc: "find P (xs @ [x]) = (case find P xs of Some y \<Rightarrow> Some y | None \<Rightarrow> if P x then Some x else None)"
  by (induction xs) auto

text \<open>A new entry answers to its name, and the answers to names that are not its own do not change.\<close>

lemma dir_find_add:
  assumes al: "entries_aligned f" and e: "length (d_name e) = NAME_LENGTH" "in_use_entry e"
  shows "\<not> dirent_is e name \<Longrightarrow> dir_find name (add_entry e f) = dir_find name f"
    "dirent_is e name \<Longrightarrow> dir_find name f = None \<Longrightarrow> \<exists>off. dir_find name (add_entry e f) = Some off \<and> entry_at (add_entry e f) off = e"
proof -
  obtain off where off: "add_entry e f = put_entry off e f" "off = length (abytes f) \<or> off \<in> set (entry_offsets f) \<and> \<not> in_use_entry (entry_at f off)"
  proof (cases "free_offset f")
    case (Some o')
    then show ?thesis using that [of o'] find_SomeD [of _ "entry_offsets f" o'] by (auto simp: add_entry_def free_offset_def)
  qed (use that in \<open>auto simp: add_entry_def\<close>)
  have at: "entry_at (add_entry e f) x = (if x = off then e else entry_at f x)" if "x \<in> set (entry_offsets f) \<or> x = off" for x
    unfolding off(1) using off(2) that by (intro entry_at_put [OF al _ e(1)]) auto
  have offs: "entry_offsets (add_entry e f) = (if off \<in> set (entry_offsets f) then entry_offsets f else entry_offsets f @ [off])"
    using off entry_offsets_put(1,2) [OF al e(1)] by auto
  show "dir_find name (add_entry e f) = dir_find name f" if n: "\<not> dirent_is e name"
  proof -
    let ?P = "\<lambda>f x. in_use_entry (entry_at f x) \<and> dirent_is (entry_at f x) name"
    have "?P (add_entry e f) x = ?P f x" if "x \<in> set (entry_offsets f)" for x using at [of x] that n off(2) by (auto simp: entry_offsets_iff)
    then have "find (?P (add_entry e f)) (entry_offsets f) = find (?P f) (entry_offsets f)" by (rule find_cong_set)
    moreover have "\<not> ?P (add_entry e f) off" using at [of off] n by simp
    ultimately show ?thesis unfolding dir_find_def offs by (auto simp: find_snoc split: option.split)
  qed
  show "\<exists>x. dir_find name (add_entry e f) = Some x \<and> entry_at (add_entry e f) x = e" if n: "dirent_is e name" "dir_find name f = None"
  proof -
    have new: "off \<in> set (entry_offsets (add_entry e f))" using offs by auto
    have old: "\<not> (in_use_entry (entry_at f x) \<and> dirent_is (entry_at f x) name)" if "x \<in> set (entry_offsets f)" for x
      using find_NoneD [OF n(2) [unfolded dir_find_def] that] .
    obtain x where x: "dir_find name (add_entry e f) = Some x"
      using find_NoneD [of _ "entry_offsets (add_entry e f)" off] new at [of off] e(2) n(1) unfolding dir_find_def by (metis (mono_tags, lifting) not_None_eq)
    then have "x \<in> set (entry_offsets (add_entry e f))" "in_use_entry (entry_at (add_entry e f) x) \<and> dirent_is (entry_at (add_entry e f) x) name"
      using find_SomeD unfolding dir_find_def by (metis (mono_tags, lifting))+
    then have "x = off" using old at offs by (metis Un_iff empty_iff insert_iff list.set(1) list.set(2) set_append)
    then show ?thesis using x at by simp
  qed
qed

end
