(* ===== verification/Inode_Cache.thy ===== *)
theory Inode_Cache
  imports Directory
begin

text \<open>
  The inode cache and the operations on the tree of directories, the rest of src/kernel/src/fs.rs: \<open>InodeCache\<close>,
  \<open>InodeReference\<close>, \<open>InodeGuard\<close>, path resolution, \<open>create\<close>, \<open>link\<close> and \<open>unlink\<close>.

  The state has the reference-counted cache, one slot per cache index with the sleep lock and the inode, and the disk. The
  operations are those of one process. A sleep lock that the process would have to wait for is one that it holds
  itself, so that the call never returns: \<open>None\<close>, like a panic. An \<open>InodeReference\<close> and an \<open>InodeGuard\<close>
  are their cache index; the drops of Rust, in the order in which the compiler inserts them, are calls of \<open>ref_drop\<close> and
  \<open>guard_drop\<close>.

  \<open>cwd\<close> is the reference to the working directory in the context of the process, if there is one. A path is the list of its bytes.
\<close>

subsection \<open>The state\<close>

type_synonym inode_key = "nat \<times> nat"

record islot =
  islot_held :: bool
  islot_inode :: cinode

record fstate =
  icache :: "inode_key rc_cache"
  islots :: "islot list"
  dview :: disk_view

definition fstate_new :: "disk_view \<Rightarrow> fstate" where
  "fstate_new d = \<lparr>icache = rc_new NINODE, islots = replicate NINODE \<lparr>islot_held = False, islot_inode = cinode_zeroed\<rparr>, dview = d\<rparr>"

definition inode_of :: "nat \<Rightarrow> fstate \<Rightarrow> cinode" where
  "inode_of i s = islot_inode (islots s ! i)"

definition held_by :: "nat \<Rightarrow> fstate \<Rightarrow> bool" where
  "held_by i s = islot_held (islots s ! i)"

definition set_inode_of :: "nat \<Rightarrow> cinode \<Rightarrow> fstate \<Rightarrow> fstate" where
  "set_inode_of i ip s = s\<lparr>islots := (islots s)[i := (islots s ! i)\<lparr>islot_inode := ip\<rparr>]\<rparr>"

definition set_islot_held :: "nat \<Rightarrow> bool \<Rightarrow> fstate \<Rightarrow> fstate" where
  "set_islot_held i b s = s\<lparr>islots := (islots s)[i := (islots s ! i)\<lparr>islot_held := b\<rparr>]\<rparr>"

definition lock_islot :: "nat \<Rightarrow> fstate \<Rightarrow> fstate kernel" where
  "lock_islot i s = do {
     assertk (i < length (islots s));
     assertk (\<not> held_by i s);
     Some (set_islot_held i True s) }"

text \<open>An operation of \<open>CachedInode\<close> through a guard.\<close>

definition on_inode :: "nat \<Rightarrow> (cinode \<Rightarrow> disk_view \<Rightarrow> ('a \<times> cinode \<times> disk_view) kernel) \<Rightarrow> fstate \<Rightarrow> ('a \<times> fstate) kernel" where
  "on_inode i f s = do {
     (r, ip, d) \<leftarrow> f (inode_of i s) (dview s);
     Some (r, set_inode_of i ip (s\<lparr>dview := d\<rparr>)) }"

text \<open>Fields are set through the guard, then the inode is written to its place on the disk.\<close>

definition modify_update :: "superblock \<Rightarrow> nat \<Rightarrow> (cinode \<Rightarrow> cinode) \<Rightarrow> fstate \<Rightarrow> fstate kernel" where
  "modify_update sb i f s = do {
     let ip = f (inode_of i s);
     d \<leftarrow> update sb ip (dview s);
     Some (set_inode_of i ip (s\<lparr>dview := d\<rparr>)) }"

subsection \<open>The cache\<close>

definition icache_get :: "nat \<Rightarrow> nat \<Rightarrow> fstate \<Rightarrow> (nat option \<times> fstate) kernel" where
  "icache_get dev inum s = do {
     (r, c) \<leftarrow> rc_get (icache s) (dev, inum);
     let s = s\<lparr>icache := c\<rparr>;
     (case r of
        None \<Rightarrow> Some (None, s)
      | Some (i, is_new) \<Rightarrow> do {
          s \<leftarrow> (if is_new then do {
                 s \<leftarrow> lock_islot i s;
                 let ip = inode_of i s;
                 let s = set_inode_of i (ip\<lparr>device := dev, inode_number := inum, is_initialized := False\<rparr>) s;
                 Some (set_islot_held i False s) }
               else Some s);
          Some (Some i, s) }) }"

definition icache_duplicate :: "nat \<Rightarrow> fstate \<Rightarrow> fstate" where
  "icache_duplicate i s = s\<lparr>icache := snd (rc_duplicate (icache s) i)\<rparr>"

definition icache_release :: "superblock \<Rightarrow> nat \<Rightarrow> fstate \<Rightarrow> fstate kernel" where
  "icache_release sb i s = do {
     reference \<leftarrow> rc_reference_count (icache s) i;
     s \<leftarrow> (if reference = 1 then do {
            s \<leftarrow> lock_islot i s;
            s \<leftarrow> (if nlink (inode (inode_of i s)) = 0 \<and> is_initialized (inode_of i s) then do {
                   (ip, d) \<leftarrow> Inode.truncate sb (inode_of i s) (dview s);
                   let ip = ip\<lparr>inode := (inode ip)\<lparr>kind := KUnused\<rparr>\<rparr>;
                   d \<leftarrow> update sb ip d;
                   Some (set_inode_of i (ip\<lparr>is_initialized := False\<rparr>) (s\<lparr>dview := d\<rparr>)) }
                 else Some s);
            Some (set_islot_held i False s) }
          else Some s);
     (r, c) \<leftarrow> rc_release (icache s) i;
     _ \<leftarrow> r;
     Some (s\<lparr>icache := c\<rparr>) }"

subsection \<open>References and guards\<close>

definition ref_lock :: "superblock \<Rightarrow> nat \<Rightarrow> fstate \<Rightarrow> fstate kernel" where
  "ref_lock sb i s = do {
     s \<leftarrow> lock_islot i s;
     let s = icache_duplicate i s;
     if \<not> is_initialized (inode_of i s) then do {
       ip \<leftarrow> initialize sb (inode_of i s) (dview s);
       Some (set_inode_of i (ip\<lparr>is_initialized := True\<rparr>) s) }
     else Some s }"

definition ref_clone :: "nat \<Rightarrow> fstate \<Rightarrow> fstate" where
  "ref_clone i s = icache_duplicate i s"

definition ref_drop :: "superblock \<Rightarrow> nat \<Rightarrow> fstate \<Rightarrow> fstate kernel" where
  "ref_drop sb i s = icache_release sb i s"

definition guard_drop :: "superblock \<Rightarrow> nat \<Rightarrow> fstate \<Rightarrow> fstate kernel" where
  "guard_drop sb i s = icache_release sb i (set_islot_held i False s)"

definition guard_as_ref :: "nat \<Rightarrow> fstate \<Rightarrow> (nat \<times> fstate) kernel" where
  "guard_as_ref i s = do {
     (r, s) \<leftarrow> icache_get (device (inode_of i s)) (inode_number (inode_of i s)) s;
     j \<leftarrow> r;
     Some (j, s) }"

subsection \<open>Directories\<close>

definition lookup :: "superblock \<Rightarrow> u8 list \<Rightarrow> nat \<Rightarrow> fstate \<Rightarrow> ((nat \<times> nat) option \<times> fstate) kernel" where
  "lookup sb name i s = do {
     (r, s) \<leftarrow> on_inode i (lookup_entry sb name) s;
     (case r of
        None \<Rightarrow> Some (None, s)
      | Some (inum, offset) \<Rightarrow> do {
          (g, s) \<leftarrow> icache_get (device (inode_of i s)) inum s;
          Some (map_option (\<lambda>j. (j, offset)) g, s) }) }"

text \<open>\<open>link\<close> of \<open>CachedInode\<close>; the reference that its \<open>lookup\<close> finds is dropped.\<close>

definition dir_link :: "superblock \<Rightarrow> u8 list \<Rightarrow> nat \<Rightarrow> nat \<Rightarrow> fstate \<Rightarrow> ((unit, unit) result \<times> fstate) kernel" where
  "dir_link sb name inum i s =
     (if \<not> is_directory (inode_of i s) then Some (Err (), s)
      else do {
        (r, s) \<leftarrow> lookup sb name i s;
        (case r of
           Some (j, _) \<Rightarrow> do { s \<leftarrow> ref_drop sb j s; Some (Err (), s) }
         | None \<Rightarrow> on_inode i (link_entry sb (dirent_new inum name)) s) })"

subsection \<open>Paths\<close>

definition SLASH :: u8 where "SLASH = 47"

text \<open>\<open>path.split('/')\<close>\<close>

fun split_path :: "u8 list \<Rightarrow> u8 list list" where
  "split_path [] = [[]]"
| "split_path (c # cs) = (if c = SLASH then [] # split_path cs
     else case split_path cs of [] \<Rightarrow> [[c]] | e # es \<Rightarrow> (c # e) # es)"

definition start_of_path :: "nat option \<Rightarrow> u8 list \<Rightarrow> fstate \<Rightarrow> (nat option \<times> fstate) kernel" where
  "start_of_path cwd path s = (case path of
     c # _ \<Rightarrow> if c = SLASH then do { (r, s) \<leftarrow> icache_get ROOTDEV ROOTINO s; i \<leftarrow> r; Some (Some i, s) }
       else (case cwd of None \<Rightarrow> Some (None, s) | Some i \<Rightarrow> Some (Some i, ref_clone i s))
   | [] \<Rightarrow> (case cwd of None \<Rightarrow> Some (None, s) | Some i \<Rightarrow> Some (Some i, ref_clone i s)))"

fun search_loop :: "superblock \<Rightarrow> u8 list list \<Rightarrow> nat \<Rightarrow> fstate \<Rightarrow> (nat option \<times> fstate) kernel" where
  "search_loop sb [] i s = Some (Some i, s)"
| "search_loop sb (element # elements) i s =
     (if element = [] then search_loop sb elements i s
      else do {
        s \<leftarrow> ref_lock sb i s;
        if \<not> is_directory (inode_of i s) then do { s \<leftarrow> guard_drop sb i s; s \<leftarrow> ref_drop sb i s; Some (None, s) }
        else do {
          (r, s) \<leftarrow> lookup sb element i s;
          (case r of
             Some (j, _) \<Rightarrow> do { s \<leftarrow> guard_drop sb i s; s \<leftarrow> ref_drop sb i s; search_loop sb elements j s }
           | None \<Rightarrow> do { s \<leftarrow> guard_drop sb i s; s \<leftarrow> ref_drop sb i s; Some (None, s) }) } })"

definition search_inode :: "superblock \<Rightarrow> nat option \<Rightarrow> u8 list \<Rightarrow> fstate \<Rightarrow> (nat option \<times> fstate) kernel" where
  "search_inode sb cwd path s = do {
     (r, s) \<leftarrow> start_of_path cwd path s;
     (case r of None \<Rightarrow> Some (None, s) | Some i \<Rightarrow> search_loop sb (split_path path) i s) }"

fun search_parent_loop :: "superblock \<Rightarrow> u8 list list \<Rightarrow> nat \<Rightarrow> fstate \<Rightarrow> ((nat \<times> u8 list) option \<times> fstate) kernel" where
  "search_parent_loop sb [] i s = do { s \<leftarrow> ref_drop sb i s; Some (None, s) }"
| "search_parent_loop sb (element # elements) i s =
     (if element = [] then search_parent_loop sb elements i s
      else do {
        s \<leftarrow> ref_lock sb i s;
        if \<not> is_directory (inode_of i s) then do { s \<leftarrow> guard_drop sb i s; s \<leftarrow> ref_drop sb i s; Some (None, s) }
        else if elements = [] then do { s \<leftarrow> guard_drop sb i s; Some (Some (i, element), s) }
        else do {
          (r, s) \<leftarrow> lookup sb element i s;
          (case r of
             Some (j, _) \<Rightarrow> do { s \<leftarrow> guard_drop sb i s; s \<leftarrow> ref_drop sb i s; search_parent_loop sb elements j s }
           | None \<Rightarrow> do { s \<leftarrow> guard_drop sb i s; s \<leftarrow> ref_drop sb i s; Some (None, s) }) } })"

definition search_parent_inode :: "superblock \<Rightarrow> nat option \<Rightarrow> u8 list \<Rightarrow> fstate \<Rightarrow> ((nat \<times> u8 list) option \<times> fstate) kernel" where
  "search_parent_inode sb cwd path s = do {
     (r, s) \<leftarrow> start_of_path cwd path s;
     (case r of None \<Rightarrow> Some (None, s) | Some i \<Rightarrow> search_parent_loop sb (split_path path) i s) }"

subsection \<open>Creating, linking and unlinking\<close>

definition set_nlink :: "u16 \<Rightarrow> cinode \<Rightarrow> cinode" where
  "set_nlink n ip = ip\<lparr>inode := (inode ip)\<lparr>nlink := n\<rparr>\<rparr>"

text \<open>The closure \<open>bad\<close> of \<open>create\<close>, which drops the guard it is given.\<close>

definition create_bad :: "superblock \<Rightarrow> nat \<Rightarrow> fstate \<Rightarrow> fstate kernel" where
  "create_bad sb i s = do { s \<leftarrow> modify_update sb i (set_nlink 0) s; guard_drop sb i s }"

definition DOT :: "u8 list" where "DOT = [46]"
definition DOTDOT :: "u8 list" where "DOTDOT = [46, 46]"

text \<open>The entries of a new directory, then its own entry in its parent: whether all went well.\<close>

definition create_links :: "superblock \<Rightarrow> inode_kind \<Rightarrow> u8 list \<Rightarrow> nat \<Rightarrow> nat \<Rightarrow> fstate \<Rightarrow> (bool \<times> fstate) kernel" where
  "create_links sb k name dir i s = do {
     (ok, s) \<leftarrow>
       (if k = KDirectory then do {
          let this = inode_number (inode_of i s);
          let parent = inode_number (inode_of dir s);
          (r, s) \<leftarrow> dir_link sb DOT this i s;
          if \<not> is_ok r then Some (False, s)
          else do { (r, s) \<leftarrow> dir_link sb DOTDOT parent i s; Some (is_ok r, s) } }
        else Some (True, s));
     if \<not> ok then Some (False, s)
     else do { (r, s) \<leftarrow> dir_link sb name (inode_number (inode_of i s)) dir s; Some (is_ok r, s) } }"

definition create_new :: "superblock \<Rightarrow> inode_kind \<Rightarrow> u16 \<Rightarrow> u16 \<Rightarrow> u8 list \<Rightarrow> nat \<Rightarrow> fstate \<Rightarrow> ((nat, unit) result \<times> fstate) kernel" where
  "create_new sb k mj mn name dir s = do {
     (r, d) \<leftarrow> allocate_inode sb k (dview s);
     let s = s\<lparr>dview := d\<rparr>;
     (case r of
        Err _ \<Rightarrow> do { s \<leftarrow> guard_drop sb dir s; s \<leftarrow> ref_drop sb dir s; Some (Err (), s) }
      | Ok inum \<Rightarrow> do {
          (g, s) \<leftarrow> icache_get (device (inode_of dir s)) inum s;
          (case g of
             None \<Rightarrow> do { s \<leftarrow> guard_drop sb dir s; s \<leftarrow> ref_drop sb dir s; Some (Err (), s) }
           | Some i \<Rightarrow> do {
               s \<leftarrow> ref_lock sb i s;
               s \<leftarrow> modify_update sb i (\<lambda>ip. ip\<lparr>inode := (inode ip)\<lparr>major := mj, minor := mn, nlink := 1\<rparr>\<rparr>) s;
               (ok, s) \<leftarrow> create_links sb k name dir i s;
               if \<not> ok then do {
                 s \<leftarrow> create_bad sb i s;
                 s \<leftarrow> ref_drop sb i s; s \<leftarrow> guard_drop sb dir s; s \<leftarrow> ref_drop sb dir s;
                 Some (Err (), s) }
               else do {
                 s \<leftarrow> (if k = KDirectory then modify_update sb dir increment_link s else Some s);
                 s \<leftarrow> ref_drop sb i s; s \<leftarrow> guard_drop sb dir s; s \<leftarrow> ref_drop sb dir s;
                 Some (Ok i, s) } }) }) }"

definition create :: "superblock \<Rightarrow> nat option \<Rightarrow> u8 list \<Rightarrow> inode_kind \<Rightarrow> u16 \<Rightarrow> u16 \<Rightarrow> fstate \<Rightarrow> ((nat, unit) result \<times> fstate) kernel" where
  "create sb cwd path k mj mn s = do {
     (r, s) \<leftarrow> search_parent_inode sb cwd path s;
     (case r of None \<Rightarrow> Some (Err (), s) | Some (dir, name) \<Rightarrow> do {
        s \<leftarrow> ref_lock sb dir s;
        (found, s) \<leftarrow> lookup sb name dir s;
        (case found of
           Some (i, _) \<Rightarrow> do {
             s \<leftarrow> guard_drop sb dir s;
             s \<leftarrow> ref_lock sb i s;
             if k = KFile \<and> (is_file (inode_of i s) \<or> is_device (inode_of i s))
             then do { s \<leftarrow> ref_drop sb i s; s \<leftarrow> ref_drop sb dir s; Some (Ok i, s) }
             else do { s \<leftarrow> guard_drop sb i s; s \<leftarrow> ref_drop sb i s; s \<leftarrow> ref_drop sb dir s; Some (Err (), s) } }
         | None \<Rightarrow> create_new sb k mj mn name dir s) }) }"

text \<open>\<open>log::with\<close> brackets the writes of its closure.\<close>

definition log_mark :: "log_call \<Rightarrow> fstate \<Rightarrow> fstate" where
  "log_mark c s = s\<lparr>dview := (dview s)\<lparr>logged := logged (dview s) @ [c]\<rparr>\<rparr>"

definition with_log :: "(fstate \<Rightarrow> ('a \<times> fstate) kernel) \<Rightarrow> fstate \<Rightarrow> ('a \<times> fstate) kernel" where
  "with_log f s = do { (r, s) \<leftarrow> f (log_mark LogStart s); Some (r, log_mark LogEnd s) }"

text \<open>The closure \<open>bad\<close> of \<open>link\<close>.\<close>

definition link_bad :: "superblock \<Rightarrow> nat \<Rightarrow> fstate \<Rightarrow> fstate kernel" where
  "link_bad sb i s = do {
     s \<leftarrow> ref_lock sb i s;
     s \<leftarrow> modify_update sb i decrement_link s;
     s \<leftarrow> guard_drop sb i s;
     ref_drop sb i s }"

text \<open>The part of \<open>link\<close> that adds the entry, once the link count is up.\<close>

definition link_new :: "superblock \<Rightarrow> nat option \<Rightarrow> u8 list \<Rightarrow> nat \<Rightarrow> nat \<Rightarrow> nat \<Rightarrow> fstate \<Rightarrow> ((unit, unit) result \<times> fstate) kernel" where
  "link_new sb cwd new i dev inum s = do {
     (p, s) \<leftarrow> search_parent_inode sb cwd new s;
     (case p of
        None \<Rightarrow> do { s \<leftarrow> link_bad sb i s; Some (Err (), s) }
      | Some (dir, name) \<Rightarrow> do {
          s \<leftarrow> ref_lock sb dir s;
          if device (inode_of dir s) \<noteq> dev then do {
            s \<leftarrow> link_bad sb i s; s \<leftarrow> guard_drop sb dir s; s \<leftarrow> ref_drop sb dir s; Some (Err (), s) }
          else do {
            (r, s) \<leftarrow> dir_link sb name inum dir s;
            if \<not> is_ok r then do {
              s \<leftarrow> link_bad sb i s; s \<leftarrow> guard_drop sb dir s; s \<leftarrow> ref_drop sb dir s; Some (Err (), s) }
            else do {
              s \<leftarrow> guard_drop sb dir s; s \<leftarrow> ref_drop sb dir s; s \<leftarrow> ref_drop sb i s; Some (Ok (), s) } } }) }"

definition link_body :: "superblock \<Rightarrow> nat option \<Rightarrow> u8 list \<Rightarrow> u8 list \<Rightarrow> fstate \<Rightarrow> ((unit, unit) result \<times> fstate) kernel" where
  "link_body sb cwd new old s = do {
     (r, s) \<leftarrow> search_inode sb cwd old s;
     (case r of None \<Rightarrow> Some (Err (), s) | Some i \<Rightarrow> do {
        s \<leftarrow> ref_lock sb i s;
        if is_directory (inode_of i s) then do { s \<leftarrow> guard_drop sb i s; s \<leftarrow> ref_drop sb i s; Some (Err (), s) }
        else do {
          let dev = device (inode_of i s);
          let inum = inode_number (inode_of i s);
          s \<leftarrow> modify_update sb i increment_link s;
          s \<leftarrow> guard_drop sb i s;
          link_new sb cwd new i dev inum s } }) }"

definition fs_link :: "superblock \<Rightarrow> nat option \<Rightarrow> u8 list \<Rightarrow> u8 list \<Rightarrow> fstate \<Rightarrow> ((unit, unit) result \<times> fstate) kernel" where
  "fs_link sb cwd new old s = with_log (link_body sb cwd new old) s"

text \<open>The part of \<open>unlink\<close> from where both inodes are known.\<close>

definition unlink_entry :: "superblock \<Rightarrow> nat \<Rightarrow> nat \<Rightarrow> nat \<Rightarrow> fstate \<Rightarrow> ((unit, unit) result \<times> fstate) kernel" where
  "unlink_entry sb dir i offset s = do {
     s \<leftarrow> ref_lock sb i s;
     assertk (count_of_link (inode_of i s) > 0);
     (e, s) \<leftarrow> on_inode i (is_empty sb) s;
     if e = Some False then do {
       s \<leftarrow> guard_drop sb i s; s \<leftarrow> ref_drop sb i s; s \<leftarrow> guard_drop sb dir s; s \<leftarrow> ref_drop sb dir s; Some (Err (), s) }
     else do {
       (w, s) \<leftarrow> on_inode dir (inode_write sb (encode_dirent dirent_unused) offset) s;
       _ \<leftarrow> unwrap w;
       s \<leftarrow> (if is_directory (inode_of i s) then modify_update sb dir decrement_link s else Some s);
       s \<leftarrow> guard_drop sb dir s;
       s \<leftarrow> modify_update sb i decrement_link s;
       s \<leftarrow> guard_drop sb i s; s \<leftarrow> ref_drop sb i s; s \<leftarrow> ref_drop sb dir s;
       Some (Ok (), s) } }"

definition unlink_body :: "superblock \<Rightarrow> nat option \<Rightarrow> u8 list \<Rightarrow> fstate \<Rightarrow> ((unit, unit) result \<times> fstate) kernel" where
  "unlink_body sb cwd path s = do {
     (r, s) \<leftarrow> search_parent_inode sb cwd path s;
     (case r of None \<Rightarrow> Some (Err (), s) | Some (dir, name) \<Rightarrow> do {
        s \<leftarrow> ref_lock sb dir s;
        if name = DOT \<or> name = DOTDOT then do { s \<leftarrow> guard_drop sb dir s; s \<leftarrow> ref_drop sb dir s; Some (Err (), s) }
        else do {
          (found, s) \<leftarrow> lookup sb name dir s;
          (case found of
             None \<Rightarrow> do { s \<leftarrow> guard_drop sb dir s; s \<leftarrow> ref_drop sb dir s; Some (Err (), s) }
           | Some (i, offset) \<Rightarrow> unlink_entry sb dir i offset s) } }) }"

definition fs_unlink :: "superblock \<Rightarrow> nat option \<Rightarrow> u8 list \<Rightarrow> fstate \<Rightarrow> ((unit, unit) result \<times> fstate) kernel" where
  "fs_unlink sb cwd path s = with_log (unlink_body sb cwd path) s"

text \<open>The guard that \<open>create\<close> returns is dropped at once.\<close>

definition create_only :: "superblock \<Rightarrow> nat option \<Rightarrow> u8 list \<Rightarrow> inode_kind \<Rightarrow> u16 \<Rightarrow> u16 \<Rightarrow> fstate \<Rightarrow> ((unit, unit) result \<times> fstate) kernel" where
  "create_only sb cwd path k mj mn s = do {
     (r, s) \<leftarrow> create sb cwd path k mj mn s;
     (case r of Err _ \<Rightarrow> Some (Err (), s) | Ok i \<Rightarrow> do { s \<leftarrow> guard_drop sb i s; Some (Ok (), s) }) }"

definition make_directory :: "superblock \<Rightarrow> nat option \<Rightarrow> u8 list \<Rightarrow> fstate \<Rightarrow> ((unit, unit) result \<times> fstate) kernel" where
  "make_directory sb cwd path s = with_log (create_only sb cwd path KDirectory 0 0) s"

definition make_special_file :: "superblock \<Rightarrow> nat option \<Rightarrow> u8 list \<Rightarrow> u16 \<Rightarrow> u16 \<Rightarrow> fstate \<Rightarrow> ((unit, unit) result \<times> fstate) kernel" where
  "make_special_file sb cwd path mj mn s = with_log (create_only sb cwd path KDevice mj mn) s"

end
