(* ===== verification/Fs_State.thy ===== *)
theory Fs_State
  imports Inode_Cache
begin

text \<open>
  The invariant of the file system and what the operations of the inode cache do to it. The abstract view of a state is
  \<open>files\<close>, the file of every inode number; \<open>refs\<close>, the number of references to every inode; and \<open>held_set\<close>,
  the slots whose lock is held. \<open>handle s j i\<close> says that slot \<open>j\<close> is that of inode \<open>i\<close>.
\<close>

subsection \<open>References\<close>

definition contrib :: "(inode_key \<times> nat) option \<Rightarrow> nat \<Rightarrow> nat" where
  "contrib v i = (case v of Some (k, n) \<Rightarrow> if k = (ROOTDEV, i) then n else 0 | None \<Rightarrow> 0)"

definition refs :: "fstate \<Rightarrow> nat \<Rightarrow> nat" where
  "refs s i = (\<Sum>j<NINODE. contrib (rc_slot (icache s) j) i)"

definition handle :: "fstate \<Rightarrow> nat \<Rightarrow> nat \<Rightarrow> bool" where
  "handle s j i \<longleftrightarrow> (\<exists>n. rc_slot (icache s) j = Some ((ROOTDEV, i), n))"

definition held_set :: "fstate \<Rightarrow> nat set" where
  "held_set s = {j. j < NINODE \<and> held_by j s}"

lemma refs_upd:
  assumes "rc_slot (icache s') = (rc_slot (icache s))(j := v)" "j < NINODE"
  shows "refs s' i + contrib (rc_slot (icache s) j) i = refs s i + contrib v i"
proof -
  have "refs s' i = contrib v i + (\<Sum>x\<in>{..<NINODE} - {j}. contrib (rc_slot (icache s') x) i)"
    unfolding refs_def using assms by (subst sum.remove [of _ j]) simp_all
  also have "(\<Sum>x\<in>{..<NINODE} - {j}. contrib (rc_slot (icache s') x) i) = (\<Sum>x\<in>{..<NINODE} - {j}. contrib (rc_slot (icache s) x) i)"
    using assms by (intro sum.cong) auto
  finally have "refs s' i = contrib v i + (\<Sum>x\<in>{..<NINODE} - {j}. contrib (rc_slot (icache s) x) i)" .
  moreover have "refs s i = contrib (rc_slot (icache s) j) i + (\<Sum>x\<in>{..<NINODE} - {j}. contrib (rc_slot (icache s) x) i)"
    unfolding refs_def using assms(2) by (subst sum.remove [of _ j]) simp_all
  ultimately show ?thesis by simp
qed

lemma refs_handle:
  assumes inv: "rc_inv NINODE (icache s)" and j: "rc_slot (icache s) j = Some ((ROOTDEV, i), n)"
  shows "refs s i = n" "0 < n" "j < NINODE"
proof -
  show jn: "j < NINODE" using rcc.slot_bound [OF inv] j by blast
  have "contrib (rc_slot (icache s) x) i = 0" if "x \<noteq> j" for x
    using rcc.slot_inj [OF inv j, of x] that by (auto simp: contrib_def split: option.splits)
  then have "(\<Sum>x\<in>{..<NINODE} - {j}. contrib (rc_slot (icache s) x) i) = 0" by simp
  then show "refs s i = n" unfolding refs_def using jn j by (subst sum.remove [of _ j]) (simp_all add: contrib_def)
  show "0 < n" using rcc.slot_pos [OF inv j] .
qed

lemma refs_zero: "refs s i = 0 \<longleftrightarrow> (\<forall>j<NINODE. contrib (rc_slot (icache s) j) i = 0)"
  by (auto simp: refs_def)

subsection \<open>The invariant\<close>

definition disk_cinode :: "superblock \<Rightarrow> nat \<Rightarrow> disk_view \<Rightarrow> cinode" where
  "disk_cinode sb i d = \<lparr>inode = the (inode_at sb i d), device = ROOTDEV, inode_number = i, is_initialized = True\<rparr>"

definition cached_at :: "fstate \<Rightarrow> nat \<Rightarrow> nat option" where
  "cached_at s i = find (\<lambda>j. map_option fst (rc_slot (icache s) j) = Some (ROOTDEV, i) \<and> is_initialized (inode_of j s)) [0..<NINODE]"

text \<open>The inode in memory when there is one, else the one on the disk.\<close>

definition view :: "superblock \<Rightarrow> fstate \<Rightarrow> nat \<Rightarrow> cinode" where
  "view sb s i = (case cached_at s i of Some j \<Rightarrow> inode_of j s | None \<Rightarrow> disk_cinode sb i (dview s))"

definition files :: "superblock \<Rightarrow> fstate \<Rightarrow> nat \<Rightarrow> afile" where
  "files sb s i = file_view (view sb s i) (dview s)"

definition inums :: "superblock \<Rightarrow> nat set" where
  "inums sb = {i. 0 < i \<and> i < unat (ninodes sb)}"

definition slots_ok :: "superblock \<Rightarrow> fstate \<Rightarrow> bool" where
  "slots_ok sb s \<longleftrightarrow> rc_inv NINODE (icache s) \<and> length (islots s) = NINODE \<and>
     (\<forall>j<NINODE. rc_slot (icache s) j = None \<longrightarrow> \<not> held_by j s) \<and>
     (\<forall>j k n. rc_slot (icache s) j = Some (k, n) \<longrightarrow> k = (ROOTDEV, inode_number (inode_of j s)) \<and> device (inode_of j s) = ROOTDEV \<and>
        inode_number (inode_of j s) \<in> inums sb \<and> (is_initialized (inode_of j s) \<longrightarrow> kind (inode (inode_of j s)) \<noteq> KUnused))"

definition disk_inv :: "superblock \<Rightarrow> (nat \<Rightarrow> cinode) \<Rightarrow> disk_view \<Rightarrow> bool" where
  "disk_inv sb V d \<longleftrightarrow> alloc_ok sb d \<and>
     (\<forall>i\<in>inums sb. file_ok sb (V i) d \<and> inode_at sb i d \<noteq> None \<and> behind sb (disk_cinode sb i d) (V i) d \<and>
        (kind (inode (V i)) = KUnused \<longrightarrow> file_size (V i) = 0)) \<and>
     (\<forall>i\<in>inums sb. \<forall>j\<in>inums sb. i \<noteq> j \<longrightarrow> inode_blocks (V i) d \<inter> inode_blocks (V j) d = {})"

definition fs_inv :: "superblock \<Rightarrow> fstate \<Rightarrow> bool" where
  "fs_inv sb s \<longleftrightarrow> slots_ok sb s \<and> disk_inv sb (view sb s) (dview s)"

lemma fs_invD:
  assumes "fs_inv sb s"
  shows "rc_inv NINODE (icache s)" "length (islots s) = NINODE" "slots_ok sb s" "disk_inv sb (view sb s) (dview s)"
    "j < NINODE \<Longrightarrow> rc_slot (icache s) j = None \<Longrightarrow> \<not> held_by j s"
    "i \<in> inums sb \<Longrightarrow> file_ok sb (view sb s i) (dview s)"
    "i \<in> inums sb \<Longrightarrow> kind (inode (view sb s i)) = KUnused \<Longrightarrow> file_size (view sb s i) = 0"
proof -
  show ok: "slots_ok sb s" "disk_inv sb (view sb s) (dview s)" using assms by (simp_all add: fs_inv_def)
  show "rc_inv NINODE (icache s)" "length (islots s) = NINODE" "j < NINODE \<Longrightarrow> rc_slot (icache s) j = None \<Longrightarrow> \<not> held_by j s"
    using ok(1) unfolding slots_ok_def by blast+
  show "i \<in> inums sb \<Longrightarrow> file_ok sb (view sb s i) (dview s)"
    "i \<in> inums sb \<Longrightarrow> kind (inode (view sb s i)) = KUnused \<Longrightarrow> file_size (view sb s i) = 0"
    using ok(2) unfolding disk_inv_def by blast+
qed

lemma handleD:
  assumes inv: "fs_inv sb s" and h: "handle s j i"
  shows "j < NINODE" "i \<in> inums sb" "inode_number (inode_of j s) = i" "device (inode_of j s) = ROOTDEV"
    "0 < refs s i" "rc_slot (icache s) j = Some ((ROOTDEV, i), refs s i)" "is_initialized (inode_of j s) \<Longrightarrow> kind (inode (inode_of j s)) \<noteq> KUnused"
proof -
  obtain n where n: "rc_slot (icache s) j = Some ((ROOTDEV, i), n)" using h by (auto simp: handle_def)
  note r = refs_handle [OF fs_invD(1) [OF inv] n]
  show "j < NINODE" "0 < refs s i" "rc_slot (icache s) j = Some ((ROOTDEV, i), refs s i)" using r n by simp_all
  have "(ROOTDEV, i) = (ROOTDEV, inode_number (inode_of j s)) \<and> device (inode_of j s) = ROOTDEV \<and> inode_number (inode_of j s) \<in> inums sb \<and>
    (is_initialized (inode_of j s) \<longrightarrow> kind (inode (inode_of j s)) \<noteq> KUnused)"
    using fs_invD(3) [OF inv] n unfolding slots_ok_def by blast
  then show "i \<in> inums sb" "inode_number (inode_of j s) = i" "device (inode_of j s) = ROOTDEV"
    "is_initialized (inode_of j s) \<Longrightarrow> kind (inode (inode_of j s)) \<noteq> KUnused" by simp_all
qed

lemma handle_rc:
  assumes "rc_inv NINODE (icache s)" "handle s j i"
  shows "j < NINODE" "handle s k i \<Longrightarrow> j = k"
  using rcc.slot_bound [OF assms(1), of j] rcc.slot_inj [OF assms(1)] assms(2) unfolding handle_def by blast+

lemma handle_inum: "handle s j i \<Longrightarrow> handle s j i' \<Longrightarrow> i = i'"
  by (auto simp: handle_def)

lemma cached_at_Some: "cached_at s i = Some j \<Longrightarrow> handle s j i \<and> is_initialized (inode_of j s) \<and> j < NINODE"
  unfolding cached_at_def by (drule find_SomeD) (auto simp: handle_def)

lemma cached_at_handle:
  assumes inv: "rc_inv NINODE (icache s)" and h: "handle s j i"
  shows "cached_at s i = (if is_initialized (inode_of j s) then Some j else None)"
proof (cases "cached_at s i")
  case None
  have "j \<in> set [0..<NINODE]" using handle_rc(1) [OF inv h] by simp
  from find_NoneD [OF None [unfolded cached_at_def] this] have "\<not> is_initialized (inode_of j s)" using h by (auto simp: handle_def)
  then show ?thesis using None by simp
next
  case (Some k)
  then show ?thesis using cached_at_Some [OF Some] handle_rc(2) [OF inv h, of k] by auto
qed

lemma view_handle: "fs_inv sb s \<Longrightarrow> handle s j i \<Longrightarrow> is_initialized (inode_of j s) \<Longrightarrow> view sb s i = inode_of j s"
  by (simp add: view_def cached_at_handle [OF fs_invD(1)])

lemma view_number:
  assumes "fs_inv sb s"
  shows "inode_number (view sb s i) = i" "device (view sb s i) = ROOTDEV" "is_initialized (view sb s i)"
  using cached_at_Some [of s i] handleD(3,4) [OF assms] by (auto simp: view_def disk_cinode_def split: option.splits)

subsection \<open>One file changes\<close>

lemma disk_invD:
  assumes "disk_inv sb V d"
  shows "i \<in> inums sb \<Longrightarrow> file_ok sb (V i) d" "i \<in> inums sb \<Longrightarrow> inode_at sb i d \<noteq> None"
    "i \<in> inums sb \<Longrightarrow> behind sb (disk_cinode sb i d) (V i) d" "i \<in> inums sb \<Longrightarrow> kind (inode (V i)) = KUnused \<Longrightarrow> file_size (V i) = 0"
    "i \<in> inums sb \<Longrightarrow> j \<in> inums sb \<Longrightarrow> i \<noteq> j \<Longrightarrow> inode_blocks (V i) d \<inter> inode_blocks (V j) d = {}" "alloc_ok sb d"
  using assms unfolding disk_inv_def by blast+

lemma disk_inv_cong: "\<forall>i\<in>inums sb. V' i = V i \<Longrightarrow> disk_inv sb V d \<Longrightarrow> disk_inv sb V' d"
  by (simp add: disk_inv_def)

lemma disk_inv_step:
  assumes inv: "disk_inv sb V d" and i: "i \<in> inums sb" "inode_number (V i) = i"
    and st: "file_step sb (V i) d ip' d'" and un: "kind (inode ip') = KUnused \<Longrightarrow> file_size ip' = 0"
  shows "disk_inv sb (V(i := ip')) d'" "j \<in> inums sb \<Longrightarrow> j \<noteq> i \<Longrightarrow> file_view (V j) d' = file_view (V j) d"
proof -
  note oth = other_file [OF st disk_invD(1) [OF inv]]
  have dj: "inode_blocks (V j) d \<inter> inode_blocks (V i) d = {}" if "j \<in> inums sb" "j \<noteq> i" for j
    using disk_invD(5) [OF inv that(1) i(1) that(2)] .
  show fv: "file_view (V j) d' = file_view (V j) d" if "j \<in> inums sb" "j \<noteq> i" for j
    using oth(2) [OF that(1) dj [OF that]] .
  have at: "inode_at sb j d' = inode_at sb j d" if "j \<in> inums sb" "j \<noteq> i" for j
    using file_stepD(8) [OF st, of j] that i(2) by (simp add: inums_def)
  have other: "behind sb (disk_cinode sb j d') (V j) d'" if j: "j \<in> inums sb" "j \<noteq> i" for j
  proof -
    note b = disk_invD(3) [OF inv j(1)]
    note bf = behind_file [OF b disk_invD(1) [OF inv j(1)]]
    have "inode_blocks (disk_cinode sb j d) d \<inter> inode_blocks (V i) d = {}" using bf(2) dj [OF j] by blast
    from other_file(4) [OF st bf(1) this] b at [OF j] show ?thesis by (simp add: behind_def disk_cinode_def)
  qed
  have self: "inode_at sb i d' \<noteq> None \<and> behind sb (disk_cinode sb i d') ip' d'"
    using file_stepD(9) [OF st] unfolding i(2)
  proof
    assume "inode_at sb i d' = Some (inode ip')"
    then show ?thesis using behind_refl [OF file_stepD(1) [OF st], of "disk_cinode sb i d'"] by (simp add: disk_cinode_def)
  next
    assume a: "inode_at sb i d' = inode_at sb i d \<and> evolve sb (V i) d ip' d'"
    then have "disk_cinode sb i d' = disk_cinode sb i d" by (simp add: disk_cinode_def)
    then show ?thesis using a disk_invD(2) [OF inv i(1)] behind_step [OF disk_invD(3) [OF inv i(1)] disk_invD(1) [OF inv i(1)]] by simp
  qed
  have blocks: "inode_blocks (V j) d' \<inter> inode_blocks (V k) d' = {}" if "j \<in> inums sb" "k \<in> inums sb" "j \<noteq> k" "j \<noteq> i" "k \<noteq> i" for j k
    using disk_invD(5) [OF inv that(1-3)] oth(3) [OF that(1) dj [OF that(1,4)]] oth(3) [OF that(2) dj [OF that(2,5)]] by simp
  have mine: "inode_blocks (V j) d' \<inter> inode_blocks ip' d' = {}" if "j \<in> inums sb" "j \<noteq> i" for j using oth(5) [OF that(1) dj [OF that]] .
  have "alloc_ok sb d'" using file_okD(1) [OF file_stepD(1) [OF st]] by (simp add: inode_ok_def)
  moreover have "file_ok sb ((V(i := ip')) j) d' \<and> inode_at sb j d' \<noteq> None \<and> behind sb (disk_cinode sb j d') ((V(i := ip')) j) d' \<and>
    (kind (inode ((V(i := ip')) j)) = KUnused \<longrightarrow> file_size ((V(i := ip')) j) = 0)" if "j \<in> inums sb" for j
    using that oth(1) [OF that dj [OF that]] other [OF that] self un file_stepD(1) [OF st] at [OF that] disk_invD(2,4) [OF inv that] by (cases "j = i") simp_all
  moreover have "inode_blocks ((V(i := ip')) j) d' \<inter> inode_blocks ((V(i := ip')) k) d' = {}" if "j \<in> inums sb" "k \<in> inums sb" "j \<noteq> k" for j k
    using that blocks [of j k] mine [of j] mine [of k] by (auto simp: Int_commute)
  ultimately show "disk_inv sb (V(i := ip')) d'" unfolding disk_inv_def by blast
qed

subsection \<open>Changes of the state\<close>

text \<open>
  \<open>change\<close> collects what an operation does: the references, the locks and the files afterwards; the handles of slots
  outside \<open>X\<close> stay valid, with the same inode in memory.
\<close>

definition change :: "superblock \<Rightarrow> nat set \<Rightarrow> fstate \<Rightarrow> (nat \<Rightarrow> nat) \<Rightarrow> nat set \<Rightarrow> (nat \<Rightarrow> afile) \<Rightarrow> fstate \<Rightarrow> bool" where
  "change sb X s R H F s' \<longleftrightarrow> fs_inv sb s' \<and> refs s' = R \<and> held_set s' = H \<and> (\<forall>i\<in>inums sb. files sb s' i = F i) \<and>
     (\<forall>x i. handle s x i \<and> x \<notin> X \<longrightarrow> handle s' x i \<and> inode_of x s' = inode_of x s)"

lemma changeD:
  assumes "change sb X s R H F s'"
  shows "fs_inv sb s'" "refs s' = R" "held_set s' = H" "i \<in> inums sb \<Longrightarrow> files sb s' i = F i"
    "handle s x i \<Longrightarrow> x \<notin> X \<Longrightarrow> handle s' x i" "handle s x i \<Longrightarrow> x \<notin> X \<Longrightarrow> inode_of x s' = inode_of x s"
  using assms by (auto simp: change_def)

lemma change_refl: "fs_inv sb s \<Longrightarrow> change sb X s (refs s) (held_set s) (files sb s) s"
  by (simp add: change_def)

text \<open>Only the slots change, and the inodes that count are the same.\<close>

lemma cached_at_cong:
  assumes "\<And>j. j < NINODE \<Longrightarrow> (map_option fst (rc_slot (icache s') j) = Some (ROOTDEV, i) \<and> is_initialized (inode_of j s')) =
    (map_option fst (rc_slot (icache s) j) = Some (ROOTDEV, i) \<and> is_initialized (inode_of j s))"
  shows "cached_at s' i = cached_at s i"
  unfolding cached_at_def by (rule find_cong_set) (use assms in simp)

lemma fs_inv_view:
  assumes "fs_inv sb s" "slots_ok sb s'" "dview s' = dview s" "\<And>i. i \<in> inums sb \<Longrightarrow> view sb s' i = view sb s i"
  shows "fs_inv sb s'" "i \<in> inums sb \<Longrightarrow> files sb s' i = files sb s i"
  using assms disk_inv_cong [of sb "view sb s'" "view sb s" "dview s"] by (simp_all add: fs_inv_def files_def)

lemma slots_okI:
  assumes "rc_inv NINODE (icache s)" "length (islots s) = NINODE" "\<And>j. j < NINODE \<Longrightarrow> rc_slot (icache s) j = None \<Longrightarrow> \<not> held_by j s"
    and "\<And>j k n. rc_slot (icache s) j = Some (k, n) \<Longrightarrow> k = (ROOTDEV, inode_number (inode_of j s)) \<and> device (inode_of j s) = ROOTDEV \<and>
      inode_number (inode_of j s) \<in> inums sb \<and> (is_initialized (inode_of j s) \<longrightarrow> kind (inode (inode_of j s)) \<noteq> KUnused)"
  shows "slots_ok sb s"
  unfolding slots_ok_def using assms by blast

lemma slots_okD:
  assumes "slots_ok sb s" "rc_slot (icache s) j = Some (k, n)"
  shows "k = (ROOTDEV, inode_number (inode_of j s)) \<and> device (inode_of j s) = ROOTDEV \<and>
      inode_number (inode_of j s) \<in> inums sb \<and> (is_initialized (inode_of j s) \<longrightarrow> kind (inode (inode_of j s)) \<noteq> KUnused)"
  using assms unfolding slots_ok_def by blast

lemma inode_of_sel [simp]: "inode_of x (s\<lparr>icache := c\<rparr>) = inode_of x s" "inode_of x (s\<lparr>dview := d\<rparr>) = inode_of x s"
  "held_by x (s\<lparr>icache := c\<rparr>) = held_by x s" "held_by x (s\<lparr>dview := d\<rparr>) = held_by x s"
  "icache (set_inode_of j ip s) = icache s" "icache (set_islot_held j b s) = icache s"
  "dview (set_inode_of j ip s) = dview s" "dview (set_islot_held j b s) = dview s"
  "length (islots (set_inode_of j ip s)) = length (islots s)" "length (islots (set_islot_held j b s)) = length (islots s)"
  by (simp_all add: inode_of_def held_by_def set_inode_of_def set_islot_held_def)

lemma inode_of_set [simp]:
  assumes "j < length (islots s)" "x < length (islots s)"
  shows "inode_of x (set_inode_of j ip s) = (if x = j then ip else inode_of x s)" "held_by x (set_inode_of j ip s) = held_by x s"
    "held_by x (set_islot_held j b s) = (if x = j then b else held_by x s)" "inode_of x (set_islot_held j b s) = inode_of x s"
  using assms by (auto simp: inode_of_def held_by_def set_inode_of_def set_islot_held_def nth_list_update)

lemma recount:
  assumes inv: "fs_inv sb s" and j: "rc_slot (icache s) j = Some ((ROOTDEV, i), n)" and n': "0 < n'"
    and c: "rc_inv NINODE c" "rc_slot c = (rc_slot (icache s))(j \<mapsto> ((ROOTDEV, i), n'))"
  shows "change sb {} s ((refs s)(i := n')) (held_set s) (files sb s) (s\<lparr>icache := c\<rparr>)" "handle (s\<lparr>icache := c\<rparr>) j i"
proof -
  let ?s = "s\<lparr>icache := c\<rparr>"
  have jn: "j < NINODE" "refs s i = n" using refs_handle [OF fs_invD(1) [OF inv] j] by simp_all
  have key: "map_option fst (rc_slot c x) = map_option fst (rc_slot (icache s) x)" for x using c(2) j by simp
  have "slots_ok sb ?s"
  proof (rule slots_okI)
    show "\<not> held_by x ?s" if "x < NINODE" "rc_slot (icache ?s) x = None" for x
      using that fs_invD(5) [OF inv, of x] c(2) by (auto split: if_splits)
    show "k = (ROOTDEV, inode_number (inode_of x ?s)) \<and> device (inode_of x ?s) = ROOTDEV \<and> inode_number (inode_of x ?s) \<in> inums sb \<and>
      (is_initialized (inode_of x ?s) \<longrightarrow> kind (inode (inode_of x ?s)) \<noteq> KUnused)" if "rc_slot (icache ?s) x = Some (k, m)" for x k m
      using that slots_okD [OF fs_invD(3) [OF inv]] j unfolding inode_of_sel by (cases "x = j") (auto simp: c(2))
  qed (use c(1) fs_invD(2) [OF inv] in simp_all)
  moreover have "cached_at ?s k = cached_at s k" for k by (rule cached_at_cong) (simp add: key)
  then have "view sb ?s k = view sb s k" for k by (simp add: view_def split: option.split)
  moreover have "refs ?s k = ((refs s)(i := n')) k" for k
    using refs_upd [of ?s s j _ k] jn j c(2) by (auto simp: contrib_def)
  then have "refs ?s = (refs s)(i := n')" by blast
  moreover have "handle ?s x k" if "handle s x k" for x k using that c(2) j by (auto simp: handle_def)
  ultimately show "change sb {} s ((refs s)(i := n')) (held_set s) (files sb s) ?s"
    using fs_inv_view [OF inv, of ?s] by (simp add: change_def held_set_def)
  show "handle ?s j i" using c(2) by (simp add: handle_def)
qed

lemma duplicate_spec:
  assumes inv: "fs_inv sb s" and h: "handle s j i"
  shows "change sb {} s ((refs s)(i := refs s i + 1)) (held_set s) (files sb s) (icache_duplicate j s)" "dview (icache_duplicate j s) = dview s"
proof -
  note slot = handleD(6) [OF inv h]
  from rcc.dup_slot [OF fs_invD(1) [OF inv] slot] obtain c where
    c: "rc_duplicate (icache s) j = (Some j, c)" "rc_inv NINODE c" "rc_slot c = (rc_slot (icache s))(j \<mapsto> ((ROOTDEV, i), Suc (refs s i)))" by blast
  then show "change sb {} s ((refs s)(i := refs s i + 1)) (held_set s) (files sb s) (icache_duplicate j s)"
    using recount(1) [OF inv slot _ c(2,3)] by (simp add: icache_duplicate_def)
  show "dview (icache_duplicate j s) = dview s" by (simp add: icache_duplicate_def)
qed

text \<open>Getting an inode.\<close>

definition full :: "fstate \<Rightarrow> bool" where
  "full s \<longleftrightarrow> (\<forall>j<NINODE. rc_slot (icache s) j \<noteq> None)"

lemma get_new:
  assumes inv: "fs_inv sb s" and i: "i \<in> inums sb" and new: "\<And>x n. rc_slot (icache s) x \<noteq> Some ((ROOTDEV, i), n)"
    and j: "rc_slot (icache s) j = None" "j < NINODE"
    and c: "rc_inv NINODE c" "rc_slot c = (rc_slot (icache s))(j \<mapsto> ((ROOTDEV, i), 1))"
    and s': "s' = set_islot_held j False (set_inode_of j ((inode_of j s)\<lparr>device := ROOTDEV, inode_number := i, is_initialized := False\<rparr>) (set_islot_held j True (s\<lparr>icache := c\<rparr>)))"
  shows "change sb {} s ((refs s)(i := refs s i + 1)) (held_set s) (files sb s) s'" "handle s' j i" "dview s' = dview s"
proof -
  have len: "length (islots s) = NINODE" "length (islots (s\<lparr>icache := c\<rparr>)) = NINODE" using fs_invD(2) [OF inv] by simp_all
  have ino: "inode_of x s' = (if x = j then (inode_of j s)\<lparr>device := ROOTDEV, inode_number := i, is_initialized := False\<rparr> else inode_of x s)"
    and held: "held_by x s' = held_by x s" if "x < NINODE" for x
    using that j len fs_invD(5) [OF inv j(2,1)] by (auto simp: s')
  have sl: "rc_slot (icache s') = (rc_slot (icache s))(j \<mapsto> ((ROOTDEV, i), 1))" using c(2) by (simp add: s')
  have bound: "x < NINODE" if "rc_slot (icache s') x = Some kn" for x kn
    using that j(2) rcc.slot_bound [OF fs_invD(1) [OF inv], of x] by (cases kn) (auto simp: sl split: if_splits)
  show dv: "dview s' = dview s" by (simp add: s')
  have "slots_ok sb s'"
  proof (rule slots_okI)
    show "rc_inv NINODE (icache s')" "length (islots s') = NINODE" using c(1) len by (simp_all add: s')
    show "\<not> held_by x s'" if "x < NINODE" "rc_slot (icache s') x = None" for x
      using that fs_invD(5) [OF inv, of x] held [of x] by (auto simp: sl split: if_splits)
    show "k = (ROOTDEV, inode_number (inode_of x s')) \<and> device (inode_of x s') = ROOTDEV \<and> inode_number (inode_of x s') \<in> inums sb \<and>
      (is_initialized (inode_of x s') \<longrightarrow> kind (inode (inode_of x s')) \<noteq> KUnused)" if "rc_slot (icache s') x = Some (k, m)" for x k m
      using that slots_okD [OF fs_invD(3) [OF inv], of x k m] ino [OF bound [OF that]] i by (cases "x = j") (simp_all add: sl)
  qed
  moreover have "view sb s' k = view sb s k" for k
  proof -
    have eq: "cached_at s' k = cached_at s k" by (rule cached_at_cong) (use ino j(1) in \<open>auto simp: sl\<close>)
    show ?thesis
    proof (cases "cached_at s k")
      case (Some x)
      from cached_at_Some [OF this] have "x < NINODE" "x \<noteq> j" using j(1) by (auto simp: handle_def)
      then show ?thesis using Some eq ino [of x] by (simp add: view_def)
    qed (simp add: view_def eq dv)
  qed
  moreover have "refs s' k = ((refs s)(i := refs s i + 1)) k" for k
    using refs_upd [OF sl j(2), of k] j(1) by (auto simp: contrib_def)
  then have "refs s' = (refs s)(i := refs s i + 1)" by blast
  moreover have "handle s' x k \<and> inode_of x s' = inode_of x s" if "handle s x k" for x k
    using that j(1) ino [of x] handleD(1) [OF inv that] by (auto simp: handle_def sl)
  moreover have "held_set s' = held_set s" using held by (auto simp: held_set_def)
  ultimately show "change sb {} s ((refs s)(i := refs s i + 1)) (held_set s) (files sb s) s'"
    using fs_inv_view [OF inv _ dv] by (simp add: change_def)
  show "handle s' j i" using sl by (simp add: handle_def)
qed

lemma get_spec:
  assumes inv: "fs_inv sb s" and i: "i \<in> inums sb"
  shows "(\<exists>j s'. icache_get ROOTDEV i s = Some (Some j, s') \<and> change sb {} s ((refs s)(i := refs s i + 1)) (held_set s) (files sb s) s' \<and>
      handle s' j i \<and> dview s' = dview s) \<or>
    icache_get ROOTDEV i s = Some (None, s) \<and> refs s i = 0 \<and> full s"
proof (rule rcc.get_cases [OF fs_invD(1) [OF inv], of "(ROOTDEV, i)"], goal_cases hit miss full)
  case (hit j n c)
  then have "icache_get ROOTDEV i s = Some (Some j, s\<lparr>icache := c\<rparr>)" by (simp add: icache_get_def Let_def)
  then show ?thesis using recount [OF inv hit(1) _ hit(3,4)] refs_handle(1) [OF fs_invD(1) [OF inv] hit(1)] by auto
next
  case (miss j c)
  have len: "length (islots s) = NINODE" using fs_invD(2) [OF inv] .
  have "\<not> held_by j s" using fs_invD(5) [OF inv miss(3,2)] .
  then have "icache_get ROOTDEV i s = Some (Some j, set_islot_held j False (set_inode_of j ((inode_of j s)\<lparr>device := ROOTDEV, inode_number := i, is_initialized := False\<rparr>)
      (set_islot_held j True (s\<lparr>icache := c\<rparr>))))"
    using miss(3,4) len by (simp add: icache_get_def Let_def lock_islot_def)
  then show ?thesis using get_new [OF inv i miss(1,2,3,5,6) refl] by blast
next
  case full
  have "s\<lparr>icache := icache s\<rparr> = s" by simp
  then have "icache_get ROOTDEV i s = Some (None, s)" using full(3) by (simp add: icache_get_def Let_def)
  moreover have "contrib (rc_slot (icache s) x) i = 0" for x using full(1) by (auto simp: contrib_def split: option.splits)
  then have "refs s i = 0" by (simp add: refs_zero)
  ultimately show ?thesis using full(2) by (simp add: full_def)
qed

end
