(* ===== verification/Fs_Refs.thy ===== *)
theory Fs_Refs
  imports Fs_State
begin

text \<open>
  Locking, unlocking and dropping references, and operations on a locked inode, as changes of the state.
\<close>

lemma changeI:
  assumes "fs_inv sb s'" "refs s' = R" "held_set s' = H" "\<And>i. i \<in> inums sb \<Longrightarrow> files sb s' i = F i"
    "\<And>x i. handle s x i \<Longrightarrow> x \<notin> X \<Longrightarrow> handle s' x i \<and> inode_of x s' = inode_of x s"
  shows "change sb X s R H F s'"
  unfolding change_def using assms by blast

lemma change_then:
  assumes "change sb X s R H F s1" "change sb Y s1 R' H' F' s2" "\<And>i. i \<in> inums sb \<Longrightarrow> F' i = F2 i"
  shows "change sb (X \<union> Y) s R' H' F2 s2"
  using assms unfolding change_def by (metis Un_iff)

lemma change_mono: "change sb X s R H F s' \<Longrightarrow> X \<subseteq> Y \<Longrightarrow> change sb Y s R H F s'"
  unfolding change_def by blast

lemma change_files: "change sb X s R H F s' \<Longrightarrow> (\<And>i. i \<in> inums sb \<Longrightarrow> F i = F' i) \<Longrightarrow> change sb X s R H F' s'"
  unfolding change_def by metis

lemma handle_icache: "icache s' = icache s \<Longrightarrow> handle s' x i = handle s x i"
  by (simp add: handle_def)

lemma refs_icache: "icache s' = icache s \<Longrightarrow> refs s' = refs s"
  by (simp add: refs_def fun_eq_iff)

subsection \<open>The lock of a slot\<close>

lemma hold_change:
  assumes inv: "fs_inv sb s" and h: "handle s j i"
  shows "change sb {} s (refs s) (if b then insert j (held_set s) else held_set s - {j}) (files sb s) (set_islot_held j b s)"
proof -
  let ?s = "set_islot_held j b s"
  have j: "j < NINODE" "length (islots s) = NINODE" using handleD(1) [OF inv h] fs_invD(2) [OF inv] by simp_all
  have ino: "inode_of x ?s = inode_of x s" if "x < NINODE" for x using that j by simp
  have "slots_ok sb ?s"
  proof (rule slots_okI)
    show "\<not> held_by x ?s" if "x < NINODE" "rc_slot (icache ?s) x = None" for x
      using that fs_invD(5) [OF inv, of x] j handleD(6) [OF inv h] by auto
    show "k = (ROOTDEV, inode_number (inode_of x ?s)) \<and> device (inode_of x ?s) = ROOTDEV \<and> inode_number (inode_of x ?s) \<in> inums sb \<and>
      (is_initialized (inode_of x ?s) \<longrightarrow> kind (inode (inode_of x ?s)) \<noteq> KUnused)" if "rc_slot (icache ?s) x = Some (k, m)" for x k m
    proof -
      have x: "rc_slot (icache s) x = Some (k, m)" using that by simp
      then have "x < NINODE" using rcc.slot_bound [OF fs_invD(1) [OF inv]] by blast
      then show ?thesis using slots_okD [OF fs_invD(3) [OF inv] x] ino by simp
    qed
  qed (use fs_invD(1,2) [OF inv] in simp_all)
  moreover have "view sb ?s k = view sb s k" for k
  proof -
    have "cached_at ?s k = cached_at s k" by (rule cached_at_cong) (simp add: ino)
    then show ?thesis using cached_at_Some [of s k] ino by (auto simp: view_def split: option.split)
  qed
  ultimately have v: "fs_inv sb ?s" "\<And>k. k \<in> inums sb \<Longrightarrow> files sb ?s k = files sb s k" using fs_inv_view [OF inv, of ?s] by simp_all
  have hs: "held_set ?s = (if b then insert j (held_set s) else held_set s - {j})" using j by (auto simp: held_set_def split: if_splits)
  have hn: "handle ?s x k \<and> inode_of x ?s = inode_of x s" if "handle s x k" "x \<notin> {}" for x k
    using that ino [OF handleD(1) [OF inv that(1)]] handle_icache [of ?s s] by simp
  have "refs ?s = refs s" by (rule refs_icache) simp
  then show ?thesis by (rule changeI [OF v(1) _ hs v(2) hn])
qed

subsection \<open>An operation on a locked inode\<close>

lemma slot_step:
  assumes inv: "fs_inv sb s" and h: "handle s j i" and init: "is_initialized (inode_of j s)"
    and st: "file_step sb (inode_of j s) (dview s) ip' d'" and k: "kind (inode ip') \<noteq> KUnused"
    and s': "s' = set_inode_of j ip' (s\<lparr>dview := d'\<rparr>)"
  shows "change sb {j} s (refs s) (held_set s) ((files sb s)(i := file_view ip' d')) s'" "handle s' j i" "inode_of j s' = ip'" "is_initialized ip'"
proof -
  have j: "j < NINODE" "length (islots s) = NINODE" "length (islots (s\<lparr>dview := d'\<rparr>)) = NINODE" using handleD(1) [OF inv h] fs_invD(2) [OF inv] by simp_all
  note hd = handleD [OF inv h]
  have ino: "inode_of x s' = (if x = j then ip' else inode_of x s)" "held_by x s' = held_by x s" if "x < NINODE" for x using that j by (simp_all add: s')
  have ic: "icache s' = icache s" "dview s' = d'" by (simp_all add: s')
  show init': "is_initialized ip'" using file_stepD(4) [OF st] init by simp
  have "slots_ok sb s'"
  proof (rule slots_okI)
    show "rc_inv NINODE (icache s')" "length (islots s') = NINODE" using fs_invD(1) [OF inv] j by (simp_all add: s')
    show "\<not> held_by x s'" if "x < NINODE" "rc_slot (icache s') x = None" for x using that fs_invD(5) [OF inv, of x] ino ic by simp
    show "k = (ROOTDEV, inode_number (inode_of x s')) \<and> device (inode_of x s') = ROOTDEV \<and> inode_number (inode_of x s') \<in> inums sb \<and>
      (is_initialized (inode_of x s') \<longrightarrow> kind (inode (inode_of x s')) \<noteq> KUnused)" if "rc_slot (icache s') x = Some (k, m)" for x k m
    proof -
      have x: "rc_slot (icache s) x = Some (k, m)" using that ic by simp
      then have "x < NINODE" using rcc.slot_bound [OF fs_invD(1) [OF inv]] by blast
      then show ?thesis using slots_okD [OF fs_invD(3) [OF inv] x] ino(1) [of x] file_stepD(2,3) [OF st] k by (cases "x = j") simp_all
    qed
  qed
  moreover have v: "view sb s' k = ((view sb s)(i := ip')) k" if "k \<in> inums sb" for k
  proof -
    have "cached_at s' k = cached_at s k" by (rule cached_at_cong) (use ino init init' ic in auto)
    moreover have "view sb s' k = view sb s k" if "k \<noteq> i"
    proof (cases "cached_at s k")
      case None
      have "inode_at sb k d' = inode_at sb k (dview s)" using file_stepD(8) [OF st, of k] that hd(3) \<open>k \<in> inums sb\<close> by (simp add: inums_def)
      then show ?thesis using None calculation ic by (simp add: view_def disk_cinode_def)
    next
      case (Some x)
      from cached_at_Some [OF this] have "x < NINODE" "x \<noteq> j" using handle_inum [OF h] that by auto
      then show ?thesis using Some calculation ino by (simp add: view_def)
    qed
    moreover have "view sb s' i = ip'" if "k = i" using calculation that cached_at_handle [OF fs_invD(1) [OF inv] h] init ino j by (simp add: view_def)
    ultimately show ?thesis by auto
  qed
  moreover have vi: "view sb s i = inode_of j s" using view_handle [OF inv h init] .
  note step = disk_inv_step [OF fs_invD(4) [OF inv] hd(2) _ st [folded vi]]
  have "disk_inv sb ((view sb s)(i := ip')) d'" using step(1) hd(3) vi k by simp
  then have "disk_inv sb (view sb s') (dview s')" using disk_inv_cong v ic by metis
  ultimately have inv': "fs_inv sb s'" by (simp add: fs_inv_def)
  have fl: "files sb s' k = ((files sb s)(i := file_view ip' d')) k" if "k \<in> inums sb" for k
    using v [OF that] step(2) [of k] that hd(3) vi k ic by (auto simp: files_def)
  have hn: "handle s' x k \<and> inode_of x s' = inode_of x s" if "handle s x k" "x \<notin> {j}" for x k
    using that ino [OF handleD(1) [OF inv that(1)]] handle_icache [OF ic(1)] by simp
  have hs: "held_set s' = held_set s" using ino(2) by (auto simp: held_set_def)
  show "change sb {j} s (refs s) (held_set s) ((files sb s)(i := file_view ip' d')) s'"
    by (rule changeI [OF inv' refs_icache [OF ic(1)] hs fl hn])
  show "handle s' j i" "inode_of j s' = ip'" using h ino(1) [OF j(1)] handle_icache [OF ic(1)] by simp_all
qed

subsection \<open>Locking a reference\<close>

lemma init_change:
  assumes inv: "fs_inv sb s" and h: "handle s j i" and un: "\<not> is_initialized (inode_of j s)" and k: "akind (files sb s i) \<noteq> KUnused"
  shows "\<exists>ip. initialize sb (inode_of j s) (dview s) = Some ip \<and>
    change sb {j} s (refs s) (held_set s) (files sb s) (set_inode_of j (ip\<lparr>is_initialized := True\<rparr>) s)"
proof -
  note hd = handleD [OF inv h]
  have no: "cached_at s i = None" using cached_at_handle [OF fs_invD(1) [OF inv] h] un by simp
  then have vi: "view sb s i = disk_cinode sb i (dview s)" by (simp add: view_def)
  obtain di where di: "inode_at sb i (dview s) = Some di" using disk_invD(2) [OF fs_invD(4) [OF inv] hd(2)] by auto
  have kd: "kind di \<noteq> KUnused" using k vi di by (simp add: files_def disk_cinode_def)
  let ?ip = "(inode_of j s)\<lparr>inode := di\<rparr>" and ?s = "set_inode_of j ((inode_of j s)\<lparr>inode := di, is_initialized := True\<rparr>) s"
  have "disk_ok (dview s)" using disk_invD(6) [OF fs_invD(4) [OF inv]] by (simp add: alloc_ok_def)
  then have run: "initialize sb (inode_of j s) (dview s) = Some ?ip"
    using di kd hd(3) by (simp add: initialize_def inode_at_def inode_block_at_def)
  have new: "(inode_of j s)\<lparr>inode := di, is_initialized := True\<rparr> = disk_cinode sb i (dview s)"
    using hd(3,4) di by (simp add: disk_cinode_def)
  have j: "j < length (islots s)" using hd(1) fs_invD(2) [OF inv] by simp
  have ino: "inode_of x ?s = (if x = j then disk_cinode sb i (dview s) else inode_of x s)" "held_by x ?s = held_by x s" if "x < NINODE" for x
    using that j fs_invD(2) [OF inv] new by simp_all
  have "slots_ok sb ?s"
  proof (rule slots_okI)
    show "\<not> held_by x ?s" if "x < NINODE" "rc_slot (icache ?s) x = None" for x using that fs_invD(5) [OF inv, of x] ino(2) by simp
    show "k = (ROOTDEV, inode_number (inode_of x ?s)) \<and> device (inode_of x ?s) = ROOTDEV \<and> inode_number (inode_of x ?s) \<in> inums sb \<and>
      (is_initialized (inode_of x ?s) \<longrightarrow> kind (inode (inode_of x ?s)) \<noteq> KUnused)" if "rc_slot (icache ?s) x = Some (k, m)" for x k m
    proof -
      have x: "rc_slot (icache s) x = Some (k, m)" using that by simp
      then have "x < NINODE" using rcc.slot_bound [OF fs_invD(1) [OF inv]] by blast
      then show ?thesis using slots_okD [OF fs_invD(3) [OF inv] x] ino(1) [of x] hd(2,3,6) x kd di by (cases "x = j") (simp_all add: disk_cinode_def)
    qed
  qed (use fs_invD(1,2) [OF inv] in simp_all)
  moreover have "view sb ?s k = view sb s k" if "k \<in> inums sb" for k
  proof (cases "k = i")
    case True
    have "cached_at ?s i = Some j" using cached_at_handle [of ?s j i] fs_invD(1) [OF inv] h ino(1) [OF hd(1)] by (simp add: handle_def disk_cinode_def)
    then show ?thesis using True vi ino(1) [OF hd(1)] by (simp add: view_def)
  next
    case False
    have "cached_at ?s k = cached_at s k" by (rule cached_at_cong) (use ino(1) hd(6) False in \<open>auto split: if_splits\<close>)
    moreover have "x < NINODE \<and> x \<noteq> j" if "cached_at s k = Some x" for x using cached_at_Some [OF that] handle_inum [OF h] False by auto
    ultimately show ?thesis using ino(1) by (auto simp: view_def split: option.split)
  qed
  ultimately have v: "fs_inv sb ?s" "\<And>k. k \<in> inums sb \<Longrightarrow> files sb ?s k = files sb s k" using fs_inv_view [OF inv, of ?s] by simp_all
  have hn: "handle ?s x k \<and> inode_of x ?s = inode_of x s" if "handle s x k" "x \<notin> {j}" for x k
    using that ino(1) [OF handleD(1) [OF inv that(1)]] handle_icache [of ?s s] by simp
  have hs: "held_set ?s = held_set s" using ino(2) by (auto simp: held_set_def)
  have "refs ?s = refs s" by (rule refs_icache) simp
  then have "change sb {j} s (refs s) (held_set s) (files sb s) ?s" by (rule changeI [OF v(1) _ hs v(2) hn])
  then show ?thesis using run by (intro exI [of _ ?ip]) simp
qed

lemma lock_spec:
  assumes inv: "fs_inv sb s" and h: "handle s j i" and free: "j \<notin> held_set s" and k: "akind (files sb s i) \<noteq> KUnused"
  shows "\<exists>s'. ref_lock sb j s = Some s' \<and> change sb {j} s ((refs s)(i := refs s i + 1)) (insert j (held_set s)) (files sb s) s' \<and>
    handle s' j i \<and> is_initialized (inode_of j s') \<and> dview s' = dview s"
proof -
  let ?s1 = "set_islot_held j True s" and ?s2 = "icache_duplicate j (set_islot_held j True s)"
  have i: "i \<in> inums sb" and jn: "j < NINODE" using handleD [OF inv h] by simp_all
  have l: "lock_islot j s = Some ?s1" using jn free fs_invD(2) [OF inv] by (simp add: lock_islot_def held_set_def)
  have 1: "change sb {} s (refs s) (insert j (held_set s)) (files sb s) ?s1" using hold_change [OF inv h, of True] by simp
  have h1: "handle ?s1 j i" using changeD(5) [OF 1 h] by simp
  note 2 = duplicate_spec [OF changeD(1) [OF 1] h1, unfolded changeD(2,3) [OF 1]]
  have 12: "change sb {} s ((refs s)(i := refs s i + 1)) (insert j (held_set s)) (files sb s) ?s2"
    using change_then [OF 1 2(1), of "files sb s"] changeD(4) [OF 1] by simp
  have h2: "handle ?s2 j i" using changeD(5) [OF 12 h] by simp
  show ?thesis
  proof (cases "is_initialized (inode_of j ?s2)")
    case True
    then have "ref_lock sb j s = Some ?s2" using l by (simp add: ref_lock_def Let_def)
    then show ?thesis using change_mono [OF 12] h2 True 2(2) by auto
  next
    case False
    have "akind (files sb ?s2 i) \<noteq> KUnused" using k changeD(4) [OF 12 i] by simp
    from init_change [OF changeD(1) [OF 12] h2 False this] obtain ip where
      3: "initialize sb (inode_of j ?s2) (dview ?s2) = Some ip"
        "change sb {j} ?s2 (refs ?s2) (held_set ?s2) (files sb ?s2) (set_inode_of j (ip\<lparr>is_initialized := True\<rparr>) ?s2)" by blast
    let ?s3 = "set_inode_of j (ip\<lparr>is_initialized := True\<rparr>) ?s2"
    have "ref_lock sb j s = Some ?s3" using l False 3(1) by (simp add: ref_lock_def Let_def)
    moreover have "change sb {j} s ((refs s)(i := refs s i + 1)) (insert j (held_set s)) (files sb s) ?s3"
      using change_then [OF 12 3(2) [unfolded changeD(2,3) [OF 12]], of "files sb s"] changeD(4) [OF 12] by simp
    moreover have "handle ?s3 j i" using h2 by (simp add: handle_def)
    moreover have "is_initialized (inode_of j ?s3)" using jn fs_invD(2) [OF changeD(1) [OF 12]] by simp
    ultimately show ?thesis using 2(2) by simp
  qed
qed

subsection \<open>Dropping a reference\<close>

lemma disk_inv_behind:
  assumes inv: "disk_inv sb V d" and i: "i \<in> inums sb"
  shows "disk_inv sb (V(i := disk_cinode sb i d)) d" "file_view (disk_cinode sb i d) d = file_view (V i) d"
proof -
  let ?p = "disk_cinode sb i d"
  note b = disk_invD(3) [OF inv i]
  note f = behind_file [OF b disk_invD(1) [OF inv i]]
  show "file_view ?p d = file_view (V i) d" using f(3) .
  then have at: "kind (inode ?p) = kind (inode (V i))" "file_size ?p = file_size (V i)" by (metis file_view_sel(1), metis file_view_sel(3))
  have "file_ok sb ((V(i := ?p)) k) d \<and> inode_at sb k d \<noteq> None \<and> behind sb (disk_cinode sb k d) ((V(i := ?p)) k) d \<and>
    (kind (inode ((V(i := ?p)) k)) = KUnused \<longrightarrow> file_size ((V(i := ?p)) k) = 0)" if "k \<in> inums sb" for k
    using disk_invD(1-4) [OF inv that] f(1) behind_refl [OF f(1) refl] at by (cases "k = i") simp_all
  moreover have "inode_blocks ((V(i := ?p)) k) d \<inter> inode_blocks ((V(i := ?p)) l) d = {}" if "k \<in> inums sb" "l \<in> inums sb" "k \<noteq> l" for k l
    using disk_invD(5) [OF inv that] f(2) by (cases "k = i"; cases "l = i") (auto simp: fun_upd_def)
  ultimately show "disk_inv sb (V(i := ?p)) d" using disk_invD(6) [OF inv] unfolding disk_inv_def by blast
qed

text \<open>The slot of inode \<open>i\<close> is given up; what counts is then its inode on the disk.\<close>

lemma drop_slot:
  assumes inv: "fs_inv sb s" and h: "handle s j i" and c: "rc_inv NINODE (icache s')" "rc_slot (icache s') = (rc_slot (icache s))(j := None)"
    and len: "length (islots s') = NINODE" and ino: "\<And>x. x < NINODE \<Longrightarrow> x \<noteq> j \<Longrightarrow> inode_of x s' = inode_of x s \<and> held_by x s' = held_by x s"
    and free: "j \<notin> held_set s" "\<not> held_by j s'"
    and d: "disk_inv sb ((view sb s)(i := disk_cinode sb i (dview s'))) (dview s')"
      "\<And>k. k \<in> inums sb \<Longrightarrow> k \<noteq> i \<Longrightarrow> inode_at sb k (dview s') = inode_at sb k (dview s) \<and>
         file_view (view sb s k) (dview s') = file_view (view sb s k) (dview s)"
  shows "change sb {j} s ((refs s)(i := 0)) (held_set s) ((files sb s)(i := file_view (disk_cinode sb i (dview s')) (dview s'))) s'"
proof -
  note hd = handleD [OF inv h]
  have "slots_ok sb s'"
  proof (rule slots_okI [OF c(1) len])
    show "\<not> held_by x s'" if "x < NINODE" "rc_slot (icache s') x = None" for x
      using that fs_invD(5) [OF inv, of x] ino [of x] free(2) by (cases "x = j") (simp_all add: c(2))
    show "k = (ROOTDEV, inode_number (inode_of x s')) \<and> device (inode_of x s') = ROOTDEV \<and> inode_number (inode_of x s') \<in> inums sb \<and>
      (is_initialized (inode_of x s') \<longrightarrow> kind (inode (inode_of x s')) \<noteq> KUnused)" if "rc_slot (icache s') x = Some (k, m)" for x k m
    proof -
      have x: "rc_slot (icache s) x = Some (k, m)" "x \<noteq> j" using that by (auto simp: c(2) split: if_splits)
      then have "x < NINODE" using rcc.slot_bound [OF fs_invD(1) [OF inv]] by blast
      then show ?thesis using slots_okD [OF fs_invD(3) [OF inv] x(1)] ino [of x] x(2) by simp
    qed
  qed
  moreover have v: "view sb s' k = ((view sb s)(i := disk_cinode sb i (dview s'))) k" if "k \<in> inums sb" for k
  proof (cases "k = i")
    case True
    have "cached_at s' i = None"
    proof (rule ccontr)
      assume "cached_at s' i \<noteq> None"
      then obtain x where "handle s' x i" using cached_at_Some by blast
      then have "handle s x i" "x \<noteq> j" by (auto simp: handle_def c(2) split: if_splits)
      then show False using handle_rc(2) [OF fs_invD(1) [OF inv] h] by blast
    qed
    then show ?thesis using True by (simp add: view_def)
  next
    case False
    have eq: "cached_at s' k = cached_at s k"
    proof (rule cached_at_cong)
      show "(map_option fst (rc_slot (icache s') x) = Some (ROOTDEV, k) \<and> is_initialized (inode_of x s')) =
        (map_option fst (rc_slot (icache s) x) = Some (ROOTDEV, k) \<and> is_initialized (inode_of x s))" if "x < NINODE" for x
        using ino [OF that] hd(6) False by (cases "x = j") (simp_all add: c(2))
    qed
    show ?thesis
    proof (cases "cached_at s k")
      case None
      then show ?thesis using eq d(2) [OF that False] False by (simp add: view_def disk_cinode_def)
    next
      case (Some x)
      from cached_at_Some [OF this] have "x < NINODE" "x \<noteq> j" using handle_inum [OF h] False by auto
      then show ?thesis using Some eq ino [of x] False by (simp add: view_def)
    qed
  qed
  then have "disk_inv sb (view sb s') (dview s')" using disk_inv_cong d(1) by metis
  ultimately have inv': "fs_inv sb s'" by (simp add: fs_inv_def)
  have "refs s' k = ((refs s)(i := 0)) k" for k using refs_upd [OF c(2) hd(1), of k] hd(6) by (auto simp: contrib_def)
  then have rf: "refs s' = (refs s)(i := 0)" by blast
  have fl: "files sb s' k = ((files sb s)(i := file_view (disk_cinode sb i (dview s')) (dview s'))) k" if "k \<in> inums sb" for k
    using v [OF that] d(2) [OF that] by (simp add: files_def)
  have hn: "handle s' x k \<and> inode_of x s' = inode_of x s" if "handle s x k" "x \<notin> {j}" for x k
    using that ino [OF handleD(1) [OF inv that(1)]] by (simp add: handle_def c(2))
  have hs: "held_set s' = held_set s" using ino free unfolding held_set_def by blast
  show ?thesis by (rule changeI [OF inv' rf hs fl hn])
qed

definition freed :: "afile \<Rightarrow> afile" where
  "freed f = f\<lparr>akind := KUnused, abytes := []\<rparr>"

lemma evict_spec:
  assumes inv: "fs_inv sb s" and h: "handle s j i" and one: "refs s i = 1" and free: "j \<notin> held_set s"
    and keep: "nlink (inode (inode_of j s)) \<noteq> 0 \<or> \<not> is_initialized (inode_of j s)"
  shows "\<exists>s'. icache_release sb j s = Some s' \<and> change sb {j} s ((refs s)(i := 0)) (held_set s) (files sb s) s' \<and> dview s' = dview s"
proof -
  note hd = handleD [OF inv h]
  have len: "length (islots s) = NINODE" using fs_invD(2) [OF inv] .
  have nh: "\<not> held_by j s" using free hd(1) by (simp add: held_set_def)
  let ?s1 = "set_islot_held j False (set_islot_held j True s)"
  have rc: "rc_reference_count (icache s) j = Some 1" using hd(6) one by (simp add: rc_reference_count_def rc_slot_Some)
  have slot: "rc_slot (icache s) j = Some ((ROOTDEV, i), 1)" using hd(6) one by simp
  from rcc.rel_last [OF fs_invD(1) [OF inv] slot] obtain c where
    c: "rc_release (icache s) j = Some (Some True, c)" "rc_inv NINODE c" "rc_slot c = (rc_slot (icache s))(j := None)" by blast
  have "icache_release sb j s = Some (?s1\<lparr>icache := c\<rparr>)"
    unfolding icache_release_def using rc keep nh hd(1) len c(1) by (auto simp: lock_islot_def)
  moreover have "change sb {j} s ((refs s)(i := 0)) (held_set s) ((files sb s)(i := file_view (disk_cinode sb i (dview s)) (dview s))) (?s1\<lparr>icache := c\<rparr>)"
    using drop_slot [OF inv h, of "?s1\<lparr>icache := c\<rparr>"] c(2,3) len hd(1) free disk_inv_behind(1) [OF fs_invD(4) [OF inv] hd(2)] by simp
  then have "change sb {j} s ((refs s)(i := 0)) (held_set s) (files sb s) (?s1\<lparr>icache := c\<rparr>)"
    by (rule change_files) (simp add: files_def disk_inv_behind(2) [OF fs_invD(4) [OF inv] hd(2)])
  ultimately show ?thesis by simp
qed

lemma free_spec:
  assumes inv: "fs_inv sb s" and h: "handle s j i" and one: "refs s i = 1" and free: "j \<notin> held_set s"
    and gone: "nlink (inode (inode_of j s)) = 0" "is_initialized (inode_of j s)"
  shows "\<exists>s'. icache_release sb j s = Some s' \<and> change sb {j} s ((refs s)(i := 0)) (held_set s) ((files sb s)(i := freed (files sb s i))) s'"
proof -
  note hd = handleD [OF inv h]
  have len: "length (islots s) = NINODE" using fs_invD(2) [OF inv] .
  have nh: "\<not> held_by j s" using free hd(1) by (simp add: held_set_def)
  have vi: "view sb s i = inode_of j s" using view_handle [OF inv h gone(2)] .
  have ok: "file_ok sb (inode_of j s) (dview s)" using fs_invD(6) [OF inv hd(2)] vi by simp
  have num: "inode_number (inode_of j s) < unat (ninodes sb)" using hd(2,3) by (simp add: inums_def)
  from truncate_step [OF ok num] obtain ip1 d1 where
    1: "Inode.truncate sb (inode_of j s) (dview s) = Some (ip1, d1)" "file_step sb (inode_of j s) (dview s) ip1 d1"
      "file_view ip1 d1 = (file_view (inode_of j s) (dview s))\<lparr>abytes := []\<rparr>" by blast
  let ?ip = "ip1\<lparr>inode := (inode ip1)\<lparr>kind := KUnused\<rparr>\<rparr>"
  have num1: "inode_number ip1 < unat (ninodes sb)" using file_stepD(3) [OF 1(2)] num by simp
  from update_step [OF file_stepD(1) [OF 1(2)] num1, of ?ip] obtain d2 where
    2: "update sb ?ip d1 = Some d2" "file_step sb ip1 d1 ?ip d2" "abytes (file_view ?ip d2) = abytes (file_view ip1 d1)"
      "inode_at sb (inode_number ip1) d2 = Some (inode ?ip)" by auto
  have at: "inode_at sb i d2 = Some (inode ?ip)" using 2(4) file_stepD(3) [OF 1(2)] hd(3) by simp
  have st: "file_step sb (inode_of j s) (dview s) ?ip d2" using file_step_then [OF 1(2) 2(2)] at hd(3) by simp
  have dc: "disk_cinode sb i d2 = ?ip"
    using at file_stepD(2-4) [OF st] hd(3,4) gone(2) by (intro cinode.equality) (simp_all add: disk_cinode_def)
  have sz: "file_size ?ip = 0" using file_view_sel(3) [of ?ip d2] 1(3) 2(3) by simp
  have fv: "file_view ?ip d2 = freed (files sb s i)"
    using 1(3) 2(3) vi by (intro afile.equality) (simp_all add: freed_def files_def file_view_def)
  note step = disk_inv_step [OF fs_invD(4) [OF inv] hd(2) _ st [folded vi]]
  let ?s1 = "set_islot_held j False (set_inode_of j (?ip\<lparr>is_initialized := False\<rparr>) (set_islot_held j True s\<lparr>dview := d2\<rparr>))"
  have rc: "rc_reference_count (icache s) j = Some 1" using hd(6) one by (simp add: rc_reference_count_def rc_slot_Some)
  have slot: "rc_slot (icache s) j = Some ((ROOTDEV, i), 1)" using hd(6) one by simp
  from rcc.rel_last [OF fs_invD(1) [OF inv] slot] obtain c where
    c: "rc_release (icache s) j = Some (Some True, c)" "rc_inv NINODE c" "rc_slot c = (rc_slot (icache s))(j := None)" by blast
  have "icache_release sb j s = Some (?s1\<lparr>icache := c\<rparr>)"
    unfolding icache_release_def using rc gone nh hd(1) len c(1) 1(1) 2(1) by (auto simp: lock_islot_def Let_def)
  moreover have "inode_at sb k d2 = inode_at sb k (dview s) \<and> file_view (view sb s k) d2 = file_view (view sb s k) (dview s)"
    if "k \<in> inums sb" "k \<noteq> i" for k
    using that file_stepD(8) [OF st, of k] step(2) [of k] hd(3) vi sz by (simp add: inums_def)
  then have "change sb {j} s ((refs s)(i := 0)) (held_set s) ((files sb s)(i := file_view (disk_cinode sb i d2) d2)) (?s1\<lparr>icache := c\<rparr>)"
    using drop_slot [OF inv h, of "?s1\<lparr>icache := c\<rparr>"] c(2,3) len hd(1,3) free step(1) vi sz dc by simp
  ultimately show ?thesis unfolding dc fv by blast
qed

text \<open>The file that is left when a reference to it is dropped.\<close>

definition dropped :: "superblock \<Rightarrow> nat \<Rightarrow> nat \<Rightarrow> fstate \<Rightarrow> nat \<Rightarrow> afile" where
  "dropped sb j i s = (if refs s i = 1 \<and> is_initialized (inode_of j s) \<and> anlink (files sb s i) = 0
     then (files sb s)(i := freed (files sb s i)) else files sb s)"

lemma release_spec:
  assumes inv: "fs_inv sb s" and h: "handle s j i" and free: "refs s i = 1 \<Longrightarrow> j \<notin> held_set s"
  shows "\<exists>s'. icache_release sb j s = Some s' \<and>
    change sb (if refs s i = 1 then {j} else {}) s ((refs s)(i := refs s i - 1)) (held_set s) (dropped sb j i s) s' \<and>
    (refs s i = 1 \<and> is_initialized (inode_of j s) \<and> anlink (files sb s i) = 0 \<or> dview s' = dview s)"
proof (cases "refs s i = 1")
  case one: True
  have link: "is_initialized (inode_of j s) \<Longrightarrow> anlink (files sb s i) = nlink (inode (inode_of j s))"
    using view_handle [OF inv h] by (simp add: files_def)
  show ?thesis
  proof (cases "nlink (inode (inode_of j s)) \<noteq> 0 \<or> \<not> is_initialized (inode_of j s)")
    case True
    from evict_spec [OF inv h one free [OF one] True] show ?thesis using link True one by (auto simp: dropped_def)
  next
    case False
    then show ?thesis using free_spec [OF inv h one free [OF one]] link one by (auto simp: dropped_def)
  qed
next
  case False
  note hd = handleD [OF inv h]
  from rcc.rel_more [OF fs_invD(1) [OF inv] hd(6)] False hd(5) obtain c where
    c: "rc_release (icache s) j = Some (Some False, c)" "rc_inv NINODE c" "rc_slot c = (rc_slot (icache s))(j \<mapsto> ((ROOTDEV, i), refs s i - 1))" by auto
  have "rc_reference_count (icache s) j = Some (refs s i)" using hd(6) by (simp add: rc_reference_count_def rc_slot_Some)
  then have "icache_release sb j s = Some (s\<lparr>icache := c\<rparr>)" using False c(1) by (simp add: icache_release_def)
  then show ?thesis using recount(1) [OF inv hd(6) _ c(2,3)] False hd(5) by (simp add: dropped_def)
qed

end
