(* ===== verification/Fs_Paths.thy ===== *)
theory Fs_Paths
  imports Fs_Refs
begin

text \<open>
  Path resolution. \<open>resolve\<close> walks the abstract files; \<open>search_inode\<close> and \<open>search_parent_inode\<close> find the same inode, take
  exactly one reference to it, and leave locks, references, files and the disk as they were.
\<close>

subsection \<open>Dropping what is still linked\<close>

lemma drop_live:
  assumes inv: "fs_inv sb s" and h: "handle s j i" and free: "refs s i = 1 \<Longrightarrow> j \<notin> held_set s" and live: "refs s i \<noteq> 1 \<or> anlink (files sb s i) \<noteq> 0"
  shows "\<exists>s'. ref_drop sb j s = Some s' \<and>
    change sb (if refs s i = 1 then {j} else {}) s ((refs s)(i := refs s i - 1)) (held_set s) (files sb s) s' \<and> dview s' = dview s"
proof -
  have "dropped sb j i s = files sb s" using live by (auto simp: dropped_def)
  then show ?thesis using release_spec [OF inv h free] live by (auto simp: ref_drop_def)
qed

lemma guard_drop_live:
  assumes inv: "fs_inv sb s" and h: "handle s j i" and live: "refs s i \<noteq> 1 \<or> anlink (files sb s i) \<noteq> 0"
  shows "\<exists>s'. guard_drop sb j s = Some s' \<and>
    change sb (if refs s i = 1 then {j} else {}) s ((refs s)(i := refs s i - 1)) (held_set s - {j}) (files sb s) s' \<and> dview s' = dview s"
proof -
  let ?s = "set_islot_held j False s"
  have 1: "change sb {} s (refs s) (held_set s - {j}) (files sb s) ?s" using hold_change [OF inv h, of False] by simp
  note h1 = changeD(5) [OF 1 h, simplified]
  have i: "i \<in> inums sb" using handleD(2) [OF inv h] .
  have "j \<notin> held_set ?s" "refs ?s i \<noteq> 1 \<or> anlink (files sb ?s i) \<noteq> 0" using changeD(2-4) [OF 1] live i by simp_all
  from drop_live [OF changeD(1) [OF 1] h1 _ this(2)] this(1) obtain s' where
    2: "ref_drop sb j ?s = Some s'" "change sb (if refs s i = 1 then {j} else {}) ?s ((refs s)(i := refs s i - 1)) (held_set s - {j}) (files sb ?s) s'"
      "dview s' = dview ?s" using changeD(2,3) [OF 1] by auto
  have "change sb (if refs s i = 1 then {j} else {}) s ((refs s)(i := refs s i - 1)) (held_set s - {j}) (files sb s) s'"
    using change_then [OF 1 2(2), of "files sb s"] changeD(4) [OF 1] by simp
  then show ?thesis using 2(1,3) by (simp add: guard_drop_def ref_drop_def)
qed

subsection \<open>Free slots\<close>

lemma not_full:
  assumes inv: "fs_inv sb s" and room: "card {i. refs s i \<noteq> 0} < NINODE"
  shows "\<not> full s"
proof
  assume full: "full s"
  have ex: "handle s j (inode_number (inode_of j s))" if "j < NINODE" for j
  proof -
    have "rc_slot (icache s) j \<noteq> None" using full that by (simp add: full_def)
    then obtain k n where "rc_slot (icache s) j = Some (k, n)" by (cases "rc_slot (icache s) j") auto
    then show ?thesis using slots_okD [OF fs_invD(3) [OF inv]] by (auto simp: handle_def)
  qed
  have inj: "inj_on (\<lambda>j. inode_number (inode_of j s)) {..<NINODE}"
    using ex handle_rc(2) [OF fs_invD(1) [OF inv]] by (intro inj_onI) (metis lessThan_iff)
  have sub: "(\<lambda>j. inode_number (inode_of j s)) ` {..<NINODE} \<subseteq> {i. refs s i \<noteq> 0}" using ex handleD(5) [OF inv] by fastforce
  have "{i. refs s i \<noteq> 0} \<subseteq> {..<unat (ninodes sb)}"
  proof
    fix i assume "i \<in> {i. refs s i \<noteq> 0}"
    then obtain j where "j < NINODE" "contrib (rc_slot (icache s) j) i \<noteq> 0" by (auto simp: refs_zero)
    then have "handle s j i" by (auto simp: contrib_def handle_def split: option.splits if_splits)
    then show "i \<in> {..<unat (ninodes sb)}" using handleD(2) [OF inv] by (auto simp: inums_def)
  qed
  then have "finite {i. refs s i \<noteq> 0}" using finite_subset by blast
  from card_mono [OF this sub] show False using room card_image [OF inj] by simp
qed

lemma card_upd: "finite {i. (R :: nat \<Rightarrow> nat) i \<noteq> 0} \<Longrightarrow> card {i. (R(k := v)) i \<noteq> 0} \<le> Suc (card {i. R i \<noteq> 0})"
proof -
  assume fin: "finite {i. R i \<noteq> 0}"
  have "{i. (R(k := v)) i \<noteq> 0} \<subseteq> insert k {i. R i \<noteq> 0}" by auto
  then have "card {i. (R(k := v)) i \<noteq> 0} \<le> card (insert k {i. R i \<noteq> 0})" using fin by (intro card_mono) simp_all
  also have "\<dots> \<le> Suc (card {i. R i \<noteq> 0})" using fin by (simp add: card_insert_if)
  finally show ?thesis .
qed

subsection \<open>Looking up a name\<close>

lemma set_same: "set_inode_of j (inode_of j s) s = s"
  by (simp add: set_inode_of_def inode_of_def)

lemma is_directory_files: "fs_inv sb s \<Longrightarrow> handle s j i \<Longrightarrow> is_initialized (inode_of j s) \<Longrightarrow> is_directory (inode_of j s) \<longleftrightarrow> akind (files sb s i) = KDirectory"
  by (simp add: is_directory_def files_def view_handle)

lemma lookup_spec:
  assumes inv: "fs_inv sb s" and h: "handle s j i" and init: "is_initialized (inode_of j s)"
    and dir: "akind (files sb s i) = KDirectory" "entries_aligned (files sb s i)"
    and tgt: "\<And>off. dir_find name (files sb s i) = Some off \<Longrightarrow> dirent_inode_number (entry_at (files sb s i) off) \<in> inums sb"
  shows "case dir_find name (files sb s i) of
     None \<Rightarrow> lookup sb name j s = Some (None, s)
   | Some off \<Rightarrow> let k = dirent_inode_number (entry_at (files sb s i) off) in
       (\<exists>x s'. lookup sb name j s = Some (Some (x, off), s') \<and> change sb {} s ((refs s)(k := refs s k + 1)) (held_set s) (files sb s) s' \<and>
          handle s' x k \<and> dview s' = dview s) \<or>
       lookup sb name j s = Some (None, s) \<and> full s"
proof -
  note hd = handleD [OF inv h]
  have f: "file_view (inode_of j s) (dview s) = files sb s i" using view_handle [OF inv h init] by (simp add: files_def)
  have ok: "file_ok sb (inode_of j s) (dview s)" using fs_invD(6) [OF inv hd(2)] view_handle [OF inv h init] by simp
  have "is_directory (inode_of j s)" using is_directory_files [OF inv h init] dir(1) by simp
  from lookup_entry_spec [OF ok this] dir(2) have l: "lookup_entry sb name (inode_of j s) (dview s) =
    Some (map_option (\<lambda>off. (dirent_inode_number (entry_at (files sb s i) off), off)) (dir_find name (files sb s i)), inode_of j s, dview s)"
    by (simp add: f)
  then have on: "on_inode j (lookup_entry sb name) s =
    Some (map_option (\<lambda>off. (dirent_inode_number (entry_at (files sb s i) off), off)) (dir_find name (files sb s i)), s)"
    by (simp add: on_inode_def set_same)
  show ?thesis
  proof (cases "dir_find name (files sb s i)")
    case None
    then show ?thesis using on by (simp add: lookup_def)
  next
    case (Some off)
    then show ?thesis using on get_spec [OF inv tgt [OF Some]] hd(4) by (auto simp: lookup_def Let_def)
  qed
qed

subsection \<open>The tree\<close>

definition live :: "superblock \<Rightarrow> (nat \<Rightarrow> afile) \<Rightarrow> nat \<Rightarrow> bool" where
  "live sb F i \<longleftrightarrow> i \<in> inums sb \<and> akind (F i) \<noteq> KUnused \<and> anlink (F i) \<noteq> 0"

text \<open>The entries of a directory that is linked lead to files that are linked.\<close>

definition tree_ok :: "superblock \<Rightarrow> (nat \<Rightarrow> afile) \<Rightarrow> bool" where
  "tree_ok sb F \<longleftrightarrow> (\<forall>i. live sb F i \<and> akind (F i) = KDirectory \<longrightarrow> entries_aligned (F i) \<and>
     (\<forall>off\<in>set (entry_offsets (F i)). in_use_entry (entry_at (F i) off) \<longrightarrow> live sb F (dirent_inode_number (entry_at (F i) off))))"

fun resolve :: "(nat \<Rightarrow> afile) \<Rightarrow> u8 list list \<Rightarrow> nat \<Rightarrow> nat option" where
  "resolve F [] i = Some i"
| "resolve F (e # es) i = (if e = [] then resolve F es i
     else if akind (F i) \<noteq> KDirectory then None
     else case dir_find e (F i) of None \<Rightarrow> None | Some off \<Rightarrow> resolve F es (dirent_inode_number (entry_at (F i) off)))"

lemma dir_find_live:
  assumes "tree_ok sb F" "live sb F i" "akind (F i) = KDirectory" "dir_find name (F i) = Some off"
  shows "live sb F (dirent_inode_number (entry_at (F i) off))"
proof -
  from find_SomeD [OF assms(4) [unfolded dir_find_def]] have "off \<in> set (entry_offsets (F i))" "in_use_entry (entry_at (F i) off)" by simp_all
  then show ?thesis using assms(1-3) by (simp add: tree_ok_def)
qed

text \<open>
  \<open>rests sb F R H s\<close>: the files are \<open>F\<close>, the references \<open>R\<close>, and the locks of the slots in \<open>H\<close> are held. \<open>kept R s s'\<close>: handles
  of inodes with references in \<open>R\<close> stay valid.
\<close>

definition rests :: "superblock \<Rightarrow> (nat \<Rightarrow> afile) \<Rightarrow> (nat \<Rightarrow> nat) \<Rightarrow> nat set \<Rightarrow> fstate \<Rightarrow> bool" where
  "rests sb F R H s \<longleftrightarrow> fs_inv sb s \<and> refs s = R \<and> held_set s = H \<and> (\<forall>i\<in>inums sb. files sb s i = F i)"

definition kept :: "(nat \<Rightarrow> nat) \<Rightarrow> fstate \<Rightarrow> fstate \<Rightarrow> bool" where
  "kept R s s' \<longleftrightarrow> (\<forall>x i. handle s x i \<and> R i \<noteq> 0 \<longrightarrow> handle s' x i)"

lemma restsD:
  assumes "rests sb F R H s"
  shows "fs_inv sb s" "refs s = R" "held_set s = H" "i \<in> inums sb \<Longrightarrow> files sb s i = F i"
  using assms by (simp_all add: rests_def)

lemma keptD: "kept R s s' \<Longrightarrow> handle s x i \<Longrightarrow> R i \<noteq> 0 \<Longrightarrow> handle s' x i"
  by (auto simp: kept_def)

lemma kept_then: "kept R s s' \<Longrightarrow> kept R' s' s'' \<Longrightarrow> (\<And>i. R i \<noteq> 0 \<Longrightarrow> R' i \<noteq> 0) \<Longrightarrow> kept R s s''"
  by (auto simp: kept_def)

lemma kept_same [simp]: "kept R s s"
  by (simp add: kept_def)

lemma change_rests:
  assumes "change sb X s R H F' s'" "\<And>i. i \<in> inums sb \<Longrightarrow> F' i = F i"
  shows "rests sb F R H s'"
  using assms by (simp add: change_def rests_def)

lemma change_kept:
  assumes "change sb X s R H F' s'" "\<And>x i. x \<in> X \<Longrightarrow> handle s x i \<Longrightarrow> R' i \<noteq> 0 \<Longrightarrow> handle s' x i"
  shows "kept R' s s'"
  unfolding kept_def using changeD(5) [OF assms(1)] assms(2) by blast

lemma lock_rests:
  assumes r: "rests sb F R H s" and h: "handle s j i" and j: "j \<notin> H" and k: "akind (F i) \<noteq> KUnused"
  shows "\<exists>s'. ref_lock sb j s = Some s' \<and> rests sb F (R(i := R i + 1)) (insert j H) s' \<and> handle s' j i \<and> is_initialized (inode_of j s') \<and>
    dview s' = dview s \<and> (\<forall>x m. handle s x m \<longrightarrow> handle s' x m \<and> (x \<noteq> j \<longrightarrow> inode_of x s' = inode_of x s))"
proof -
  note inv = restsD(1) [OF r]
  have i: "i \<in> inums sb" using handleD(2) [OF inv h] .
  from lock_spec [OF inv h] j k restsD(2-4) [OF r] i obtain s' where
    s': "ref_lock sb j s = Some s'" "change sb {j} s (R(i := R i + 1)) (insert j H) (files sb s) s'" "handle s' j i"
      "is_initialized (inode_of j s')" "dview s' = dview s" by auto
  have "rests sb F (R(i := R i + 1)) (insert j H) s'" using change_rests [OF s'(2)] restsD(4) [OF r] by simp
  moreover have "handle s' x m \<and> (x \<noteq> j \<longrightarrow> inode_of x s' = inode_of x s)" if "handle s x m" for x m
    using that changeD(5,6) [OF s'(2) that] s'(3) handle_inum [OF h] by (cases "x = j") auto
  ultimately show ?thesis using s' by blast
qed

lemma guard_drop_rests:
  assumes r: "rests sb F R H s" and h: "handle s j i" and two: "2 \<le> R i"
  shows "\<exists>s'. guard_drop sb j s = Some s' \<and> rests sb F (R(i := R i - 1)) (H - {j}) s' \<and> dview s' = dview s \<and>
    (\<forall>x m. handle s x m \<longrightarrow> handle s' x m \<and> inode_of x s' = inode_of x s)"
proof -
  note inv = restsD(1) [OF r]
  have n: "refs s i \<noteq> 1" "refs s = R" "held_set s = H" using two restsD(2,3) [OF r] by auto
  from guard_drop_live [OF inv h] n obtain s' where
    s': "guard_drop sb j s = Some s'" "change sb {} s (R(i := R i - 1)) (H - {j}) (files sb s) s'" "dview s' = dview s" by auto
  have "rests sb F (R(i := R i - 1)) (H - {j}) s'" using change_rests [OF s'(2)] restsD(4) [OF r] by simp
  then show ?thesis using s' changeD(5,6) [OF s'(2)] by blast
qed

lemma ref_drop_rests:
  assumes r: "rests sb F R H s" and h: "handle s j i" and ok: "2 \<le> R i \<or> j \<notin> H \<and> anlink (F i) \<noteq> 0"
  shows "\<exists>s'. ref_drop sb j s = Some s' \<and> rests sb F (R(i := R i - 1)) H s' \<and> dview s' = dview s \<and>
    (\<forall>x m. handle s x m \<and> (R i = 1 \<longrightarrow> m \<noteq> i) \<longrightarrow> handle s' x m \<and> inode_of x s' = inode_of x s)"
proof -
  note inv = restsD(1) [OF r]
  have i: "i \<in> inums sb" using handleD(2) [OF inv h] .
  have n: "refs s = R" "held_set s = H" "anlink (files sb s i) = anlink (F i)" using restsD(2-4) [OF r] i by auto
  have "refs s i = 1 \<Longrightarrow> j \<notin> held_set s" "refs s i \<noteq> 1 \<or> anlink (files sb s i) \<noteq> 0" using ok n by auto
  from drop_live [OF inv h this] n obtain s' where
    s': "ref_drop sb j s = Some s'" "change sb (if R i = 1 then {j} else {}) s (R(i := R i - 1)) H (files sb s) s'" "dview s' = dview s" by auto
  have "rests sb F (R(i := R i - 1)) H s'" using change_rests [OF s'(2)] restsD(4) [OF r] by simp
  moreover have "handle s' x m \<and> inode_of x s' = inode_of x s" if "handle s x m" "R i = 1 \<longrightarrow> m \<noteq> i" for x m
  proof -
    have "x \<notin> (if R i = 1 then {j} else {})" using that handle_inum [OF h] by auto
    then show ?thesis using changeD(5,6) [OF s'(2) that(1)] by blast
  qed
  ultimately show ?thesis using s'(1,3) by blast
qed

text \<open>The guard is dropped and then the reference.\<close>

lemma leave_rests:
  assumes r: "rests sb F (R(i := R i + 2)) {j} s" and h: "handle s j i" and live: "anlink (F i) \<noteq> 0"
  shows "\<exists>s1 s'. guard_drop sb j s = Some s1 \<and> ref_drop sb j s1 = Some s' \<and> rests sb F R {} s' \<and> dview s' = dview s \<and>
    (\<forall>x m. handle s x m \<and> R m \<noteq> 0 \<longrightarrow> handle s' x m)"
proof -
  from guard_drop_rests [OF r h] obtain s1 where
    1: "guard_drop sb j s = Some s1" "rests sb F (R(i := R i + 1)) {} s1" "dview s1 = dview s" "\<forall>x m. handle s x m \<longrightarrow> handle s1 x m" by auto
  from 1(4) h have h1: "handle s1 j i" by blast
  have "2 \<le> (R(i := R i + 1)) i \<or> j \<notin> {} \<and> anlink (F i) \<noteq> 0" using live by simp
  moreover have eq: "(R(i := R i + 1))(i := (R(i := R i + 1)) i - 1) = R" by auto
  ultimately obtain s' where
    2: "ref_drop sb j s1 = Some s'" "rests sb F R {} s'" "dview s' = dview s1"
      "\<forall>x m. handle s1 x m \<and> ((R(i := R i + 1)) i = 1 \<longrightarrow> m \<noteq> i) \<longrightarrow> handle s' x m \<and> inode_of x s' = inode_of x s1"
    using ref_drop_rests [OF 1(2) h1, unfolded eq] by blast
  have "handle s' x m" if "handle s x m" "R m \<noteq> 0" for x m
  proof -
    have "handle s1 x m" "(R(i := R i + 1)) i = 1 \<longrightarrow> m \<noteq> i" using 1(4) that by auto
    then show ?thesis using 2(4) by blast
  qed
  then show ?thesis using 1(1,3) 2(1-3) by metis
qed

subsection \<open>Resolving a path\<close>

definition room :: "(nat \<Rightarrow> nat) \<Rightarrow> nat \<Rightarrow> bool" where
  "room R n \<longleftrightarrow> finite {i. R i \<noteq> 0} \<and> card {i. R i \<noteq> 0} + n \<le> NINODE"

lemma room_upd: "room R (Suc n) \<Longrightarrow> room (R(i := v)) n"
proof -
  assume r: "room R (Suc n)"
  have "{k. (R(i := v)) k \<noteq> 0} \<subseteq> insert i {k. R k \<noteq> 0}" by auto
  then have "finite {k. (R(i := v)) k \<noteq> 0}" using r finite_subset [of _ "insert i {k. R k \<noteq> 0}"] unfolding room_def by blast
  then show "room (R(i := v)) n" using r card_upd [of R i v] by (simp add: room_def)
qed

lemma lookup_rests:
  assumes r: "rests sb F R H s" and h: "handle s j i" and init: "is_initialized (inode_of j s)" and room: "room R 1"
    and dir: "akind (F i) = KDirectory" "entries_aligned (F i)"
    and tgt: "\<forall>off. dir_find name (F i) = Some off \<longrightarrow> dirent_inode_number (entry_at (F i) off) \<in> inums sb"
  shows "case dir_find name (F i) of
     None \<Rightarrow> lookup sb name j s = Some (None, s)
   | Some off \<Rightarrow> let k = dirent_inode_number (entry_at (F i) off) in
       \<exists>x s'. lookup sb name j s = Some (Some (x, off), s') \<and> rests sb F (R(k := R k + 1)) H s' \<and> handle s' x k \<and> dview s' = dview s \<and>
         (\<forall>y m. handle s y m \<longrightarrow> handle s' y m \<and> inode_of y s' = inode_of y s)"
proof -
  note inv = restsD(1) [OF r]
  have i: "files sb s i = F i" using handleD(2) [OF inv h] restsD(4) [OF r] by simp
  have "\<not> full s" using not_full [OF inv] room restsD(2) [OF r] by (simp add: room_def)
  then show ?thesis using lookup_spec [OF inv h init, of name] dir tgt
    by (auto simp: i Let_def restsD(2,3) [OF r] split: option.splits dest: changeD(5,6) intro!: change_rests [OF _ restsD(4) [OF r]])
qed

text \<open>The ways on from a locked inode of the path: leave it, keep it, or look a name up and leave it.\<close>

definition visited :: "superblock \<Rightarrow> (nat \<Rightarrow> afile) \<Rightarrow> (nat \<Rightarrow> nat) \<Rightarrow> nat \<Rightarrow> nat \<Rightarrow> fstate \<Rightarrow> fstate \<Rightarrow> bool" where
  "visited sb F R i j s s1 \<longleftrightarrow> (is_directory (inode_of j s1) \<longleftrightarrow> akind (F i) = KDirectory) \<and>
    (\<exists>s2 s3. guard_drop sb j s1 = Some s2 \<and> ref_drop sb j s2 = Some s3 \<and> rests sb F R {} s3 \<and> dview s3 = dview s \<and> kept R s s3) \<and>
    (\<exists>s2. guard_drop sb j s1 = Some s2 \<and> rests sb F (R(i := R i + 1)) {} s2 \<and> handle s2 j i \<and> dview s2 = dview s \<and> kept R s s2) \<and>
    (\<forall>e. akind (F i) = KDirectory \<longrightarrow> dir_find e (F i) = None \<longrightarrow> lookup sb e j s1 = Some (None, s1)) \<and>
    (\<forall>e off k. akind (F i) = KDirectory \<longrightarrow> dir_find e (F i) = Some off \<longrightarrow> k = dirent_inode_number (entry_at (F i) off) \<longrightarrow>
      (\<exists>x s2 s3 s4. lookup sb e j s1 = Some (Some (x, off), s2) \<and> guard_drop sb j s2 = Some s3 \<and> ref_drop sb j s3 = Some s4 \<and>
        rests sb F (R(k := R k + 1)) {} s4 \<and> handle s4 x k \<and> dview s4 = dview s \<and> kept R s s4))"

lemma visitedD:
  assumes "visited sb F R i j s s1"
  shows "is_directory (inode_of j s1) \<longleftrightarrow> akind (F i) = KDirectory"
    "\<exists>s2 s3. guard_drop sb j s1 = Some s2 \<and> ref_drop sb j s2 = Some s3 \<and> rests sb F R {} s3 \<and> dview s3 = dview s \<and> kept R s s3"
    "\<exists>s2. guard_drop sb j s1 = Some s2 \<and> rests sb F (R(i := R i + 1)) {} s2 \<and> handle s2 j i \<and> dview s2 = dview s \<and> kept R s s2"
    "akind (F i) = KDirectory \<Longrightarrow> dir_find e (F i) = None \<Longrightarrow> lookup sb e j s1 = Some (None, s1)"
    "akind (F i) = KDirectory \<Longrightarrow> dir_find e (F i) = Some off \<Longrightarrow> k = dirent_inode_number (entry_at (F i) off) \<Longrightarrow>
      \<exists>x s2 s3 s4. lookup sb e j s1 = Some (Some (x, off), s2) \<and> guard_drop sb j s2 = Some s3 \<and> ref_drop sb j s3 = Some s4 \<and>
        rests sb F (R(k := R k + 1)) {} s4 \<and> handle s4 x k \<and> dview s4 = dview s \<and> kept R s s4"
  using assms by (simp_all add: visited_def)

lemma visit:
  assumes r: "rests sb F (R(i := R i + 1)) {} s" and h: "handle s j i" and room: "room R 2"
    and tree: "tree_ok sb F" "live sb F i"
  shows "\<exists>s1. ref_lock sb j s = Some s1 \<and> visited sb F R i j s s1"
proof -
  have live: "akind (F i) \<noteq> KUnused" "anlink (F i) \<noteq> 0" "i \<in> inums sb" using tree(2) by (simp_all add: live_def)
  have two: "(R(i := R i + 1))(i := (R(i := R i + 1)) i + 1) = R(i := R i + 2)" by simp
  have nj: "j \<notin> {}" by simp
  from lock_rests [OF r h nj live(1), unfolded two] obtain s1 where
    1: "ref_lock sb j s = Some s1" "rests sb F (R(i := R i + 2)) {j} s1" "handle s1 j i" "is_initialized (inode_of j s1)" "dview s1 = dview s"
      "\<forall>x m. handle s x m \<longrightarrow> handle s1 x m" by blast
  have al: "entries_aligned (F i)" if "akind (F i) = KDirectory" using that tree by (simp add: tree_ok_def)
  have tgt: "\<forall>off. dir_find e (F i) = Some off \<longrightarrow> dirent_inode_number (entry_at (F i) off) \<in> inums sb" if "akind (F i) = KDirectory" for e
    using dir_find_live [OF tree that] by (simp add: live_def)
  have room1: "room (R(i := R i + 2)) 1" using room_upd [of R 1 i] room by (simp add: numeral_2_eq_2)
  have "visited sb F R i j s s1" unfolding visited_def
  proof (intro conjI allI impI)
    show "is_directory (inode_of j s1) \<longleftrightarrow> akind (F i) = KDirectory"
      using is_directory_files [OF restsD(1) [OF 1(2)] 1(3,4)] restsD(4) [OF 1(2) live(3)] by simp
    show "\<exists>s2 s3. guard_drop sb j s1 = Some s2 \<and> ref_drop sb j s2 = Some s3 \<and> rests sb F R {} s3 \<and> dview s3 = dview s \<and> kept R s s3"
      using leave_rests [OF 1(2,3) live(2)] 1(5,6) unfolding kept_def by metis
    show "\<exists>s2. guard_drop sb j s1 = Some s2 \<and> rests sb F (R(i := R i + 1)) {} s2 \<and> handle s2 j i \<and> dview s2 = dview s \<and> kept R s s2"
      using guard_drop_rests [OF 1(2,3)] 1(3,5,6) unfolding kept_def by auto
    show "lookup sb e j s1 = Some (None, s1)" if "akind (F i) = KDirectory" "dir_find e (F i) = None" for e
      using lookup_rests [OF 1(2,3,4) room1 that(1) al [OF that(1)] tgt [OF that(1)], where name = e] that(2) by simp
    fix e off k assume dir: "akind (F i) = KDirectory" "dir_find e (F i) = Some off" and k: "k = dirent_inode_number (entry_at (F i) off)"
    from lookup_rests [OF 1(2,3,4) room1 dir(1) al [OF dir(1)] tgt [OF dir(1)], where name = e] dir(2) k obtain x s2 where
      2: "lookup sb e j s1 = Some (Some (x, off), s2)" "rests sb F ((R(i := R i + 2))(k := (R(i := R i + 2)) k + 1)) {j} s2" "handle s2 x k"
        "dview s2 = dview s1" "\<forall>y m. handle s1 y m \<longrightarrow> handle s2 y m" by (auto simp: Let_def)
    have eq: "(R(i := R i + 2))(k := (R(i := R i + 2)) k + 1) = (R(k := R k + 1))(i := (R(k := R k + 1)) i + 2)" by auto
    from leave_rests [OF 2(2) [unfolded eq] _ live(2)] 2(5) 1(3) obtain s3 s4 where
      3: "guard_drop sb j s2 = Some s3" "ref_drop sb j s3 = Some s4" "rests sb F (R(k := R k + 1)) {} s4" "dview s4 = dview s2"
        "\<forall>x m. handle s2 x m \<and> (R(k := R k + 1)) m \<noteq> 0 \<longrightarrow> handle s4 x m" by blast
    have "handle s4 x k" using 3(5) 2(3) by simp
    moreover have "kept R s s4" unfolding kept_def using 1(6) 2(5) 3(5) by simp
    ultimately show "\<exists>x s2 s3 s4. lookup sb e j s1 = Some (Some (x, off), s2) \<and> guard_drop sb j s2 = Some s3 \<and> ref_drop sb j s3 = Some s4 \<and>
        rests sb F (R(k := R k + 1)) {} s4 \<and> handle s4 x k \<and> dview s4 = dview s \<and> kept R s s4"
      using 2(1,4) 3(1-4) 1(5) by metis
  qed
  then show ?thesis using 1(1) by blast
qed

lemma search_loop_spec:
  assumes "rests sb F (R(i := R i + 1)) {} s" "handle s j i" "room R 2" "tree_ok sb F" "live sb F i"
  shows "\<exists>r s'. search_loop sb es j s = Some (r, s') \<and> dview s' = dview s \<and> kept R s s' \<and>
    (case resolve F es i of
       None \<Rightarrow> r = None \<and> rests sb F R {} s'
     | Some k \<Rightarrow> live sb F k \<and> (\<exists>x. r = Some x \<and> handle s' x k \<and> rests sb F (R(k := R k + 1)) {} s'))"
  using assms
proof (induction es arbitrary: s j i)
  case (Cons e es)
  show ?case
  proof (cases "e = []")
    case True
    then show ?thesis using Cons by simp
  next
    case e: False
    from visit [OF Cons.prems] obtain s1 where l: "ref_lock sb j s = Some s1" and v: "visited sb F R i j s s1" by blast
    note v = visitedD [OF v]
    show ?thesis
    proof (cases "akind (F i) = KDirectory \<and> dir_find e (F i) \<noteq> None")
      case False
      then show ?thesis using l v(1,2,4) e by (cases "akind (F i) = KDirectory") auto
    next
      case True
      then obtain off where off: "dir_find e (F i) = Some off" by blast
      let ?k = "dirent_inode_number (entry_at (F i) off)"
      from v(5) [OF conjunct1 [OF True] off refl] obtain x s2 s3 s4 where
        w: "lookup sb e j s1 = Some (Some (x, off), s2)" "guard_drop sb j s2 = Some s3" "ref_drop sb j s3 = Some s4"
          "rests sb F (R(?k := R ?k + 1)) {} s4" "handle s4 x ?k" "dview s4 = dview s" "kept R s s4" by blast
      have "live sb F ?k" using dir_find_live [OF Cons.prems(4,5) conjunct1 [OF True] off] .
      from Cons.IH [OF w(4,5) Cons.prems(3,4) this] obtain r s' where
        i: "search_loop sb es x s4 = Some (r, s')" "dview s' = dview s4" "kept R s4 s'"
          "case resolve F es ?k of None \<Rightarrow> r = None \<and> rests sb F R {} s'
           | Some k \<Rightarrow> live sb F k \<and> (\<exists>x. r = Some x \<and> handle s' x k \<and> rests sb F (R(k := R k + 1)) {} s')" by blast
      have "search_loop sb (e # es) j s = Some (r, s')" using e l v(1) True w(1-3) i(1) by simp
      moreover have "resolve F (e # es) i = resolve F es ?k" using e True off by simp
      moreover have "kept R s s'" using kept_then [OF w(7) i(3)] by blast
      ultimately show ?thesis using w(6) i(2,4) by (intro exI [of _ r] exI [of _ s']) (simp del: resolve.simps search_loop.simps)
    qed
  qed
qed simp

fun resolve_parent :: "(nat \<Rightarrow> afile) \<Rightarrow> u8 list list \<Rightarrow> nat \<Rightarrow> (nat \<times> u8 list) option" where
  "resolve_parent F [] i = None"
| "resolve_parent F (e # es) i = (if e = [] then resolve_parent F es i
     else if akind (F i) \<noteq> KDirectory then None
     else if es = [] then Some (i, e)
     else case dir_find e (F i) of None \<Rightarrow> None | Some off \<Rightarrow> resolve_parent F es (dirent_inode_number (entry_at (F i) off)))"

lemma search_parent_loop_spec:
  assumes "rests sb F (R(i := R i + 1)) {} s" "handle s j i" "room R 2" "tree_ok sb F" "live sb F i"
  shows "\<exists>r s'. search_parent_loop sb es j s = Some (r, s') \<and> dview s' = dview s \<and> kept R s s' \<and>
    (case resolve_parent F es i of
       None \<Rightarrow> r = None \<and> rests sb F R {} s'
     | Some (k, name) \<Rightarrow> live sb F k \<and> akind (F k) = KDirectory \<and> (\<exists>x. r = Some (x, name) \<and> handle s' x k \<and> rests sb F (R(k := R k + 1)) {} s'))"
  using assms
proof (induction es arbitrary: s j i)
  case Nil
  have eq: "(R(i := R i + 1))(i := (R(i := R i + 1)) i - 1) = R" by auto
  have "2 \<le> (R(i := R i + 1)) i \<or> j \<notin> {} \<and> anlink (F i) \<noteq> 0" using Nil(5) by (simp add: live_def)
  from ref_drop_rests [OF Nil(1,2) this, unfolded eq] obtain s' where
    s': "ref_drop sb j s = Some s'" "rests sb F R {} s'" "dview s' = dview s"
      "\<forall>x m. handle s x m \<and> ((R(i := R i + 1)) i = 1 \<longrightarrow> m \<noteq> i) \<longrightarrow> handle s' x m \<and> inode_of x s' = inode_of x s" by blast
  have "(R(i := R i + 1)) i = 1 \<longrightarrow> m \<noteq> i" if "R m \<noteq> 0" for m using that by auto
  then have "kept R s s'" unfolding kept_def using s'(4) by blast
  then show ?case using s'(1-3) by simp
next
  case (Cons e es)
  show ?case
  proof (cases "e = []")
    case True
    then show ?thesis using Cons by simp
  next
    case e: False
    from visit [OF Cons.prems] obtain s1 where l: "ref_lock sb j s = Some s1" and v: "visited sb F R i j s s1" by blast
    note v = visitedD [OF v]
    consider "akind (F i) \<noteq> KDirectory \<or> es \<noteq> [] \<and> dir_find e (F i) = None" | "akind (F i) = KDirectory" "es = []"
      | off where "akind (F i) = KDirectory" "es \<noteq> []" "dir_find e (F i) = Some off" by (cases "dir_find e (F i)") auto
    then show ?thesis
    proof cases
      case 1
      then show ?thesis using l v(1,2,4) e by (cases "akind (F i) = KDirectory") auto
    next
      case 2
      then show ?thesis using l v(1,3) e Cons.prems(5) by auto
    next
      case 3
      let ?k = "dirent_inode_number (entry_at (F i) off)"
      from v(5) [OF 3(1,3) refl] obtain x s2 s3 s4 where
        w: "lookup sb e j s1 = Some (Some (x, off), s2)" "guard_drop sb j s2 = Some s3" "ref_drop sb j s3 = Some s4"
          "rests sb F (R(?k := R ?k + 1)) {} s4" "handle s4 x ?k" "dview s4 = dview s" "kept R s s4" by blast
      note i = Cons.IH [OF w(4,5) Cons.prems(3,4) dir_find_live [OF Cons.prems(4,5) 3(1,3)]]
      have "search_parent_loop sb (e # es) j s = search_parent_loop sb es x s4" using e l v(1) 3 w(1-3) by simp
      moreover have "resolve_parent F (e # es) i = resolve_parent F es ?k" using e 3 by simp
      moreover have "kept R s s'" if "kept R s4 s'" for s' using kept_then [OF w(7) that] by blast
      ultimately show ?thesis using i unfolding w(6) [symmetric] by (simp del: resolve_parent.simps search_parent_loop.simps) blast
    qed
  qed
qed

subsection \<open>The start of a path\<close>

definition absolute :: "u8 list \<Rightarrow> bool" where
  "absolute path \<longleftrightarrow> path \<noteq> [] \<and> hd path = SLASH"

text \<open>The inode where a path starts; \<open>w\<close> is the working directory.\<close>

definition path_start :: "nat option \<Rightarrow> u8 list \<Rightarrow> nat option" where
  "path_start w path = (if absolute path then Some ROOTINO else w)"

definition cwd_ok :: "superblock \<Rightarrow> (nat \<Rightarrow> afile) \<Rightarrow> fstate \<Rightarrow> nat option \<Rightarrow> nat option \<Rightarrow> bool" where
  "cwd_ok sb F s cwd w \<longleftrightarrow> (case cwd of None \<Rightarrow> w = None | Some j \<Rightarrow> (\<exists>i. w = Some i \<and> handle s j i \<and> live sb F i))"

lemma cwd_ok_kept:
  assumes "cwd_ok sb F s cwd w" "kept R s s'" "rests sb F' R H s"
  shows "cwd_ok sb F s' cwd w"
proof (cases cwd)
  case (Some j)
  then obtain i where i: "w = Some i" "handle s j i" "live sb F i" using assms(1) by (auto simp: cwd_ok_def)
  have "R i \<noteq> 0" using handleD(5) [OF restsD(1) [OF assms(3)] i(2)] restsD(2) [OF assms(3)] by simp
  then show ?thesis using Some i keptD [OF assms(2) i(2)] by (simp add: cwd_ok_def)
qed (use assms in \<open>simp add: cwd_ok_def\<close>)

lemma start_spec:
  assumes r: "rests sb F R {} s" and room: "room R 1" and root: "live sb F ROOTINO" and cwd: "cwd_ok sb F s cwd w"
  shows "case path_start w path of
     None \<Rightarrow> start_of_path cwd path s = Some (None, s)
   | Some i \<Rightarrow> live sb F i \<and> (\<exists>j s'. start_of_path cwd path s = Some (Some j, s') \<and> rests sb F (R(i := R i + 1)) {} s' \<and> handle s' j i \<and>
       dview s' = dview s \<and> kept R s s')"
proof -
  note inv = restsD(1) [OF r]
  show ?thesis
  proof (cases "absolute path")
    case True
    have "\<not> full s" using not_full [OF inv] room restsD(2) [OF r] by (simp add: room_def)
    moreover have "ROOTINO \<in> inums sb" using root by (simp add: live_def)
    ultimately obtain j s' where g: "icache_get ROOTDEV ROOTINO s = Some (Some j, s')" "handle s' j ROOTINO" "dview s' = dview s"
      "change sb {} s (R(ROOTINO := R ROOTINO + 1)) {} (files sb s) s'"
      using get_spec [OF inv, of ROOTINO] restsD(2,3) [OF r] by auto
    then have "start_of_path cwd path s = Some (Some j, s')" using True by (auto simp: start_of_path_def absolute_def split: list.splits)
    then show ?thesis using True root g(2,3) change_rests [OF g(4) restsD(4) [OF r]] change_kept [OF g(4), of R] by (auto simp: path_start_def)
  next
    case rel: False
    have "start_of_path cwd path s = (case cwd of None \<Rightarrow> Some (None, s) | Some i \<Rightarrow> Some (Some i, ref_clone i s))"
      using rel by (auto simp: start_of_path_def absolute_def split: list.splits)
    moreover have "rests sb F (R(i := R i + 1)) {} (ref_clone j s) \<and> handle (ref_clone j s) j i \<and> dview (ref_clone j s) = dview s \<and> kept R s (ref_clone j s)"
      if h: "handle s j i" for i j
    proof -
      from duplicate_spec [OF inv h] have d: "change sb {} s (R(i := R i + 1)) {} (files sb s) (ref_clone j s)" "dview (ref_clone j s) = dview s"
        using restsD(2,3) [OF r] by (simp_all add: ref_clone_def)
      show ?thesis using change_rests [OF d(1) restsD(4) [OF r]] change_kept [OF d(1), of R] changeD(5) [OF d(1) h] d(2) by simp
    qed
    ultimately show ?thesis using rel cwd by (auto simp: path_start_def cwd_ok_def split: option.splits)
  qed
qed

subsection \<open>Both searches\<close>

definition resolve_path :: "(nat \<Rightarrow> afile) \<Rightarrow> nat option \<Rightarrow> u8 list \<Rightarrow> nat option" where
  "resolve_path F w path = Option.bind (path_start w path) (resolve F (split_path path))"

definition resolve_parent_path :: "(nat \<Rightarrow> afile) \<Rightarrow> nat option \<Rightarrow> u8 list \<Rightarrow> (nat \<times> u8 list) option" where
  "resolve_parent_path F w path = Option.bind (path_start w path) (resolve_parent F (split_path path))"

text \<open>The state between two operations: no inode is locked and the tree is in order.\<close>

definition idle :: "superblock \<Rightarrow> (nat \<Rightarrow> afile) \<Rightarrow> (nat \<Rightarrow> nat) \<Rightarrow> fstate \<Rightarrow> bool" where
  "idle sb F R s \<longleftrightarrow> rests sb F R {} s \<and> tree_ok sb F \<and> live sb F ROOTINO"

lemma search_inode_ok:
  assumes idle: "idle sb F R s" and room: "room R 2" and cwd: "cwd_ok sb F s cwd w"
  shows "\<exists>r s'. search_inode sb cwd path s = Some (r, s') \<and> dview s' = dview s \<and> kept R s s' \<and>
    (case resolve_path F w path of
       None \<Rightarrow> r = None \<and> rests sb F R {} s'
     | Some k \<Rightarrow> live sb F k \<and> (\<exists>x. r = Some x \<and> handle s' x k \<and> rests sb F (R(k := R k + 1)) {} s'))"
proof -
  have i: "rests sb F R {} s" "tree_ok sb F" "live sb F ROOTINO" using idle by (simp_all add: idle_def)
  have "room R 1" using room by (simp add: room_def)
  note st = start_spec [OF i(1) this i(3) cwd, of path]
  show ?thesis
  proof (cases "path_start w path")
    case None
    then show ?thesis using st i(1) by (simp add: search_inode_def resolve_path_def)
  next
    case (Some j)
    with st obtain x s1 where 1: "live sb F j" "start_of_path cwd path s = Some (Some x, s1)" "rests sb F (R(j := R j + 1)) {} s1" "handle s1 x j"
      "dview s1 = dview s" "kept R s s1" by auto
    have eq: "search_inode sb cwd path s = search_loop sb (split_path path) x s1" "resolve_path F w path = resolve F (split_path path) j"
      using Some 1(2) by (simp_all add: search_inode_def resolve_path_def)
    have "kept R s s'" if "kept R s1 s'" for s' using kept_then [OF 1(6) that] by blast
    then show ?thesis using search_loop_spec [OF 1(3,4) room i(2) 1(1), of "split_path path"] unfolding eq 1(5) by blast
  qed
qed

lemma search_parent_ok:
  assumes idle: "idle sb F R s" and room: "room R 2" and cwd: "cwd_ok sb F s cwd w"
  shows "\<exists>r s'. search_parent_inode sb cwd path s = Some (r, s') \<and> dview s' = dview s \<and> kept R s s' \<and>
    (case resolve_parent_path F w path of
       None \<Rightarrow> r = None \<and> rests sb F R {} s'
     | Some (k, name) \<Rightarrow> live sb F k \<and> akind (F k) = KDirectory \<and> (\<exists>x. r = Some (x, name) \<and> handle s' x k \<and> rests sb F (R(k := R k + 1)) {} s'))"
proof -
  have i: "rests sb F R {} s" "tree_ok sb F" "live sb F ROOTINO" using idle by (simp_all add: idle_def)
  have "room R 1" using room by (simp add: room_def)
  note st = start_spec [OF i(1) this i(3) cwd, of path]
  show ?thesis
  proof (cases "path_start w path")
    case None
    then show ?thesis using st i(1) by (simp add: search_parent_inode_def resolve_parent_path_def)
  next
    case (Some j)
    with st obtain x s1 where 1: "live sb F j" "start_of_path cwd path s = Some (Some x, s1)" "rests sb F (R(j := R j + 1)) {} s1" "handle s1 x j"
      "dview s1 = dview s" "kept R s s1" by auto
    have eq: "search_parent_inode sb cwd path s = search_parent_loop sb (split_path path) x s1" "resolve_parent_path F w path = resolve_parent F (split_path path) j"
      using Some 1(2) by (simp_all add: search_parent_inode_def resolve_parent_path_def)
    have "kept R s s'" if "kept R s1 s'" for s' using kept_then [OF 1(6) that] by blast
    then show ?thesis using search_parent_loop_spec [OF 1(3,4) room i(2) 1(1), of "split_path path"] unfolding eq 1(5) by blast
  qed
qed

end
