(* ===== verification/Fs_Ops.thy ===== *)
theory Fs_Ops
  imports Fs_Paths
begin

text \<open>
  The steps of which \<open>create\<close>, \<open>link\<close> and \<open>unlink\<close> consist, on the abstract files: changing the attributes of a locked
  inode, adding and removing an entry of a locked directory, dropping guards and references.
\<close>

definition stays :: "nat set \<Rightarrow> fstate \<Rightarrow> fstate \<Rightarrow> bool" where
  "stays J s s' \<longleftrightarrow> (\<forall>x i. handle s x i \<longrightarrow> handle s' x i \<and> (x \<notin> J \<longrightarrow> inode_of x s' = inode_of x s))"

lemma staysD: "stays J s s' \<Longrightarrow> handle s x i \<Longrightarrow> handle s' x i" "stays J s s' \<Longrightarrow> handle s x i \<Longrightarrow> x \<notin> J \<Longrightarrow> inode_of x s' = inode_of x s"
  by (simp_all add: stays_def)

lemma stays_refl [simp]: "stays J s s"
  by (simp add: stays_def)

lemma stays_trans: "stays J s s' \<Longrightarrow> stays K s' s'' \<Longrightarrow> J \<union> K \<subseteq> L \<Longrightarrow> stays L s s''"
  unfolding stays_def by (metis UnCI in_mono)

lemma stays_kept: "stays J s s' \<Longrightarrow> kept R s s'"
  by (simp add: stays_def kept_def)

lemma rests_files: "rests sb F R H s \<Longrightarrow> (\<And>i. i \<in> inums sb \<Longrightarrow> F i = F' i) \<Longrightarrow> rests sb F' R H s"
  by (simp add: rests_def)

subsection \<open>A locked inode changes\<close>

lemma step_rests:
  assumes r: "rests sb F R H s" and h: "handle s j i" and init: "is_initialized (inode_of j s)"
    and st: "file_step sb (inode_of j s) (dview s) ip' d'" and k: "akind (file_view ip' d') \<noteq> KUnused"
    and s': "s' = set_inode_of j ip' (s\<lparr>dview := d'\<rparr>)"
  shows "rests sb (F(i := file_view ip' d')) R H s'" "handle s' j i" "inode_of j s' = ip'" "is_initialized ip'" "stays {j} s s'"
proof -
  note inv = restsD(1) [OF r]
  have "kind (inode ip') \<noteq> KUnused" using k by simp
  note c = slot_step [OF inv h init st this s']
  have "((files sb s)(i := file_view ip' d')) m = (F(i := file_view ip' d')) m" if "m \<in> inums sb" for m using restsD(4) [OF r that] by simp
  then show "rests sb (F(i := file_view ip' d')) R H s'" using change_rests [OF c(1)] restsD(2,3) [OF r] by simp
  show "handle s' j i" "inode_of j s' = ip'" "is_initialized ip'" using c(2-4) .
  have "handle s' x m \<and> (x \<notin> {j} \<longrightarrow> inode_of x s' = inode_of x s)" if "handle s x m" for x m
    using that changeD(5,6) [OF c(1) that] c(2) handle_inum [OF h] by (cases "x = j") auto
  then show "stays {j} s s'" by (simp add: stays_def)
qed

lemma file_rests:
  assumes r: "rests sb F R H s" and h: "handle s j i" and init: "is_initialized (inode_of j s)"
  shows "file_ok sb (inode_of j s) (dview s)" "file_view (inode_of j s) (dview s) = F i" "inode_number (inode_of j s) = i"
    "device (inode_of j s) = ROOTDEV" "inode_number (inode_of j s) < unat (ninodes sb)" "i \<in> inums sb"
proof -
  note hd = handleD [OF restsD(1) [OF r] h]
  show "file_ok sb (inode_of j s) (dview s)" using fs_invD(6) [OF restsD(1) [OF r] hd(2)] view_handle [OF restsD(1) [OF r] h init] by simp
  show "file_view (inode_of j s) (dview s) = F i" using view_handle [OF restsD(1) [OF r] h init] restsD(4) [OF r hd(2)] by (simp add: files_def)
  show "inode_number (inode_of j s) = i" "device (inode_of j s) = ROOTDEV" "i \<in> inums sb" using hd(2-4) by simp_all
  then show "inode_number (inode_of j s) < unat (ninodes sb)" by (simp add: inums_def)
qed

text \<open>\<open>f\<close> changes attributes of an inode, and \<open>g\<close> those of the file.\<close>

definition attributes :: "(cinode \<Rightarrow> cinode) \<Rightarrow> (afile \<Rightarrow> afile) \<Rightarrow> bool" where
  "attributes f g \<longleftrightarrow> (\<forall>ip. addrs (inode (f ip)) = addrs (inode ip) \<and> chain (inode (f ip)) = chain (inode ip) \<and> isize (inode (f ip)) = isize (inode ip) \<and>
       device (f ip) = device ip \<and> inode_number (f ip) = inode_number ip \<and> is_initialized (f ip) = is_initialized ip) \<and>
     (\<forall>ip d d'. abytes (file_view (f ip) d') = abytes (file_view ip d) \<longrightarrow> file_view (f ip) d' = g (file_view ip d))"

lemma modify_rests:
  assumes r: "rests sb F R H s" and h: "handle s j i" and init: "is_initialized (inode_of j s)"
    and f: "attributes f g" and k: "akind (g (F i)) \<noteq> KUnused"
  shows "\<exists>s'. modify_update sb j f s = Some s' \<and> rests sb (F(i := g (F i))) R H s' \<and> handle s' j i \<and> is_initialized (inode_of j s') \<and> stays {j} s s'"
proof -
  note fr = file_rests [OF r h init]
  from update_step [OF fr(1,5), of "f (inode_of j s)"] f obtain d' where
    u: "update sb (f (inode_of j s)) (dview s) = Some d'" "file_step sb (inode_of j s) (dview s) (f (inode_of j s)) d'"
      "abytes (file_view (f (inode_of j s)) d') = abytes (file_view (inode_of j s) (dview s))" by (auto simp: attributes_def)
  have fv: "file_view (f (inode_of j s)) d' = g (F i)" using u(3) f fr(2) unfolding attributes_def by metis
  let ?s = "set_inode_of j (f (inode_of j s)) (s\<lparr>dview := d'\<rparr>)"
  have "modify_update sb j f s = Some ?s" using u(1) by (simp add: modify_update_def Let_def)
  then show ?thesis using step_rests [OF r h init u(2) _ refl] fv k by auto
qed

lemma attributes_link [simp]:
  "attributes increment_link (\<lambda>a. a\<lparr>anlink := anlink a + 1\<rparr>)"
  "attributes decrement_link (\<lambda>a. a\<lparr>anlink := anlink a - 1\<rparr>)"
  "attributes (set_nlink n) (\<lambda>a. a\<lparr>anlink := n\<rparr>)"
  "attributes (\<lambda>ip. ip\<lparr>inode := (inode ip)\<lparr>major := mj, minor := mn, nlink := n\<rparr>\<rparr>) (\<lambda>a. a\<lparr>amajor := mj, aminor := mn, anlink := n\<rparr>)"
  by (auto simp: attributes_def increment_link_def decrement_link_def set_nlink_def intro!: afile.equality)

subsection \<open>Guards and references\<close>

lemma guard_drop_stays:
  assumes "rests sb F R H s" "handle s j i" "2 \<le> R i"
  shows "\<exists>s'. guard_drop sb j s = Some s' \<and> rests sb F (R(i := R i - 1)) (H - {j}) s' \<and> stays {} s s'"
  using guard_drop_rests [OF assms] unfolding stays_def by blast

lemma ref_drop_stays:
  assumes "rests sb F R H s" "handle s j i" "2 \<le> R i"
  shows "\<exists>s'. ref_drop sb j s = Some s' \<and> rests sb F (R(i := R i - 1)) H s' \<and> stays {} s s'"
proof -
  from ref_drop_rests [OF assms(1,2) disjI1 [OF assms(3)]] obtain s' where
    s': "ref_drop sb j s = Some s'" "rests sb F (R(i := R i - 1)) H s'"
      "\<forall>x m. handle s x m \<and> (R i = 1 \<longrightarrow> m \<noteq> i) \<longrightarrow> handle s' x m \<and> inode_of x s' = inode_of x s" by blast
  have "R i \<noteq> 1" using assms(3) by simp
  then show ?thesis using s' unfolding stays_def by blast
qed

text \<open>A reference that leads back to the references there were before.\<close>

lemma ref_drop_kept:
  assumes r: "rests sb F (R(i := R i + 1)) H s" and h: "handle s j i" and ok: "j \<notin> H" "anlink (F i) \<noteq> 0"
  shows "\<exists>s'. ref_drop sb j s = Some s' \<and> rests sb F R H s' \<and> kept R s s' \<and> (\<forall>x m. handle s x m \<and> R m \<noteq> 0 \<longrightarrow> inode_of x s' = inode_of x s)"
proof -
  have eq: "(R(i := R i + 1))(i := (R(i := R i + 1)) i - 1) = R" by auto
  have "2 \<le> (R(i := R i + 1)) i \<or> j \<notin> H \<and> anlink (F i) \<noteq> 0" using ok by simp
  from ref_drop_rests [OF r h this, unfolded eq] obtain s' where
    s': "ref_drop sb j s = Some s'" "rests sb F R H s'"
      "\<forall>x m. handle s x m \<and> ((R(i := R i + 1)) i = 1 \<longrightarrow> m \<noteq> i) \<longrightarrow> handle s' x m \<and> inode_of x s' = inode_of x s" by blast
  have "(R(i := R i + 1)) i = 1 \<longrightarrow> m \<noteq> i" if "R m \<noteq> 0" for m using that by auto
  then show ?thesis using s' unfolding kept_def by blast
qed

text \<open>A slot that is locked has a reference.\<close>

lemma held_handle:
  assumes r: "rests sb F R H s" and x: "x \<in> H"
  shows "\<exists>m. handle s x m"
proof -
  note inv = restsD(1) [OF r]
  have "x < NINODE" "held_by x s" using restsD(3) [OF r] x by (auto simp: held_set_def)
  then obtain k n where n: "rc_slot (icache s) x = Some (k, n)" using fs_invD(5) [OF inv, of x] by (cases "rc_slot (icache s) x") auto
  then show ?thesis using slots_okD [OF fs_invD(3) [OF inv] n] by (auto simp: handle_def)
qed

text \<open>An inode that was not in use until now is not locked.\<close>

lemma new_not_held:
  assumes r: "rests sb F R H s" and r': "rests sb F' R' H s'" and st: "stays J s s'" and h: "handle s' x k" and x: "x \<in> H"
  shows "handle s x k" "R k \<noteq> 0"
proof -
  obtain m where m: "handle s x m" using held_handle [OF r x] by blast
  then have "m = k" using handle_inum [OF staysD(1) [OF st m] h] by simp
  then show "handle s x k" "R k \<noteq> 0" using m handleD(5) [OF restsD(1) [OF r] m] restsD(2) [OF r] by simp_all
qed

subsection \<open>A locked directory\<close>

lemma lookup_stays:
  assumes r: "rests sb F R H s" and h: "handle s j i" and init: "is_initialized (inode_of j s)" and room: "room R 1"
    and dir: "akind (F i) = KDirectory" "entries_aligned (F i)"
    and tgt: "\<forall>off. dir_find name (F i) = Some off \<longrightarrow> dirent_inode_number (entry_at (F i) off) \<in> inums sb"
  shows "dir_find name (F i) = None \<Longrightarrow> lookup sb name j s = Some (None, s)"
    "dir_find name (F i) = Some off \<Longrightarrow> k = dirent_inode_number (entry_at (F i) off) \<Longrightarrow>
      \<exists>x s'. lookup sb name j s = Some (Some (x, off), s') \<and> rests sb F (R(k := R k + 1)) H s' \<and> handle s' x k \<and> stays {} s s' \<and>
        (x \<in> H \<longrightarrow> handle s x k)"
proof -
  note l = lookup_rests [OF assms]
  show "dir_find name (F i) = None \<Longrightarrow> lookup sb name j s = Some (None, s)" using l by simp
  assume "dir_find name (F i) = Some off" "k = dirent_inode_number (entry_at (F i) off)"
  with l obtain x s' where s': "lookup sb name j s = Some (Some (x, off), s')" "rests sb F (R(k := R k + 1)) H s'" "handle s' x k" "stays {} s s'"
    by (auto simp: Let_def stays_def)
  then show "\<exists>x s'. lookup sb name j s = Some (Some (x, off), s') \<and> rests sb F (R(k := R k + 1)) H s' \<and> handle s' x k \<and> stays {} s s' \<and> (x \<in> H \<longrightarrow> handle s x k)"
    using new_not_held(1) [OF r s'(2,4,3)] by blast
qed

lemma dir_link_rests:
  assumes r: "rests sb F R H s" and h: "handle s j i" and init: "is_initialized (inode_of j s)" and room: "room R 1"
    and dir: "akind (F i) = KDirectory" "entries_aligned (F i)"
    and tgt: "\<forall>off. dir_find name (F i) = Some off \<longrightarrow> live sb F (dirent_inode_number (entry_at (F i) off))"
  shows "\<exists>q s'. dir_link sb name inum j s = Some (q, s') \<and> handle s' j i \<and> is_initialized (inode_of j s') \<and> stays {j} s s' \<and>
    (q = Ok () \<and> dir_find name (F i) = None \<and> rests sb (F(i := add_entry (dirent_new inum name) (F i))) R H s' \<or>
     q = Err () \<and> rests sb F R H s' \<and> (dir_find name (F i) \<noteq> None \<or> free_offset (F i) = None))"
proof -
  note fr = file_rests [OF r h init]
  have d: "is_directory (inode_of j s)" using dir(1) file_view_sel(1) [of "inode_of j s" "dview s"] fr(2) by (simp add: is_directory_def)
  have tgt': "\<forall>off. dir_find name (F i) = Some off \<longrightarrow> dirent_inode_number (entry_at (F i) off) \<in> inums sb" using tgt by (simp add: live_def)
  note l = lookup_stays [OF r h init room dir tgt']
  show ?thesis
  proof (cases "dir_find name (F i)")
    case (Some off)
    let ?k = "dirent_inode_number (entry_at (F i) off)"
    from l(2) [OF Some refl] obtain x s1 where
      1: "lookup sb name j s = Some (Some (x, off), s1)" "rests sb F (R(?k := R ?k + 1)) H s1" "handle s1 x ?k" "stays {} s s1" "x \<in> H \<longrightarrow> handle s x ?k" by blast
    have pos: "R m \<noteq> 0" if "handle s y m" for y m using handleD(5) [OF restsD(1) [OF r] that] restsD(2) [OF r] by simp
    have "2 \<le> (R(?k := R ?k + 1)) ?k \<or> x \<notin> H \<and> anlink (F ?k) \<noteq> 0" using tgt Some 1(5) pos [of x ?k] by (auto simp: live_def)
    moreover have eq: "(R(?k := R ?k + 1))(?k := (R(?k := R ?k + 1)) ?k - 1) = R" by auto
    ultimately obtain s2 where 2: "ref_drop sb x s1 = Some s2" "rests sb F R H s2"
      "\<forall>y m. handle s1 y m \<and> ((R(?k := R ?k + 1)) ?k = 1 \<longrightarrow> m \<noteq> ?k) \<longrightarrow> handle s2 y m \<and> inode_of y s2 = inode_of y s1"
      using ref_drop_rests [OF 1(2,3)] by metis
    have "handle s2 y m \<and> inode_of y s2 = inode_of y s" if "handle s y m" for y m
    proof -
      have "(R(?k := R ?k + 1)) ?k = 1 \<longrightarrow> m \<noteq> ?k" using pos [OF that] by auto
      then show ?thesis using 2(3) staysD(1) [OF 1(4) that] staysD(2) [OF 1(4) that] by simp
    qed
    then have "stays {} s s2" "handle s2 j i" "is_initialized (inode_of j s2)" using h init by (simp_all add: stays_def)
    moreover have "dir_link sb name inum j s = Some (Err (), s2)" using d 1(1) 2(1) by (simp add: dir_link_def)
    ultimately show ?thesis using 2(2) Some by (auto simp: stays_def)
  next
    case None
    have al: "entries_aligned (file_view (inode_of j s) (dview s))" using dir(2) fr(2) by simp
    from link_entry_spec [OF fr(1,5) length_dirent_new al, unfolded fr(2)] obtain q ip' d' where
      1: "link_entry sb (dirent_new inum name) (inode_of j s) (dview s) = Some (q, ip', d')" "file_step sb (inode_of j s) (dview s) ip' d'"
        "q = Ok () \<and> file_view ip' d' = add_entry (dirent_new inum name) (F i) \<or> q = Err () \<and> file_view ip' d' = F i \<and> free_offset (F i) = None" by blast
    let ?s = "set_inode_of j ip' (s\<lparr>dview := d'\<rparr>)"
    have run: "dir_link sb name inum j s = Some (q, ?s)" using d l(1) [OF None] 1(1) by (simp add: dir_link_def on_inode_def)
    have "akind (file_view ip' d') \<noteq> KUnused" using 1(3) dir(1) by (auto simp: add_entry_def put_entry_def simp del: file_view_sel)
    note st = step_rests [OF r h init 1(2) this refl]
    show ?thesis using run st 1(3) None by (intro exI [of _ q] exI [of _ ?s]) auto
  qed
qed

text \<open>Clearing an entry.\<close>

lemma clear_rests:
  assumes r: "rests sb F R H s" and h: "handle s j i" and init: "is_initialized (inode_of j s)"
    and dir: "akind (F i) = KDirectory" "entries_aligned (F i)" "off \<in> set (entry_offsets (F i))"
  shows "\<exists>s'. on_inode j (inode_write sb (encode_dirent dirent_unused) off) s = Some (Ok (), s') \<and> handle s' j i \<and> is_initialized (inode_of j s') \<and>
    stays {j} s s' \<and> rests sb (F(i := put_entry off dirent_unused (F i))) R H s'"
proof -
  note fr = file_rests [OF r h init]
  have al: "entries_aligned (file_view (inode_of j s) (dview s))" "off \<in> set (entry_offsets (file_view (inode_of j s) (dview s)))" using dir(2,3) fr(2) by simp_all
  have len: "length (d_name dirent_unused) = NAME_LENGTH" by (simp add: dirent_unused_def)
  from put_entry_spec [OF fr(1,5) len al, unfolded fr(2)] obtain ip' d' where
    1: "inode_write sb (encode_dirent dirent_unused) off (inode_of j s) (dview s) = Some (Ok (), ip', d')" "file_step sb (inode_of j s) (dview s) ip' d'"
      "file_view ip' d' = put_entry off dirent_unused (F i)" by blast
  have "akind (file_view ip' d') \<noteq> KUnused" using 1(3) dir(1) by (simp add: put_entry_def del: file_view_sel)
  note st = step_rests [OF r h init 1(2) this refl]
  have "on_inode j (inode_write sb (encode_dirent dirent_unused) off) s = Some (Ok (), set_inode_of j ip' (s\<lparr>dview := d'\<rparr>))" using 1(1) by (simp add: on_inode_def)
  then show ?thesis using st 1(3) by auto
qed

end
