(* ===== verification/Fs_Tree.thy ===== *)
theory Fs_Tree
  imports Fs_Ops
begin

text \<open>
  The tree of directories on the abstract files. \<open>dslots f\<close> maps the offset of an entry to the inode it leads to, 0 for none. A tree is in order
  when every entry of a linked directory leads to a linked file, the first two entries of a directory are \<open>.\<close> and
  \<open>..\<close>, a directory other than the root has exactly one entry in another directory, the one \<open>..\<close> leads to, and
  the link count of every file is the number of entries that lead to it, the entries \<open>.\<close> not counted.
\<close>

definition dslots :: "afile \<Rightarrow> nat \<Rightarrow> nat" where
  "dslots f off = (if off \<in> set (entry_offsets f) then dirent_inode_number (entry_at f off) else 0)"

definition dir_live :: "superblock \<Rightarrow> (nat \<Rightarrow> afile) \<Rightarrow> nat \<Rightarrow> bool" where
  "dir_live sb F q \<longleftrightarrow> live sb F q \<and> akind (F q) = KDirectory"

definition names :: "superblock \<Rightarrow> (nat \<Rightarrow> afile) \<Rightarrow> nat \<Rightarrow> (nat \<times> nat) set" where
  "names sb F k = {(q, off). dir_live sb F q \<and> off \<noteq> 0 \<and> dslots (F q) off = k}"

definition dir_parent :: "(nat \<Rightarrow> afile) \<Rightarrow> nat \<Rightarrow> nat" where
  "dir_parent F i = dslots (F i) DIRENT_SIZE"

definition entries_of :: "superblock \<Rightarrow> (nat \<Rightarrow> afile) \<Rightarrow> nat \<Rightarrow> (nat \<times> nat) set" where
  "entries_of sb F i = {p \<in> names sb F i. snd p \<noteq> DIRENT_SIZE}"

text \<open>The first two entries of a directory, and its entry in its parent.\<close>

definition dots_ok :: "afile \<Rightarrow> nat \<Rightarrow> bool" where
  "dots_ok f i \<longleftrightarrow> 2 * DIRENT_SIZE \<le> length (abytes f) \<and> entry_at f 0 = dirent_new i DOT \<and>
     entry_at f DIRENT_SIZE = dirent_new (dslots f DIRENT_SIZE) DOTDOT \<and> dslots f 0 = i \<and> dslots f DIRENT_SIZE \<noteq> 0"

definition place_ok :: "superblock \<Rightarrow> (nat \<Rightarrow> afile) \<Rightarrow> nat \<Rightarrow> bool" where
  "place_ok sb F i \<longleftrightarrow> (if i = ROOTINO then dir_parent F i = i \<and> entries_of sb F i = {}
     else dir_parent F i \<noteq> i \<and> (\<exists>off. entries_of sb F i = {(dir_parent F i, off)}))"

definition tree_inv :: "superblock \<Rightarrow> (nat \<Rightarrow> afile) \<Rightarrow> bool" where
  "tree_inv sb F \<longleftrightarrow> tree_ok sb F \<and> dir_live sb F ROOTINO \<and> (\<forall>i. dir_live sb F i \<longrightarrow> dots_ok (F i) i \<and> place_ok sb F i) \<and>
     (\<forall>i. live sb F i \<longrightarrow> unat (anlink (F i)) = card (names sb F i))"

lemma tree_invD:
  assumes "tree_inv sb F"
  shows "tree_ok sb F" "dir_live sb F ROOTINO" "dir_live sb F i \<Longrightarrow> dots_ok (F i) i" "dir_live sb F i \<Longrightarrow> place_ok sb F i"
    "live sb F i \<Longrightarrow> unat (anlink (F i)) = card (names sb F i)"
  using assms by (simp_all add: tree_inv_def)

subsection \<open>Entries\<close>

lemma tree_ok_slots: "tree_ok sb F \<longleftrightarrow> (\<forall>i. dir_live sb F i \<longrightarrow> entries_aligned (F i) \<and> (\<forall>off. dslots (F i) off \<noteq> 0 \<longrightarrow> live sb F (dslots (F i) off)))"
  by (auto simp: tree_ok_def dir_live_def dslots_def in_use_entry_def)

lemma finite_names: "k \<noteq> 0 \<Longrightarrow> finite (names sb F k)"
proof -
  assume k: "k \<noteq> 0"
  have "finite (inums sb)" by (rule finite_subset [of _ "{..<unat (ninodes sb)}"]) (auto simp: inums_def)
  then have "finite (SIGMA q : inums sb. set (entry_offsets (F q)))" by simp
  moreover have "names sb F k \<subseteq> (SIGMA q : inums sb. set (entry_offsets (F q)))"
    using k by (auto simp: names_def dir_live_def live_def dslots_def split: if_splits)
  ultimately show ?thesis by (rule rev_finite_subset)
qed

lemma live_nonzero: "live sb F i \<Longrightarrow> i \<noteq> 0"
  by (auto simp: live_def inums_def)

lemma dslots_add:
  assumes al: "entries_aligned f" and e: "length (d_name e) = NAME_LENGTH" "in_use_entry e"
  obtains off where "dslots f off = 0" "dslots (add_entry e f) = (dslots f)(off := dirent_inode_number e)" "off mod DIRENT_SIZE = 0"
    "entries_aligned (add_entry e f)" "length (abytes f) \<le> length (abytes (add_entry e f))" "off < length (abytes (add_entry e f))"
    "\<And>x. dslots f x \<noteq> 0 \<Longrightarrow> entry_at (add_entry e f) x = entry_at f x" "entry_at (add_entry e f) off = e" "off \<le> length (abytes f)"
proof -
  obtain off where off: "add_entry e f = put_entry off e f" "off = length (abytes f) \<or> off \<in> set (entry_offsets f) \<and> \<not> in_use_entry (entry_at f off)"
  proof (cases "free_offset f")
    case (Some o')
    then show ?thesis using that [of o'] find_SomeD [of _ "entry_offsets f" o'] by (auto simp: add_entry_def free_offset_def)
  qed (use that in \<open>auto simp: add_entry_def\<close>)
  have at: "entry_at (add_entry e f) x = (if x = off then e else entry_at f x)" if "x \<in> set (entry_offsets f) \<or> x = off" for x
    unfolding off(1) using off(2) that by (intro entry_at_put [OF al _ e(1)]) auto
  have offs: "set (entry_offsets (add_entry e f)) = insert off (set (entry_offsets f))"
    using off entry_offsets_put(1,2) [OF al e(1)] by auto
  have zero: "dslots f off = 0" using off(2) by (auto simp: dslots_def in_use_entry_def entry_offsets_iff)
  have len: "length (encode_dirent e) = DIRENT_SIZE" using length_encode_dirent [OF e(1)] .
  show thesis
  proof (rule that [of off])
    show "dslots f off = 0" using zero .
    show "dslots (add_entry e f) = (dslots f)(off := dirent_inode_number e)" using at offs by (auto simp: dslots_def)
    show "off mod DIRENT_SIZE = 0" using off(2) al by (auto simp: entry_offsets_iff entries_aligned_def)
    show "entries_aligned (add_entry e f)" unfolding off(1) using off(2) by (intro entry_offsets_put(3) [OF al e(1)]) auto
    show "length (abytes f) \<le> length (abytes (add_entry e f))" "off < length (abytes (add_entry e f))"
      using len off entry_offsets_iff [of off "add_entry e f"] offs by (auto simp: put_entry_def overwrite_def)
    show "entry_at (add_entry e f) x = entry_at f x" if "dslots f x \<noteq> 0" for x
      using at [of x] that zero by (auto simp: dslots_def split: if_splits)
    show "entry_at (add_entry e f) off = e" using at [of off] by simp
    show "off \<le> length (abytes f)" using off(2) by (auto simp: entry_offsets_iff)
  qed
qed

lemma dslots_clear:
  assumes al: "entries_aligned f" and off: "off \<in> set (entry_offsets f)"
  shows "dslots (put_entry off dirent_unused f) = (dslots f)(off := 0)" "entries_aligned (put_entry off dirent_unused f)"
    "length (abytes (put_entry off dirent_unused f)) = length (abytes f)"
    "x \<in> set (entry_offsets f) \<Longrightarrow> x \<noteq> off \<Longrightarrow> entry_at (put_entry off dirent_unused f) x = entry_at f x"
proof -
  have len: "length (d_name dirent_unused) = NAME_LENGTH" by (simp add: dirent_unused_def)
  have at: "entry_at (put_entry off dirent_unused f) x = (if x = off then dirent_unused else entry_at f x)" if "x \<in> set (entry_offsets f)" for x
    using off that by (intro entry_at_put [OF al _ len]) auto
  show "dslots (put_entry off dirent_unused f) = (dslots f)(off := 0)"
    using at entry_offsets_put(1) [OF al len off] off by (auto simp: dslots_def dirent_inode_number_def dirent_unused_def)
  show "entries_aligned (put_entry off dirent_unused f)" using entry_offsets_put(3) [OF al len, of off] off by simp
  show "length (abytes (put_entry off dirent_unused f)) = length (abytes f)"
    using length_encode_dirent [OF len] entry_offsets_within [OF al off] by (simp add: put_entry_def)
  show "x \<in> set (entry_offsets f) \<Longrightarrow> x \<noteq> off \<Longrightarrow> entry_at (put_entry off dirent_unused f) x = entry_at f x" using at by simp
qed

subsection \<open>Counting\<close>

lemma unat_inc: "(w :: 'a :: len word) + 1 \<noteq> 0 \<Longrightarrow> unat (w + 1) = unat w + 1"
  using unatSuc [of w] by (simp add: add.commute)

lemma unat_dec: "(w :: 'a :: len word) \<noteq> 0 \<Longrightarrow> unat (w - 1) = unat w - 1"
  by (rule unat_minus_one)

lemma dots_pos: "dots_ok f i \<Longrightarrow> i \<noteq> 0 \<Longrightarrow> dslots f 0 \<noteq> 0" "dots_ok f i \<Longrightarrow> dslots f DIRENT_SIZE \<noteq> 0"
  by (simp_all add: dots_ok_def)

lemma dots_ok_mono:
  assumes "dots_ok f i" "i \<noteq> 0" "dslots f' 0 = dslots f 0" "dslots f' DIRENT_SIZE = dslots f DIRENT_SIZE" "length (abytes f) \<le> length (abytes f')"
    "\<And>x. x = 0 \<or> x = DIRENT_SIZE \<Longrightarrow> entry_at f' x = entry_at f x"
  shows "dots_ok f' i"
  using assms by (simp add: dots_ok_def)

lemma dslots_attr [simp]: "dslots (f\<lparr>anlink := n\<rparr>) = dslots f"
  by (simp add: dslots_def entry_at_def entry_offsets_def fun_eq_iff)

lemma dots_ok_attr [simp]: "dots_ok (f\<lparr>anlink := n\<rparr>) i = dots_ok f i"
  by (simp add: dots_ok_def entry_at_def)

lemma entries_aligned_attr [simp]: "entries_aligned (f\<lparr>anlink := n\<rparr>) = entries_aligned f"
  by (simp add: entries_aligned_def)

lemma akind_add [simp]: "akind (add_entry e f) = akind f" "anlink (add_entry e f) = anlink f" "akind (put_entry off e f) = akind f" "anlink (put_entry off e f) = anlink f"
  by (simp_all add: add_entry_def put_entry_def)

lemma live_file_cong: "akind (F' i) = akind (F i) \<Longrightarrow> (anlink (F' i) = 0) = (anlink (F i) = 0) \<Longrightarrow> live sb F' i = live sb F i"
  by (simp add: live_def)

lemma inum_new: "i < 65536 \<Longrightarrow> dirent_inode_number (dirent_new i name) = i"
  by (simp add: dirent_inode_number_def dirent_new_def Let_def unat_of_nat)

subsection \<open>A new name of a file\<close>

definition link_files :: "(nat \<Rightarrow> afile) \<Rightarrow> nat \<Rightarrow> nat \<Rightarrow> u8 list \<Rightarrow> nat \<Rightarrow> afile" where
  "link_files F i dir name = (F(i := (F i)\<lparr>anlink := anlink (F i) + 1\<rparr>))(dir := add_entry (dirent_new i name) (F dir))"

lemma link_tree_inv:
  assumes inv: "tree_inv sb F" and i: "live sb F i" "akind (F i) \<noteq> KDirectory" "i < 65536" "anlink (F i) + 1 \<noteq> 0" and dir: "dir_live sb F dir"
  shows "tree_inv sb (link_files F i dir name)"
proof -
  let ?F = "link_files F i dir name"
  have ne: "i \<noteq> dir" "i \<noteq> 0" "dir \<noteq> 0" using i(1,2) dir live_nonzero by (auto simp: dir_live_def)
  note t = tree_invD [OF inv]
  have al: "entries_aligned (F dir)" using t(1) dir by (simp add: tree_ok_slots)
  have e: "in_use_entry (dirent_new i name)" using inum_new [OF i(3)] ne(2) by (simp add: in_use_entry_def)
  obtain off where off: "dslots (F dir) off = 0" "dslots (add_entry (dirent_new i name) (F dir)) = (dslots (F dir))(off := i)" "off mod DIRENT_SIZE = 0"
    "entries_aligned (add_entry (dirent_new i name) (F dir))" "length (abytes (F dir)) \<le> length (abytes (add_entry (dirent_new i name) (F dir)))"
    "\<And>x. dslots (F dir) x \<noteq> 0 \<Longrightarrow> entry_at (add_entry (dirent_new i name) (F dir)) x = entry_at (F dir) x"
    by (rule dslots_add [OF al length_dirent_new e, unfolded inum_new [OF i(3)]]) (rule that)
  have o: "off \<noteq> 0" "off \<noteq> DIRENT_SIZE" using dots_pos [OF t(3) [OF dir]] ne off(1) by (metis)+
  have lv: "live sb ?F q = live sb F q" for q using i(1,4) ne by (auto simp: live_def link_files_def)
  have dl: "dir_live sb ?F q = dir_live sb F q" for q using lv [of q] ne by (auto simp: dir_live_def link_files_def)
  have sl: "dslots (?F q) = (if q = dir then (dslots (F dir))(off := i) else dslots (F q))" for q using off(2) ne by (auto simp: link_files_def)
  have nm: "names sb ?F k = names sb F k \<union> (if k = i then {(dir, off)} else {})" if "k \<noteq> 0" for k
    using that o off(1) dir by (auto simp: names_def dl sl split: if_splits)
  have "tree_ok sb ?F" unfolding tree_ok_slots dl lv
  proof (intro allI impI conjI)
    fix q assume q: "dir_live sb F q"
    show "entries_aligned (?F q)" using q t(1) off(4) i(2) by (auto simp: tree_ok_slots link_files_def dir_live_def)
    show "live sb F (dslots (?F q) x)" if "dslots (?F q) x \<noteq> 0" for x using q t(1) that i(1) by (auto simp: tree_ok_slots sl split: if_splits)
  qed
  moreover have "dots_ok (?F q) q" if "dir_live sb F q" for q
  proof (cases "q = dir")
    case True
    have "dslots (F dir) x \<noteq> 0" if "x = 0 \<or> x = DIRENT_SIZE" for x using dots_pos [OF t(3) [OF dir]] that ne by blast
    then show ?thesis using True dots_ok_mono [OF t(3) [OF dir] ne(3), of "?F dir"] off(5,6) o sl [of dir] by (simp add: link_files_def)
  qed (use that t(3) [OF that] i(2) in \<open>auto simp: link_files_def dir_live_def\<close>)
  moreover have "place_ok sb ?F q" if q: "dir_live sb F q" for q
  proof -
    have "q \<noteq> i" "q \<noteq> 0" using q i(2) live_nonzero by (auto simp: dir_live_def)
    then have "entries_of sb ?F q = entries_of sb F q" "dir_parent ?F q = dir_parent F q" using nm o by (simp_all add: entries_of_def dir_parent_def sl)
    then show ?thesis using t(4) [OF q] by (simp only: place_ok_def)
  qed
  moreover have "unat (anlink (?F q)) = card (names sb ?F q)" if q: "live sb F q" for q
  proof (cases "q = i")
    case True
    have "(dir, off) \<notin> names sb F i" using off(1) ne by (auto simp: names_def)
    then have "card (names sb ?F i) = card (names sb F i) + 1" using nm [OF ne(2)] finite_names [OF ne(2)] by simp
    moreover have "anlink (?F i) = anlink (F i) + 1" using ne by (simp add: link_files_def)
    ultimately show ?thesis using True unat_inc [OF i(4)] t(5) [OF i(1)] by simp
  qed (use t(5) [OF q] nm [of q] live_nonzero [OF q] in \<open>auto simp: link_files_def\<close>)
  ultimately show ?thesis using t(2) by (simp add: tree_inv_def dl lv)
qed

subsection \<open>A name goes\<close>

definition unlink_files :: "(nat \<Rightarrow> afile) \<Rightarrow> nat \<Rightarrow> nat \<Rightarrow> nat \<Rightarrow> nat \<Rightarrow> afile" where
  "unlink_files F i dir off =
     (let f = put_entry off dirent_unused (F dir) in
      F(dir := (if akind (F i) = KDirectory then f\<lparr>anlink := anlink f - 1\<rparr> else f), i := (F i)\<lparr>anlink := anlink (F i) - 1\<rparr>))"

lemma unlink_file_tree_inv:
  assumes inv: "tree_inv sb F" and i: "akind (F i) \<noteq> KDirectory" and dir: "dir_live sb F dir" and off: "dslots (F dir) off = i" "i \<noteq> 0" "off \<noteq> 0" "off \<noteq> DIRENT_SIZE"
  shows "tree_inv sb (unlink_files F i dir off)"
proof -
  let ?F = "unlink_files F i dir off"
  note t = tree_invD [OF inv]
  have al: "entries_aligned (F dir)" and li: "live sb F i" using t(1) dir off by (auto simp: tree_ok_slots)
  have ne: "i \<noteq> dir" "dir \<noteq> 0" using i dir live_nonzero by (auto simp: dir_live_def)
  have oo: "off \<in> set (entry_offsets (F dir))" using off(1,2) by (auto simp: dslots_def split: if_splits)
  note cl = dslots_clear [OF al oo]
  have lv: "live sb ?F q = (if q = i then anlink (F i) - 1 \<noteq> 0 else live sb F q)" for q using li ne i by (auto simp: live_def unlink_files_def Let_def)
  have dl: "dir_live sb ?F q = dir_live sb F q" for q using lv [of q] ne i by (auto simp: dir_live_def unlink_files_def Let_def)
  have sl: "dslots (?F q) = (if q = dir then (dslots (F dir))(off := 0) else dslots (F q))" for q using cl(1) ne i by (auto simp: unlink_files_def Let_def)
  have nm: "names sb ?F k = names sb F k - {(dir, off)}" if "k \<noteq> 0" for k using that off by (auto simp: names_def dl sl split: if_splits)
  have mem: "(dir, off) \<in> names sb F i" using dir off by (simp add: names_def)
  have cnt: "unat (anlink (?F i)) = card (names sb ?F i)"
    using nm [OF off(2)] mem finite_names [OF off(2)] t(5) [OF li] li unat_dec [of "anlink (F i)"] by (simp add: unlink_files_def Let_def live_def)
  have "tree_ok sb ?F" unfolding tree_ok_slots dl
  proof (intro allI impI conjI)
    fix q assume q: "dir_live sb F q"
    show "entries_aligned (?F q)" using q t(1) cl(2) i by (auto simp: tree_ok_slots unlink_files_def dir_live_def Let_def)
    fix x assume x: "dslots (?F q) x \<noteq> 0"
    have old: "live sb F (dslots (?F q) x)" using q t(1) x by (auto simp: tree_ok_slots sl split: if_splits)
    show "live sb ?F (dslots (?F q) x)"
    proof (cases "dslots (?F q) x = i")
      case True
      have "dslots (?F q) 0 = q" using t(3) [OF q] off(3) by (cases "q = dir") (auto simp: dots_ok_def sl)
      then have "x \<noteq> 0" using True q i unfolding dir_live_def by metis
      then have "(q, x) \<in> names sb ?F i" using True q by (simp add: names_def dl)
      then have "card (names sb ?F i) \<noteq> 0" using finite_names [OF off(2)] by auto
      then show ?thesis using True cnt ne li i by (auto simp: live_def unlink_files_def Let_def)
    qed (use old lv in simp)
  qed
  moreover have "dots_ok (?F q) q" if q: "dir_live sb F q" for q
  proof (cases "q = dir")
    case True
    have "0 \<in> set (entry_offsets (F dir))" "DIRENT_SIZE \<in> set (entry_offsets (F dir))" using t(3) [OF dir] by (auto simp: dots_ok_def entry_offsets_iff DIRENT_SIZE_def)
    then show ?thesis using True dots_ok_mono [OF t(3) [OF dir] ne(2), of "?F dir"] cl(3,4) off(3,4) sl [of dir] i ne by (auto simp: unlink_files_def Let_def)
  qed (use q t(3) [OF q] i in \<open>auto simp: unlink_files_def dir_live_def Let_def\<close>)
  moreover have "place_ok sb ?F q" if q: "dir_live sb F q" for q
  proof -
    have "q \<noteq> i" "q \<noteq> 0" using q i live_nonzero by (auto simp: dir_live_def)
    then have "names sb ?F q = names sb F q" using nm [of q] off(1) by (auto simp: names_def)
    then have "entries_of sb ?F q = entries_of sb F q" "dir_parent ?F q = dir_parent F q" using off(4) by (simp_all add: entries_of_def dir_parent_def sl)
    then show ?thesis using t(4) [OF q] by (simp only: place_ok_def)
  qed
  moreover have "unat (anlink (?F q)) = card (names sb ?F q)" if q: "live sb ?F q" for q
  proof (cases "q = i")
    case False
    then have "live sb F q" using q lv by simp
    then have "names sb ?F q = names sb F q" "unat (anlink (F q)) = card (names sb F q)" using nm [of q] off(1) t(5) live_nonzero False by (auto simp: names_def)
    then show ?thesis using False i by (auto simp: unlink_files_def Let_def)
  qed (use cnt in simp)
  ultimately show ?thesis using t(2) by (simp add: tree_inv_def dl)
qed

lemma entry_two: "off mod DIRENT_SIZE = 0 \<Longrightarrow> off \<noteq> 0 \<Longrightarrow> off \<noteq> DIRENT_SIZE \<Longrightarrow> 2 * DIRENT_SIZE \<le> off"
  by (auto simp: DIRENT_SIZE_def)

text \<open>An empty directory has one name, its entry in its parent, and no entries but its first two.\<close>

lemma empty_dir:
  assumes inv: "tree_inv sb F" and dl: "dir_live sb F i" "dir_empty (F i)" and p: "(dir, off) \<in> names sb F i" "off \<noteq> DIRENT_SIZE"
  shows "names sb F i = {(dir, off)}" "dir_parent F i = dir" "i \<noteq> dir" "i \<noteq> ROOTINO" "x \<noteq> 0 \<Longrightarrow> x \<noteq> DIRENT_SIZE \<Longrightarrow> dslots (F i) x = 0"
proof -
  note t = tree_invD [OF inv]
  show gone: "dslots (F i) x = 0" if x: "x \<noteq> 0" "x \<noteq> DIRENT_SIZE" for x
    using dl(2) entry_two [OF _ x] by (auto simp: dslots_def dir_empty_def in_use_entry_def entry_offsets_iff)
  have e: "(dir, off) \<in> entries_of sb F i" using p by (simp add: entries_of_def)
  then show root: "i \<noteq> ROOTINO" using t(4) [OF dl(1)] by (auto simp: place_ok_def)
  then have one: "entries_of sb F i = {(dir, off)}" and par: "dir_parent F i = dir" "i \<noteq> dir" using t(4) [OF dl(1)] e by (auto simp: place_ok_def)
  show "dir_parent F i = dir" "i \<noteq> dir" using par .
  have "(q, DIRENT_SIZE) \<notin> names sb F i" for q
  proof
    assume q: "(q, DIRENT_SIZE) \<in> names sb F i"
    then have ql: "dir_live sb F q" "dir_parent F q = i" by (auto simp: names_def dir_parent_def)
    have "q \<noteq> ROOTINO" using t(4) [OF ql(1)] ql(2) root by (auto simp: place_ok_def)
    then obtain o' where "(i, o') \<in> entries_of sb F q" using t(4) [OF ql(1)] ql(2) by (auto simp: place_ok_def)
    then have "dslots (F i) o' = q" "o' \<noteq> 0" "o' \<noteq> DIRENT_SIZE" by (auto simp: entries_of_def names_def)
    then show False using gone ql(1) live_nonzero by (auto simp: dir_live_def)
  qed
  then show "names sb F i = {(dir, off)}" using one by (auto simp: entries_of_def)
qed

lemma dir_has_name:
  assumes inv: "tree_inv sb F" and dl: "dir_live sb F q"
  obtains p where "p \<in> names sb F q" "p = (ROOTINO, DIRENT_SIZE) \<or> snd p \<noteq> DIRENT_SIZE"
proof (cases "q = ROOTINO")
  case True
  then have "(ROOTINO, DIRENT_SIZE) \<in> names sb F q" using tree_invD(4) [OF inv dl] dl by (auto simp: place_ok_def names_def dir_parent_def DIRENT_SIZE_def)
  then show ?thesis using that by blast
next
  case False
  then obtain o' where "(dir_parent F q, o') \<in> entries_of sb F q" using tree_invD(4) [OF inv dl] by (auto simp: place_ok_def)
  then show ?thesis using that by (auto simp: entries_of_def)
qed

lemma unlink_dir_tree_inv:
  assumes inv: "tree_inv sb F" and i: "akind (F i) = KDirectory" "dir_empty (F i)" and dir: "dir_live sb F dir"
    and off: "dslots (F dir) off = i" "i \<noteq> 0" "off \<noteq> 0" "off \<noteq> DIRENT_SIZE"
  shows "tree_inv sb (unlink_files F i dir off)"
proof -
  let ?F = "unlink_files F i dir off"
  note t = tree_invD [OF inv]
  have al: "entries_aligned (F dir)" and li: "live sb F i" using t(1) dir off by (auto simp: tree_ok_slots)
  have dli: "dir_live sb F i" using li i(1) by (simp add: dir_live_def)
  have "(dir, off) \<in> names sb F i" using dir off by (simp add: names_def)
  note em = empty_dir [OF inv dli i(2) this off(4)]
  have d0: "dir \<noteq> 0" using dir live_nonzero by (auto simp: dir_live_def)
  have oo: "off \<in> set (entry_offsets (F dir))" using off(1,2) by (auto simp: dslots_def split: if_splits)
  note cl = dslots_clear [OF al oo]
  have F: "?F q = (if q = i then (F i)\<lparr>anlink := anlink (F i) - 1\<rparr> else if q = dir then (put_entry off dirent_unused (F dir))\<lparr>anlink := anlink (F dir) - 1\<rparr> else F q)" for q
    using i(1) em(3) by (simp add: unlink_files_def Let_def)
  have "unat (anlink (F i)) = 1" using t(5) [OF li] em(1) by simp
  then have zero: "anlink (F i) - 1 = 0" by (metis right_minus_eq unsigned_1 unsigned_word_eqI)
  have sl: "dslots (?F q) = (if q = dir then (dslots (F dir))(off := 0) else dslots (F q))" for q using cl(1) em(3) by (simp add: F)
  have ndir: "card (names sb F dir) = unat (anlink (F dir))" "(i, DIRENT_SIZE) \<in> names sb F dir"
    using t(5) dir dli em(2) by (auto simp: dir_live_def names_def dir_parent_def DIRENT_SIZE_def)
  obtain p where p: "p \<in> names sb F dir" "p \<noteq> (i, DIRENT_SIZE)" using dir_has_name [OF inv dir] em(4) by (metis fst_conv snd_conv)
  have "p \<in> names sb F dir - {(i, DIRENT_SIZE)}" using p by simp
  then have "names sb F dir - {(i, DIRENT_SIZE)} \<noteq> {}" by blast
  then have two: "card (names sb F dir - {(i, DIRENT_SIZE)}) = unat (anlink (F dir)) - 1" "card (names sb F dir - {(i, DIRENT_SIZE)}) \<noteq> 0"
    using card_Diff_singleton [OF ndir(2)] ndir(1) card_0_eq [OF finite_Diff [OF finite_names [OF d0, of sb F]]] by metis+
  have dec: "unat (anlink (F dir) - 1) = unat (anlink (F dir)) - 1" "anlink (F dir) - 1 \<noteq> 0"
    using two unat_dec [of "anlink (F dir)"] dir by (auto simp: dir_live_def live_def)
  have lv: "live sb ?F q = (live sb F q \<and> q \<noteq> i)" for q using zero dec(2) dir by (auto simp: live_def F dir_live_def)
  have dl: "dir_live sb ?F q = (dir_live sb F q \<and> q \<noteq> i)" for q using lv [of q] by (auto simp: dir_live_def F)
  have nm: "names sb ?F k = (if k = i then {} else if k = dir then names sb F dir - {(i, DIRENT_SIZE)} else names sb F k)" if "k \<noteq> 0" for k
  proof -
    have a: "names sb ?F k = names sb F k - {(dir, off)} - {(q, x). q = i}" using that by (auto simp: names_def dl sl split: if_splits)
    have b: "x = DIRENT_SIZE \<and> k = dir" if "(i, x) \<in> names sb F k" for x using that \<open>k \<noteq> 0\<close> em(2) em(5) [of x] by (auto simp: names_def dir_parent_def)
    have c: "k = i" if "(dir, off) \<in> names sb F k" using that off(1) by (simp add: names_def)
    consider "k = i" | "k = dir" "k \<noteq> i" | "k \<noteq> i" "k \<noteq> dir" by blast
    then show ?thesis
    proof cases
      case 1
      then show ?thesis using a em(1) by simp
    next
      case 2
      then have "names sb ?F dir = names sb F dir - {(i, DIRENT_SIZE)}" using a b c by blast
      then show ?thesis using 2 by simp
    next
      case 3
      then have "names sb ?F k = names sb F k" using a b c by blast
      then show ?thesis using 3 by simp
    qed
  qed
  have "tree_ok sb ?F" unfolding tree_ok_slots dl lv
  proof (intro allI impI conjI)
    fix q assume q: "dir_live sb F q \<and> q \<noteq> i"
    show "entries_aligned (?F q)" using q t(1) cl(2) by (auto simp: tree_ok_slots F)
    fix x assume x: "dslots (?F q) x \<noteq> 0"
    show "live sb F (dslots (?F q) x)" using q t(1) x by (auto simp: tree_ok_slots sl split: if_splits)
    have "dslots (?F q) 0 = q" using t(3) [of q] q off(3) by (cases "q = dir") (auto simp: dots_ok_def sl)
    moreover have "(q, x) \<in> names sb ?F i" if "dslots (?F q) x = i" "x \<noteq> 0" using that q by (simp add: names_def dl)
    ultimately show "dslots (?F q) x \<noteq> i" using nm [OF off(2)] q by (cases "x = 0") auto
  qed
  moreover have "dots_ok (?F q) q" if q: "dir_live sb F q" "q \<noteq> i" for q
  proof (cases "q = dir")
    case True
    have "0 \<in> set (entry_offsets (F dir))" "DIRENT_SIZE \<in> set (entry_offsets (F dir))" using t(3) [OF dir] by (auto simp: dots_ok_def entry_offsets_iff DIRENT_SIZE_def)
    then show ?thesis using True dots_ok_mono [OF t(3) [OF dir] d0, of "put_entry off dirent_unused (F dir)"] cl off(3,4) q(2) by (auto simp: F)
  qed (use q t(3) [OF q(1)] in \<open>simp add: F\<close>)
  moreover have "place_ok sb ?F q" if q: "dir_live sb F q" "q \<noteq> i" for q
  proof -
    have "q \<noteq> 0" using q live_nonzero by (auto simp: dir_live_def)
    then have "entries_of sb ?F q = entries_of sb F q" "dir_parent ?F q = dir_parent F q" using nm [of q] q(2) off(4) by (auto simp: entries_of_def dir_parent_def sl)
    then show ?thesis using t(4) [OF q(1)] by (simp only: place_ok_def)
  qed
  moreover have "unat (anlink (?F q)) = card (names sb ?F q)" if q: "live sb F q" "q \<noteq> i" for q
    using nm [OF live_nonzero [OF q(1)]] q(2) t(5) [OF q(1)] dec(1) two(1) by (simp add: F)
  ultimately show ?thesis using t(2) em(4) by (simp add: tree_inv_def dl lv)
qed

subsection \<open>A new file\<close>

definition new_file :: "inode_kind \<Rightarrow> u16 \<Rightarrow> u16 \<Rightarrow> nat \<Rightarrow> nat \<Rightarrow> afile" where
  "new_file k mj mn i dir = (let f = \<lparr>akind = k, amajor = mj, aminor = mn, anlink = 1, abytes = []\<rparr> in
     if k = KDirectory then add_entry (dirent_new dir DOTDOT) (add_entry (dirent_new i DOT) f) else f)"

definition create_files :: "(nat \<Rightarrow> afile) \<Rightarrow> inode_kind \<Rightarrow> u16 \<Rightarrow> u16 \<Rightarrow> u8 list \<Rightarrow> nat \<Rightarrow> nat \<Rightarrow> nat \<Rightarrow> afile" where
  "create_files F k mj mn name i dir =
     (let f = add_entry (dirent_new i name) (F dir) in
      F(i := new_file k mj mn i dir, dir := (if k = KDirectory then f\<lparr>anlink := anlink f + 1\<rparr> else f)))"

lemma akind_new [simp]: "akind (new_file k mj mn i dir) = k" "anlink (new_file k mj mn i dir) = 1"
  by (simp_all add: new_file_def Let_def)

lemma add_first: "abytes f = [] \<Longrightarrow> abytes (add_entry e f) = encode_dirent e"
  by (simp add: add_entry_def put_entry_def free_offset_def entry_offsets_def step_range_def DIRENT_SIZE_def overwrite_def)

lemma new_dir:
  assumes i: "i < 65536" "i \<noteq> 0" and dir: "dir < 65536" "dir \<noteq> 0"
  shows "entries_aligned (new_file KDirectory mj mn i dir)" "dots_ok (new_file KDirectory mj mn i dir) i"
    "dslots (new_file KDirectory mj mn i dir) = (\<lambda>_. 0)(0 := i, DIRENT_SIZE := dir)"
proof -
  let ?f = "\<lparr>akind = KDirectory, amajor = mj, aminor = mn, anlink = 1, abytes = []\<rparr>" and ?e = "dirent_new i DOT" and ?e' = "dirent_new dir DOTDOT"
  let ?g = "add_entry ?e ?f"
  have al: "entries_aligned ?f" by (simp add: entries_aligned_def)
  have z: "dslots ?f = (\<lambda>_. 0)" by (simp add: dslots_def entry_offsets_def step_range_def DIRENT_SIZE_def fun_eq_iff)
  have u: "in_use_entry ?e" "in_use_entry ?e'" using assms by (simp_all add: in_use_entry_def inum_new)
  obtain o1 where 1: "dslots ?g = (dslots ?f)(o1 := dirent_inode_number ?e)" "entries_aligned ?g" "entry_at ?g o1 = ?e" "o1 \<le> length (abytes ?f)"
    by (rule dslots_add [OF al length_dirent_new u(1)]) (rule that)
  have o1: "o1 = 0" using 1(4) by simp
  have len: "length (abytes ?g) = DIRENT_SIZE" using add_first [of ?f ?e] length_encode_dirent [of ?e] by simp
  obtain o2 where 2: "dslots ?g o2 = 0" "dslots (add_entry ?e' ?g) = (dslots ?g)(o2 := dirent_inode_number ?e')" "o2 mod DIRENT_SIZE = 0" "entries_aligned (add_entry ?e' ?g)"
    "o2 < length (abytes (add_entry ?e' ?g))" "\<And>x. dslots ?g x \<noteq> 0 \<Longrightarrow> entry_at (add_entry ?e' ?g) x = entry_at ?g x" "entry_at (add_entry ?e' ?g) o2 = ?e'"
    "o2 \<le> length (abytes ?g)"
    by (rule dslots_add [OF 1(2) length_dirent_new u(2)]) (rule that)
  have s1: "dslots ?g = (\<lambda>_. 0)(0 := i)" using 1(1) o1 z inum_new [OF i(1)] by simp
  have o2: "o2 = DIRENT_SIZE" using 2(1,3,8) s1 i(2) len entry_two [OF 2(3)] by (auto simp: DIRENT_SIZE_def split: if_splits)
  show sl: "dslots (new_file KDirectory mj mn i dir) = (\<lambda>_. 0)(0 := i, DIRENT_SIZE := dir)"
    using 2(2) s1 o2 inum_new [OF dir(1)] by (simp add: new_file_def Let_def)
  show al': "entries_aligned (new_file KDirectory mj mn i dir)" using 2(4) by (simp add: new_file_def Let_def)
  have "DIRENT_SIZE < length (abytes (new_file KDirectory mj mn i dir))" using 2(5) o2 by (simp add: new_file_def Let_def)
  then have "2 * DIRENT_SIZE \<le> length (abytes (new_file KDirectory mj mn i dir))" using entry_two [of "length (abytes (new_file KDirectory mj mn i dir))"] al' by (auto simp: entries_aligned_def)
  moreover have "entry_at (new_file KDirectory mj mn i dir) 0 = ?e" using 2(6) [of 0] s1 i(2) 1(3) o1 by (simp add: new_file_def Let_def)
  moreover have "entry_at (new_file KDirectory mj mn i dir) DIRENT_SIZE = ?e'" using 2(7) o2 by (simp add: new_file_def Let_def)
  ultimately show "dots_ok (new_file KDirectory mj mn i dir) i" using sl dir(2) by (auto simp: dots_ok_def DIRENT_SIZE_def)
qed

lemma unused_no_names: "tree_inv sb F \<Longrightarrow> \<not> live sb F i \<Longrightarrow> i \<noteq> 0 \<Longrightarrow> names sb F i = {}"
  by (auto simp: names_def tree_inv_def tree_ok_slots)

lemma create_tree_inv:
  assumes inv: "tree_inv sb F" and small: "unat (ninodes sb) \<le> 65536" and i: "i \<in> inums sb" "akind (F i) = KUnused" and dir: "dir_live sb F dir"
    and k: "k \<noteq> KUnused" "k = KDirectory \<Longrightarrow> anlink (F dir) + 1 \<noteq> 0"
  shows "tree_inv sb (create_files F k mj mn name i dir)"
proof -
  let ?F = "create_files F k mj mn name i dir" and ?g = "new_file k mj mn i dir"
  note t = tree_invD [OF inv]
  have ni: "\<not> live sb F i" using i(2) by (simp add: live_def)
  have ne: "i \<noteq> dir" "i \<noteq> 0" "dir \<noteq> 0" "i < 65536" "dir < 65536" "i \<noteq> ROOTINO"
    using ni i(1) dir small t(2) by (auto simp: dir_live_def live_def inums_def)
  have al: "entries_aligned (F dir)" using t(1) dir by (simp add: tree_ok_slots)
  have e: "in_use_entry (dirent_new i name)" using inum_new [OF ne(4)] ne(2) by (simp add: in_use_entry_def)
  obtain off where off: "dslots (F dir) off = 0" "dslots (add_entry (dirent_new i name) (F dir)) = (dslots (F dir))(off := i)"
    "entries_aligned (add_entry (dirent_new i name) (F dir))" "length (abytes (F dir)) \<le> length (abytes (add_entry (dirent_new i name) (F dir)))"
    "\<And>x. dslots (F dir) x \<noteq> 0 \<Longrightarrow> entry_at (add_entry (dirent_new i name) (F dir)) x = entry_at (F dir) x"
    by (rule dslots_add [OF al length_dirent_new e, unfolded inum_new [OF ne(4)]]) (rule that)
  have o: "off \<noteq> 0" "off \<noteq> DIRENT_SIZE" using dots_pos [OF t(3) [OF dir]] ne off(1) by metis+
  note g = new_dir [OF ne(4,2,5,3)]
  have lv: "live sb ?F q = (live sb F q \<or> q = i)" for q using dir k i ne(1) by (auto simp: live_def create_files_def dir_live_def Let_def)
  have dl: "dir_live sb ?F q = (dir_live sb F q \<or> q = i \<and> k = KDirectory)" for q
    using lv [of q] ne(1) ni by (auto simp: dir_live_def create_files_def Let_def)
  have sl: "dslots (?F q) = (if q = dir then (dslots (F dir))(off := i) else if q = i then dslots ?g else dslots (F q))" for q
    using off(2) ne(1) by (auto simp: create_files_def Let_def)
  have di: "\<not> dir_live sb F i" "DIRENT_SIZE \<noteq> 0" using ni by (simp_all add: dir_live_def DIRENT_SIZE_def)
  have gs: "dslots (?F i) = (\<lambda>_. 0)(0 := i, DIRENT_SIZE := dir)" if "k = KDirectory" using g(3) [of mj mn] that sl [of i] ne(1) by simp
  have nm: "names sb ?F q = names sb F q \<union> (if q = i then {(dir, off)} else {}) \<union> (if k = KDirectory \<and> q = dir then {(i, DIRENT_SIZE)} else {})" if "q \<noteq> 0" for q
  proof (rule set_eqI)
    fix p :: "nat \<times> nat"
    obtain x y where p: "p = (x, y)" by (cases p)
    consider "x = dir" | "x = i" "x \<noteq> dir" | "x \<noteq> dir" "x \<noteq> i" by blast
    then show "p \<in> names sb ?F q \<longleftrightarrow> p \<in> names sb F q \<union> (if q = i then {(dir, off)} else {}) \<union> (if k = KDirectory \<and> q = dir then {(i, DIRENT_SIZE)} else {})"
    proof cases
      case 1 then show ?thesis using that o off(1) dir ne(1) by (auto simp: p names_def dl sl)
    next
      case 2 then show ?thesis using that di gs dl [of i] by (cases "k = KDirectory") (auto simp: p names_def)
    next
      case 3 then show ?thesis by (simp add: p names_def dl sl)
    qed
  qed
  have ui: "names sb ?F i = {(dir, off)}" using nm [OF ne(2)] unused_no_names [OF inv ni ne(2)] ne(1) by simp
  have "tree_ok sb ?F" unfolding tree_ok_slots dl lv
  proof (intro allI impI conjI)
    fix q assume q: "dir_live sb F q \<or> q = i \<and> k = KDirectory"
    show "entries_aligned (?F q)" using q t(1) off(3) g(1) [of mj mn] ne(1) di(1) by (auto simp: tree_ok_slots create_files_def Let_def)
    show "live sb F (dslots (?F q) x) \<or> dslots (?F q) x = i" if x: "dslots (?F q) x \<noteq> 0" for x
    proof (cases "q = i")
      case True
      then have "k = KDirectory" using q di(1) by simp
      from gs [OF this] show ?thesis using True x dir by (auto simp: dir_live_def split: if_splits)
    next
      case False
      then have "dir_live sb F q" using q by simp
      then show ?thesis using t(1) x False unfolding tree_ok_slots sl by (cases "q = dir") (auto split: if_splits)
    qed
  qed
  moreover have "dots_ok (?F q) q" if q: "dir_live sb F q" for q
  proof (cases "q = dir")
    case True
    have "dslots (F dir) x \<noteq> 0" if "x = 0 \<or> x = DIRENT_SIZE" for x using dots_pos [OF t(3) [OF dir]] that ne by blast
    then show ?thesis using True dots_ok_mono [OF t(3) [OF dir] ne(3), of "add_entry (dirent_new i name) (F dir)"] off(2,4,5) o by (auto simp: create_files_def Let_def)
  qed (use q t(3) [OF q] ni in \<open>auto simp: create_files_def dir_live_def Let_def\<close>)
  moreover have "place_ok sb ?F q" if q: "dir_live sb F q" for q
  proof -
    have "q \<noteq> i" "q \<noteq> 0" using q ni live_nonzero by (auto simp: dir_live_def)
    then have "entries_of sb ?F q = entries_of sb F q" "dir_parent ?F q = dir_parent F q" using nm [of q] o by (auto simp: entries_of_def dir_parent_def sl)
    then show ?thesis using t(4) [OF q] by (simp only: place_ok_def)
  qed
  moreover have "dots_ok (?F i) i \<and> place_ok sb ?F i" if "k = KDirectory"
    using that g(2,3) [of mj mn] ne(1,6) ui o(2) by (auto simp: create_files_def place_ok_def dir_parent_def entries_of_def Let_def)
  moreover have "unat (anlink (?F q)) = card (names sb ?F q)" if q: "live sb F q" for q
  proof -
    have qi: "q \<noteq> i" "q \<noteq> 0" using q ni live_nonzero by auto
    have "(i, DIRENT_SIZE) \<notin> names sb F dir" using ni by (simp add: names_def dir_live_def)
    then show ?thesis using t(5) [OF q] nm [OF qi(2)] qi finite_names [OF qi(2)] unat_inc [OF k(2)] by (auto simp: create_files_def Let_def)
  qed
  moreover have "unat (anlink (?F i)) = card (names sb ?F i)" using ui ne(1) by (simp add: create_files_def Let_def)
  ultimately show ?thesis using t(2) unfolding tree_inv_def dl lv by blast
qed

end
