(* ===== verification/Fs_Link.thy ===== *)
theory Fs_Link
  imports Fs_Tree
begin

text \<open>
  \<open>link\<close> and \<open>unlink\<close> on the abstract tree: what they do to the files, that they give back every lock and every
  reference they take, and that they keep the tree in order.
\<close>

subsection \<open>Marks in the log\<close>

lemma log_mark_sel [simp]: "icache (log_mark c s) = icache s" "islots (log_mark c s) = islots s"
  by (simp_all add: log_mark_def)

lemma log_mark_inode [simp]: "inode_of x (log_mark c s) = inode_of x s" "handle (log_mark c s) x i = handle s x i" "refs (log_mark c s) = refs s"
  "held_set (log_mark c s) = held_set s"
  by (simp_all add: inode_of_def handle_def refs_def held_set_def held_by_def fun_eq_iff)

lemma logged_fblock [simp]: "fblock ip (d\<lparr>logged := l\<rparr>) k = fblock ip d k" "inode_at sb i (d\<lparr>logged := l\<rparr>) = inode_at sb i d"
  "inode_blocks ip (d\<lparr>logged := l\<rparr>) = inode_blocks ip d" "in_use sb (d\<lparr>logged := l\<rparr>) = in_use sb d" "fbyte ip (d\<lparr>logged := l\<rparr>) off = fbyte ip d off"
  "disk_ok (d\<lparr>logged := l\<rparr>) = disk_ok d" "alloc_ok sb (d\<lparr>logged := l\<rparr>) = alloc_ok sb d"
proof -
  show 1: "fblock ip (d\<lparr>logged := l\<rparr>) k = fblock ip d k" for k by (simp add: fblock_def)
  show "inode_blocks ip (d\<lparr>logged := l\<rparr>) = inode_blocks ip d" by (simp add: inode_blocks_def 1)
  show "fbyte ip (d\<lparr>logged := l\<rparr>) off = fbyte ip d off" by (simp add: fbyte_def 1 Let_def)
  show "inode_at sb i (d\<lparr>logged := l\<rparr>) = inode_at sb i d" by (simp add: inode_at_def)
  show 2: "in_use sb (d\<lparr>logged := l\<rparr>) = in_use sb d" by (auto simp: in_use_iff used_def)
  show 3: "disk_ok (d\<lparr>logged := l\<rparr>) = disk_ok d" by (simp add: disk_ok_def)
  show "alloc_ok sb (d\<lparr>logged := l\<rparr>) = alloc_ok sb d" by (simp add: alloc_ok_def 2 3)
qed

lemma log_mark_rests [simp]: "rests sb F R H (log_mark c s) = rests sb F R H s"
proof -
  have f: "file_ok sb ip (d\<lparr>logged := l\<rparr>) = file_ok sb ip d" "file_view ip (d\<lparr>logged := l\<rparr>) = file_view ip d" for ip d l
    by (simp_all add: file_ok_def inode_ok_def file_view_def frange_def)
  have v: "view sb (log_mark c s) = view sb s"
    by (simp add: view_def cached_at_def disk_cinode_def log_mark_def fun_eq_iff inode_of_def split: option.split)
  then have "files sb (log_mark c s) = files sb s" by (simp add: files_def fun_eq_iff) (simp add: log_mark_def f)
  moreover have "fs_inv sb (log_mark c s) = fs_inv sb s"
    unfolding fs_inv_def v by (simp add: slots_ok_def held_by_def disk_inv_def) (simp add: log_mark_def f behind_def disk_cinode_def)
  ultimately show ?thesis by (simp add: rests_def)
qed

lemma log_mark_kept [simp]: "kept R (log_mark c s) s' = kept R s s'" "kept R s (log_mark c s') = kept R s s'" "cwd_ok sb F (log_mark c s) cwd w = cwd_ok sb F s cwd w"
  by (simp_all add: kept_def cwd_ok_def split: option.split)

subsection \<open>Taking and leaving an inode\<close>

lemma room_less: "room R m \<Longrightarrow> Suc n \<le> m \<Longrightarrow> room (R(i := v)) n"
  by (rule room_upd) (simp add: room_def)

lemma lock_again:
  assumes r: "rests sb F (R(i := R i + 1)) H s" and h: "handle s j i" and j: "j \<notin> H" and k: "akind (F i) \<noteq> KUnused"
  shows "\<exists>s'. ref_lock sb j s = Some s' \<and> rests sb F (R(i := R i + 2)) (insert j H) s' \<and> handle s' j i \<and> is_initialized (inode_of j s') \<and> stays {j} s s'"
proof -
  have two: "(R(i := R i + 1))(i := (R(i := R i + 1)) i + 1) = R(i := R i + 2)" by simp
  show ?thesis using lock_rests [OF r h j k, unfolded two] unfolding stays_def by blast
qed

lemma guard_drop_again:
  assumes r: "rests sb F (R(i := R i + 2)) H s" and h: "handle s j i"
  shows "\<exists>s'. guard_drop sb j s = Some s' \<and> rests sb F (R(i := R i + 1)) (H - {j}) s' \<and> stays {} s s'"
proof -
  have two: "2 \<le> (R(i := R i + 2)) i" "(R(i := R i + 2))(i := (R(i := R i + 2)) i - 1) = R(i := R i + 1)" by auto
  show ?thesis using guard_drop_stays [OF r h two(1), unfolded two(2)] .
qed

lemma leave_both:
  assumes r: "rests sb F (R(i := R i + 2)) H s" and h: "handle s j i" and live: "anlink (F i) \<noteq> 0"
  shows "\<exists>s1 s'. guard_drop sb j s = Some s1 \<and> ref_drop sb j s1 = Some s' \<and> rests sb F R (H - {j}) s' \<and> kept R s s'"
proof -
  from guard_drop_again [OF r h] obtain s1 where
    1: "guard_drop sb j s = Some s1" "rests sb F (R(i := R i + 1)) (H - {j}) s1" "stays {} s s1" by blast
  from ref_drop_kept [OF 1(2) staysD(1) [OF 1(3) h] _ live] obtain s' where
    2: "ref_drop sb j s1 = Some s'" "rests sb F R (H - {j}) s'" "kept R s1 s'" by auto
  have "kept R s s'" using kept_then [OF stays_kept [OF 1(3)] 2(3)] by blast
  then show ?thesis using 1(1) 2(1,2) by blast
qed

lemma dir_rests:
  assumes "rests sb F R H s" "handle s j i" "is_initialized (inode_of j s)"
  shows "is_directory (inode_of j s) \<longleftrightarrow> akind (F i) = KDirectory" "is_file (inode_of j s) \<longleftrightarrow> akind (F i) = KFile"
    "is_device (inode_of j s) \<longleftrightarrow> akind (F i) = KDevice" "count_of_link (inode_of j s) = unat (anlink (F i))"
  using file_rests(2) [OF assms] file_view_sel(1,2) [of "inode_of j s" "dview s"]
  by (simp_all add: is_directory_def is_file_def is_device_def count_of_link_def)

lemma link_bad_rests:
  assumes r: "rests sb F (R(i := R i + 1)) H s" and h: "handle s j i" and j: "j \<notin> H" and k: "akind (F i) \<noteq> KUnused" "anlink (F i) - 1 \<noteq> 0"
  shows "\<exists>s'. link_bad sb j s = Some s' \<and> rests sb (F(i := (F i)\<lparr>anlink := anlink (F i) - 1\<rparr>)) R H s' \<and> kept R s s'"
proof -
  let ?F = "F(i := (F i)\<lparr>anlink := anlink (F i) - 1\<rparr>)"
  from lock_again [OF r h j k(1)] obtain s1 where
    1: "ref_lock sb j s = Some s1" "rests sb F (R(i := R i + 2)) (insert j H) s1" "handle s1 j i" "is_initialized (inode_of j s1)" "stays {j} s s1" by blast
  from modify_rests [OF 1(2-4) attributes_link(2)] k(1) obtain s2 where
    2: "modify_update sb j decrement_link s1 = Some s2" "rests sb ?F (R(i := R i + 2)) (insert j H) s2" "handle s2 j i" "stays {j} s1 s2" by auto
  have eq: "insert j H - {j} = H" using j by auto
  have "anlink (?F i) \<noteq> 0" using k(2) by simp
  from leave_both [OF 2(2,3) this, unfolded eq] obtain s3 s4 where
    3: "guard_drop sb j s2 = Some s3" "ref_drop sb j s3 = Some s4" "rests sb ?F R H s4" "kept R s2 s4" by blast
  have "kept R s s4" using kept_then [OF stays_kept [OF stays_trans [OF 1(5) 2(4) subset_refl]] 3(4)] by blast
  then show ?thesis using 1(1) 2(1) 3 by (simp add: link_bad_def)
qed

subsection \<open>Link\<close>

text \<open>The last part of \<open>link\<close>: the entry is added to the directory, or the link count goes back.\<close>

lemma link_into:
  assumes r: "rests sb F ((R(i := R i + 1))(dir := (R(i := R i + 1)) dir + 1)) {} s" and h: "handle s y dir" "handle s x i"
    and i: "live sb F i" "anlink (F i) - 1 \<noteq> 0" "i \<noteq> dir" and dir: "dir_live sb F dir" "tree_ok sb F" and room: "room R 3"
  shows "\<exists>s1 q s2 s3 s4 s'. ref_lock sb y s = Some s1 \<and> device (inode_of y s1) = ROOTDEV \<and> dir_link sb name i y s1 = Some (q, s2) \<and> kept R s s' \<and>
    (q = Ok () \<and> dir_find name (F dir) = None \<and> guard_drop sb y s2 = Some s3 \<and> ref_drop sb y s3 = Some s4 \<and> ref_drop sb x s4 = Some s' \<and>
       rests sb (F(dir := add_entry (dirent_new i name) (F dir))) R {} s' \<or>
     q = Err () \<and> link_bad sb x s2 = Some s3 \<and> guard_drop sb y s3 = Some s4 \<and> ref_drop sb y s4 = Some s' \<and>
       (dir_find name (F dir) \<noteq> None \<or> free_offset (F dir) = None) \<and> rests sb (F(i := (F i)\<lparr>anlink := anlink (F i) - 1\<rparr>)) R {} s')"
proof -
  let ?R = "R(i := R i + 1)"
  have d: "akind (F dir) = KDirectory" "akind (F dir) \<noteq> KUnused" "entries_aligned (F dir)" "anlink (F dir) \<noteq> 0" "live sb F dir"
    using dir by (auto simp: dir_live_def tree_ok_def live_def)
  have tgt: "\<forall>off. dir_find name (F dir) = Some off \<longrightarrow> live sb F (dirent_inode_number (entry_at (F dir) off))"
    using dir_find_live [OF dir(2) d(5,1)] by blast
  have room': "room (?R(dir := ?R dir + 2)) 1" by (rule room_less [OF room_less [OF room, of 2]]) simp_all
  have none: "y \<notin> {}" by simp
  from lock_again [OF r h(1) none d(2)] obtain s1 where
    1: "ref_lock sb y s = Some s1" "rests sb F (?R(dir := ?R dir + 2)) {y} s1" "handle s1 y dir" "is_initialized (inode_of y s1)" "stays {y} s s1" by auto
  from dir_link_rests [OF 1(2-4) room' d(1,3) tgt, of i] obtain q s2 where
    2: "dir_link sb name i y s1 = Some (q, s2)" "handle s2 y dir" "stays {y} s1 s2"
      "q = Ok () \<and> dir_find name (F dir) = None \<and> rests sb (F(dir := add_entry (dirent_new i name) (F dir))) (?R(dir := ?R dir + 2)) {y} s2 \<or>
       q = Err () \<and> rests sb F (?R(dir := ?R dir + 2)) {y} s2 \<and> (dir_find name (F dir) \<noteq> None \<or> free_offset (F dir) = None)" by blast
  have st: "stays {y} s s2" using stays_trans [OF 1(5) 2(3)] by simp
  have hx: "handle s2 x i" using staysD(1) [OF st h(2)] .
  have xy: "x \<notin> {y}" using handle_inum [OF hx] 2(2) i(3) by blast
  have dev: "device (inode_of y s1) = ROOTDEV" using file_rests(4) [OF 1(2-4)] .
  show ?thesis
  proof (cases q)
    let ?F = "F(dir := add_entry (dirent_new i name) (F dir))"
    case (Ok u)
    then have ok: "q = Ok ()" "dir_find name (F dir) = None" "rests sb ?F (?R(dir := ?R dir + 2)) {y} s2" using 2(4) by simp_all
    from leave_both [OF ok(3) 2(2)] d(4) obtain s3 s4 where
      3: "guard_drop sb y s2 = Some s3" "ref_drop sb y s3 = Some s4" "rests sb ?F ?R {} s4" "kept ?R s2 s4" by auto
    have "handle s4 x i" using keptD [OF 3(4) hx] by simp
    from ref_drop_kept [OF 3(3) this] i(1,3) obtain s5 where 4: "ref_drop sb x s4 = Some s5" "rests sb ?F R {} s5" "kept R s4 s5" by (auto simp: live_def)
    have "kept R s4' s5" if "kept ?R s4' s4" for s4' using that 4(3) by (auto simp: kept_def)
    then have "kept R s s5" using kept_then [OF stays_kept [OF st]] 3(4) by blast
    then show ?thesis using 1(1) 2(1) 3(1,2) 4(1,2) dev ok(1,2) by blast
  next
    let ?F = "F(i := (F i)\<lparr>anlink := anlink (F i) - 1\<rparr>)" and ?Q = "R(dir := R dir + 2)"
    case (Err u)
    then have err: "q = Err ()" "rests sb F (?R(dir := ?R dir + 2)) {y} s2" "dir_find name (F dir) \<noteq> None \<or> free_offset (F dir) = None" using 2(4) by simp_all
    have eq: "?R(dir := ?R dir + 2) = ?Q(i := ?Q i + 1)" using i(3) by auto
    have "akind (F i) \<noteq> KUnused" using i(1) by (simp add: live_def)
    from link_bad_rests [OF err(2) [unfolded eq] hx xy this i(2)] obtain s3 where
      3: "link_bad sb x s2 = Some s3" "rests sb ?F ?Q {y} s3" "kept ?Q s2 s3" by blast
    have h3: "handle s3 y dir" using keptD [OF 3(3) 2(2)] by simp
    have "anlink (?F dir) \<noteq> 0" "{y} - {y} = {}" using d(4) i(3) by auto
    from leave_both [OF 3(2) h3 this(1), unfolded this(2)] obtain s4 s5 where
      4: "guard_drop sb y s3 = Some s4" "ref_drop sb y s4 = Some s5" "rests sb ?F R {} s5" "kept R s3 s5" by blast
    have "kept R s2 s3" using 3(3) by (auto simp: kept_def)
    then have "kept R s s5" using kept_then [OF kept_then [OF stays_kept [OF st]] 4(4)] by blast
    then show ?thesis using 1(1) 2(1) 3(1) 4(1-3) dev err(1,3) by blast
  qed
qed

lemma dir_find_attr [simp]: "dir_find name (f\<lparr>anlink := n\<rparr>) = dir_find name f" "entry_at (f\<lparr>anlink := n\<rparr>) off = entry_at f off"
  "free_offset (f\<lparr>anlink := n\<rparr>) = free_offset f"
  by (simp_all add: dir_find_def entry_at_def entry_offsets_def free_offset_def)

lemma resolve_parent_attr: "resolve_parent (F(i := (F i)\<lparr>anlink := n\<rparr>)) es q = resolve_parent F es q"
  by (induction es arbitrary: q) (simp_all split: option.split)

lemma resolve_parent_path_attr [simp]: "resolve_parent_path (F(i := (F i)\<lparr>anlink := n\<rparr>)) w path = resolve_parent_path F w path"
  by (cases "path_start w path") (simp_all add: resolve_parent_path_def resolve_parent_attr)

lemma tree_ok_attr:
  assumes "tree_ok sb F" "n \<noteq> 0" "live sb F i"
  shows "tree_ok sb (F(i := (F i)\<lparr>anlink := n\<rparr>))" "live sb (F(i := (F i)\<lparr>anlink := n\<rparr>)) q = live sb F q"
proof -
  show l: "live sb (F(i := (F i)\<lparr>anlink := n\<rparr>)) q = live sb F q" for q using assms(2,3) by (simp add: live_def)
  have d: "dir_live sb (F(i := (F i)\<lparr>anlink := n\<rparr>)) q = dir_live sb F q" for q using l [of q] by (simp add: dir_live_def)
  show "tree_ok sb (F(i := (F i)\<lparr>anlink := n\<rparr>))" using assms(1) by (simp add: tree_ok_slots l d)
qed

text \<open>What \<open>link\<close> promises.\<close>

definition link_outcome :: "(nat \<Rightarrow> afile) \<Rightarrow> nat option \<Rightarrow> u8 list \<Rightarrow> u8 list \<Rightarrow> (unit, unit) result \<Rightarrow> (nat \<Rightarrow> afile) \<Rightarrow> bool" where
  "link_outcome F w new old r F' \<longleftrightarrow> (case resolve_path F w old of None \<Rightarrow> r = Err () \<and> F' = F | Some i \<Rightarrow>
     if akind (F i) = KDirectory then r = Err () \<and> F' = F
     else case resolve_parent_path F w new of None \<Rightarrow> r = Err () \<and> F' = F | Some (dir, name) \<Rightarrow>
       r = Ok () \<and> dir_find name (F dir) = None \<and> F' = link_files F i dir name \<or>
       r = Err () \<and> F' = F \<and> (dir_find name (F dir) \<noteq> None \<or> free_offset (F dir) = None))"

definition fs_ready :: "superblock \<Rightarrow> (nat \<Rightarrow> afile) \<Rightarrow> (nat \<Rightarrow> nat) \<Rightarrow> fstate \<Rightarrow> bool" where
  "fs_ready sb F R s \<longleftrightarrow> rests sb F R {} s \<and> tree_inv sb F \<and> unat (ninodes sb) \<le> 65536"

lemma fs_readyD: "fs_ready sb F R s \<Longrightarrow> idle sb F R s" "fs_ready sb F R s \<Longrightarrow> rests sb F R {} s" "fs_ready sb F R s \<Longrightarrow> tree_inv sb F"
  "fs_ready sb F R s \<Longrightarrow> live sb F i \<Longrightarrow> i < 65536"
  by (auto simp: fs_ready_def idle_def tree_inv_def dir_live_def live_def inums_def)

lemma link_new_rests:
  assumes inv: "tree_inv sb F" and i: "live sb F i" "akind (F i) \<noteq> KDirectory" "anlink (F i) + 1 \<noteq> 0"
    and r: "rests sb (F(i := (F i)\<lparr>anlink := anlink (F i) + 1\<rparr>)) (R(i := R i + 1)) {} s" and h: "handle s x i" and room: "room R 3" and cwd: "cwd_ok sb F s cwd w"
  shows "\<exists>r s' F'. link_new sb cwd new x ROOTDEV i s = Some (r, s') \<and> rests sb F' R {} s' \<and> kept R s s' \<and>
    (case resolve_parent_path F w new of None \<Rightarrow> r = Err () \<and> F' = F | Some (dir, name) \<Rightarrow>
       r = Ok () \<and> dir_find name (F dir) = None \<and> F' = link_files F i dir name \<or>
       r = Err () \<and> F' = F \<and> (dir_find name (F dir) \<noteq> None \<or> free_offset (F dir) = None))"
proof -
  let ?F = "F(i := (F i)\<lparr>anlink := anlink (F i) + 1\<rparr>)" and ?R = "R(i := R i + 1)"
  note ta = tree_ok_attr [OF tree_invD(1) [OF inv] i(3,1)]
  have idle: "idle sb ?F ?R s" using r ta tree_invD(2) [OF inv] by (simp add: idle_def dir_live_def)
  have cwd': "cwd_ok sb ?F s cwd w" using cwd ta(2) by (auto simp: cwd_ok_def split: option.splits)
  have room2: "room ?R 2" by (rule room_less [OF room]) simp
  have li: "live sb ?F i" "anlink (?F i) - 1 \<noteq> 0" "akind (?F i) \<noteq> KUnused" "?F(i := (?F i)\<lparr>anlink := anlink (?F i) - 1\<rparr>) = F"
    using ta(2) [of i] i(1) by (auto simp: live_def)
  from search_parent_ok [OF idle room2 cwd', of new, unfolded resolve_parent_path_attr] obtain p s1 where
    1: "search_parent_inode sb cwd new s = Some (p, s1)" "kept ?R s s1"
      "case resolve_parent_path F w new of None \<Rightarrow> p = None \<and> rests sb ?F ?R {} s1
       | Some (k, name) \<Rightarrow> live sb ?F k \<and> akind (?F k) = KDirectory \<and> (\<exists>x. p = Some (x, name) \<and> handle s1 x k \<and> rests sb ?F (?R(k := ?R k + 1)) {} s1)" by blast
  have h1: "handle s1 x i" "kept R s s1" using keptD [OF 1(2) h] 1(2) by (auto simp: kept_def)
  show ?thesis
  proof (cases "resolve_parent_path F w new")
    case None
    with 1(3) have p: "p = None" "rests sb ?F ?R {} s1" "x \<notin> {}" by simp_all
    from link_bad_rests [OF p(2) h1(1) p(3) li(3,2), unfolded li(4)] obtain s2 where
      2: "link_bad sb x s1 = Some s2" "rests sb F R {} s2" "kept R s1 s2" by blast
    have "kept R s s2" using kept_then [OF h1(2) 2(3)] by blast
    then show ?thesis using None 1(1) p(1) 2(1,2) by (simp add: link_new_def)
  next
    case (Some dn)
    obtain dir name where dn: "dn = (dir, name)" by (cases dn)
    with Some 1(3) obtain y where y: "dir_live sb ?F dir" "p = Some (y, name)" "handle s1 y dir" "rests sb ?F (?R(dir := ?R dir + 1)) {} s1" by (auto simp: dir_live_def)
    have ne: "i \<noteq> dir" using y(1) i(2) by (auto simp: dir_live_def)
    note into = link_into [OF y(4,3) h1(1) li(1,2) ne y(1) ta(1) room, of name, unfolded li(4)]
    have f: "?F dir = F dir" "?F(dir := add_entry (dirent_new i name) (F dir)) = link_files F i dir name" using ne by (auto simp: link_files_def)
    have k: "kept R s s'" if "kept R s1 s'" for s' using kept_then [OF h1(2) that] by blast
    from into [unfolded f] obtain s2 q s3 s4 s5 s' where
      2: "ref_lock sb y s1 = Some s2" "device (inode_of y s2) = ROOTDEV" "dir_link sb name i y s2 = Some (q, s3)" "kept R s1 s'"
        "q = Ok () \<and> dir_find name (F dir) = None \<and> guard_drop sb y s3 = Some s4 \<and> ref_drop sb y s4 = Some s5 \<and> ref_drop sb x s5 = Some s' \<and>
           rests sb (link_files F i dir name) R {} s' \<or>
         q = Err () \<and> link_bad sb x s3 = Some s4 \<and> guard_drop sb y s4 = Some s5 \<and> ref_drop sb y s5 = Some s' \<and>
           (dir_find name (F dir) \<noteq> None \<or> free_offset (F dir) = None) \<and> rests sb F R {} s'" by blast
    then show ?thesis using 1(1) y(2) Some dn k [OF 2(4)] by (cases q) (auto simp: link_new_def)
  qed
qed

lemma link_body_rests:
  assumes ready: "fs_ready sb F R s" and room: "room R 3" and cwd: "cwd_ok sb F s cwd w"
    and few: "\<And>i. resolve_path F w old = Some i \<Longrightarrow> anlink (F i) + 1 \<noteq> 0"
  shows "\<exists>r s' F'. link_body sb cwd new old s = Some (r, s') \<and> link_outcome F w new old r F' \<and> rests sb F' R {} s' \<and> kept R s s'"
proof -
  note rd = fs_readyD [OF ready]
  have room2: "room R 2" using room by (simp add: room_def)
  from search_inode_ok [OF rd(1) room2 cwd, of old] obtain q s1 where
    1: "search_inode sb cwd old s = Some (q, s1)" "kept R s s1"
      "case resolve_path F w old of None \<Rightarrow> q = None \<and> rests sb F R {} s1
       | Some k \<Rightarrow> live sb F k \<and> (\<exists>x. q = Some x \<and> handle s1 x k \<and> rests sb F (R(k := R k + 1)) {} s1)" by blast
  show ?thesis
  proof (cases "resolve_path F w old")
    case None
    then show ?thesis using 1 by (auto simp: link_body_def link_outcome_def)
  next
    case (Some i)
    with 1(3) obtain x where x: "live sb F i" "q = Some x" "handle s1 x i" "rests sb F (R(i := R i + 1)) {} s1" by auto
    have k: "akind (F i) \<noteq> KUnused" "anlink (F i) \<noteq> 0" "x \<notin> {}" using x(1) by (simp_all add: live_def)
    from lock_again [OF x(4,3) k(3,1)] obtain s2 where
      2: "ref_lock sb x s1 = Some s2" "rests sb F (R(i := R i + 2)) {x} s2" "handle s2 x i" "is_initialized (inode_of x s2)" "stays {x} s1 s2" by auto
    have k2: "kept R s s2" using kept_then [OF 1(2) stays_kept [OF 2(5)]] by blast
    note is_dir = dir_rests(1) [OF 2(2-4)]
    show ?thesis
    proof (cases "akind (F i) = KDirectory")
      case True
      from leave_both [OF 2(2,3) k(2)] obtain s3 s4 where
        3: "guard_drop sb x s2 = Some s3" "ref_drop sb x s3 = Some s4" "rests sb F R {} s4" "kept R s2 s4" by auto
      have "link_body sb cwd new old s = Some (Err (), s4)" using 1(1) x(2) 2(1) is_dir True 3 by (simp add: link_body_def)
      then show ?thesis using kept_then [OF k2 3(4)] 3(3) Some True by (auto simp: link_outcome_def)
    next
      case False
      let ?F = "F(i := (F i)\<lparr>anlink := anlink (F i) + 1\<rparr>)"
      from modify_rests [OF 2(2-4) attributes_link(1)] k(1) obtain s3 where
        3: "modify_update sb x increment_link s2 = Some s3" "rests sb ?F (R(i := R i + 2)) {x} s3" "handle s3 x i" "stays {x} s2 s3" by auto
      from guard_drop_again [OF 3(2,3)] obtain s4 where
        4: "guard_drop sb x s3 = Some s4" "rests sb ?F (R(i := R i + 1)) {} s4" "stays {} s3 s4" by auto
      have k4: "kept R s s4" "handle s4 x i" using kept_then [OF k2 stays_kept [OF stays_trans [OF 3(4) 4(3) subset_refl]]] staysD(1) [OF 4(3) 3(3)] by blast+
      have "link_body sb cwd new old s = link_new sb cwd new x ROOTDEV i s4"
        using 1(1) x(2) 2(1) is_dir False 3(1) 4(1) file_rests(3,4) [OF 2(2-4)] by (simp add: link_body_def Let_def)
      then show ?thesis
        using link_new_rests [OF rd(3) x(1) False few [OF Some] 4(2) k4(2) room cwd_ok_kept [OF cwd k4(1) rd(2)], of new] kept_then [OF k4(1)] Some False
        unfolding link_outcome_def by auto
    qed
  qed
qed

text \<open>The tree stays in order.\<close>

lemma link_outcome_tree:
  assumes ready: "fs_ready sb F R s" and room: "room R 2" and cwd: "cwd_ok sb F s cwd w"
    and few: "\<And>i. resolve_path F w old = Some i \<Longrightarrow> anlink (F i) + 1 \<noteq> 0" and out: "link_outcome F w new old r F'"
  shows "tree_inv sb F'"
proof -
  note rd = fs_readyD [OF ready]
  have i: "live sb F i" if "resolve_path F w old = Some i" for i using search_inode_ok [OF rd(1) room cwd, of old] that by auto
  have d: "dir_live sb F dir" if "resolve_parent_path F w new = Some (dir, name)" for dir name
    using search_parent_ok [OF rd(1) room cwd, of new] that by (auto simp: dir_live_def)
  show ?thesis using out link_tree_inv [OF rd(3) i _ rd(4) [OF i] few d] rd(3) by (auto simp: link_outcome_def split: option.splits if_splits)
qed

end
