(* ===== verification/Fs_Unlink.thy ===== *)
theory Fs_Unlink
  imports Fs_Link
begin

text \<open>
  \<open>unlink\<close> on the abstract tree. The file is freed when its last name and its last reference are gone.
\<close>

subsection \<open>Names\<close>

lemma dirent_is_dot:
  assumes "0 \<notin> set name" "name \<noteq> []"
  shows "dirent_is (dirent_new k DOT) name \<Longrightarrow> name = DOT" "dirent_is (dirent_new k DOTDOT) name \<Longrightarrow> name = DOT \<or> name = DOTDOT"
proof -
  have n: "d_name (dirent_new k DOT) = 46 # replicate 13 0" "d_name (dirent_new k DOTDOT) = 46 # 46 # replicate 12 0"
    by (simp_all add: dirent_new_def DOT_def DOTDOT_def NAME_LENGTH_def overwrite_def Let_def)
  obtain a as where a: "name = a # as" using assms(2) by (cases name) auto
  show "name = DOT" if "dirent_is (dirent_new k DOT) name"
    using that assms(1) n(1) unfolding a by (cases as) (auto simp: dirent_is_def DOT_def NAME_LENGTH_def Let_def)
  show "name = DOT \<or> name = DOTDOT" if d: "dirent_is (dirent_new k DOTDOT) name"
  proof (cases as)
    case Nil
    then show ?thesis using d n(2) a by (simp add: dirent_is_def DOT_def NAME_LENGTH_def Let_def)
  next
    case (Cons b bs)
    then show ?thesis using d n(2) a assms(1) by (cases bs) (auto simp: dirent_is_def DOTDOT_def NAME_LENGTH_def Let_def)
  qed
qed

lemma split_path_set: "e \<in> set (split_path path) \<Longrightarrow> set e \<subseteq> set path"
proof (induction path arbitrary: e)
  case (Cons c cs)
  show ?case
  proof (cases "split_path cs")
    case Nil
    then show ?thesis using Cons.prems by (auto split: if_splits)
  next
    case (Cons f fs)
    then have "set f \<subseteq> set cs" "\<And>g. g \<in> set fs \<Longrightarrow> set g \<subseteq> set cs" using Cons.IH by simp_all
    then show ?thesis using Cons.prems Cons by (auto split: if_splits)
  qed
qed simp

lemma resolve_parent_name: "resolve_parent F es i = Some (k, name) \<Longrightarrow> name \<in> set es \<and> name \<noteq> []"
  by (induction es arbitrary: i) (auto split: option.splits if_splits)

lemma resolve_parent_path_name: "resolve_parent_path F w path = Some (k, name) \<Longrightarrow> 0 \<notin> set path \<Longrightarrow> 0 \<notin> set name \<and> name \<noteq> []"
  using resolve_parent_name [of F "split_path path" _ k name] split_path_set [of name path]
  by (cases "path_start w path") (auto simp: resolve_parent_path_def)

text \<open>A name that \<open>unlink\<close> accepts is that of an entry after the first two.\<close>

lemma plain_entry:
  assumes inv: "tree_inv sb F" and dir: "dir_live sb F dir" and find: "dir_find name (F dir) = Some off"
    and name: "0 \<notin> set name" "name \<noteq> []" "name \<noteq> DOT" "name \<noteq> DOTDOT"
  shows "off \<noteq> 0" "off \<noteq> DIRENT_SIZE" "off \<in> set (entry_offsets (F dir))" "dslots (F dir) off = dirent_inode_number (entry_at (F dir) off)"
    "dirent_inode_number (entry_at (F dir) off) \<noteq> dir" "live sb F (dirent_inode_number (entry_at (F dir) off))"
proof -
  note t = tree_invD [OF inv]
  from find_SomeD [OF find [unfolded dir_find_def]] have f: "off \<in> set (entry_offsets (F dir))" "in_use_entry (entry_at (F dir) off)" "dirent_is (entry_at (F dir) off) name" by simp_all
  have "entry_at (F dir) 0 = dirent_new dir DOT" "entry_at (F dir) DIRENT_SIZE = dirent_new (dslots (F dir) DIRENT_SIZE) DOTDOT"
    using t(3) [OF dir] by (simp_all add: dots_ok_def)
  then show 1: "off \<noteq> 0" "off \<noteq> DIRENT_SIZE" using f(3) dirent_is_dot [OF name(1,2)] name(3,4) by metis+
  show "off \<in> set (entry_offsets (F dir))" using f(1) .
  show 2: "dslots (F dir) off = dirent_inode_number (entry_at (F dir) off)" using f(1) by (simp add: dslots_def)
  show "live sb F (dirent_inode_number (entry_at (F dir) off))" using dir_find_live [OF t(1) _ _ find] dir by (simp add: dir_live_def)
  show "dirent_inode_number (entry_at (F dir) off) \<noteq> dir"
  proof
    assume "dirent_inode_number (entry_at (F dir) off) = dir"
    then have "(dir, off) \<in> entries_of sb F dir" using 1 2 dir by (simp add: entries_of_def names_def)
    then show False using t(4) [OF dir] by (auto simp: place_ok_def split: if_splits)
  qed
qed

subsection \<open>Freeing a file\<close>

lemma tree_inv_cong:
  assumes inv: "tree_inv sb F" and l: "\<And>q. live sb F' q = live sb F q" and f: "\<And>q. live sb F q \<Longrightarrow> F' q = F q"
  shows "tree_inv sb F'"
proof -
  have d: "dir_live sb F' q = dir_live sb F q" for q using l f by (auto simp: dir_live_def)
  have s: "dslots (F' q) = dslots (F q)" if "dir_live sb F q" for q using f that by (simp add: dir_live_def)
  have n: "names sb F' k = names sb F k" for k using s by (auto simp: names_def d)
  have "tree_ok sb F'" using tree_invD(1) [OF inv] f by (auto simp: tree_ok_slots d l dir_live_def)
  moreover have "dots_ok (F' q) q \<and> place_ok sb F' q" if q: "dir_live sb F q" for q
  proof -
    have "F' q = F q" "entries_of sb F' q = entries_of sb F q" "dir_parent F' q = dir_parent F q" using f q s [OF q] by (simp_all add: dir_live_def entries_of_def n dir_parent_def)
    then show ?thesis using tree_invD(3,4) [OF inv q] by (simp only: place_ok_def)
  qed
  moreover have "unat (anlink (F' q)) = card (names sb F' q)" if "live sb F q" for q using tree_invD(5) [OF inv that] f that n by simp
  ultimately show ?thesis using tree_invD(2) [OF inv] by (simp add: tree_inv_def d l)
qed

definition reclaim :: "(nat \<Rightarrow> afile) \<Rightarrow> (nat \<Rightarrow> nat) \<Rightarrow> nat \<Rightarrow> nat \<Rightarrow> afile" where
  "reclaim F R i = (if R i = 0 \<and> anlink (F i) = 0 then F(i := freed (F i)) else F)"

lemma reclaim_tree_inv:
  assumes "tree_inv sb F"
  shows "tree_inv sb (reclaim F R i)"
  by (rule tree_inv_cong [OF assms]) (auto simp: reclaim_def live_def freed_def)

lemma ref_drop_reclaim:
  assumes r: "rests sb F (R(i := R i + 1)) H s" and h: "handle s j i" and j: "j \<notin> H" and init: "is_initialized (inode_of j s)"
  shows "\<exists>s'. ref_drop sb j s = Some s' \<and> rests sb (reclaim F R i) R H s' \<and> kept R s s'"
proof -
  note inv = restsD(1) [OF r]
  note hd = handleD [OF inv h]
  have n: "refs s = R(i := R i + 1)" "held_set s = H" "files sb s i = F i" using restsD(2-4) [OF r] hd(2) by simp_all
  have eq: "(refs s)(i := refs s i - 1) = R" using n(1) by auto
  have "refs s i = 1 \<Longrightarrow> j \<notin> held_set s" using j n(2) by simp
  from release_spec [OF inv h this, unfolded eq n(2)] obtain s' where
    s': "ref_drop sb j s = Some s'" "change sb (if refs s i = 1 then {j} else {}) s R H (dropped sb j i s) s'" by (auto simp: ref_drop_def)
  have "dropped sb j i s q = reclaim F R i q" if "q \<in> inums sb" for q
    using restsD(4) [OF r that] n init by (auto simp: dropped_def reclaim_def)
  then have "rests sb (reclaim F R i) R H s'" using change_rests [OF s'(2)] by blast
  moreover have "kept R s s'"
  proof (rule change_kept [OF s'(2)])
    fix x m assume x: "x \<in> (if refs s i = 1 then {j} else {})" "handle s x m" "R m \<noteq> 0"
    then have "m = i" "refs s i = 1" using handle_inum [OF h] by (auto split: if_splits)
    then show "handle s' x m" using n(1) x(3) by simp
  qed
  ultimately show ?thesis using s'(1) by blast
qed

subsection \<open>Unlink\<close>

lemma is_empty_rests:
  assumes r: "rests sb F R H s" and h: "handle s j i" and init: "is_initialized (inode_of j s)" and al: "akind (F i) = KDirectory \<Longrightarrow> entries_aligned (F i)"
  shows "on_inode j (is_empty sb) s = Some (if akind (F i) = KDirectory then Some (dir_empty (F i)) else None, s)"
proof -
  note fr = file_rests [OF r h init]
  have "is_directory (inode_of j s) \<Longrightarrow> entries_aligned (file_view (inode_of j s) (dview s))" using al fr(2) dir_rests(1) [OF assms(1-3)] by simp
  from is_empty_spec [OF fr(1) this] show ?thesis using fr(2) dir_rests(1) [OF assms(1-3)] by (simp add: on_inode_def set_same)
qed

text \<open>Both inodes are locked and the entry goes.\<close>

lemma unlink_remove:
  assumes r: "rests sb F ((R(dir := R dir + 2))(i := (R(dir := R dir + 2)) i + 2)) {x, y} s" and h: "handle s y dir" "handle s x i"
    and init: "is_initialized (inode_of y s)" "is_initialized (inode_of x s)" and ne: "i \<noteq> dir" "x \<noteq> y"
    and dir: "akind (F dir) = KDirectory" "entries_aligned (F dir)" "off \<in> set (entry_offsets (F dir))" and k: "akind (F i) \<noteq> KUnused"
    and pos: "anlink (unlink_files F i dir off dir) \<noteq> 0"
  shows "\<exists>s1 s2 s3 s4 s5 s6 s'. on_inode y (inode_write sb (encode_dirent dirent_unused) off) s = Some (Ok (), s1) \<and>
    (if is_directory (inode_of x s1) then modify_update sb y decrement_link s1 else Some s1) = Some s2 \<and> guard_drop sb y s2 = Some s3 \<and>
    modify_update sb x decrement_link s3 = Some s4 \<and> guard_drop sb x s4 = Some s5 \<and> ref_drop sb x s5 = Some s6 \<and> ref_drop sb y s6 = Some s' \<and>
    rests sb (reclaim (unlink_files F i dir off) R i) R {} s' \<and> kept R s s'"
proof -
  let ?Q = "R(dir := R dir + 2)" and ?R = "R(dir := R dir + 1)" and ?f = "put_entry off dirent_unused (F dir)"
  let ?g = "if akind (F i) = KDirectory then ?f\<lparr>anlink := anlink ?f - 1\<rparr> else ?f"
  let ?G = "F(dir := ?g)"
  from clear_rests [OF r h(1) init(1) dir] obtain s1 where
    1: "on_inode y (inode_write sb (encode_dirent dirent_unused) off) s = Some (Ok (), s1)" "handle s1 y dir" "is_initialized (inode_of y s1)"
      "stays {y} s s1" "rests sb (F(dir := ?f)) (?Q(i := ?Q i + 2)) {x, y} s1" by blast
  have x1: "handle s1 x i" "inode_of x s1 = inode_of x s" using staysD [OF 1(4) h(2)] ne(2) by simp_all
  have x1d: "is_directory (inode_of x s1) \<longleftrightarrow> akind (F i) = KDirectory" using dir_rests(1) [OF 1(5) x1(1)] x1(2) init(2) ne(1) by simp
  have "\<exists>s2. (if is_directory (inode_of x s1) then modify_update sb y decrement_link s1 else Some s1) = Some s2 \<and>
    rests sb ?G (?Q(i := ?Q i + 2)) {x, y} s2 \<and> handle s2 y dir \<and> stays {y} s1 s2"
  proof (cases "akind (F i) = KDirectory")
    case True
    from modify_rests [OF 1(5,2,3) attributes_link(2)] dir(1) show ?thesis using x1d True by auto
  qed (use 1(2,5) x1d in simp)
  then obtain s2 where 2: "(if is_directory (inode_of x s1) then modify_update sb y decrement_link s1 else Some s1) = Some s2"
    "rests sb ?G (?Q(i := ?Q i + 2)) {x, y} s2" "handle s2 y dir" "stays {y} s1 s2" by blast
  let ?P = "R(i := R i + 2)"
  have eq: "?Q(i := ?Q i + 2) = ?P(dir := ?P dir + 2)" "?P(dir := ?P dir + 1) = ?R(i := ?R i + 2)" "{x, y} - {y} = {x}" using ne by auto
  from guard_drop_again [OF 2(2) [unfolded eq(1)] 2(3), unfolded eq(2,3)] obtain s3 where
    3: "guard_drop sb y s2 = Some s3" "rests sb ?G (?R(i := ?R i + 2)) {x} s3" "stays {} s2 s3" by blast
  have st: "stays {y} s s3" using stays_trans [OF 1(4) stays_trans [OF 2(4) 3(3) subset_refl]] by simp
  have x3: "handle s3 x i" "is_initialized (inode_of x s3)" "handle s3 y dir" using staysD(1) [OF st] staysD(2) [OF st h(2)] h init(2) ne(2) by simp_all
  have gi: "?G(i := (?G i)\<lparr>anlink := anlink (?G i) - 1\<rparr>) = unlink_files F i dir off" using ne(1) by (auto simp: unlink_files_def Let_def)
  from modify_rests [OF 3(2) x3(1,2) attributes_link(2), unfolded gi] k ne(1) obtain s4 where
    4: "modify_update sb x decrement_link s3 = Some s4" "rests sb (unlink_files F i dir off) (?R(i := ?R i + 2)) {x} s4" "handle s4 x i"
      "is_initialized (inode_of x s4)" "stays {x} s3 s4" by auto
  from guard_drop_again [OF 4(2,3)] obtain s5 where
    5: "guard_drop sb x s4 = Some s5" "rests sb (unlink_files F i dir off) (?R(i := ?R i + 1)) {} s5" "stays {} s4 s5" by auto
  have x5: "handle s5 x i" "is_initialized (inode_of x s5)" "handle s5 y dir" using staysD(1) [OF 5(3)] staysD(2) [OF 5(3) 4(3)] 4(3,4) staysD(1) [OF 4(5) x3(3)] by auto
  from ref_drop_reclaim [OF 5(2) x5(1) _ x5(2)] obtain s6 where
    6: "ref_drop sb x s5 = Some s6" "rests sb (reclaim (unlink_files F i dir off) ?R i) ?R {} s6" "kept ?R s5 s6" by auto
  have rc: "reclaim (unlink_files F i dir off) ?R i = reclaim (unlink_files F i dir off) R i" "anlink (reclaim (unlink_files F i dir off) R i dir) \<noteq> 0"
    using ne(1) pos by (simp_all add: reclaim_def)
  have h6: "handle s6 y dir" using keptD [OF 6(3) x5(3)] by simp
  from ref_drop_kept [OF 6(2) [unfolded rc(1)] h6 _ rc(2)] obtain s7 where
    7: "ref_drop sb y s6 = Some s7" "rests sb (reclaim (unlink_files F i dir off) R i) R {} s7" "kept R s6 s7" by auto
  have "kept R s s5" using stays_kept [OF stays_trans [OF st stays_trans [OF 4(5) 5(3) subset_refl] subset_refl]] .
  moreover have "kept R s5 s6" using 6(3) by (auto simp: kept_def)
  ultimately have "kept R s s7" using kept_then [OF kept_then 7(3)] by blast
  then show ?thesis using 1(1) 2(1) 3(1) 4(1) 5(1) 6(1) 7(1,2) by blast
qed

lemma unlink_tree_inv:
  assumes inv: "tree_inv sb F" and i: "akind (F i) = KDirectory \<Longrightarrow> dir_empty (F i)" and dir: "dir_live sb F dir"
    and off: "dslots (F dir) off = i" "i \<noteq> 0" "off \<noteq> 0" "off \<noteq> DIRENT_SIZE"
  shows "tree_inv sb (unlink_files F i dir off)"
  using unlink_file_tree_inv [OF inv _ dir off] unlink_dir_tree_inv [OF inv _ i dir off] by blast

lemma unlink_parent_live:
  assumes root: "tree_inv sb F" "i \<noteq> dir" "akind (F i) = KDirectory \<Longrightarrow> dir_empty (F i)"
    and dir: "dir_live sb F dir" and off: "dslots (F dir) off = i" "i \<noteq> 0" "off \<noteq> 0" "off \<noteq> DIRENT_SIZE"
  shows "anlink (unlink_files F i dir off dir) \<noteq> 0"
proof (cases "akind (F i) = KDirectory")
  case True
  have li: "dir_live sb F i" using True tree_invD(1) [OF root(1)] dir off by (auto simp: tree_ok_slots dir_live_def)
  have "(dir, off) \<in> names sb F i" using dir off by (simp add: names_def)
  note em = empty_dir [OF root(1) li root(3) [OF True] this off(4)]
  obtain p where p: "p \<in> names sb F dir" "p \<noteq> (i, DIRENT_SIZE)" using dir_has_name [OF root(1) dir] em(4) by (metis fst_conv snd_conv)
  have "(i, DIRENT_SIZE) \<in> names sb F dir" using li em(2) by (auto simp: names_def dir_parent_def DIRENT_SIZE_def)
  then have "{p, (i, DIRENT_SIZE)} \<subseteq> names sb F dir" using p by simp
  moreover have d0: "dir \<noteq> 0" "live sb F dir" using dir live_nonzero by (auto simp: dir_live_def)
  ultimately have "card {p, (i, DIRENT_SIZE)} \<le> card (names sb F dir)" using finite_names by (intro card_mono) auto
  then have "2 \<le> unat (anlink (F dir))" using p(2) tree_invD(5) [OF root(1) d0(2)] by simp
  then have "anlink (F dir) \<noteq> 1" by auto
  then show ?thesis using True root(2) by (simp add: unlink_files_def Let_def)
next
  case False
  then show ?thesis using dir root(2) by (simp add: unlink_files_def dir_live_def live_def Let_def)
qed

lemma unlink_entry_rests:
  assumes r: "rests sb F ((R(dir := R dir + 2))(i := (R(dir := R dir + 2)) i + 1)) {y} s" and h: "handle s y dir" "handle s x i"
    and init: "is_initialized (inode_of y s)" and ne: "i \<noteq> dir" and inv: "tree_inv sb F" and dir: "dir_live sb F dir"
    and off: "dslots (F dir) off = i" "i \<noteq> 0" "off \<noteq> 0" "off \<noteq> DIRENT_SIZE"
  shows "\<exists>q s'. unlink_entry sb y x off s = Some (q, s') \<and> kept R s s' \<and>
    (if akind (F i) = KDirectory \<and> \<not> dir_empty (F i) then q = Err () \<and> rests sb F R {} s'
     else q = Ok () \<and> rests sb (reclaim (unlink_files F i dir off) R i) R {} s')"
proof -
  let ?Q = "R(dir := R dir + 2)"
  have li: "live sb F i" "entries_aligned (F dir)" using tree_invD(1) [OF inv] dir off by (auto simp: tree_ok_slots)
  have al: "entries_aligned (F i)" if "akind (F i) = KDirectory" using that tree_invD(1) [OF inv] li(1) by (auto simp: tree_ok_slots dir_live_def)
  have k: "akind (F i) \<noteq> KUnused" "anlink (F i) \<noteq> 0" "akind (F dir) = KDirectory" "anlink (F dir) \<noteq> 0" using li dir by (auto simp: live_def dir_live_def)
  have xy: "x \<notin> {y}" "x \<noteq> y" using handle_inum [OF h(2)] h(1) ne by auto
  from lock_again [OF r h(2) xy(1) k(1)] obtain s1 where
    1: "ref_lock sb x s = Some s1" "rests sb F (?Q(i := ?Q i + 2)) {x, y} s1" "handle s1 x i" "is_initialized (inode_of x s1)" "stays {x} s s1" by blast
  have y1: "handle s1 y dir" "is_initialized (inode_of y s1)" using staysD(1) [OF 1(5) h(1)] staysD(2) [OF 1(5) h(1)] init xy(2) by auto
  have cnt: "count_of_link (inode_of x s1) > 0" using dir_rests(4) [OF 1(2-4)] k(2) by (simp add: unat_gt_0)
  note e = is_empty_rests [OF 1(2-4) al]
  have k1: "kept R s s1" using stays_kept [OF 1(5)] .
  show ?thesis
  proof (cases "akind (F i) = KDirectory \<and> \<not> dir_empty (F i)")
    case True
    have eq: "{x, y} - {x} = {y}" "{y} - {y} = {}" using xy(2) by auto
    from leave_both [OF 1(2,3) k(2), unfolded eq(1)] obtain s2 s3 where
      2: "guard_drop sb x s1 = Some s2" "ref_drop sb x s2 = Some s3" "rests sb F ?Q {y} s3" "kept ?Q s1 s3" by blast
    have "handle s3 y dir" using keptD [OF 2(4) y1(1)] by simp
    from leave_both [OF 2(3) this k(4), unfolded eq(2)] obtain s4 s5 where
      3: "guard_drop sb y s3 = Some s4" "ref_drop sb y s4 = Some s5" "rests sb F R {} s5" "kept R s3 s5" by blast
    have "kept R s1 s3" using 2(4) by (auto simp: kept_def)
    then have "kept R s s5" using kept_then [OF kept_then [OF k1] 3(4)] by blast
    moreover have "unlink_entry sb y x off s = Some (Err (), s5)" using 1(1) cnt e True 2(1,2) 3(1,2) by (simp add: unlink_entry_def)
    ultimately show ?thesis using True 3(3) by simp
  next
    case False
    then have em: "akind (F i) = KDirectory \<Longrightarrow> dir_empty (F i)" by blast
    have "off \<in> set (entry_offsets (F dir))" using off(1,2) by (auto simp: dslots_def split: if_splits)
    from unlink_remove [OF 1(2) y1(1) 1(3) y1(2) 1(4) ne xy(2) k(3) li(2) this k(1) unlink_parent_live [OF inv ne em dir off]] obtain s2 s3 s4 s5 s6 s7 s' where
      2: "on_inode y (inode_write sb (encode_dirent dirent_unused) off) s1 = Some (Ok (), s2)"
        "(if is_directory (inode_of x s2) then modify_update sb y decrement_link s2 else Some s2) = Some s3" "guard_drop sb y s3 = Some s4"
        "modify_update sb x decrement_link s4 = Some s5" "guard_drop sb x s5 = Some s6" "ref_drop sb x s6 = Some s7" "ref_drop sb y s7 = Some s'"
        "rests sb (reclaim (unlink_files F i dir off) R i) R {} s'" "kept R s1 s'" by blast
    have ne': "(if akind (F i) = KDirectory then Some (dir_empty (F i)) else None) \<noteq> Some False" using em by simp
    have "unlink_entry sb y x off s = Some (Ok (), s')" using 1(1) cnt e ne' 2(1-7) by (simp add: unlink_entry_def)
    then show ?thesis using False 2(8) kept_then [OF k1 2(9)] by auto
  qed
qed

text \<open>What \<open>unlink\<close> promises.\<close>

definition unlink_outcome :: "(nat \<Rightarrow> afile) \<Rightarrow> (nat \<Rightarrow> nat) \<Rightarrow> nat option \<Rightarrow> u8 list \<Rightarrow> (unit, unit) result \<Rightarrow> (nat \<Rightarrow> afile) \<Rightarrow> bool" where
  "unlink_outcome F R w path r F' \<longleftrightarrow> (case resolve_parent_path F w path of None \<Rightarrow> r = Err () \<and> F' = F | Some (dir, name) \<Rightarrow>
     if name = DOT \<or> name = DOTDOT then r = Err () \<and> F' = F
     else case dir_find name (F dir) of None \<Rightarrow> r = Err () \<and> F' = F | Some off \<Rightarrow>
       let i = dirent_inode_number (entry_at (F dir) off) in
       if akind (F i) = KDirectory \<and> \<not> dir_empty (F i) then r = Err () \<and> F' = F
       else r = Ok () \<and> F' = reclaim (unlink_files F i dir off) R i)"

lemma unlink_body_rests:
  assumes ready: "fs_ready sb F R s" and room: "room R 2" and cwd: "cwd_ok sb F s cwd w" and path: "0 \<notin> set path"
  shows "\<exists>r s' F'. unlink_body sb cwd path s = Some (r, s') \<and> unlink_outcome F R w path r F' \<and> rests sb F' R {} s' \<and> kept R s s'"
proof -
  note rd = fs_readyD [OF ready]
  from search_parent_ok [OF rd(1) room cwd, of path] obtain p s1 where
    1: "search_parent_inode sb cwd path s = Some (p, s1)" "kept R s s1"
      "case resolve_parent_path F w path of None \<Rightarrow> p = None \<and> rests sb F R {} s1
       | Some (k, name) \<Rightarrow> live sb F k \<and> akind (F k) = KDirectory \<and> (\<exists>x. p = Some (x, name) \<and> handle s1 x k \<and> rests sb F (R(k := R k + 1)) {} s1)" by blast
  show ?thesis
  proof (cases "resolve_parent_path F w path")
    case None
    then show ?thesis using 1 by (auto simp: unlink_body_def unlink_outcome_def)
  next
    case (Some dn)
    obtain dir name where dn: "dn = (dir, name)" by (cases dn)
    with Some 1(3) obtain y where y: "dir_live sb F dir" "p = Some (y, name)" "handle s1 y dir" "rests sb F (R(dir := R dir + 1)) {} s1" by (auto simp: dir_live_def)
    let ?Q = "R(dir := R dir + 2)"
    have k: "akind (F dir) = KDirectory" "akind (F dir) \<noteq> KUnused" "anlink (F dir) \<noteq> 0" "y \<notin> {}" "entries_aligned (F dir)"
      using y(1) tree_invD(1) [OF rd(3)] by (auto simp: dir_live_def live_def tree_ok_def)
    have nm: "0 \<notin> set name" "name \<noteq> []" using resolve_parent_path_name [OF Some [unfolded dn] path] by simp_all
    from lock_again [OF y(4,3) k(4,2)] obtain s2 where
      2: "ref_lock sb y s1 = Some s2" "rests sb F ?Q {y} s2" "handle s2 y dir" "is_initialized (inode_of y s2)" "stays {y} s1 s2" by auto
    have k2: "kept R s s2" using kept_then [OF 1(2) stays_kept [OF 2(5)]] by blast
    from leave_both [OF 2(2,3) k(3)] obtain s3 s4 where 3: "guard_drop sb y s2 = Some s3" "ref_drop sb y s3 = Some s4" "rests sb F R {} s4" "kept R s2 s4" by auto
    have k4: "kept R s s4" using kept_then [OF k2 3(4)] by blast
    have tgt: "\<forall>off. dir_find name (F dir) = Some off \<longrightarrow> dirent_inode_number (entry_at (F dir) off) \<in> inums sb"
      using dir_find_live [OF tree_invD(1) [OF rd(3)]] y(1) by (auto simp: dir_live_def live_def)
    have room1: "room ?Q 1" by (rule room_less [OF room]) simp
    note look = lookup_stays [OF 2(2-4) room1 k(1,5) tgt]
    show ?thesis
    proof (cases "name = DOT \<or> name = DOTDOT \<or> dir_find name (F dir) = None")
      case True
      then show ?thesis using 1(1) y(2) 2(1) 3(1-3) k4 look(1) Some dn by (auto simp: unlink_body_def unlink_outcome_def)
    next
      case False
      then obtain off where off: "name \<noteq> DOT" "name \<noteq> DOTDOT" "dir_find name (F dir) = Some off" by blast
      let ?i = "dirent_inode_number (entry_at (F dir) off)"
      note pe = plain_entry [OF rd(3) y(1) off(3) nm off(1,2)]
      from look(2) [OF off(3) refl] obtain x s5 where
        5: "lookup sb name y s2 = Some (Some (x, off), s5)" "rests sb F (?Q(?i := ?Q ?i + 1)) {y} s5" "handle s5 x ?i" "stays {} s2 s5" by blast
      have y5: "handle s5 y dir" "is_initialized (inode_of y s5)" using staysD(1) [OF 5(4) 2(3)] staysD(2) [OF 5(4) 2(3)] 2(4) by auto
      have "unlink_body sb cwd path s = unlink_entry sb y x off s5" using 1(1) y(2) 2(1) off 5(1) by (simp add: unlink_body_def)
      moreover have "kept R s s'" if "kept R s5 s'" for s' using kept_then [OF kept_then [OF k2 stays_kept [OF 5(4)]] that] by blast
      ultimately show ?thesis using unlink_entry_rests [OF 5(2) y5(1) 5(3) y5(2) pe(5) rd(3) y(1) pe(4) live_nonzero [OF pe(6)] pe(1,2)] Some dn off
        unfolding unlink_outcome_def by (auto simp: Let_def split: if_splits)
    qed
  qed
qed

lemma unlink_outcome_tree:
  assumes ready: "fs_ready sb F R s" and room: "room R 2" and cwd: "cwd_ok sb F s cwd w" and path: "0 \<notin> set path"
    and out: "unlink_outcome F R w path r F'"
  shows "tree_inv sb F'"
proof (cases "F' = F")
  case True
  then show ?thesis using fs_readyD(3) [OF ready] by simp
next
  case False
  then obtain dir name off where p: "resolve_parent_path F w path = Some (dir, name)" "name \<noteq> DOT" "name \<noteq> DOTDOT" "dir_find name (F dir) = Some off"
    using out by (auto simp: unlink_outcome_def split: option.splits if_splits)
  let ?i = "dirent_inode_number (entry_at (F dir) off)"
  have r: "akind (F ?i) = KDirectory \<Longrightarrow> dir_empty (F ?i)" "F' = reclaim (unlink_files F ?i dir off) R ?i"
    using out p False by (auto simp: unlink_outcome_def Let_def split: if_splits)
  have d: "dir_live sb F dir" using search_parent_ok [OF fs_readyD(1) [OF ready] room cwd, of path] p(1) by (auto simp: dir_live_def)
  have nm: "0 \<notin> set name" "name \<noteq> []" using resolve_parent_path_name [OF p(1) path] by simp_all
  note pe = plain_entry [OF fs_readyD(3) [OF ready] d p(4) nm p(2,3)]
  show ?thesis unfolding r(2) by (rule reclaim_tree_inv [OF unlink_tree_inv [OF fs_readyD(3) [OF ready] r(1) d pe(4) live_nonzero [OF pe(6)] pe(1,2)]])
qed

end
