(* ===== verification/Fs_Create.thy ===== *)
theory Fs_Create
  imports Fs_Unlink
begin

text \<open>
  \<open>create\<close> on the abstract tree: it returns the locked inode of a file that exists, or a new one with its entry in the
  directory, and gives back everything else.
\<close>

subsection \<open>A free inode\<close>

definition with_kind :: "inode_kind \<Rightarrow> cinode \<Rightarrow> cinode" where
  "with_kind k ip = ip\<lparr>inode := (inode ip)\<lparr>kind := k\<rparr>\<rparr>"

lemma allocate_inode_in_eq:
  assumes "disk_ok d" "\<forall>i\<in>set l. inode_at sb i d \<noteq> None"
  shows "allocate_inode_in sb k l d = (case find (\<lambda>i. kind (the (inode_at sb i d)) = KUnused) l of
    None \<Rightarrow> Some (Err (), d) | Some i \<Rightarrow> map_option (Pair (Ok i)) (update sb (with_kind k (disk_cinode sb i d)) d))"
  using assms(2)
proof (induction l)
  case (Cons i l)
  then obtain di where di: "inode_at sb i d = Some di" by auto
  then show ?case using Cons assms(1) by (simp add: inode_at_def inode_block_at_def update_def with_kind_def disk_cinode_def Let_def)
qed simp

lemma alloc_rests:
  assumes r: "rests sb F R H s" and k: "k \<noteq> KUnused"
  shows "\<exists>q d'. allocate_inode sb k (dview s) = Some (q, d') \<and>
    (case q of Err _ \<Rightarrow> d' = dview s
     | Ok i \<Rightarrow> i \<in> inums sb \<and> akind (F i) = KUnused \<and> abytes (F i) = [] \<and> rests sb (F(i := (F i)\<lparr>akind := k\<rparr>)) R H (s\<lparr>dview := d'\<rparr>) \<and> stays {} s (s\<lparr>dview := d'\<rparr>))"
proof -
  note inv = restsD(1) [OF r]
  note di = disk_invD [OF fs_invD(4) [OF inv]]
  let ?d = "dview s" and ?l = "[1..<unat (ninodes sb)]"
  have l: "set ?l = inums sb" by (auto simp: inums_def)
  have ok: "disk_ok ?d" using di(6) by (simp add: alloc_ok_def)
  note run = allocate_inode_in_eq [OF ok, of ?l sb k, unfolded l, folded allocate_inode_def]
  show ?thesis
  proof (cases "find (\<lambda>i. kind (the (inode_at sb i ?d)) = KUnused) ?l")
    case None
    then show ?thesis using run di(2) by simp
  next
    case (Some i)
    have "i \<in> set ?l \<and> kind (the (inode_at sb i ?d)) = KUnused" using find_SomeD [OF Some] by blast
    then have i: "i \<in> inums sb" "kind (inode (disk_cinode sb i ?d)) = KUnused" unfolding l by (simp_all add: disk_cinode_def)
    have kv: "kind (inode (view sb s i)) = KUnused" using di(3) [OF i(1)] i(2) by (simp add: behind_def extends_def)
    have no: "cached_at s i = None"
    proof (rule ccontr)
      assume "cached_at s i \<noteq> None"
      then obtain j where j: "handle s j i" "is_initialized (inode_of j s)" using cached_at_Some by blast
      then show False using handleD(7) [OF inv j] view_handle [OF inv j] kv by simp
    qed
    then have vi: "view sb s i = disk_cinode sb i ?d" by (simp add: view_def)
    let ?ip = "with_kind k (disk_cinode sb i ?d)"
    have num: "inode_number (disk_cinode sb i ?d) < unat (ninodes sb)" using i(1) by (simp add: disk_cinode_def inums_def)
    from update_step [OF di(1) [OF i(1), unfolded vi] num, of ?ip] obtain d' where
      u: "update sb ?ip ?d = Some d'" "file_step sb (disk_cinode sb i ?d) ?d ?ip d'" "abytes (file_view ?ip d') = abytes (file_view (disk_cinode sb i ?d) ?d)"
        "inode_at sb i d' = Some (inode ?ip)" by (auto simp: with_kind_def disk_cinode_def)
    let ?s = "s\<lparr>dview := d'\<rparr>"
    have ip: "disk_cinode sb i d' = ?ip" using u(4) by (simp add: disk_cinode_def with_kind_def)
    have same: "cached_at ?s q = cached_at s q" "inode_of x ?s = inode_of x s" "handle ?s x q = handle s x q" "refs ?s = refs s" "held_set ?s = held_set s" for q x
      by (simp_all add: cached_at_def inode_of_def handle_def refs_def held_set_def held_by_def fun_eq_iff)
    have v: "view sb ?s q = ((view sb s)(i := ?ip)) q" if "q \<in> inums sb" for q
    proof (cases "q = i")
      case True
      then show ?thesis using no ip same(1) by (simp add: view_def)
    next
      case False
      have "inode_at sb q d' = inode_at sb q ?d" using file_stepD(8) [OF u(2), of q] that False by (simp add: inums_def disk_cinode_def)
      then show ?thesis using False same(1,2) by (simp add: view_def disk_cinode_def split: option.split)
    qed
    have kn: "kind (inode ?ip) \<noteq> KUnused" using k by (simp add: with_kind_def)
    have "inode_number (view sb s i) = i" using view_number [OF inv] by simp
    moreover have "file_step sb (view sb s i) ?d ?ip d'" using u(2) vi by simp
    ultimately have st: "disk_inv sb ((view sb s)(i := ?ip)) d'" "\<And>j. j \<in> inums sb \<Longrightarrow> j \<noteq> i \<Longrightarrow> file_view (view sb s j) d' = file_view (view sb s j) ?d"
      using disk_inv_step [OF fs_invD(4) [OF inv] i(1)] kn by blast+
    have "disk_inv sb (view sb ?s) d'" using st(1) disk_inv_cong [of sb "view sb ?s" "(view sb s)(i := ?ip)"] v by blast
    moreover have f: "icache ?s = icache s" "islots ?s = islots s" by simp_all
    have "slots_ok sb ?s" using fs_invD(3) [OF inv] unfolding slots_ok_def inode_of_def held_by_def f .
    ultimately have inv': "fs_inv sb ?s" by (simp add: fs_inv_def)
    have Fi: "F i = file_view (disk_cinode sb i ?d) ?d" using restsD(4) [OF r i(1)] vi by (simp add: files_def)
    have "file_view ?ip d' = (F i)\<lparr>akind := k\<rparr>" using u(3) by (intro afile.equality) (simp_all add: Fi with_kind_def)
    then have "files sb ?s q = (F(i := (F i)\<lparr>akind := k\<rparr>)) q" if "q \<in> inums sb" for q
      using v [OF that] st(2) [of q] that kn restsD(4) [OF r that] by (auto simp: files_def)
    then have "rests sb (F(i := (F i)\<lparr>akind := k\<rparr>)) R H ?s" using inv' restsD(2,3) [OF r] same(4,5) by (simp add: rests_def)
    moreover have "file_size (disk_cinode sb i ?d) = 0" using fs_invD(7) [OF inv i(1) kv] vi by simp
    then have "abytes (F i) = []" using file_view_sel(3) [of "disk_cinode sb i ?d" ?d] unfolding Fi by (simp only: length_0_conv)
    moreover have "akind (F i) = KUnused" using i(2) Fi by simp
    moreover have "allocate_inode sb k ?d = Some (Ok i, d')" using run Some u(1) di(2) by simp
    ultimately show ?thesis using i(1) same(2,3) by (simp add: stays_def)
  qed
qed

subsection \<open>The entries of a new file\<close>

lemma dir_find_nil: "abytes f = [] \<Longrightarrow> dir_find name f = None"
  by (simp add: dir_find_def entry_offsets_def step_range_def DIRENT_SIZE_def)

lemma dots_rests:
  assumes r: "rests sb (F(i := f)) Q H s" and h: "handle s x i" and init: "is_initialized (inode_of x s)" and room: "room Q 1"
    and f: "akind f = KDirectory" "abytes f = []" and i: "i < 65536" "i \<noteq> 0"
  shows "\<exists>q s1. dir_link sb DOT i x s = Some (q, s1) \<and>
    (if q = Ok () then \<exists>q' s'. dir_link sb DOTDOT dir x s1 = Some (q', s') \<and> handle s' x i \<and> is_initialized (inode_of x s') \<and> stays {x} s s' \<and>
       (if q' = Ok () then rests sb (F(i := add_entry (dirent_new dir DOTDOT) (add_entry (dirent_new i DOT) f))) Q H s'
        else \<exists>g. akind g = KDirectory \<and> rests sb (F(i := g)) Q H s')
     else handle s1 x i \<and> is_initialized (inode_of x s1) \<and> stays {x} s s1 \<and> rests sb (F(i := f)) Q H s1)"
proof -
  let ?g = "add_entry (dirent_new i DOT) f" and ?e = "dirent_new i DOT"
  have al: "entries_aligned f" using f(2) by (simp add: entries_aligned_def)
  have e: "in_use_entry ?e" using inum_new [OF i(1)] i(2) by (simp add: in_use_entry_def)
  have al': "entries_aligned ?g" by (rule dslots_add [OF al length_dirent_new e])
  have "\<not> dirent_is ?e DOTDOT" by (simp add: dirent_is_def dirent_new_def DOT_def DOTDOT_def NAME_LENGTH_def overwrite_def Let_def)
  then have none: "dir_find DOT f = None" "dir_find DOTDOT ?g = None" using dir_find_nil [OF f(2)] dir_find_add(1) [OF al length_dirent_new e] by simp_all
  from dir_link_rests [OF r h init room, of DOT i] f(1) al none(1) obtain q s1 where
    1: "dir_link sb DOT i x s = Some (q, s1)" "handle s1 x i" "is_initialized (inode_of x s1)" "stays {x} s s1"
      "q = Ok () \<and> rests sb (F(i := ?g)) Q H s1 \<or> q = Err () \<and> rests sb (F(i := f)) Q H s1" by auto
  show ?thesis
  proof (cases q)
    case (Ok u)
    then have r1: "rests sb (F(i := ?g)) Q H s1" using 1(5) by simp
    from dir_link_rests [OF r1 1(2,3) room, of DOTDOT dir] f(1) al' none(2) obtain q' s2 where
      2: "dir_link sb DOTDOT dir x s1 = Some (q', s2)" "handle s2 x i" "is_initialized (inode_of x s2)" "stays {x} s1 s2"
        "q' = Ok () \<and> rests sb (F(i := add_entry (dirent_new dir DOTDOT) ?g)) Q H s2 \<or> q' = Err () \<and> rests sb (F(i := ?g)) Q H s2" by auto
    have st: "stays {x} s s2" using stays_trans [OF 1(4) 2(4)] by simp
    have "if q' = Ok () then rests sb (F(i := add_entry (dirent_new dir DOTDOT) ?g)) Q H s2 else \<exists>g. akind g = KDirectory \<and> rests sb (F(i := g)) Q H s2"
      using 2(5) f(1) by (cases q') (auto intro: exI [of _ ?g])
    then show ?thesis using 1(1) 2(1-3) st Ok by auto
  next
    case (Err u)
    then show ?thesis using 1 by auto
  qed
qed

lemma create_links_rests:
  assumes r: "rests sb (F(i := f)) Q {x, y} s" and h: "handle s x i" "handle s y dir" and init: "is_initialized (inode_of x s)" "is_initialized (inode_of y s)"
    and room: "room Q 1" and f: "f = \<lparr>akind = k, amajor = mj, aminor = mn, anlink = 1, abytes = []\<rparr>" and i: "i < 65536" "i \<noteq> 0"
    and ne: "i \<noteq> dir" "x \<noteq> y" and dir: "akind (F dir) = KDirectory" "entries_aligned (F dir)" "dir_find name (F dir) = None"
  shows "\<exists>ok s'. create_links sb k name y x s = Some (ok, s') \<and> handle s' x i \<and> handle s' y dir \<and> is_initialized (inode_of x s') \<and>
    is_initialized (inode_of y s') \<and> stays {x, y} s s' \<and>
    (if ok then rests sb (F(i := new_file k mj mn i dir, dir := add_entry (dirent_new i name) (F dir))) Q {x, y} s'
     else \<exists>g. akind g = k \<and> rests sb (F(i := g)) Q {x, y} s')"
proof -
  have num: "inode_number (inode_of x s) = i" "inode_number (inode_of y s) = dir" using file_rests(3) [OF r] h init by simp_all
  let ?dots = "if k = KDirectory then do {
          let this = inode_number (inode_of x s);
          let parent = inode_number (inode_of y s);
          (r, s) \<leftarrow> dir_link sb DOT this x s;
          if \<not> is_ok r then Some (False, s)
          else do { (r, s) \<leftarrow> dir_link sb DOTDOT parent x s; Some (is_ok r, s) } }
        else Some (True, s)"
  have "\<exists>ok s1. ?dots = Some (ok, s1) \<and> handle s1 x i \<and> is_initialized (inode_of x s1) \<and> stays {x} s s1 \<and>
    (if ok then rests sb (F(i := new_file k mj mn i dir)) Q {x, y} s1 else \<exists>g. akind g = k \<and> rests sb (F(i := g)) Q {x, y} s1)"
  proof (cases "k = KDirectory")
    case True
    then have "akind f = KDirectory" "abytes f = []" using f by simp_all
    from dots_rests [OF r h(1) init(1) room this i, of dir] obtain q s1 where
      1: "dir_link sb DOT i x s = Some (q, s1)"
        "if q = Ok () then \<exists>q' s'. dir_link sb DOTDOT dir x s1 = Some (q', s') \<and> handle s' x i \<and> is_initialized (inode_of x s') \<and> stays {x} s s' \<and>
           (if q' = Ok () then rests sb (F(i := add_entry (dirent_new dir DOTDOT) (add_entry (dirent_new i DOT) f))) Q {x, y} s'
            else \<exists>g. akind g = KDirectory \<and> rests sb (F(i := g)) Q {x, y} s')
         else handle s1 x i \<and> is_initialized (inode_of x s1) \<and> stays {x} s s1 \<and> rests sb (F(i := f)) Q {x, y} s1" by blast
    have nf: "add_entry (dirent_new dir DOTDOT) (add_entry (dirent_new i DOT) f) = new_file k mj mn i dir" using True f by (simp add: new_file_def Let_def)
    show ?thesis
    proof (cases q)
      case (Ok u)
      then have t: "(q = Ok ()) = True" by simp
      from 1(2) [unfolded nf t if_True] obtain q' s2 where "dir_link sb DOTDOT dir x s1 = Some (q', s2)" "handle s2 x i" "is_initialized (inode_of x s2)" "stays {x} s s2"
        "if q' = Ok () then rests sb (F(i := new_file k mj mn i dir)) Q {x, y} s2 else \<exists>g. akind g = KDirectory \<and> rests sb (F(i := g)) Q {x, y} s2" by blast
      then show ?thesis using 1(1) True num Ok by (cases q') auto
    next
      case (Err u)
      then show ?thesis using 1 True num f by auto
    qed
  next
    case False
    then show ?thesis using r h(1) init(1) f by (intro exI [of _ True] exI [of _ s]) (simp add: new_file_def Let_def)
  qed
  then obtain ok s1 where 1: "?dots = Some (ok, s1)" "handle s1 x i" "is_initialized (inode_of x s1)" "stays {x} s s1"
    "if ok then rests sb (F(i := new_file k mj mn i dir)) Q {x, y} s1 else \<exists>g. akind g = k \<and> rests sb (F(i := g)) Q {x, y} s1" by blast
  have y1: "handle s1 y dir" "is_initialized (inode_of y s1)" using staysD(1) [OF 1(4) h(2)] staysD(2) [OF 1(4) h(2)] init(2) ne(2) by auto
  show ?thesis
  proof (cases ok)
    case False
    then have "create_links sb k name y x s = Some (False, s1)" unfolding create_links_def 1(1) by simp
    then show ?thesis using False 1(2,3,5) y1 stays_trans [OF 1(4) stays_refl [of "{y}"]] by auto
  next
    case True
    let ?F = "F(i := new_file k mj mn i dir)"
    have r1: "rests sb ?F Q {x, y} s1" using True 1(5) by simp
    have d: "akind (?F dir) = KDirectory" "entries_aligned (?F dir)" "dir_find name (?F dir) = None" using dir ne(1) by simp_all
    have t: "\<forall>off. dir_find name (?F dir) = Some off \<longrightarrow> live sb ?F (dirent_inode_number (entry_at (?F dir) off))" using d(3) by simp
    from dir_link_rests [OF r1 y1 room d(1,2) t, of i] obtain q s2 where
      2: "dir_link sb name i y s1 = Some (q, s2)" "handle s2 y dir" "is_initialized (inode_of y s2)" "stays {y} s1 s2"
        "q = Ok () \<and> rests sb (?F(dir := add_entry (dirent_new i name) (?F dir))) Q {x, y} s2 \<or> q = Err () \<and> rests sb ?F Q {x, y} s2" by blast
    have x2: "handle s2 x i" "is_initialized (inode_of x s2)" using staysD(1) [OF 2(4) 1(2)] staysD(2) [OF 2(4) 1(2)] 1(3) ne(2) by auto
    have "inode_number (inode_of x s1) = i" using file_rests(3) [OF r1 1(2,3)] .
    then have "create_links sb k name y x s = Some (is_ok q, s2)" unfolding create_links_def 1(1) using True 2(1) by simp
    moreover have "stays {x, y} s s2" using stays_trans [OF 1(4) 2(4)] by simp
    moreover have "if is_ok q then rests sb (F(i := new_file k mj mn i dir, dir := add_entry (dirent_new i name) (F dir))) Q {x, y} s2
      else \<exists>g. akind g = k \<and> rests sb (F(i := g)) Q {x, y} s2" using 2(5) ne(1) by (cases q) (auto intro: exI [of _ "new_file k mj mn i dir"])
    ultimately show ?thesis using 2(2,3) x2 by blast
  qed
qed

subsection \<open>Creating\<close>

lemma get_rests:
  assumes r: "rests sb F R H s" and i: "i \<in> inums sb" and room: "room R 1"
  shows "\<exists>x s'. icache_get ROOTDEV i s = Some (Some x, s') \<and> rests sb F (R(i := R i + 1)) H s' \<and> handle s' x i \<and> stays {} s s'"
proof -
  note inv = restsD(1) [OF r]
  have "\<not> full s" using not_full [OF inv] room restsD(2) [OF r] by (simp add: room_def)
  then obtain x s' where s': "icache_get ROOTDEV i s = Some (Some x, s')" "change sb {} s (R(i := R i + 1)) H (files sb s) s'" "handle s' x i"
    using get_spec [OF inv i] restsD(2,3) [OF r] by auto
  have "stays {} s s'" using changeD(5,6) [OF s'(2)] by (simp add: stays_def)
  then show ?thesis using s'(1,3) change_rests [OF s'(2) restsD(4) [OF r]] by blast
qed

text \<open>The two ends of \<open>create\<close>: the new inode is given up, or it is returned locked.\<close>

lemma create_fails:
  assumes r: "rests sb (F(i := g)) ((R(dir := R dir + 2))(i := (R(dir := R dir + 2)) i + 2)) {x, y} s" and h: "handle s x i" "handle s y dir"
    and init: "is_initialized (inode_of x s)" and ne: "i \<noteq> dir" "x \<noteq> y" and k: "akind g \<noteq> KUnused" "anlink (F dir) \<noteq> 0"
  shows "\<exists>s1 s2 s3 s' g'. create_bad sb x s = Some s1 \<and> ref_drop sb x s1 = Some s2 \<and> guard_drop sb y s2 = Some s3 \<and> ref_drop sb y s3 = Some s' \<and>
    rests sb (F(i := g')) R {} s' \<and> anlink g' = 0 \<and> kept R s s'"
proof -
  let ?Q = "R(dir := R dir + 2)" and ?g = "g\<lparr>anlink := 0\<rparr>"
  from modify_rests [OF r h(1) init attributes_link(3) [of 0]] k(1) obtain s1 where
    1: "modify_update sb x (set_nlink 0) s = Some s1" "rests sb (F(i := ?g)) (?Q(i := ?Q i + 2)) {x, y} s1" "handle s1 x i" "is_initialized (inode_of x s1)" "stays {x} s s1" by auto
  have eq: "{x, y} - {x} = {y}" "{y} - {y} = {}" using ne(2) by auto
  from guard_drop_again [OF 1(2,3), unfolded eq(1)] obtain s2 where
    2: "guard_drop sb x s1 = Some s2" "rests sb (F(i := ?g)) (?Q(i := ?Q i + 1)) {y} s2" "stays {} s1 s2" by blast
  have x2: "handle s2 x i" "is_initialized (inode_of x s2)" "x \<notin> {y}" using staysD(1) [OF 2(3) 1(3)] staysD(2) [OF 2(3) 1(3)] 1(4) ne(2) by auto
  from ref_drop_reclaim [OF 2(2) x2(1,3,2)] obtain s3 where
    3: "ref_drop sb x s2 = Some s3" "rests sb (reclaim (F(i := ?g)) ?Q i) ?Q {y} s3" "kept ?Q s2 s3" by blast
  obtain g' where g': "reclaim (F(i := ?g)) ?Q i = F(i := g')" "anlink g' = 0" by (cases "?Q i = 0") (auto simp: reclaim_def freed_def)
  have st: "stays {x} s s2" using stays_trans [OF 1(5) 2(3)] by simp
  have h3: "handle s3 y dir" using keptD [OF 3(3) staysD(1) [OF st h(2)]] by simp
  have "anlink ((F(i := g')) dir) \<noteq> 0" using k(2) ne(1) by simp
  from leave_both [OF 3(2) [unfolded g'(1)] h3 this, unfolded eq(2)] obtain s4 s5 where
    4: "guard_drop sb y s3 = Some s4" "ref_drop sb y s4 = Some s5" "rests sb (F(i := g')) R {} s5" "kept R s3 s5" by blast
  have "kept R s2 s3" using 3(3) by (auto simp: kept_def)
  then have "kept R s s5" using kept_then [OF kept_then [OF stays_kept [OF st]] 4(4)] by blast
  moreover have "create_bad sb x s = Some s2" using 1(1) 2(1) by (simp add: create_bad_def)
  ultimately show ?thesis using 3(1) 4(1-3) g'(2) by blast
qed

lemma create_succeeds:
  assumes r: "rests sb (F(i := new_file k mj mn i dir, dir := add_entry (dirent_new i name) (F dir)))
      ((R(dir := R dir + 2))(i := (R(dir := R dir + 2)) i + 2)) {x, y} s" and h: "handle s x i" "handle s y dir"
    and init: "is_initialized (inode_of x s)" "is_initialized (inode_of y s)" and ne: "i \<noteq> dir" "x \<noteq> y"
    and dir: "dir_live sb F dir" "k = KDirectory \<longrightarrow> anlink (F dir) + 1 \<noteq> 0"
  shows "\<exists>s1 s2 s3 s'. (if k = KDirectory then modify_update sb y increment_link s else Some s) = Some s1 \<and> ref_drop sb x s1 = Some s2 \<and>
    guard_drop sb y s2 = Some s3 \<and> ref_drop sb y s3 = Some s' \<and>
    rests sb (create_files F k mj mn name i dir) (R(i := R i + 1)) {x} s' \<and> handle s' x i \<and> kept R s s'"
proof -
  let ?Q = "R(dir := R dir + 2)" and ?P = "R(i := R i + 1)" and ?F = "create_files F k mj mn name i dir"
  let ?G = "F(i := new_file k mj mn i dir, dir := add_entry (dirent_new i name) (F dir))"
  have d: "akind (F dir) \<noteq> KUnused" "anlink (F dir) \<noteq> 0" using dir(1) by (simp_all add: dir_live_def live_def)
  have "\<exists>s1. (if k = KDirectory then modify_update sb y increment_link s else Some s) = Some s1 \<and> rests sb ?F (?Q(i := ?Q i + 2)) {x, y} s1 \<and> stays {y} s s1"
  proof (cases "k = KDirectory")
    case True
    have "?G(dir := (?G dir)\<lparr>anlink := anlink (?G dir) + 1\<rparr>) = ?F" using True by (simp add: create_files_def Let_def)
    then show ?thesis using modify_rests [OF r h(2) init(2) attributes_link(1)] d(1) True by auto
  next
    case False
    then have "?G = ?F" by (simp add: create_files_def Let_def)
    then show ?thesis using False r by auto
  qed
  then obtain s1 where 1: "(if k = KDirectory then modify_update sb y increment_link s else Some s) = Some s1" "rests sb ?F (?Q(i := ?Q i + 2)) {x, y} s1" "stays {y} s s1" by blast
  have eq: "(?Q(i := ?Q i + 2))(i := (?Q(i := ?Q i + 2)) i - 1) = ?P(dir := ?P dir + 2)" "2 \<le> (?Q(i := ?Q i + 2)) i" "{x, y} - {y} = {x}" using ne by auto
  from ref_drop_stays [OF 1(2) staysD(1) [OF 1(3) h(1)] eq(2), unfolded eq(1)] obtain s2 where
    2: "ref_drop sb x s1 = Some s2" "rests sb ?F (?P(dir := ?P dir + 2)) {x, y} s2" "stays {} s1 s2" by blast
  have st: "stays {y} s s2" using stays_trans [OF 1(3) 2(3)] by simp
  have "anlink (?F dir) \<noteq> 0" using d(2) dir(2) ne(1) by (simp add: create_files_def Let_def)
  from leave_both [OF 2(2) staysD(1) [OF st h(2)] this, unfolded eq(3)] obtain s3 s4 where
    3: "guard_drop sb y s2 = Some s3" "ref_drop sb y s3 = Some s4" "rests sb ?F ?P {x} s4" "kept ?P s2 s4" by blast
  have "handle s4 x i" using keptD [OF 3(4) staysD(1) [OF st h(1)]] by simp
  moreover have "kept R s2 s4" using 3(4) by (auto simp: kept_def)
  then have "kept R s s4" using kept_then [OF stays_kept [OF st]] by blast
  ultimately show ?thesis using 1(1) 2(1) 3(1-3) by blast
qed

lemma create_new_rests:
  assumes r: "rests sb F (R(dir := R dir + 2)) {y} s" and h: "handle s y dir" and init: "is_initialized (inode_of y s)" and inv: "tree_inv sb F"
    and dir: "dir_live sb F dir" "dir_find name (F dir) = None" "k = KDirectory \<longrightarrow> anlink (F dir) + 1 \<noteq> 0" and small: "unat (ninodes sb) \<le> 65536"
    and room: "room R 3" and k: "k \<noteq> KUnused"
  shows "\<exists>q s'. create_new sb k mj mn name y s = Some (q, s') \<and> kept R s s' \<and>
    (case q of
       Err _ \<Rightarrow> rests sb F R {} s' \<or> (\<exists>i g. i \<in> inums sb \<and> akind (F i) = KUnused \<and> anlink g = 0 \<and> rests sb (F(i := g)) R {} s')
     | Ok x \<Rightarrow> (\<exists>i. i \<in> inums sb \<and> akind (F i) = KUnused \<and> handle s' x i \<and> rests sb (create_files F k mj mn name i dir) (R(i := R i + 1)) {x} s'))"
proof -
  let ?Q = "R(dir := R dir + 2)"
  have d: "akind (F dir) = KDirectory" "akind (F dir) \<noteq> KUnused" "anlink (F dir) \<noteq> 0" "entries_aligned (F dir)"
    using dir(1) tree_invD(1) [OF inv] by (auto simp: dir_live_def live_def tree_ok_slots)
  from alloc_rests [OF r k] obtain q d' where
    1: "allocate_inode sb k (dview s) = Some (q, d')"
      "case q of Err _ \<Rightarrow> d' = dview s | Ok i \<Rightarrow> i \<in> inums sb \<and> akind (F i) = KUnused \<and> abytes (F i) = [] \<and>
         rests sb (F(i := (F i)\<lparr>akind := k\<rparr>)) ?Q {y} (s\<lparr>dview := d'\<rparr>) \<and> stays {} s (s\<lparr>dview := d'\<rparr>)" by blast
  show ?thesis
  proof (cases q)
    case (Err u)
    then have "s\<lparr>dview := d'\<rparr> = s" using 1(2) by simp
    moreover from leave_both [OF r h d(3)] obtain s3 s4 where "guard_drop sb y s = Some s3" "ref_drop sb y s3 = Some s4" "rests sb F R {} s4" "kept R s s4" by auto
    ultimately show ?thesis using 1(1) Err by (auto simp: create_new_def Let_def)
  next
    case (Ok i)
    let ?s = "s\<lparr>dview := d'\<rparr>" and ?f = "\<lparr>akind = k, amajor = mj, aminor = mn, anlink = 1, abytes = []\<rparr>"
    have i: "i \<in> inums sb" "akind (F i) = KUnused" "abytes (F i) = []" "rests sb (F(i := (F i)\<lparr>akind := k\<rparr>)) ?Q {y} ?s" "stays {} s ?s" using Ok 1(2) by simp_all
    have ne: "i \<noteq> dir" "i \<noteq> 0" "i < 65536" using i(1,2) d(2) small by (auto simp: inums_def)
    have room1: "room ?Q 1" "room (?Q(i := ?Q i + 2)) 1" by (rule room_less [OF room]; simp) (rule room_less [OF room_less [OF room, of 2]]; simp)
    from get_rests [OF i(4,1) room1(1)] obtain x s1 where
      2: "icache_get ROOTDEV i ?s = Some (Some x, s1)" "rests sb (F(i := (F i)\<lparr>akind := k\<rparr>)) (?Q(i := ?Q i + 1)) {y} s1" "handle s1 x i" "stays {} ?s s1" by blast
    have y1: "stays {} s s1" "handle s1 y dir" "is_initialized (inode_of y s1)"
      using stays_trans [OF i(5) 2(4) subset_refl] staysD [OF stays_trans [OF i(5) 2(4) subset_refl] h] init by auto
    have xy: "x \<notin> {y}" "x \<noteq> y" using handle_inum [OF 2(3)] y1(2) ne(1) by auto
    from lock_again [OF 2(2,3) xy(1)] k obtain s2 where
      3: "ref_lock sb x s1 = Some s2" "rests sb (F(i := (F i)\<lparr>akind := k\<rparr>)) (?Q(i := ?Q i + 2)) {x, y} s2" "handle s2 x i" "is_initialized (inode_of x s2)" "stays {x} s1 s2" by auto
    have ff: "(F(i := (F i)\<lparr>akind := k\<rparr>))(i := ((F(i := (F i)\<lparr>akind := k\<rparr>)) i)\<lparr>amajor := mj, aminor := mn, anlink := 1\<rparr>) = F(i := ?f)"
      using i(3) by (auto intro!: afile.equality)
    let ?set = "\<lambda>ip. ip\<lparr>inode := (inode ip)\<lparr>major := mj, minor := mn, nlink := 1\<rparr>\<rparr>"
    have kk: "akind (((F(i := (F i)\<lparr>akind := k\<rparr>)) i)\<lparr>amajor := mj, aminor := mn, anlink := 1\<rparr>) \<noteq> KUnused" using k by simp
    from modify_rests [OF 3(2-4) attributes_link(4) [where mj = mj and mn = mn and n = 1] kk, unfolded ff] obtain s3 where
      4: "modify_update sb x ?set s2 = Some s3" "rests sb (F(i := ?f)) (?Q(i := ?Q i + 2)) {x, y} s3" "handle s3 x i" "is_initialized (inode_of x s3)" "stays {x} s2 s3" by blast
    have st3: "stays {x} s s3" using stays_trans [OF y1(1) stays_trans [OF 3(5) 4(5) subset_refl]] by simp
    have y3: "handle s3 y dir" "is_initialized (inode_of y s3)" using staysD(1) [OF st3 h] staysD(2) [OF st3 h] init xy(2) by auto
    from create_links_rests [OF 4(2,3) y3(1) 4(4) y3(2) room1(2) refl ne(3,2,1) xy(2) d(1,4) dir(2)] obtain ok s4 where
      5: "create_links sb k name y x s3 = Some (ok, s4)" "handle s4 x i" "handle s4 y dir" "is_initialized (inode_of x s4)" "is_initialized (inode_of y s4)" "stays {x, y} s3 s4"
        "if ok then rests sb (F(i := new_file k mj mn i dir, dir := add_entry (dirent_new i name) (F dir))) (?Q(i := ?Q i + 2)) {x, y} s4
         else \<exists>g. akind g = k \<and> rests sb (F(i := g)) (?Q(i := ?Q i + 2)) {x, y} s4" by blast
    have k4: "kept R s s4" using stays_kept [OF stays_trans [OF st3 5(6) subset_refl]] .
    have dev: "device (inode_of y ?s) = ROOTDEV" using file_rests(4) [OF r h init] by (simp add: inode_of_def)
    note run = 1(1) Ok dev 2(1) 3(1) 4(1) 5(1)
    show ?thesis
    proof (cases ok)
      case True
      then have rr: "rests sb (F(i := new_file k mj mn i dir, dir := add_entry (dirent_new i name) (F dir))) (?Q(i := ?Q i + 2)) {x, y} s4" using 5(7) by (simp only: if_True)
      from create_succeeds [OF rr 5(2-5) ne(1) xy(2) dir(1,3)] obtain s5 s6 s7 s' where
        "(if k = KDirectory then modify_update sb y increment_link s4 else Some s4) = Some s5" "ref_drop sb x s5 = Some s6" "guard_drop sb y s6 = Some s7" "ref_drop sb y s7 = Some s'"
        "rests sb (create_files F k mj mn name i dir) (R(i := R i + 1)) {x} s'" "handle s' x i" "kept R s4 s'" by blast
      then show ?thesis using run True i(1,2) kept_then [OF k4] by (auto simp: create_new_def Let_def)
    next
      case False
      then obtain g where g: "akind g \<noteq> KUnused" "rests sb (F(i := g)) (?Q(i := ?Q i + 2)) {x, y} s4" using 5(7) k by auto
      from create_fails [OF g(2) 5(2-4) ne(1) xy(2) g(1) d(3)] obtain s5 s6 s7 s' g' where
        6: "create_bad sb x s4 = Some s5" "ref_drop sb x s5 = Some s6" "guard_drop sb y s6 = Some s7" "ref_drop sb y s7 = Some s'"
          "rests sb (F(i := g')) R {} s'" "anlink g' = 0" "kept R s4 s'" by blast
      have "create_new sb k mj mn name y s = Some (Err (), s')" using run False 6(1-4) by (simp add: create_new_def Let_def)
      then show ?thesis using kept_then [OF k4 6(7)] i(1,2) 6(5,6) by auto
    qed
  qed
qed

text \<open>The path names a file that exists.\<close>

lemma create_found_rests:
  assumes r: "rests sb F ((R(dir := R dir + 2))(i := (R(dir := R dir + 2)) i + 1)) {y} s" and h: "handle s y dir" "handle s x i"
    and live: "live sb F dir" "live sb F i"
  shows "\<exists>s1 s2. guard_drop sb y s = Some s1 \<and> ref_lock sb x s1 = Some s2 \<and> is_file (inode_of x s2) = (akind (F i) = KFile) \<and>
    is_device (inode_of x s2) = (akind (F i) = KDevice) \<and>
    (\<exists>s3 s'. ref_drop sb x s2 = Some s3 \<and> ref_drop sb y s3 = Some s' \<and> rests sb F (R(i := R i + 1)) {x} s' \<and> handle s' x i \<and> kept R s s') \<and>
    (\<exists>s3 s4 s'. guard_drop sb x s2 = Some s3 \<and> ref_drop sb x s3 = Some s4 \<and> ref_drop sb y s4 = Some s' \<and> rests sb F R {} s' \<and> kept R s s')"
proof -
  let ?P = "R(i := R i + 1)" and ?S = "R(dir := R dir + 1)"
  have eq: "(R(dir := R dir + 2))(i := (R(dir := R dir + 2)) i + 1) = ?P(dir := ?P dir + 2)" "?P(dir := ?P dir + 1) = ?S(i := ?S i + 1)"
    "(?S(i := ?S i + 2))(i := (?S(i := ?S i + 2)) i - 1) = ?P(dir := ?P dir + 1)" "2 \<le> (?S(i := ?S i + 2)) i" "{y} - {y} = {}" by auto
  have k: "akind (F i) \<noteq> KUnused" "anlink (F i) \<noteq> 0" "anlink (F dir) \<noteq> 0" "x \<notin> {}" "y \<notin> {}" using live by (simp_all add: live_def)
  from guard_drop_again [OF r [unfolded eq(1)] h(1), unfolded eq(2,5)] obtain s1 where
    1: "guard_drop sb y s = Some s1" "rests sb F (?S(i := ?S i + 1)) {} s1" "stays {} s s1" by blast
  from lock_again [OF 1(2) staysD(1) [OF 1(3) h(2)] k(4,1)] obtain s2 where
    2: "ref_lock sb x s1 = Some s2" "rests sb F (?S(i := ?S i + 2)) {x} s2" "handle s2 x i" "is_initialized (inode_of x s2)" "stays {x} s1 s2" by auto
  have st: "stays {x} s s2" using stays_trans [OF 1(3) 2(5)] by simp
  have "\<exists>s3 s'. ref_drop sb x s2 = Some s3 \<and> ref_drop sb y s3 = Some s' \<and> rests sb F ?P {x} s' \<and> handle s' x i \<and> kept R s s'"
  proof -
    from ref_drop_stays [OF 2(2,3) eq(4), unfolded eq(3)] obtain s3 where
      3: "ref_drop sb x s2 = Some s3" "rests sb F (?P(dir := ?P dir + 1)) {x} s3" "stays {} s2 s3" by blast
    have st3: "stays {x} s s3" using stays_trans [OF st 3(3)] by simp
    have y3: "handle s3 y dir" "handle s3 x i" using staysD(1) [OF st3] h by blast+
    have e: "(?P(dir := ?P dir + 1))(dir := (?P(dir := ?P dir + 1)) dir - 1) = ?P" by auto
    have "2 \<le> (?P(dir := ?P dir + 1)) dir \<or> y \<notin> {x} \<and> anlink (F dir) \<noteq> 0" using handle_inum [OF y3(1)] y3(2) k(3) by (cases "i = dir") auto
    from ref_drop_rests [OF 3(2) y3(1) this, unfolded e] obtain s4 where
      4: "ref_drop sb y s3 = Some s4" "rests sb F ?P {x} s4"
        "\<forall>z m. handle s3 z m \<and> ((?P(dir := ?P dir + 1)) dir = 1 \<longrightarrow> m \<noteq> dir) \<longrightarrow> handle s4 z m \<and> inode_of z s4 = inode_of z s3" by blast
    have p: "(?P(dir := ?P dir + 1)) dir = 1 \<longrightarrow> m \<noteq> dir" if "?P m \<noteq> 0" for m using that by (auto split: if_splits)
    then have "kept ?P s3 s4" unfolding kept_def using 4(3) by blast
    then have "kept R s3 s4" "handle s4 x i" using keptD [of ?P s3 s4 x i] y3(2) by (auto simp: kept_def)
    then show ?thesis using 3(1) 4(1,2) kept_then [OF stays_kept [OF st3]] by blast
  qed
  moreover have "\<exists>s3 s4 s'. guard_drop sb x s2 = Some s3 \<and> ref_drop sb x s3 = Some s4 \<and> ref_drop sb y s4 = Some s' \<and> rests sb F R {} s' \<and> kept R s s'"
  proof -
    from leave_both [OF 2(2,3) k(2)] obtain s3 s4 where
      3: "guard_drop sb x s2 = Some s3" "ref_drop sb x s3 = Some s4" "rests sb F ?S {} s4" "kept ?S s2 s4" by auto
    have "handle s4 y dir" using keptD [OF 3(4) staysD(1) [OF st h(1)]] by simp
    from ref_drop_kept [OF 3(3) this k(5,3)] obtain s5 where 4: "ref_drop sb y s4 = Some s5" "rests sb F R {} s5" "kept R s4 s5" by blast
    have "kept R s2 s4" using 3(4) by (auto simp: kept_def)
    then have "kept R s s5" using kept_then [OF kept_then [OF stays_kept [OF st]] 4(3)] by blast
    then show ?thesis using 3(1,2) 4(1,2) by blast
  qed
  ultimately show ?thesis using 1(1) 2(1) dir_rests(2,3) [OF 2(2-4)] by blast
qed

text \<open>What \<open>create\<close> promises; \<open>r\<close> has the number of the inode that is returned.\<close>

definition create_outcome :: "superblock \<Rightarrow> (nat \<Rightarrow> afile) \<Rightarrow> nat option \<Rightarrow> u8 list \<Rightarrow> inode_kind \<Rightarrow> u16 \<Rightarrow> u16 \<Rightarrow> nat option \<Rightarrow> (nat \<Rightarrow> afile) \<Rightarrow> bool" where
  "create_outcome sb F w path k mj mn r F' \<longleftrightarrow> (case resolve_parent_path F w path of None \<Rightarrow> r = None \<and> F' = F | Some (dir, name) \<Rightarrow>
     (case dir_find name (F dir) of
        Some off \<Rightarrow> let i = dirent_inode_number (entry_at (F dir) off) in
          F' = F \<and> r = (if k = KFile \<and> (akind (F i) = KFile \<or> akind (F i) = KDevice) then Some i else None)
      | None \<Rightarrow> (case r of
          Some i \<Rightarrow> i \<in> inums sb \<and> akind (F i) = KUnused \<and> F' = create_files F k mj mn name i dir
        | None \<Rightarrow> F' = F \<or> (\<exists>i g. i \<in> inums sb \<and> akind (F i) = KUnused \<and> anlink g = 0 \<and> F' = F(i := g)))))"

lemma create_rests:
  assumes ready: "fs_ready sb F R s" and room: "room R 3" and cwd: "cwd_ok sb F s cwd w" and k: "k \<noteq> KUnused"
    and few: "\<forall>dir name. resolve_parent_path F w path = Some (dir, name) \<longrightarrow> k = KDirectory \<longrightarrow> anlink (F dir) + 1 \<noteq> 0"
  shows "\<exists>q s' F'. create sb cwd path k mj mn s = Some (q, s') \<and> kept R s s' \<and>
    (case q of Err _ \<Rightarrow> create_outcome sb F w path k mj mn None F' \<and> rests sb F' R {} s'
     | Ok x \<Rightarrow> (\<exists>i. handle s' x i \<and> create_outcome sb F w path k mj mn (Some i) F' \<and> rests sb F' (R(i := R i + 1)) {x} s'))"
proof -
  note rd = fs_readyD [OF ready]
  have room2: "room R 2" using room by (simp add: room_def)
  from search_parent_ok [OF rd(1) room2 cwd, of path] obtain p s1 where
    1: "search_parent_inode sb cwd path s = Some (p, s1)" "kept R s s1"
      "case resolve_parent_path F w path of None \<Rightarrow> p = None \<and> rests sb F R {} s1
       | Some (k, name) \<Rightarrow> live sb F k \<and> akind (F k) = KDirectory \<and> (\<exists>x. p = Some (x, name) \<and> handle s1 x k \<and> rests sb F (R(k := R k + 1)) {} s1)" by blast
  show ?thesis
  proof (cases "resolve_parent_path F w path")
    case None
    then show ?thesis using 1 by (intro exI [of _ "Err ()"] exI [of _ s1] exI [of _ F]) (simp add: create_def create_outcome_def)
  next
    case (Some dn)
    obtain dir name where dn: "dn = (dir, name)" by (cases dn)
    with Some 1(3) obtain y where y: "dir_live sb F dir" "p = Some (y, name)" "handle s1 y dir" "rests sb F (R(dir := R dir + 1)) {} s1" by (auto simp: dir_live_def)
    let ?Q = "R(dir := R dir + 2)"
    have d: "akind (F dir) = KDirectory" "akind (F dir) \<noteq> KUnused" "live sb F dir" "y \<notin> {}" "entries_aligned (F dir)"
      using y(1) tree_invD(1) [OF rd(3)] by (auto simp: dir_live_def live_def tree_ok_def)
    from lock_again [OF y(4,3) d(4,2)] obtain s2 where
      2: "ref_lock sb y s1 = Some s2" "rests sb F ?Q {y} s2" "handle s2 y dir" "is_initialized (inode_of y s2)" "stays {y} s1 s2" by auto
    have k2: "kept R s s2" using kept_then [OF 1(2) stays_kept [OF 2(5)]] by blast
    have lv: "live sb F (dirent_inode_number (entry_at (F dir) off))" if "dir_find name (F dir) = Some off" for off
      using dir_find_live [OF tree_invD(1) [OF rd(3)] d(3,1) that] .
    then have tgt: "\<forall>off. dir_find name (F dir) = Some off \<longrightarrow> dirent_inode_number (entry_at (F dir) off) \<in> inums sb" by (auto simp: live_def)
    have room1: "room ?Q 1" by (rule room_less [OF room]) simp
    note look = lookup_stays [OF 2(2-4) room1 d(1,5) tgt]
    show ?thesis
    proof (cases "dir_find name (F dir)")
      case n: None
      have small: "unat (ninodes sb) \<le> 65536" using ready by (simp add: fs_ready_def)
      have "k = KDirectory \<longrightarrow> anlink (F dir) + 1 \<noteq> 0" using few Some dn by simp
      from create_new_rests [OF 2(2-4) rd(3) y(1) n this small room k, of mj mn] obtain q s' where
        3: "create_new sb k mj mn name y s2 = Some (q, s')" "kept R s2 s'"
          "case q of Err _ \<Rightarrow> rests sb F R {} s' \<or> (\<exists>i g. i \<in> inums sb \<and> akind (F i) = KUnused \<and> anlink g = 0 \<and> rests sb (F(i := g)) R {} s')
           | Ok x \<Rightarrow> (\<exists>i. i \<in> inums sb \<and> akind (F i) = KUnused \<and> handle s' x i \<and> rests sb (create_files F k mj mn name i dir) (R(i := R i + 1)) {x} s')" by blast
      have run: "create sb cwd path k mj mn s = Some (q, s')" using 1(1) y(2) 2(1) look(1) [OF n] 3(1) by (simp add: create_def)
      have ks: "kept R s s'" using kept_then [OF k2 3(2)] by blast
      have out: "create_outcome sb F w path k mj mn r F' \<longleftrightarrow> (case r of
          Some i \<Rightarrow> i \<in> inums sb \<and> akind (F i) = KUnused \<and> F' = create_files F k mj mn name i dir
        | None \<Rightarrow> F' = F \<or> (\<exists>i g. i \<in> inums sb \<and> akind (F i) = KUnused \<and> anlink g = 0 \<and> F' = F(i := g)))" for r F' using Some dn n by (simp add: create_outcome_def)
      show ?thesis
      proof (cases q)
        case (Err u)
        then have "\<exists>F'. create_outcome sb F w path k mj mn None F' \<and> rests sb F' R {} s'" using 3(3) unfolding out by auto
        then show ?thesis using run ks Err by auto
      next
        case (Ok x)
        then obtain i where "i \<in> inums sb" "akind (F i) = KUnused" "handle s' x i" "rests sb (create_files F k mj mn name i dir) (R(i := R i + 1)) {x} s'" using 3(3) by auto
        then have "handle s' x i \<and> create_outcome sb F w path k mj mn (Some i) (create_files F k mj mn name i dir) \<and> rests sb (create_files F k mj mn name i dir) (R(i := R i + 1)) {x} s'"
          unfolding out by simp
        then show ?thesis using run ks Ok by auto
      qed
    next
      case (Some off)
      let ?i = "dirent_inode_number (entry_at (F dir) off)"
      from look(2) [OF Some refl] obtain x s3 where
        3: "lookup sb name y s2 = Some (Some (x, off), s3)" "rests sb F (?Q(?i := ?Q ?i + 1)) {y} s3" "handle s3 x ?i" "stays {} s2 s3" by blast
      have k3: "kept R s s'" if "kept R s3 s'" for s' using kept_then [OF kept_then [OF k2 stays_kept [OF 3(4)]] that] by blast
      from create_found_rests [OF 3(2) staysD(1) [OF 3(4) 2(3)] 3(3) d(3) lv [OF Some]] obtain s4 s5 where
        4: "guard_drop sb y s3 = Some s4" "ref_lock sb x s4 = Some s5" "is_file (inode_of x s5) = (akind (F ?i) = KFile)" "is_device (inode_of x s5) = (akind (F ?i) = KDevice)"
          "\<exists>s6 s'. ref_drop sb x s5 = Some s6 \<and> ref_drop sb y s6 = Some s' \<and> rests sb F (R(?i := R ?i + 1)) {x} s' \<and> handle s' x ?i \<and> kept R s3 s'"
          "\<exists>s6 s7 s'. guard_drop sb x s5 = Some s6 \<and> ref_drop sb x s6 = Some s7 \<and> ref_drop sb y s7 = Some s' \<and> rests sb F R {} s' \<and> kept R s3 s'" by blast
      have out: "create_outcome sb F w path k mj mn r F \<longleftrightarrow> r = (if k = KFile \<and> (akind (F ?i) = KFile \<or> akind (F ?i) = KDevice) then Some ?i else None)" for r
        using Some dn \<open>resolve_parent_path F w path = Some dn\<close> by (simp add: create_outcome_def Let_def)
      show ?thesis
      proof (cases "k = KFile \<and> (akind (F ?i) = KFile \<or> akind (F ?i) = KDevice)")
        case True
        from 4(5) obtain s6 s' where 5: "ref_drop sb x s5 = Some s6" "ref_drop sb y s6 = Some s'" "rests sb F (R(?i := R ?i + 1)) {x} s'" "handle s' x ?i" "kept R s3 s'" by blast
        have "create sb cwd path k mj mn s = Some (Ok x, s')" using 1(1) y(2) 2(1) 3(1) 4(1-4) True 5(1,2) by (simp add: create_def)
        then show ?thesis using 5(3,4) k3 [OF 5(5)] True out [of "Some ?i"] by (intro exI [of _ "Ok x"] exI [of _ s'] exI [of _ F]) auto
      next
        case False
        from 4(6) obtain s6 s7 s' where 5: "guard_drop sb x s5 = Some s6" "ref_drop sb x s6 = Some s7" "ref_drop sb y s7 = Some s'" "rests sb F R {} s'" "kept R s3 s'" by blast
        have "create sb cwd path k mj mn s = Some (Err (), s')" using 1(1) y(2) 2(1) 3(1) 4(1-4) False 5(1-3) by (auto simp: create_def)
        then show ?thesis using 5(4) k3 [OF 5(5)] False out [of None] by (intro exI [of _ "Err ()"] exI [of _ s'] exI [of _ F]) auto
      qed
    qed
  qed
qed

lemma create_outcome_tree:
  assumes ready: "fs_ready sb F R s" and room: "room R 2" and cwd: "cwd_ok sb F s cwd w" and k: "k \<noteq> KUnused"
    and few: "\<forall>dir name. resolve_parent_path F w path = Some (dir, name) \<longrightarrow> k = KDirectory \<longrightarrow> anlink (F dir) + 1 \<noteq> 0"
    and out: "create_outcome sb F w path k mj mn r F'"
  shows "tree_inv sb F'"
proof -
  note inv = fs_readyD(3) [OF ready]
  have small: "unat (ninodes sb) \<le> 65536" using ready by (simp add: fs_ready_def)
  have d: "dir_live sb F dir" if "resolve_parent_path F w path = Some (dir, name)" for dir name
    using search_parent_ok [OF fs_readyD(1) [OF ready] room cwd, of path] that by (auto simp: dir_live_def)
  have g: "tree_inv sb (F(i := g))" if "akind (F i) = KUnused" "anlink g = 0" for i g
    by (rule tree_inv_cong [OF inv]) (use that in \<open>auto simp: live_def\<close>)
  show ?thesis using out inv g create_tree_inv [OF inv small _ _ d k] few unfolding create_outcome_def
    by (auto simp: Let_def split: option.splits)
qed

end
