(* ===== verification/File_Tree.thy ===== *)
theory File_Tree
  imports Fs_Create Example_Disk
begin

text \<open>
  The theorems about the tree of directories: path resolution, \<open>create\<close>, \<open>link\<close> and \<open>unlink\<close> on every file system whose
  tree is in order, and the example disk as an instance.
\<close>

subsection \<open>The example disk\<close>

definition ex_files :: "nat \<Rightarrow> afile" where
  "ex_files i = file_view (ex_cinode i) ex_disk"

definition ex_fs :: fstate where
  "ex_fs = fstate_new ex_disk"

lemma ex_files_sel [simp]: "akind (ex_files i) = kind (ex_inode i)" "anlink (ex_files i) = nlink (ex_inode i)"
  by (simp_all add: ex_files_def ex_cinode_def)

lemma ex_root_bytes: "abytes (ex_files 1) = ex_entries"
proof (rule nth_equalityI)
  have len: "length (abytes (ex_files 1)) = 48" by (simp add: ex_files_def file_size_def ex_cinode_def ex_inode_def ex_root_def)
  then show "length (abytes (ex_files 1)) = length ex_entries" using length_ex_entries by simp
  fix j assume "j < length (abytes (ex_files 1))"
  then have j: "j < 48" using len by simp
  then have "abytes (ex_files 1) ! j = fbyte (ex_cinode 1) ex_disk j"
    by (simp add: ex_files_def file_view_def frange_def file_size_def ex_cinode_def ex_inode_def ex_root_def)
  also have "\<dots> = ex_entries ! j"
  proof -
    have b: "j div BSIZE = 0" "j mod BSIZE = j" "j < BSIZE" using j by (simp_all add: BSIZE_def)
    then have "fbyte (ex_cinode 1) ex_disk j = blk ex_disk 9 ! j" by (simp add: fbyte_def ex_fblock Let_def)
    moreover have "blk ex_disk 9 = overwrite 0 ex_entries (replicate BSIZE 0)" by (simp add: ex_disk_def)
    ultimately show ?thesis using j length_ex_entries by (simp add: overwrite_def nth_append)
  qed
  finally show "abytes (ex_files 1) ! j = ex_entries ! j" .
qed

lemma ex_offsets: "entry_offsets (ex_files 1) = [0, 16, 32]"
  by (simp add: entry_offsets_def ex_root_bytes length_ex_entries step_range_def DIRENT_SIZE_def upt_rec del: One_nat_def)

lemma ex_entry: "entry_at (ex_files 1) 0 = dirent_new 1 [46]" "entry_at (ex_files 1) 16 = dirent_new 1 [46, 46]" "entry_at (ex_files 1) 32 = dirent_new 2 [97]"
proof -
  have len: "length (encode_dirent (dirent_new i n)) = 16" for i n using length_encode_dirent [of "dirent_new i n"] by (simp add: DIRENT_SIZE_def)
  have d: "decode_dirent (encode_dirent (dirent_new i n)) = dirent_new i n" for i n by (rule decode_encode_dirent) simp
  show "entry_at (ex_files 1) 0 = dirent_new 1 [46]" "entry_at (ex_files 1) 16 = dirent_new 1 [46, 46]" "entry_at (ex_files 1) 32 = dirent_new 2 [97]"
    by (simp_all add: entry_at_def ex_root_bytes ex_entries_def subrange_def len DIRENT_SIZE_def d del: One_nat_def)
qed

lemma ex_dslots: "dslots (ex_files 1) = (\<lambda>_. 0)(0 := 1, 16 := 1, 32 := 2)"
  by (auto simp: dslots_def ex_offsets ex_entry inum_new simp del: One_nat_def)

lemma ex_live: "live ex_sb ex_files i \<longleftrightarrow> i = 1 \<or> i = 2" "dir_live ex_sb ex_files i \<longleftrightarrow> i = 1"
  by (auto simp: live_def dir_live_def inums_def ex_inode_def ex_root_def ex_file_def inode_zeroed_def)

lemma ex_names: "names ex_sb ex_files 1 = {(1, 16)}" "names ex_sb ex_files 2 = {(1, 32)}"
  by (auto simp: names_def ex_live ex_dslots simp del: One_nat_def split: if_splits)

lemma ex_tree_inv: "tree_inv ex_sb ex_files"
proof -
  have "tree_ok ex_sb ex_files" by (auto simp: tree_ok_slots ex_live ex_dslots entries_aligned_def ex_root_bytes length_ex_entries DIRENT_SIZE_def simp del: One_nat_def split: if_splits)
  moreover have "dots_ok (ex_files 1) 1"
    using ex_entry(2) by (simp add: dots_ok_def ex_root_bytes length_ex_entries ex_entry(1) ex_dslots DIRENT_SIZE_def DOT_def DOTDOT_def del: One_nat_def)
  moreover have "place_ok ex_sb ex_files 1" by (simp add: place_ok_def ROOTINO_def dir_parent_def entries_of_def ex_names ex_dslots DIRENT_SIZE_def del: One_nat_def)
  moreover have "unat (anlink (ex_files i)) = card (names ex_sb ex_files i)" if "i = 1 \<or> i = 2" for i
    using that ex_names by (auto simp: ex_inode_def ex_root_def ex_file_def simp del: One_nat_def)
  ultimately show ?thesis by (simp add: tree_inv_def ex_live ROOTINO_def del: One_nat_def)
qed

lemma ex_slot: "rc_slot (icache ex_fs) j = None" "rc_inv NINODE (icache ex_fs)" "length (islots ex_fs) = NINODE" "dview ex_fs = ex_disk"
proof -
  have n: "0 < NINODE" by (simp add: NINODE_def)
  show "rc_slot (icache ex_fs) j = None" using rc_slot_new [OF n] by (simp add: ex_fs_def fstate_new_def)
  show "rc_inv NINODE (icache ex_fs)" using rc_inv_new [OF n] by (simp add: ex_fs_def fstate_new_def)
qed (simp_all add: ex_fs_def fstate_new_def)

lemma ex_view: "i \<in> inums ex_sb \<Longrightarrow> view ex_sb ex_fs i = ex_cinode i"
proof -
  assume "i \<in> inums ex_sb"
  then have i: "i < 16" by (simp add: inums_def)
  have "cached_at ex_fs i = None" using cached_at_Some [of ex_fs i] by (cases "cached_at ex_fs i") (auto simp: handle_def ex_slot)
  then show ?thesis using ex_inode_at [OF i] by (simp add: view_def disk_cinode_def ex_slot ex_cinode_def)
qed

lemma ex_rests: "rests ex_sb ex_files (\<lambda>_. 0) {} ex_fs"
proof -
  have held: "\<not> held_by j ex_fs" if "j < NINODE" for j using that by (simp add: held_by_def ex_fs_def fstate_new_def)
  have "slots_ok ex_sb ex_fs" unfolding slots_ok_def using held ex_slot by simp
  moreover have "disk_inv ex_sb ex_cinode ex_disk" unfolding disk_inv_def
  proof (intro conjI ballI impI)
    show "alloc_ok ex_sb ex_disk" by (rule ex_alloc_ok)
    fix i assume i: "i \<in> inums ex_sb"
    then have at: "inode_at ex_sb i ex_disk = Some (ex_inode i)" by (intro ex_inode_at) (simp add: inums_def)
    show "file_ok ex_sb (ex_cinode i) ex_disk" by (rule ex_file_ok)
    show "inode_at ex_sb i ex_disk \<noteq> None" using at by simp
    show "behind ex_sb (disk_cinode ex_sb i ex_disk) (ex_cinode i) ex_disk" by (rule behind_refl [OF ex_file_ok]) (simp add: disk_cinode_def at ex_cinode_def)
    show "file_size (ex_cinode i) = 0" if "kind (inode (ex_cinode i)) = KUnused"
      using that by (auto simp: file_size_def ex_cinode_def ex_inode_def ex_root_def ex_file_def inode_zeroed_def split: if_splits)
    show "inode_blocks (ex_cinode i) ex_disk \<inter> inode_blocks (ex_cinode j) ex_disk = {}" if "i \<noteq> j" for j using that by (simp add: ex_inode_blocks)
  qed
  then have "disk_inv ex_sb (view ex_sb ex_fs) (dview ex_fs)" using disk_inv_cong [of ex_sb "view ex_sb ex_fs" ex_cinode] ex_view ex_slot(4) by simp
  moreover have "refs ex_fs = (\<lambda>_. 0)" by (simp add: refs_def ex_slot contrib_def fun_eq_iff)
  moreover have "held_set ex_fs = {}" using held by (auto simp: held_set_def)
  moreover have "files ex_sb ex_fs i = ex_files i" if "i \<in> inums ex_sb" for i using ex_view [OF that] by (simp add: files_def ex_files_def ex_slot)
  ultimately show ?thesis by (simp add: rests_def fs_inv_def)
qed

lemma ex_ready: "fs_ready ex_sb ex_files (\<lambda>_. 0) ex_fs"
  using ex_rests ex_tree_inv by (simp add: fs_ready_def)

lemma ex_room: "room (\<lambda>_. 0) 2" "room (\<lambda>_. 0) 3"
  by (simp_all add: room_def NINODE_def)

lemma ex_find: "dir_find [97] (ex_files 1) = Some 32" "dir_find [98] (ex_files 1) = None"
proof -
  have n: "dirent_is (dirent_new i [46]) [c] \<longleftrightarrow> c = 46" "dirent_is (dirent_new i [46, 46]) [c] \<longleftrightarrow> c = 46" "dirent_is (dirent_new i [97]) [c] \<longleftrightarrow> c = 97" for i c
    by (auto simp: dirent_is_def dirent_new_def NAME_LENGTH_def overwrite_def Let_def)
  show "dir_find [97] (ex_files 1) = Some 32" "dir_find [98] (ex_files 1) = None"
    by (simp_all add: dir_find_def ex_offsets ex_entry in_use_entry_def inum_new n del: One_nat_def)
qed

lemma ex_paths: "resolve_path ex_files w [47, 97] = Some 2" "resolve_parent_path ex_files w [47, 97] = Some (1, [97])"
  "resolve_parent_path ex_files w [47, 98] = Some (1, [98])"
proof -
  have "kind (ex_inode 1) = KDirectory" by (simp add: ex_inode_def ex_root_def)
  then show "resolve_path ex_files w [47, 97] = Some 2" "resolve_parent_path ex_files w [47, 97] = Some (1, [97])" "resolve_parent_path ex_files w [47, 98] = Some (1, [98])"
    by (simp_all add: resolve_path_def resolve_parent_path_def path_start_def absolute_def SLASH_def ROOTINO_def ex_find ex_entry inum_new del: One_nat_def)
qed

lemma with_log_run: "f (log_mark LogStart s) = Some (r, s') \<Longrightarrow> with_log f s = Some (r, log_mark LogEnd s')"
  by (simp add: with_log_def)

lemma fs_ready_mark [simp]: "fs_ready sb F R (log_mark c s) = fs_ready sb F R s"
  by (simp add: fs_ready_def)

lemma fs_link_ready:
  assumes "fs_ready sb F R s" "room R 3" "cwd_ok sb F s cwd w" "\<forall>i. resolve_path F w old = Some i \<longrightarrow> anlink (F i) + 1 \<noteq> 0"
  shows "\<exists>r s' F'. fs_link sb cwd new old s = Some (r, s') \<and> link_outcome F w new old r F' \<and> fs_ready sb F' R s' \<and> kept R s s'"
proof -
  from link_body_rests [of sb F R "log_mark LogStart s" cwd w old new] assms obtain r s' F' where
    1: "link_body sb cwd new old (log_mark LogStart s) = Some (r, s')" "link_outcome F w new old r F'" "rests sb F' R {} s'" "kept R s s'" by auto
  have "room R 2" using assms(2) by (simp add: room_def)
  from link_outcome_tree [OF assms(1) this assms(3) _ 1(2)] assms(1,4) 1(3) have "fs_ready sb F' R s'" by (simp add: fs_ready_def)
  then show ?thesis using with_log_run [of "link_body sb cwd new old", OF 1(1)] 1(2,4) by (auto simp: fs_link_def)
qed

lemma fs_unlink_ready:
  assumes "fs_ready sb F R s" "room R 2" "cwd_ok sb F s cwd w" "0 \<notin> set path"
  shows "\<exists>r s' F'. fs_unlink sb cwd path s = Some (r, s') \<and> unlink_outcome F R w path r F' \<and> fs_ready sb F' R s' \<and> kept R s s'"
proof -
  from unlink_body_rests [of sb F R "log_mark LogStart s" cwd w path] assms obtain r s' F' where
    1: "unlink_body sb cwd path (log_mark LogStart s) = Some (r, s')" "unlink_outcome F R w path r F'" "rests sb F' R {} s'" "kept R s s'" by auto
  from unlink_outcome_tree [OF assms 1(2)] assms(1) 1(3) have "fs_ready sb F' R s'" by (simp add: fs_ready_def)
  then show ?thesis using with_log_run [of "unlink_body sb cwd path", OF 1(1)] 1(2,4) by (auto simp: fs_unlink_def)
qed

subsection \<open>Paths\<close>



subsection \<open>Changing the tree\<close>

text \<open>
  C12. \<open>link\<close>. It returns; the outcome is the one promised by \<open>link_outcome\<close>: an error and unchanged files when the old name does not
  exist or is a directory, when the directory of the new name does not exist, or when the new name is taken or finds no place; otherwise the new entry is
  there and the link count is one more. Every lock and every reference is given back, and the tree stays in order: in
  particular all link counts stay exact. Link counts must be below the maximum.
\<close>

theorem link_correct:
  assumes "fs_ready sb F R s" "room R 3" "cwd_ok sb F s cwd w" "\<forall>i. resolve_path F w old = Some i \<longrightarrow> anlink (F i) + 1 \<noteq> 0"
  shows "\<exists>r s' F'. fs_link sb cwd new old s = Some (r, s') \<and> link_outcome F w new old r F' \<and> fs_ready sb F' R s' \<and> kept R s s'"
  using fs_link_ready [OF assms] .

theorem link_correct_witness:
  "\<exists>r s' F'. fs_link ex_sb None [47, 98] [47, 97] ex_fs = Some (r, s') \<and> tree_inv ex_sb F' \<and> (F' = ex_files \<or> anlink (F' 2) = 2) \<and> held_set s' = {}"
proof -
  have "cwd_ok ex_sb ex_files ex_fs None None" by (simp add: cwd_ok_def)
  moreover have "\<forall>i. resolve_path ex_files None [47, 97] = Some i \<longrightarrow> anlink (ex_files i) + 1 \<noteq> 0" by (simp add: ex_paths ex_inode_def ex_file_def)
  ultimately obtain r s' F' where
    1: "fs_link ex_sb None [47, 98] [47, 97] ex_fs = Some (r, s')" "link_outcome ex_files None [47, 98] [47, 97] r F'" "fs_ready ex_sb F' (\<lambda>_. 0) s'"
    using link_correct [OF ex_ready ex_room(2), of None None "[47, 97]" "[47, 98]"] by auto
  have "F' = ex_files \<or> anlink (F' 2) = 2" using 1(2) by (auto simp: link_outcome_def ex_paths link_files_def ex_inode_def ex_root_def ex_file_def)
  then show ?thesis using 1(1) fs_readyD(3) [OF 1(3)] restsD(3) [OF fs_readyD(2) [OF 1(3)]] by blast
qed

text \<open>
  C5. \<open>unlink\<close>. It returns, for every path without a zero byte; the outcome is the one promised by \<open>unlink_outcome\<close>: \<open>.\<close>, \<open>..\<close>, names that do not exist and directories that
  are not empty are refused and nothing changes; otherwise the entry is cleared, the link count is one less, for a directory that of its
  parent too, and a file without names and references is freed with its blocks. The
  assertion that the link count is positive never fails, the two locks never deadlock, and the tree stays in order.
\<close>

theorem unlink_correct:
  assumes "fs_ready sb F R s" "room R 2" "cwd_ok sb F s cwd w" "0 \<notin> set path"
  shows "\<exists>r s' F'. fs_unlink sb cwd path s = Some (r, s') \<and> unlink_outcome F R w path r F' \<and> fs_ready sb F' R s' \<and> kept R s s'"
  using fs_unlink_ready [OF assms] .

theorem unlink_correct_witness:
  "\<exists>s' F'. fs_unlink ex_sb None [47, 97] ex_fs = Some (Ok (), s') \<and> fs_ready ex_sb F' (\<lambda>_. 0) s' \<and> akind (F' 2) = KUnused"
proof -
  have "cwd_ok ex_sb ex_files ex_fs None None" by (simp add: cwd_ok_def)
  from unlink_correct [OF ex_ready ex_room(1) this, of "[47, 97]"] obtain r s' F' where
    1: "fs_unlink ex_sb None [47, 97] ex_fs = Some (r, s')" "unlink_outcome ex_files (\<lambda>_. 0) None [47, 97] r F'" "fs_ready ex_sb F' (\<lambda>_. 0) s'" by auto
  have "r = Ok () \<and> F' = reclaim (unlink_files ex_files 2 1 32) (\<lambda>_. 0) 2"
    using 1(2) by (simp add: unlink_outcome_def ex_paths DOT_def DOTDOT_def ex_find ex_entry inum_new ex_inode_def ex_file_def Let_def del: One_nat_def)
  moreover have "akind (reclaim (unlink_files ex_files 2 1 32) (\<lambda>_. 0) 2 2) = KUnused"
    by (simp add: reclaim_def unlink_files_def freed_def ex_inode_def ex_file_def Let_def)
  ultimately show ?thesis using 1(1,3) by blast
qed



end
