(* ===== verification/Fs_Calls.thy ===== *)
theory Fs_Calls
  imports File_Tree
begin

text \<open>
  Sequences of operations on the tree: \<open>make_directory\<close>, \<open>make_special_file\<close>, \<open>link\<close> and \<open>unlink\<close> in any order.
\<close>

subsection \<open>Making directories and special files\<close>

lemma guard_drop_last:
  assumes r: "rests sb F (R(i := R i + 1)) {x} s" and h: "handle s x i" and live: "anlink (F i) \<noteq> 0"
  shows "\<exists>s'. guard_drop sb x s = Some s' \<and> rests sb F R {} s' \<and> kept R s s'"
proof -
  note inv = restsD(1) [OF r]
  have n: "refs s = R(i := R i + 1)" "held_set s = {x}" "files sb s i = F i" using restsD(2-4) [OF r] handleD(2) [OF inv h] by simp_all
  have eq: "(refs s)(i := refs s i - 1) = R" "{x} - {x} = {}" using n(1) by auto
  have "refs s i \<noteq> 1 \<or> anlink (files sb s i) \<noteq> 0" using live n(3) by simp
  from guard_drop_live [OF inv h this, unfolded eq n(2)] obtain s' where
    s': "guard_drop sb x s = Some s'" "change sb (if refs s i = 1 then {x} else {}) s R {} (files sb s) s'" by blast
  have "kept R s s'"
  proof (rule change_kept [OF s'(2)])
    fix y m assume y: "y \<in> (if refs s i = 1 then {x} else {})" "handle s y m" "R m \<noteq> 0"
    then have "m = i" "refs s i = 1" using handle_inum [OF h] by (auto split: if_splits)
    then show "handle s' y m" using n(1) y(3) by simp
  qed
  then show ?thesis using s'(1) change_rests [OF s'(2) restsD(4) [OF r]] by blast
qed

lemma create_only_rests:
  assumes ready: "fs_ready sb F R s" and room: "room R 3" and cwd: "cwd_ok sb F s cwd w" and k: "k \<noteq> KUnused"
    and few: "\<forall>dir name. resolve_parent_path F w path = Some (dir, name) \<longrightarrow> k = KDirectory \<longrightarrow> anlink (F dir) + 1 \<noteq> 0"
  shows "\<exists>r s' F'. create_only sb cwd path k mj mn s = Some (r, s') \<and> kept R s s' \<and> fs_ready sb F' R s' \<and>
    (case r of Ok _ \<Rightarrow> (\<exists>i. create_outcome sb F w path k mj mn (Some i) F') | Err _ \<Rightarrow> create_outcome sb F w path k mj mn None F')"
proof -
  have room2: "room R 2" using room by (simp add: room_def)
  note tree = create_outcome_tree [OF ready room2 cwd k few]
  from create_rests [OF assms] obtain q s1 F' where
    1: "create sb cwd path k mj mn s = Some (q, s1)" "kept R s s1"
      "case q of Err _ \<Rightarrow> create_outcome sb F w path k mj mn None F' \<and> rests sb F' R {} s1
       | Ok x \<Rightarrow> (\<exists>i. handle s1 x i \<and> create_outcome sb F w path k mj mn (Some i) F' \<and> rests sb F' (R(i := R i + 1)) {x} s1)" by blast
  show ?thesis
  proof (cases q)
    case (Err u)
    then have "create_outcome sb F w path k mj mn None F'" "rests sb F' R {} s1" using 1(3) by simp_all
    then show ?thesis using 1(1,2) Err tree ready by (intro exI [of _ "Err ()"] exI [of _ s1] exI [of _ F']) (simp add: create_only_def fs_ready_def)
  next
    case (Ok x)
    then obtain i where i: "handle s1 x i" "create_outcome sb F w path k mj mn (Some i) F'" "rests sb F' (R(i := R i + 1)) {x} s1" using 1(3) by auto
    have d: "dir_live sb F dir" if "resolve_parent_path F w path = Some (dir, name)" for dir name
      using search_parent_ok [OF fs_readyD(1) [OF ready] room2 cwd, of path] that by (auto simp: dir_live_def)
    have "anlink (F' i) \<noteq> 0"
    proof -
      from i(2) obtain dir name where dn: "resolve_parent_path F w path = Some (dir, name)" by (auto simp: create_outcome_def split: option.splits)
      show ?thesis
      proof (cases "dir_find name (F dir)")
        case None
        then have "F' = create_files F k mj mn name i dir" "akind (F i) = KUnused" using i(2) dn by (simp_all add: create_outcome_def)
        then show ?thesis using d [OF dn] by (auto simp: create_files_def dir_live_def live_def Let_def)
      next
        case (Some off)
        then have "F' = F" "i = dirent_inode_number (entry_at (F dir) off)" using i(2) dn by (auto simp: create_outcome_def Let_def split: if_splits)
        then show ?thesis using dir_find_live [OF tree_invD(1) [OF fs_readyD(3) [OF ready]] _ _ Some] d [OF dn] by (simp add: dir_live_def live_def)
      qed
    qed
    from guard_drop_last [OF i(3,1) this] obtain s' where 2: "guard_drop sb x s1 = Some s'" "rests sb F' R {} s'" "kept R s1 s'" by blast
    have "create_only sb cwd path k mj mn s = Some (Ok (), s')" using 1(1) Ok 2(1) by (simp add: create_only_def)
    then show ?thesis using kept_then [OF 1(2) 2(3)] 2(2) i(2) tree [OF i(2)] ready by (intro exI [of _ "Ok ()"] exI [of _ s'] exI [of _ F']) (auto simp: fs_ready_def)
  qed
qed

subsection \<open>Sequences of calls\<close>

datatype fs_call = Mkdir "u8 list" | Mknod "u8 list" u16 u16 | Link "u8 list" "u8 list" | Unlink "u8 list"

fun fs_do :: "superblock \<Rightarrow> fs_call \<Rightarrow> fstate \<Rightarrow> ((unit, unit) result \<times> fstate) kernel" where
  "fs_do sb (Mkdir path) s = make_directory sb None path s"
| "fs_do sb (Mknod path mj mn) s = make_special_file sb None path mj mn s"
| "fs_do sb (Link new old) s = fs_link sb None new old s"
| "fs_do sb (Unlink path) s = fs_unlink sb None path s"

fun fs_run :: "superblock \<Rightarrow> fs_call list \<Rightarrow> fstate \<Rightarrow> ((unit, unit) result list \<times> fstate) kernel" where
  "fs_run sb [] s = Some ([], s)"
| "fs_run sb (c # cs) s = do { (r, s) \<leftarrow> fs_do sb c s; (rs, s) \<leftarrow> fs_run sb cs s; Some (r # rs, s) }"

fun no_nul :: "fs_call \<Rightarrow> bool" where
  "no_nul (Unlink path) \<longleftrightarrow> 0 \<notin> set path"
| "no_nul _ \<longleftrightarrow> True"

text \<open>A call adds at most one to every link count.\<close>

definition grows :: "superblock \<Rightarrow> (nat \<Rightarrow> afile) \<Rightarrow> (nat \<Rightarrow> afile) \<Rightarrow> bool" where
  "grows sb F F' \<longleftrightarrow> (\<forall>i. unat (anlink (F' i)) \<le> unat (anlink (F i)) + 1)"

lemma grows_refl [simp]: "grows sb F F"
  by (simp add: grows_def)

lemma unat_inc_le: "unat ((w :: u16) + 1) \<le> Suc (unat w)"
  by (cases "w + 1 = 0") (simp_all add: unat_inc)

lemma unat_dec_le: "(w :: u16) \<noteq> 0 \<Longrightarrow> unat (w - 1) \<le> Suc (unat w)"
  by (simp add: unat_dec)

lemma link_grows: "link_outcome F w new old r F' \<Longrightarrow> grows sb F F'"
  by (auto simp: unat_inc_le link_outcome_def link_files_def grows_def split: option.splits if_splits)

lemma create_grows:
  assumes out: "create_outcome sb F w path k mj mn r F'"
  shows "grows sb F F'"
proof (cases "resolve_parent_path F w path")
  case None
  then show ?thesis using out by (simp add: create_outcome_def)
next
  case (Some dn)
  obtain dir name where dn: "dn = (dir, name)" by (cases dn)
  have new: "grows sb F (create_files F k mj mn name i dir)" for i by (auto simp: unat_inc_le create_files_def grows_def Let_def)
  have gone: "grows sb F (F(i := g))" if "anlink g = 0" for i g using that by (simp add: grows_def)
  show ?thesis
  proof (cases "dir_find name (F dir)")
    case n: None
    then show ?thesis using out Some dn new gone by (cases r) (auto simp: create_outcome_def)
  qed (use out Some dn in \<open>simp add: create_outcome_def Let_def\<close>)
qed

lemma unlink_grows:
  assumes ready: "fs_ready sb F R s" and room: "room R 2" and cwd: "cwd_ok sb F s cwd w" and out: "unlink_outcome F R w path r F'"
  shows "grows sb F F'"
proof (cases "F' = F")
  case False
  then obtain dir name off where p: "resolve_parent_path F w path = Some (dir, name)" "dir_find name (F dir) = Some off"
      "F' = reclaim (unlink_files F (dirent_inode_number (entry_at (F dir) off)) dir off) R (dirent_inode_number (entry_at (F dir) off))"
    using out by (auto simp: unlink_outcome_def Let_def split: option.splits if_splits)
  have d: "dir_live sb F dir" using search_parent_ok [OF fs_readyD(1) [OF ready] room cwd, of path] p(1) by (auto simp: dir_live_def)
  then have "live sb F (dirent_inode_number (entry_at (F dir) off))" using dir_find_live [OF tree_invD(1) [OF fs_readyD(3) [OF ready]] _ _ p(2)] by (simp add: dir_live_def)
  then have "anlink (F (dirent_inode_number (entry_at (F dir) off))) \<noteq> 0" "anlink (F dir) \<noteq> 0" using d by (simp_all add: live_def dir_live_def)
  then show ?thesis unfolding p(3) grows_def by (auto simp: unat_dec_le reclaim_def unlink_files_def freed_def Let_def)
qed simp

lemma fs_do_ready:
  assumes ready: "fs_ready sb F R s" and room: "room R 3" and nul: "no_nul c" and few: "\<forall>i. unat (anlink (F i)) < 65535"
  shows "\<exists>r s' F'. fs_do sb c s = Some (r, s') \<and> fs_ready sb F' R s' \<and> grows sb F F'"
proof -
  have cwd: "cwd_ok sb F s None None" "cwd_ok sb F (log_mark LogStart s) None None" by (simp_all add: cwd_ok_def)
  have room2: "room R 2" using room by (simp add: room_def)
  have ready': "fs_ready sb F R (log_mark LogStart s)" using ready by simp
  have ne: "anlink (F i) + 1 \<noteq> 0" for i
  proof -
    have "unat (anlink (F i) + 1) = unat (anlink (F i)) + 1" using few [rule_format, of i] by (simp add: unat_word_ariths)
    then show ?thesis by (metis add_eq_0_iff_both_eq_0 unsigned_0 zero_neq_one)
  qed
  have made: "\<exists>r s' F'. with_log (create_only sb None path k mj mn) s = Some (r, s') \<and> fs_ready sb F' R s' \<and> grows sb F F'" if k: "k \<noteq> KUnused" for path k mj mn
  proof -
    have "\<forall>dir name. resolve_parent_path F None path = Some (dir, name) \<longrightarrow> k = KDirectory \<longrightarrow> anlink (F dir) + 1 \<noteq> 0" using ne by blast
    from create_only_rests [OF ready' room cwd(2) k this, of mj mn] obtain r s' F' where
      1: "create_only sb None path k mj mn (log_mark LogStart s) = Some (r, s')" "fs_ready sb F' R s'"
        "case r of Ok _ \<Rightarrow> (\<exists>i. create_outcome sb F None path k mj mn (Some i) F') | Err _ \<Rightarrow> create_outcome sb F None path k mj mn None F'" by blast
    have "grows sb F F'" using 1(3) create_grows by (auto split: result.splits)
    then show ?thesis using with_log_run [of "create_only sb None path k mj mn", OF 1(1)] 1(2) by auto
  qed
  show ?thesis
  proof (cases c)
    case (Link new old)
    from fs_link_ready [OF ready room cwd(1), of old new] ne show ?thesis using Link link_grows by fastforce
  next
    case (Unlink path)
    then have "0 \<notin> set path" using nul by simp
    from fs_unlink_ready [OF ready room2 cwd(1) this] show ?thesis using Unlink unlink_grows [OF ready room2 cwd(1)] by fastforce
  qed (use made in \<open>simp_all add: make_directory_def make_special_file_def\<close>)
qed

lemma fs_run_ready:
  assumes "fs_ready sb F R s" "room R 3" "\<forall>c\<in>set cs. no_nul c" "\<forall>i. unat (anlink (F i)) + length cs < 65536"
  shows "\<exists>rs s' F'. fs_run sb cs s = Some (rs, s') \<and> length rs = length cs \<and> fs_ready sb F' R s'"
  using assms
proof (induction cs arbitrary: F s)
  case (Cons c cs)
  have few: "unat (anlink (F i)) < 65535" "unat (anlink (F i)) + 1 + length cs < 65536" for i using Cons.prems(4) [rule_format, of i] by simp_all
  have "no_nul c" "\<forall>i. unat (anlink (F i)) < 65535" using Cons.prems(3) few(1) by simp_all
  from fs_do_ready [OF Cons.prems(1,2) this] obtain r s1 F1 where
    1: "fs_do sb c s = Some (r, s1)" "fs_ready sb F1 R s1" "grows sb F F1" by blast
  have "unat (anlink (F1 i)) + length cs < 65536" for i using 1(3) few(2) [of i] by (auto simp: grows_def dest: spec [of _ i])
  then have few1: "\<forall>i. unat (anlink (F1 i)) + length cs < 65536" by blast
  have nul: "\<forall>c\<in>set cs. no_nul c" using Cons.prems(3) by simp
  from Cons.IH [OF 1(2) Cons.prems(2) nul few1] obtain rs s2 F2 where "fs_run sb cs s1 = Some (rs, s2)" "length rs = length cs" "fs_ready sb F2 R s2" by blast
  then show ?case using 1(1) by auto
qed auto

text \<open>
  C6. Every sequence of operations on the tree runs to its end. From a file system whose tree is in order, \<open>make_directory\<close>,
  \<open>make_special_file\<close>, \<open>link\<close> and \<open>unlink\<close> with absolute paths, in any order and whether they succeed or not, all return: no panic, no assertion, no
  deadlock. Afterwards the references are those there were before, no inode is locked, and the tree is in order. The only limits are room for three more inodes in the cache and link
  counts that cannot reach their maximum on the way.
\<close>

theorem fs_calls_safe:
  assumes "fs_ready sb F R s" "room R 3" "\<forall>c\<in>set cs. no_nul c" "\<forall>i. unat (anlink (F i)) + length cs < 65536"
  shows "\<exists>rs s' F'. fs_run sb cs s = Some (rs, s') \<and> length rs = length cs \<and> fs_ready sb F' R s'"
  using fs_run_ready [OF assms] .

theorem fs_calls_safe_witness:
  "\<exists>rs s' F'. fs_run ex_sb [Mkdir [47, 98], Link [47, 98, 47, 99] [47, 97], Unlink [47, 97], Unlink [47, 98], Mknod [47, 97] 1 1] ex_fs = Some (rs, s') \<and>
    length rs = 5 \<and> fs_ready ex_sb F' (\<lambda>_. 0) s'"
proof -
  let ?cs = "[Mkdir [47, 98], Link [47, 98, 47, 99] [47, 97], Unlink [47, 97], Unlink [47, 98], Mknod [47, 97] 1 1]"
  have "unat (anlink (ex_files i)) + 5 < 65536" for i by (simp add: ex_inode_def ex_root_def ex_file_def inode_zeroed_def)
  then have few: "\<forall>i. unat (anlink (ex_files i)) + length ?cs < 65536" by simp
  have nul: "\<forall>c\<in>set ?cs. no_nul c" by simp
  from fs_calls_safe [OF ex_ready ex_room(2) nul few] obtain rs s' F' where
    1: "fs_run ex_sb ?cs ex_fs = Some (rs, s')" "length rs = length ?cs" "fs_ready ex_sb F' (\<lambda>_. 0) s'" by blast
  have "length rs = 5" using 1(2) by simp
  then show ?thesis using 1(1,3) by blast
qed

end
