(* ===== verification/Virtio.thy ===== *)
theory Virtio
  imports Bitmap Interrupt
begin

text \<open>
  The driver of the virtio disk, src/kernel/src/virtio/disk.rs, with the data of src/kernel/src/virtio.rs.

  A request is a chain of three descriptors; the driver puts the number of the first one into the ring \<open>avail\<close>, the device
  serves the request and puts the number into the ring \<open>used\<close>, and the interrupt handler tells the process that waits for
  it. Processes, the handler and the device run interleaved. The spin lock of the disk excludes processes and handler from each
  other, but not the device, so a step is one access to what the device sees, or less.

  The device is outside the program. It is the record \<open>virtio\<close>: its registers, and its steps on the memory it shares with the driver. \<open>virtio_device\<close> says what the
  virtio standard promises of it (sections 2.6, 2.7 and 5.2.6 of version 1.1). The addresses of the structures in memory are
  the parameter \<open>layout\<close>.
\<close>

subsection \<open>Registers and constants\<close>

definition MAGIC_VALUE :: nat where "MAGIC_VALUE = 0x000"
definition VERSION :: nat where "VERSION = 0x004"
definition DEVICE_ID :: nat where "DEVICE_ID = 0x008"
definition VENDOR_ID :: nat where "VENDOR_ID = 0x00c"
definition DEVICE_FEATURES :: nat where "DEVICE_FEATURES = 0x010"
definition DRIVER_FEATURES :: nat where "DRIVER_FEATURES = 0x020"
definition QUEUE_SEL :: nat where "QUEUE_SEL = 0x030"
definition QUEUE_NUM_MAX :: nat where "QUEUE_NUM_MAX = 0x034"
definition QUEUE_NUM :: nat where "QUEUE_NUM = 0x038"
definition QUEUE_READY :: nat where "QUEUE_READY = 0x044"
definition QUEUE_NOTIFY :: nat where "QUEUE_NOTIFY = 0x050"
definition INTERRUPT_STATUS :: nat where "INTERRUPT_STATUS = 0x060"
definition INTERRUPT_ACK :: nat where "INTERRUPT_ACK = 0x064"
definition STATUS :: nat where "STATUS = 0x070"
definition QUEUE_DESC_LOW :: nat where "QUEUE_DESC_LOW = 0x080"
definition QUEUE_DESC_HIGH :: nat where "QUEUE_DESC_HIGH = 0x084"
definition DRIVER_DESC_LOW :: nat where "DRIVER_DESC_LOW = 0x090"
definition DRIVER_DESC_HIGH :: nat where "DRIVER_DESC_HIGH = 0x094"
definition DEVICE_DESC_LOW :: nat where "DEVICE_DESC_LOW = 0x0a0"
definition DEVICE_DESC_HIGH :: nat where "DEVICE_DESC_HIGH = 0x0a4"

definition ACKNOWLEDGE :: u32 where "ACKNOWLEDGE = 1"
definition DRIVER :: u32 where "DRIVER = 2"
definition DRIVER_OK :: u32 where "DRIVER_OK = 4"
definition FEATURES_OK :: u32 where "FEATURES_OK = 8"

definition BLK_RO :: nat where "BLK_RO = 5"
definition BLK_SCSI :: nat where "BLK_SCSI = 7"
definition BLK_CONFIG_WCE :: nat where "BLK_CONFIG_WCE = 11"
definition BLK_MQ :: nat where "BLK_MQ = 12"
definition ANY_LAYOUT :: nat where "ANY_LAYOUT = 27"
definition RING_INDIRECT_DESC :: nat where "RING_INDIRECT_DESC = 28"
definition RING_EVENT_IDX :: nat where "RING_EVENT_IDX = 29"

definition DESCRIPTOR_NUM :: nat where "DESCRIPTOR_NUM = 8"
definition VRING_DESC_F_NEXT :: u16 where "VRING_DESC_F_NEXT = 1"
definition VRING_DESC_F_WRITE :: u16 where "VRING_DESC_F_WRITE = 2"

subsection \<open>Data\<close>

record descriptor =
  desc_addr :: u64
  desc_len :: u32
  desc_flags :: u16
  desc_next :: u16

definition descriptor_zeroed :: descriptor where
  "descriptor_zeroed = \<lparr>desc_addr = 0, desc_len = 0, desc_flags = 0, desc_next = 0\<rparr>"

record avail =
  av_flags :: u16
  av_idx :: u16
  av_ring :: "u16 list"
  av_unused :: u16

definition avail_zeroed :: avail where
  "avail_zeroed = \<lparr>av_flags = 0, av_idx = 0, av_ring = replicate DESCRIPTOR_NUM 0, av_unused = 0\<rparr>"

record used_elem =
  ue_id :: u32
  ue_len :: u32

definition used_elem_zeroed :: used_elem where
  "used_elem_zeroed = \<lparr>ue_id = 0, ue_len = 0\<rparr>"

record used_ring =
  us_flags :: u16
  us_idx :: u16
  us_ring :: "used_elem list"

definition used_zeroed :: used_ring where
  "used_zeroed = \<lparr>us_flags = 0, us_idx = 0, us_ring = replicate DESCRIPTOR_NUM used_elem_zeroed\<rparr>"

datatype request_type = ReadBlock | WriteBlock

text \<open>The size of a \<open>BlockRequest\<close> in memory is 16 bytes.\<close>

record block_request =
  br_ty :: request_type
  br_reserved :: u32
  br_sector :: u64

definition BLOCK_REQUEST_SIZE :: u32 where "BLOCK_REQUEST_SIZE = 16"

record info =
  in_addr :: usize
  in_use :: bool
  in_status :: u8

text \<open>A \<open>MaybeUninit\<close> that has not been written is \<open>None\<close>.\<close>

record disk =
  descriptors :: "descriptor list"
  avail_ring :: avail
  used_elems :: used_ring
  free_map :: bitmap
  used_index :: u16
  infos :: "info option list"
  ops :: "block_request option list"

definition disk_new :: disk where
  "disk_new = \<lparr>descriptors = replicate DESCRIPTOR_NUM descriptor_zeroed, avail_ring = avail_zeroed, used_elems = used_zeroed,
     free_map = bitmap_new DESCRIPTOR_NUM, used_index = 0, infos = replicate DESCRIPTOR_NUM None,
     ops = replicate DESCRIPTOR_NUM None\<rparr>"

record layout =
  desc_at :: u64
  avail_at :: u64
  used_at :: u64
  disk_at :: usize
  ops_at :: "nat \<Rightarrow> u64"
  status_at :: "nat \<Rightarrow> u64"

definition layout_ok :: "layout \<Rightarrow> bool" where
  "layout_ok L \<longleftrightarrow> inj_on (ops_at L) {..<DESCRIPTOR_NUM} \<and> inj_on (status_at L) {..<DESCRIPTOR_NUM}"

subsection \<open>The device\<close>

text \<open>
  What the device and the driver share: the structure \<open>Disk\<close>, the buffers in memory by their addresses, and the sectors
  of the disk. \<open>last_avail\<close> and \<open>in_flight\<close> are the private state of the device: how far it has read the ring \<open>avail\<close>, and which
  requests it has taken from there and not completed.
\<close>

record dma =
  vdisk :: disk
  vmem :: "usize \<Rightarrow> u8 list"
  vsectors :: "nat \<Rightarrow> u8 list"

record 'd virtio =
  vrd :: "nat \<Rightarrow> 'd \<Rightarrow> u32 \<times> 'd"
  vwr :: "nat \<Rightarrow> u32 \<Rightarrow> 'd \<Rightarrow> 'd"
  last_avail :: "'d \<Rightarrow> u16"
  in_flight :: "'d \<Rightarrow> nat list"
  dev_step :: "'d \<times> dma \<Rightarrow> 'd \<times> dma \<Rightarrow> bool"

definition request_at :: "layout \<Rightarrow> u64 \<Rightarrow> disk \<Rightarrow> block_request option" where
  "request_at L a k = (case find (\<lambda>i. ops_at L i = a) [0..<DESCRIPTOR_NUM] of None \<Rightarrow> None | Some i \<Rightarrow> ops k ! i)"

definition set_status_at :: "layout \<Rightarrow> u64 \<Rightarrow> u8 \<Rightarrow> disk \<Rightarrow> disk" where
  "set_status_at L a v k = (case find (\<lambda>i. status_at L i = a) [0..<DESCRIPTOR_NUM] of None \<Rightarrow> k
     | Some i \<Rightarrow> k\<lparr>infos := (infos k)[i := map_option (in_status_update (\<lambda>_. v)) (infos k ! i)]\<rparr>)"

definition sectors_of :: "nat \<Rightarrow> nat \<Rightarrow> (nat \<Rightarrow> u8 list) \<Rightarrow> u8 list" where
  "sectors_of s n secs = concat (map secs [s..<s + n])"

definition put_sectors :: "nat \<Rightarrow> nat \<Rightarrow> u8 list \<Rightarrow> (nat \<Rightarrow> u8 list) \<Rightarrow> nat \<Rightarrow> u8 list" where
  "put_sectors s n bs secs = (\<lambda>k. if s \<le> k \<and> k < s + n then take 512 (drop (512 * (k - s)) bs) else secs k)"

text \<open>The second and the third descriptor of a chain, and whether it is a request as the standard has it.\<close>

definition second :: "disk \<Rightarrow> nat \<Rightarrow> nat" where
  "second k h = unat (desc_next (descriptors k ! h))"

definition third :: "disk \<Rightarrow> nat \<Rightarrow> nat" where
  "third k h = second k (second k h)"

definition chain_ok :: "layout \<Rightarrow> disk \<Rightarrow> nat \<Rightarrow> bool" where
  "chain_ok L k h \<longleftrightarrow> h < DESCRIPTOR_NUM \<and> second k h < DESCRIPTOR_NUM \<and> third k h < DESCRIPTOR_NUM \<and>
     desc_len (descriptors k ! h) = BLOCK_REQUEST_SIZE \<and> desc_flags (descriptors k ! h) = VRING_DESC_F_NEXT \<and>
     desc_len (descriptors k ! third k h) = 1 \<and> desc_flags (descriptors k ! third k h) = VRING_DESC_F_WRITE \<and>
     (case request_at L (desc_addr (descriptors k ! h)) k of
        None \<Rightarrow> False
      | Some rq \<Rightarrow> br_reserved rq = 0 \<and> desc_flags (descriptors k ! second k h) =
          VRING_DESC_F_NEXT OR (if br_ty rq = ReadBlock then VRING_DESC_F_WRITE else 0))"

definition push_used :: "nat \<Rightarrow> u32 \<Rightarrow> disk \<Rightarrow> disk" where
  "push_used h n k = (let u = used_elems k in k\<lparr>used_elems := u\<lparr>us_idx := us_idx u + 1,
     us_ring := (us_ring u)[unat (us_idx u) mod DESCRIPTOR_NUM := \<lparr>ue_id = of_nat h, ue_len = n\<rparr>]\<rparr>\<rparr>)"

text \<open>Serving the request at \<open>h\<close>: the data are transferred, the status byte is 0, and \<open>h\<close> is put into the ring \<open>used\<close>.\<close>

definition serve :: "layout \<Rightarrow> nat \<Rightarrow> dma \<Rightarrow> dma" where
  "serve L h m = (let k = vdisk m; d1 = descriptors k ! second k h; n = unat (desc_len d1) div 512;
       finish = (\<lambda>w. push_used h w (set_status_at L (desc_addr (descriptors k ! third k h)) 0 k))
     in case request_at L (desc_addr (descriptors k ! h)) k of
       None \<Rightarrow> m
     | Some rq \<Rightarrow> (if br_ty rq = ReadBlock
         then m\<lparr>vmem := (vmem m)(desc_addr d1 := sectors_of (unat (br_sector rq)) n (vsectors m)), vdisk := finish (desc_len d1 + 1)\<rparr>
         else m\<lparr>vsectors := put_sectors (unat (br_sector rq)) n (vmem m (desc_addr d1)) (vsectors m), vdisk := finish 1\<rparr>))"

definition same_queue :: "'d virtio \<Rightarrow> 'd \<Rightarrow> 'd \<Rightarrow> bool" where
  "same_queue D d d' \<longleftrightarrow> last_avail D d' = last_avail D d \<and> in_flight D d' = in_flight D d"

definition fetches :: "'d virtio \<Rightarrow> 'd \<Rightarrow> dma \<Rightarrow> 'd \<Rightarrow> dma \<Rightarrow> bool" where
  "fetches D d m d' m' \<longleftrightarrow> (let a = avail_ring (vdisk m) in
     last_avail D d \<noteq> av_idx a \<and> m' = m \<and> last_avail D d' = last_avail D d + 1 \<and>
     in_flight D d' = in_flight D d @ [unat (av_ring a ! (unat (last_avail D d) mod DESCRIPTOR_NUM))])"

definition completes :: "layout \<Rightarrow> 'd virtio \<Rightarrow> 'd \<Rightarrow> dma \<Rightarrow> 'd \<Rightarrow> dma \<Rightarrow> bool" where
  "completes L D d m d' m' \<longleftrightarrow> (\<exists>h\<in>set (in_flight D d).
     last_avail D d' = last_avail D d \<and> in_flight D d' = remove1 h (in_flight D d) \<and>
     (chain_ok L (vdisk m) h \<longrightarrow> m' = serve L h m))"

text \<open>
  The promise: accesses to the registers that the driver uses leave the queue alone, and a step of the device
  takes the next request from the ring or completes one that it has taken. Nothing is said of what a malformed chain makes it do.
\<close>

definition virtio_device :: "layout \<Rightarrow> 'd virtio \<Rightarrow> bool" where
  "virtio_device L D \<longleftrightarrow>
     (\<forall>d. same_queue D d (snd (vrd D INTERRUPT_STATUS d))) \<and>
     (\<forall>d v. same_queue D d (vwr D INTERRUPT_ACK v d)) \<and> (\<forall>d v. same_queue D d (vwr D QUEUE_NOTIFY v d)) \<and>
     (\<forall>d m d' m'. dev_step D (d, m) (d', m') \<longrightarrow> fetches D d m d' m' \<or> completes L D d m d' m')"

text \<open>The device does not stop as long as it has requests.\<close>

definition device_live :: "'d virtio \<Rightarrow> bool" where
  "device_live D \<longleftrightarrow> (\<forall>d m. last_avail D d \<noteq> av_idx (avail_ring (vdisk m)) \<or> in_flight D d \<noteq> [] \<longrightarrow>
     (\<exists>d' m'. dev_step D (d, m) (d', m')))"

subsection \<open>Initialisation\<close>

definition expect_reg :: "'d virtio \<Rightarrow> nat \<Rightarrow> u32 \<Rightarrow> 'd \<Rightarrow> 'd kernel" where
  "expect_reg D r v d = (case vrd D r d of (x, d) \<Rightarrow> do { assertk (x = v); Some d })"

definition accepted_features :: "u32 \<Rightarrow> u32" where
  "accepted_features features = fold (\<lambda>b x. x AND NOT (push_bit b 1))
     [BLK_RO, BLK_SCSI, BLK_CONFIG_WCE, BLK_MQ, ANY_LAYOUT, RING_EVENT_IDX, RING_INDIRECT_DESC] features"

definition write_addresses :: "layout \<Rightarrow> 'd virtio \<Rightarrow> 'd \<Rightarrow> 'd" where
  "write_addresses L D d =
     (let d = vwr D QUEUE_DESC_LOW (ucast (desc_at L)) d;
          d = vwr D QUEUE_DESC_HIGH (ucast (drop_bit 32 (desc_at L))) d;
          d = vwr D DRIVER_DESC_LOW (ucast (avail_at L)) d;
          d = vwr D DRIVER_DESC_HIGH (ucast (drop_bit 32 (avail_at L))) d;
          d = vwr D DEVICE_DESC_LOW (ucast (used_at L)) d
      in vwr D DEVICE_DESC_HIGH (ucast (drop_bit 32 (used_at L))) d)"

definition disk_init :: "layout \<Rightarrow> 'd virtio \<Rightarrow> 'd \<Rightarrow> (disk \<times> 'd) kernel" where
  "disk_init L D d = do {
     d \<leftarrow> expect_reg D MAGIC_VALUE 0x74726976 d;
     d \<leftarrow> expect_reg D VERSION 2 d;
     d \<leftarrow> expect_reg D DEVICE_ID 2 d;
     d \<leftarrow> expect_reg D VENDOR_ID 0x554d4551 d;
     let d = vwr D STATUS 0 d;
     let d = vwr D STATUS ACKNOWLEDGE d;
     let d = vwr D STATUS (ACKNOWLEDGE OR DRIVER) d;
     let (features, d) = vrd D DEVICE_FEATURES d;
     let d = vwr D DRIVER_FEATURES (accepted_features features) d;
     let d = vwr D STATUS (ACKNOWLEDGE OR DRIVER OR FEATURES_OK) d;
     let (s, d) = vrd D STATUS d;
     assertk (s AND FEATURES_OK \<noteq> 0);
     let d = vwr D QUEUE_SEL 0 d;
     d \<leftarrow> expect_reg D QUEUE_READY 0 d;
     let (max, d) = vrd D QUEUE_NUM_MAX d;
     assertk (max \<noteq> 0);
     assertk (max \<ge> of_nat DESCRIPTOR_NUM);
     let d = vwr D QUEUE_NUM (of_nat DESCRIPTOR_NUM) d;
     let d = write_addresses L D d;
     let d = vwr D QUEUE_READY 1 d;
     let d = vwr D STATUS (s OR DRIVER_OK) d;
     Some (disk_new, d) }"

subsection \<open>The steps of a request\<close>

record request =
  rq_addr :: usize
  rq_block :: usize
  rq_size :: usize
  rq_write :: bool

definition sector :: "request \<Rightarrow> usize" where
  "sector r = rq_block r * (rq_size r div 512)"

definition allocate_descriptor :: "disk \<Rightarrow> (nat option \<times> disk) kernel" where
  "allocate_descriptor k = do {
     (r, b) \<leftarrow> bitmap_allocate DESCRIPTOR_NUM (free_map k);
     Some (r, k\<lparr>free_map := b\<rparr>) }"

definition rw_op :: "request \<Rightarrow> block_request" where
  "rw_op r = \<lparr>br_ty = (if rq_write r then WriteBlock else ReadBlock), br_reserved = 0, br_sector = sector r\<rparr>"

definition rw_info :: "request \<Rightarrow> info" where
  "rw_info r = \<lparr>in_addr = rq_addr r, in_use = True, in_status = 0\<rparr>"

text \<open>From the header of the request to its place in the ring.\<close>

definition rw_fill :: "layout \<Rightarrow> request \<Rightarrow> nat list \<Rightarrow> disk \<Rightarrow> disk kernel" where
  "rw_fill L r idx k = do {
     assertk (length idx = 3 \<and> list_all (\<lambda>i. i < DESCRIPTOR_NUM) idx);
     let k = k\<lparr>ops := (ops k)[idx ! 0 := Some (rw_op r)]\<rparr>;
     let k = k\<lparr>descriptors := (descriptors k)[idx ! 0 := \<lparr>desc_addr = ops_at L (idx ! 0), desc_len = BLOCK_REQUEST_SIZE,
       desc_flags = VRING_DESC_F_NEXT, desc_next = of_nat (idx ! 1)\<rparr>]\<rparr>;
     let k = k\<lparr>descriptors := (descriptors k)[idx ! 1 := \<lparr>desc_addr = rq_addr r, desc_len = ucast (rq_size r),
       desc_flags = VRING_DESC_F_NEXT OR (if rq_write r then 0 else VRING_DESC_F_WRITE), desc_next = of_nat (idx ! 2)\<rparr>]\<rparr>;
     let k = k\<lparr>infos := (infos k)[idx ! 0 := Some (rw_info r)]\<rparr>;
     let k = k\<lparr>descriptors := (descriptors k)[idx ! 2 := \<lparr>desc_addr = status_at L (idx ! 0), desc_len = 1,
       desc_flags = VRING_DESC_F_WRITE, desc_next = 0\<rparr>]\<rparr>;
     let a = avail_ring k;
     Some (k\<lparr>avail_ring := a\<lparr>av_ring := (av_ring a)[unat (av_idx a) mod DESCRIPTOR_NUM := of_nat (idx ! 0)]\<rparr>\<rparr>) }"

definition rw_publish :: "disk \<Rightarrow> disk" where
  "rw_publish k = k\<lparr>avail_ring := (avail_ring k)\<lparr>av_idx := av_idx (avail_ring k) + 1\<rparr>\<rparr>"

definition read_in_use :: "nat list \<Rightarrow> disk \<Rightarrow> bool kernel" where
  "read_in_use idx k = do { i \<leftarrow> infos k ! (idx ! 0); Some (in_use i) }"

definition free_descriptor :: "nat \<Rightarrow> disk \<Rightarrow> disk kernel" where
  "free_descriptor i k = do {
     let (r, b) = bitmap_deallocate DESCRIPTOR_NUM (free_map k) i;
     _ \<leftarrow> unwrap r;
     Some (k\<lparr>free_map := b\<rparr>) }"

text \<open>One pass through the loop of the interrupt handler: the channel to wake up, and the disk.\<close>

definition handle_used :: "disk \<Rightarrow> (usize \<times> disk) kernel" where
  "handle_used k = do {
     let id = unat (ue_id (us_ring (used_elems k) ! (unat (used_index k) mod DESCRIPTOR_NUM)));
     assertk (id < DESCRIPTOR_NUM);
     i \<leftarrow> infos k ! id;
     assertk (in_status i = 0);
     Some (in_addr i, k\<lparr>infos := (infos k)[id := Some (i\<lparr>in_use := False\<rparr>)], used_index := used_index k + 1\<rparr>) }"

subsection \<open>The interleaving\<close>

text \<open>Where a process stands in \<open>rw\<close>. The lists are the descriptors it has.\<close>

datatype vpc =
    VIdle
  | VStart request                   \<comment> \<open>before \<open>disk().lock()\<close>\<close>
  | VAlloc request "nat list"        \<comment> \<open>holds the lock, in \<open>must_allocate_descriptor\<close>\<close>
  | VAllocAsleep request "nat list"  \<comment> \<open>asleep there\<close>
  | VAllocWoken request "nat list"   \<comment> \<open>woken up there, before it takes the lock again\<close>
  | VPublish request "nat list"      \<comment> \<open>holds the lock, before \<open>avail.idx\<close> is incremented\<close>
  | VCheck request "nat list"        \<comment> \<open>holds the lock, before \<open>in_use.read_volatile()\<close>\<close>
  | VAsleep request "nat list"       \<comment> \<open>asleep until its request is done\<close>
  | VWoken request "nat list"        \<comment> \<open>woken up, before it takes the lock again\<close>
  | VFree request "nat list"         \<comment> \<open>holds the lock, gives these descriptors back\<close>
  | VReturned request

datatype vholder = ByProcess nat | ByHandler

record 'd vstate =
  vdma :: dma
  vdev :: 'd
  vowner :: "vholder option"
  vpcs :: "nat \<Rightarrow> vpc"

text \<open>\<open>process::wakeup\<close> on the processes in \<open>rw\<close>.\<close>

fun wake_pc :: "layout \<Rightarrow> usize \<Rightarrow> vpc \<Rightarrow> vpc" where
  "wake_pc L c (VAllocAsleep r is) = (if c = disk_at L then VAllocWoken r is else VAllocAsleep r is)"
| "wake_pc L c (VAsleep r is) = (if c = rq_addr r then VWoken r is else VAsleep r is)"
| "wake_pc L c pc = pc"

definition vwakeup :: "layout \<Rightarrow> usize \<Rightarrow> 'd vstate \<Rightarrow> 'd vstate" where
  "vwakeup L c s = s\<lparr>vpcs := wake_pc L c \<circ> vpcs s\<rparr>"

definition vgoto :: "nat \<Rightarrow> vpc \<Rightarrow> 'd vstate \<Rightarrow> 'd vstate" where
  "vgoto p c s = s\<lparr>vpcs := (vpcs s)(p := c)\<rparr>"

definition vdk :: "'d vstate \<Rightarrow> disk" where
  "vdk s = vdisk (vdma s)"

definition set_vdk :: "disk \<Rightarrow> 'd vstate \<Rightarrow> 'd vstate" where
  "set_vdk k s = s\<lparr>vdma := (vdma s)\<lparr>vdisk := k\<rparr>\<rparr>"

definition set_vowner :: "vholder option \<Rightarrow> 'd vstate \<Rightarrow> 'd vstate" where
  "set_vowner w s = s\<lparr>vowner := w\<rparr>"

definition set_vdev :: "'d \<Rightarrow> 'd vstate \<Rightarrow> 'd vstate" where
  "set_vdev d s = s\<lparr>vdev := d\<rparr>"

definition notify :: "'d virtio \<Rightarrow> 'd \<Rightarrow> 'd" where
  "notify D d = vwr D QUEUE_NOTIFY 0 d"

definition acknowledge :: "'d virtio \<Rightarrow> 'd \<Rightarrow> 'd" where
  "acknowledge D d = (case vrd D INTERRUPT_STATUS d of (x, d) \<Rightarrow> vwr D INTERRUPT_ACK (x AND 3) d)"

text \<open>What a process does next in \<open>rw\<close>: \<open>None\<close> when it panics. A process that has to wait for the lock or for a wakeup does nothing.\<close>

fun rw_next :: "layout \<Rightarrow> 'd virtio \<Rightarrow> nat \<Rightarrow> vpc \<Rightarrow> 'd vstate \<Rightarrow> 'd vstate kernel" where
  "rw_next L D p (VStart r) s =
     (if vowner s = None then Some (vgoto p (VAlloc r []) (set_vowner (Some (ByProcess p)) s)) else Some s)"
| "rw_next L D p (VAllocWoken r got) s =
     (if vowner s = None then Some (vgoto p (VAlloc r got) (set_vowner (Some (ByProcess p)) s)) else Some s)"
| "rw_next L D p (VWoken r idx) s =
     (if vowner s = None then Some (vgoto p (VCheck r idx) (set_vowner (Some (ByProcess p)) s)) else Some s)"
| "rw_next L D p (VAlloc r got) s =
     (if length got < 3 then do {
        (d, k) \<leftarrow> allocate_descriptor (vdk s);
        (case d of
           Some i \<Rightarrow> Some (vgoto p (VAlloc r (got @ [i])) (set_vdk k s))
         | None \<Rightarrow> Some (vgoto p (VAllocAsleep r got) (set_vowner None (set_vdk k s)))) }
      else do {
        k \<leftarrow> rw_fill L r got (vdk s);
        Some (vgoto p (VPublish r got) (set_vdk k s)) })"
| "rw_next L D p (VPublish r idx) s =
     Some (vgoto p (VCheck r idx) (set_vdev (notify D (vdev s)) (set_vdk (rw_publish (vdk s)) s)))"
| "rw_next L D p (VCheck r idx) s = do {
     b \<leftarrow> read_in_use idx (vdk s);
     Some (if b then vgoto p (VAsleep r idx) (set_vowner None s) else vgoto p (VFree r idx) s) }"
| "rw_next L D p (VFree r (i # is)) s = do {
     k \<leftarrow> free_descriptor i (vdk s);
     Some (vgoto p (VFree r is) (vwakeup L (disk_at L) (set_vdk k s))) }"
| "rw_next L D p (VFree r []) s = Some (vgoto p (VReturned r) (set_vowner None s))"
| "rw_next L D p (VReturned r) s = Some (vgoto p VIdle s)"
| "rw_next L D p _ s = Some s"

text \<open>The interrupt handler: it takes the lock and acknowledges the interrupt, empties the ring \<open>used\<close>, and gives up the lock.\<close>

definition handler_next :: "layout \<Rightarrow> 'd virtio \<Rightarrow> 'd vstate \<Rightarrow> 'd vstate kernel" where
  "handler_next L D s =
     (if vowner s = None then Some (set_vowner (Some ByHandler) (set_vdev (acknowledge D (vdev s)) s))
      else if vowner s = Some ByHandler then
        (if used_index (vdk s) \<noteq> us_idx (used_elems (vdk s)) then do {
           (c, k) \<leftarrow> handle_used (vdk s);
           Some (vwakeup L c (set_vdk k s)) }
         else Some (set_vowner None s))
      else Some s)"

text \<open>
  A step is one of a process in \<open>rw\<close>, of the handler or of the device, a new call, or a wakeup by \<open>kill\<close>. The sizes of
  requests fit the 32 bits that a descriptor has for them.
\<close>

inductive vstep :: "layout \<Rightarrow> 'd virtio \<Rightarrow> 'd vstate \<Rightarrow> 'd vstate \<Rightarrow> bool" for L D where
  call: "p < NPROC \<Longrightarrow> vpcs s p = VIdle \<Longrightarrow> unat (rq_size r) < 2 ^ 32 \<Longrightarrow> vstep L D s (vgoto p (VStart r) s)"
| process: "p < NPROC \<Longrightarrow> rw_next L D p (vpcs s p) s = Some s' \<Longrightarrow> vstep L D s s'"
| handler: "handler_next L D s = Some s' \<Longrightarrow> vstep L D s s'"
| device: "dev_step D (vdev s, vdma s) (d, m) \<Longrightarrow> vstep L D s (s\<lparr>vdev := d, vdma := m\<rparr>)"
| kill_alloc: "p < NPROC \<Longrightarrow> vpcs s p = VAllocAsleep r got \<Longrightarrow> vstep L D s (vgoto p (VAllocWoken r got) s)"
| kill_wait: "p < NPROC \<Longrightarrow> vpcs s p = VAsleep r idx \<Longrightarrow> vstep L D s (vgoto p (VWoken r idx) s)"

definition vinitial :: "disk \<Rightarrow> 'd \<Rightarrow> (usize \<Rightarrow> u8 list) \<Rightarrow> (nat \<Rightarrow> u8 list) \<Rightarrow> 'd vstate" where
  "vinitial k d mem secs = \<lparr>vdma = \<lparr>vdisk = k, vmem = mem, vsectors = secs\<rparr>, vdev = d, vowner = None, vpcs = (\<lambda>_. VIdle)\<rparr>"

end
