(* ===== verification/Virtio_Safety.thy ===== *)
theory Virtio_Safety
  imports Virtio
begin

text \<open>
  What the driver of the disk guarantees in every interleaving of processes, interrupt handler and device: the descriptors of a request
  stay as they are until the device has served it, no panic is reachable, every transfer happens once between call and
  return, and no process waits forever.
\<close>

subsection \<open>Rings with 16-bit counters\<close>

definition span :: "u16 \<Rightarrow> u16 \<Rightarrow> 'a list \<Rightarrow> 'a list" where
  "span i j ring = map (\<lambda>k. ring ! (unat (i + of_nat k) mod DESCRIPTOR_NUM)) [0..<unat (j - i)]"

lemma length_span [simp]: "length (span i j ring) = unat (j - i)"
  by (simp add: span_def)

lemma span_empty [simp]: "span i i ring = []"
  by (simp add: span_def)

lemma span_position: "unat (i + of_nat k :: u16) mod DESCRIPTOR_NUM = (unat i + k) mod DESCRIPTOR_NUM"
proof -
  have "unat (i + of_nat k :: u16) = (unat i + k) mod 2 ^ 16"
    by (simp add: unat_word_ariths unsigned_of_nat take_bit_eq_mod mod_add_right_eq)
  moreover have "DESCRIPTOR_NUM dvd 2 ^ 16" by (simp add: DESCRIPTOR_NUM_def)
  ultimately show ?thesis by (simp add: mod_mod_cancel)
qed

lemma span_pop:
  assumes "i \<noteq> j"
  shows "span i j ring = ring ! (unat i mod DESCRIPTOR_NUM) # span (i + 1) j ring"
proof -
  have "j - (i + 1) = (j - i) - 1" by simp
  moreover have "j - i \<noteq> 0" using assms by simp
  ultimately have len: "unat (j - i) = Suc (unat (j - (i + 1)))"
    using unat_minus_one [of "j - i"] unat_eq_0 [of "j - i"] by (simp only:) simp
  have "[0..<Suc n] = 0 # map Suc [0..<n]" for n by (simp only: upt_conv_Cons zero_less_Suc map_Suc_upt)
  then show ?thesis unfolding span_def len by (simp add: comp_def add.assoc)
qed

lemma span_Suc:
  fixes i j :: u16
  assumes "unat (j - i) + 1 < 2 ^ 16"
  shows "unat (j + 1 - i) = Suc (unat (j - i))"
proof -
  have "j + 1 - i = (j - i) + 1" by simp
  then show ?thesis using assms by (simp only: unat_word_ariths) simp
qed

lemma span_put:
  assumes "unat (j - i) < DESCRIPTOR_NUM"
  shows "span i j (ring[unat j mod DESCRIPTOR_NUM := x]) = span i j ring"
proof -
  have j: "unat j mod DESCRIPTOR_NUM = (unat i + unat (j - i)) mod DESCRIPTOR_NUM"
    using span_position [of i "unat (j - i)"] by simp
  have "unat (i + of_nat k) mod DESCRIPTOR_NUM \<noteq> unat j mod DESCRIPTOR_NUM" if "k < unat (j - i)" for k
  proof
    assume "unat (i + of_nat k) mod DESCRIPTOR_NUM = unat j mod DESCRIPTOR_NUM"
    then have "(unat i + k) mod DESCRIPTOR_NUM = (unat i + unat (j - i)) mod DESCRIPTOR_NUM"
      by (simp only: j span_position)
    then have "DESCRIPTOR_NUM dvd (unat i + unat (j - i)) - (unat i + k)"
      using that mod_eq_dvd_iff_nat [of "unat i + k" "unat i + unat (j - i)" DESCRIPTOR_NUM] by simp
    then show False using that assms by (simp add: nat_dvd_not_less)
  qed
  then show ?thesis unfolding span_def by (intro map_cong refl nth_list_update_neq) (metis atLeastLessThan_iff set_upt)
qed

lemma span_next:
  assumes "unat (j - i) < DESCRIPTOR_NUM" "ring ! (unat j mod DESCRIPTOR_NUM) = x"
  shows "span i (j + 1) ring = span i j ring @ [x]"
proof -
  have "unat (j + 1 - i) = Suc (unat (j - i))" using assms(1) by (intro span_Suc) (simp add: DESCRIPTOR_NUM_def)
  then show ?thesis using assms(2) by (simp add: span_def)
qed

subsection \<open>Who has which descriptors\<close>

definition own_ok :: "(nat \<Rightarrow> nat list) \<Rightarrow> nat set \<Rightarrow> bool" where
  "own_ok f U \<longleftrightarrow> (\<forall>p. distinct (f p)) \<and> (\<forall>p q i. i \<in> set (f p) \<longrightarrow> i \<in> set (f q) \<longrightarrow> p = q) \<and>
     (\<forall>i. i \<in> U \<longleftrightarrow> (\<exists>p. i \<in> set (f p)))"

lemma own_ok_distinct: "own_ok f U \<Longrightarrow> distinct (f p)"
  by (simp add: own_ok_def)

lemma own_ok_mem: "own_ok f U \<Longrightarrow> i \<in> set (f p) \<Longrightarrow> i \<in> U"
  by (auto simp: own_ok_def)

lemma own_ok_other: "own_ok f U \<Longrightarrow> i \<in> set (f p) \<Longrightarrow> i \<in> set (f q) \<Longrightarrow> p = q"
  by (simp add: own_ok_def)

lemma own_ok_add:
  assumes own: "own_ok f U" and i: "i \<notin> U"
  shows "own_ok (f(p := f p @ [i])) (insert i U)"
proof -
  have new: "i \<notin> set (f q)" for q using own i by (auto simp: own_ok_def)
  let ?g = "f(p := f p @ [i])"
  have mem: "j \<in> set (?g q) \<longleftrightarrow> j \<in> set (f q) \<or> q = p \<and> j = i" for j q by auto
  have "distinct (?g q)" for q using own new by (simp add: own_ok_distinct)
  moreover have "q = q'" if "j \<in> set (?g q)" "j \<in> set (?g q')" for j q q'
    using that own_ok_other [OF own, of j q q'] new by (auto simp only: mem)
  moreover have "j \<in> insert i U \<longleftrightarrow> (\<exists>q. j \<in> set (?g q))" for j
    using own by (auto simp only: mem own_ok_def)
  ultimately show ?thesis unfolding own_ok_def by blast
qed

lemma own_ok_del:
  assumes own: "own_ok f U" and p: "f p = i # is"
  shows "own_ok (f(p := is)) (U - {i})"
proof -
  have old: "i \<notin> set (f q)" if "q \<noteq> p" for q using own_ok_other [OF own, of i q p] p that by auto
  have i: "i \<notin> set is" "distinct is" using own_ok_distinct [OF own, of p] p by simp_all
  let ?g = "f(p := is)"
  have mem: "j \<in> set (?g q) \<longleftrightarrow> j \<in> set (f q) \<and> j \<noteq> i" for j q using old [of q] p i(1) by auto
  have "distinct (?g q)" for q using own_ok_distinct [OF own, of q] i by simp
  moreover have "q = q'" if "j \<in> set (?g q)" "j \<in> set (?g q')" for j q q'
    using that own_ok_other [OF own, of j q q'] by (simp only: mem)
  moreover have "j \<in> U - {i} \<longleftrightarrow> (\<exists>q. j \<in> set (?g q))" for j
    using own by (auto simp only: mem own_ok_def)
  ultimately show ?thesis unfolding own_ok_def by blast
qed

lemma own_ok_card:
  assumes own: "own_ok f U" and none: "\<And>p. NPROC \<le> p \<Longrightarrow> f p = []"
  shows "card U = (\<Sum>p<NPROC. length (f p))"
proof -
  have "U = (\<Union>p\<in>{..<NPROC}. set (f p))"
  proof -
    have "i \<in> U \<longleftrightarrow> (\<exists>p<NPROC. i \<in> set (f p))" for i
      using own none by (auto simp: own_ok_def) (metis empty_iff empty_set not_le)
    then show ?thesis by auto
  qed
  moreover have "card (\<Union>p\<in>{..<NPROC}. set (f p)) = (\<Sum>p<NPROC. card (set (f p)))"
    using own_ok_other [OF own] by (intro card_UN_disjoint) auto
  moreover have "card (set (f p)) = length (f p)" for p using own by (simp add: own_ok_def distinct_card)
  ultimately show ?thesis by simp
qed

text \<open>
  The descriptors are enough: a sum of threes in which one summand may be 2 is 8 only if that summand is there, so there
  is at most one process that has some descriptors and waits for more.
\<close>

lemma sum_threes:
  fixes g :: "nat \<Rightarrow> nat"
  assumes "finite A" and "\<And>q. q \<in> A \<Longrightarrow> 3 dvd g q"
  shows "3 dvd (\<Sum>q\<in>A. g q)"
  using assms by (intro dvd_sum) auto

lemma sum_split:
  fixes g :: "nat \<Rightarrow> nat"
  assumes "p < n"
  shows "(\<Sum>q<n. g q) = g p + (\<Sum>q\<in>{..<n} - {p}. g q)"
  using assms by (simp add: sum.remove)

lemma partial_counts:
  fixes g :: "nat \<Rightarrow> nat"
  assumes p: "p < n" "g p < 3" and sum: "(\<Sum>q<n. g q) = 8"
    and others: "\<And>q. q < n \<Longrightarrow> q \<noteq> p \<Longrightarrow> 3 dvd g q \<or> g q = 2"
    and one: "\<And>q q'. q < n \<Longrightarrow> q' < n \<Longrightarrow> q \<noteq> p \<Longrightarrow> q' \<noteq> p \<Longrightarrow> g q = 2 \<Longrightarrow> g q' = 2 \<Longrightarrow> q = q'"
  shows "g p = 0 \<or> g p = 2 \<and> (\<forall>q<n. q \<noteq> p \<longrightarrow> g q \<noteq> 2)"
proof (cases "\<exists>q<n. q \<noteq> p \<and> g q = 2")
  case True
  then obtain q where q: "q < n" "q \<noteq> p" "g q = 2" by auto
  have "3 dvd (\<Sum>i\<in>{..<n} - {p} - {q}. g i)"
  proof (intro sum_threes)
    fix i assume "i \<in> {..<n} - {p} - {q}"
    then show "3 dvd g i" using others [of i] one [of i q] q by auto
  qed simp
  then obtain m where "(\<Sum>i\<in>{..<n} - {p} - {q}. g i) = 3 * m" by (rule dvdE)
  moreover have "(\<Sum>i<n. g i) = g p + (g q + (\<Sum>i\<in>{..<n} - {p} - {q}. g i))"
    using p q by (simp add: sum_split [of p] sum.remove [of "{..<n} - {p}" q])
  ultimately have "8 = g p + (2 + 3 * m)" using sum q(3) by (simp only:)
  then have "g p = 0" using p(2) by presburger
  then show ?thesis by simp
next
  case False
  then have "3 dvd (\<Sum>i\<in>{..<n} - {p}. g i)" using others by (intro sum_threes) auto
  then obtain m where "(\<Sum>i\<in>{..<n} - {p}. g i) = 3 * m" by (rule dvdE)
  then have "8 = g p + 3 * m" using sum sum_split [OF p(1), of g] by (simp only:)
  then have "g p = 2" using p(2) by presburger
  then show ?thesis using False by blast
qed

subsection \<open>The invariant\<close>

fun descs :: "vpc \<Rightarrow> nat list" where
  "descs (VAlloc r is) = is"
| "descs (VAllocAsleep r is) = is"
| "descs (VAllocWoken r is) = is"
| "descs (VPublish r is) = is"
| "descs (VCheck r is) = is"
| "descs (VAsleep r is) = is"
| "descs (VWoken r is) = is"
| "descs (VFree r is) = is"
| "descs _ = []"

fun in_lock :: "vpc \<Rightarrow> bool" where
  "in_lock (VAlloc r is) = True"
| "in_lock (VPublish r is) = True"
| "in_lock (VCheck r is) = True"
| "in_lock (VFree r is) = True"
| "in_lock _ = False"

text \<open>The head of the chain that a process has given to the device.\<close>

fun posted :: "vpc \<Rightarrow> nat option" where
  "posted (VCheck r idx) = Some (idx ! 0)"
| "posted (VAsleep r idx) = Some (idx ! 0)"
| "posted (VWoken r idx) = Some (idx ! 0)"
| "posted _ = None"

fun partial :: "vpc \<Rightarrow> bool" where
  "partial (VAllocAsleep r got) = (got \<noteq> [])"
| "partial (VAllocWoken r got) = (got \<noteq> [])"
| "partial _ = False"

fun waits_alloc :: "vpc \<Rightarrow> bool" where
  "waits_alloc (VAllocAsleep r got) = True"
| "waits_alloc _ = False"

definition unfetched :: "'d virtio \<Rightarrow> 'd \<Rightarrow> disk \<Rightarrow> nat list" where
  "unfetched D d k = map unat (span (last_avail D d) (av_idx (avail_ring k)) (av_ring (avail_ring k)))"

definition completed :: "disk \<Rightarrow> nat list" where
  "completed k = map (unat \<circ> ue_id) (span (used_index k) (us_idx (used_elems k)) (us_ring (used_elems k)))"

definition outs :: "'d virtio \<Rightarrow> 'd \<Rightarrow> disk \<Rightarrow> nat list" where
  "outs D d k = unfetched D d k @ in_flight D d @ completed k"

definition disk_wf :: "disk \<Rightarrow> bool" where
  "disk_wf k \<longleftrightarrow> length (descriptors k) = DESCRIPTOR_NUM \<and> length (av_ring (avail_ring k)) = DESCRIPTOR_NUM \<and>
     length (us_ring (used_elems k)) = DESCRIPTOR_NUM \<and> length (infos k) = DESCRIPTOR_NUM \<and> length (ops k) = DESCRIPTOR_NUM \<and>
     bitmap_wf DESCRIPTOR_NUM (free_map k)"

definition taken :: "disk \<Rightarrow> nat set" where
  "taken k = used DESCRIPTOR_NUM (free_map k)"

definition small :: "request \<Rightarrow> bool" where
  "small r \<longleftrightarrow> unat (rq_size r) < 2 ^ 32"

definition chain_for :: "layout \<Rightarrow> request \<Rightarrow> nat list \<Rightarrow> disk \<Rightarrow> bool" where
  "chain_for L r idx k \<longleftrightarrow> length idx = 3 \<and> small r \<and> ops k ! (idx ! 0) = Some (rw_op r) \<and>
     descriptors k ! (idx ! 0) = \<lparr>desc_addr = ops_at L (idx ! 0), desc_len = BLOCK_REQUEST_SIZE,
       desc_flags = VRING_DESC_F_NEXT, desc_next = of_nat (idx ! 1)\<rparr> \<and>
     descriptors k ! (idx ! 1) = \<lparr>desc_addr = rq_addr r, desc_len = ucast (rq_size r),
       desc_flags = VRING_DESC_F_NEXT OR (if rq_write r then 0 else VRING_DESC_F_WRITE), desc_next = of_nat (idx ! 2)\<rparr> \<and>
     descriptors k ! (idx ! 2) = \<lparr>desc_addr = status_at L (idx ! 0), desc_len = 1,
       desc_flags = VRING_DESC_F_WRITE, desc_next = 0\<rparr>"

definition info_for :: "request \<Rightarrow> nat list \<Rightarrow> nat set \<Rightarrow> disk \<Rightarrow> bool" where
  "info_for r idx O' k \<longleftrightarrow> infos k ! (idx ! 0) = Some \<lparr>in_addr = rq_addr r, in_use = (idx ! 0 \<in> O'), in_status = 0\<rparr>"

fun proc_ok :: "layout \<Rightarrow> nat set \<Rightarrow> disk \<Rightarrow> vpc \<Rightarrow> bool" where
  "proc_ok L O' k VIdle = True"
| "proc_ok L O' k (VStart r) = small r"
| "proc_ok L O' k (VAlloc r got) = (small r \<and> length got \<le> 3)"
| "proc_ok L O' k (VAllocAsleep r got) = (small r \<and> (got = [] \<or> length got = 2) \<and> taken k = {..<DESCRIPTOR_NUM})"
| "proc_ok L O' k (VAllocWoken r got) = (small r \<and> (got = [] \<or> length got = 2))"
| "proc_ok L O' k (VPublish r idx) = (chain_for L r idx k \<and> infos k ! (idx ! 0) = Some (rw_info r) \<and>
     av_ring (avail_ring k) ! (unat (av_idx (avail_ring k)) mod DESCRIPTOR_NUM) = of_nat (idx ! 0))"
| "proc_ok L O' k (VCheck r idx) = (chain_for L r idx k \<and> info_for r idx O' k)"
| "proc_ok L O' k (VAsleep r idx) = (chain_for L r idx k \<and> info_for r idx O' k \<and> idx ! 0 \<in> O')"
| "proc_ok L O' k (VWoken r idx) = (chain_for L r idx k \<and> info_for r idx O' k)"
| "proc_ok L O' k (VFree r is) = (length is \<le> 3)"
| "proc_ok L O' k (VReturned r) = True"

text \<open>Two disks on which a process relies for the same things.\<close>

definition same_for :: "vpc \<Rightarrow> nat set \<Rightarrow> disk \<Rightarrow> nat set \<Rightarrow> disk \<Rightarrow> bool" where
  "same_for pc O1 k1 O2 k2 \<longleftrightarrow>
     (\<forall>i\<in>set (descs pc). descriptors k2 ! i = descriptors k1 ! i \<and> ops k2 ! i = ops k1 ! i \<and> infos k2 ! i = infos k1 ! i \<and>
        (i \<in> O2 \<longleftrightarrow> i \<in> O1)) \<and>
     (in_lock pc \<longrightarrow> avail_ring k2 = avail_ring k1) \<and> (waits_alloc pc \<longrightarrow> taken k2 = taken k1)"

lemma chain_for_cong:
  assumes "chain_for L r idx k1" "\<forall>i\<in>set idx. descriptors k2 ! i = descriptors k1 ! i \<and> ops k2 ! i = ops k1 ! i"
  shows "chain_for L r idx k2"
proof -
  have "length idx = 3" using assms(1) by (simp add: chain_for_def)
  then have "idx ! 0 \<in> set idx" "idx ! 1 \<in> set idx" "idx ! 2 \<in> set idx" by simp_all
  then show ?thesis using assms by (simp add: chain_for_def)
qed

lemma chain_for_length: "chain_for L r idx k \<Longrightarrow> length idx = 3"
  by (simp add: chain_for_def)

lemma chain_for_head: "chain_for L r idx k \<Longrightarrow> idx ! 0 \<in> set idx"
  by (simp add: chain_for_def)

lemma proc_ok_frame:
  assumes "proc_ok L O1 k1 pc" "same_for pc O1 k1 O2 k2"
  shows "proc_ok L O2 k2 pc"
proof -
  have chain: "chain_for L r idx k2" if "chain_for L r idx k1" "descs pc = idx" for r idx
    using that assms(2) chain_for_cong by (auto simp: same_for_def)
  have info: "info_for r idx O2 k2" if "info_for r idx O1 k1" "chain_for L r idx k1" "descs pc = idx" for r idx
    using that assms(2) chain_for_head [OF that(2)] by (auto simp: same_for_def info_for_def)
  show ?thesis using assms chain info chain_for_head
    by (cases pc) (auto simp: same_for_def)
qed

definition vinv :: "layout \<Rightarrow> 'd virtio \<Rightarrow> 'd vstate \<Rightarrow> bool" where
  "vinv L D s \<longleftrightarrow> (let outs' = outs D (vdev s) (vdk s) in
     (\<forall>p. in_lock (vpcs s p) \<longleftrightarrow> vowner s = Some (ByProcess p)) \<and> (\<forall>p\<ge>NPROC. vpcs s p = VIdle) \<and>
     disk_wf (vdk s) \<and> own_ok (descs \<circ> vpcs s) (taken (vdk s)) \<and> (\<forall>p. proc_ok L (set outs') (vdk s) (vpcs s p)) \<and>
     (\<forall>p q. partial (vpcs s p) \<longrightarrow> partial (vpcs s q) \<longrightarrow> p = q) \<and>
     distinct outs' \<and> (\<forall>h\<in>set outs'. \<exists>p. posted (vpcs s p) = Some h))"

abbreviation vouts :: "'d virtio \<Rightarrow> 'd vstate \<Rightarrow> nat list" where
  "vouts D s \<equiv> outs D (vdev s) (vdk s)"

lemma vinvD:
  assumes "vinv L D s"
  shows "in_lock (vpcs s p) \<longleftrightarrow> vowner s = Some (ByProcess p)" "NPROC \<le> p \<Longrightarrow> vpcs s p = VIdle" "disk_wf (vdk s)"
    "own_ok (descs \<circ> vpcs s) (taken (vdk s))" "proc_ok L (set (vouts D s)) (vdk s) (vpcs s p)"
    "partial (vpcs s p) \<Longrightarrow> partial (vpcs s q) \<Longrightarrow> p = q" "distinct (vouts D s)"
    "h \<in> set (vouts D s) \<Longrightarrow> \<exists>p. posted (vpcs s p) = Some h"
  using assms unfolding vinv_def Let_def by blast+

text \<open>A step that moves process \<open>p\<close> to \<open>c\<close> and leaves what the others rely on.\<close>

lemma vinv_move:
  assumes inv: "vinv L D s" and p: "p < NPROC" and pcs: "vpcs s' = (vpcs s)(p := c)"
    and owner: "\<And>q. q \<noteq> p \<Longrightarrow> vowner s' = Some (ByProcess q) \<longleftrightarrow> vowner s = Some (ByProcess q)"
      "in_lock c \<longleftrightarrow> vowner s' = Some (ByProcess p)"
    and wf: "disk_wf (vdk s')" and own: "own_ok ((descs \<circ> vpcs s)(p := descs c)) (taken (vdk s'))"
    and mine: "proc_ok L (set (vouts D s')) (vdk s') c"
    and others: "\<And>q. q \<noteq> p \<Longrightarrow> same_for (vpcs s q) (set (vouts D s)) (vdk s) (set (vouts D s')) (vdk s')"
    and part: "partial c \<Longrightarrow> (\<forall>q. q \<noteq> p \<longrightarrow> \<not> partial (vpcs s q))"
    and dist: "distinct (vouts D s')"
    and heads: "\<And>h. h \<in> set (vouts D s') \<Longrightarrow> posted c = Some h \<or> h \<in> set (vouts D s) \<and> posted (vpcs s p) \<noteq> Some h"
  shows "vinv L D s'"
proof -
  note D = vinvD [OF inv]
  have "in_lock (vpcs s' q) \<longleftrightarrow> vowner s' = Some (ByProcess q)" for q using D(1) [of q] owner by (simp add: pcs)
  moreover have "vpcs s' q = VIdle" if "NPROC \<le> q" for q using D(2) [OF that] that p by (simp add: pcs)
  moreover have "descs \<circ> vpcs s' = (descs \<circ> vpcs s)(p := descs c)" by (auto simp: pcs)
  moreover have "proc_ok L (set (vouts D s')) (vdk s') (vpcs s' q)" for q
    using mine others [of q] D(5) [of q] proc_ok_frame by (auto simp: pcs)
  moreover have "q = q'" if "partial (vpcs s' q)" "partial (vpcs s' q')" for q q'
    using that part D(6) [of q q'] by (auto simp: pcs split: if_splits)
  moreover have "\<exists>q. posted (vpcs s' q) = Some h" if h: "h \<in> set (vouts D s')" for h
  proof (cases "posted c = Some h")
    case True
    then show ?thesis by (intro exI [of _ p]) (simp add: pcs)
  next
    case False
    then obtain q where "posted (vpcs s q) = Some h" "posted (vpcs s p) \<noteq> Some h" using heads [OF h] D(8) [of h] by auto
    then show ?thesis by (intro exI [of _ q]) (auto simp: pcs)
  qed
  ultimately show ?thesis using wf own dist unfolding vinv_def Let_def by auto
qed

lemma vgoto_simps [simp]:
  "vdma (vgoto p c s) = vdma s" "vdev (vgoto p c s) = vdev s" "vowner (vgoto p c s) = vowner s" "vpcs (vgoto p c s) = (vpcs s)(p := c)"
  "vdma (set_vowner w s) = vdma s" "vdev (set_vowner w s) = vdev s" "vowner (set_vowner w s) = w" "vpcs (set_vowner w s) = vpcs s"
  "vdk (set_vdk k s) = k" "vdev (set_vdk k s) = vdev s" "vowner (set_vdk k s) = vowner s" "vpcs (set_vdk k s) = vpcs s"
  "vdma (set_vdev d s) = vdma s" "vdev (set_vdev d s) = d" "vowner (set_vdev d s) = vowner s" "vpcs (set_vdev d s) = vpcs s"
  "vdk (vgoto p c s) = vdk s" "vdk (set_vowner w s) = vdk s" "vdk (set_vdev d s) = vdk s"
  by (simp_all add: vgoto_def set_vowner_def set_vdk_def set_vdev_def vdk_def)

lemma vwakeup_simps [simp]:
  "vdma (vwakeup L c s) = vdma s" "vdev (vwakeup L c s) = vdev s" "vowner (vwakeup L c s) = vowner s"
  "vpcs (vwakeup L c s) = wake_pc L c \<circ> vpcs s" "vdk (vwakeup L c s) = vdk s"
  by (simp_all add: vwakeup_def vdk_def)

lemma same_for_refl [simp]: "same_for pc O1 k O1 k"
  by (simp add: same_for_def)

lemma vinv_none: "vinv L D s \<Longrightarrow> vowner s = None \<Longrightarrow> \<not> in_lock (vpcs s q)"
  using vinvD(1) [of L D s q] by simp

text \<open>A step that changes only where process \<open>p\<close> stands and who has the lock.\<close>

lemma vinv_shift:
  assumes inv: "vinv L D s" and p: "p < NPROC"
    and owner: "\<And>q. q \<noteq> p \<Longrightarrow> w = Some (ByProcess q) \<longleftrightarrow> vowner s = Some (ByProcess q)" "in_lock c \<longleftrightarrow> w = Some (ByProcess p)"
    and descs: "descs c = descs (vpcs s p)" and posted: "posted c = posted (vpcs s p)"
    and mine: "proc_ok L (set (vouts D s)) (vdk s) c"
    and part: "partial c \<Longrightarrow> (\<forall>q. q \<noteq> p \<longrightarrow> \<not> partial (vpcs s q))"
  shows "vinv L D (vgoto p c (set_vowner w s))"
proof (rule vinv_move [OF inv p, where c = c])
  show "own_ok ((descs \<circ> vpcs s)(p := descs c)) (taken (vdk (vgoto p c (set_vowner w s))))"
    using vinvD(4) [OF inv] descs by (simp add: fun_upd_idem)
  show "posted c = Some h \<or> h \<in> set (vouts D s) \<and> posted (vpcs s p) \<noteq> Some h"
    if "h \<in> set (vouts D (vgoto p c (set_vowner w s)))" for h using that posted by auto
qed (use assms vinvD [OF inv] in \<open>simp_all\<close>)

lemma set_vowner_same: "set_vowner (vowner s) s = s"
  by (simp add: set_vowner_def)

lemma partial_only:
  assumes "vinv L D s" "partial (vpcs s p)"
  shows "\<forall>q. q \<noteq> p \<longrightarrow> \<not> partial (vpcs s q)"
  using assms vinvD(6) by blast

subsection \<open>Steps of a process\<close>

lemma vinv_lock:
  assumes inv: "vinv L D s" and p: "p < NPROC" and free: "vowner s = None"
    and pc: "(\<exists>r. vpcs s p = VStart r \<and> c = VAlloc r []) \<or> (\<exists>r got. vpcs s p = VAllocWoken r got \<and> c = VAlloc r got) \<or>
      (\<exists>r idx. vpcs s p = VWoken r idx \<and> c = VCheck r idx)"
  shows "vinv L D (vgoto p c (set_vowner (Some (ByProcess p)) s))"
proof (rule vinv_shift [OF inv p])
  show "proc_ok L (set (vouts D s)) (vdk s) c" using pc vinvD(5) [OF inv, of p] by auto
qed (use pc free in auto)

lemma vinv_call:
  assumes "vinv L D s" "p < NPROC" "vpcs s p = VIdle" "small r"
  shows "vinv L D (vgoto p (VStart r) s)"
  using vinv_shift [of L D s p "vowner s" "VStart r"] assms vinvD(1) [OF assms(1), of p]
  by (simp add: set_vowner_same)

lemma vinv_return:
  assumes "vinv L D s" "p < NPROC" "vpcs s p = VReturned r"
  shows "vinv L D (vgoto p VIdle s)"
  using vinv_shift [of L D s p "vowner s" VIdle] assms vinvD(1) [OF assms(1), of p]
  by (simp add: set_vowner_same)

lemma vinv_killed:
  assumes inv: "vinv L D s" and p: "p < NPROC"
    and pc: "(\<exists>r got. vpcs s p = VAllocAsleep r got \<and> c = VAllocWoken r got) \<or> (\<exists>r idx. vpcs s p = VAsleep r idx \<and> c = VWoken r idx)"
  shows "vinv L D (vgoto p c s)"
proof -
  have "vinv L D (vgoto p c (set_vowner (vowner s) s))"
  proof (rule vinv_shift [OF inv p])
    show "proc_ok L (set (vouts D s)) (vdk s) c" using pc vinvD(5) [OF inv, of p] by auto
    show "in_lock c \<longleftrightarrow> vowner s = Some (ByProcess p)" using pc vinvD(1) [OF inv, of p] by auto
    show "\<forall>q. q \<noteq> p \<longrightarrow> \<not> partial (vpcs s q)" if "partial c" using that pc by (intro partial_only [OF inv]) auto
  qed (use pc in auto)
  then show ?thesis by (simp add: set_vowner_same)
qed

lemma wake_pc_simps [simp]:
  "descs (wake_pc L c pc) = descs pc" "in_lock (wake_pc L c pc) = in_lock pc" "posted (wake_pc L c pc) = posted pc"
  "partial (wake_pc L c pc) = partial pc" "wake_pc L c pc = VIdle \<longleftrightarrow> pc = VIdle"
  by (cases pc; simp)+

lemma proc_ok_wake: "proc_ok L O1 k pc \<Longrightarrow> proc_ok L O1 k (wake_pc L c pc)"
  by (cases pc) auto

lemma vinv_wakeup:
  assumes inv: "vinv L D s"
  shows "vinv L D (vwakeup L c s)"
proof -
  have "descs \<circ> (wake_pc L c \<circ> vpcs s) = descs \<circ> vpcs s" by auto
  then show ?thesis using inv proc_ok_wake by (auto simp: vinv_def Let_def)
qed

lemma outs_cong:
  "avail_ring k' = avail_ring k \<Longrightarrow> used_elems k' = used_elems k \<Longrightarrow> used_index k' = used_index k \<Longrightarrow> outs D d k' = outs D d k"
  by (simp add: outs_def unfetched_def completed_def)

lemma taken_bound: "taken k \<subseteq> {..<DESCRIPTOR_NUM}"
  by (simp add: taken_def used_bound)

lemma descs_bound:
  assumes "vinv L D s" "i \<in> set (descs (vpcs s p))"
  shows "i < DESCRIPTOR_NUM" "i \<in> taken (vdk s)"
proof -
  show t: "i \<in> taken (vdk s)" using own_ok_mem [OF vinvD(4) [OF assms(1)], of i p] assms(2) by simp
  then show "i < DESCRIPTOR_NUM" using taken_bound by blast
qed

lemma posted_descs:
  assumes "vinv L D s" "posted (vpcs s p) = Some h"
  shows "h \<in> set (descs (vpcs s p))"
  using assms(2) vinvD(5) [OF assms(1), of p] chain_for_head by (cases "vpcs s p") auto

lemma descs_other: "vinv L D s \<Longrightarrow> i \<in> set (descs (vpcs s p)) \<Longrightarrow> i \<in> set (descs (vpcs s q)) \<Longrightarrow> p = q"
  using own_ok_other [OF vinvD(4), of L D s i p q] by simp

lemma outs_taken: "vinv L D s \<Longrightarrow> set (vouts D s) \<subseteq> taken (vdk s)"
  using vinvD(8) posted_descs descs_bound(2) by blast

lemma outs_length: "vinv L D s \<Longrightarrow> length (vouts D s) \<le> DESCRIPTOR_NUM"
  using outs_taken [of L D s] taken_bound [of "vdk s"] vinvD(7) [of L D s]
  by (metis card_lessThan card_mono distinct_card finite_lessThan order_trans)

lemma not_posted:
  assumes inv: "vinv L D s" and i: "i \<in> set (descs (vpcs s p))" and none: "posted (vpcs s p) = None"
  shows "i \<notin> set (vouts D s)" "length (vouts D s) < DESCRIPTOR_NUM"
proof -
  show new: "i \<notin> set (vouts D s)"
  proof
    assume "i \<in> set (vouts D s)"
    then obtain q where q: "posted (vpcs s q) = Some i" using vinvD(8) [OF inv] by blast
    then have "q = p" using descs_other [OF inv] posted_descs [OF inv q] i by blast
    then show False using q none by simp
  qed
  have "insert i (set (vouts D s)) \<subseteq> {..<DESCRIPTOR_NUM}"
    using outs_taken [OF inv] taken_bound descs_bound(1) [OF inv i] by blast
  then have "card (insert i (set (vouts D s))) \<le> DESCRIPTOR_NUM" using card_mono [of "{..<DESCRIPTOR_NUM}"] by fastforce
  then show "length (vouts D s) < DESCRIPTOR_NUM" using new distinct_card [OF vinvD(7) [OF inv]] by simp
qed

lemma allocate_descriptor_Some:
  assumes "disk_wf k" "allocate_descriptor k = Some (Some i, k')"
  shows "i < DESCRIPTOR_NUM" "i \<notin> taken k" "taken k' = insert i (taken k)" "disk_wf k'" "\<exists>b. k' = k\<lparr>free_map := b\<rparr>"
  using assms bm.acquire_Some [of DESCRIPTOR_NUM "free_map k" i]
  by (auto simp: allocate_descriptor_def disk_wf_def taken_def split: Option.bind_splits)

lemma allocate_descriptor_None:
  assumes "disk_wf k" "allocate_descriptor k = Some (None, k')"
  shows "taken k = {..<DESCRIPTOR_NUM}" "k' = k"
  using assms bm.acquire_None [of DESCRIPTOR_NUM "free_map k"]
  by (auto simp: allocate_descriptor_def disk_wf_def taken_def split: Option.bind_splits)

lemma vinv_alloc:
  assumes inv: "vinv L D s" and p: "p < NPROC" and pc: "vpcs s p = VAlloc r got" and len: "length got < 3"
    and a: "allocate_descriptor (vdk s) = Some (Some i, k)"
  shows "vinv L D (vgoto p (VAlloc r (got @ [i])) (set_vdk k s))"
proof -
  note A = allocate_descriptor_Some [OF vinvD(3) [OF inv] a]
  obtain b where k: "k = (vdk s)\<lparr>free_map := b\<rparr>" using A(5) by blast
  have outs: "outs D d k = outs D d (vdk s)" for d by (rule outs_cong) (simp_all add: k)
  have room: "\<not> waits_alloc (vpcs s q)" for q
    using vinvD(5) [OF inv, of q] A(1,2) by (cases "vpcs s q") auto
  show ?thesis
  proof (rule vinv_move [OF inv p, where c = "VAlloc r (got @ [i])"])
    show "own_ok ((descs \<circ> vpcs s)(p := descs (VAlloc r (got @ [i])))) (taken (vdk (vgoto p (VAlloc r (got @ [i])) (set_vdk k s))))"
      using own_ok_add [OF vinvD(4) [OF inv] A(2), of p] by (simp add: pc A(3))
    show "same_for (vpcs s q) (set (vouts D s)) (vdk s) (set (vouts D (vgoto p (VAlloc r (got @ [i])) (set_vdk k s))))
        (vdk (vgoto p (VAlloc r (got @ [i])) (set_vdk k s)))" for q
      using room [of q] outs by (simp add: same_for_def k)
  qed (use inv p pc len A outs vinvD(1) [OF inv, of p] vinvD(5) [OF inv, of p] vinvD(7) [OF inv] in \<open>simp_all\<close>)
qed

lemma proc_ok_length:
  assumes "proc_ok L O1 k pc" "\<not> in_lock pc"
  shows "length (descs pc) \<in> {0, 2, 3}" "length (descs pc) = 2 \<longleftrightarrow> partial pc"
  using assms chain_for_length by (cases pc; fastforce)+

lemma length_descs_other:
  assumes inv: "vinv L D s" and pc: "\<not> in_lock (vpcs s q)"
  shows "3 dvd length (descs (vpcs s q)) \<or> length (descs (vpcs s q)) = 2" "length (descs (vpcs s q)) = 2 \<longleftrightarrow> partial (vpcs s q)"
  using proc_ok_length [OF vinvD(5) [OF inv] pc] by auto

lemma descs_sum:
  assumes inv: "vinv L D s" and full: "taken (vdk s) = {..<DESCRIPTOR_NUM}"
  shows "(\<Sum>q<NPROC. length (descs (vpcs s q))) = 8"
  using own_ok_card [OF vinvD(4) [OF inv]] vinvD(2) [OF inv] full by (simp add: DESCRIPTOR_NUM_def)

lemma vinv_alloc_sleep:
  assumes inv: "vinv L D s" and p: "p < NPROC" and pc: "vpcs s p = VAlloc r got" and len: "length got < 3"
    and full: "taken (vdk s) = {..<DESCRIPTOR_NUM}"
  shows "vinv L D (vgoto p (VAllocAsleep r got) (set_vowner None s))"
proof -
  have owner: "vowner s = Some (ByProcess p)" using vinvD(1) [OF inv, of p] pc by simp
  have nolock: "\<not> in_lock (vpcs s q)" if "q \<noteq> p" for q using vinvD(1) [OF inv, of q] owner that by simp
  let ?g = "\<lambda>q. length (descs (vpcs s q))"
  have "?g p = 0 \<or> ?g p = 2 \<and> (\<forall>q<NPROC. q \<noteq> p \<longrightarrow> ?g q \<noteq> 2)"
  proof (rule partial_counts [OF p])
    show "?g p < 3" using len pc by simp
    show "(\<Sum>q<NPROC. ?g q) = 8" by (rule descs_sum [OF inv full])
    show "3 dvd ?g q \<or> ?g q = 2" if "q \<noteq> p" for q by (rule length_descs_other(1) [OF inv nolock [OF that]])
    show "q = q'" if "q \<noteq> p" "q' \<noteq> p" "?g q = 2" "?g q' = 2" for q q'
      using vinvD(6) [OF inv] length_descs_other(2) [OF inv nolock] that by blast
  qed
  then have "got = [] \<or> length got = 2 \<and> (\<forall>q<NPROC. q \<noteq> p \<longrightarrow> ?g q \<noteq> 2)" using pc by simp
  moreover have "\<not> partial (vpcs s q)" if "q \<noteq> p" "\<forall>q<NPROC. q \<noteq> p \<longrightarrow> length (descs (vpcs s q)) \<noteq> 2" for q
  proof (cases "q < NPROC")
    case True
    then show ?thesis using that vinvD(5) [OF inv, of q] by (cases "vpcs s q") auto
  qed (use vinvD(2) [OF inv, of q] in simp)
  ultimately have got: "got = [] \<or> length got = 2 \<and> (\<forall>q. q \<noteq> p \<longrightarrow> \<not> partial (vpcs s q))" by blast
  show ?thesis
  proof (rule vinv_shift [OF inv p])
    show "proc_ok L (set (vouts D s)) (vdk s) (VAllocAsleep r got)" using got full pc vinvD(5) [OF inv, of p] by auto
    show "\<forall>q. q \<noteq> p \<longrightarrow> \<not> partial (vpcs s q)" if "partial (VAllocAsleep r got)" using that got by auto
  qed (use pc owner in auto)
qed

lemma rw_fill_spec:
  assumes wf: "disk_wf k" and len: "length idx = 3" and bound: "\<forall>i\<in>set idx. i < DESCRIPTOR_NUM" and dist: "distinct idx" and "small r"
  obtains k' where "rw_fill L r idx k = Some k'" "chain_for L r idx k'" "infos k' ! (idx ! 0) = Some (rw_info r)"
    "avail_ring k' = (avail_ring k)\<lparr>av_ring := (av_ring (avail_ring k))[unat (av_idx (avail_ring k)) mod DESCRIPTOR_NUM := of_nat (idx ! 0)]\<rparr>"
    "disk_wf k'" "free_map k' = free_map k" "used_elems k' = used_elems k" "used_index k' = used_index k"
    "\<And>i. i \<notin> set idx \<Longrightarrow> descriptors k' ! i = descriptors k ! i \<and> ops k' ! i = ops k ! i \<and> infos k' ! i = infos k ! i"
proof -
  obtain i0 i1 i2 where idx: "idx = [i0, i1, i2]" using len by (auto simp: numeral_3_eq_3 length_Suc_conv)
  have i: "i0 < DESCRIPTOR_NUM" "i1 < DESCRIPTOR_NUM" "i2 < DESCRIPTOR_NUM" "i0 \<noteq> i1" "i0 \<noteq> i2" "i1 \<noteq> i2" "i1 \<noteq> i0" "i2 \<noteq> i0" "i2 \<noteq> i1"
    using bound dist by (auto simp: idx)
  obtain k' where k': "rw_fill L r idx k = Some k'" using i by (simp add: rw_fill_def idx Let_def)
  show ?thesis
  proof (rule that [OF k'])
    show "chain_for L r idx k'" using k' wf i \<open>small r\<close> by (auto simp: rw_fill_def idx Let_def disk_wf_def chain_for_def)
  qed (use k' wf i in \<open>auto simp: rw_fill_def idx Let_def disk_wf_def\<close>)
qed

lemma same_for_owned:
  assumes inv: "vinv L D s" and q: "q \<noteq> p"
    and same: "\<And>i. i \<notin> set (descs (vpcs s p)) \<Longrightarrow> descriptors k' ! i = descriptors (vdk s) ! i \<and> ops k' ! i = ops (vdk s) ! i \<and>
      infos k' ! i = infos (vdk s) ! i \<and> (i \<in> O' \<longleftrightarrow> i \<in> set (vouts D s))"
    and lock: "in_lock (vpcs s p) \<or> avail_ring k' = avail_ring (vdk s)" and "waits_alloc (vpcs s q) \<Longrightarrow> taken k' = taken (vdk s)"
  shows "same_for (vpcs s q) (set (vouts D s)) (vdk s) O' k'"
proof -
  have "i \<notin> set (descs (vpcs s p))" if "i \<in> set (descs (vpcs s q))" for i using descs_other [OF inv _ that] q by blast
  moreover have "\<not> in_lock (vpcs s q)" if "in_lock (vpcs s p)" using that vinvD(1) [OF inv] q by (metis option.inject vholder.inject)
  ultimately show ?thesis using assms by (auto simp: same_for_def)
qed

lemma unat_of_nat_desc [simp]: "i < DESCRIPTOR_NUM \<Longrightarrow> unat (of_nat i :: u16) = i" "i < DESCRIPTOR_NUM \<Longrightarrow> unat (of_nat i :: u32) = i"
  by (simp_all add: DESCRIPTOR_NUM_def unsigned_of_nat take_bit_nat_eq_self)

lemma vinv_fill:
  assumes inv: "vinv L D s" and p: "p < NPROC" and pc: "vpcs s p = VAlloc r idx" and len: "\<not> length idx < 3"
  shows "\<exists>k. rw_fill L r idx (vdk s) = Some k \<and> vinv L D (vgoto p (VPublish r idx) (set_vdk k s))"
proof -
  have idx: "length idx = 3" "\<forall>i\<in>set idx. i < DESCRIPTOR_NUM" "distinct idx" "small r"
    using vinvD(5) [OF inv, of p] descs_bound(1) [OF inv, of _ p] own_ok_distinct [OF vinvD(4) [OF inv], of p] pc len by auto
  obtain k' where fill: "rw_fill L r idx (vdk s) = Some k'" "chain_for L r idx k'" "infos k' ! (idx ! 0) = Some (rw_info r)"
    "avail_ring k' = (avail_ring (vdk s))\<lparr>av_ring := (av_ring (avail_ring (vdk s)))[unat (av_idx (avail_ring (vdk s))) mod DESCRIPTOR_NUM := of_nat (idx ! 0)]\<rparr>"
    "disk_wf k'" "free_map k' = free_map (vdk s)" "used_elems k' = used_elems (vdk s)" "used_index k' = used_index (vdk s)"
    "\<And>i. i \<notin> set idx \<Longrightarrow> descriptors k' ! i = descriptors (vdk s) ! i \<and> ops k' ! i = ops (vdk s) ! i \<and> infos k' ! i = infos (vdk s) ! i"
    using rw_fill_spec [OF vinvD(3) [OF inv] idx] by metis
  have "idx ! 0 \<in> set (descs (vpcs s p))" using idx(1) pc by simp
  then have "length (vouts D s) < DESCRIPTOR_NUM" by (rule not_posted(2) [OF inv]) (simp add: pc)
  then have "unat (av_idx (avail_ring (vdk s)) - last_avail D (vdev s)) < DESCRIPTOR_NUM" by (simp add: outs_def unfetched_def)
  then have outs: "outs D (vdev s) k' = vouts D s" using fill(4,7,8) by (simp add: outs_def unfetched_def completed_def span_put)
  have taken: "taken k' = taken (vdk s)" using fill(6) by (simp add: taken_def)
  have "vinv L D (vgoto p (VPublish r idx) (set_vdk k' s))"
  proof (rule vinv_move [OF inv p, where c = "VPublish r idx"])
    show "own_ok ((descs \<circ> vpcs s)(p := descs (VPublish r idx))) (taken (vdk (vgoto p (VPublish r idx) (set_vdk k' s))))"
      using vinvD(4) [OF inv] pc taken by (simp add: fun_upd_idem)
    show "same_for (vpcs s q) (set (vouts D s)) (vdk s) (set (vouts D (vgoto p (VPublish r idx) (set_vdk k' s)))) (vdk (vgoto p (VPublish r idx) (set_vdk k' s)))"
      if "q \<noteq> p" for q by (rule same_for_owned [OF inv that]) (use fill(9) pc outs taken in auto)
    show "proc_ok L (set (vouts D (vgoto p (VPublish r idx) (set_vdk k' s)))) (vdk (vgoto p (VPublish r idx) (set_vdk k' s))) (VPublish r idx)"
      using fill(2-5) by (simp add: disk_wf_def DESCRIPTOR_NUM_def)
  qed (use inv p pc outs fill vinvD(1) [OF inv, of p] vinvD(7) [OF inv] in \<open>simp_all\<close>)
  then show ?thesis using fill(1) by blast
qed

lemma outs_publish:
  assumes "unat (av_idx (avail_ring k) - last_avail D d) < DESCRIPTOR_NUM" "same_queue D d d'"
    "av_ring (avail_ring k) ! (unat (av_idx (avail_ring k)) mod DESCRIPTOR_NUM) = of_nat h" "h < DESCRIPTOR_NUM"
  shows "outs D d' (rw_publish k) = unfetched D d k @ [h] @ in_flight D d @ completed k"
  using assms span_next [of "av_idx (avail_ring k)" "last_avail D d" "av_ring (avail_ring k)"]
  by (simp add: outs_def unfetched_def completed_def rw_publish_def same_queue_def)

lemma publish_ready:
  assumes inv: "vinv L D s" and pc: "vpcs s p = VPublish r idx"
  shows "chain_for L r idx (vdk s)" "infos (vdk s) ! (idx ! 0) = Some (rw_info r)"
    "av_ring (avail_ring (vdk s)) ! (unat (av_idx (avail_ring (vdk s))) mod DESCRIPTOR_NUM) = of_nat (idx ! 0)"
    "idx ! 0 \<in> set (descs (vpcs s p))" "unat (av_idx (avail_ring (vdk s)) - last_avail D (vdev s)) < DESCRIPTOR_NUM"
proof -
  show ok: "chain_for L r idx (vdk s)" "infos (vdk s) ! (idx ! 0) = Some (rw_info r)"
    "av_ring (avail_ring (vdk s)) ! (unat (av_idx (avail_ring (vdk s))) mod DESCRIPTOR_NUM) = of_nat (idx ! 0)"
    using vinvD(5) [OF inv, of p] pc by auto
  show h: "idx ! 0 \<in> set (descs (vpcs s p))" using chain_for_head [OF ok(1)] pc by simp
  have "length (vouts D s) < DESCRIPTOR_NUM" using not_posted(2) [OF inv h] pc by simp
  then show "unat (av_idx (avail_ring (vdk s)) - last_avail D (vdev s)) < DESCRIPTOR_NUM" by (simp add: outs_def unfetched_def)
qed

lemma vinv_publish:
  assumes inv: "vinv L D s" and p: "p < NPROC" and pc: "vpcs s p = VPublish r idx" and d: "same_queue D (vdev s) d"
  shows "vinv L D (vgoto p (VCheck r idx) (set_vdev d (set_vdk (rw_publish (vdk s)) s)))" (is "vinv L D ?s")
proof -
  note ok = publish_ready [OF inv pc] and h = publish_ready(4) [OF inv pc]
  have new: "idx ! 0 \<notin> set (vouts D s)" using not_posted(1) [OF inv h] pc by simp
  have outs: "vouts D ?s = unfetched D (vdev s) (vdk s) @ [idx ! 0] @ in_flight D (vdev s) @ completed (vdk s)"
    using outs_publish [OF ok(5) d ok(3) descs_bound(1) [OF inv h]] by simp
  have set: "set (vouts D ?s) = insert (idx ! 0) (set (vouts D s))" unfolding outs by (auto simp: outs_def)
  have chain: "chain_for L r idx (vdk ?s)" using chain_for_cong [OF ok(1), of "vdk ?s"] by (simp add: rw_publish_def)
  show ?thesis
  proof (rule vinv_move [OF inv p, where c = "VCheck r idx"])
    show "own_ok ((descs \<circ> vpcs s)(p := descs (VCheck r idx))) (taken (vdk ?s))"
      using vinvD(4) [OF inv] pc by (simp add: fun_upd_idem taken_def rw_publish_def)
    show "same_for (vpcs s q) (set (vouts D s)) (vdk s) (set (vouts D ?s)) (vdk ?s)" if "q \<noteq> p" for q
    proof (rule same_for_owned [OF inv that])
      show "descriptors (vdk ?s) ! i = descriptors (vdk s) ! i \<and> ops (vdk ?s) ! i = ops (vdk s) ! i \<and> infos (vdk ?s) ! i = infos (vdk s) ! i \<and>
          (i \<in> set (vouts D ?s) \<longleftrightarrow> i \<in> set (vouts D s))" if "i \<notin> set (descs (vpcs s p))" for i
        using that h unfolding set by (auto simp: rw_publish_def)
    qed (use pc in \<open>simp_all add: taken_def rw_publish_def\<close>)
    show "proc_ok L (set (vouts D ?s)) (vdk ?s) (VCheck r idx)"
      unfolding set using chain ok(2) by (simp add: info_for_def rw_info_def rw_publish_def)
    show "distinct (vouts D ?s)" unfolding outs using vinvD(7) [OF inv] new by (auto simp: outs_def)
    show "posted (VCheck r idx) = Some h \<or> h \<in> set (vouts D s) \<and> posted (vpcs s p) \<noteq> Some h" if "h \<in> set (vouts D ?s)" for h
      using that pc unfolding set by auto
  qed (use vinvD(1) [OF inv, of p] vinvD(3) [OF inv] pc in \<open>simp_all add: disk_wf_def rw_publish_def\<close>)
qed

lemma read_in_use_eq: "info_for r idx O1 k \<Longrightarrow> read_in_use idx k = Some (idx ! 0 \<in> O1)"
  by (simp add: read_in_use_def info_for_def)

lemma vinv_check:
  assumes inv: "vinv L D s" and p: "p < NPROC" and pc: "vpcs s p = VCheck r idx"
  shows "\<exists>b. read_in_use idx (vdk s) = Some b \<and>
    vinv L D (if b then vgoto p (VAsleep r idx) (set_vowner None s) else vgoto p (VFree r idx) s)"
proof -
  have ok: "chain_for L r idx (vdk s)" "info_for r idx (set (vouts D s)) (vdk s)" using vinvD(5) [OF inv, of p] pc by auto
  have owner: "vowner s = Some (ByProcess p)" using vinvD(1) [OF inv, of p] pc by simp
  have asleep: "vinv L D (vgoto p (VAsleep r idx) (set_vowner None s))" if "idx ! 0 \<in> set (vouts D s)"
    by (rule vinv_shift [OF inv p]) (use that ok pc owner in auto)
  have finish: "vinv L D (vgoto p (VFree r idx) s)" if "idx ! 0 \<notin> set (vouts D s)"
  proof (rule vinv_move [OF inv p, where c = "VFree r idx"])
    show "own_ok ((descs \<circ> vpcs s)(p := descs (VFree r idx))) (taken (vdk (vgoto p (VFree r idx) s)))"
      using vinvD(4) [OF inv] pc by (simp add: fun_upd_idem)
    show "posted (VFree r idx) = Some h \<or> h \<in> set (vouts D s) \<and> posted (vpcs s p) \<noteq> Some h"
      if "h \<in> set (vouts D (vgoto p (VFree r idx) s))" for h using that pc \<open>idx ! 0 \<notin> set (vouts D s)\<close> by auto
  qed (use owner vinvD(3,7) [OF inv] chain_for_length [OF ok(1)] in simp_all)
  show ?thesis using asleep finish by (simp add: read_in_use_eq [OF ok(2)])
qed

lemma free_descriptor_spec:
  assumes "disk_wf k" "i \<in> taken k"
  obtains b where "free_descriptor i k = Some (k\<lparr>free_map := b\<rparr>)" "disk_wf (k\<lparr>free_map := b\<rparr>)" "taken (k\<lparr>free_map := b\<rparr>) = taken k - {i}"
  using assms bm.release_taken [of DESCRIPTOR_NUM "free_map k" i]
  by (auto simp: free_descriptor_def disk_wf_def taken_def)

lemma vwakeup_set_vdk: "vwakeup L c (set_vdk k s) = set_vdk k (vwakeup L c s)"
  by (simp add: vwakeup_def set_vdk_def)

lemma vinv_free:
  assumes inv: "vinv L D s" and p: "p < NPROC" and pc: "vpcs s p = VFree r (i # is)"
  shows "\<exists>k. free_descriptor i (vdk s) = Some k \<and> vinv L D (vgoto p (VFree r is) (vwakeup L (disk_at L) (set_vdk k s)))"
proof -
  let ?w = "vwakeup L (disk_at L) s"
  have inv': "vinv L D ?w" by (rule vinv_wakeup [OF inv])
  have pc': "vpcs ?w p = VFree r (i # is)" using pc by simp
  have "i \<in> taken (vdk s)" using descs_bound(2) [OF inv, of i p] pc by simp
  then obtain b where b: "free_descriptor i (vdk s) = Some ((vdk s)\<lparr>free_map := b\<rparr>)" "disk_wf ((vdk s)\<lparr>free_map := b\<rparr>)"
      "taken ((vdk s)\<lparr>free_map := b\<rparr>) = taken (vdk s) - {i}"
    using free_descriptor_spec [OF vinvD(3) [OF inv]] by metis
  let ?k = "(vdk s)\<lparr>free_map := b\<rparr>"
  let ?s = "vgoto p (VFree r is) (set_vdk ?k ?w)"
  have outs: "outs D d ?k = outs D d (vdk s)" for d by (rule outs_cong) simp_all
  have awake: "\<not> waits_alloc (vpcs ?w q)" for q by (cases "vpcs s q") simp_all
  have "vinv L D ?s"
  proof (rule vinv_move [OF inv' p, where c = "VFree r is"])
    show "own_ok ((descs \<circ> vpcs ?w)(p := descs (VFree r is))) (taken (vdk ?s))"
      using own_ok_del [OF vinvD(4) [OF inv'], of p i "is"] pc b(3) by simp
    show "same_for (vpcs ?w q) (set (vouts D ?w)) (vdk ?w) (set (vouts D ?s)) (vdk ?s)" for q
      using awake [of q] by (simp add: same_for_def outs del: vwakeup_simps(4))
  qed (use b(2) outs vinvD(1) [OF inv, of p] vinvD(5) [OF inv, of p] vinvD(7) [OF inv] pc in \<open>simp_all\<close>)
  then show ?thesis using b(1) by (simp add: vwakeup_set_vdk)
qed

lemma vinv_unlock:
  assumes inv: "vinv L D s" and p: "p < NPROC" and pc: "vpcs s p = VFree r []"
  shows "vinv L D (vgoto p (VReturned r) (set_vowner None s))"
  by (rule vinv_shift [OF inv p]) (use pc vinvD(1) [OF inv, of p] in auto)

lemma virtio_deviceD:
  assumes "virtio_device L D"
  shows "same_queue D d (snd (vrd D INTERRUPT_STATUS d))" "same_queue D d (vwr D INTERRUPT_ACK v d)" "same_queue D d (vwr D QUEUE_NOTIFY v d)"
    "dev_step D (d, m) (d', m') \<Longrightarrow> fetches D d m d' m' \<or> completes L D d m d' m'"
  using assms unfolding virtio_device_def by blast+

lemma same_queue_trans: "same_queue D d d' \<Longrightarrow> same_queue D d' d'' \<Longrightarrow> same_queue D d d''"
  by (simp add: same_queue_def)

lemma same_queue_outs: "same_queue D d d' \<Longrightarrow> outs D d' k = outs D d k" "same_queue D d d' \<Longrightarrow> unfetched D d' k = unfetched D d k"
  by (simp_all add: same_queue_def outs_def unfetched_def)

lemma same_queue_notify: "virtio_device L D \<Longrightarrow> same_queue D d (notify D d)"
  by (simp add: notify_def virtio_deviceD)

lemma same_queue_acknowledge:
  assumes "virtio_device L D"
  shows "same_queue D d (acknowledge D d)"
  using same_queue_trans [OF virtio_deviceD(1) [OF assms] virtio_deviceD(2) [OF assms]]
  by (simp add: acknowledge_def split_beta)

lemma vinv_process:
  assumes D: "virtio_device L D" and inv: "vinv L D s" and p: "p < NPROC"
  shows "\<exists>s'. rw_next L D p (vpcs s p) s = Some s' \<and> vinv L D s'"
proof (cases "vpcs s p")
  case (VAlloc r got)
  show ?thesis
  proof (cases "length got < 3")
    case True
    obtain i k where a: "allocate_descriptor (vdk s) = Some (i, k)"
      using bitmap_allocate_total [of DESCRIPTOR_NUM "free_map (vdk s)"] by (auto simp: allocate_descriptor_def)
    show ?thesis
    proof (cases i)
      case None
      then have "k = vdk s" "taken (vdk s) = {..<DESCRIPTOR_NUM}" using allocate_descriptor_None [OF vinvD(3) [OF inv]] a by auto
      then show ?thesis using vinv_alloc_sleep [OF inv p VAlloc True] a None VAlloc True by (simp add: set_vdk_def vdk_def)
    next
      case (Some j)
      then show ?thesis using vinv_alloc [OF inv p VAlloc True] a VAlloc True by simp
    qed
  next
    case False
    then show ?thesis using vinv_fill [OF inv p VAlloc False] VAlloc by auto
  qed
next
  case (VPublish r idx)
  then show ?thesis using vinv_publish [OF inv p VPublish same_queue_notify [OF D]] by simp
next
  case (VCheck r idx)
  then show ?thesis using vinv_check [OF inv p VCheck] by auto
next
  case (VFree r "is")
  then show ?thesis using vinv_free [OF inv p] vinv_unlock [OF inv p] by (cases "is") fastforce+
next
  case (VReturned r)
  then show ?thesis using vinv_return [OF inv p] by simp
qed (use inv vinv_lock [OF inv p] in \<open>cases "vowner s", auto\<close>)

subsection \<open>Steps of the handler and of the device\<close>

lemma vinv_env:
  assumes inv: "vinv L D s" and pcs: "vpcs s' = vpcs s"
    and owner: "\<And>q. vowner s' = Some (ByProcess q) \<longleftrightarrow> vowner s = Some (ByProcess q)"
    and wf: "disk_wf (vdk s')" and taken: "taken (vdk s') = taken (vdk s)"
    and same: "\<And>q. same_for (vpcs s q) (set (vouts D s)) (vdk s) (set (vouts D s')) (vdk s')"
    and dist: "distinct (vouts D s')" and set: "set (vouts D s') \<subseteq> set (vouts D s)"
  shows "vinv L D s'"
proof -
  note I = vinvD [OF inv]
  have "proc_ok L (set (vouts D s')) (vdk s') (vpcs s q)" for q by (rule proc_ok_frame [OF I(5) same])
  moreover have "\<exists>p. posted (vpcs s p) = Some h" if "h \<in> set (vouts D s')" for h using I(8) set that by blast
  ultimately show ?thesis unfolding vinv_def Let_def pcs taken owner using I(1-4,6) wf dist by blast
qed

lemma posted_cases:
  assumes inv: "vinv L D s" and h: "h \<in> set (vouts D s)"
  obtains p r idx where "p < NPROC" "posted (vpcs s p) = Some h" "vpcs s p \<in> {VCheck r idx, VAsleep r idx, VWoken r idx}" "idx ! 0 = h"
    "chain_for L r idx (vdk s)" "info_for r idx (set (vouts D s)) (vdk s)"
proof -
  obtain p where p: "posted (vpcs s p) = Some h" using vinvD(8) [OF inv h] by blast
  have "p < NPROC" using vinvD(2) [OF inv, of p] p by (cases "p < NPROC") auto
  then show ?thesis using that [of p] p vinvD(5) [OF inv, of p] by (cases "vpcs s p") auto
qed

lemma completed_next:
  assumes "used_index k \<noteq> us_idx (used_elems k)"
  shows "completed k = unat (ue_id (us_ring (used_elems k) ! (unat (used_index k) mod DESCRIPTOR_NUM))) #
    completed (k\<lparr>infos := x, used_index := used_index k + 1\<rparr>)"
  by (simp add: completed_def span_pop [OF assms, of "us_ring (used_elems k)"])

lemma vinv_handle:
  assumes inv: "vinv L D s" and owner: "vowner s = Some ByHandler" and more: "used_index (vdk s) \<noteq> us_idx (used_elems (vdk s))"
  shows "\<exists>c k. handle_used (vdk s) = Some (c, k) \<and> vinv L D (vwakeup L c (set_vdk k s))"
proof -
  let ?k = "vdk s"
  let ?h = "unat (ue_id (us_ring (used_elems ?k) ! (unat (used_index ?k) mod DESCRIPTOR_NUM)))"
  have "?h \<in> set (vouts D s)" using completed_next [OF more, of "[]"] by (simp add: outs_def)
  then obtain p r idx where p: "p < NPROC" "posted (vpcs s p) = Some ?h" "vpcs s p \<in> {VCheck r idx, VAsleep r idx, VWoken r idx}" "idx ! 0 = ?h"
      "chain_for L r idx ?k" "info_for r idx (set (vouts D s)) ?k"
    by (rule posted_cases [OF inv])
  have bound: "?h < DESCRIPTOR_NUM" using descs_bound(1) [OF inv posted_descs [OF inv p(2)]] .
  let ?x = "(infos ?k)[?h := Some \<lparr>in_addr = rq_addr r, in_use = False, in_status = 0\<rparr>]"
  let ?k' = "?k\<lparr>infos := ?x, used_index := used_index ?k + 1\<rparr>"
  let ?w = "vwakeup L (rq_addr r) s"
  let ?s = "set_vdk ?k' ?w"
  have handle: "handle_used ?k = Some (rq_addr r, ?k')"
    using bound p(4,6) by (simp add: handle_used_def Let_def info_for_def)
  have inv': "vinv L D ?w" by (rule vinv_wakeup [OF inv])
  have "\<not> in_lock (vpcs s p)" using vinvD(1) [OF inv, of p] owner by simp
  then have pc: "vpcs ?w p = VWoken r idx" using p(3) by auto
  have ndist: "?h \<notin> set (vouts D ?s)" and dist: "distinct (vouts D ?s)" and set: "set (vouts D s) = insert ?h (set (vouts D ?s))"
    using vinvD(7) [OF inv] completed_next [OF more, of ?x] by (auto simp: outs_def unfetched_def)
  have "vinv L D ?s"
  proof (rule vinv_move [OF inv' p(1), where c = "VWoken r idx"])
    show "own_ok ((descs \<circ> vpcs ?w)(p := descs (VWoken r idx))) (taken (vdk ?s))"
      using vinvD(4) [OF inv'] pc by (simp add: fun_upd_idem taken_def)
    show "same_for (vpcs ?w q) (set (vouts D ?w)) (vdk ?w) (set (vouts D ?s)) (vdk ?s)" if "q \<noteq> p" for q
    proof (rule same_for_owned [OF inv' that])
      show "descriptors (vdk ?s) ! i = descriptors (vdk ?w) ! i \<and> ops (vdk ?s) ! i = ops (vdk ?w) ! i \<and> infos (vdk ?s) ! i = infos (vdk ?w) ! i \<and>
          (i \<in> set (vouts D ?s) \<longleftrightarrow> i \<in> set (vouts D ?w))" if "i \<notin> set (descs (vpcs ?w p))" for i
      proof -
        have "i \<noteq> ?h" using that posted_descs [OF inv p(2)] by auto
        then show ?thesis using set by auto
      qed
    qed (simp_all add: taken_def)
    show "vpcs ?s = (vpcs ?w)(p := VWoken r idx)" using pc by (simp add: fun_upd_idem)
    show "proc_ok L (set (vouts D ?s)) (vdk ?s) (VWoken r idx)"
      using chain_for_cong [OF p(5), of "vdk ?s"] p(4) ndist bound vinvD(3) [OF inv] by (simp add: info_for_def disk_wf_def)
    show "posted (VWoken r idx) = Some h \<or> h \<in> set (vouts D ?w) \<and> posted (vpcs ?w p) \<noteq> Some h" if "h \<in> set (vouts D ?s)" for h
      using that set ndist p(2,4) by auto
  qed (use vinvD(1) [OF inv, of p] vinvD(3) [OF inv] dist owner in \<open>simp_all add: disk_wf_def\<close>)
  then show ?thesis using handle by (auto simp: vwakeup_set_vdk)
qed

lemma vinv_handler:
  assumes D: "virtio_device L D" and inv: "vinv L D s"
  shows "\<exists>s'. handler_next L D s = Some s' \<and> vinv L D s'"
proof -
  have enter: "vinv L D (set_vowner (Some ByHandler) (set_vdev (acknowledge D (vdev s)) s))" if "vowner s = None"
    by (rule vinv_env [OF inv]) (use that vinvD [OF inv] same_queue_outs [OF same_queue_acknowledge [OF D]] in auto)
  have leave: "vinv L D (set_vowner None s)" if "vowner s = Some ByHandler"
    by (rule vinv_env [OF inv]) (use that vinvD [OF inv] in auto)
  show ?thesis using enter leave inv vinv_handle [OF inv] by (auto simp: handler_next_def)
qed

text \<open>What a request does to memory and disk.\<close>

definition transfer :: "request \<Rightarrow> (usize \<Rightarrow> u8 list) \<times> (nat \<Rightarrow> u8 list) \<Rightarrow> (usize \<Rightarrow> u8 list) \<times> (nat \<Rightarrow> u8 list)" where
  "transfer r = (\<lambda>(mem, secs). let s = unat (sector r); n = unat (rq_size r) div 512 in
     if rq_write r then (mem, put_sectors s n (mem (rq_addr r)) secs) else (mem(rq_addr r := sectors_of s n secs), secs))"

lemma find_inj: "inj_on f {..<n} \<Longrightarrow> i < n \<Longrightarrow> find (\<lambda>j. f j = f i) [0..<n] = Some i"
  by (rule find_upt_SomeI) (auto dest: inj_onD)

lemma posted_chain:
  assumes L: "layout_ok L" and chain: "chain_for L r idx k" and info: "info_for r idx O1 k" and bound: "\<forall>i\<in>set idx. i < DESCRIPTOR_NUM"
  shows "second k (idx ! 0) = idx ! 1" "third k (idx ! 0) = idx ! 2" "request_at L (ops_at L (idx ! 0)) k = Some (rw_op r)"
    "set_status_at L (status_at L (idx ! 0)) 0 k = k" "chain_ok L k (idx ! 0)"
proof -
  have i: "idx ! 0 < DESCRIPTOR_NUM" "idx ! 1 < DESCRIPTOR_NUM" "idx ! 2 < DESCRIPTOR_NUM"
    using bound chain_for_length [OF chain] by simp_all
  show s: "second k (idx ! 0) = idx ! 1" "third k (idx ! 0) = idx ! 2"
    using chain i by (simp_all add: chain_for_def second_def third_def)
  have "find (\<lambda>j. ops_at L j = ops_at L (idx ! 0)) [0..<DESCRIPTOR_NUM] = Some (idx ! 0)"
    "find (\<lambda>j. status_at L j = status_at L (idx ! 0)) [0..<DESCRIPTOR_NUM] = Some (idx ! 0)"
    using L i(1) by (auto simp: layout_ok_def intro: find_inj)
  moreover have "(infos k)[idx ! 0 := Some \<lparr>in_addr = rq_addr r, in_use = (idx ! 0 \<in> O1), in_status = 0\<rparr>] = infos k"
    using info by (metis info_for_def list_update_id)
  ultimately show r: "request_at L (ops_at L (idx ! 0)) k = Some (rw_op r)" and "set_status_at L (status_at L (idx ! 0)) 0 k = k"
    using chain info by (simp_all add: request_at_def set_status_at_def chain_for_def info_for_def)
  show "chain_ok L k (idx ! 0)"
    using chain i r by (simp add: chain_ok_def s chain_for_def rw_op_def)
qed

lemma unat_ucast_small: "unat (w :: usize) < 2 ^ 32 \<Longrightarrow> unat (ucast w :: u32) = unat w"
  by (simp add: unsigned_ucast_eq take_bit_nat_eq_self)

lemma serve_posted:
  assumes L: "layout_ok L" and chain: "chain_for L r idx (vdisk m)" and info: "info_for r idx O1 (vdisk m)"
    and bound: "\<forall>i\<in>set idx. i < DESCRIPTOR_NUM"
  shows "\<exists>w. vdisk (serve L (idx ! 0) m) = push_used (idx ! 0) w (vdisk m)"
    "(vmem (serve L (idx ! 0) m), vsectors (serve L (idx ! 0) m)) = transfer r (vmem m, vsectors m)"
proof -
  note P = posted_chain [OF L chain info bound]
  have d: "desc_addr (descriptors (vdisk m) ! (idx ! 0)) = ops_at L (idx ! 0)" "desc_addr (descriptors (vdisk m) ! (idx ! 1)) = rq_addr r"
    "unat (desc_len (descriptors (vdisk m) ! (idx ! 1))) = unat (rq_size r)" "desc_addr (descriptors (vdisk m) ! (idx ! 2)) = status_at L (idx ! 0)"
    using chain unat_ucast_small by (simp_all add: chain_for_def small_def)
  show "\<exists>w. vdisk (serve L (idx ! 0) m) = push_used (idx ! 0) w (vdisk m)"
    by (auto simp: serve_def Let_def P(1-4) d)
  show "(vmem (serve L (idx ! 0) m), vsectors (serve L (idx ! 0) m)) = transfer r (vmem m, vsectors m)"
    by (simp add: serve_def Let_def P(1-4) d transfer_def rw_op_def del: One_nat_def)
qed

lemma completed_push:
  assumes "length (completed k) < DESCRIPTOR_NUM" "disk_wf k" "h < DESCRIPTOR_NUM"
  shows "completed (push_used h w k) = completed k @ [h]"
proof -
  let ?u = "used_elems k" and ?e = "\<lparr>ue_id = of_nat h, ue_len = w\<rparr>"
  let ?ring = "(us_ring ?u)[unat (us_idx ?u) mod DESCRIPTOR_NUM := ?e]"
  have room: "unat (us_idx ?u - used_index k) < DESCRIPTOR_NUM" using assms(1) by (simp add: completed_def)
  have "?ring ! (unat (us_idx ?u) mod DESCRIPTOR_NUM) = ?e" using assms(2) by (simp add: disk_wf_def DESCRIPTOR_NUM_def)
  then have "span (used_index k) (us_idx ?u + 1) ?ring = span (used_index k) (us_idx ?u) (us_ring ?u) @ [?e]"
    using span_next [OF room] span_put [OF room] by metis
  then show ?thesis using assms(3) by (simp add: completed_def push_used_def Let_def)
qed

lemma push_used_simps [simp]:
  "descriptors (push_used h w k) = descriptors k" "avail_ring (push_used h w k) = avail_ring k" "free_map (push_used h w k) = free_map k"
  "used_index (push_used h w k) = used_index k" "infos (push_used h w k) = infos k" "ops (push_used h w k) = ops k"
  "taken (push_used h w k) = taken k" "unfetched D d (push_used h w k) = unfetched D d k"
  by (simp_all add: push_used_def Let_def taken_def unfetched_def)

lemma disk_wf_push: "disk_wf k \<Longrightarrow> disk_wf (push_used h w k)"
  by (simp add: disk_wf_def push_used_def Let_def)

lemma fetch_outs:
  assumes "fetches D d m d' m'"
  shows "unfetched D d (vdisk m) = last (in_flight D d') # unfetched D d' (vdisk m)" "in_flight D d' = in_flight D d @ [last (in_flight D d')]" "m' = m"
  using assms span_pop [of "last_avail D d" "av_idx (avail_ring (vdisk m))" "av_ring (avail_ring (vdisk m))"]
  by (simp_all add: fetches_def Let_def unfetched_def)

text \<open>A step of the device takes a request from the ring, or completes the request of some process.\<close>

lemma device_cases:
  assumes L: "layout_ok L" and D: "virtio_device L D" and inv: "vinv L D s" and step: "dev_step D (vdev s, vdma s) (d, m)"
  obtains (fetch) "m = vdma s" "fetches D (vdev s) (vdma s) d m"
  | (complete) p r idx w where "p < NPROC" "vpcs s p \<in> {VCheck r idx, VAsleep r idx, VWoken r idx}" "idx ! 0 \<in> set (in_flight D (vdev s))"
      "idx ! 0 \<in> set (descs (vpcs s p))" "last_avail D d = last_avail D (vdev s)" "in_flight D d = remove1 (idx ! 0) (in_flight D (vdev s))"
      "vdisk m = push_used (idx ! 0) w (vdk s)" "(vmem m, vsectors m) = transfer r (vmem (vdma s), vsectors (vdma s))"
proof -
  consider "fetches D (vdev s) (vdma s) d m" | h where "h \<in> set (in_flight D (vdev s))" "last_avail D d = last_avail D (vdev s)"
      "in_flight D d = remove1 h (in_flight D (vdev s))" "chain_ok L (vdk s) h \<longrightarrow> m = serve L h (vdma s)"
    using virtio_deviceD(4) [OF D step] by (auto simp: completes_def vdk_def)
  then show ?thesis
  proof cases
    case 1
    then show ?thesis using fetch [OF fetch_outs(3) [OF 1]] by simp
  next
    case (2 h)
    have "h \<in> set (vouts D s)" using 2(1) by (simp add: outs_def)
    then obtain p r idx where p: "p < NPROC" "posted (vpcs s p) = Some h" "vpcs s p \<in> {VCheck r idx, VAsleep r idx, VWoken r idx}" "idx ! 0 = h"
        "chain_for L r idx (vdk s)" "info_for r idx (set (vouts D s)) (vdk s)"
      by (rule posted_cases [OF inv])
    have bound: "\<forall>i\<in>set idx. i < DESCRIPTOR_NUM" using descs_bound(1) [OF inv, of _ p] p(3) by auto
    have m: "m = serve L h (vdma s)" using 2(4) posted_chain(5) [OF L p(5,6) bound] p(4) by simp
    show ?thesis using complete [OF p(1,3)] 2 p(4) posted_descs [OF inv p(2)]
        serve_posted [OF L p(5,6) [unfolded vdk_def] bound] m by (auto simp: vdk_def)
  qed
qed

end
