(* ===== verification/Virtio_Refinement.thy ===== *)
theory Virtio_Refinement
  imports Virtio_Safety
begin

text \<open>
  The theorems about the driver of the disk. Its specification is \<open>disk_spec\<close>: a call waits, then its transfer happens at one instant, then it returns. This is what
  the buffer cache relies on when it reads and writes the block map of \<open>Buffer\<close>.
\<close>

subsection \<open>The invariant in every reachable state\<close>

lemma vinv_device:
  assumes L: "layout_ok L" and D: "virtio_device L D" and inv: "vinv L D s" and step: "dev_step D (vdev s, vdma s) (d, m)"
  shows "vinv L D (s\<lparr>vdev := d, vdma := m\<rparr>)" (is "vinv L D ?s")
proof (cases rule: device_cases [OF L D inv step, case_names fetch complete])
  case fetch
  have k: "vdk ?s = vdk s" using fetch(1) by (simp add: vdk_def)
  have "vouts D s = last (in_flight D d) # unfetched D d (vdk s) @ in_flight D (vdev s) @ completed (vdk s)"
    "vouts D ?s = unfetched D d (vdk s) @ in_flight D (vdev s) @ last (in_flight D d) # completed (vdk s)"
    using fetch_outs(1,2) [OF fetch(2)] k by (simp_all add: outs_def vdk_def)
  then show ?thesis using vinvD(7) [OF inv] vinvD(3) [OF inv]
    by (intro vinv_env [OF inv]) (auto simp: k same_for_def)
next
  case (complete p r idx w)
  have k: "vdk ?s = push_used (idx ! 0) w (vdk s)" using complete(7) by (simp add: vdk_def)
  have "length (completed (vdk s)) < length (vouts D s)" using complete(3) by (auto simp: outs_def)
  then have room: "length (completed (vdk s)) < DESCRIPTOR_NUM" using outs_length [OF inv] by simp
  have new: "vouts D ?s = unfetched D (vdev s) (vdk s) @ remove1 (idx ! 0) (in_flight D (vdev s)) @ completed (vdk s) @ [idx ! 0]"
    using completed_push [OF room vinvD(3) [OF inv] descs_bound(1) [OF inv complete(4)]] complete(5,6) k
    by (simp add: outs_def unfetched_def)
  have dist: "distinct (vouts D ?s)" and set: "set (vouts D ?s) = set (vouts D s)"
    unfolding new using vinvD(7) [OF inv] complete(3) by (auto simp: outs_def)
  show ?thesis
    by (rule vinv_env [OF inv]) (use dist set disk_wf_push vinvD(3) [OF inv] in \<open>simp_all add: k same_for_def\<close>)
qed

lemma vinv_step:
  assumes "layout_ok L" "virtio_device L D" "vinv L D s" "vstep L D s s'"
  shows "vinv L D s'"
  using assms(4)
proof cases
  case (call p r)
  then show ?thesis using vinv_call [OF assms(3)] by (simp add: small_def)
next
  case (process p)
  then show ?thesis using vinv_process [OF assms(2,3)] by fastforce
next
  case handler
  then show ?thesis using vinv_handler [OF assms(2,3)] by fastforce
next
  case (device d m)
  then show ?thesis using vinv_device [OF assms(1-3)] by simp
qed (use vinv_killed [OF assms(3)] in blast)+

lemma disk_init_new: "disk_init L D d0 = Some (k, d) \<Longrightarrow> k = disk_new"
  by (auto simp: disk_init_def Let_def split: Option.bind_splits prod.splits)

text \<open>The state after \<open>Disk::init\<close>, when the device has not seen a request yet.\<close>

definition vready :: "layout \<Rightarrow> 'd virtio \<Rightarrow> 'd vstate \<Rightarrow> bool" where
  "vready L D s \<longleftrightarrow> (\<exists>d0 k d mem secs. disk_init L D d0 = Some (k, d) \<and> last_avail D d = 0 \<and> in_flight D d = [] \<and> s = vinitial k d mem secs)"

lemma vinv_ready:
  assumes "vready L D s"
  shows "vinv L D s"
proof -
  obtain k d mem secs where s: "k = disk_new" "last_avail D d = 0" "in_flight D d = []" "s = vinitial k d mem secs"
    using assms disk_init_new unfolding vready_def by metis
  have "outs D d disk_new = []" using s(2,3) by (simp add: outs_def unfetched_def completed_def disk_new_def avail_zeroed_def used_zeroed_def)
  then show ?thesis using s
    by (simp add: vinv_def Let_def vinitial_def vdk_def disk_wf_def own_ok_def taken_def disk_new_def avail_zeroed_def used_zeroed_def DESCRIPTOR_NUM_def)
qed

lemma vinv_reachable:
  assumes "layout_ok L" "virtio_device L D" "vready L D s0" "(vstep L D)\<^sup>*\<^sup>* s0 s"
  shows "vinv L D s"
  using assms(4) by induction (use vinv_ready vinv_step assms in blast)+

subsection \<open>The specification\<close>

datatype disk_call = NotCalled | Waiting request | Served request

record adisk =
  amem :: "usize \<Rightarrow> u8 list"
  asectors :: "nat \<Rightarrow> u8 list"
  acalls :: "nat \<Rightarrow> disk_call"

inductive disk_spec :: "adisk \<Rightarrow> adisk \<Rightarrow> bool" where
  calls: "acalls a p = NotCalled \<Longrightarrow> disk_spec a (a\<lparr>acalls := (acalls a)(p := Waiting r)\<rparr>)"
| transfers: "acalls a p = Waiting r \<Longrightarrow> transfer r (amem a, asectors a) = (mem, secs) \<Longrightarrow>
    disk_spec a (a\<lparr>amem := mem, asectors := secs, acalls := (acalls a)(p := Served r)\<rparr>)"
| returns: "acalls a p = Served r \<Longrightarrow> disk_spec a (a\<lparr>acalls := (acalls a)(p := NotCalled)\<rparr>)"

definition pending :: "'d virtio \<Rightarrow> 'd \<Rightarrow> disk \<Rightarrow> nat set" where
  "pending D d k = set (unfetched D d k) \<union> set (in_flight D d)"

fun call_of :: "nat set \<Rightarrow> vpc \<Rightarrow> disk_call" where
  "call_of P VIdle = NotCalled"
| "call_of P (VStart r) = Waiting r"
| "call_of P (VAlloc r is) = Waiting r"
| "call_of P (VAllocAsleep r is) = Waiting r"
| "call_of P (VAllocWoken r is) = Waiting r"
| "call_of P (VPublish r is) = Waiting r"
| "call_of P (VCheck r is) = (if is ! 0 \<in> P then Waiting r else Served r)"
| "call_of P (VAsleep r is) = (if is ! 0 \<in> P then Waiting r else Served r)"
| "call_of P (VWoken r is) = (if is ! 0 \<in> P then Waiting r else Served r)"
| "call_of P (VFree r is) = Served r"
| "call_of P (VReturned r) = Served r"

definition vabs :: "'d virtio \<Rightarrow> 'd vstate \<Rightarrow> adisk" where
  "vabs D s = \<lparr>amem = vmem (vdma s), asectors = vsectors (vdma s), acalls = (\<lambda>p. call_of (pending D (vdev s) (vdk s)) (vpcs s p))\<rparr>"

lemma call_of_wake [simp]: "call_of P (wake_pc L c pc) = call_of P pc"
  by (cases pc) auto

lemma call_of_cong:
  assumes "\<And>h. posted pc = Some h \<Longrightarrow> h \<in> P' \<longleftrightarrow> h \<in> P"
  shows "call_of P' pc = call_of P pc"
  using assms by (cases pc) auto

text \<open>A step of one process that leaves memory, sectors and the calls of the others.\<close>

lemma vabs_move:
  assumes "vmem (vdma s') = vmem (vdma s)" "vsectors (vdma s') = vsectors (vdma s)"
    and "\<And>q. q \<noteq> p \<Longrightarrow> call_of (pending D (vdev s') (vdk s')) (vpcs s' q) = call_of (pending D (vdev s) (vdk s)) (vpcs s q)"
  shows "vabs D s' = (vabs D s)\<lparr>acalls := (acalls (vabs D s))(p := call_of (pending D (vdev s') (vdk s')) (vpcs s' p))\<rparr>"
  using assms by (auto simp: vabs_def)

lemma vabs_same:
  assumes "vmem (vdma s') = vmem (vdma s)" "vsectors (vdma s') = vsectors (vdma s)"
    and "\<And>q. call_of (pending D (vdev s') (vdk s')) (vpcs s' q) = call_of (pending D (vdev s) (vdk s)) (vpcs s q)"
  shows "vabs D s' = vabs D s"
  using assms by (auto simp: vabs_def)

lemma pending_cong: "avail_ring k' = avail_ring k \<Longrightarrow> pending D d k' = pending D d k"
  by (simp add: pending_def unfetched_def)

lemma pending_outs: "pending D d k \<subseteq> set (outs D d k)"
  by (auto simp: pending_def outs_def)

lemma vdma_set_vdk [simp]: "vmem (vdma (set_vdk k s)) = vmem (vdma s)" "vsectors (vdma (set_vdk k s)) = vsectors (vdma s)"
  by (simp_all add: set_vdk_def)

lemma allocate_descriptor_avail: "allocate_descriptor k = Some (r, k') \<Longrightarrow> avail_ring k' = avail_ring k"
  by (auto simp: allocate_descriptor_def split: Option.bind_splits)

lemma free_descriptor_avail: "free_descriptor i k = Some k' \<Longrightarrow> avail_ring k' = avail_ring k"
  by (auto simp: free_descriptor_def split: Option.bind_splits prod.splits)

lemma handle_used_avail: "handle_used k = Some (c, k') \<Longrightarrow> avail_ring k' = avail_ring k"
  by (auto simp: handle_used_def Let_def split: Option.bind_splits)

lemma rw_fill_avail:
  assumes "rw_fill L r idx k = Some k'" "unat (av_idx (avail_ring k) - last_avail D d) < DESCRIPTOR_NUM"
  shows "pending D d k' = pending D d k"
proof -
  have "avail_ring k' = (avail_ring k)\<lparr>av_ring := (av_ring (avail_ring k))[unat (av_idx (avail_ring k)) mod DESCRIPTOR_NUM := of_nat (idx ! 0)]\<rparr>"
    using assms(1) by (auto simp: rw_fill_def Let_def split: Option.bind_splits)
  then show ?thesis using assms(2) by (simp add: pending_def unfetched_def span_put)
qed

lemma vabs_alloc:
  assumes inv: "vinv L D s" and pc: "vpcs s p = VAlloc r got" and step: "rw_next L D p (VAlloc r got) s = Some s'"
  shows "vabs D s' = vabs D s"
proof (cases "length got < 3")
  case True
  then obtain i k where k: "allocate_descriptor (vdk s) = Some (i, k)"
    "s' = (case i of Some i \<Rightarrow> vgoto p (VAlloc r (got @ [i])) (set_vdk k s) | None \<Rightarrow> vgoto p (VAllocAsleep r got) (set_vowner None (set_vdk k s)))"
    using step by (auto split: Option.bind_splits option.splits)
  then show ?thesis using pending_cong [OF allocate_descriptor_avail [OF k(1)], of D "vdev s"] pc
    by (intro vabs_same) (auto split: option.splits)
next
  case False
  then obtain k where k: "rw_fill L r got (vdk s) = Some k" "s' = vgoto p (VPublish r got) (set_vdk k s)"
    using step by (auto split: Option.bind_splits)
  have "got \<noteq> []" using False by auto
  then have "got ! 0 \<in> set (descs (vpcs s p))" using pc by simp
  then have "length (vouts D s) < DESCRIPTOR_NUM" by (rule not_posted(2) [OF inv]) (simp add: pc)
  then have "unat (av_idx (avail_ring (vdk s)) - last_avail D (vdev s)) < DESCRIPTOR_NUM" by (simp add: outs_def unfetched_def)
  from rw_fill_avail [OF k(1) this] show ?thesis using pc k(2) by (intro vabs_same) auto
qed

lemma pending_publish:
  assumes inv: "vinv L D s" and pc: "vpcs s p = VPublish r idx" and d: "same_queue D (vdev s) d"
  shows "pending D d (rw_publish (vdk s)) = insert (idx ! 0) (pending D (vdev s) (vdk s))"
proof -
  note P = publish_ready [OF inv pc]
  have "unfetched D d (rw_publish (vdk s)) = unfetched D (vdev s) (vdk s) @ [idx ! 0]"
    using span_next [OF P(5,3)] d descs_bound(1) [OF inv P(4)] by (simp add: unfetched_def rw_publish_def same_queue_def)
  then show ?thesis using d by (auto simp: pending_def same_queue_def)
qed

lemma vabs_process:
  assumes D: "virtio_device L D" and inv: "vinv L D s" and p: "p < NPROC" and step: "rw_next L D p (vpcs s p) s = Some s'"
  shows "vabs D s' = vabs D s \<or> disk_spec (vabs D s) (vabs D s')"
proof (cases "vpcs s p")
  case (VAlloc r got)
  then show ?thesis using vabs_alloc [OF inv VAlloc] step by simp
next
  case (VPublish r idx)
  then have s': "s' = vgoto p (VCheck r idx) (set_vdev (notify D (vdev s)) (set_vdk (rw_publish (vdk s)) s))" using step by simp
  have P: "pending D (vdev s') (vdk s') = insert (idx ! 0) (pending D (vdev s) (vdk s))"
    using pending_publish [OF inv VPublish same_queue_notify [OF D]] s' by simp
  have h: "idx ! 0 \<in> set (descs (vpcs s p))" using vinvD(5) [OF inv, of p] VPublish chain_for_head by auto
  have "call_of (pending D (vdev s') (vdk s')) (vpcs s' q) = call_of (pending D (vdev s) (vdk s)) (vpcs s q)" for q
  proof (cases "q = p")
    case True
    then show ?thesis using P VPublish s' by simp
  next
    case False
    have "call_of (pending D (vdev s') (vdk s')) (vpcs s q) = call_of (pending D (vdev s) (vdk s)) (vpcs s q)"
      using posted_descs [OF inv, of q] descs_other [OF inv h] False unfolding P by (intro call_of_cong) blast
    then show ?thesis using False s' by simp
  qed
  then show ?thesis using s' by (intro disjI1 vabs_same) simp_all
next
  case (VCheck r idx)
  have ok: "info_for r idx (set (vouts D s)) (vdk s)" using vinvD(5) [OF inv, of p] VCheck by auto
  have "idx ! 0 \<notin> pending D (vdev s) (vdk s)" if "idx ! 0 \<notin> set (vouts D s)" using that pending_outs [of D "vdev s" "vdk s"] by blast
  then show ?thesis using step VCheck read_in_use_eq [OF ok]
    by (intro disjI1 vabs_same) (auto split: if_splits)
next
  case (VFree r "is")
  then show ?thesis
  proof (cases "is")
    case (Cons i js)
    then obtain k where k: "free_descriptor i (vdk s) = Some k" "s' = vgoto p (VFree r js) (vwakeup L (disk_at L) (set_vdk k s))"
      using step VFree by (auto split: Option.bind_splits)
    then show ?thesis using pending_cong [OF free_descriptor_avail [OF k(1)], of D "vdev s"] VFree
      by (intro disjI1 vabs_same) auto
  qed (use step VFree in \<open>auto intro!: vabs_same\<close>)
next
  case (VReturned r)
  then have s': "s' = vgoto p VIdle s" using step by simp
  have "vabs D s' = (vabs D s)\<lparr>acalls := (acalls (vabs D s))(p := NotCalled)\<rparr>" unfolding s' by (subst vabs_move [where p = p]) auto
  then show ?thesis using disk_spec.returns [of "vabs D s" p r] VReturned by (simp add: vabs_def)
qed (use step in \<open>auto intro!: vabs_same split: if_splits\<close>)

lemma vabs_handler:
  assumes D: "virtio_device L D" and step: "handler_next L D s = Some s'"
  shows "vabs D s' = vabs D s"
proof -
  have enter: "vabs D (set_vowner w (set_vdev (acknowledge D (vdev s)) s)) = vabs D s" for w
    using same_queue_acknowledge [OF D, of "vdev s"] same_queue_outs(2) [OF same_queue_acknowledge [OF D], of "vdev s"]
    by (intro vabs_same) (simp_all add: pending_def same_queue_def)
  have leave: "vabs D (set_vowner w s) = vabs D s" for w by (intro vabs_same) simp_all
  have handle: "vabs D (vwakeup L c (set_vdk k s)) = vabs D s" if "handle_used (vdk s) = Some (c, k)" for c k
    using pending_cong [OF handle_used_avail [OF that], of D "vdev s"] by (intro vabs_same) simp_all
  show ?thesis using step enter leave handle
    by (auto simp: handler_next_def split: if_splits Option.bind_splits)
qed

lemma vabs_device:
  assumes L: "layout_ok L" and D: "virtio_device L D" and inv: "vinv L D s" and step: "dev_step D (vdev s, vdma s) (d, m)"
  shows "vabs D (s\<lparr>vdev := d, vdma := m\<rparr>) = vabs D s \<or> disk_spec (vabs D s) (vabs D (s\<lparr>vdev := d, vdma := m\<rparr>))"
    (is "vabs D ?s = _ \<or> _")
proof (cases rule: device_cases [OF L D inv step, case_names fetch complete])
  case fetch
  have "set (in_flight D d) = insert (last (in_flight D d)) (set (in_flight D (vdev s)))"
    by (subst fetch_outs(2) [OF fetch(2)]) simp
  then have "pending D d (vdk ?s) = pending D (vdev s) (vdk s)"
    using fetch_outs(1) [OF fetch(2)] fetch(1) by (simp add: pending_def vdk_def)
  then show ?thesis using fetch(1) by (intro disjI1 vabs_same) simp_all
next
  case (complete p r idx w)
  let ?P = "pending D (vdev s) (vdk s)"
  have h: "idx ! 0 \<in> ?P" using complete(3) by (simp add: pending_def)
  have "distinct (unfetched D (vdev s) (vdk s) @ in_flight D (vdev s))" using vinvD(7) [OF inv] by (auto simp: outs_def)
  then have P: "pending D d (vdk ?s) = ?P - {idx ! 0}"
    using complete(3,5,6,7) by (auto simp: pending_def vdk_def unfetched_def)
  have other: "call_of (?P - {idx ! 0}) (vpcs s q) = call_of ?P (vpcs s q)" if "q \<noteq> p" for q
    using posted_descs [OF inv, of q] descs_other [OF inv complete(4)] that by (intro call_of_cong) blast
  have "vabs D ?s = (vabs D s)\<lparr>amem := vmem m, asectors := vsectors m, acalls := (acalls (vabs D s))(p := Served r)\<rparr>"
    using other complete(2) P by (auto simp: vabs_def fun_eq_iff)
  moreover have "acalls (vabs D s) p = Waiting r" using complete(2) h by (auto simp: vabs_def)
  moreover have "transfer r (amem (vabs D s), asectors (vabs D s)) = (vmem m, vsectors m)" using complete(8) by (simp add: vabs_def)
  ultimately show ?thesis using disk_spec.transfers [of "vabs D s" p r "vmem m" "vsectors m"] by simp
qed

lemma vabs_step:
  assumes "layout_ok L" "virtio_device L D" "vinv L D s" "vstep L D s s'"
  shows "vabs D s' = vabs D s \<or> disk_spec (vabs D s) (vabs D s')"
  using assms(4)
proof cases
  case (call p r)
  then have "vabs D s' = (vabs D s)\<lparr>acalls := (acalls (vabs D s))(p := Waiting r)\<rparr>" by (subst vabs_move [where p = p]) auto
  then show ?thesis using disk_spec.calls [of "vabs D s" p r] call by (simp add: vabs_def)
next
  case (process p)
  then show ?thesis using vabs_process [OF assms(2,3)] by blast
next
  case handler
  then show ?thesis using vabs_handler [OF assms(2)] by blast
next
  case (device d m)
  then show ?thesis using vabs_device [OF assms(1-3)] by blast
qed (auto intro!: vabs_same)

lemma vabs_reachable:
  assumes "layout_ok L" "virtio_device L D" "vready L D s0" "(vstep L D)\<^sup>*\<^sup>* s0 s"
  shows "disk_spec\<^sup>*\<^sup>* (vabs D s0) (vabs D s)"
  using assms(4)
proof induction
  case (step s s')
  then show ?case using vabs_step [OF assms(1,2) vinv_reachable [OF assms(1-3) step(1)] step(2)]
    by (metis rtranclp.rtrancl_into_rtrancl)
qed simp

end
