(* ===== verification/Virtio_Progress.thy ===== *)
theory Virtio_Progress
  imports Virtio_Refinement
begin

text \<open>
  No request waits forever. \<open>vprogress\<close> are the steps that bring requests forward: those of processes that are not asleep and do not wait for the lock, those of the
  handler when the ring \<open>used\<close> is not empty, and those of the device. As long as a process is in \<open>rw\<close> there is such a step,
  and there are only finitely many of them in a row.
\<close>

fun movable :: "vholder option \<Rightarrow> vpc \<Rightarrow> bool" where
  "movable w VIdle = False"
| "movable w (VStart r) = (w = None)"
| "movable w (VAllocWoken r is) = (w = None)"
| "movable w (VWoken r is) = (w = None)"
| "movable w (VAllocAsleep r is) = False"
| "movable w (VAsleep r is) = False"
| "movable w pc = True"

definition handler_work :: "'d vstate \<Rightarrow> bool" where
  "handler_work s \<longleftrightarrow> vowner s = Some ByHandler \<or> vowner s = None \<and> used_index (vdk s) \<noteq> us_idx (used_elems (vdk s))"

inductive vprogress :: "layout \<Rightarrow> 'd virtio \<Rightarrow> 'd vstate \<Rightarrow> 'd vstate \<Rightarrow> bool" for L D where
  by_process: "p < NPROC \<Longrightarrow> movable (vowner s) (vpcs s p) \<Longrightarrow> rw_next L D p (vpcs s p) s = Some s' \<Longrightarrow> vprogress L D s s'"
| by_handler: "handler_work s \<Longrightarrow> handler_next L D s = Some s' \<Longrightarrow> vprogress L D s s'"
| by_device: "dev_step D (vdev s, vdma s) (d, m) \<Longrightarrow> vprogress L D s (s\<lparr>vdev := d, vdma := m\<rparr>)"

lemma vprogress_step: "vprogress L D s s' \<Longrightarrow> vstep L D s s'"
  by (cases rule: vprogress.cases) (auto intro: vstep.intros)

subsection \<open>There is always a step\<close>

lemma vinv_full:
  assumes inv: "vinv L D s" and owner: "vowner s = None" and full: "taken (vdk s) = {..<DESCRIPTOR_NUM}"
  shows "\<exists>q<NPROC. length (descs (vpcs s q)) = 3"
proof (rule ccontr)
  assume "\<not> (\<exists>q<NPROC. length (descs (vpcs s q)) = 3)"
  then have no3: "length (descs (vpcs s q)) \<noteq> 3" if "q < NPROC" for q using that by blast
  have len: "length (descs (vpcs s q)) \<in> {0, 2, 3}" "length (descs (vpcs s q)) = 2 \<longleftrightarrow> partial (vpcs s q)" for q
    using proc_ok_length [OF vinvD(5) [OF inv] vinv_none [OF inv owner]] by blast+
  show False
  proof (cases "\<exists>q<NPROC. partial (vpcs s q)")
    case True
    then obtain q where q: "q < NPROC" "partial (vpcs s q)" by blast
    have "length (descs (vpcs s i)) = 0" if "i \<in> {..<NPROC} - {q}" for i
      using that no3 [of i] len [of i] vinvD(6) [OF inv, of i q] q by auto
    then have "(\<Sum>i\<in>{..<NPROC} - {q}. length (descs (vpcs s i))) = 0" by simp
    then show False using descs_sum [OF inv full] sum_split [OF q(1), of "\<lambda>i. length (descs (vpcs s i))"] len(2) [of q] q(2) by simp
  next
    case False
    then have "length (descs (vpcs s i)) = 0" if "i < NPROC" for i using that no3 [of i] len [of i] by auto
    then have "(\<Sum>i<NPROC. length (descs (vpcs s i))) = 0" by simp
    then show False using descs_sum [OF inv full] by simp
  qed
qed

lemma outs_progress:
  assumes D: "virtio_device L D" and inv: "vinv L D s" and live: "device_live D" and owner: "vowner s = None" and more: "vouts D s \<noteq> []"
  shows "\<exists>s'. vprogress L D s s'"
proof (cases "last_avail D (vdev s) \<noteq> av_idx (avail_ring (vdk s)) \<or> in_flight D (vdev s) \<noteq> []")
  case True
  then obtain d m where "dev_step D (vdev s, vdma s) (d, m)" using live unfolding device_live_def vdk_def by blast
  then show ?thesis by (intro exI) (rule vprogress.by_device)
next
  case False
  then have "completed (vdk s) \<noteq> []" using more by (auto simp: outs_def unfetched_def)
  then have "handler_work s" using owner by (auto simp: handler_work_def completed_def)
  then show ?thesis using vinv_handler [OF D inv] vprogress.by_handler by blast
qed

lemma asleep_progress:
  assumes D: "virtio_device L D" and inv: "vinv L D s" and live: "device_live D" and owner: "vowner s = None"
    and p: "p < NPROC" "vpcs s p \<in> {VAsleep r idx, VWoken r idx}"
  shows "\<exists>s'. vprogress L D s s'"
proof (cases "movable (vowner s) (vpcs s p)")
  case True
  then show ?thesis using vinv_process [OF D inv p(1)] vprogress.by_process [OF p(1)] by blast
next
  case False
  then have "vouts D s \<noteq> []" using p(2) owner vinvD(5) [OF inv, of p] by auto
  then show ?thesis by (rule outs_progress [OF D inv live owner])
qed

lemma progress_exists:
  assumes D: "virtio_device L D" and inv: "vinv L D s" and live: "device_live D" and busy: "vpcs s p \<noteq> VIdle"
  shows "\<exists>s'. vprogress L D s s'"
proof -
  have move: "\<exists>s'. vprogress L D s s'" if "q < NPROC" "movable (vowner s) (vpcs s q)" for q
    using vinv_process [OF D inv that(1)] vprogress.by_process [OF that] by blast
  have p: "p < NPROC" using vinvD(2) [OF inv, of p] busy by (meson not_le)
  show ?thesis
  proof (cases "vowner s")
    case None
    have wait: "\<exists>s'. vprogress L D s s'" if "taken (vdk s) = {..<DESCRIPTOR_NUM}"
    proof -
      obtain q where q: "q < NPROC" "length (descs (vpcs s q)) = 3" using vinv_full [OF inv None \<open>taken (vdk s) = {..<DESCRIPTOR_NUM}\<close>] by blast
      then obtain r idx where "vpcs s q \<in> {VAsleep r idx, VWoken r idx}"
        using vinvD(5) [OF inv, of q] vinv_none [OF inv None, of q] by (cases "vpcs s q") auto
      then show ?thesis by (rule asleep_progress [OF D inv live None q(1)])
    qed
    show ?thesis using busy move [OF p] wait asleep_progress [OF D inv live None p] vinvD(5) [OF inv, of p] None
      by (cases "vpcs s p") auto
  next
    case (Some w)
    show ?thesis
    proof (cases w)
      case (ByProcess q)
      then have "in_lock (vpcs s q)" using vinvD(1) [OF inv, of q] Some by simp
      then have "q < NPROC" "movable (vowner s) (vpcs s q)"
        using vinvD(2) [OF inv, of q] by (cases "q < NPROC", auto) (cases "vpcs s q"; auto)
      then show ?thesis by (rule move)
    next
      case ByHandler
      then have "handler_work s" using Some by (simp add: handler_work_def)
      then show ?thesis using vinv_handler [OF D inv] vprogress.by_handler by blast
    qed
  qed
qed

subsection \<open>There are finitely many steps\<close>

text \<open>\<open>rank\<close> only falls from call to return; steps that leave it unchanged lower \<open>unrest\<close>.\<close>

fun rank :: "vpc \<Rightarrow> nat" where
  "rank VIdle = 0"
| "rank (VReturned r) = 1"
| "rank (VFree r is) = 2 + length is"
| "rank (VCheck r is) = 6"
| "rank (VAsleep r is) = 6"
| "rank (VWoken r is) = 6"
| "rank (VPublish r is) = 10"
| "rank (VAlloc r is) = 14 - length is"
| "rank (VAllocAsleep r is) = 14 - length is"
| "rank (VAllocWoken r is) = 14 - length is"
| "rank (VStart r) = 15"

fun unrest :: "vpc \<Rightarrow> nat" where
  "unrest (VAllocWoken r is) = 2"
| "unrest (VWoken r is) = 2"
| "unrest (VAlloc r is) = 1"
| "unrest (VCheck r is) = 1"
| "unrest pc = 0"

definition queue_weight :: "'d virtio \<Rightarrow> 'd \<Rightarrow> disk \<Rightarrow> nat" where
  "queue_weight D d k = 3 * length (unfetched D d k) + 2 * length (in_flight D d) + length (completed k)"

definition handler_unrest :: "'d vstate \<Rightarrow> nat" where
  "handler_unrest s = (if vowner s = Some ByHandler then 1 else if completed (vdk s) \<noteq> [] then 2 else 0)"

definition work :: "'d virtio \<Rightarrow> 'd vstate \<Rightarrow> nat" where
  "work D s = (\<Sum>p<NPROC. rank (vpcs s p)) + queue_weight D (vdev s) (vdk s)"

definition restless :: "'d vstate \<Rightarrow> nat" where
  "restless s = (\<Sum>p<NPROC. unrest (vpcs s p)) + handler_unrest s"

lemma sum_upd:
  fixes f :: "vpc \<Rightarrow> nat" and p n :: nat
  assumes "p < n"
  shows "(\<Sum>q<n. f ((g(p := c)) q)) + f (g p) = (\<Sum>q<n. f (g q)) + f c"
proof -
  have "(\<Sum>q\<in>{..<n} - {p}. f ((g(p := c)) q)) = (\<Sum>q\<in>{..<n} - {p}. f (g q))" by (rule sum.cong) auto
  then show ?thesis using sum_split [OF assms, of "\<lambda>q. f ((g(p := c)) q)"] sum_split [OF assms, of "\<lambda>q. f (g q)"] by simp
qed

lemma rank_wake [simp]: "rank (wake_pc L c pc) = rank pc"
  by (cases pc) auto

lemma work_move:
  assumes p: "p < NPROC" and pcs: "\<And>q. q \<noteq> p \<Longrightarrow> rank (vpcs s' q) = rank (vpcs s q)"
    and less: "rank (vpcs s' p) + queue_weight D (vdev s') (vdk s') < rank (vpcs s p) + queue_weight D (vdev s) (vdk s)"
  shows "work D s' < work D s"
proof -
  have "(\<Sum>q\<in>{..<NPROC} - {p}. rank (vpcs s' q)) = (\<Sum>q\<in>{..<NPROC} - {p}. rank (vpcs s q))" by (rule sum.cong) (use pcs in auto)
  then show ?thesis using less sum_split [OF p, of "\<lambda>q. rank (vpcs s' q)"] sum_split [OF p, of "\<lambda>q. rank (vpcs s q)"]
    by (simp add: work_def)
qed

lemma work_same:
  assumes p: "p < NPROC" and s': "vpcs s' = (vpcs s)(p := c)" "vdev s' = vdev s" "vdk s' = vdk s" and rank: "rank c = rank (vpcs s p)"
    and un: "unrest c < unrest (vpcs s p)" and owner: "vowner s' \<noteq> Some ByHandler" "vowner s \<noteq> Some ByHandler"
  shows "work D s' = work D s \<and> restless s' < restless s"
proof -
  have "handler_unrest s' = handler_unrest s" using owner s'(3) by (simp add: handler_unrest_def)
  then show ?thesis
    using sum_upd [OF p, of rank "vpcs s" c] sum_upd [OF p, of unrest "vpcs s" c] un s' rank by (simp add: work_def restless_def)
qed

definition vsmaller :: "'d virtio \<Rightarrow> ('d vstate \<times> 'd vstate) set" where
  "vsmaller D = inv_image (less_than <*lex*> less_than) (\<lambda>s. (work D s, restless s))"

lemma wf_vsmaller: "wf (vsmaller D)"
  by (simp add: vsmaller_def wf_inv_image wf_lex_prod)

lemma vsmaller_iff: "(s', s) \<in> vsmaller D \<longleftrightarrow> work D s' < work D s \<or> work D s' = work D s \<and> restless s' < restless s"
  by (auto simp: vsmaller_def)

lemma queue_weight_cong:
  "av_idx (avail_ring k') = av_idx (avail_ring k) \<Longrightarrow> us_idx (used_elems k') = us_idx (used_elems k) \<Longrightarrow> used_index k' = used_index k \<Longrightarrow>
   queue_weight D d k' = queue_weight D d k"
  by (simp add: queue_weight_def unfetched_def completed_def)

lemma alloc_smaller:
  assumes inv: "vinv L D s" and p: "p < NPROC" and pc: "vpcs s p = VAlloc r got" and step: "rw_next L D p (VAlloc r got) s = Some s'"
  shows "(s', s) \<in> vsmaller D"
proof (cases "length got < 3")
  case True
  obtain i k where k: "allocate_descriptor (vdk s) = Some (i, k)"
    "s' = (case i of Some i \<Rightarrow> vgoto p (VAlloc r (got @ [i])) (set_vdk k s) | None \<Rightarrow> vgoto p (VAllocAsleep r got) (set_vowner None (set_vdk k s)))"
    using step True by (auto split: Option.bind_splits option.splits)
  show ?thesis
  proof (cases i)
    case None
    then have "k = vdk s" using allocate_descriptor_None [OF vinvD(3) [OF inv]] k(1) by auto
    then have "work D s' = work D s \<and> restless s' < restless s"
      using pc k(2) None vinvD(1) [OF inv, of p] by (intro work_same [OF p, where c = "VAllocAsleep r got"]) auto
    then show ?thesis by (simp add: vsmaller_iff)
  next
    case (Some j)
    then have "\<exists>b. k = (vdk s)\<lparr>free_map := b\<rparr>" using allocate_descriptor_Some(5) [OF vinvD(3) [OF inv]] k(1) by simp
    then have "queue_weight D (vdev s) k = queue_weight D (vdev s) (vdk s)" by (auto intro: queue_weight_cong)
    then have "work D s' < work D s" using pc k(2) Some True by (intro work_move [OF p]) auto
    then show ?thesis by (simp add: vsmaller_iff)
  qed
next
  case False
  have "length got \<le> 3" using vinvD(5) [OF inv, of p] pc by simp
  obtain k where k: "rw_fill L r got (vdk s) = Some k" "s' = vgoto p (VPublish r got) (set_vdk k s)"
    using step False by (auto split: Option.bind_splits)
  have "queue_weight D (vdev s) k = queue_weight D (vdev s) (vdk s)"
    using k(1) by (intro queue_weight_cong) (auto simp: rw_fill_def Let_def split: Option.bind_splits)
  then have "work D s' < work D s" using pc k(2) False \<open>length got \<le> 3\<close> by (intro work_move [OF p]) auto
  then show ?thesis by (simp add: vsmaller_iff)
qed

lemma publish_smaller:
  assumes D: "virtio_device L D" and inv: "vinv L D s" and p: "p < NPROC" and pc: "vpcs s p = VPublish r idx"
  shows "(vgoto p (VCheck r idx) (set_vdev (notify D (vdev s)) (set_vdk (rw_publish (vdk s)) s)), s) \<in> vsmaller D" (is "(?s, s) \<in> _")
proof -
  note room = publish_ready(5) [OF inv pc]
  have q: "same_queue D (vdev s) (notify D (vdev s))" by (rule same_queue_notify [OF D])
  have "unat (av_idx (avail_ring (vdk s)) + 1 - last_avail D (vdev s)) = Suc (unat (av_idx (avail_ring (vdk s)) - last_avail D (vdev s)))"
    using room by (intro span_Suc) (simp add: DESCRIPTOR_NUM_def)
  then have "queue_weight D (vdev ?s) (vdk ?s) = queue_weight D (vdev s) (vdk s) + 3"
    using q by (simp add: queue_weight_def unfetched_def completed_def rw_publish_def same_queue_def)
  then have "work D ?s < work D s" using pc by (intro work_move [OF p]) auto
  then show ?thesis by (simp add: vsmaller_iff)
qed

lemma free_smaller:
  assumes p: "p < NPROC" and pc: "vpcs s p = VFree r is" and step: "rw_next L D p (VFree r is) s = Some s'"
  shows "(s', s) \<in> vsmaller D"
proof (cases "is")
  case Nil
  then have "work D s' < work D s" using step pc by (intro work_move [OF p]) auto
  then show ?thesis by (simp add: vsmaller_iff)
next
  case (Cons i js)
  then obtain k where k: "free_descriptor i (vdk s) = Some k" "s' = vgoto p (VFree r js) (vwakeup L (disk_at L) (set_vdk k s))"
    using step by (auto split: Option.bind_splits)
  have "queue_weight D (vdev s) k = queue_weight D (vdev s) (vdk s)"
    using k(1) by (intro queue_weight_cong) (auto simp: free_descriptor_def split: Option.bind_splits prod.splits)
  then have "work D s' < work D s" using pc k(2) Cons by (intro work_move [OF p]) auto
  then show ?thesis by (simp add: vsmaller_iff)
qed

lemma relock_smaller:
  assumes p: "p < NPROC" and owner: "vowner s = None" and rank: "rank c = rank (vpcs s p)" and un: "unrest c < unrest (vpcs s p)"
  shows "(vgoto p c (set_vowner (Some (ByProcess p)) s), s) \<in> vsmaller D"
  using work_same [OF p, of "vgoto p c (set_vowner (Some (ByProcess p)) s)" s c D] assms by (simp add: vsmaller_iff)

lemma check_smaller:
  assumes inv: "vinv L D s" and p: "p < NPROC" and pc: "vpcs s p = VCheck r idx" and step: "rw_next L D p (VCheck r idx) s = Some s'"
  shows "(s', s) \<in> vsmaller D"
proof -
  have chain: "length idx = 3" using vinvD(5) [OF inv, of p] pc chain_for_length by auto
  obtain b where b: "s' = (if b then vgoto p (VAsleep r idx) (set_vowner None s) else vgoto p (VFree r idx) s)"
    using step by (auto split: Option.bind_splits)
  have owner: "vowner s = Some (ByProcess p)" using vinvD(1) [OF inv, of p] pc by simp
  have "(vgoto p (VFree r idx) s, s) \<in> vsmaller D"
    using work_move [OF p, of "vgoto p (VFree r idx) s" s D] pc chain by (simp add: vsmaller_iff)
  moreover have "(vgoto p (VAsleep r idx) (set_vowner None s), s) \<in> vsmaller D"
    using work_same [OF p, of "vgoto p (VAsleep r idx) (set_vowner None s)" s "VAsleep r idx" D] pc owner by (simp add: vsmaller_iff)
  ultimately show ?thesis using b by simp
qed

lemma process_smaller:
  assumes D: "virtio_device L D" and inv: "vinv L D s" and p: "p < NPROC" and move: "movable (vowner s) (vpcs s p)"
    and step: "rw_next L D p (vpcs s p) s = Some s'"
  shows "(s', s) \<in> vsmaller D"
proof (cases "vpcs s p")
  case (VStart r)
  then have "work D s' < work D s" using step move by (intro work_move [OF p]) auto
  then show ?thesis by (simp add: vsmaller_iff)
next
  case (VReturned r)
  then have "work D s' < work D s" using step by (intro work_move [OF p]) auto
  then show ?thesis by (simp add: vsmaller_iff)
next
  case (VAllocWoken r got)
  then show ?thesis using relock_smaller [OF p, of s "VAlloc r got" D] step move by simp
next
  case (VWoken r idx)
  then show ?thesis using relock_smaller [OF p, of s "VCheck r idx" D] step move by simp
next
  case (VAlloc r got)
  then show ?thesis using alloc_smaller [OF inv p VAlloc] step by simp
next
  case (VPublish r idx)
  then show ?thesis using publish_smaller [OF D inv p VPublish] step by simp
next
  case (VCheck r idx)
  then show ?thesis using check_smaller [OF inv p VCheck] step by simp
next
  case (VFree r "is")
  then show ?thesis using free_smaller [OF p VFree] step by simp
qed (use move in simp_all)

lemma handler_smaller:
  assumes D: "virtio_device L D" and inv: "vinv L D s" and work: "handler_work s" and step: "handler_next L D s = Some s'"
  shows "(s', s) \<in> vsmaller D"
proof (cases "vowner s")
  case None
  then have "used_index (vdk s) \<noteq> us_idx (used_elems (vdk s))" using work by (simp add: handler_work_def)
  then have more: "completed (vdk s) \<noteq> []" using completed_next [of "vdk s" "[]"] by simp
  have s': "s' = set_vowner (Some ByHandler) (set_vdev (acknowledge D (vdev s)) s)" using step None by (simp add: handler_next_def)
  have "work D s' = work D s"
    using same_queue_acknowledge [OF D, of "vdev s"] by (simp add: s' work_def queue_weight_def unfetched_def same_queue_def)
  moreover have "restless s' < restless s" using None more by (simp add: s' restless_def handler_unrest_def)
  ultimately show ?thesis by (simp add: vsmaller_iff)
next
  case (Some w)
  then have w: "vowner s = Some ByHandler" using work by (simp add: handler_work_def)
  show ?thesis
  proof (cases "used_index (vdk s) = us_idx (used_elems (vdk s))")
    case True
    then have "s' = set_vowner None s" using step w by (simp add: handler_next_def)
    then show ?thesis using w True by (simp add: vsmaller_iff work_def restless_def handler_unrest_def completed_def)
  next
    case False
    obtain c k where k: "handle_used (vdk s) = Some (c, k)" "s' = vwakeup L c (set_vdk k s)"
      using step w False by (auto simp: handler_next_def split: Option.bind_splits)
    obtain x where "k = (vdk s)\<lparr>infos := x, used_index := used_index (vdk s) + 1\<rparr>"
      using k(1) by (auto simp: handle_used_def Let_def split: Option.bind_splits)
    then have "queue_weight D (vdev s) k < queue_weight D (vdev s) (vdk s)"
      using completed_next [OF False, of x] by (simp add: queue_weight_def unfetched_def)
    then show ?thesis using k(2) by (simp add: vsmaller_iff work_def)
  qed
qed

lemma device_smaller:
  assumes L: "layout_ok L" and D: "virtio_device L D" and inv: "vinv L D s" and step: "dev_step D (vdev s, vdma s) (d, m)"
  shows "(s\<lparr>vdev := d, vdma := m\<rparr>, s) \<in> vsmaller D" (is "(?s, s) \<in> _")
proof -
  have "queue_weight D d (vdisk m) < queue_weight D (vdev s) (vdk s)"
  proof (cases rule: device_cases [OF L D inv step, case_names fetch complete])
    case fetch
    have "length (in_flight D d) = Suc (length (in_flight D (vdev s)))" by (subst fetch_outs(2) [OF fetch(2)]) simp
    then show ?thesis using fetch_outs(1) [OF fetch(2)] fetch(1) by (simp add: queue_weight_def vdk_def)
  next
    case (complete p r idx w)
    have "length (completed (vdk s)) < length (vouts D s)" using complete(3) by (auto simp: outs_def)
    then have "completed (vdisk m) = completed (vdk s) @ [idx ! 0]"
      using outs_length [OF inv] completed_push [OF _ vinvD(3) [OF inv] descs_bound(1) [OF inv complete(4)]] complete(7) by simp
    moreover have "unfetched D d (vdisk m) = unfetched D (vdev s) (vdk s)" using complete(5,7) by (simp add: unfetched_def)
    moreover have "length (in_flight D (vdev s)) = Suc (length (in_flight D d))"
      using complete(3,6) length_pos_if_in_set [OF complete(3)] by (simp add: length_remove1)
    ultimately show ?thesis by (simp add: queue_weight_def)
  qed
  then show ?thesis by (simp add: vsmaller_iff work_def vdk_def)
qed

lemma vprogress_smaller:
  assumes "layout_ok L" "virtio_device L D" "vinv L D s" "vprogress L D s s'"
  shows "(s', s) \<in> vsmaller D"
  using assms(4) by cases (use process_smaller [OF assms(2,3)] handler_smaller [OF assms(2,3)] device_smaller [OF assms(1-3)] in blast)+

subsection \<open>An example device\<close>

text \<open>A device that answers as the driver expects and serves the requests in the order of the ring.\<close>

definition ex_layout :: layout where
  "ex_layout = \<lparr>desc_at = 0x87f00000, avail_at = 0x87f01000, used_at = 0x87f02000, disk_at = 0x80020000,
     ops_at = (\<lambda>i. 0x80021000 + 16 * of_nat i), status_at = (\<lambda>i. 0x80022000 + 16 * of_nat i)\<rparr>"

definition ex_reg :: "nat \<Rightarrow> u32" where
  "ex_reg r = (if r = MAGIC_VALUE then 0x74726976 else if r = VERSION then 2 else if r = DEVICE_ID then 2
     else if r = VENDOR_ID then 0x554d4551 else if r = STATUS then 15 else if r = QUEUE_NUM_MAX then 1024 else 0)"

definition ex_device :: "(u16 \<times> nat list) virtio" where
  "ex_device = \<lparr>vrd = (\<lambda>r d. (ex_reg r, d)), vwr = (\<lambda>r v d. d), last_avail = fst, in_flight = snd,
     dev_step = (\<lambda>(d, m) (d', m'). fetches \<lparr>vrd = (\<lambda>r d. (ex_reg r, d)), vwr = (\<lambda>r v d. d), last_avail = fst, in_flight = snd, dev_step = (\<lambda>_ _. False)\<rparr> d m d' m' \<or>
       snd d \<noteq> [] \<and> d' = (fst d, tl (snd d)) \<and> m' = serve ex_layout (hd (snd d)) m)\<rparr>"

definition ex_start :: "(u16 \<times> nat list) vstate" where
  "ex_start = vinitial disk_new (0, []) (\<lambda>_. replicate 1024 7) (\<lambda>_. replicate 512 0)"

lemma ex_layout_ok: "layout_ok ex_layout"
proof -
  have 8: "{..<DESCRIPTOR_NUM} = {0, 1, 2, 3, 4, 5, 6, 7}" by (auto simp: DESCRIPTOR_NUM_def)
  show ?thesis unfolding layout_ok_def 8 ex_layout_def by simp
qed

lemma ex_device_ok: "virtio_device ex_layout ex_device"
  by (auto simp: virtio_device_def ex_device_def same_queue_def fetches_def completes_def Let_def neq_Nil_conv)

lemma ex_device_live: "device_live ex_device"
  unfolding device_live_def
proof (intro allI impI)
  fix d :: "u16 \<times> nat list" and m :: dma
  assume a: "last_avail ex_device d \<noteq> av_idx (avail_ring (vdisk m)) \<or> in_flight ex_device d \<noteq> []"
  show "\<exists>d' m'. dev_step ex_device (d, m) (d', m')"
  proof (cases "in_flight ex_device d = []")
    case True
    let ?x = "unat (av_ring (avail_ring (vdisk m)) ! (unat (fst d) mod DESCRIPTOR_NUM))"
    have "dev_step ex_device (d, m) ((fst d + 1, snd d @ [?x]), m)" using a True by (simp add: ex_device_def fetches_def Let_def)
    then show ?thesis by blast
  qed (auto simp: ex_device_def)
qed

lemma ex_disk_ready: "vready ex_layout ex_device ex_start"
proof -
  have "disk_init ex_layout ex_device (0, []) = Some (disk_new, (0, []))"
    by (simp add: disk_init_def expect_reg_def write_addresses_def ex_device_def ex_reg_def Let_def MAGIC_VALUE_def VERSION_def
        DEVICE_ID_def VENDOR_ID_def STATUS_def FEATURES_OK_def QUEUE_READY_def QUEUE_NUM_MAX_def DESCRIPTOR_NUM_def DEVICE_FEATURES_def)
  moreover have "last_avail ex_device (0, []) = 0" "in_flight ex_device (0, []) = []" by (simp_all add: ex_device_def)
  ultimately show ?thesis unfolding vready_def ex_start_def by blast
qed

definition ex_request :: request where
  "ex_request = \<lparr>rq_addr = 0x80030000, rq_block = 33, rq_size = 1024, rq_write = True\<rparr>"

lemma ex_call: "(vstep ex_layout ex_device)\<^sup>*\<^sup>* ex_start (vgoto 0 (VStart ex_request) ex_start)"
  by (intro r_into_rtranclp vstep.call) (simp_all add: NPROC_def ex_start_def vinitial_def ex_request_def)

subsection \<open>Properties\<close>







end
